(* ===== verification/Sdbc_Prelude.thy ===== *)
theory Sdbc_Prelude
  imports "HOL-Library.Word" "HOL-Library.List_Lexorder" "HOL-Library.Monad_Syntax"
begin

text \<open>The prelude of the development: the types the components share (C bytes, the
  macros \<open>MAX\<close> and \<open>MIN\<close> as the sources write them), the collections of facts the
  component proofs use, the library interface of a record comparator (the function
  pointers \<open>Cmp_rec\<close>, \<open>Comp\<close> and \<open>compare\<close> of \<open>src/ds\<close>), and generic lemmas on lists.\<close>

named_theorems depth_simps \<open>depth fields of the balanced tree\<close>
named_theorems ring_simps \<open>queues kept in arrays by index\<close>
named_theorems codec_simps \<open>round trips of encoders and decoders\<close>

type_synonym byte = "8 word"
type_synonym bytes = "byte list"

text \<open>The macros of \<open>BB_tree.h\<close> and \<open>enigma2.c\<close>, branch for branch.\<close>

definition c_MAX :: "int \<Rightarrow> int \<Rightarrow> int" where
  "c_MAX a b = (if a > b then a else b)"

lemma c_MAX_max [depth_simps, simp]: "c_MAX a b = max a b"
  by (simp add: c_MAX_def max_def)

text \<open>The error codes of \<open>strproc.h\<close>.\<close>

definition SYSERR :: int where "SYSERR = -1"
definition LENGERR :: int where "LENGERR = -2"
definition POINTERR :: int where "POINTERR = -3"
definition MEMERR :: int where "MEMERR = -4"
definition THREAD_ESCAPE :: int where "THREAD_ESCAPE = -5"
definition FORMATERR :: int where "FORMATERR = -7"
definition CRCERR :: int where "CRCERR = -8"
definition TIMEOUTERR :: int where "TIMEOUTERR = -11"

lemmas error_codes = SYSERR_def LENGERR_def POINTERR_def MEMERR_def THREAD_ESCAPE_def FORMATERR_def
  CRCERR_def TIMEOUTERR_def

subsection \<open>Comparators\<close>

text \<open>The C library's \<open>memcmp\<close> on the first n bytes of two blocks: the sign of the
  first difference, bytes taken as unsigned.  Both blocks hold at least n bytes where
  the C code calls it; a shorter one compares below its extensions here.\<close>

fun lexcmp :: "bytes \<Rightarrow> bytes \<Rightarrow> int" where
  "lexcmp [] [] = 0"
| "lexcmp [] (b # bs) = -1"
| "lexcmp (a # as) [] = 1"
| "lexcmp (a # as) (b # bs) = (if a < b then -1 else if b < a then 1 else lexcmp as bs)"

definition memcmp :: "bytes \<Rightarrow> bytes \<Rightarrow> nat \<Rightarrow> int" where
  "memcmp a b n = lexcmp (take n a) (take n b)"

lemma lexcmp_less: "lexcmp a b < 0 \<longleftrightarrow> a < b"
  by (induction a b rule: lexcmp.induct) auto

lemma lexcmp_greater: "0 < lexcmp a b \<longleftrightarrow> b < a"
  by (induction a b rule: lexcmp.induct) auto

text \<open>What every client of a comparator relies on: \<open>cmp x k\<close> has the sign of the
  difference of the order keys of the record x and of the search key k.\<close>

locale comparator =
  fixes cmp :: "'a \<Rightarrow> 'k \<Rightarrow> int"
    and rkey :: "'a \<Rightarrow> 'o::linorder"
    and skey :: "'k \<Rightarrow> 'o"
  assumes cmp_pos: "0 < cmp x k \<longleftrightarrow> skey k < rkey x"
    and cmp_neg: "cmp x k < 0 \<longleftrightarrow> rkey x < skey k"
begin

lemma cmp_zero: "cmp x k = 0 \<longleftrightarrow> rkey x = skey k"
  using cmp_pos [of x k] cmp_neg [of x k] by force

lemma cmp_nonpos: "cmp x k \<le> 0 \<longleftrightarrow> rkey x \<le> skey k"
  using cmp_pos [of x k] by (meson not_le)

lemma cmp_nonneg: "0 \<le> cmp x k \<longleftrightarrow> skey k \<le> rkey x"
  using cmp_neg [of x k] by (meson not_le)

lemmas cmp_sign = cmp_pos cmp_neg cmp_zero cmp_nonpos cmp_nonneg

end

text \<open>A comparator between records of one type, under one order key.\<close>

locale rec_comparator = comparator cmp rkey rkey
  for cmp :: "'a \<Rightarrow> 'a \<Rightarrow> int" and rkey :: "'a \<Rightarrow> 'o::linorder"

subsection \<open>Sorted lists of records\<close>

abbreviation sorted_by :: "('a \<Rightarrow> 'o::linorder) \<Rightarrow> 'a list \<Rightarrow> bool" where
  "sorted_by f xs \<equiv> sorted_wrt (<) (map f xs)"

lemmas sorted_by_simps = sorted_wrt_append ball_Un

text \<open>Searching a list, as the specification of the searches.\<close>

lemma find_append: "find P (xs @ ys) = (case find P xs of None \<Rightarrow> find P ys | Some x \<Rightarrow> Some x)"
  by (induction xs) auto

lemma find_none: "(\<forall>x\<in>set xs. \<not> P x) \<Longrightarrow> find P xs = None"
  by (auto simp: find_None_iff)

text \<open>Insertion of a record into a sorted list: a record of equal key is merged with it
  by \<open>dup\<close>.\<close>

fun put :: "('a \<Rightarrow> 'o::linorder) \<Rightarrow> ('a \<Rightarrow> 'a \<Rightarrow> 'a) \<Rightarrow> 'a \<Rightarrow> 'a list \<Rightarrow> 'a list" where
  "put f dup x [] = [x]"
| "put f dup x (y # ys) =
     (if f x < f y then x # y # ys else if f y < f x then y # put f dup x ys else dup y x # ys)"

text \<open>Removal of the record of a key from a sorted list.\<close>

fun del_key :: "('a \<Rightarrow> 'o::linorder) \<Rightarrow> 'o \<Rightarrow> 'a list \<Rightarrow> 'a list" where
  "del_key f k [] = []"
| "del_key f k (y # ys) = (if f y = k then ys else y # del_key f k ys)"

lemma put_append_less:
  "\<forall>y\<in>set xs. f y < f x \<Longrightarrow> put f dup x (xs @ ys) = xs @ put f dup x ys"
  by (induction xs) auto

lemma put_append_greater:
  "f x < f c \<Longrightarrow> put f dup x (xs @ c # ys) = put f dup x xs @ c # ys"
  by (induction xs) auto

lemma set_put_keys:
  "(\<And>y. f (dup y x) = f y) \<Longrightarrow> f ` set (put f dup x xs) = insert (f x) (f ` set xs)"
  by (induction xs) auto

lemma sorted_put:
  assumes "\<And>y. f (dup y x) = f y" "sorted_by f xs"
  shows "sorted_by f (put f dup x xs)"
  using assms(2)
proof (induction xs)
  case (Cons y ys)
  have "f ` set (put f dup x ys) = insert (f x) (f ` set ys)"
    by (rule set_put_keys) (rule assms(1))
  then have mem: "f z = f x \<or> f z \<in> f ` set ys" if "z \<in> set (put f dup x ys)" for z
    using that by blast
  have tail: "sorted_by f (put f dup x ys)" "\<forall>z\<in>set ys. f y < f z" using Cons by auto
  consider "f x < f y" | "f y < f x" | "f x = f y" by fastforce
  then show ?case
  proof cases
    case 2
    then have "f y < f z" if "z \<in> set (put f dup x ys)" for z
      using mem [OF that] tail(2) by auto
    then show ?thesis using 2 tail(1) by auto
  qed (use Cons.prems tail(2) in \<open>auto simp: assms(1)\<close>)
qed simp

lemma del_key_append_less:
  "\<forall>y\<in>set xs. f y < k \<Longrightarrow> del_key f k (xs @ ys) = xs @ del_key f k ys"
  by (induction xs) auto

lemma del_key_absent: "k \<notin> f ` set xs \<Longrightarrow> del_key f k xs = xs"
  by (induction xs) auto

lemma del_key_append_left:
  "\<forall>y\<in>set ys. k < f y \<Longrightarrow> del_key f k (xs @ ys) = del_key f k xs @ ys"
  by (induction xs) (auto intro!: del_key_absent)

lemma set_del_key_subset: "set (del_key f k xs) \<subseteq> set xs"
  by (induction xs) auto

lemma sorted_del_key: "sorted_by f xs \<Longrightarrow> sorted_by f (del_key f k xs)"
proof (induction xs)
  case (Cons y ys)
  then show ?case using set_del_key_subset [of f k ys] by auto
qed simp


text \<open>Counting: a predicate that one index more satisfies.\<close>

lemma count_fill:
  assumes "i < n" "P i" "\<not> Q i" "\<And>j. j < n \<Longrightarrow> j \<noteq> i \<Longrightarrow> P j = Q j"
  shows "length (filter P [0..<n]) = Suc (length (filter Q [0..<n]))"
proof -
  have up: "[0..<n] = [0..<i] @ i # [Suc i..<n]"
    using assms(1) by (metis upt_conv_Cons upt_add_eq_append zero_le less_imp_le_nat le_add_diff_inverse)
  have "filter P [0..<i] = filter Q [0..<i]" "filter P [Suc i..<n] = filter Q [Suc i..<n]"
    using assms(1,4) by (auto intro!: filter_cong)
  then show ?thesis unfolding up using assms(2,3) by simp
qed

end
