(* ===== verification/BB_Tree.thy ===== *)
theory BB_Tree
  imports Sdbc_Prelude
begin

text \<open>The balanced binary tree of \<open>src/ds/tree.c\<close>.\<close>

datatype 'a T_Tree =
    NULL
  | Node (Ldepth: int) (Left: "'a T_Tree") (Content: 'a) (Right: "'a T_Tree") (Rdepth: int)

definition Tree_Cmp ::
    "(bytes \<Rightarrow> bytes \<Rightarrow> nat \<Rightarrow> int) option \<Rightarrow> nat \<Rightarrow> bytes \<Rightarrow> bytes \<Rightarrow> int" where
  "Tree_Cmp Cmp_rec len rec1 rec2 =
     (case Cmp_rec of
        Some f \<Rightarrow> f rec1 rec2 len
      | None \<Rightarrow> (let rc = memcmp rec1 rec2 len in
                 if rc = 0 then 0 else if rc < 0 then -2 else 2))"

text \<open>The recomputed depth of a link: 0 for a null pointer, else the larger depth
  field of the node it points to plus one.\<close>

fun depth_of :: "'a T_Tree \<Rightarrow> int" where
  "depth_of NULL = 0"
| "depth_of (Node ld l c r rd) = c_MAX ld rd + 1"

text \<open>\<open>BB_Tree_Add\<close> after the recursive call, lines 34-73 (left) and 77-117 (right).
  None is the dereference of a null pointer.\<close>

definition add_left_fix :: "'a T_Tree \<Rightarrow> 'a \<Rightarrow> 'a T_Tree \<Rightarrow> int \<Rightarrow> 'a T_Tree option" where
  "add_left_fix l c r rd =
     (case l of
        NULL \<Rightarrow> Some (Node 0 NULL c r rd)
      | Node tld tlf tc trt trd \<Rightarrow>
          (let ld = c_MAX tld trd + 1 in
           if ld - rd \<le> 1 then Some (Node ld l c r rd)
           else if tld \<ge> trd then
             (let sp = Node (depth_of trt) trt c r rd
              in Some (Node tld tlf tc sp (depth_of sp)))
           else
             (case trt of
                NULL \<Rightarrow> None
              | Node ild il ic ir ird \<Rightarrow>
                  (let lsp = Node tld tlf tc il (depth_of il);
                       sp = Node (depth_of ir) ir c r rd
                   in Some (Node (depth_of lsp) lsp ic sp (depth_of sp))))))"

definition add_right_fix :: "int \<Rightarrow> 'a T_Tree \<Rightarrow> 'a \<Rightarrow> 'a T_Tree \<Rightarrow> 'a T_Tree option" where
  "add_right_fix ld l c r =
     (case r of
        NULL \<Rightarrow> Some (Node ld l c NULL 0)
      | Node tld tlf tc trt trd \<Rightarrow>
          (let rd = c_MAX tld trd + 1 in
           if rd - ld \<le> 1 then Some (Node ld l c r rd)
           else if trd \<ge> tld then
             (let sp = Node ld l c tlf (depth_of tlf)
              in Some (Node (depth_of sp) sp tc trt trd))
           else
             (case tlf of
                NULL \<Rightarrow> None
              | Node ild il ic ir ird \<Rightarrow>
                  (let rsp = Node (depth_of ir) ir tc trt trd;
                       sp = Node ld l c il (depth_of il)
                   in Some (Node (depth_of sp) sp ic rsp (depth_of rsp))))))"

text \<open>\<open>BB_Tree_Add\<close>.  \<open>mem\<close> says whether \<open>malloc\<close> succeeds, \<open>user_add\<close> is the optional
  callback on a duplicate, seen as what it makes of the node's content.\<close>

fun BB_Tree_Add :: "bool \<Rightarrow> ('a \<Rightarrow> 'a \<Rightarrow> int) \<Rightarrow> ('a \<Rightarrow> 'a \<Rightarrow> 'a) option
    \<Rightarrow> 'a T_Tree \<Rightarrow> 'a \<Rightarrow> 'a T_Tree option" where
  "BB_Tree_Add mem cmp user_add NULL content =
     Some (if mem then Node 0 NULL content NULL 0 else NULL)"
| "BB_Tree_Add mem cmp user_add (Node ld l c r rd) content =
     (let rc = cmp c content in
      if rc > 0 then
        do { l' \<leftarrow> BB_Tree_Add mem cmp user_add l content; add_left_fix l' c r rd }
      else if rc < 0 then
        do { r' \<leftarrow> BB_Tree_Add mem cmp user_add r content; add_right_fix ld l c r' }
      else
        Some (Node ld l (case user_add of None \<Rightarrow> c | Some f \<Rightarrow> f c content) r rd))"

text \<open>\<open>BB_Tree_Scan\<close>: in order, stopping at the first nonzero result; the callback's
  effect is the threaded state.\<close>

fun BB_Tree_Scan :: "'a T_Tree \<Rightarrow> ('a \<Rightarrow> 's \<Rightarrow> int \<times> 's) \<Rightarrow> 's \<Rightarrow> int \<times> 's" where
  "BB_Tree_Scan NULL proc s = (0, s)"
| "BB_Tree_Scan (Node ld l c r rd) proc s =
     (let (rc, s) = (if l \<noteq> NULL then BB_Tree_Scan l proc s else (0, s)) in
      if rc \<noteq> 0 then (rc, s) else
      let (rc, s) = proc c s in
      if rc \<noteq> 0 then (rc, s) else
      if r \<noteq> NULL then BB_Tree_Scan r proc s else (rc, s))"

text \<open>\<open>BB_Tree_Free\<close>: post-order; the optional callback threads a state, the
  pointer is null afterwards.\<close>

fun BB_Tree_Free :: "'a T_Tree \<Rightarrow> ('a \<Rightarrow> 's \<Rightarrow> 's) option \<Rightarrow> 's \<Rightarrow> 'a T_Tree \<times> 's" where
  "BB_Tree_Free NULL user_free s = (NULL, s)"
| "BB_Tree_Free (Node ld l c r rd) user_free s =
     (let s = snd (BB_Tree_Free l user_free s);
          s = snd (BB_Tree_Free r user_free s)
      in (NULL, case user_free of None \<Rightarrow> s | Some f \<Rightarrow> f c s))"

text \<open>The searches.  Each returns the subtree at the node the code returns a pointer
  to; the loop variable \<open>t\<close> of the neighbour searches is the last argument.\<close>

fun BB_Tree_Find :: "('a \<Rightarrow> 'k \<Rightarrow> int) \<Rightarrow> 'a T_Tree \<Rightarrow> 'k \<Rightarrow> 'a T_Tree" where
  "BB_Tree_Find cmp NULL key = NULL"
| "BB_Tree_Find cmp (Node ld l c r rd) key =
     (let rc = cmp c key in
      if rc = 0 then Node ld l c r rd
      else if rc \<le> 0 then BB_Tree_Find cmp r key
      else BB_Tree_Find cmp l key)"

fun gt_loop :: "('a \<Rightarrow> 'k \<Rightarrow> int) \<Rightarrow> 'a T_Tree \<Rightarrow> 'k \<Rightarrow> 'a T_Tree \<Rightarrow> 'a T_Tree" where
  "gt_loop cmp NULL key t = t"
| "gt_loop cmp (Node ld l c r rd) key t =
     (if cmp c key \<le> 0 then gt_loop cmp r key t
      else gt_loop cmp l key (Node ld l c r rd))"

fun gteq_loop :: "('a \<Rightarrow> 'k \<Rightarrow> int) \<Rightarrow> 'a T_Tree \<Rightarrow> 'k \<Rightarrow> 'a T_Tree \<Rightarrow> 'a T_Tree" where
  "gteq_loop cmp NULL key t = t"
| "gteq_loop cmp (Node ld l c r rd) key t =
     (let rc = cmp c key in
      if rc = 0 then Node ld l c r rd
      else if rc < 0 then gteq_loop cmp r key t
      else gteq_loop cmp l key (Node ld l c r rd))"

fun lt_loop :: "('a \<Rightarrow> 'k \<Rightarrow> int) \<Rightarrow> 'a T_Tree \<Rightarrow> 'k \<Rightarrow> 'a T_Tree \<Rightarrow> 'a T_Tree" where
  "lt_loop cmp NULL key t = t"
| "lt_loop cmp (Node ld l c r rd) key t =
     (if 0 \<le> cmp c key then lt_loop cmp l key t
      else lt_loop cmp r key (Node ld l c r rd))"

fun lteq_loop :: "('a \<Rightarrow> 'k \<Rightarrow> int) \<Rightarrow> 'a T_Tree \<Rightarrow> 'k \<Rightarrow> 'a T_Tree \<Rightarrow> 'a T_Tree" where
  "lteq_loop cmp NULL key t = t"
| "lteq_loop cmp (Node ld l c r rd) key t =
     (let rc = cmp c key in
      if rc = 0 then Node ld l c r rd
      else if rc > 0 then lteq_loop cmp l key t
      else lteq_loop cmp r key (Node ld l c r rd))"

definition BB_Tree_GT :: "('a \<Rightarrow> 'k \<Rightarrow> int) \<Rightarrow> 'a T_Tree \<Rightarrow> 'k \<Rightarrow> 'a T_Tree" where
  "BB_Tree_GT cmp sp key = gt_loop cmp sp key NULL"

definition BB_Tree_GTEQ :: "('a \<Rightarrow> 'k \<Rightarrow> int) \<Rightarrow> 'a T_Tree \<Rightarrow> 'k \<Rightarrow> 'a T_Tree" where
  "BB_Tree_GTEQ cmp sp key = gteq_loop cmp sp key NULL"

definition BB_Tree_LT :: "('a \<Rightarrow> 'k \<Rightarrow> int) \<Rightarrow> 'a T_Tree \<Rightarrow> 'k \<Rightarrow> 'a T_Tree" where
  "BB_Tree_LT cmp sp key = lt_loop cmp sp key NULL"

definition BB_Tree_LTEQ :: "('a \<Rightarrow> 'k \<Rightarrow> int) \<Rightarrow> 'a T_Tree \<Rightarrow> 'k \<Rightarrow> 'a T_Tree" where
  "BB_Tree_LTEQ cmp sp key = lteq_loop cmp sp key NULL"

fun BB_Tree_MAX :: "'a T_Tree \<Rightarrow> 'a T_Tree" where
  "BB_Tree_MAX NULL = NULL"
| "BB_Tree_MAX (Node ld l c r rd) =
     (let t = BB_Tree_MAX r in if t \<noteq> NULL then t else Node ld l c r rd)"

fun BB_Tree_MIN :: "'a T_Tree \<Rightarrow> 'a T_Tree" where
  "BB_Tree_MIN NULL = NULL"
| "BB_Tree_MIN (Node ld l c r rd) =
     (let t = BB_Tree_MIN l in if t \<noteq> NULL then t else Node ld l c r rd)"

fun BB_Tree_Count :: "'a T_Tree \<Rightarrow> ('a T_Tree \<Rightarrow> int) option \<Rightarrow> int" where
  "BB_Tree_Count NULL counter = 0"
| "BB_Tree_Count (Node ld l c r rd) counter =
     BB_Tree_Count l counter
     + (case counter of None \<Rightarrow> 1 | Some f \<Rightarrow> f (Node ld l c r rd))
     + BB_Tree_Count r counter"

subsection \<open>Abstraction and invariants\<close>

fun inorder :: "'a T_Tree \<Rightarrow> 'a list" where
  "inorder NULL = []"
| "inorder (Node ld l c r rd) = inorder l @ c # inorder r"

text \<open>The depth the fields of a node are meant to hold, and that they hold it.\<close>

fun height :: "'a T_Tree \<Rightarrow> int" where
  "height NULL = 0"
| "height (Node ld l c r rd) = max (height l) (height r) + 1"

fun depths_ok :: "'a T_Tree \<Rightarrow> bool" where
  "depths_ok NULL \<longleftrightarrow> True"
| "depths_ok (Node ld l c r rd) \<longleftrightarrow>
     ld = height l \<and> rd = height r \<and> depths_ok l \<and> depths_ok r"

fun balanced :: "'a T_Tree \<Rightarrow> bool" where
  "balanced NULL \<longleftrightarrow> True"
| "balanced (Node ld l c r rd) \<longleftrightarrow>
     \<bar>height l - height r\<bar> \<le> 1 \<and> balanced l \<and> balanced r"

lemma height_nonneg [simp]: "0 \<le> height t"
  by (induction t) auto

lemma height_Node_pos [simp]: "0 < height (Node ld l c r rd)"
  using height_nonneg [of l] by (simp add: max_def)

lemma height_zero_iff [simp]: "height t = 0 \<longleftrightarrow> t = NULL"
  by (cases t) (auto simp del: height.simps(2) simp: less_imp_neq [OF height_Node_pos, symmetric])

lemma height_pos_not_NULL: "height s < height t \<Longrightarrow> t \<noteq> NULL"
  using height_nonneg [of s] by (metis height.simps(1) not_less)

lemma depth_of_height [depth_simps, simp]: "depths_ok t \<Longrightarrow> depth_of t = height t"
  by (cases t) auto

lemma inorder_eq_Nil [simp]: "inorder t = [] \<longleftrightarrow> t = NULL"
  by (cases t) auto

text \<open>One insertion step above a subtree: the rebuilt node keeps the contents in order
  and exact depth fields, and never dereferences null.\<close>

lemma add_left_fix_ok:
  assumes "depths_ok l" "depths_ok r" "rd = height r"
  shows "\<exists>t. add_left_fix l c r rd = Some t \<and> inorder t = inorder l @ c # inorder r \<and> depths_ok t"
proof (cases l)
  case (Node tld tlf tc trt trd)
  then have lt: "trt \<noteq> NULL" if "tld < trd"
    using that assms height_pos_not_NULL by auto
  show ?thesis
  proof (cases trt)
    case NULL
    then show ?thesis using Node assms lt by (auto simp: add_left_fix_def Let_def)
  next
    case (Node ild il ic ir ird)
    then show ?thesis using \<open>l = Node tld tlf tc trt trd\<close> assms
      by (auto simp: add_left_fix_def Let_def)
  qed
qed (use assms in \<open>auto simp: add_left_fix_def\<close>)

lemma add_right_fix_ok:
  assumes "depths_ok l" "depths_ok r" "ld = height l"
  shows "\<exists>t. add_right_fix ld l c r = Some t \<and> inorder t = inorder l @ c # inorder r \<and> depths_ok t"
proof (cases r)
  case (Node tld tlf tc trt trd)
  then have lt: "tlf \<noteq> NULL" if "trd < tld"
    using that assms height_pos_not_NULL by auto
  show ?thesis
  proof (cases tlf)
    case NULL
    then show ?thesis using Node assms lt by (auto simp: add_right_fix_def Let_def)
  next
    case (Node ild il ic ir ird)
    then show ?thesis using \<open>r = Node tld tlf tc trt trd\<close> assms
      by (auto simp: add_right_fix_def Let_def)
  qed
qed (use assms in \<open>auto simp: add_right_fix_def\<close>)

text \<open>The balance of the rebuilt node, when the changed subtree is at most two higher.\<close>

definition grown :: "int \<Rightarrow> int \<Rightarrow> int \<Rightarrow> bool" where
  "grown hl hr h \<longleftrightarrow>
     (if \<bar>hl - hr\<bar> \<le> 1 then h = max hl hr + 1 else h = max hl hr \<or> h = max hl hr + 1)"

lemma add_left_fix_balanced:
  assumes "add_left_fix l c r rd = Some t" "depths_ok l" "depths_ok r" "rd = height r"
    "balanced l" "balanced r" "height l \<le> height r + 2" "height r \<le> height l + 1"
  shows "balanced t \<and> grown (height l) (height r) (height t)"
proof (cases l)
  case NULL
  then show ?thesis using assms by (auto simp: add_left_fix_def grown_def)
next
  case l: (Node tld tlf tc trt trd)
  consider "height l \<le> height r + 1" | "height l = height r + 2" "trd \<le> tld"
    | "height l = height r + 2" "tld < trd"
    using assms by linarith
  then show ?thesis
  proof cases
    case 3
    then obtain ild il ic ir ird where "trt = Node ild il ic ir ird"
      using l assms height_pos_not_NULL [of tlf trt] by (cases trt) auto
    then show ?thesis using l assms 3
      by (simp add: add_left_fix_def grown_def) (auto simp: max_def split: if_splits)
  qed (use l assms in \<open>auto simp: add_left_fix_def grown_def max_def split: if_splits\<close>)
qed

lemma add_right_fix_balanced:
  assumes "add_right_fix ld l c r = Some t" "depths_ok l" "depths_ok r" "ld = height l"
    "balanced l" "balanced r" "height r \<le> height l + 2" "height l \<le> height r + 1"
  shows "balanced t \<and> grown (height l) (height r) (height t)"
proof (cases r)
  case NULL
  then show ?thesis using assms by (auto simp: add_right_fix_def grown_def)
next
  case r: (Node tld tlf tc trt trd)
  consider "height r \<le> height l + 1" | "height r = height l + 2" "tld \<le> trd"
    | "height r = height l + 2" "trd < tld"
    using assms by linarith
  then show ?thesis
  proof cases
    case 3
    then obtain ild il ic ir ird where "tlf = Node ild il ic ir ird"
      using r assms height_pos_not_NULL [of trt tlf] by (cases tlf) auto
    then show ?thesis using r assms 3
      by (simp add: add_right_fix_def grown_def) (auto simp: max_def split: if_splits)
  qed (use r assms in \<open>auto simp: add_right_fix_def grown_def max_def split: if_splits\<close>)
qed


lemma BB_Tree_Add_depths:
  assumes "depths_ok t"
  shows "\<exists>t'. BB_Tree_Add True cmp ua t x = Some t' \<and> depths_ok t'"
  using assms
proof (induction t)
  case (Node ld l c r rd)
  then show ?case
    using add_left_fix_ok [of _ r rd c] add_right_fix_ok [of l _ ld c]
    by (fastforce simp: Let_def)
qed simp

lemma BB_Tree_Add_balanced:
  assumes "BB_Tree_Add True cmp ua t x = Some t'" "depths_ok t" "balanced t"
  shows "balanced t' \<and> depths_ok t' \<and> (height t' = height t \<or> height t' = height t + 1)"
  using assms
proof (induction t arbitrary: t')
  case (Node ld l c r rd)
  consider "cmp c x > 0" | "cmp c x < 0" | "cmp c x = 0" by linarith
  then show ?case
  proof cases
    case 1
    then obtain l' where l': "BB_Tree_Add True cmp ua l x = Some l'" "add_left_fix l' c r rd = Some t'"
      using Node.prems by (auto simp: Let_def split: bind_splits)
    with Node have ih: "balanced l'" "depths_ok l'" "height l' = height l \<or> height l' = height l + 1"
      by auto
    have "depths_ok t'" using add_left_fix_ok [of l' r rd c] l' ih Node.prems by auto
    moreover have "balanced t' \<and> grown (height l') (height r) (height t')"
      using add_left_fix_balanced [OF l'(2)] ih Node.prems by auto
    ultimately show ?thesis using ih Node.prems by (auto simp: grown_def max_def split: if_splits)
  next
    case 2
    then obtain r' where r': "BB_Tree_Add True cmp ua r x = Some r'" "add_right_fix ld l c r' = Some t'"
      using Node.prems by (auto simp: Let_def split: bind_splits)
    with Node have ih: "balanced r'" "depths_ok r'" "height r' = height r \<or> height r' = height r + 1"
      by auto
    have "depths_ok t'" using add_right_fix_ok [of l r' ld c] r' ih Node.prems by auto
    moreover have "balanced t' \<and> grown (height l) (height r') (height t')"
      using add_right_fix_balanced [OF r'(2)] ih Node.prems by auto
    ultimately show ?thesis using ih Node.prems by (auto simp: grown_def max_def split: if_splits)
  qed (use Node.prems in auto)
qed auto

definition dup_of :: "('a \<Rightarrow> 'a \<Rightarrow> 'a) option \<Rightarrow> 'a \<Rightarrow> 'a \<Rightarrow> 'a" where
  "dup_of ua = (case ua of None \<Rightarrow> \<lambda>c x. c | Some f \<Rightarrow> f)"

context rec_comparator
begin

lemma Add_inorder:
  assumes "depths_ok t" "sorted_by rkey (inorder t)"
  shows "\<exists>t'. BB_Tree_Add True cmp ua t x = Some t' \<and> depths_ok t' \<and>
              inorder t' = put rkey (dup_of ua) x (inorder t)"
  using assms
proof (induction t)
  case (Node ld l c r rd)
  consider "cmp c x > 0" | "cmp c x < 0" | "cmp c x = 0" by linarith
  then show ?case
  proof cases
    case 1
    then have "rkey x < rkey c" by (simp add: cmp_sign)
    moreover obtain l' where l': "BB_Tree_Add True cmp ua l x = Some l'" "depths_ok l'"
        "inorder l' = put rkey (dup_of ua) x (inorder l)"
      using Node by (auto simp: sorted_by_simps)
    moreover obtain t' where "add_left_fix l' c r rd = Some t'"
        "inorder t' = inorder l' @ c # inorder r" "depths_ok t'"
      using add_left_fix_ok [of l' r rd c] l' Node.prems by auto
    ultimately show ?thesis using 1 by (simp add: put_append_greater)
  next
    case 2
    then have "rkey c < rkey x" by (simp add: cmp_sign)
    moreover have "\<forall>y\<in>set (inorder l). rkey y < rkey x"
      using Node.prems(2) calculation by (fastforce simp: sorted_by_simps)
    moreover obtain r' where r': "BB_Tree_Add True cmp ua r x = Some r'" "depths_ok r'"
        "inorder r' = put rkey (dup_of ua) x (inorder r)"
      using Node by (auto simp: sorted_by_simps)
    moreover obtain t' where "add_right_fix ld l c r' = Some t'"
        "inorder t' = inorder l @ c # inorder r'" "depths_ok t'"
      using add_right_fix_ok [of l r' ld c] r' Node.prems by auto
    ultimately show ?thesis using 2 by (auto simp: put_append_less)
  next
    case 3
    then have "rkey c = rkey x" by (simp add: cmp_sign)
    moreover have "\<forall>y\<in>set (inorder l). rkey y < rkey x"
      using Node.prems(2) calculation by (fastforce simp: sorted_by_simps)
    ultimately show ?thesis using 3 Node.prems
      by (simp add: put_append_less dup_of_def split: option.splits)
  qed
qed simp

end


subsection \<open>Searches\<close>

text \<open>What a returned node pointer gives its caller: nothing, or the content.\<close>

fun rec_of :: "'a T_Tree \<Rightarrow> 'a option" where
  "rec_of NULL = None"
| "rec_of (Node ld l c r rd) = Some c"

abbreviation or_else :: "'a option \<Rightarrow> 'a option \<Rightarrow> 'a option" where
  "or_else x y \<equiv> (case x of None \<Rightarrow> y | Some z \<Rightarrow> Some z)"

context comparator
begin

lemma Find_find:
  "sorted_by rkey (inorder t) \<Longrightarrow>
     rec_of (BB_Tree_Find cmp t k) = find (\<lambda>x. rkey x = skey k) (inorder t)"
proof (induction t)
  case (Node ld l c r rd)
  have "find (\<lambda>x. rkey x = skey k) (inorder l) = None" if "rkey c \<le> skey k"
    using that Node.prems by (intro find_none) (auto simp: sorted_by_simps)
  moreover have "find (\<lambda>x. rkey x = skey k) (inorder r) = None" if "skey k < rkey c"
    using that Node.prems by (intro find_none) (auto simp: sorted_by_simps)
  ultimately show ?case using Node
    by (auto simp: find_append cmp_sign sorted_by_simps split: option.splits)
qed simp

lemma gt_loop_find:
  "sorted_by rkey (inorder t) \<Longrightarrow>
     rec_of (gt_loop cmp t k d) = or_else (find (\<lambda>x. skey k < rkey x) (inorder t)) (rec_of d)"
proof (induction t arbitrary: d)
  case (Node ld l c r rd)
  have "find (\<lambda>x. skey k < rkey x) (inorder l) = None" if "rkey c \<le> skey k"
    using that Node.prems by (intro find_none) (auto simp: sorted_by_simps)
  then show ?case using Node
    by (auto simp: find_append cmp_sign sorted_by_simps split: option.splits)
qed simp

lemma gteq_loop_find:
  "sorted_by rkey (inorder t) \<Longrightarrow>
     rec_of (gteq_loop cmp t k d) = or_else (find (\<lambda>x. skey k \<le> rkey x) (inorder t)) (rec_of d)"
proof (induction t arbitrary: d)
  case (Node ld l c r rd)
  have "find (\<lambda>x. skey k \<le> rkey x) (inorder l) = None" if "rkey c \<le> skey k"
    using that Node.prems by (intro find_none) (auto simp: sorted_by_simps)
  then show ?case using Node
    by (auto simp: find_append cmp_sign sorted_by_simps Let_def split: option.splits)
qed simp

lemma lt_loop_find:
  "sorted_by rkey (inorder t) \<Longrightarrow>
     rec_of (lt_loop cmp t k d)
       = or_else (find (\<lambda>x. rkey x < skey k) (rev (inorder t))) (rec_of d)"
proof (induction t arbitrary: d)
  case (Node ld l c r rd)
  have "find (\<lambda>x. rkey x < skey k) (rev (inorder r)) = None" if "skey k \<le> rkey c"
    using that Node.prems by (intro find_none) (auto simp: sorted_by_simps)
  then show ?case using Node
    by (auto simp: find_append cmp_sign sorted_by_simps split: option.splits)
qed simp

lemma lteq_loop_find:
  "sorted_by rkey (inorder t) \<Longrightarrow>
     rec_of (lteq_loop cmp t k d)
       = or_else (find (\<lambda>x. rkey x \<le> skey k) (rev (inorder t))) (rec_of d)"
proof (induction t arbitrary: d)
  case (Node ld l c r rd)
  have "find (\<lambda>x. rkey x \<le> skey k) (rev (inorder r)) = None" if "skey k \<le> rkey c"
    using that Node.prems by (intro find_none) (auto simp: sorted_by_simps)
  then show ?case using Node
    by (auto simp: find_append cmp_sign sorted_by_simps Let_def split: option.splits)
qed simp

lemma neighbours_find:
  assumes "sorted_by rkey (inorder t)"
  shows "rec_of (BB_Tree_GT cmp t k) = find (\<lambda>x. skey k < rkey x) (inorder t)"
    and "rec_of (BB_Tree_GTEQ cmp t k) = find (\<lambda>x. skey k \<le> rkey x) (inorder t)"
    and "rec_of (BB_Tree_LT cmp t k) = find (\<lambda>x. rkey x < skey k) (rev (inorder t))"
    and "rec_of (BB_Tree_LTEQ cmp t k) = find (\<lambda>x. rkey x \<le> skey k) (rev (inorder t))"
  using gt_loop_find [OF assms] gteq_loop_find [OF assms] lt_loop_find [OF assms]
    lteq_loop_find [OF assms]
  by (simp_all add: BB_Tree_GT_def BB_Tree_GTEQ_def BB_Tree_LT_def BB_Tree_LTEQ_def
      split: option.splits)

end

lemma BB_Tree_MAX_last: "rec_of (BB_Tree_MAX t) = (if t = NULL then None else Some (last (inorder t)))"
  by (induction t) (auto simp: Let_def split: if_splits)

lemma BB_Tree_MIN_hd: "rec_of (BB_Tree_MIN t) = (if t = NULL then None else Some (hd (inorder t)))"
  by (induction t) (auto simp: Let_def split: if_splits)

subsection \<open>Traversals\<close>

fun scan_list :: "'a list \<Rightarrow> ('a \<Rightarrow> 's \<Rightarrow> int \<times> 's) \<Rightarrow> 's \<Rightarrow> int \<times> 's" where
  "scan_list [] proc s = (0, s)"
| "scan_list (x # xs) proc s =
     (let (rc, s) = proc x s in if rc \<noteq> 0 then (rc, s) else scan_list xs proc s)"

lemma scan_list_append:
  "scan_list (xs @ ys) proc s =
     (let (rc, s) = scan_list xs proc s in if rc \<noteq> 0 then (rc, s) else scan_list ys proc s)"
  by (induction xs arbitrary: s) (auto split: prod.splits)

lemma BB_Tree_Scan_list: "BB_Tree_Scan t proc s = scan_list (inorder t) proc s"
  by (induction t arbitrary: s) (auto simp: scan_list_append split: prod.splits)

fun postorder :: "'a T_Tree \<Rightarrow> 'a list" where
  "postorder NULL = []"
| "postorder (Node ld l c r rd) = postorder l @ postorder r @ [c]"

lemma BB_Tree_Free_fold:
  "BB_Tree_Free t (Some f) s = (NULL, fold f (postorder t) s)"
  by (induction t arbitrary: s) auto

lemma BB_Tree_Count_length: "BB_Tree_Count t None = int (length (inorder t))"
  by (induction t) auto

lemma BB_Tree_Count_sum:
  "BB_Tree_Count t (Some (\<lambda>sp. f (rec_of sp))) = sum_list (map (\<lambda>x. f (Some x)) (inorder t))"
  by (induction t) auto

subsection \<open>Allocation failure\<close>

lemma add_left_fix_same:
  assumes "depths_ok (Node ld l c r rd)" "balanced (Node ld l c r rd)"
  shows "add_left_fix l c r rd = Some (Node ld l c r rd)"
  using assms by (cases l) (auto simp: add_left_fix_def)

lemma add_right_fix_same:
  assumes "depths_ok (Node ld l c r rd)" "balanced (Node ld l c r rd)"
  shows "add_right_fix ld l c r = Some (Node ld l c r rd)"
  using assms by (cases r) (auto simp: add_right_fix_def)

lemma BB_Tree_Add_nomem_same:
  assumes "depths_ok t" "balanced t"
  shows "BB_Tree_Add False cmp None t x = Some t"
  using assms
proof (induction t)
  case (Node ld l c r rd)
  then show ?case
    using add_left_fix_same [OF Node.prems] add_right_fix_same [OF Node.prems] by (auto simp: Let_def)
qed simp

text \<open>The comparators the tree is run with: the built-in one compares the first \<open>len\<close>
  bytes; a caller's function over integer keys may return their difference.\<close>

lemma Tree_Cmp_sign:
  "(0 < Tree_Cmp None n a b) = (take n b < take n a)"
  "(Tree_Cmp None n a b < 0) = (take n a < take n b)"
  using lexcmp_less [of "take n a" "take n b"] lexcmp_greater [of "take n a" "take n b"]
  by (auto simp: Tree_Cmp_def memcmp_def Let_def)

interpretation tree_cmp: rec_comparator "Tree_Cmp None n" "take n" for n
  by unfold_locales (rule Tree_Cmp_sign)+

interpretation int_cmp: rec_comparator "\<lambda>x k. x - k" "\<lambda>x::int. x"
  by unfold_locales auto


subsection \<open>Depth of a balanced tree\<close>

text \<open>The number of nodes a search compares with.\<close>

fun probes :: "('a \<Rightarrow> 'k \<Rightarrow> int) \<Rightarrow> 'a T_Tree \<Rightarrow> 'k \<Rightarrow> int" where
  "probes cmp NULL key = 0"
| "probes cmp (Node ld l c r rd) key =
     (if cmp c key = 0 then 1 else 1 + probes cmp (if cmp c key \<le> 0 then r else l) key)"

lemma probes_height: "probes cmp t key \<le> height t"
  by (induction t) (auto simp: max_def)

lemma power_half_step:
  fixes x y :: nat
  assumes "2 ^ (n div 2) \<le> x" "2 ^ (m div 2) \<le> y" "n \<le> m + 1" "m \<le> n + 1"
  shows "2 ^ (Suc (max n m) div 2) \<le> x + y"
proof -
  let ?k = "Suc (max n m) div 2"
  have "?k = n div 2 \<or> ?k = m div 2 \<or> (?k = Suc (n div 2) \<and> ?k = Suc (m div 2))"
    using assms(3,4) by linarith
  then consider "?k = n div 2" | "?k = m div 2"
    | "?k = Suc (n div 2)" "?k = Suc (m div 2)" by blast
  then show ?thesis
  proof cases
    case 3
    then have "n div 2 = m div 2" by linarith
    then have "2 * 2 ^ (n div 2) \<le> x + y" using assms(1,2) by simp
    then show ?thesis unfolding 3(1) by simp
  next
    case 1
    show ?thesis unfolding 1 using assms(1) by linarith
  next
    case 2
    show ?thesis unfolding 2 using assms(2) by linarith
  qed
qed

lemma balanced_size: "balanced t \<Longrightarrow> 2 ^ (nat (height t) div 2) \<le> length (inorder t) + 1"
proof (induction t)
  case (Node ld l c r rd)
  have "nat (height (Node ld l c r rd)) = Suc (max (nat (height l)) (nat (height r)))"
    by (auto simp: max_def nat_add_distrib)
  moreover have "nat (height l) \<le> nat (height r) + 1" "nat (height r) \<le> nat (height l) + 1"
    using Node.prems by auto
  ultimately show ?case
    using Node power_half_step [of "nat (height l)" "length (inorder l) + 1"
        "nat (height r)" "length (inorder r) + 1"] by simp
qed simp

subsection \<open>Properties\<close>

text \<open>C1: Adding a record to a tree whose contents ascend under the comparator's order key,
  whose depth fields are exact and which is balanced returns (no null pointer is ever
  dereferenced) a tree that holds the old contents with the record inserted in its place, or
  merged by the callback with the record of equal key; the contents still ascend, every depth
  field is again exact, every node is balanced, and the tree grew by at most one level.\<close>

theorem BB_Tree_Add_correct:
  assumes "rec_comparator cmp rkey"
    and "\<And>c. rkey (dup_of user_add c x) = rkey c"
    and "depths_ok t" "balanced t" "sorted_by rkey (inorder t)"
  shows "\<exists>t'. BB_Tree_Add True cmp user_add t x = Some t' \<and>
    inorder t' = put rkey (dup_of user_add) x (inorder t) \<and> sorted_by rkey (inorder t') \<and>
    depths_ok t' \<and> balanced t' \<and> (height t' = height t \<or> height t' = height t + 1)"
proof -
  obtain t' where t': "BB_Tree_Add True cmp user_add t x = Some t'" "depths_ok t'"
      "inorder t' = put rkey (dup_of user_add) x (inorder t)"
    using rec_comparator.Add_inorder [OF assms(1,3,5)] by blast
  then show ?thesis
    using sorted_put [where dup = "dup_of user_add", OF _ assms(5)] assms(2)
      BB_Tree_Add_balanced [OF t'(1) assms(3,4)] by auto
qed

theorem BB_Tree_Add_correct_witness:
  "\<exists>t'. BB_Tree_Add True (\<lambda>x k. x - k) None (Node 0 NULL (3::int) NULL 0) 5 = Some t' \<and>
     inorder t' = [3, 5] \<and> balanced t'"
  using BB_Tree_Add_correct [of "\<lambda>x k. x - k" "\<lambda>x. x" None 5 "Node 0 NULL 3 NULL 0"]
    int_cmp.rec_comparator_axioms
  by (auto simp: dup_of_def)

text \<open>C2: The five searches over a tree with ascending contents: \<open>BB_Tree_Find\<close> gives the
  record whose order key is the searched one, \<open>BB_Tree_GT\<close> and \<open>BB_Tree_GTEQ\<close> the first
  record above (not below) it, \<open>BB_Tree_LT\<close> and \<open>BB_Tree_LTEQ\<close> the last record below (not
  above) it, and the null pointer when no record qualifies.\<close>

theorem BB_Tree_search_correct:
  assumes "comparator cmp rkey skey" "sorted_by rkey (inorder t)"
  shows "rec_of (BB_Tree_Find cmp t k) = find (\<lambda>x. rkey x = skey k) (inorder t) \<and>
    rec_of (BB_Tree_GT cmp t k) = find (\<lambda>x. skey k < rkey x) (inorder t) \<and>
    rec_of (BB_Tree_GTEQ cmp t k) = find (\<lambda>x. skey k \<le> rkey x) (inorder t) \<and>
    rec_of (BB_Tree_LT cmp t k) = find (\<lambda>x. rkey x < skey k) (rev (inorder t)) \<and>
    rec_of (BB_Tree_LTEQ cmp t k) = find (\<lambda>x. rkey x \<le> skey k) (rev (inorder t))"
  using comparator.Find_find [OF assms] comparator.neighbours_find [OF assms] by simp

theorem BB_Tree_search_correct_witness:
  "rec_of (BB_Tree_LT (\<lambda>x k. x - k) (Node 0 NULL (3::int) (Node 0 NULL 7 NULL 0) 1) 7) = Some 3"
  using BB_Tree_search_correct [of "\<lambda>x k. x - k" "\<lambda>x. x" "\<lambda>x. x"
      "Node 0 NULL 3 (Node 0 NULL 7 NULL 0) 1" 7] int_cmp.comparator_axioms
  by simp

text \<open>In a balanced tree a search compares with at most twice the binary logarithm of the
  number of records plus one: the number of nodes probed is at most the height h, and the tree
  holds at least \<open>2 ^ (h div 2) - 1\<close> records.\<close>

theorem BB_Tree_Find_probes:
  assumes "balanced t"
  shows "2 ^ (nat (probes cmp t key) div 2) \<le> length (inorder t) + 1"
proof -
  have "nat (probes cmp t key) div 2 \<le> nat (height t) div 2"
    using probes_height [of cmp t key] by (intro div_le_mono nat_mono)
  then have "(2::nat) ^ (nat (probes cmp t key) div 2) \<le> 2 ^ (nat (height t) div 2)"
    by simp
  then show ?thesis using balanced_size [OF assms] by linarith
qed

theorem BB_Tree_Find_probes_witness:
  "2 ^ (nat (probes (\<lambda>x k. x - k) (Node 0 NULL (3::int) (Node 0 NULL 7 NULL 0) 1) 7) div 2) \<le> (3::nat)"
  using BB_Tree_Find_probes [of "Node 0 NULL 3 (Node 0 NULL 7 NULL 0) 1" "\<lambda>x k. x - k" 7]
  by simp

text \<open>When \<open>malloc\<close> fails, \<open>BB_Tree_Add\<close> without a callback leaves a balanced tree with
  exact depth fields exactly as it was: the null pointer the failed level returns is stored
  back in the empty link it came from.\<close>

theorem BB_Tree_Add_nomem:
  assumes "depths_ok t" "balanced t"
  shows "BB_Tree_Add False cmp None t x = Some t"
  using BB_Tree_Add_nomem_same [OF assms] .

theorem BB_Tree_Add_nomem_witness:
  "BB_Tree_Add False (\<lambda>x k. x - k) None (Node 0 NULL (3::int) NULL 0) 5 = Some (Node 0 NULL 3 NULL 0)"
  by (rule BB_Tree_Add_nomem) simp_all

text \<open>\<open>BB_Tree_Scan\<close> calls its callback on the contents in ascending (in-order) sequence,
  passing its effects on, and stops at the first nonzero result, which it returns; without one
  it returns 0.  \<open>BB_Tree_Count\<close> without a counter is the number of records, and
  \<open>BB_Tree_Free\<close> hands every record to its callback once, children before parents, and
  nulls the pointer.\<close>

theorem BB_Tree_traversals:
  "BB_Tree_Scan t proc s = scan_list (inorder t) proc s \<and>
   BB_Tree_Count t None = int (length (inorder t)) \<and>
   BB_Tree_Free t (Some f) u = (NULL, fold f (postorder t) u)"
  by (simp add: BB_Tree_Scan_list BB_Tree_Count_length BB_Tree_Free_fold)

end
