(* ===== verification/BB_Tree_Del.thy ===== *)
theory BB_Tree_Del
  imports BB_Tree
begin

text \<open>Deletion from the balanced tree, \<open>src/ds/tree_del.c\<close>: the rotations, the
  rebalancing of a node that is too deep on one side, the removal of the rightmost and
  leftmost node of a subtree, and \<open>BB_Tree_Del\<close>.  None stands for the dereference of a
  null pointer; that exact depth fields exclude it is proved below.\<close>

fun R_rot :: "'a T_Tree \<Rightarrow> 'a T_Tree option" where
  "R_rot (Node ld (Node tld tlf tc trt trd) c r rd) =
     (let tp = Node trd trt c r rd in Some (Node tld tlf tc tp (depth_of tp)))"
| "R_rot _ = None"

fun L_rot :: "'a T_Tree \<Rightarrow> 'a T_Tree option" where
  "L_rot (Node ld l c (Node tld tlf tc trt trd) rd) =
     (let tp = Node ld l c tlf tld in Some (Node (depth_of tp) tp tc trt trd))"
| "L_rot _ = None"

text \<open>\<open>R_blc\<close>, for a node whose right side is deeper.  \<open>R_blc_lift\<close> is lines 32-46: the
  left child of the right child is lifted over it, when there is one; the result is the
  node \<open>ttmp\<close>.  The rest, lines 47-52, makes the old root its left child.\<close>

definition R_blc_lift :: "'a T_Tree \<Rightarrow> 'a T_Tree option" where
  "R_blc_lift r =
     (case r of
        NULL \<Rightarrow> None
      | Node fld x fc fr frd \<Rightarrow>
          (case x of
             NULL \<Rightarrow> Some r
           | Node tld tlf tc trt trd \<Rightarrow>
               do { let ftmp = Node trd trt fc fr frd;
                    rgt \<leftarrow> (if frd - trd > 1 then L_rot ftmp else Some ftmp);
                    Some (Node tld tlf tc rgt (depth_of rgt)) }))"

fun R_blc :: "'a T_Tree \<Rightarrow> 'a T_Tree option" where
  "R_blc NULL = None"
| "R_blc (Node ld l c r rd) =
     do { ttmp \<leftarrow> R_blc_lift r;
          let tp = Node ld l c (Left ttmp) (Ldepth ttmp);
          lft \<leftarrow> (if ld - Ldepth ttmp > 1 then R_rot tp else Some tp);
          Some (Node (depth_of lft) lft (Content ttmp) (Right ttmp) (Rdepth ttmp)) }"

definition L_blc_lift :: "'a T_Tree \<Rightarrow> 'a T_Tree option" where
  "L_blc_lift l =
     (case l of
        NULL \<Rightarrow> None
      | Node fld fl fc x frd \<Rightarrow>
          (case x of
             NULL \<Rightarrow> Some l
           | Node tld tlf tc trt trd \<Rightarrow>
               do { let ftmp = Node fld fl fc tlf tld;
                    lft \<leftarrow> (if fld - tld > 1 then R_rot ftmp else Some ftmp);
                    Some (Node (depth_of lft) lft tc trt trd) }))"

fun L_blc :: "'a T_Tree \<Rightarrow> 'a T_Tree option" where
  "L_blc NULL = None"
| "L_blc (Node ld l c r rd) =
     do { ttmp \<leftarrow> L_blc_lift l;
          let tp = Node (Rdepth ttmp) (Right ttmp) c r rd;
          rgt \<leftarrow> (if rd - Rdepth ttmp > 1 then L_rot tp else Some tp);
          Some (Node (Ldepth ttmp) (Left ttmp) (Content ttmp) rgt (depth_of rgt)) }"

text \<open>\<open>t_r\<close> and \<open>t_l\<close> take the address of a link and return the node they detach.  Here
  they return that node (with the fields it still holds), the new value of the link, and
  whether the returned pointer is the link's old value, the test the callers make.\<close>

fun t_r :: "'a T_Tree \<Rightarrow> ('a T_Tree \<times> 'a T_Tree \<times> bool) option" where
  "t_r NULL = None"
| "t_r (Node ld l c r rd) =
     (if r = NULL then Some (Node ld l c r rd, Node ld l c r rd, True)
      else do {
        (ttmp, r', same) \<leftarrow> t_r r;
        let (r', rd) = (if same then (Left ttmp, Ldepth ttmp) else (r', depth_of r'));
        let tp = Node ld l c r' rd;
        tp \<leftarrow> (if ld - rd > 1 then L_blc tp else Some tp);
        Some (ttmp, tp, False) })"

fun t_l :: "'a T_Tree \<Rightarrow> ('a T_Tree \<times> 'a T_Tree \<times> bool) option" where
  "t_l NULL = None"
| "t_l (Node ld l c r rd) =
     (if l = NULL then Some (Node ld l c r rd, Node ld l c r rd, True)
      else do {
        (ttmp, l', same) \<leftarrow> t_l l;
        let (l', ld) = (if same then (Right ttmp, Rdepth ttmp) else (l', depth_of l'));
        let tp = Node ld l' c r rd;
        tp \<leftarrow> (if rd - ld > 1 then R_blc tp else Some tp);
        Some (ttmp, tp, False) })"

text \<open>\<open>t_delete\<close>: the inner None is the pointer \<open>-1\<close>, the callback's veto.  The callback
  is its result; what it frees is the caller's.\<close>

fun t_delete :: "('a \<Rightarrow> int) option \<Rightarrow> 'a T_Tree \<Rightarrow> 'a T_Tree option option" where
  "t_delete user_free NULL = None"
| "t_delete user_free (Node ld l c r rd) =
     (if (case user_free of None \<Rightarrow> False | Some f \<Rightarrow> f c \<noteq> 0) then Some None
      else if r = NULL then Some (Some l)
      else if l = NULL then Some (Some r)
      else if ld \<ge> rd then
        do { (ttmp, l', same) \<leftarrow> t_r l;
             let (l', ld) = (if same then (Left ttmp, Ldepth ttmp) else (l', depth_of l'));
             Some (Some (Node ld l' (Content ttmp) r rd)) }
      else
        do { (ttmp, r', same) \<leftarrow> t_l r;
             let (r', rd) = (if same then (Right ttmp, Rdepth ttmp) else (r', depth_of r'));
             Some (Some (Node ld l (Content ttmp) r' rd)) })"

text \<open>\<open>BB_Tree_Del\<close>.  \<open>content_key\<close> and \<open>flg\<close> are pointers that may be null; the new
  value of \<open>*flg\<close> is returned beside the root.\<close>

fun BB_Tree_Del :: "('a \<Rightarrow> 'k \<Rightarrow> int) \<Rightarrow> ('a \<Rightarrow> int) option \<Rightarrow> 'a T_Tree
    \<Rightarrow> 'k option \<Rightarrow> int option \<Rightarrow> ('a T_Tree \<times> int option) option" where
  "BB_Tree_Del Comp user_free NULL content_key flg = Some (NULL, map_option (\<lambda>_. 0) flg)"
| "BB_Tree_Del Comp user_free (Node ld l c r rd) content_key flg =
     (if flg = None \<or> content_key = None
      then Some (Node ld l c r rd, map_option (\<lambda>_. 0) flg)
      else
        let ret = Comp c (the content_key) in
        if ret = 0 then
          do { ttmp \<leftarrow> t_delete user_free (Node ld l c r rd);
               Some (case ttmp of
                       Some t \<Rightarrow> (t, Some 1)
                     | None \<Rightarrow> (Node ld l c r rd, Some 0)) }
        else if ret > 0 then
          (if l = NULL then Some (Node ld l c r rd, Some 0)
           else do {
             (l', flg) \<leftarrow> BB_Tree_Del Comp user_free l content_key flg;
             if the flg > 0 then
               do { let ld = depth_of l';
                    let tp = Node ld l' c r rd;
                    tp \<leftarrow> (if rd - ld > 1 then R_blc tp else Some tp);
                    Some (tp, Some (the flg + 1)) }
             else Some (Node ld l' c r rd, flg) })
        else
          (if r = NULL then Some (Node ld l c r rd, Some 0)
           else do {
             (r', flg) \<leftarrow> BB_Tree_Del Comp user_free r content_key flg;
             if the flg > 0 then
               do { let rd = depth_of r';
                    let tp = Node ld l c r' rd;
                    tp \<leftarrow> (if ld - rd > 1 then L_blc tp else Some tp);
                    Some (tp, Some (the flg + 1)) }
             else Some (Node ld l c r' rd, flg) }))"

subsection \<open>Rebalancing keeps the contents and the depth fields\<close>

lemma R_rot_ok:
  assumes "depths_ok (Node ld l c r rd)" "l \<noteq> NULL"
  shows "\<exists>t. R_rot (Node ld l c r rd) = Some t \<and> depths_ok t \<and>
             inorder t = inorder l @ c # inorder r"
  using assms by (cases l) auto

lemma L_rot_ok:
  assumes "depths_ok (Node ld l c r rd)" "r \<noteq> NULL"
  shows "\<exists>t. L_rot (Node ld l c r rd) = Some t \<and> depths_ok t \<and>
             inorder t = inorder l @ c # inorder r"
  using assms by (cases r) auto

text \<open>The one-sided repair both functions make under a guard: a side deeper than the
  other is not null.\<close>

lemma R_rot_guard:
  assumes "depths_ok (Node ld l c r rd)"
  shows "\<exists>t. (if ld - rd > 1 then R_rot (Node ld l c r rd) else Some (Node ld l c r rd)) = Some t
             \<and> depths_ok t \<and> inorder t = inorder l @ c # inorder r"
  using assms R_rot_ok [OF assms] height_pos_not_NULL [of r l] by auto

lemma L_rot_guard:
  assumes "depths_ok (Node ld l c r rd)"
  shows "\<exists>t. (if rd - ld > 1 then L_rot (Node ld l c r rd) else Some (Node ld l c r rd)) = Some t
             \<and> depths_ok t \<and> inorder t = inorder l @ c # inorder r"
  using assms L_rot_ok [OF assms] height_pos_not_NULL [of l r] by auto

lemma R_blc_lift_ok:
  assumes "depths_ok r" "r \<noteq> NULL"
  shows "\<exists>t. R_blc_lift r = Some t \<and> depths_ok t \<and> t \<noteq> NULL \<and> inorder t = inorder r"
proof (cases r)
  case (Node fld x fc fr frd)
  then show ?thesis
  proof (cases x)
    case x: (Node tld tlf tc trt trd)
    obtain rgt where "(if frd - trd > 1 then L_rot (Node trd trt fc fr frd)
          else Some (Node trd trt fc fr frd)) = Some rgt"
        "depths_ok rgt" "inorder rgt = inorder trt @ fc # inorder fr"
      using L_rot_guard [of trd trt fc fr frd] assms(1) Node x by auto
    then show ?thesis using Node x assms(1) by (auto simp: R_blc_lift_def Let_def)
  qed (use assms Node in \<open>auto simp: R_blc_lift_def\<close>)
qed (use assms in auto)

lemma L_blc_lift_ok:
  assumes "depths_ok l" "l \<noteq> NULL"
  shows "\<exists>t. L_blc_lift l = Some t \<and> depths_ok t \<and> t \<noteq> NULL \<and> inorder t = inorder l"
proof (cases l)
  case (Node fld fl fc x frd)
  then show ?thesis
  proof (cases x)
    case x: (Node tld tlf tc trt trd)
    obtain lft where "(if fld - tld > 1 then R_rot (Node fld fl fc tlf tld)
          else Some (Node fld fl fc tlf tld)) = Some lft"
        "depths_ok lft" "inorder lft = inorder fl @ fc # inorder tlf"
      using R_rot_guard [of fld fl fc tlf tld] assms(1) Node x by auto
    then show ?thesis using Node x assms(1) by (auto simp: L_blc_lift_def Let_def)
  qed (use assms Node in \<open>auto simp: L_blc_lift_def\<close>)
qed (use assms in auto)


lemma R_blc_ok:
  assumes "depths_ok (Node ld l c r rd)" "r \<noteq> NULL"
  shows "\<exists>t. R_blc (Node ld l c r rd) = Some t \<and> depths_ok t \<and> t \<noteq> NULL \<and>
             inorder t = inorder l @ c # inorder r"
proof -
  obtain tld tlf tc trt trd where lift: "R_blc_lift r = Some (Node tld tlf tc trt trd)"
      "depths_ok (Node tld tlf tc trt trd)" "inorder tlf @ tc # inorder trt = inorder r"
    using R_blc_lift_ok [of r] assms
    by (metis depths_ok.simps(2) T_Tree.exhaust inorder.simps(2))
  obtain lft where lft: "(if ld - tld > 1 then R_rot (Node ld l c tlf tld)
        else Some (Node ld l c tlf tld)) = Some lft"
      "depths_ok lft" "inorder lft = inorder l @ c # inorder tlf"
    using R_rot_guard [of ld l c tlf tld] assms(1) lift(2) by auto
  then have "R_blc (Node ld l c r rd) = Some (Node (depth_of lft) lft tc trt trd)"
    by (simp add: lift(1))
  then show ?thesis using lft lift(2) by (auto simp flip: lift(3))
qed

lemma L_blc_ok:
  assumes "depths_ok (Node ld l c r rd)" "l \<noteq> NULL"
  shows "\<exists>t. L_blc (Node ld l c r rd) = Some t \<and> depths_ok t \<and> t \<noteq> NULL \<and>
             inorder t = inorder l @ c # inorder r"
proof -
  obtain tld tlf tc trt trd where lift: "L_blc_lift l = Some (Node tld tlf tc trt trd)"
      "depths_ok (Node tld tlf tc trt trd)" "inorder tlf @ tc # inorder trt = inorder l"
    using L_blc_lift_ok [of l] assms
    by (metis depths_ok.simps(2) T_Tree.exhaust inorder.simps(2))
  obtain rgt where rgt: "(if rd - trd > 1 then L_rot (Node trd trt c r rd)
        else Some (Node trd trt c r rd)) = Some rgt"
      "depths_ok rgt" "inorder rgt = inorder trt @ c # inorder r"
    using L_rot_guard [of trd trt c r rd] assms(1) lift(2) by auto
  then have "L_blc (Node ld l c r rd) = Some (Node tld tlf tc rgt (depth_of rgt))"
    by (simp add: lift(1))
  then show ?thesis using rgt lift(2) by (auto simp flip: lift(3))
qed

lemma R_blc_guard:
  assumes "depths_ok (Node ld l c r rd)"
  shows "\<exists>t. (if rd - ld > 1 then R_blc (Node ld l c r rd) else Some (Node ld l c r rd)) = Some t
             \<and> depths_ok t \<and> t \<noteq> NULL \<and> inorder t = inorder l @ c # inorder r"
  using assms R_blc_ok [OF assms] height_pos_not_NULL [of l r]
  by (auto simp del: R_blc.simps)

lemma L_blc_guard:
  assumes "depths_ok (Node ld l c r rd)"
  shows "\<exists>t. (if ld - rd > 1 then L_blc (Node ld l c r rd) else Some (Node ld l c r rd)) = Some t
             \<and> depths_ok t \<and> t \<noteq> NULL \<and> inorder t = inorder l @ c # inorder r"
  using assms L_blc_ok [OF assms] height_pos_not_NULL [of r l]
  by (auto simp del: L_blc.simps)

text \<open>What the caller of \<open>t_r\<close> rebuilds: the link after the detached node is taken out.\<close>

lemma t_r_ok:
  assumes "depths_ok t" "t \<noteq> NULL"
  shows "\<exists>n t' same. t_r t = Some (n, t', same) \<and> n \<noteq> NULL \<and>
    (let u = (if same then Left n else t'); d = (if same then Ldepth n else depth_of t')
     in depths_ok u \<and> d = height u \<and> inorder t = inorder u @ [Content n])"
  using assms
proof (induction t)
  case (Node ld l c r rd)
  show ?case
  proof (cases "r = NULL")
    case False
    then obtain n r' same where ih: "t_r r = Some (n, r', same)" "n \<noteq> NULL"
        "depths_ok (if same then Left n else r')"
        "(if same then Ldepth n else depth_of r') = height (if same then Left n else r')"
        "inorder r = inorder (if same then Left n else r') @ [Content n]"
      using Node by (auto simp: Let_def)
    obtain u d where ud: "(if same then (Left n, Ldepth n) else (r', depth_of r')) = (u, d)"
      by fastforce
    with ih have u: "depths_ok u" "d = height u" "inorder r = inorder u @ [Content n]"
      by (auto split: if_splits)
    obtain t' where t': "(if ld - d > 1 then L_blc (Node ld l c u d) else Some (Node ld l c u d)) = Some t'"
        "depths_ok t'" "inorder t' = inorder l @ c # inorder u"
      using L_blc_guard [of ld l c u d] Node.prems u by auto
    have "t_r (Node ld l c r rd) = Some (n, t', False)"
      using False ih(1) ud t'(1) by (simp del: L_blc.simps)
    then show ?thesis using ih(2) t' u
      by (intro exI [of _ n] exI [of _ t'] exI [of _ False]) (simp del: t_r.simps t_l.simps)
  qed (use Node.prems in auto)
qed simp

lemma t_l_ok:
  assumes "depths_ok t" "t \<noteq> NULL"
  shows "\<exists>n t' same. t_l t = Some (n, t', same) \<and> n \<noteq> NULL \<and>
    (let u = (if same then Right n else t'); d = (if same then Rdepth n else depth_of t')
     in depths_ok u \<and> d = height u \<and> inorder t = Content n # inorder u)"
  using assms
proof (induction t)
  case (Node ld l c r rd)
  show ?case
  proof (cases "l = NULL")
    case False
    then obtain n l' same where ih: "t_l l = Some (n, l', same)" "n \<noteq> NULL"
        "depths_ok (if same then Right n else l')"
        "(if same then Rdepth n else depth_of l') = height (if same then Right n else l')"
        "inorder l = Content n # inorder (if same then Right n else l')"
      using Node by (auto simp: Let_def)
    obtain u d where ud: "(if same then (Right n, Rdepth n) else (l', depth_of l')) = (u, d)"
      by fastforce
    with ih have u: "depths_ok u" "d = height u" "inorder l = Content n # inorder u"
      by (auto split: if_splits)
    obtain t' where t': "(if rd - d > 1 then R_blc (Node d u c r rd) else Some (Node d u c r rd)) = Some t'"
        "depths_ok t'" "inorder t' = inorder u @ c # inorder r"
      using R_blc_guard [of d u c r rd] Node.prems u by auto
    have "t_l (Node ld l c r rd) = Some (n, t', False)"
      using False ih(1) ud t'(1) by (simp del: R_blc.simps)
    then show ?thesis using ih(2) t' u
      by (intro exI [of _ n] exI [of _ t'] exI [of _ False]) (simp del: t_r.simps t_l.simps)
  qed (use Node.prems in auto)
qed simp

lemma t_delete_ok:
  assumes "depths_ok (Node ld l c r rd)"
  shows "if (case uf of None \<Rightarrow> False | Some f \<Rightarrow> f c \<noteq> 0)
         then t_delete uf (Node ld l c r rd) = Some None
         else \<exists>t. t_delete uf (Node ld l c r rd) = Some (Some t) \<and> depths_ok t \<and>
                  inorder t = inorder l @ inorder r"
proof -
  have "\<exists>t. t_delete uf (Node ld l c r rd) = Some (Some t) \<and> depths_ok t \<and>
            inorder t = inorder l @ inorder r"
    if "\<not> (case uf of None \<Rightarrow> False | Some f \<Rightarrow> f c \<noteq> 0)" "l \<noteq> NULL" "r \<noteq> NULL"
    using that assms t_r_ok [of l] t_l_ok [of r] by (cases "rd \<le> ld") (auto simp: Let_def)
  then show ?thesis using assms by auto
qed

text \<open>The level at which a key stands, the root being level 1.\<close>

fun level :: "('a \<Rightarrow> 'k \<Rightarrow> int) \<Rightarrow> 'k \<Rightarrow> 'a T_Tree \<Rightarrow> int" where
  "level cmp k NULL = 0"
| "level cmp k (Node ld l c r rd) =
     (if cmp c k = 0 then 1 else 1 + level cmp k (if cmp c k > 0 then l else r))"


definition del_vetoed :: "('a \<Rightarrow> int) option \<Rightarrow> 'a \<Rightarrow> bool" where
  "del_vetoed uf c = (case uf of None \<Rightarrow> False | Some f \<Rightarrow> f c \<noteq> 0)"

text \<open>Whether \<open>BB_Tree_Del\<close> removes a record: the key is there and the callback agrees.\<close>

definition del_done :: "('a \<Rightarrow> 'o) \<Rightarrow> 'o \<Rightarrow> ('a \<Rightarrow> int) option \<Rightarrow> 'a list \<Rightarrow> bool" where
  "del_done rkey k uf xs = (case find (\<lambda>x. rkey x = k) xs of None \<Rightarrow> False | Some c \<Rightarrow> \<not> del_vetoed uf c)"

lemma del_done_append:
  "del_done rkey k uf (xs @ ys) =
     (if find (\<lambda>x. rkey x = k) xs = None then del_done rkey k uf ys else del_done rkey k uf xs)"
  by (auto simp: del_done_def find_append split: option.splits)

context comparator
begin

lemma level_pos: "t \<noteq> NULL \<Longrightarrow> 0 < level cmp k t"
proof (induction t)
  case (Node ld l c r rd)
  have "0 \<le> level cmp k l" "0 \<le> level cmp k r"
    using Node.IH by (metis level.simps(1) less_imp_le order_refl)+
  then show ?case by auto
qed simp

lemma Del_ok:
  assumes "depths_ok t" "sorted_by rkey (inorder t)"
  shows "\<exists>t' n. BB_Tree_Del cmp uf t (Some k) (Some m) = Some (t', Some n) \<and> depths_ok t' \<and>
     (if del_done rkey (skey k) uf (inorder t)
      then inorder t' = del_key rkey (skey k) (inorder t) \<and> n = level cmp k t \<and> 0 < n
      else t' = t \<and> n = 0)"
  using assms
proof (induction t arbitrary: m)
  case NULL
  then show ?case by (simp add: del_done_def)
next
  case (Node ld l c r rd)
  have dl: "depths_ok l" "depths_ok r" "ld = height l" "rd = height r"
    and srt: "sorted_by rkey (inorder l)" "sorted_by rkey (inorder r)"
    and lt: "\<forall>y\<in>set (inorder l). rkey y < rkey c" "\<forall>y\<in>set (inorder r). rkey c < rkey y"
    using Node.prems by (auto simp: sorted_by_simps)
  consider "cmp c k = 0" | "cmp c k > 0" | "cmp c k < 0" by linarith
  then show ?case
  proof cases
    case 1
    then have key: "rkey c = skey k" by (simp add: cmp_sign)
    with lt have none: "find (\<lambda>x. rkey x = skey k) (inorder l) = None"
      by (intro find_none) auto
    have dn: "del_done rkey (skey k) uf (inorder (Node ld l c r rd)) = (\<not> del_vetoed uf c)"
      using none key by (simp add: del_done_append) (simp add: del_done_def)
    have "del_key rkey (skey k) (inorder (Node ld l c r rd)) = inorder l @ inorder r"
      using lt(1) key by (auto simp: del_key_append_less)
    then show ?thesis using 1 t_delete_ok [OF Node.prems(1), of uf] dn Node.prems(1)
      by (auto simp: del_vetoed_def simp del: t_delete.simps)
  next
    case 2
    then have key: "skey k < rkey c" by (simp add: cmp_sign)
    with lt have "find (\<lambda>x. rkey x = skey k) (inorder r) = None"
      by (intro find_none) auto
    then have dn: "del_done rkey (skey k) uf (inorder (Node ld l c r rd)) =
        del_done rkey (skey k) uf (inorder l)"
      using key by (cases "find (\<lambda>x. rkey x = skey k) (inorder l)") (auto simp: del_done_def find_append)
    have del: "del_key rkey (skey k) (inorder (Node ld l c r rd)) =
        del_key rkey (skey k) (inorder l) @ c # inorder r"
    proof -
      have "\<forall>y\<in>set (c # inorder r). skey k < rkey y"
        using lt(2) key less_trans by auto
      then show ?thesis by (simp add: del_key_append_left)
    qed
    obtain l' n where l': "BB_Tree_Del cmp uf l (Some k) (Some m) = Some (l', Some n)" "depths_ok l'"
        "if del_done rkey (skey k) uf (inorder l)
         then inorder l' = del_key rkey (skey k) (inorder l) \<and> n = level cmp k l \<and> 0 < n
         else l' = l \<and> n = 0"
      using Node.IH(1) dl srt by blast
    show ?thesis
    proof (cases "del_done rkey (skey k) uf (inorder l)")
      case True
      then have "l \<noteq> NULL" by (auto simp: del_done_def)
      moreover obtain t' where "(if rd - height l' > 1 then R_blc (Node (height l') l' c r rd)
            else Some (Node (height l') l' c r rd)) = Some t'"
          "depths_ok t'" "inorder t' = inorder l' @ c # inorder r"
        using R_blc_guard [of "height l'" l' c r rd] l'(2) dl by auto
      ultimately show ?thesis using True 2 l' dn del level_pos [of l k]
        by (simp add: Let_def del: R_blc.simps)
    next
      case False
      then show ?thesis using 2 l' dn Node.prems(1) by (auto simp: del_done_def)
    qed
  next
    case 3
    then have key: "rkey c < skey k" by (simp add: cmp_sign)
    with lt have "find (\<lambda>x. rkey x = skey k) (inorder l) = None"
      by (intro find_none) auto
    then have dn: "del_done rkey (skey k) uf (inorder (Node ld l c r rd)) =
        del_done rkey (skey k) uf (inorder r)"
      using less_imp_neq [OF key] by (simp add: del_done_append) (simp add: del_done_def)
    have del: "del_key rkey (skey k) (inorder (Node ld l c r rd)) =
        inorder l @ c # del_key rkey (skey k) (inorder r)"
    proof -
      have "\<forall>y\<in>set (inorder l). rkey y < skey k"
        using lt(1) key less_trans by blast
      then show ?thesis using less_imp_neq [OF key] by (simp add: del_key_append_less)
    qed
    obtain r' n where r': "BB_Tree_Del cmp uf r (Some k) (Some m) = Some (r', Some n)" "depths_ok r'"
        "if del_done rkey (skey k) uf (inorder r)
         then inorder r' = del_key rkey (skey k) (inorder r) \<and> n = level cmp k r \<and> 0 < n
         else r' = r \<and> n = 0"
      using Node.IH(2) dl srt by blast
    show ?thesis
    proof (cases "del_done rkey (skey k) uf (inorder r)")
      case True
      then have "r \<noteq> NULL" by (auto simp: del_done_def)
      moreover obtain t' where "(if ld - height r' > 1 then L_blc (Node ld l c r' (height r'))
            else Some (Node ld l c r' (height r'))) = Some t'"
          "depths_ok t'" "inorder t' = inorder l @ c # inorder r'"
        using L_blc_guard [of ld l c r' "height r'"] r'(2) dl by auto
      ultimately show ?thesis using True 3 r' dn del level_pos [of r k]
        by (simp add: Let_def del: L_blc.simps)
    next
      case False
      then show ?thesis using 3 r' dn Node.prems(1) by (auto simp: del_done_def)
    qed
  qed
qed

end


subsection \<open>Properties\<close>

text \<open>C3: \<open>BB_Tree_Del\<close> on a tree with ascending contents and exact depth fields never
  dereferences a null pointer.  When the key is present and the callback does not veto it, the
  result holds exactly the other records in order, its depth fields are exact again, and
  \<open>*flg\<close> is the level the record was found on; otherwise the tree is unchanged and \<open>*flg\<close>
  is 0.\<close>

theorem BB_Tree_Del_correct:
  assumes "comparator cmp rkey skey" "depths_ok t" "sorted_by rkey (inorder t)"
  shows "\<exists>t' n. BB_Tree_Del cmp user_free t (Some k) (Some m) = Some (t', Some n) \<and>
    depths_ok t' \<and> sorted_by rkey (inorder t') \<and>
    (if del_done rkey (skey k) user_free (inorder t)
     then inorder t' = del_key rkey (skey k) (inorder t) \<and> n = level cmp k t \<and> 0 < n
     else t' = t \<and> n = 0)"
proof -
  obtain t' n where "BB_Tree_Del cmp user_free t (Some k) (Some m) = Some (t', Some n)" "depths_ok t'"
      "if del_done rkey (skey k) user_free (inorder t)
       then inorder t' = del_key rkey (skey k) (inorder t) \<and> n = level cmp k t \<and> 0 < n
       else t' = t \<and> n = 0"
    using comparator.Del_ok [OF assms] by blast
  then show ?thesis
    using sorted_del_key [OF assms(3), of "skey k"] assms(3)
    by (cases "del_done rkey (skey k) user_free (inorder t)") auto
qed

theorem BB_Tree_Del_correct_witness:
  "\<exists>t'. BB_Tree_Del (\<lambda>x k. x - k) None (Node 0 NULL (3::int) (Node 0 NULL 7 NULL 0) 1) (Some 7) (Some 0)
      = Some (t', Some 2) \<and> inorder t' = [3]"
  using BB_Tree_Del_correct [of "\<lambda>x k. x - k" "\<lambda>x. x" "\<lambda>x. x"
      "Node 0 NULL 3 (Node 0 NULL 7 NULL 0) 1" None 7 0] int_cmp.comparator_axioms
  by (simp add: del_done_def del_vetoed_def)

text \<open>The tree the insertions of a list of integers build.\<close>

definition add_all :: "int list \<Rightarrow> int T_Tree option" where
  "add_all xs =
     fold (\<lambda>x t. t \<bind> (\<lambda>t. BB_Tree_Add True (\<lambda>x k. x - k) None t x)) xs (Some NULL)"

text \<open>Deletion does not keep the tree balanced.  Seven insertions give a balanced tree;
  deleting one record lifts a grandchild in \<open>R_blc\<close> and leaves the old right child with a
  left side of depth 2 and no right side, although all depth fields are exact.\<close>

theorem BB_Tree_Del_loses_balance:
  "\<exists>t t'. add_all [1, 7, 3, 4, 5, 2, 6] = Some t \<and> balanced t \<and>
     BB_Tree_Del (\<lambda>x k. x - k) None t (Some 1) (Some 0) = Some (t', Some 2) \<and>
     depths_ok t' \<and> \<not> balanced t'"
  by (simp add: add_all_def add_left_fix_def add_right_fix_def R_blc_lift_def L_blc_lift_def Let_def)

end
