(* ===== verification/Binary_Search.thy ===== *)
theory Binary_Search
  imports Sdbc_Prelude
begin

text \<open>The binary searches of \<open>src/ds/Binary_search.c\<close> and \<open>src/ds/bound.c\<close>, and the
  queries \<open>src/ds/tbound.c\<close> composes from the two bounds.  The array and the key are
  reached only through the callback \<open>compare key data n\<close>, which returns \<open>data[n]-*key\<close>; the
  key and data pointers may be null.  A loop has the callback with both fixed, \<open>c\<close>, and
  its local variables as arguments; \<open>l+((data_count-l)>>1)\<close> is only formed when
  \<open>data_count\<close> is not below \<open>l\<close>, where the shift is \<open>div 2\<close> and nothing overflows.\<close>

function eq_search :: "(int \<Rightarrow> int) \<Rightarrow> int \<Rightarrow> int \<Rightarrow> int" where
  "eq_search c l data_count =
     (if data_count \<ge> l then
        let m = l + (data_count - l) div 2; ret = c m in
        if ret = 0 then m
        else if ret > 0 then eq_search c l (m - 1)
        else eq_search c (m + 1) data_count
      else -1)"
  by pat_completeness auto
termination by (relation "measure (\<lambda>(c, l, n). nat (n - l + 1))") auto

function gt_search :: "(int \<Rightarrow> int) \<Rightarrow> int \<Rightarrow> int \<Rightarrow> int \<Rightarrow> int" where
  "gt_search c l data_count result =
     (if data_count \<ge> l then
        let m = l + (data_count - l) div 2; ret = c m in
        if ret > 0 then gt_search c l (m - 1) m
        else gt_search c (m + 1) data_count result
      else result)"
  by pat_completeness auto
termination by (relation "measure (\<lambda>(c, l, n, r). nat (n - l + 1))") auto

function gteq_search :: "(int \<Rightarrow> int) \<Rightarrow> int \<Rightarrow> int \<Rightarrow> int \<Rightarrow> int" where
  "gteq_search c l data_count result =
     (if data_count \<ge> l then
        let m = l + (data_count - l) div 2; ret = c m in
        if ret = 0 then m
        else if ret > 0 then gteq_search c l (m - 1) m
        else gteq_search c (m + 1) data_count result
      else result)"
  by pat_completeness auto
termination by (relation "measure (\<lambda>(c, l, n, r). nat (n - l + 1))") auto

function lt_search :: "(int \<Rightarrow> int) \<Rightarrow> int \<Rightarrow> int \<Rightarrow> int \<Rightarrow> int" where
  "lt_search c l data_count result =
     (if data_count \<ge> l then
        let m = l + (data_count - l) div 2; ret = c m in
        if ret \<ge> 0 then lt_search c l (m - 1) result
        else lt_search c (m + 1) data_count m
      else result)"
  by pat_completeness auto
termination by (relation "measure (\<lambda>(c, l, n, r). nat (n - l + 1))") auto

function lteq_search :: "(int \<Rightarrow> int) \<Rightarrow> int \<Rightarrow> int \<Rightarrow> int \<Rightarrow> int" where
  "lteq_search c l data_count result =
     (if data_count \<ge> l then
        let m = l + (data_count - l) div 2; ret = c m in
        if ret = 0 then m
        else if ret \<ge> 0 then lteq_search c l (m - 1) result
        else lteq_search c (m + 1) data_count m
      else result)"
  by pat_completeness auto
termination by (relation "measure (\<lambda>(c, l, n, r). nat (n - l + 1))") auto

function lower_search :: "(int \<Rightarrow> int) \<Rightarrow> int \<Rightarrow> int \<Rightarrow> int" where
  "lower_search c start lst =
     (if start \<le> lst then
        let middle = start + (lst - start) div 2; val = c middle in
        if val = 0 \<and> (middle = 0 \<or> c (middle - 1) < 0) then middle
        else if val \<ge> 0 then lower_search c start (middle - 1)
        else lower_search c (middle + 1) lst
      else -1)"
  by pat_completeness auto
termination by (relation "measure (\<lambda>(c, l, n). nat (n - l + 1))") auto

function upper_search :: "(int \<Rightarrow> int) \<Rightarrow> int \<Rightarrow> int \<Rightarrow> int \<Rightarrow> int" where
  "upper_search c start lst result =
     (if start \<le> lst then
        let middle = start + (lst - start) div 2; val = c middle in
        if val > 0 then
          upper_search c start (middle - 1)
            (if middle = 0 \<or> c (middle - 1) \<le> 0 then middle else result)
        else upper_search c (middle + 1) lst result
      else result)"
  by pat_completeness auto
termination by (relation "measure (\<lambda>(c, l, n, r). nat (n - l + 1))") auto

declare eq_search.simps [simp del] gt_search.simps [simp del] gteq_search.simps [simp del]
  lt_search.simps [simp del] lteq_search.simps [simp del]
  lower_search.simps [simp del] upper_search.simps [simp del]

type_synonym ('k, 'd) probe = "'k \<Rightarrow> 'd \<Rightarrow> int \<Rightarrow> int"

definition Binary_EQUAL :: "'k option \<Rightarrow> 'd option \<Rightarrow> int \<Rightarrow> ('k, 'd) probe \<Rightarrow> int" where
  "Binary_EQUAL key data data_count compare =
     (case (key, data) of
        (Some k, Some d) \<Rightarrow> eq_search (compare k d) 0 (data_count - 1)
      | _ \<Rightarrow> -1)"

definition Binary_GT :: "'k option \<Rightarrow> 'd option \<Rightarrow> int \<Rightarrow> ('k, 'd) probe \<Rightarrow> int" where
  "Binary_GT key data data_count compare =
     (case (key, data) of
        (Some k, Some d) \<Rightarrow> gt_search (compare k d) 0 (data_count - 1) (-1)
      | _ \<Rightarrow> -1)"

definition Binary_GTEQ :: "'k option \<Rightarrow> 'd option \<Rightarrow> int \<Rightarrow> ('k, 'd) probe \<Rightarrow> int" where
  "Binary_GTEQ key data data_count compare =
     (case (key, data) of
        (Some k, Some d) \<Rightarrow> gteq_search (compare k d) 0 (data_count - 1) (-1)
      | _ \<Rightarrow> -1)"

definition Binary_LT :: "'k option \<Rightarrow> 'd option \<Rightarrow> int \<Rightarrow> ('k, 'd) probe \<Rightarrow> int" where
  "Binary_LT key data data_count compare =
     (case (key, data) of
        (Some k, Some d) \<Rightarrow> lt_search (compare k d) 0 (data_count - 1) (-1)
      | _ \<Rightarrow> -1)"

definition Binary_LTEQ :: "'k option \<Rightarrow> 'd option \<Rightarrow> int \<Rightarrow> ('k, 'd) probe \<Rightarrow> int" where
  "Binary_LTEQ key data data_count compare =
     (case (key, data) of
        (Some k, Some d) \<Rightarrow> lteq_search (compare k d) 0 (data_count - 1) (-1)
      | _ \<Rightarrow> -1)"

definition lowerBound :: "'k option \<Rightarrow> 'd option \<Rightarrow> int \<Rightarrow> ('k, 'd) probe \<Rightarrow> int" where
  "lowerBound key data data_count compare =
     (case (key, data) of
        (Some k, Some d) \<Rightarrow> lower_search (compare k d) 0 (data_count - 1)
      | _ \<Rightarrow> -1)"

definition upperBound :: "'k option \<Rightarrow> 'd option \<Rightarrow> int \<Rightarrow> ('k, 'd) probe \<Rightarrow> int" where
  "upperBound key data data_count compare =
     (case (key, data) of
        (Some k, Some d) \<Rightarrow> upper_search (compare k d) 0 (data_count - 1) (-1)
      | _ \<Rightarrow> -1)"

definition less_than :: "'k option \<Rightarrow> 'd option \<Rightarrow> int \<Rightarrow> ('k, 'd) probe \<Rightarrow> int" where
  "less_than key data data_siz cmp =
     (let ret = lowerBound key data data_siz cmp in
      let ret = (if 0 > ret then
                   (let up = upperBound key data data_siz cmp in if 0 > up then data_siz else up)
                 else ret)
      in ret - 1)"

definition less_eq :: "'k option \<Rightarrow> 'd option \<Rightarrow> int \<Rightarrow> ('k, 'd) probe \<Rightarrow> int" where
  "less_eq key data data_siz cmp =
     (let ret = upperBound key data data_siz cmp in
      let ret = (if 0 > ret then data_siz else ret)
      in ret - 1)"

definition great_eq :: "'k option \<Rightarrow> 'd option \<Rightarrow> int \<Rightarrow> ('k, 'd) probe \<Rightarrow> int" where
  "great_eq key data data_siz cmp =
     (let ret = lowerBound key data data_siz cmp in
      if ret \<ge> 0 then ret else upperBound key data data_siz cmp)"

subsection \<open>Specification: the first and last index with a property\<close>

definition first_idx :: "(int \<Rightarrow> bool) \<Rightarrow> int \<Rightarrow> int" where
  "first_idx P n = (case find P [0..n - 1] of None \<Rightarrow> -1 | Some i \<Rightarrow> i)"

definition last_idx :: "(int \<Rightarrow> bool) \<Rightarrow> int \<Rightarrow> int" where
  "last_idx P n = (case find P (rev [0..n - 1]) of None \<Rightarrow> -1 | Some i \<Rightarrow> i)"

lemma first_idx_none: "(\<And>i. 0 \<le> i \<Longrightarrow> i < n \<Longrightarrow> \<not> P i) \<Longrightarrow> first_idx P n = -1"
  by (simp add: first_idx_def find_none)

lemma last_idx_none: "(\<And>i. 0 \<le> i \<Longrightarrow> i < n \<Longrightarrow> \<not> P i) \<Longrightarrow> last_idx P n = -1"
  by (simp add: last_idx_def find_none)

lemma upto_split3: "0 \<le> (m::int) \<Longrightarrow> m < n \<Longrightarrow> [0..n - 1] = [0..m - 1] @ m # [m + 1..n - 1]"
  by (metis upto_split1 upto_split2 upto_rec1 add_le_cancel_right diff_add_cancel
      order_less_le zle_diff1_eq)

lemma first_idx_at:
  assumes "0 \<le> m" "m < n" "P m" "\<And>i. 0 \<le> i \<Longrightarrow> i < m \<Longrightarrow> \<not> P i"
  shows "first_idx P n = m"
proof -
  have "find P [0..m - 1] = None" using assms(4) by (intro find_none) auto
  then show ?thesis using assms(1-3) by (simp add: first_idx_def upto_split3 find_append)
qed

lemma last_idx_at:
  assumes "0 \<le> m" "m < n" "P m" "\<And>i. m < i \<Longrightarrow> i < n \<Longrightarrow> \<not> P i"
  shows "last_idx P n = m"
proof -
  have "find P (rev [m + 1..n - 1]) = None" using assms(4) by (intro find_none) auto
  then show ?thesis using assms(1-3) by (simp add: last_idx_def upto_split3 find_append)
qed


lemma first_idx_cases:
  "(first_idx P n = -1 \<and> (\<forall>i. 0 \<le> i \<longrightarrow> i < n \<longrightarrow> \<not> P i)) \<or>
   (0 \<le> first_idx P n \<and> first_idx P n < n \<and> P (first_idx P n) \<and>
    (\<forall>i. 0 \<le> i \<longrightarrow> i < first_idx P n \<longrightarrow> \<not> P i))"
proof (cases "find P [0..n - 1]")
  case None
  then have "first_idx P n = -1" by (simp add: first_idx_def)
  then show ?thesis using None by (auto simp: find_None_iff)
next
  case (Some i)
  then obtain k where k: "k < length [0..n - 1]" "P ([0..n - 1] ! k)" "i = [0..n - 1] ! k"
      "\<forall>j<k. \<not> P ([0..n - 1] ! j)"
    by (auto simp: find_Some_iff)
  then have "i = int k" "int k < n" by auto
  moreover have "\<not> P j" if "0 \<le> j" "j < i" for j
    using k(4) [rule_format, of "nat j"] that \<open>i = int k\<close> k(1) by auto
  ultimately show ?thesis using Some k by (auto simp: first_idx_def)
qed

text \<open>The induction all loops use: on the number of indexes left.\<close>

lemma range_induct:
  assumes "\<And>l h. (\<And>l' h'. nat (h' - l' + 1) < nat (h - l + 1) \<Longrightarrow> P l' h') \<Longrightarrow> P l h"
  shows "P l (h::int)"
proof -
  have "\<forall>l h. nat (h - l + 1) = k \<longrightarrow> P l h" for k
    by (induction k rule: less_induct) (use assms in blast)
  then show ?thesis by blast
qed

lemma mid_range:
  assumes "l \<le> (h::int)"
  shows "l \<le> l + (h - l) div 2" "l + (h - l) div 2 \<le> h"
    "nat (l + (h - l) div 2 - 1 - l + 1) < nat (h - l + 1)"
    "nat (h - (l + (h - l) div 2 + 1) + 1) < nat (h - l + 1)"
  using assms by auto

subsection \<open>The searches over ascending data\<close>

text \<open>What the searches need of the data: the sign of \<open>data[i]-*key\<close> never falls as the
  index grows.\<close>

locale ascending =
  fixes c :: "int \<Rightarrow> int" and n :: int
  assumes pos_up: "0 \<le> i \<Longrightarrow> i \<le> j \<Longrightarrow> j < n \<Longrightarrow> 0 < c i \<Longrightarrow> 0 < c j"
    and nonneg_up: "0 \<le> i \<Longrightarrow> i \<le> j \<Longrightarrow> j < n \<Longrightarrow> 0 \<le> c i \<Longrightarrow> 0 \<le> c j"
begin

lemma neg_down: "0 \<le> i \<Longrightarrow> i \<le> j \<Longrightarrow> j < n \<Longrightarrow> c j < 0 \<Longrightarrow> c i < 0"
  using nonneg_up [of i j] by linarith

lemma nonpos_down: "0 \<le> i \<Longrightarrow> i \<le> j \<Longrightarrow> j < n \<Longrightarrow> c j \<le> 0 \<Longrightarrow> c i \<le> 0"
  using pos_up [of i j] by linarith

text \<open>Loop invariants: everything left of \<open>l\<close> and right of \<open>h\<close> is decided.\<close>

definition split_at :: "(int \<Rightarrow> bool) \<Rightarrow> (int \<Rightarrow> bool) \<Rightarrow> int \<Rightarrow> int \<Rightarrow> bool" where
  "split_at L R l h \<longleftrightarrow> 0 \<le> l \<and> l \<le> h + 1 \<and> h < n \<and>
     (\<forall>i. 0 \<le> i \<longrightarrow> i < l \<longrightarrow> L i) \<and> (\<forall>i. h < i \<longrightarrow> i < n \<longrightarrow> R i)"

lemma split_at_start: "0 \<le> n \<Longrightarrow> split_at L R 0 (n - 1)"
  by (simp add: split_at_def)

lemma split_at_left:
  assumes "split_at L R l h" "l \<le> m" "m \<le> h" "\<And>i. m \<le> i \<Longrightarrow> i < n \<Longrightarrow> R i"
  shows "split_at L R l (m - 1)"
  using assms by (auto simp: split_at_def)

lemma split_at_right:
  assumes "split_at L R l h" "l \<le> m" "m \<le> h" "\<And>i. 0 \<le> i \<Longrightarrow> i \<le> m \<Longrightarrow> L i"
  shows "split_at L R (m + 1) h"
  using assms by (auto simp: split_at_def)

lemma split_at_mid:
  assumes "split_at L R l h" "l \<le> m" "m \<le> h"
  shows "0 \<le> m" "m < n"
  using assms by (auto simp: split_at_def)

lemma split_at_done:
  assumes "split_at L R l h" "\<not> l \<le> h"
  shows "l = h + 1" "0 \<le> i \<Longrightarrow> i < l \<Longrightarrow> L i" "l \<le> i \<Longrightarrow> i < n \<Longrightarrow> R i"
  using assms by (auto simp: split_at_def)

lemma split_at_first:
  assumes "split_at L R l h" "\<not> l \<le> h" "\<And>i. L i \<Longrightarrow> \<not> P i" "\<And>i. R i \<Longrightarrow> P i"
  shows "first_idx P n = (if l < n then l else -1)"
proof (cases "l < n")
  case True
  then show ?thesis
    using first_idx_at [of l n P] split_at_done [OF assms(1,2)] assms(3,4) assms(1)
    by (auto simp: split_at_def)
next
  case False
  then show ?thesis
    using first_idx_none [of n P] split_at_done [OF assms(1,2)] assms(3)
    by (auto simp: not_less)
qed

lemma split_at_last:
  assumes "split_at L R l h" "\<not> l \<le> h" "\<And>i. L i \<Longrightarrow> P i" "\<And>i. R i \<Longrightarrow> \<not> P i"
  shows "last_idx P n = l - 1"
proof (cases "0 < l")
  case True
  then show ?thesis
    using last_idx_at [of "l - 1" n P] split_at_done [OF assms(1,2)] assms(3,4) assms(1)
    by (auto simp: split_at_def)
next
  case False
  then have "l = 0" using assms(1) by (auto simp: split_at_def)
  then show ?thesis
    using last_idx_none [of n P] split_at_done [OF assms(1,2)] assms(4)
    by auto
qed

lemma eq_search_ok:
  assumes "split_at (\<lambda>i. c i < 0) (\<lambda>i. 0 < c i) l h"
  shows "let r = eq_search c l h in
    (0 \<le> r \<and> r < n \<and> c r = 0) \<or> (r = -1 \<and> (\<forall>i. 0 \<le> i \<longrightarrow> i < n \<longrightarrow> c i \<noteq> 0))"
  using assms
proof (induction l h rule: range_induct)
  case (1 l h)
  show ?case
  proof (cases "l \<le> h")
    case True
    define m where "m = l + (h - l) div 2"
    note m = mid_range [OF True, folded m_def]
    note mn = split_at_mid [OF 1(2) m(1,2)]
    have "split_at (\<lambda>i. c i < 0) (\<lambda>i. 0 < c i) l (m - 1)" if "c m > 0"
      using that m mn by (intro split_at_left [OF 1(2)]) (auto intro: pos_up)
    moreover have "split_at (\<lambda>i. c i < 0) (\<lambda>i. 0 < c i) (m + 1) h" if "c m < 0"
      using that m mn by (intro split_at_right [OF 1(2)]) (auto intro: neg_down)
    ultimately show ?thesis using 1(1) [OF m(3)] 1(1) [OF m(4)] mn
      by (subst eq_search.simps) (auto simp: Let_def m_def [symmetric] True)
  next
    case False
    then have "c i \<noteq> 0" if "0 \<le> i" "i < n" for i
      using that split_at_done(2,3) [OF 1(2) False, of i] by fastforce
    then show ?thesis using False by (subst eq_search.simps) auto
  qed
qed

lemma gt_search_ok:
  assumes "split_at (\<lambda>i. c i \<le> 0) (\<lambda>i. 0 < c i) l h" "res = (if h + 1 < n then h + 1 else -1)"
  shows "gt_search c l h res = first_idx (\<lambda>i. 0 < c i) n"
  using assms
proof (induction l h arbitrary: res rule: range_induct)
  case (1 l h)
  show ?case
  proof (cases "l \<le> h")
    case True
    define m where "m = l + (h - l) div 2"
    note m = mid_range [OF True, folded m_def]
    note mn = split_at_mid [OF 1(2) m(1,2)]
    have "split_at (\<lambda>i. c i \<le> 0) (\<lambda>i. 0 < c i) l (m - 1)" if "c m > 0"
      using that m mn by (intro split_at_left [OF 1(2)]) (auto intro: pos_up)
    moreover have "split_at (\<lambda>i. c i \<le> 0) (\<lambda>i. 0 < c i) (m + 1) h" if "c m \<le> 0"
      using that m mn by (intro split_at_right [OF 1(2)]) (auto intro: nonpos_down)
    ultimately show ?thesis using 1(1) [OF m(3)] 1(1) [OF m(4)] mn 1(3)
      by (subst gt_search.simps) (simp add: Let_def m_def [symmetric] True not_less)
  next
    case False
    then show ?thesis using split_at_first [OF 1(2) False] split_at_done(1) [OF 1(2) False] 1(3)
      by (subst gt_search.simps) auto
  qed
qed

lemma gteq_search_ok:
  assumes "split_at (\<lambda>i. c i < 0) (\<lambda>i. 0 < c i) l h" "res = (if h + 1 < n then h + 1 else -1)"
  shows "let r = gteq_search c l h res in
    (0 \<le> r \<and> r < n \<and> c r = 0) \<or>
    ((\<forall>i. 0 \<le> i \<longrightarrow> i < n \<longrightarrow> c i \<noteq> 0) \<and> r = first_idx (\<lambda>i. 0 < c i) n)"
  using assms
proof (induction l h arbitrary: res rule: range_induct)
  case (1 l h)
  show ?case
  proof (cases "l \<le> h")
    case True
    define m where "m = l + (h - l) div 2"
    note m = mid_range [OF True, folded m_def]
    note mn = split_at_mid [OF 1(2) m(1,2)]
    consider "c m = 0" | "c m > 0" | "c m < 0" by linarith
    then show ?thesis
    proof cases
      case 1
      then show ?thesis using mn
        by (subst gteq_search.simps) (simp add: Let_def m_def [symmetric] True)
    next
      case 2
      then have "split_at (\<lambda>i. c i < 0) (\<lambda>i. 0 < c i) l (m - 1)"
        using m mn by (intro split_at_left [OF 1(2)]) (auto intro: pos_up)
      then show ?thesis using 1(1) [OF m(3)] 2 mn
        by (subst gteq_search.simps) (simp add: Let_def m_def [symmetric] True)
    next
      case 3
      then have "split_at (\<lambda>i. c i < 0) (\<lambda>i. 0 < c i) (m + 1) h"
        using m mn by (intro split_at_right [OF 1(2)]) (auto intro: neg_down)
      then show ?thesis using 1(1) [OF m(4)] 3 mn 1(3)
        by (subst gteq_search.simps) (simp add: Let_def m_def [symmetric] True)
    qed
  next
    case False
    then have "c i \<noteq> 0" if "0 \<le> i" "i < n" for i
      using that split_at_done(2,3) [OF 1(2) False, of i] by fastforce
    then show ?thesis
      using False split_at_first [OF 1(2) False] split_at_done(1) [OF 1(2) False] 1(3)
      by (subst gteq_search.simps) auto
  qed
qed

lemma lt_search_ok:
  assumes "split_at (\<lambda>i. c i < 0) (\<lambda>i. 0 \<le> c i) l h" "res = l - 1"
  shows "lt_search c l h res = last_idx (\<lambda>i. c i < 0) n"
  using assms
proof (induction l h arbitrary: res rule: range_induct)
  case (1 l h)
  show ?case
  proof (cases "l \<le> h")
    case True
    define m where "m = l + (h - l) div 2"
    note m = mid_range [OF True, folded m_def]
    note mn = split_at_mid [OF 1(2) m(1,2)]
    have "split_at (\<lambda>i. c i < 0) (\<lambda>i. 0 \<le> c i) l (m - 1)" if "c m \<ge> 0"
      using that m mn by (intro split_at_left [OF 1(2)]) (auto intro: nonneg_up)
    moreover have "split_at (\<lambda>i. c i < 0) (\<lambda>i. 0 \<le> c i) (m + 1) h" if "c m < 0"
      using that m mn by (intro split_at_right [OF 1(2)]) (auto intro: neg_down)
    ultimately show ?thesis using 1(1) [OF m(3)] 1(1) [OF m(4)] mn 1(3)
      by (subst lt_search.simps) (simp add: Let_def m_def [symmetric] True not_le)
  next
    case False
    then show ?thesis using split_at_last [OF 1(2) False] 1(3)
      by (subst lt_search.simps) auto
  qed
qed

lemma lteq_search_ok:
  assumes "split_at (\<lambda>i. c i < 0) (\<lambda>i. 0 < c i) l h" "res = l - 1"
  shows "let r = lteq_search c l h res in
    (0 \<le> r \<and> r < n \<and> c r = 0) \<or>
    ((\<forall>i. 0 \<le> i \<longrightarrow> i < n \<longrightarrow> c i \<noteq> 0) \<and> r = last_idx (\<lambda>i. c i < 0) n)"
  using assms
proof (induction l h arbitrary: res rule: range_induct)
  case (1 l h)
  show ?case
  proof (cases "l \<le> h")
    case True
    define m where "m = l + (h - l) div 2"
    note m = mid_range [OF True, folded m_def]
    note mn = split_at_mid [OF 1(2) m(1,2)]
    consider "c m = 0" | "c m > 0" | "c m < 0" by linarith
    then show ?thesis
    proof cases
      case 1
      then show ?thesis using mn
        by (subst lteq_search.simps) (simp add: Let_def m_def [symmetric] True)
    next
      case 2
      then have "split_at (\<lambda>i. c i < 0) (\<lambda>i. 0 < c i) l (m - 1)"
        using m mn by (intro split_at_left [OF 1(2)]) (auto intro: pos_up)
      then show ?thesis using 1(1) [OF m(3)] 2 mn 1(3)
        by (subst lteq_search.simps) (simp add: Let_def m_def [symmetric] True)
    next
      case 3
      then have "split_at (\<lambda>i. c i < 0) (\<lambda>i. 0 < c i) (m + 1) h"
        using m mn by (intro split_at_right [OF 1(2)]) (auto intro: neg_down)
      then show ?thesis using 1(1) [OF m(4)] 3 mn
        by (subst lteq_search.simps) (simp add: Let_def m_def [symmetric] True)
    qed
  next
    case False
    then have "c i \<noteq> 0" if "0 \<le> i" "i < n" for i
      using that split_at_done(2,3) [OF 1(2) False, of i] by fastforce
    then show ?thesis using False split_at_last [OF 1(2) False] 1(3)
      by (subst lteq_search.simps) auto
  qed
qed

lemma lower_search_ok:
  assumes "split_at (\<lambda>i. c i < 0) (\<lambda>i. 0 \<le> c i) l h"
    "h + 1 < n \<Longrightarrow> c (h + 1) = 0 \<Longrightarrow> 0 \<le> h \<and> 0 \<le> c h"
  shows "lower_search c l h = first_idx (\<lambda>i. c i = 0) n"
  using assms
proof (induction l h rule: range_induct)
  case (1 l h)
  show ?case
  proof (cases "l \<le> h")
    case True
    define m where "m = l + (h - l) div 2"
    note m = mid_range [OF True, folded m_def]
    note mn = split_at_mid [OF 1(2) m(1,2)]
    consider "c m = 0 \<and> (m = 0 \<or> c (m - 1) < 0)"
      | "c m \<ge> 0" "\<not> (c m = 0 \<and> (m = 0 \<or> c (m - 1) < 0))" | "c m < 0" by linarith
    then show ?thesis
    proof cases
      case 1
      have "first_idx (\<lambda>i. c i = 0) n = m"
      proof (intro first_idx_at)
        show "c i \<noteq> 0" if "0 \<le> i" "i < m" for i
          using neg_down [of i "m - 1"] 1 that mn by auto
      qed (use 1 mn in auto)
      then show ?thesis using 1
        by (subst lower_search.simps) (auto simp: Let_def m_def [symmetric] True)
    next
      case 2
      then have "split_at (\<lambda>i. c i < 0) (\<lambda>i. 0 \<le> c i) l (m - 1)"
        using m mn by (intro split_at_left [OF 1(2)]) (auto intro: nonneg_up)
      then show ?thesis using 1(1) [OF m(3)] 2 mn
        by (subst lower_search.simps) (auto simp: Let_def m_def [symmetric] True)
    next
      case 3
      then have "split_at (\<lambda>i. c i < 0) (\<lambda>i. 0 \<le> c i) (m + 1) h"
        using m mn by (intro split_at_right [OF 1(2)]) (auto intro: neg_down)
      then show ?thesis using 1(1) [OF m(4)] 3 1(3)
        by (subst lower_search.simps) (simp add: Let_def m_def [symmetric] True)
    qed
  next
    case False
    note fin = split_at_done [OF 1(2) False]
    have "c i \<noteq> 0" if "0 \<le> i" "i < n" for i
    proof (cases "i < l")
      case False
      have "c l \<noteq> 0" using 1(3) fin(1) fin(2) [of h] that False by force
      then have "0 < c l" using fin(3) [of l] that False by force
      then show ?thesis using pos_up [of l i] that False 1(2) by (auto simp: split_at_def)
    qed (use fin(2) [of i] that in auto)
    then have "first_idx (\<lambda>i. c i = 0) n = -1" by (intro first_idx_none) auto
    then show ?thesis using False by (subst lower_search.simps) auto
  qed
qed

lemma upper_search_ok:
  assumes "split_at (\<lambda>i. c i \<le> 0) (\<lambda>i. 0 < c i) l h"
    "res = (if h + 1 < n \<and> (h + 1 = 0 \<or> c h \<le> 0) then h + 1 else -1)"
  shows "upper_search c l h res = first_idx (\<lambda>i. 0 < c i) n"
  using assms
proof (induction l h arbitrary: res rule: range_induct)
  case (1 l h)
  show ?case
  proof (cases "l \<le> h")
    case True
    define m where "m = l + (h - l) div 2"
    note m = mid_range [OF True, folded m_def]
    note mn = split_at_mid [OF 1(2) m(1,2)]
    show ?thesis
    proof (cases "c m > 0")
      case pos: True
      then have split: "split_at (\<lambda>i. c i \<le> 0) (\<lambda>i. 0 < c i) l (m - 1)"
        using m mn by (intro split_at_left [OF 1(2)]) (auto intro: pos_up)
      have "0 < c h" "0 \<le> h" using pos_up [of m h] pos m mn 1(2) by (auto simp: split_at_def)
      then have "res = -1" using 1(3) by auto
      then show ?thesis using 1(1) [OF m(3) split] pos mn
        by (subst upper_search.simps) (auto simp: Let_def m_def [symmetric] True)
    next
      case False
      then have "split_at (\<lambda>i. c i \<le> 0) (\<lambda>i. 0 < c i) (m + 1) h"
        using m mn by (intro split_at_right [OF 1(2)]) (auto intro: nonpos_down)
      then show ?thesis using 1(1) [OF m(4)] False 1(3)
        by (subst upper_search.simps) (simp add: Let_def m_def [symmetric] True)
    qed
  next
    case False
    have "first_idx (\<lambda>i. 0 < c i) n = (if l < n then l else -1)"
      by (rule split_at_first [OF 1(2) False]) auto
    moreover have "h + 1 = 0 \<or> c h \<le> 0"
      using split_at_done(1) [OF 1(2) False] split_at_done(2) [OF 1(2) False, of h] 1(2) by (force simp: split_at_def)
    ultimately show ?thesis using split_at_done(1) [OF 1(2) False] 1(3) False
      by (subst upper_search.simps) auto
  qed
qed

text \<open>How the queries of \<open>tbound.c\<close> follow from the two bounds.\<close>

lemma first_nonneg:
  "first_idx (\<lambda>i. 0 \<le> c i) n =
     (if 0 \<le> first_idx (\<lambda>i. c i = 0) n then first_idx (\<lambda>i. c i = 0) n
      else first_idx (\<lambda>i. 0 < c i) n)"
proof (cases "0 \<le> first_idx (\<lambda>i. c i = 0) n")
  case True
  define f where "f = first_idx (\<lambda>i. c i = 0) n"
  have f: "0 \<le> f" "f < n" "c f = 0" "\<forall>i. 0 \<le> i \<longrightarrow> i < f \<longrightarrow> c i \<noteq> 0"
    using first_idx_cases [of "\<lambda>i. c i = 0" n] True by (auto simp: f_def)
  have "\<not> 0 \<le> c i" if "0 \<le> i" "i < f" for i
    using f(3,4) that pos_up [of i f] f(2) by force
  then have "first_idx (\<lambda>i. 0 \<le> c i) n = f" using f by (intro first_idx_at) auto
  then show ?thesis using True by (simp add: f_def)
next
  case False
  then have "\<forall>i. 0 \<le> i \<longrightarrow> i < n \<longrightarrow> c i \<noteq> 0"
    using first_idx_cases [of "\<lambda>i. c i = 0" n] by auto
  then have "find (\<lambda>i. 0 \<le> c i) [0..n - 1] = find (\<lambda>i. 0 < c i) [0..n - 1]"
    by (intro find_cong) force+
  then show ?thesis using False by (simp add: first_idx_def)
qed

lemma last_before_first:
  assumes "\<And>i j. 0 \<le> i \<Longrightarrow> i \<le> j \<Longrightarrow> j < n \<Longrightarrow> P i \<Longrightarrow> P j" "0 \<le> n"
  shows "last_idx (\<lambda>i. \<not> P i) n = (if first_idx P n < 0 then n else first_idx P n) - 1"
proof (cases "first_idx P n < 0")
  case True
  then have "\<forall>i. 0 \<le> i \<longrightarrow> i < n \<longrightarrow> \<not> P i" using first_idx_cases [of P n] by auto
  then show ?thesis
    using True assms(2) last_idx_at [of "n - 1" n "\<lambda>i. \<not> P i"] last_idx_none [of n "\<lambda>i. \<not> P i"]
    by (cases "n = 0") auto
next
  case False
  define f where "f = first_idx P n"
  have f: "0 \<le> f" "f < n" "P f" "\<forall>i. 0 \<le> i \<longrightarrow> i < f \<longrightarrow> \<not> P i"
    using first_idx_cases [of P n] False by (auto simp: f_def)
  have up: "P i" if "f \<le> i" "i < n" for i using assms(1) [of f i] f that by auto
  have "last_idx (\<lambda>i. \<not> P i) n = f - 1"
  proof (cases "f = 0")
    case True
    then show ?thesis using up by (simp add: last_idx_none)
  next
    case False
    then show ?thesis using up f by (intro last_idx_at) auto
  qed
  then show ?thesis using False by (simp add: f_def)
qed

lemmas bounds_start = lower_search_ok [of 0 "n - 1"] upper_search_ok [of 0 "n - 1" "-1"]

end

subsection \<open>Properties\<close>

text \<open>The arrays the searches are used on: integers in ascending order, compared by the
  callback of \<open>tbound.c\<close>.\<close>

definition int_probe :: "(int, int list) probe" where
  "int_probe key data n = (let d = data ! nat n in if d > key then 1 else if d < key then -1 else 0)"

lemma int_probe_ascending:
  assumes "sorted data"
  shows "ascending (int_probe key data) (int (length data))"
proof
  fix i j assume ij: "0 \<le> i" "i \<le> j" "j < int (length data)"
  then have "data ! nat i \<le> data ! nat j"
    using assms by (intro sorted_nth_mono) auto
  then show "0 < int_probe key data i \<Longrightarrow> 0 < int_probe key data j"
    "0 \<le> int_probe key data i \<Longrightarrow> 0 \<le> int_probe key data j"
    by (auto simp: int_probe_def Let_def split: if_splits)
qed

interpretation tab: ascending "int_probe key [0, 2, 2, 5, 7, 10]" 6 for key
  using int_probe_ascending [where data = "[0, 2, 2, 5, 7, 10]"] by simp

lemma bounds_ok:
  assumes "ascending (compare k d) n" "0 \<le> n"
  shows "lowerBound (Some k) (Some d) n compare = first_idx (\<lambda>i. compare k d i = 0) n"
    and "upperBound (Some k) (Some d) n compare = first_idx (\<lambda>i. compare k d i > 0) n"
  using ascending.bounds_start [OF assms(1)] ascending.split_at_start [OF assms]
  by (simp_all add: lowerBound_def upperBound_def)

text \<open>C16: On an array that ascends (duplicates allowed) \<open>lowerBound\<close> is the first index
  of the key or -1, \<open>upperBound\<close> the first index above it or -1, and the queries built from
  them are right: \<open>less_than\<close> is the last index below the key, \<open>less_eq\<close> the last index not
  above it and \<open>great_eq\<close> the first index not below it, each -1 when there is none.\<close>

theorem bounds_correct:
  assumes "ascending (compare k d) n" "0 \<le> n"
  shows "lowerBound (Some k) (Some d) n compare = first_idx (\<lambda>i. compare k d i = 0) n \<and>
    upperBound (Some k) (Some d) n compare = first_idx (\<lambda>i. compare k d i > 0) n \<and>
    less_than (Some k) (Some d) n compare = last_idx (\<lambda>i. compare k d i < 0) n \<and>
    less_eq (Some k) (Some d) n compare = last_idx (\<lambda>i. compare k d i \<le> 0) n \<and>
    great_eq (Some k) (Some d) n compare = first_idx (\<lambda>i. compare k d i \<ge> 0) n"
proof -
  note b = bounds_ok [where compare = compare and k = k and d = d, OF assms]
  note nonneg = ascending.first_nonneg [OF assms(1)]
  have "last_idx (\<lambda>i. \<not> 0 \<le> compare k d i) n =
      (if first_idx (\<lambda>i. 0 \<le> compare k d i) n < 0 then n else first_idx (\<lambda>i. 0 \<le> compare k d i) n) - 1"
    by (rule ascending.last_before_first [OF assms(1) _ assms(2)])
      (rule ascending.nonneg_up [OF assms(1)])
  moreover have "last_idx (\<lambda>i. \<not> 0 < compare k d i) n =
      (if first_idx (\<lambda>i. 0 < compare k d i) n < 0 then n else first_idx (\<lambda>i. 0 < compare k d i) n) - 1"
    by (rule ascending.last_before_first [OF assms(1) _ assms(2)])
      (rule ascending.pos_up [OF assms(1)])
  ultimately show ?thesis
    by (simp add: b less_than_def less_eq_def great_eq_def nonneg not_le not_less)
qed

theorem bounds_correct_witness:
  "less_than (Some 5) (Some [0, 2, 2, 5, 7, 10]) 6 int_probe = 2"
proof -
  have "last_idx (\<lambda>i. int_probe 5 [0, 2, 2, 5, 7, 10] i < 0) 6 = 2"
    by (intro last_idx_at) (auto simp: int_probe_def nth_Cons' split: if_splits)
  then show ?thesis
    using bounds_correct [where compare = int_probe and k = 5 and d = "[0, 2, 2, 5, 7, 10]", OF tab.ascending_axioms] by simp
qed

text \<open>On an array that ascends, \<open>Binary_EQUAL\<close> returns an index of the key, or -1
  when the key is absent; \<open>Binary_GT\<close> is the first index above the key and \<open>Binary_LT\<close> the
  last one below it (-1 when there is none); \<open>Binary_GTEQ\<close> and \<open>Binary_LTEQ\<close> return an index
  of the key when it is there, and else the first index above, the last below it.\<close>

theorem Binary_search_correct:
  assumes "ascending (compare k d) n" "0 \<le> n"
  shows "(let r = Binary_EQUAL (Some k) (Some d) n compare in
      (0 \<le> r \<and> r < n \<and> compare k d r = 0) \<or> (r = -1 \<and> first_idx (\<lambda>i. compare k d i = 0) n = -1)) \<and>
    Binary_GT (Some k) (Some d) n compare = first_idx (\<lambda>i. compare k d i > 0) n \<and>
    Binary_LT (Some k) (Some d) n compare = last_idx (\<lambda>i. compare k d i < 0) n \<and>
    (let r = Binary_GTEQ (Some k) (Some d) n compare in
      (0 \<le> r \<and> r < n \<and> compare k d r = 0) \<or>
      (first_idx (\<lambda>i. compare k d i = 0) n = -1 \<and> r = first_idx (\<lambda>i. compare k d i > 0) n)) \<and>
    (let r = Binary_LTEQ (Some k) (Some d) n compare in
      (0 \<le> r \<and> r < n \<and> compare k d r = 0) \<or>
      (first_idx (\<lambda>i. compare k d i = 0) n = -1 \<and> r = last_idx (\<lambda>i. compare k d i < 0) n))"
proof -
  note start = ascending.split_at_start [OF assms]
  have absent: "(\<forall>i. 0 \<le> i \<longrightarrow> i < n \<longrightarrow> compare k d i \<noteq> 0) \<Longrightarrow> first_idx (\<lambda>i. compare k d i = 0) n = -1"
    by (intro first_idx_none) auto
  show ?thesis
    using ascending.eq_search_ok [OF assms(1) start] ascending.gt_search_ok [OF assms(1) start, of "-1"]
      ascending.lt_search_ok [OF assms(1) start, of "-1"] ascending.gteq_search_ok [OF assms(1) start, of "-1"]
      ascending.lteq_search_ok [OF assms(1) start, of "-1"] absent
    by (auto simp: Binary_EQUAL_def Binary_GT_def Binary_LT_def Binary_GTEQ_def Binary_LTEQ_def Let_def)
qed

theorem Binary_search_correct_witness:
  "Binary_GT (Some 5) (Some [0, 2, 2, 5, 7, 10]) 6 int_probe = 4"
proof -
  have "first_idx (\<lambda>i. int_probe 5 [0, 2, 2, 5, 7, 10] i > 0) 6 = 4"
    by (intro first_idx_at) (auto simp: int_probe_def nth_Cons' split: if_splits)
  then show ?thesis
    using Binary_search_correct [where compare = int_probe and k = 5 and d = "[0, 2, 2, 5, 7, 10]", OF tab.ascending_axioms] by simp
qed

end
