(* ===== verification/Template.thy ===== *)
theory Template
  imports Sdbc_Prelude
begin

text \<open>Record templates, \<open>src/include/pack.h\<close> and \<open>src/pack/netvar.c\<close>: a template is an
  array of column descriptions ended by one of negative type.  \<open>set_offset\<close> lays the columns
  out in memory as the C compiler lays out the structure the template describes.  The layout
  constants are those of the LP64 ABI the program is built for.  An array is the list of its
  elements, terminator included; None is a read past the end of it or the dereference of a
  null format pointer.\<close>

unbundle bit_operations_syntax

datatype T_PkgType =
    PkgType (ptype: int) (plen: int) (pname: "bytes option") (pformat: T_Format)
            (poffset: int) (pbindtype: int)
and T_Format = No_Format | Text_Format bytes | Struct_Format "T_PkgType list"

text \<open>The type codes of \<open>pack.h\<close>.\<close>

abbreviation (input) "CH_BYTE \<equiv> (0::int)"
abbreviation (input) "CH_CHAR \<equiv> (1::int)"
abbreviation (input) "CH_TINY \<equiv> (2::int)"
abbreviation (input) "CH_SHORT \<equiv> (3::int)"
abbreviation (input) "CH_INT \<equiv> (4::int)"
abbreviation (input) "CH_LONG \<equiv> (5::int)"
abbreviation (input) "CH_INT64 \<equiv> (6::int)"
abbreviation (input) "CH_FLOAT \<equiv> (7::int)"
abbreviation (input) "CH_DOUBLE \<equiv> (8::int)"
abbreviation (input) "CH_LDOUBLE \<equiv> (9::int)"
abbreviation (input) "CH_STRUCT \<equiv> (125::int)"
abbreviation (input) "CH_CLOB \<equiv> (126::int)"

definition base_type :: "T_PkgType \<Rightarrow> int" where
  "base_type t = ptype t AND 127"

text \<open>\<open>plain_name\<close>: what follows the last blank.\<close>

fun after_last_blank :: "bytes \<Rightarrow> bytes option" where
  "after_last_blank [] = None"
| "after_last_blank (b # bs) =
     (case after_last_blank bs of
        Some r \<Rightarrow> Some r
      | None \<Rightarrow> if b = 32 then Some bs else None)"

definition plain_name :: "bytes option \<Rightarrow> bytes option" where
  "plain_name name =
     (case name of
        None \<Rightarrow> None
      | Some nm \<Rightarrow> (case after_last_blank nm of None \<Rightarrow> Some nm | Some r \<Rightarrow> Some r))"

fun pkg_getnum :: "bytes \<Rightarrow> T_PkgType list \<Rightarrow> int option" where
  "pkg_getnum key [] = None"
| "pkg_getnum key (t # ts) =
     (if ptype t \<ge> 0 then
        (case plain_name (pname t) of
           None \<Rightarrow> None
         | Some nm \<Rightarrow> if key = nm then Some 0 else map_option (\<lambda>i. i + 1) (pkg_getnum key ts))
      else Some 0)"

fun pkg_getType :: "bytes \<Rightarrow> T_PkgType list \<Rightarrow> T_PkgType option" where
  "pkg_getType key [] = None"
| "pkg_getType key (t # ts) =
     (if ptype t \<ge> 0 then
        (case plain_name (pname t) of
           None \<Rightarrow> None
         | Some nm \<Rightarrow> if key = nm then Some t else pkg_getType key ts)
      else Some t)"

fun cnt_type :: "T_PkgType list \<Rightarrow> int option" where
  "cnt_type [] = None"
| "cnt_type (t # ts) = (if ptype t > -1 then map_option (\<lambda>i. i + 1) (cnt_type ts) else Some 0)"

text \<open>\<open>clean_bindtype\<close> clears the flags in every column and in the terminator.\<close>

definition set_bind :: "T_PkgType \<Rightarrow> int \<Rightarrow> T_PkgType" where
  "set_bind t b = PkgType (ptype t) (plen t) (pname t) (pformat t) (poffset t) b"

definition set_off :: "T_PkgType \<Rightarrow> int \<Rightarrow> T_PkgType" where
  "set_off t k = PkgType (ptype t) (plen t) (pname t) (pformat t) k (pbindtype t)"

definition set_len :: "T_PkgType \<Rightarrow> int \<Rightarrow> T_PkgType" where
  "set_len t n = PkgType (ptype t) n (pname t) (pformat t) (poffset t) (pbindtype t)"

fun clean_bindtype :: "T_PkgType list \<Rightarrow> int \<Rightarrow> T_PkgType list option" where
  "clean_bindtype [] flg = None"
| "clean_bindtype (t # ts) flg =
     (let t' = set_bind t (pbindtype t AND NOT flg) in
      if ptype t > -1 then map_option (\<lambda>ts'. t' # ts') (clean_bindtype ts flg)
      else Some (t' # ts))"

lemma set_simps [simp]:
  "ptype (set_bind t b) = ptype t" "plen (set_bind t b) = plen t" "pname (set_bind t b) = pname t"
  "pformat (set_bind t b) = pformat t" "poffset (set_bind t b) = poffset t" "pbindtype (set_bind t b) = b"
  "ptype (set_off t k) = ptype t" "plen (set_off t k) = plen t" "pname (set_off t k) = pname t"
  "pformat (set_off t k) = pformat t" "poffset (set_off t k) = k" "pbindtype (set_off t k) = pbindtype t"
  "ptype (set_len t n) = ptype t" "plen (set_len t n) = n" "pname (set_len t n) = pname t"
  "pformat (set_len t n) = pformat t" "poffset (set_len t n) = poffset t"
  "pbindtype (set_len t n) = pbindtype t"
  by (simp_all add: set_bind_def set_off_def set_len_def)

lemma base_type_set [simp]:
  "base_type (set_bind t b) = base_type t" "base_type (set_off t k) = base_type t"
  "base_type (set_len t n) = base_type t"
  by (simp_all add: base_type_def)

subsection \<open>\<open>set_offset\<close>\<close>

text \<open>\<open>(k+a)&~a\<close>, the rounding to a multiple of a power of two \<open>a+1\<close>.\<close>

definition pad :: "int \<Rightarrow> int \<Rightarrow> int" where
  "pad k a = (k + a) AND NOT a"

text \<open>The column visited first: its alignment starts \<open>max_align\<close> (lines 122-156).  A
  structure column has the alignment \<open>set_offset\<close> left in its own template's terminator.\<close>

definition first_align :: "T_PkgType \<Rightarrow> int \<Rightarrow> int" where
  "first_align t struct_align =
     (let b = base_type t in
      if b = CH_SHORT then 2
      else if b = CH_INT then 4
      else if b = CH_LONG then 8
      else if b = CH_INT64 then 7 + 1
      else if b = CH_DOUBLE then 7 + 1
      else if b = CH_LDOUBLE then 16
      else if b = CH_FLOAT then 4
      else if b = CH_CLOB then 8
      else if b = CH_STRUCT then struct_align
      else 1)"

text \<open>The next column (lines 162-212): the offset \<open>k\<close> is padded and \<open>max_align\<close> raised.\<close>

definition next_align :: "T_PkgType \<Rightarrow> int \<Rightarrow> int \<Rightarrow> int \<Rightarrow> int \<times> int" where
  "next_align t struct_align k max_align =
     (let b = base_type t in
      if b = 127 \<or> b = CH_CHAR \<or> b = CH_BYTE \<or> b = CH_TINY then (k, max_align)
      else if b = CH_INT64 then (pad k 7, c_MAX max_align (7 + 1))
      else if b = CH_LDOUBLE then (pad k 15, c_MAX max_align 16)
      else if b = CH_DOUBLE then (pad k 7, c_MAX max_align (7 + 1))
      else if b = CH_SHORT then (pad k 1, c_MAX max_align 2)
      else if b = CH_CLOB then (pad k 7, c_MAX max_align 8)
      else if b = CH_FLOAT \<or> b = CH_INT then (pad k 3, c_MAX max_align 4)
      else if b = CH_STRUCT then
        (if struct_align > 1 then pad k (struct_align - 1) else k, c_MAX max_align struct_align)
      else if b = CH_LONG then (pad k 7, c_MAX max_align (7 + 1))
      else (pad k 3, max_align))"

text \<open>What a structure column takes from its own laid-out template: length and alignment.\<close>

definition struct_end :: "T_PkgType \<Rightarrow> T_PkgType option" where
  "struct_end t =
     (case pformat t of
        Struct_Format ts \<Rightarrow> do { l \<leftarrow> cnt_type ts; Some (ts ! nat l) }
      | _ \<Rightarrow> None)"

definition struct_align :: "T_PkgType \<Rightarrow> int" where
  "struct_align t = (case struct_end t of None \<Rightarrow> 1 | Some e \<Rightarrow> pbindtype e)"

text \<open>The loop of lines 157-213 over columns whose structure templates are laid out;
  \<open>first\<close> is \<open>i==0\<close>, whose offset is not written before line 220.  At the terminator lines
  215-219 store the alignment and the padded size.\<close>

fun layout_loop :: "bool \<Rightarrow> int \<Rightarrow> int \<Rightarrow> T_PkgType list \<Rightarrow> T_PkgType list option" where
  "layout_loop first k max_align [] = None"
| "layout_loop first k max_align (t # ts) =
     (if ptype t > -1 then
        (let t = (if first then t else set_off t k);
             t = set_bind t 0;
             k = (if base_type t \<noteq> CH_CLOB then k + plen t else k + 8)
         in (case ts of
               [] \<Rightarrow> None
             | u # us \<Rightarrow>
                 (let (k, max_align) = next_align u (struct_align u) k max_align
                  in map_option (\<lambda>ts'. t # ts') (layout_loop False k max_align ts))))
      else
        (let t = set_bind t max_align
         in Some (set_off t (if max_align > 1 then pad k (max_align - 1) else k) # ts)))"

text \<open>\<open>set_offset\<close> and its recursion into the templates of structure columns.  The code
  lays such a template out when the loop reaches the column before it; \<open>visit\<close> does so for
  every column first, which nothing else of the loop depends on.\<close>

function set_offset :: "T_PkgType list \<Rightarrow> (int \<times> T_PkgType list) option"
  and visit_all :: "T_PkgType list \<Rightarrow> T_PkgType list option"
  and visit :: "T_PkgType \<Rightarrow> T_PkgType option" where
  "set_offset ts =
     (case ts of
        [] \<Rightarrow> None
      | t # _ \<Rightarrow>
          if poffset t > -1 then do { n \<leftarrow> cnt_type ts; Some (n, ts) }
          else do {
            n \<leftarrow> cnt_type ts;
            ts' \<leftarrow> visit_all ts;
            ts' \<leftarrow> layout_loop True 0 (first_align (hd ts') (struct_align (hd ts'))) ts';
            Some (n, set_off (hd ts') 0 # tl ts') })"
| "visit_all [] = Some []"
| "visit_all (t # ts) =
     (if ptype t > -1 then do { t' \<leftarrow> visit t; ts' \<leftarrow> visit_all ts; Some (t' # ts') }
      else Some (t # ts))"
| "visit (PkgType ty ln nm fmt off b) =
     (if ty AND 127 = CH_STRUCT then
        (case fmt of
           Struct_Format fs \<Rightarrow>
             do { (l, fs') \<leftarrow> set_offset fs;
                  Some (PkgType ty (poffset (fs' ! nat l)) nm (Struct_Format fs') off b) }
         | _ \<Rightarrow> None)
      else Some (PkgType ty ln nm fmt off b))"
  by pat_completeness auto
termination
  by (relation "measure (\<lambda>x. case x of Inl ts \<Rightarrow> 2 * size_list size ts + 2
        | Inr (Inl ts) \<Rightarrow> 2 * size_list size ts + 1 | Inr (Inr t) \<Rightarrow> 2 * size t)")
    auto


subsection \<open>The layout rule of C\<close>

text \<open>The reference: a member goes to the next multiple of its alignment, a structure is as
  aligned as its most aligned member and is padded to a multiple of that.\<close>

definition roundup :: "int \<Rightarrow> int \<Rightarrow> int" where
  "roundup k a = ((k + (a - 1)) div a) * a"

definition c_align :: "T_PkgType \<Rightarrow> int" where
  "c_align t =
     (let b = base_type t in
      if b \<in> {CH_BYTE, CH_CHAR, CH_TINY} then 1
      else if b = CH_SHORT then 2
      else if b \<in> {CH_INT, CH_FLOAT} then 4
      else if b = CH_LDOUBLE then 16
      else if b = CH_STRUCT then struct_align t
      else 8)"

definition c_size :: "T_PkgType \<Rightarrow> int" where
  "c_size t = (if base_type t = CH_CLOB then 8 else plen t)"

definition c_known :: "T_PkgType \<Rightarrow> bool" where
  "c_known t \<longleftrightarrow> ptype t > -1 \<and> base_type t \<in> {0..9} \<union> {CH_STRUCT, CH_CLOB} \<and>
     (base_type t = CH_STRUCT \<longrightarrow> struct_align t \<in> {1, 2, 4, 8, 16})"

fun c_offsets :: "int \<Rightarrow> T_PkgType list \<Rightarrow> int list" where
  "c_offsets k [] = []"
| "c_offsets k (t # ts) = (let off = roundup k (c_align t) in off # c_offsets (off + c_size t) ts)"

fun c_end :: "int \<Rightarrow> T_PkgType list \<Rightarrow> int" where
  "c_end k [] = k"
| "c_end k (t # ts) = c_end (roundup k (c_align t) + c_size t) ts"

definition c_max_align :: "T_PkgType list \<Rightarrow> int" where
  "c_max_align ts = fold (\<lambda>t m. max m (c_align t)) ts 1"

lemma and_not_mask: "(k::int) AND NOT (mask m) = (k div 2 ^ m) * 2 ^ m"
proof -
  have "k AND NOT (mask m) = push_bit m (drop_bit m k)"
    by (rule bit_eqI) (auto simp: bit_and_iff bit_not_iff bit_mask_iff bit_push_bit_iff bit_drop_bit_eq)
  then show ?thesis by (simp add: push_bit_eq_mult drop_bit_eq_div)
qed

lemma pad_roundup:
  assumes "a \<in> {1, 2, 4, 8, 16}"
  shows "pad k (a - 1) = roundup k a"
proof -
  have "a \<in> (\<lambda>m. 2 ^ m) ` {0, 1, 2, 3, 4::nat}" using assms by simp
  then obtain m where m: "a = 2 ^ m" by blast
  then have "a - 1 = mask m" by (simp add: mask_eq_exp_minus_1)
  then show ?thesis using and_not_mask [of "k + (a - 1)" m] m by (simp add: pad_def roundup_def)
qed


lemma roundup_one [simp]: "roundup k 1 = k"
  by (simp add: roundup_def)

lemma roundup_mult: "0 < a \<Longrightarrow> roundup (q * a) a = q * a"
  by (simp add: roundup_def div_mult_self3 [of a] div_pos_pos_trivial)

lemma roundup_idem [simp]: "0 < a \<Longrightarrow> roundup (roundup k a) a = roundup k a"
  unfolding roundup_def [of k a] by (rule roundup_mult)

lemma roundup_zero [simp]: "0 < a \<Longrightarrow> roundup 0 a = 0"
  using roundup_mult [of a 0] by simp

lemma roundup_bounds: "0 < a \<Longrightarrow> k \<le> roundup k a \<and> roundup k a < k + a \<and> roundup k a mod a = 0"
proof -
  assume a: "0 < a"
  define q r where "q = (k + (a - 1)) div a * a" and "r = (k + (a - 1)) mod a"
  have "q + r = k + (a - 1)" "0 \<le> r" "r < a" "q mod a = 0" using a by (simp_all add: q_def r_def)
  then show ?thesis by (auto simp: roundup_def simp flip: q_def)
qed

lemma c_align_cases: "c_known t \<Longrightarrow> c_align t \<in> {1, 2, 4, 8, 16}"
  by (auto simp: c_known_def c_align_def Let_def)

lemma c_align_pos: "c_known t \<Longrightarrow> 0 < c_align t"
  using c_align_cases [of t] by auto

lemma base_cases: "c_known t \<Longrightarrow> base_type t \<in> {0, 1, 2, 3, 4, 5, 6, 7, 8, 9, 125, 126}"
proof -
  assume "c_known t"
  then have "base_type t \<in> {0..9} \<union> {125, 126}" by (simp add: c_known_def)
  then show ?thesis by (simp add: atLeastAtMost_iff) presburger
qed

lemma next_align_c:
  assumes "c_known u" "1 \<le> m"
  shows "next_align u (struct_align u) k m = (roundup k (c_align u), max m (c_align u))"
  using base_cases [OF assms(1)] assms pad_roundup [of 2 k] pad_roundup [of 4 k] pad_roundup [of 8 k]
    pad_roundup [of 16 k] pad_roundup [of "struct_align u" k]
  by (elim insertE) (auto simp: next_align_def c_align_def c_known_def)

lemma first_align_c: "c_known t \<Longrightarrow> first_align t (struct_align t) = c_align t"
  by (drule base_cases, elim insertE) (auto simp: first_align_def c_align_def Let_def)

lemma next_align_end: "ptype e = -1 \<Longrightarrow> next_align e a k m = (k, m)"
  by (simp add: next_align_def base_type_def)

definition placed :: "int \<Rightarrow> T_PkgType list \<Rightarrow> T_PkgType list" where
  "placed k ts = map2 (\<lambda>t off. set_bind (set_off t off) 0) ts (c_offsets k ts)"

definition closed :: "T_PkgType \<Rightarrow> int \<Rightarrow> int \<Rightarrow> T_PkgType" where
  "closed e k m = set_off (set_bind e m) (if m > 1 then pad k (m - 1) else k)"

lemma length_c_offsets [simp]: "length (c_offsets k ts) = length ts"
  by (induction ts arbitrary: k) (auto simp: Let_def)

lemma layout_loop_placed:
  assumes "\<forall>t\<in>set cols. c_known t" "ptype e = -1" "1 \<le> m"
    "cols \<noteq> [] \<Longrightarrow> roundup k (c_align (hd cols)) = k \<and> c_align (hd cols) \<le> m"
  shows "layout_loop False k m (cols @ e # rest) =
    Some (placed k cols @ closed e (c_end k cols) (fold (\<lambda>t m. max m (c_align t)) cols m) # rest)"
  using assms
proof (induction cols arbitrary: k m)
  case Nil
  then show ?case by (simp add: placed_def closed_def)
next
  case (Cons t ts)
  have t: "ptype t > -1" "roundup k (c_align t) = k" "c_align t \<le> m"
    using Cons.prems by (auto simp: c_known_def)
  show ?case
  proof (cases ts)
    case Nil
    then show ?thesis using t Cons.prems
      by (simp add: next_align_end Let_def placed_def closed_def c_size_def)
  next
    case (Cons u us)
    have u: "c_known u" using \<open>ts = u # us\<close> Cons.prems(1) by simp
    let ?k = "roundup (k + c_size t) (c_align u)"
    have "layout_loop False ?k (max m (c_align u)) (ts @ e # rest) =
      Some (placed ?k ts @ closed e (c_end ?k ts) (fold (\<lambda>t m. max m (c_align t)) ts (max m (c_align u))) # rest)"
      using Cons.IH [where k = ?k and m = "max m (c_align u)"] Cons.prems \<open>ts = u # us\<close> c_align_pos [OF u] by auto
    moreover have "placed k (t # ts) = set_bind (set_off t k) 0 # placed ?k ts"
      "c_end k (t # ts) = c_end ?k ts"
      using t \<open>ts = u # us\<close> c_align_pos [OF u] by (simp_all add: placed_def Let_def)
    moreover have "fold (\<lambda>t m. max m (c_align t)) (t # ts) m =
        fold (\<lambda>t m. max m (c_align t)) ts (max m (c_align u))"
      using t(3) \<open>ts = u # us\<close> by (simp add: max_absorb1 max.assoc)
    ultimately show ?thesis
      using t next_align_c [OF u Cons.prems(3), of "k + c_size t"] \<open>ts = u # us\<close>
      by (simp only: append_Cons layout_loop.simps(2) [of _ _ _ t])
        (simp add: c_size_def Let_def del: layout_loop.simps split: if_splits)
  qed
qed


lemma visit_keeps: "visit t = Some t' \<Longrightarrow> ptype t' = ptype t \<and> pname t' = pname t"
  by (cases t) (auto split: if_splits T_Format.splits bind_splits)

lemma visit_all_split:
  assumes "visit_all cols = Some vcols" "\<forall>t\<in>set vcols. ptype t > -1" "ptype e = -1"
  shows "visit_all (cols @ e # rest) = Some (vcols @ e # rest) \<and>
    (\<forall>t\<in>set cols. ptype t > -1) \<and> map ptype vcols = map ptype cols \<and>
    map pname vcols = map pname cols"
  using assms
proof (induction cols arbitrary: vcols)
  case (Cons t ts)
  show ?case
  proof (cases "ptype t > -1")
    case True
    then obtain t' r' where "visit t = Some t'" "visit_all ts = Some r'" "vcols = t' # r'"
      using Cons.prems by (auto split: bind_splits)
    then show ?thesis using Cons True visit_keeps [of t t'] by auto
  qed (use Cons.prems in auto)
qed simp

lemma cnt_type_split:
  "\<forall>t\<in>set cols. ptype t > -1 \<Longrightarrow> ptype e = -1 \<Longrightarrow> cnt_type (cols @ e # rest) = Some (int (length cols))"
  by (induction cols) auto

lemma layout_loop_first:
  assumes "ptype t > -1" "layout_loop False k m (t # ts) = Some (x # xs)"
  shows "\<exists>x'. layout_loop True k m (t # ts) = Some (x' # xs) \<and> set_off x' j = set_off x j"
  using assms
  by (simp only: layout_loop.simps(2) [of _ _ _ t])
    (auto simp: Let_def set_bind_def set_off_def base_type_def simp del: layout_loop.simps
      split: list.splits prod.splits)

lemma placed_fields [simp]:
  "map ptype (placed k ts) = map ptype ts" "map pname (placed k ts) = map pname ts"
  "map poffset (placed k ts) = c_offsets k ts" "length (placed k ts) = length ts"
  by (induction ts arbitrary: k) (auto simp: placed_def Let_def)

lemma struct_align_set [simp]:
  "struct_align (set_bind t b) = struct_align t" "struct_align (set_off t k) = struct_align t"
  by (simp_all add: struct_align_def struct_end_def)

lemma c_set [simp]:
  "c_align (set_bind t b) = c_align t" "c_align (set_off t k) = c_align t"
  "c_size (set_bind t b) = c_size t" "c_size (set_off t k) = c_size t"
  "c_known (set_bind t b) = c_known t" "c_known (set_off t k) = c_known t"
  by (simp_all add: c_align_def c_size_def c_known_def Let_def)

lemma placed_layout [simp]:
  "c_offsets j (placed k ts) = c_offsets j ts" "c_end j (placed k ts) = c_end j ts"
  "fold (\<lambda>t m. max m (c_align t)) (placed k ts) m = fold (\<lambda>t m. max m (c_align t)) ts m"
  "(\<forall>t\<in>set (placed k ts). c_known t) = (\<forall>t\<in>set ts. c_known t)"
  by (induction ts arbitrary: j k m) (auto simp: placed_def Let_def)

lemma c_max_align_cases:
  "\<forall>t\<in>set ts. c_known t \<Longrightarrow> m \<in> {1, 2, 4, 8, 16} \<Longrightarrow>
     fold (\<lambda>t m. max m (c_align t)) ts m \<in> {1, 2, 4, 8, 16}"
proof (induction ts arbitrary: m)
  case (Cons t ts)
  have "max m (c_align t) \<in> {1, 2, 4, 8, 16}"
    using c_align_cases [of t] Cons.prems by (auto simp: max_def)
  then show ?case using Cons by simp
qed simp

lemma set_offset_placed:
  assumes "poffset (hd (cols @ [e])) < 0" "ptype e = -1" "\<forall>t\<in>set cols. ptype t > -1"
    "visit_all (cols @ e # rest) = Some (vcols @ e # rest)" "length vcols = length cols" "\<forall>t\<in>set vcols. c_known t"
  shows "set_offset (cols @ e # rest) = Some (int (length cols),
     placed 0 vcols @ closed e (c_end 0 vcols) (c_max_align vcols) # rest)"
proof (cases vcols)
  case Nil
  then show ?thesis using assms
    by (auto simp: Let_def closed_def placed_def c_max_align_def first_align_def base_type_def
        set_off_def set_bind_def)
next
  case (Cons v vs)
  then obtain c cs where cols: "cols = c # cs" using assms(5) by (cases cols) auto
  have v: "c_known v" "ptype v > -1" using Cons assms(6) by (auto simp: c_known_def)
  have "layout_loop False 0 (c_align v) (v # vs @ e # rest) =
      Some (placed 0 vcols @ closed e (c_end 0 vcols)
        (fold (\<lambda>t m. max m (c_align t)) vcols (c_align v)) # rest)"
    using layout_loop_placed [of vcols e "c_align v" 0 rest] assms(2,6) Cons c_align_pos [OF v(1)]
    by simp
  moreover have "fold (\<lambda>t m. max m (c_align t)) vcols (c_align v) = c_max_align vcols"
    using Cons c_align_pos [OF v(1)] by (simp add: c_max_align_def)
  moreover have "placed 0 vcols = set_bind (set_off v 0) 0 # tl (placed 0 vcols)"
    using Cons c_align_pos [OF v(1)] by (simp add: placed_def Let_def)
  ultimately obtain x where x: "layout_loop True 0 (c_align v) (v # vs @ e # rest) =
      Some (x # tl (placed 0 vcols) @ closed e (c_end 0 vcols) (c_max_align vcols) # rest)"
      "set_off x 0 = set_off (set_bind (set_off v 0) 0) 0"
    using layout_loop_first [OF v(2)] by (metis append_Cons)
  have "set_off (set_bind (set_off v 0) 0) 0 = set_bind (set_off v 0) 0"
    by (simp add: set_off_def set_bind_def)
  then have "set_off x 0 # tl (placed 0 vcols) = placed 0 vcols"
    using x(2) \<open>placed 0 vcols = set_bind (set_off v 0) 0 # tl (placed 0 vcols)\<close> by metis
  then show ?thesis
    using assms x(1) cols Cons first_align_c [OF v(1)] cnt_type_split [OF assms(3,2), of rest]
    by (auto simp: Let_def simp del: layout_loop.simps cnt_type.simps)
qed




end
