(* ===== verification/Hash_Index.thy ===== *)
theory Hash_Index
  imports Template
begin

text \<open>The name indexes built from one template of code: the column index of
  \<open>src/pack/colidx.c\<close> and the service index of \<open>src/sccli/getsvc.c\<close>.  A table has one slot
  per name.  A first pass puts a name in the slot of its hash value, or, when the slot is
  taken, on a stack; a second pass moves the stacked names into the slots left empty and
  links them into the chain of their hash value, the column index right after the chain's
  first slot, the service index at its end.  None is undefined behaviour: a slot outside the
  table, an uninitialised name, an empty stack popped, or a search that never ends.\<close>

record slot =
  sname :: "bytes option"
  colno :: int
  link :: int

record hashnode =
  hname :: bytes
  hcol :: int
  hnum :: int

text \<open>The two hash functions: \<open>colidx.c\<close> sums in a signed int and masks the sign,
  \<open>getsvc.c\<close> sums in an unsigned int.\<close>

definition byte_sum :: "bytes \<Rightarrow> int" where
  "byte_sum name = sum_list (map uint name)"

definition hash_name :: "bytes \<Rightarrow> int \<Rightarrow> int" where
  "hash_name name m = (if m = 0 then -1 else (byte_sum name AND 0x7FFFFFFF) mod m)"

definition srv_hash_name :: "bytes \<Rightarrow> int \<Rightarrow> int" where
  "srv_hash_name name m = (if m = 0 then -1 else (byte_sum name mod 2 ^ 32) mod m)"

definition empty_slots :: "nat \<Rightarrow> slot list" where
  "empty_slots coln = replicate coln \<lparr>sname = None, colno = -1, link = -1\<rparr>"

fun scatter :: "(bytes \<Rightarrow> int) \<Rightarrow> slot list \<Rightarrow> hashnode list \<Rightarrow> int \<Rightarrow> bytes list
    \<Rightarrow> slot list \<times> hashnode list" where
  "scatter hash colp stack i [] = (colp, stack)"
| "scatter hash colp stack i (p # ps) =
     (let hashnum = hash p; s = colp ! nat hashnum in
      if colno s = -1 then
        scatter hash (colp[nat hashnum := s\<lparr>sname := Some p, colno := i\<rparr>]) stack (i + 1) ps
      else
        scatter hash colp (stack @ [\<lparr>hname = p, hcol = i, hnum = hashnum\<rparr>]) (i + 1) ps)"

text \<open>Linking slot \<open>i\<close> into the chain that starts at slot \<open>h\<close>.\<close>

definition link_head :: "slot list \<Rightarrow> nat \<Rightarrow> nat \<Rightarrow> slot list option" where
  "link_head colp h i =
     (let colp = colp[i := (colp ! i)\<lparr>link := link (colp ! h)\<rparr>]
      in Some (colp[h := (colp ! h)\<lparr>link := int i\<rparr>]))"

partial_function (option) chain_tail :: "slot list \<Rightarrow> int \<Rightarrow> nat option" where
  "chain_tail colp p =
     (if p < 0 \<or> p \<ge> int (length colp) then None
      else if link (colp ! nat p) = -1 then Some (nat p)
      else chain_tail colp (link (colp ! nat p)))"

definition link_tail :: "slot list \<Rightarrow> nat \<Rightarrow> nat \<Rightarrow> slot list option" where
  "link_tail colp h i =
     do { y \<leftarrow> chain_tail colp (int h); Some (colp[y := (colp ! y)\<lparr>link := int i\<rparr>]) }"

fun fill :: "(slot list \<Rightarrow> nat \<Rightarrow> nat \<Rightarrow> slot list option) \<Rightarrow> slot list \<Rightarrow> hashnode list
    \<Rightarrow> nat list \<Rightarrow> slot list option" where
  "fill attach colp stack [] = Some colp"
| "fill attach colp stack (i # is) =
     (if colno (colp ! i) \<noteq> -1 then fill attach colp stack is
      else if stack = [] then None
      else do {
        let top = last stack;
        let colp = colp[i := (colp ! i)\<lparr>sname := Some (hname top), colno := hcol top\<rparr>];
        colp \<leftarrow> attach colp (nat (hnum top)) i;
        fill attach colp (butlast stack) is })"

definition mk_index :: "(slot list \<Rightarrow> nat \<Rightarrow> nat \<Rightarrow> slot list option) \<Rightarrow> (bytes \<Rightarrow> int)
    \<Rightarrow> bytes list \<Rightarrow> slot list option" where
  "mk_index attach hash names =
     (let coln = length names;
          (colp, stack) = scatter hash (empty_slots coln) [] 0 names
      in if stack \<noteq> [] then fill attach colp stack [0..<coln] else Some colp)"

text \<open>The chained search of \<open>index_col\<close> and \<open>get_srv_no\<close>; \<open>absent\<close> is what each returns
  when the chain ends.\<close>

partial_function (option) slot_search :: "slot list \<Rightarrow> bytes \<Rightarrow> int \<Rightarrow> slot option option" where
  "slot_search colp key p =
     (if p < 0 \<or> p \<ge> int (length colp) then None
      else (case sname (colp ! nat p) of
              None \<Rightarrow> None
            | Some nm \<Rightarrow>
                if nm = key then Some (Some (colp ! nat p))
                else if link (colp ! nat p) = -1 then Some None
                else slot_search colp key (link (colp ! nat p))))"

subsection \<open>The column index\<close>

definition col_names :: "T_PkgType list \<Rightarrow> bytes list option" where
  "col_names tpl = those (map (\<lambda>t. plain_name (pname t)) (takeWhile (\<lambda>t. ptype t \<ge> 0) tpl))"

text \<open>\<open>mk_col_idx\<close> on a template \<open>set_offset\<close> has laid out; a failed \<open>malloc\<close> gives the
  null index that \<open>index_col\<close> accepts.\<close>

definition mk_col_idx :: "T_PkgType list \<Rightarrow> (T_PkgType list \<times> slot list) option" where
  "mk_col_idx tpl =
     do { (coln, tpl) \<leftarrow> set_offset tpl;
          names \<leftarrow> col_names tpl;
          colp \<leftarrow> mk_index link_head (\<lambda>p. hash_name p coln) names;
          Some (tpl, colp) }"

definition index_col :: "slot list option \<Rightarrow> int \<Rightarrow> bytes \<Rightarrow> T_PkgType list option \<Rightarrow> int option" where
  "index_col idx colnum key tpl =
     (case tpl of
        None \<Rightarrow> Some (-1)
      | Some tp \<Rightarrow>
          (case idx of
             None \<Rightarrow>
               do { i \<leftarrow> pkg_getnum key tp;
                    Some (if ptype (tp ! nat i) = -1 then -1 else i) }
           | Some colp \<Rightarrow>
               do { cp \<leftarrow> slot_search colp key (hash_name key colnum);
                    Some (case cp of None \<Rightarrow> -1 | Some s \<Rightarrow> colno s) }))"

subsection \<open>The service index\<close>

record srv_list =
  srv_no :: int
  srv_name :: bytes

definition mk_srv_hash :: "srv_list list \<Rightarrow> slot list option" where
  "mk_srv_hash slist =
     mk_index link_tail (\<lambda>p. srv_hash_name p (int (length slist))) (map srv_name slist)"

text \<open>The table of services a client keeps per server, \<open>svc_table\<close> of \<open>sccli.h\<close>.\<close>

record svc_table =
  srvn :: int
  srv_hash :: "slot list option"
  srvlist :: "srv_list list option"
  usage :: int

text \<open>\<open>get_srv_no\<close>: without a table, and for an unknown name, the number of \<open>echo()\<close>, 1.\<close>

definition get_srv_no :: "svc_table option \<Rightarrow> bytes \<Rightarrow> int option" where
  "get_srv_no svc_tbl key =
     (case svc_tbl of
        None \<Rightarrow> Some 1
      | Some svcp \<Rightarrow>
          if srvn svcp < 1 then Some 1
          else do {
            colp \<leftarrow> srv_hash svcp;
            cp \<leftarrow> slot_search colp key (srv_hash_name key (srvn svcp));
            (case cp of
               None \<Rightarrow> Some 1
             | Some s \<Rightarrow>
                 do { l \<leftarrow> srvlist svcp;
                      if 0 \<le> colno s \<and> nat (colno s) < length l
                      then Some (srv_no (l ! nat (colno s))) else None }) })"

text \<open>\<open>free_srv_list\<close>: the shared table is released by its last user; the client's
  pointer to it is nulled then only.\<close>

definition free_srv_list :: "svc_table option \<Rightarrow> svc_table option \<times> svc_table option" where
  "free_srv_list svc_tbl =
     (case svc_tbl of
        None \<Rightarrow> (None, None)
      | Some t \<Rightarrow>
          if usage t > 0 then (Some (t\<lparr>usage := usage t - 1\<rparr>), Some (t\<lparr>usage := usage t - 1\<rparr>))
          else (None, Some (t\<lparr>srvlist := None, srv_hash := None, srvn := 0\<rparr>)))"


subsection \<open>Chains of slots\<close>

text \<open>\<open>chain l p xs\<close>: following the links \<open>l\<close> from position p visits the slots xs and ends.\<close>

fun chain :: "(nat \<Rightarrow> int) \<Rightarrow> int \<Rightarrow> nat list \<Rightarrow> bool" where
  "chain l p [] \<longleftrightarrow> p = -1"
| "chain l p (x # xs) \<longleftrightarrow> p = int x \<and> chain l (l x) xs"

lemma chain_unique: "chain l p xs \<Longrightarrow> chain l p ys \<Longrightarrow> xs = ys"
proof (induction xs arbitrary: p ys)
  case Nil
  then show ?case by (cases ys) auto
next
  case (Cons x xs)
  then show ?case by (cases ys) auto
qed

lemma chain_append: "chain l p (xs @ y # ys) \<Longrightarrow> chain l (int y) (y # ys)"
  by (induction xs arbitrary: p) auto

lemma chain_distinct: "chain l p xs \<Longrightarrow> distinct xs"
proof (induction xs arbitrary: p)
  case (Cons x xs)
  then have d: "distinct xs" by auto
  moreover have "x \<notin> set xs"
  proof
    assume "x \<in> set xs"
    then obtain as bs where xs: "xs = as @ x # bs" by (meson split_list)
    then have "chain l (int x) (x # bs)" using Cons.prems chain_append [of l "l x" as x bs] by simp
    then have "x # xs = x # bs" using Cons.prems chain_unique by fastforce
    then show False using xs by simp
  qed
  ultimately show ?case by simp
qed simp

lemma chain_frame: "y \<notin> set xs \<Longrightarrow> chain (l(y := v)) p xs = chain l p xs"
  by (induction xs arbitrary: p) auto

lemma set_tl_dropWhile: "set (tl (dropWhile P xs)) \<subseteq> set xs"
  by (induction xs) (auto split: if_splits)

lemma chain_tail_link: "chain l p xs \<Longrightarrow> xs \<noteq> [] \<Longrightarrow> l (last xs) = -1"
  by (induction xs arbitrary: p) auto

text \<open>Linking a new slot in after slot y of a chain.\<close>

lemma chain_insert:
  assumes "chain l p xs" "i \<notin> set xs" "y \<noteq> i"
  shows "chain (l(i := l y, y := int i)) p
           (if y \<in> set xs then takeWhile (\<lambda>x. x \<noteq> y) xs @ y # i # tl (dropWhile (\<lambda>x. x \<noteq> y) xs)
            else xs)"
  using assms
proof (induction xs arbitrary: p)
  case (Cons x xs)
  show ?case
  proof (cases "x = y")
    case True
    have "y \<notin> set xs" using chain_distinct [OF Cons.prems(1)] True by simp
    then have "chain (l(i := l y, y := int i)) (l y) xs"
      unfolding chain_frame [OF \<open>y \<notin> set xs\<close>] using Cons.prems True by (subst chain_frame) auto
    then show ?thesis using Cons.prems True by (simp add: fun_upd_def)
  next
    case False
    then show ?thesis using Cons.prems Cons.IH [of "l x"] by (auto simp: fun_upd_twist)
  qed
qed simp

abbreviation links :: "slot list \<Rightarrow> nat \<Rightarrow> int" where
  "links colp j \<equiv> link (colp ! j)"

definition named :: "slot list \<Rightarrow> nat list \<Rightarrow> bool" where
  "named colp xs \<longleftrightarrow> (\<forall>x\<in>set xs. x < length colp \<and> sname (colp ! x) \<noteq> None)"

lemma slot_search_chain:
  "chain (links colp) p xs \<Longrightarrow> xs \<noteq> [] \<Longrightarrow> named colp xs \<Longrightarrow>
     slot_search colp key p =
       Some (map_option (\<lambda>x. colp ! x) (find (\<lambda>x. sname (colp ! x) = Some key) xs))"
proof (induction xs arbitrary: p)
  case (Cons x xs)
  obtain nm where nm: "sname (colp ! x) = Some nm" and x: "x < length colp" "p = int x"
    using Cons.prems by (auto simp: named_def)
  show ?case
  proof (cases "nm = key \<or> xs = []")
    case True
    then show ?thesis using nm x Cons.prems by (subst slot_search.simps) auto
  next
    case False
    then have "link (colp ! x) \<noteq> -1" using Cons.prems by (cases xs) auto
    then show ?thesis using False nm x Cons by (subst slot_search.simps) (auto simp: named_def)
  qed
qed simp

lemma chain_tail_last:
  "chain (links colp) p xs \<Longrightarrow> xs \<noteq> [] \<Longrightarrow> named colp xs \<Longrightarrow> chain_tail colp p = Some (last xs)"
proof (induction xs arbitrary: p)
  case (Cons x xs)
  then show ?case by (subst chain_tail.simps) (cases xs; auto simp: named_def)
qed simp

subsection \<open>The interface of the two ways to link\<close>

text \<open>Both ways link slot i in after some slot of the chain of h and change no name or
  number; \<open>ins\<close> is what becomes of the chain, and \<open>eins\<close> of the list of its entries.\<close>

locale attaching =
  fixes attach :: "slot list \<Rightarrow> nat \<Rightarrow> nat \<Rightarrow> slot list option"
    and ins :: "nat \<Rightarrow> nat list \<Rightarrow> nat list"
    and eins :: "hashnode \<Rightarrow> hashnode list \<Rightarrow> hashnode list"
  assumes ins_map: "xs \<noteq> [] \<Longrightarrow> map f (ins i xs) = eins (f i) (map f xs)"
    and attach_ok: "chain (links colp) (int h) xs \<Longrightarrow> xs \<noteq> [] \<Longrightarrow> named colp xs \<Longrightarrow>
      i < length colp \<Longrightarrow> i \<notin> set xs \<Longrightarrow> link (colp ! i) = -1 \<Longrightarrow>
      \<exists>colp' y. attach colp h i = Some colp' \<and> y \<in> set xs \<and> length colp' = length colp \<and>
        links colp' = (links colp)(i := links colp y, y := int i) \<and>
        (\<forall>j. sname (colp' ! j) = sname (colp ! j) \<and> colno (colp' ! j) = colno (colp ! j)) \<and>
        ins i xs = takeWhile (\<lambda>x. x \<noteq> y) xs @ y # i # tl (dropWhile (\<lambda>x. x \<noteq> y) xs)"

definition ent :: "(bytes \<Rightarrow> int) \<Rightarrow> slot list \<Rightarrow> nat \<Rightarrow> hashnode" where
  "ent hash colp j =
     \<lparr>hname = the (sname (colp ! j)), hcol = colno (colp ! j), hnum = hash (the (sname (colp ! j)))\<rparr>"

definition ends_well :: "slot list \<Rightarrow> nat \<Rightarrow> bool" where
  "ends_well colp j \<longleftrightarrow> (\<exists>xs. chain (links colp) (int j) xs \<and>
     (\<forall>x\<in>set xs. x < length colp \<and> colno (colp ! x) \<noteq> -1))"

definition good_table :: "slot list \<Rightarrow> bool" where
  "good_table colp \<longleftrightarrow> (\<forall>j<length colp.
     (colno (colp ! j) = -1 \<longrightarrow> link (colp ! j) = -1) \<and>
     (colno (colp ! j) \<noteq> -1 \<longrightarrow> sname (colp ! j) \<noteq> None \<and> ends_well colp j))"

text \<open>The chain of hash value h holds the entries es.\<close>

definition holds :: "(bytes \<Rightarrow> int) \<Rightarrow> slot list \<Rightarrow> nat \<Rightarrow> hashnode list \<Rightarrow> bool" where
  "holds hash colp h es \<longleftrightarrow> (\<exists>xs. chain (links colp) (int h) xs \<and> xs \<noteq> [] \<and>
     (\<forall>x\<in>set xs. x < length colp \<and> colno (colp ! x) \<noteq> -1 \<and>
        hash (the (sname (colp ! x))) = int h) \<and> map (ent hash colp) xs = es)"

context attaching
begin

lemma attach_step:
  fixes colp :: "slot list"
  defines "n \<equiv> length colp"
  assumes good: "good_table colp" and h: "holds hash colp h es"
    and i: "i < n" "colno (colp ! i) = -1" and q: "hash (hname q) = int h" "hcol q \<noteq> -1"
      "hnum q = int h"
  shows "\<exists>colp'. attach (colp[i := (colp ! i)\<lparr>sname := Some (hname q), colno := hcol q\<rparr>]) h i
        = Some colp' \<and> length colp' = n \<and> good_table colp' \<and>
      (\<forall>j<n. colno (colp' ! j) = -1 \<longleftrightarrow> colno (colp ! j) = -1 \<and> j \<noteq> i) \<and>
      (\<forall>j. j \<noteq> i \<longrightarrow> sname (colp' ! j) = sname (colp ! j)) \<and> sname (colp' ! i) = Some (hname q) \<and>
      holds hash colp' h (eins q es) \<and>
      (\<forall>h2 es2. h2 \<noteq> h \<longrightarrow> holds hash colp h2 es2 \<longrightarrow> holds hash colp' h2 es2)"
proof -
  let ?c = "colp[i := (colp ! i)\<lparr>sname := Some (hname q), colno := hcol q\<rparr>]"
  obtain xs where xs: "chain (links colp) (int h) xs" "xs \<noteq> []"
      "\<forall>x\<in>set xs. x < n \<and> colno (colp ! x) \<noteq> -1 \<and> hash (the (sname (colp ! x))) = int h"
      "map (ent hash colp) xs = es"
    using h by (auto simp: holds_def n_def)
  have lc: "links ?c = links colp" using i by (auto simp: nth_list_update n_def)
  have lcy: "link (?c ! j) = link (colp ! j)" for j using lc by (simp add: fun_eq_iff)
  have ix: "i \<notin> set xs" using xs(3) i(2) by auto
  have "?c ! x = colp ! x" if "x \<in> set xs" for x
    using that ix by (metis nth_list_update_neq)
  then have "named ?c xs"
    using xs(3) good by (auto simp: named_def good_table_def n_def)
  moreover have "link (?c ! i) = -1" using good i by (auto simp: good_table_def n_def)
  ultimately obtain colp' y where c': "attach ?c h i = Some colp'" "y \<in> set xs" "length colp' = n"
      "links colp' = (links colp)(i := links colp y, y := int i)"
      "\<And>j. sname (colp' ! j) = sname (?c ! j) \<and> colno (colp' ! j) = colno (?c ! j)"
      "ins i xs = takeWhile (\<lambda>x. x \<noteq> y) xs @ y # i # tl (dropWhile (\<lambda>x. x \<noteq> y) xs)"
    using attach_ok [of ?c h xs i, unfolded lc lcy] xs(1,2) ix i
    by (simp add: n_def) (metis (no_types, lifting))
  have yi: "y \<noteq> i" using c'(2) ix by auto
  have eq: "sname (colp' ! j) = sname (colp ! j)" "colno (colp' ! j) = colno (colp ! j)" if "j \<noteq> i" for j
    using c'(5) [of j] that by auto
  have eqi: "sname (colp' ! i) = Some (hname q)" "colno (colp' ! i) = hcol q"
    using c'(5) [of i] i by (auto simp: n_def)
  have filled: "colno (colp' ! j) = -1 \<longleftrightarrow> colno (colp ! j) = -1 \<and> j \<noteq> i" for j
    using eq [of j] eqi q(2) by (cases "j = i") auto
  have chains: "chain (links colp') p (if y \<in> set zs
        then takeWhile (\<lambda>x. x \<noteq> y) zs @ y # i # tl (dropWhile (\<lambda>x. x \<noteq> y) zs) else zs)"
    if "chain (links colp) p zs" "i \<notin> set zs" for p zs
    using chain_insert [OF that yi] unfolding c'(4) .
  have ends: "ends_well colp' j" if "j < n" "colno (colp' ! j) \<noteq> -1" for j
  proof (cases "j = i")
    case True
    obtain as bs where split: "xs = as @ y # bs" using c'(2) by (meson split_list)
    then have cb: "chain (links colp) (links colp y) bs" using xs(1) chain_append by fastforce
    have yb: "y \<notin> set bs" and ib: "i \<notin> set bs" using chain_distinct [OF xs(1)] split ix by auto
    have "chain (links colp') (links colp y) bs"
      unfolding c'(4) chain_frame [OF yb] chain_frame [OF ib] using cb .
    moreover have "links colp' i = links colp y" using c'(4) yi by (simp add: fun_eq_iff)
    ultimately have "chain (links colp') (int i) (i # bs)" by simp
    moreover have "\<forall>x\<in>set (i # bs). x < n \<and> colno (colp' ! x) \<noteq> -1"
      using xs(3) split i(1) filled eqi q(2) by auto
    ultimately show ?thesis using True c'(3) unfolding ends_well_def by blast
  next
    case False
    then have "ends_well colp j" using good that filled [of j] by (auto simp: good_table_def n_def)
    then obtain zs where zs: "chain (links colp) (int j) zs" "\<forall>x\<in>set zs. x < n \<and> colno (colp ! x) \<noteq> -1"
      by (auto simp: ends_well_def n_def)
    then have "i \<notin> set zs" using i(2) by auto
    note chains [OF zs(1) this]
    moreover have "\<forall>x\<in>set (if y \<in> set zs
        then takeWhile (\<lambda>x. x \<noteq> y) zs @ y # i # tl (dropWhile (\<lambda>x. x \<noteq> y) zs) else zs).
          x < n \<and> colno (colp' ! x) \<noteq> -1"
    proof -
      have "set (tl (dropWhile (\<lambda>x. x \<noteq> y) zs)) \<subseteq> set zs"
        by (rule set_tl_dropWhile)
      moreover have "set (takeWhile (\<lambda>x. x \<noteq> y) zs) \<subseteq> set zs" by (auto dest: set_takeWhileD)
      ultimately show ?thesis using zs(2) filled i(1) by auto
    qed
    ultimately show ?thesis using c'(3) unfolding ends_well_def by metis
  qed
  have ent_eq: "map (ent hash colp') zs = map (ent hash colp) zs" if "i \<notin> set zs" for zs
  proof (rule map_cong [OF refl])
    show "ent hash colp' x = ent hash colp x" if "x \<in> set zs" for x
      using eq [of x] that \<open>i \<notin> set zs\<close> by (cases "x = i") (simp_all add: ent_def)
  qed
  have names: "hash (the (sname (colp' ! x))) = int h" if "x \<in> set xs \<or> x = i" for x
    using that xs(3) eq(1) [of x] eqi(1) q(1) by (cases "x = i") auto
  have ins_set: "set (ins i xs) \<subseteq> insert i (set xs)"
    unfolding c'(6) using c'(2) set_tl_dropWhile [of "\<lambda>x. x \<noteq> y" xs] by (auto dest: set_takeWhileD)
  have "chain (links colp') (int h) (ins i xs)" using chains [OF xs(1) ix] c'(2,6) by simp
  moreover have "\<forall>x\<in>set (ins i xs). x < n \<and> colno (colp' ! x) \<noteq> -1 \<and>
      hash (the (sname (colp' ! x))) = int h"
    using ins_set xs(3) names filled i(1) by blast
  moreover have "map (ent hash colp') xs = es"
    using xs(4) ent_eq [OF ix] by simp
  then have "map (ent hash colp') (ins i xs) = eins q es"
    using ins_map [OF xs(2), of "ent hash colp'" i] eqi q by (cases q) (simp add: ent_def)
  ultimately have h': "holds hash colp' h (eins q es)"
    using c'(3,6) unfolding holds_def by (metis append_is_Nil_conv list.distinct(1))
  have others: "holds hash colp' h2 es2" if "h2 \<noteq> h" "holds hash colp h2 es2" for h2 es2
  proof -
    obtain zs where zs: "chain (links colp) (int h2) zs" "zs \<noteq> []"
      "\<forall>x\<in>set zs. x < n \<and> colno (colp ! x) \<noteq> -1 \<and> hash (the (sname (colp ! x))) = int h2"
      "map (ent hash colp) zs = es2"
      using \<open>holds hash colp h2 es2\<close> by (auto simp: holds_def n_def)
    have "y \<notin> set zs" using zs(3) xs(3) c'(2) \<open>h2 \<noteq> h\<close> by auto
    moreover have iz: "i \<notin> set zs" using zs(3) i(2) by auto
    ultimately have "chain (links colp') (int h2) zs" using chains [OF zs(1)] by simp
    moreover have "map (ent hash colp') zs = es2"
      using zs(4) ent_eq [OF iz] by simp
    moreover have "\<forall>x\<in>set zs. x < length colp' \<and> colno (colp' ! x) \<noteq> -1 \<and>
        hash (the (sname (colp' ! x))) = int h2"
      using zs(3) iz eq filled c'(3) by (metis (no_types, lifting))
    ultimately show ?thesis using zs(2) unfolding holds_def by blast
  qed
  have "good_table colp'"
    unfolding good_table_def c'(3)
  proof (intro allI impI conjI)
    fix j assume j: "j < n"
    show "ends_well colp' j" if "colno (colp' ! j) \<noteq> -1" using ends [OF j that] .
    show "sname (colp' ! j) \<noteq> None" if "colno (colp' ! j) \<noteq> -1"
      using that j good eq(1) [of j] eqi(1) filled [of j]
      by (cases "j = i") (auto simp: good_table_def n_def)
    show "links colp' j = -1" if "colno (colp' ! j) = -1"
    proof -
      have "j \<noteq> i" "colno (colp ! j) = -1" using that filled by auto
      moreover have "j \<noteq> y" using calculation(2) xs(3) c'(2) by auto
      ultimately show ?thesis using good j c'(4) by (auto simp: good_table_def n_def fun_eq_iff)
    qed
  qed
  then show ?thesis using c'(1,3) filled eq(1) eqi(1) h' others by blast
qed

lemma fill_ok:
  assumes "good_table colp" "distinct is" "\<forall>i\<in>set is. i < length colp"
    "\<forall>j<length colp. j \<notin> set is \<longrightarrow> colno (colp ! j) \<noteq> -1"
    "length (filter (\<lambda>i. colno (colp ! i) = -1) is) = length stack"
    "\<forall>e\<in>set stack. hash (hname e) = hnum e \<and> hcol e \<noteq> -1 \<and> 0 \<le> hnum e \<and>
       (\<exists>es. holds hash colp (nat (hnum e)) es)"
    "\<forall>j<length colp. colno (colp ! j) \<noteq> -1 \<longrightarrow> the (sname (colp ! j)) \<in> N" "hname ` set stack \<subseteq> N"
  shows "\<exists>colp'. fill attach colp stack is = Some colp' \<and> length colp' = length colp \<and>
    good_table colp' \<and> (\<forall>j<length colp. colno (colp' ! j) \<noteq> -1 \<and> the (sname (colp' ! j)) \<in> N) \<and>
    (\<forall>h es. holds hash colp h es \<longrightarrow>
       holds hash colp' h (fold eins (rev (filter (\<lambda>e. hnum e = int h) stack)) es))"
  using assms
proof (induction "is" arbitrary: colp stack)
  case (Cons i "is")
  show ?case
  proof (cases "colno (colp ! i) = -1")
    case False
    have a: "\<forall>j<length colp. j \<notin> set is \<longrightarrow> colno (colp ! j) \<noteq> -1"
      using Cons.prems(4) False by auto
    have b: "length (filter (\<lambda>i. colno (colp ! i) = -1) is) = length stack"
      using Cons.prems(5) False by simp
    show ?thesis
      using Cons.IH [OF Cons.prems(1) _ _ a b Cons.prems(6-8)] Cons.prems(2,3) False by simp
  next
    case True
    then obtain q st where stack: "stack = st @ [q]"
      using Cons.prems(5) by (cases stack rule: rev_cases) auto
    obtain h where h: "hnum q = int h" "hash (hname q) = int h" "hcol q \<noteq> -1"
      using Cons.prems(6) stack by (metis in_set_conv_decomp nonneg_int_cases)
    obtain es where es: "holds hash colp h es" using Cons.prems(6) stack h(1) by auto
    have il: "i < length colp" using Cons.prems(3) by simp
    obtain c' where c': "attach (colp[i := (colp ! i)\<lparr>sname := Some (hname q), colno := hcol q\<rparr>]) h i = Some c'"
        "length c' = length colp" "good_table c'"
        "\<forall>j<length colp. colno (c' ! j) = -1 \<longleftrightarrow> colno (colp ! j) = -1 \<and> j \<noteq> i"
        "\<forall>j. j \<noteq> i \<longrightarrow> sname (c' ! j) = sname (colp ! j)" "sname (c' ! i) = Some (hname q)"
        "holds hash c' h (eins q es)"
        "\<And>h2 es2. h2 \<noteq> h \<Longrightarrow> holds hash colp h2 es2 \<Longrightarrow> holds hash c' h2 es2"
      using attach_step [OF Cons.prems(1) es il True h(2,3,1)] by blast
    have a: "\<forall>j<length c'. j \<notin> set is \<longrightarrow> colno (c' ! j) \<noteq> -1"
      using Cons.prems(4) c'(2,4) by auto
    have "filter (\<lambda>i. colno (c' ! i) = -1) is = filter (\<lambda>i. colno (colp ! i) = -1) is"
      using Cons.prems(2,3) c'(4) by (intro filter_cong) auto
    then have b: "length (filter (\<lambda>i. colno (c' ! i) = -1) is) = length st"
      using Cons.prems(5) True stack by simp
    have keep: "\<exists>es. holds hash c' h2 es" if "holds hash colp h2 es2" for h2 es2
      using c'(7,8) that by (cases "h2 = h") blast+
    have c: "\<forall>e\<in>set st. hash (hname e) = hnum e \<and> hcol e \<noteq> -1 \<and> 0 \<le> hnum e \<and>
       (\<exists>es. holds hash c' (nat (hnum e)) es)"
      using Cons.prems(6) stack keep by (metis in_set_conv_decomp_last set_append Un_iff)
    have d: "\<forall>j<length c'. colno (c' ! j) \<noteq> -1 \<longrightarrow> the (sname (c' ! j)) \<in> N"
    proof (intro allI impI)
      fix j assume "j < length c'" "colno (c' ! j) \<noteq> -1"
      then show "the (sname (c' ! j)) \<in> N"
        using c'(2,4-6) Cons.prems(7,8) stack by (cases "j = i") auto
    qed
    obtain c'' where c'': "fill attach c' st is = Some c''" "length c'' = length c'" "good_table c''"
        "\<forall>j<length c'. colno (c'' ! j) \<noteq> -1 \<and> the (sname (c'' ! j)) \<in> N"
        "\<forall>h es. holds hash c' h es \<longrightarrow>
           holds hash c'' h (fold eins (rev (filter (\<lambda>e. hnum e = int h) st)) es)"
      using Cons.IH [OF c'(3) _ _ a b c d] Cons.prems(2,3,8) c'(2) stack by auto
    have "holds hash c'' h2 (fold eins (rev (filter (\<lambda>e. hnum e = int h2) stack)) es2)"
      if "holds hash colp h2 es2" for h2 es2
    proof (cases "h2 = h")
      case True
      then have "es2 = es" using that es
        by (auto simp: holds_def dest: chain_unique)
      then show ?thesis using c''(5) c'(7) True stack h(1) by simp
    next
      case False
      then show ?thesis using c''(5) c'(8) [OF False that] stack h(1) by simp
    qed
    then show ?thesis using c'' c' True stack h(1)
      by (intro exI [of _ c'']) (simp add: Let_def)
  qed
qed auto

end

text \<open>The first pass.\<close>

fun ents :: "(bytes \<Rightarrow> int) \<Rightarrow> int \<Rightarrow> bytes list \<Rightarrow> hashnode list" where
  "ents hash i [] = []"
| "ents hash i (p # ps) = \<lparr>hname = p, hcol = i, hnum = hash p\<rparr> # ents hash (i + 1) ps"

abbreviation of_hash :: "nat \<Rightarrow> hashnode list \<Rightarrow> hashnode list" where
  "of_hash h es \<equiv> filter (\<lambda>e. hnum e = int h) es"

definition scattered :: "(bytes \<Rightarrow> int) \<Rightarrow> hashnode list \<Rightarrow> slot list \<Rightarrow> hashnode list \<Rightarrow> bool" where
  "scattered hash E colp stack \<longleftrightarrow>
     (\<forall>h<length colp. link (colp ! h) = -1 \<and>
        (if colno (colp ! h) = -1 then of_hash h E = [] \<and> of_hash h stack = []
         else sname (colp ! h) \<noteq> None \<and> hash (the (sname (colp ! h))) = int h \<and>
              of_hash h E = ent hash colp h # of_hash h stack)) \<and>
     set stack \<subseteq> set E \<and>
     length (filter (\<lambda>j. colno (colp ! j) = -1) [0..<length colp]) + length E
       = length colp + length stack"

lemma scatter_ok:
  assumes "scattered hash E colp stack" "0 \<le> i"
    "\<forall>p\<in>set ps. 0 \<le> hash p \<and> hash p < int (length colp)"
  shows "case scatter hash colp stack i ps of (colp', stack') \<Rightarrow>
    length colp' = length colp \<and> scattered hash (E @ ents hash i ps) colp' stack'"
  using assms
proof (induction ps arbitrary: E colp stack i)
  case (Cons p ps)
  obtain h where h: "hash p = int h" "h < length colp"
    using Cons.prems(3) by (metis list.set_intros(1) nonneg_int_cases of_nat_less_iff)
  let ?e = "\<lparr>hname = p, hcol = i, hnum = hash p\<rparr>"
  show ?case
  proof (cases "colno (colp ! h) = -1")
    case True
    let ?c = "colp[h := (colp ! h)\<lparr>sname := Some p, colno := i\<rparr>]"
    have "length (filter (\<lambda>j. colno (colp ! j) = -1) [0..<length colp]) =
        Suc (length (filter (\<lambda>j. colno (?c ! j) = -1) [0..<length colp]))"
      using True h Cons.prems(2) by (intro count_fill [of h]) auto
    then have "scattered hash (E @ [?e]) ?c stack"
      using Cons.prems(1,2) True h by (auto simp: scattered_def nth_list_update ent_def)
    from Cons.IH [OF this, of "i + 1"] show ?thesis
      using Cons.prems(2,3) True h by (simp add: Let_def)
  next
    case False
    have "scattered hash (E @ [?e]) colp (stack @ [?e])"
      using Cons.prems(1,2) False h by (auto simp: scattered_def split: if_splits)
    from Cons.IH [OF this, of "i + 1"] show ?thesis
      using Cons.prems(2,3) False h by (simp add: Let_def)
  qed
qed simp

lemma ents_props:
  "e \<in> set (ents hash i ps) \<Longrightarrow>
     hname e \<in> set ps \<and> hnum e = hash (hname e) \<and> i \<le> hcol e \<and> hcol e < i + int (length ps) \<and>
     ps ! nat (hcol e - i) = hname e"
proof (induction ps arbitrary: i)
  case (Cons p ps)
  then consider "e = \<lparr>hname = p, hcol = i, hnum = hash p\<rparr>" | "e \<in> set (ents hash (i + 1) ps)"
    by auto
  then show ?case
  proof cases
    case 2
    then have "hname e \<in> set ps \<and> hnum e = hash (hname e) \<and> i + 1 \<le> hcol e \<and>
        hcol e < i + 1 + int (length ps) \<and> ps ! nat (hcol e - (i + 1)) = hname e"
      by (rule Cons.IH)
    moreover have "nat (hcol e - i) = Suc (nat (hcol e - (i + 1)))" if "i + 1 \<le> hcol e"
      using that by simp
    ultimately show ?thesis by auto
  qed simp
qed simp

lemma length_ents [simp]: "length (ents hash i ps) = length ps"
  by (induction ps arbitrary: i) auto

lemma ents_find:
  "find (\<lambda>e. hname e = key) (ents hash i ps) =
     map_option (\<lambda>j. \<lparr>hname = key, hcol = i + int j, hnum = hash key\<rparr>)
       (find (\<lambda>j. ps ! j = key) [0..<length ps])"
proof (induction ps arbitrary: i)
  case (Cons p ps)
  have "[0..<length (p # ps)] = 0 # map Suc [0..<length ps]"
    by (simp only: length_Cons map_Suc_upt upt_conv_Cons [OF zero_less_Suc])
  moreover have "find (\<lambda>j. (p # ps) ! j = key) (map Suc xs) = map_option Suc (find (\<lambda>j. ps ! j = key) xs)" for xs
    by (induction xs) auto
  ultimately show ?case using Cons [of "i + 1"]
    by (cases "find (\<lambda>j. ps ! j = key) [0..<length ps]") auto
qed simp

lemma ents_mem: "p \<in> set ps \<Longrightarrow> \<exists>e\<in>set (ents hash i ps). hname e = p \<and> hnum e = hash p"
  by (induction ps arbitrary: i) auto

context attaching
begin

lemma mk_index_ok:
  assumes "\<forall>p\<in>set names. 0 \<le> hash p \<and> hash p < int (length names)"
  shows "\<exists>T. mk_index attach hash names = Some T \<and> length T = length names \<and> good_table T \<and>
    (\<forall>j<length names. colno (T ! j) \<noteq> -1 \<and> the (sname (T ! j)) \<in> set names) \<and>
    (\<forall>h es e. of_hash h (ents hash 0 names) = e # es \<longrightarrow> holds hash T h (fold eins (rev es) [e]))"
proof -
  define n E where "n = length names" and "E = ents hash 0 names"
  obtain c st where sc: "scatter hash (empty_slots n) [] 0 names = (c, st)" by fastforce
  have "filter (\<lambda>j. colno (empty_slots n ! j) = -1) [0..<n] = [0..<n]"
    by (rule filter_True) (simp add: empty_slots_def)
  then have "scattered hash [] (empty_slots n) []"
    by (auto simp: scattered_def empty_slots_def)
  from scatter_ok [OF this, of 0 names] assms sc
  have c: "length c = n" "scattered hash E c st" by (auto simp: n_def E_def empty_slots_def)
  have Ep: "hnum e = hash (hname e) \<and> hcol e \<noteq> -1 \<and> hname e \<in> set names \<and> 0 \<le> hnum e \<and>
      hnum e < int n" if "e \<in> set E" for e
    using ents_props [of e hash 0 names] that assms by (auto simp: E_def n_def)
  have slot: "link (c ! h) = -1" "colno (c ! h) = -1 \<Longrightarrow> of_hash h E = [] \<and> of_hash h st = []"
     "colno (c ! h) \<noteq> -1 \<Longrightarrow> sname (c ! h) \<noteq> None \<and> hash (the (sname (c ! h))) = int h \<and>
        of_hash h E = ent hash c h # of_hash h st" if "h < n" for h
    using c that by (auto simp: scattered_def split: if_splits)
  have sub: "set st \<subseteq> set E" using c(2) by (simp add: scattered_def)
  have count: "length (filter (\<lambda>j. colno (c ! j) = -1) [0..<n]) = length st"
    using c by (simp add: scattered_def E_def n_def)
  have good: "good_table c"
    using slot c(1) by (auto simp: good_table_def ends_well_def intro!: exI [of _ "[_]"])
  have hold: "holds hash c h [ent hash c h]" if "h < n" "colno (c ! h) \<noteq> -1" for h
    using slot [OF that(1)] that c(1) by (auto simp: holds_def intro!: exI [of _ "[h]"])
  have stk: "\<forall>e\<in>set st. hash (hname e) = hnum e \<and> hcol e \<noteq> -1 \<and> 0 \<le> hnum e \<and>
       (\<exists>es. holds hash c (nat (hnum e)) es)"
  proof
    fix e assume e: "e \<in> set st"
    then have E: "e \<in> set E" using sub by auto
    note p = Ep [OF this]
    have "e \<in> set (of_hash (nat (hnum e)) E)" using E p by simp
    then have "colno (c ! nat (hnum e)) \<noteq> -1"
      using slot(2) [of "nat (hnum e)"] p by (metis empty_iff empty_set nat_less_iff)
    then show "hash (hname e) = hnum e \<and> hcol e \<noteq> -1 \<and> 0 \<le> hnum e \<and>
       (\<exists>es. holds hash c (nat (hnum e)) es)"
      using hold [of "nat (hnum e)"] p by (metis nat_less_iff)
  qed
  have nm: "the (sname (c ! j)) \<in> set names" if "j < n" "colno (c ! j) \<noteq> -1" for j
  proof -
    have "ent hash c j \<in> set (of_hash j E)" using slot(3) [OF that] by simp
    then have "ent hash c j \<in> set E" by simp
    then show ?thesis using Ep [of "ent hash c j"] by (simp add: ent_def)
  qed
  have sn: "hname ` set st \<subseteq> set names" using sub Ep by auto
  obtain T where T: "fill attach c st [0..<n] = Some T" "length T = n" "good_table T"
      "\<forall>j<n. colno (T ! j) \<noteq> -1 \<and> the (sname (T ! j)) \<in> set names"
      "\<forall>h es. holds hash c h es \<longrightarrow>
       holds hash T h (fold eins (rev (of_hash h st)) es)"
    using fill_ok [OF good _ _ _ _ stk _ sn, of "[0..<n]"] c(1) count nm by auto
  have "mk_index attach hash names = Some T"
  proof (cases "st = []")
    case True
    have "fill attach c st is = Some c" if "\<forall>i\<in>set is. colno (c ! i) \<noteq> -1" for "is"
      using that by (induction "is") auto
    moreover have "\<forall>i\<in>set [0..<n]. colno (c ! i) \<noteq> -1"
      using count True by (auto simp: filter_empty_conv)
    ultimately have "T = c" using T(1) by auto
    then show ?thesis using sc True by (simp add: mk_index_def n_def)
  qed (use sc T(1) in \<open>simp add: mk_index_def n_def\<close>)
  moreover have "holds hash T h (fold eins (rev es) [e])" if "of_hash h E = e # es" for h e es
  proof -
    have "e \<in> set (of_hash h E)" using that by simp
    then have "h < n" using Ep [of e] by auto
    moreover have "colno (c ! h) \<noteq> -1" using slot(2) [OF \<open>h < n\<close>] that by auto
    ultimately show ?thesis using slot(3) [OF \<open>h < n\<close>] that T(5) hold [OF \<open>h < n\<close>] by auto
  qed
  ultimately show ?thesis using T by (auto simp: n_def E_def)
qed

text \<open>A search from the slot of the key's hash value sees the entries of that hash value
  in the order of the chain, and finds nothing when no name has it.\<close>

lemma mk_index_search:
  assumes "\<forall>p\<in>set names. 0 \<le> hash p \<and> hash p < int (length names)"
    "0 \<le> hash key" "hash key < int (length names)"
  shows "\<exists>T s. mk_index attach hash names = Some T \<and> slot_search T key (hash key) = Some s \<and>
    map_option (\<lambda>s. (sname s, colno s)) s =
      (case of_hash (nat (hash key)) (ents hash 0 names) of
         [] \<Rightarrow> None
       | e # es \<Rightarrow> map_option (\<lambda>e. (Some key, hcol e))
           (find (\<lambda>e. hname e = key) (fold eins (rev es) [e])))"
proof -
  obtain T where T: "mk_index attach hash names = Some T" "length T = length names" "good_table T"
    "\<forall>j<length names. colno (T ! j) \<noteq> -1 \<and> the (sname (T ! j)) \<in> set names"
    "\<And>h es e. of_hash h (ents hash 0 names) = e # es \<Longrightarrow> holds hash T h (fold eins (rev es) [e])"
    using mk_index_ok [OF assms(1)] by blast
  define h where "h = nat (hash key)"
  have h: "hash key = int h" "h < length names" using assms(2,3) by (auto simp: h_def)
  show ?thesis
  proof (cases "of_hash h (ents hash 0 names)")
    case Nil
    have "ends_well T h" using T(2-4) h(2) by (simp add: good_table_def)
    then obtain xs where xs: "chain (links T) (int h) xs"
        "\<forall>x\<in>set xs. x < length T \<and> colno (T ! x) \<noteq> -1"
      by (auto simp: ends_well_def)
    have "xs \<noteq> []" using xs(1) by auto
    moreover have "named T xs" using xs(2) T(3) by (auto simp: named_def good_table_def)
    moreover have "key \<notin> set names"
      using Nil ents_mem [of key names hash 0] h(1) by (auto simp: filter_empty_conv)
    then have "\<forall>x\<in>set xs. sname (T ! x) \<noteq> Some key" using T(2,4) xs(2) by fastforce
    then have "find (\<lambda>x. sname (T ! x) = Some key) xs = None" by (intro find_none) auto
    ultimately show ?thesis using slot_search_chain [OF xs(1)] T(1) Nil h(1)
      by (auto simp flip: h_def)
  next
    case (Cons e es)
    from T(5) [OF this] obtain xs where xs: "chain (links T) (int h) xs" "xs \<noteq> []"
      "\<forall>x\<in>set xs. x < length T \<and> colno (T ! x) \<noteq> -1 \<and> hash (the (sname (T ! x))) = int h"
      "map (ent hash T) xs = fold eins (rev es) [e]"
      by (auto simp: holds_def)
    have nmd: "named T xs" using xs(3) T(3) by (auto simp: named_def good_table_def)
    have "map_option (\<lambda>x. (sname (T ! x), colno (T ! x))) (find (\<lambda>x. sname (T ! x) = Some key) ys) =
        map_option (\<lambda>e. (Some key, hcol e)) (find (\<lambda>e. hname e = key) (map (ent hash T) ys))"
      if "set ys \<subseteq> set xs" for ys
      using that nmd by (induction ys) (auto simp: named_def ent_def)
    from this [of xs] show ?thesis
      using slot_search_chain [OF xs(1,2) nmd, of key] T(1) Cons h(1) xs(4)
      by (auto simp: option.map_comp comp_def simp flip: h_def)
  qed
qed

end

definition ins_head :: "nat \<Rightarrow> nat list \<Rightarrow> nat list" where
  "ins_head i xs = hd xs # i # tl xs"

definition ins_tail :: "nat \<Rightarrow> nat list \<Rightarrow> nat list" where
  "ins_tail i xs = xs @ [i]"

definition eins_head :: "hashnode \<Rightarrow> hashnode list \<Rightarrow> hashnode list" where
  "eins_head e xs = hd xs # e # tl xs"

definition eins_tail :: "hashnode \<Rightarrow> hashnode list \<Rightarrow> hashnode list" where
  "eins_tail e xs = xs @ [e]"

lemma links_upd: "y < length colp \<Longrightarrow> links (colp[y := (colp ! y)\<lparr>link := v\<rparr>]) = (links colp)(y := v)"
  by (auto simp: nth_list_update)

interpretation at_head: attaching link_head ins_head eins_head
proof
  show "xs \<noteq> [] \<Longrightarrow> map f (ins_head i xs) = eins_head (f i) (map f xs)" for xs f i
    by (cases xs) (auto simp: ins_head_def eins_head_def)
  fix colp h xs i
  assume a: "chain (links colp) (int h) xs" "xs \<noteq> []" "named colp xs" "i < length colp"
    "i \<notin> set xs" "link (colp ! i) = -1"
  then obtain ys where xs: "xs = h # ys" by (cases xs) auto
  with a have h: "h < length colp" "h \<noteq> i" by (auto simp: named_def)
  let ?c = "colp[i := (colp ! i)\<lparr>link := link (colp ! h)\<rparr>]"
  have "links (?c[h := (?c ! h)\<lparr>link := int i\<rparr>]) = (links colp)(i := links colp h, h := int i)"
    using h a(4) by (auto simp: nth_list_update)
  then show "\<exists>colp' y. link_head colp h i = Some colp' \<and> y \<in> set xs \<and> length colp' = length colp \<and>
      links colp' = (links colp)(i := links colp y, y := int i) \<and>
      (\<forall>j. sname (colp' ! j) = sname (colp ! j) \<and> colno (colp' ! j) = colno (colp ! j)) \<and>
      ins_head i xs = takeWhile (\<lambda>x. x \<noteq> y) xs @ y # i # tl (dropWhile (\<lambda>x. x \<noteq> y) xs)"
    using h a(4) xs
    by (intro exI [of _ "?c[h := (?c ! h)\<lparr>link := int i\<rparr>]"] exI [of _ h])
      (auto simp: link_head_def ins_head_def Let_def nth_list_update)
qed

lemma before_last: "distinct xs \<Longrightarrow> xs \<noteq> [] \<Longrightarrow>
   takeWhile (\<lambda>x. x \<noteq> last xs) xs = butlast xs \<and> dropWhile (\<lambda>x. x \<noteq> last xs) xs = [last xs]"
  by (induction xs) auto

interpretation at_tail: attaching link_tail ins_tail eins_tail
proof
  show "map f (ins_tail i xs) = eins_tail (f i) (map f xs)" for xs f i
    by (auto simp: ins_tail_def eins_tail_def)
  fix colp h xs i
  assume a: "chain (links colp) (int h) xs" "xs \<noteq> []" "named colp xs" "i < length colp"
    "i \<notin> set xs" "link (colp ! i) = -1"
  let ?y = "last xs"
  have y: "?y < length colp" "?y \<noteq> i" "links colp ?y = -1"
    using a chain_tail_link [OF a(1,2)] by (auto simp: named_def)
  have "links (colp[?y := (colp ! ?y)\<lparr>link := int i\<rparr>]) = (links colp)(i := links colp ?y, ?y := int i)"
    using y a(6) by (auto simp: links_upd)
  then show "\<exists>colp' y. link_tail colp h i = Some colp' \<and> y \<in> set xs \<and> length colp' = length colp \<and>
      links colp' = (links colp)(i := links colp y, y := int i) \<and>
      (\<forall>j. sname (colp' ! j) = sname (colp ! j) \<and> colno (colp' ! j) = colno (colp ! j)) \<and>
      ins_tail i xs = takeWhile (\<lambda>x. x \<noteq> y) xs @ y # i # tl (dropWhile (\<lambda>x. x \<noteq> y) xs)"
    using y a chain_tail_last [OF a(1-3)] before_last [OF chain_distinct [OF a(1)] a(2)]
    by (intro exI [of _ "colp[?y := (colp ! ?y)\<lparr>link := int i\<rparr>]"] exI [of _ ?y])
      (auto simp: link_tail_def ins_tail_def nth_list_update)
qed

subsection \<open>Properties\<close>

lemma fold_eins_head: "fold eins_head (rev es) [e] = e # es"
proof -
  have "fold eins_head (rev es) (e # xs) = e # es @ xs" for xs
    by (induction es arbitrary: xs rule: rev_induct) (simp_all add: eins_head_def)
  from this [of "[]"] show ?thesis by simp
qed

lemma fold_eins_tail: "fold eins_tail es (e # xs) = e # xs @ es"
  by (induction es arbitrary: xs) (simp_all add: eins_tail_def)

lemma find_filter: "(\<And>x. x \<in> set xs \<Longrightarrow> P x \<Longrightarrow> Q x) \<Longrightarrow> find P (filter Q xs) = find P xs"
  by (induction xs) auto

lemma hash_name_range: "0 < m \<Longrightarrow> 0 \<le> hash_name p m \<and> hash_name p m < m"
  by (simp add: hash_name_def)

lemma srv_hash_name_range: "0 < m \<Longrightarrow> 0 \<le> srv_hash_name p m \<and> srv_hash_name p m < m"
  by (simp add: srv_hash_name_def)


lemma find_SomeD: "find P xs = Some x \<Longrightarrow> x \<in> set xs \<and> P x"
  by (auto simp: find_Some_iff)

lemma tail_find_none:
  "None = (case es of [] \<Rightarrow> None | e # es \<Rightarrow> map_option f (find P (fold eins_tail (rev es) [e])))
     \<Longrightarrow> e \<in> set es \<Longrightarrow> \<not> P e"
  by (auto simp: fold_eins_tail find_None_iff split: list.splits if_splits)

lemma tail_find_some:
  "Some v = (case es of [] \<Rightarrow> None | e # es \<Rightarrow> map_option f (find P (fold eins_tail (rev es) [e])))
     \<Longrightarrow> \<exists>e\<in>set es. P e \<and> v = f e"
  by (auto simp: fold_eins_tail eq_commute [of "Some v"] split: list.splits if_splits dest!: find_SomeD)

lemma of_hash_find:
  assumes "hash key = int h"
  shows "find (\<lambda>e. hname e = key) (of_hash h (ents hash 0 names)) =
    map_option (\<lambda>j. \<lparr>hname = key, hcol = int j, hnum = hash key\<rparr>)
       (find (\<lambda>j. names ! j = key) [0..<length names])"
proof -
  have "find (\<lambda>e. hname e = key) (of_hash h (ents hash 0 names)) =
      find (\<lambda>e. hname e = key) (ents hash 0 names)"
    using assms by (intro find_filter) (auto dest: ents_props)
  then show ?thesis using ents_find [of key hash 0 names] by simp
qed

lemma pkg_getnum_find:
  assumes "\<forall>t\<in>set cols. ptype t \<ge> 0" "ptype e = -1"
    "map (\<lambda>t. plain_name (pname t)) cols = map Some names"
  shows "pkg_getnum key (cols @ e # rest) =
    Some (case find (\<lambda>j. names ! j = key) [0..<length names] of None \<Rightarrow> int (length names) | Some j \<Rightarrow> int j)"
  using assms
proof (induction cols arbitrary: names)
  case (Cons t ts)
  then obtain nm nms where n: "names = nm # nms" by (cases names) auto
  have "[0..<length (nm # nms)] = 0 # map Suc [0..<length nms]"
    by (simp only: length_Cons map_Suc_upt upt_conv_Cons [OF zero_less_Suc])
  moreover have "find (\<lambda>j. (nm # nms) ! j = key) (map Suc xs) = map_option Suc (find (\<lambda>j. nms ! j = key) xs)" for xs
    by (induction xs) auto
  ultimately show ?case using Cons.IH [of nms] Cons.prems n by (auto split: option.splits)
qed simp

lemma col_names_split:
  assumes "\<forall>t\<in>set cols. ptype t \<ge> 0" "ptype e = -1"
    "map (\<lambda>t. plain_name (pname t)) cols = map Some names"
  shows "col_names (cols @ e # rest) = Some names"
proof -
  have "those (map Some names) = Some names" by (induction names) auto
  then show ?thesis using assms by (simp add: col_names_def takeWhile_append)
qed

text \<open>The answer of \<open>index_col\<close>, with an index and without, as a search in the list of names.\<close>

definition col_search :: "bytes list \<Rightarrow> bytes \<Rightarrow> int" where
  "col_search names key =
     (case find (\<lambda>j. names ! j = key) [0..<length names] of None \<Rightarrow> -1 | Some j \<Rightarrow> int j)"

lemma index_col_without:
  assumes "\<forall>t\<in>set cols. ptype t \<ge> 0" "ptype e = -1"
    "map (\<lambda>t. plain_name (pname t)) cols = map Some names"
  shows "index_col None n key (Some (cols @ e # rest)) = Some (col_search names key)"
proof (cases "find (\<lambda>j. names ! j = key) [0..<length names]")
  case (Some j)
  have len: "length names = length cols" using assms(3) by (metis length_map)
  then have j: "j < length cols" using Some by (auto simp: find_Some_iff)
  then have "ptype (cols ! j) \<ge> 0" using assms(1) by simp
  then show ?thesis
    using pkg_getnum_find [OF assms, of key rest] j Some
    by (auto simp: index_col_def nth_append col_search_def)
next
  case None
  have len: "length names = length cols" using assms(3) by (metis length_map)
  then show ?thesis
    using None pkg_getnum_find [OF assms, of key rest] assms(2)
    by (auto simp: index_col_def nth_append col_search_def)
qed

lemma index_col_with:
  assumes "set_offset tpl = Some (int (length cols), cols @ e # rest)" "cols \<noteq> []"
    "\<forall>t\<in>set cols. ptype t \<ge> 0" "ptype e = -1"
    "map (\<lambda>t. plain_name (pname t)) cols = map Some names"
  shows "\<exists>colp. mk_col_idx tpl = Some (cols @ e # rest, colp) \<and>
    (\<forall>key. index_col (Some colp) (int (length cols)) key (Some (cols @ e # rest)) =
      Some (col_search names key))"
proof -
  let ?hash = "\<lambda>p. hash_name p (int (length cols))"
  have len: "length names = length cols" using assms(5) by (metis length_map)
  have rng: "0 \<le> ?hash p \<and> ?hash p < int (length names)" for p
    using hash_name_range [of "int (length cols)" p] assms(2) len by simp
  obtain T where T: "mk_index link_head ?hash names = Some T"
    using at_head.mk_index_search [of names ?hash undefined] rng by auto
  have "index_col (Some T) (int (length cols)) key (Some (cols @ e # rest)) =
      Some (col_search names key)" for key
  proof -
    obtain s where s: "slot_search T key (?hash key) = Some s"
      "map_option (\<lambda>s. (sname s, colno s)) s =
        (case of_hash (nat (?hash key)) (ents ?hash 0 names) of
           [] \<Rightarrow> None
         | e # es \<Rightarrow> map_option (\<lambda>e. (Some key, hcol e))
             (find (\<lambda>e. hname e = key) (fold eins_head (rev es) [e])))"
      using at_head.mk_index_search [of names ?hash key] rng T by auto
    have "(case of_hash (nat (?hash key)) (ents ?hash 0 names) of
           [] \<Rightarrow> None
         | e # es \<Rightarrow> map_option (\<lambda>e. (Some key, hcol e))
             (find (\<lambda>e. hname e = key) (fold eins_head (rev es) [e]))) =
        map_option (\<lambda>e. (Some key, hcol e)) (find (\<lambda>e. hname e = key) (of_hash (nat (?hash key)) (ents ?hash 0 names)))"
      by (auto simp: fold_eins_head split: list.split)
    also have "\<dots> = map_option (\<lambda>j. (Some key, int j)) (find (\<lambda>j. names ! j = key) [0..<length names])"
      using of_hash_find [of ?hash key "nat (?hash key)" names] rng by (simp add: option.map_comp comp_def)
    finally have "(case s of None \<Rightarrow> -1 | Some s \<Rightarrow> colno s) = col_search names key"
      using s(2) by (cases s) (auto simp: col_search_def split: option.splits)
    then show ?thesis using s(1) by (simp add: index_col_def)
  qed
  moreover have "mk_col_idx tpl = Some (cols @ e # rest, T)"
    using assms(1) T(1) col_names_split [OF assms(3-5)] by (simp add: mk_col_idx_def)
  ultimately show ?thesis by blast
qed

text \<open>C15: On a template with at least one column, laid out by \<open>set_offset\<close>, \<open>mk_col_idx\<close> builds
  an index (no slot is left empty, no stack underflows, every chain ends) with which
  \<open>index_col\<close> returns, for every key, the number of the first column whose plain name is the
  key, or -1; that is the answer it gives without an index, by the linear search of
  \<open>pkg_getnum\<close>.\<close>

theorem index_col_is_linear_search:
  assumes "set_offset tpl = Some (int (length cols), cols @ e # rest)" "cols \<noteq> []"
    "\<forall>t\<in>set cols. ptype t \<ge> 0" "ptype e = -1"
    "map (\<lambda>t. plain_name (pname t)) cols = map Some names"
  shows "\<exists>colp. mk_col_idx tpl = Some (cols @ e # rest, colp) \<and>
    index_col (Some colp) (int (length cols)) key (Some (cols @ e # rest)) =
      Some (case find (\<lambda>j. names ! j = key) [0..<length names] of None \<Rightarrow> -1 | Some j \<Rightarrow> int j) \<and>
    index_col (Some colp) (int (length cols)) key (Some (cols @ e # rest)) =
      index_col None (int (length cols)) key (Some (cols @ e # rest))"
  using index_col_with [OF assms] index_col_without [OF assms(3-5)] by (auto simp: col_search_def)

definition two_cols :: "T_PkgType list" where
  "two_cols = [PkgType 1 3 (Some [97]) No_Format 0 0, PkgType 4 4 (Some [99]) No_Format 4 0,
     PkgType (-1) 0 None No_Format 8 4]"

theorem index_col_is_linear_search_witness:
  "\<exists>colp. mk_col_idx two_cols = Some (two_cols, colp) \<and>
     index_col (Some colp) 2 [99] (Some two_cols) = Some 1"
  using index_col_is_linear_search [of two_cols "take 2 two_cols" "two_cols ! 2" "[]" "[[97], [99]]" "[99]"]
  by (auto simp: two_cols_def plain_name_def)

text \<open>A service index built by \<open>mk_srv_hash\<close> from a non-empty service list answers every
  name: \<open>get_srv_no\<close> ends and returns the number of a service of that name when the list has
  one, and otherwise 1, the number of \<open>echo()\<close>.\<close>

theorem get_srv_no_correct:
  assumes "slist \<noteq> []"
  shows "\<exists>T r. mk_srv_hash slist = Some T \<and>
    get_srv_no (Some \<lparr>srvn = int (length slist), srv_hash = Some T, srvlist = Some slist, usage = u\<rparr>) key
      = Some r \<and>
    (if key \<in> srv_name ` set slist then \<exists>s\<in>set slist. srv_name s = key \<and> srv_no s = r else r = 1)"
proof -
  let ?hash = "\<lambda>p. srv_hash_name p (int (length slist))"
  let ?names = "map srv_name slist"
  have rng: "0 \<le> ?hash p \<and> ?hash p < int (length ?names)" for p
    using srv_hash_name_range [of "int (length slist)" p] assms by simp
  obtain T s where T: "mk_index link_tail ?hash ?names = Some T" "slot_search T key (?hash key) = Some s"
    "map_option (\<lambda>s. (sname s, colno s)) s =
      (case of_hash (nat (?hash key)) (ents ?hash 0 ?names) of
         [] \<Rightarrow> None
       | e # es \<Rightarrow> map_option (\<lambda>e. (Some key, hcol e))
           (find (\<lambda>e. hname e = key) (fold eins_tail (rev es) [e])))"
    using at_tail.mk_index_search [of ?names ?hash key] rng by auto
  let ?es = "of_hash (nat (?hash key)) (ents ?hash 0 ?names)"
  show ?thesis
  proof (cases s)
    case None
    then have "\<forall>e\<in>set ?es. hname e \<noteq> key"
      using tail_find_none [OF T(3) [unfolded None option.map]] by blast
    then have "key \<notin> set ?names"
      using ents_mem [of key ?names ?hash 0] rng [of key] by auto
    then show ?thesis using None T assms by (auto simp: mk_srv_hash_def get_srv_no_def)
  next
    case (Some sl)
    then obtain e where e: "e \<in> set ?es" "hname e = key" "colno sl = hcol e"
      using tail_find_some [OF T(3) [unfolded Some option.map]] by auto
    then have p: "0 \<le> hcol e" "nat (hcol e) < length slist" "srv_name (slist ! nat (hcol e)) = key"
      using ents_props [of e ?hash 0 ?names] by auto
    then have "slist ! nat (hcol e) \<in> set slist" by simp
    then have "key \<in> srv_name ` set slist" "slist ! nat (hcol e) \<in> set slist"
      using p(3) e(2) by force+
    moreover have "get_srv_no (Some \<lparr>srvn = int (length slist), srv_hash = Some T,
        srvlist = Some slist, usage = u\<rparr>) key = Some (srv_no (slist ! nat (hcol e)))"
      using Some T(2) assms e(3) p(1,2) by (simp add: get_srv_no_def)
    ultimately show ?thesis using T(1) p(3) e(2) by (auto simp: mk_srv_hash_def)
  qed
qed

theorem get_srv_no_correct_witness:
  "\<exists>T r. mk_srv_hash [\<lparr>srv_no = 0, srv_name = [97]\<rparr>] = Some T \<and>
    get_srv_no (Some \<lparr>srvn = 1, srv_hash = Some T, srvlist = Some [\<lparr>srv_no = 0, srv_name = [97]\<rparr>],
       usage = 0\<rparr>) [98] = Some 1"
  using get_srv_no_correct [of "[\<lparr>srv_no = 0, srv_name = [97]\<rparr>]" 0 "[98]"] by auto

end
