(* ===== verification/Multi_Hash.thy ===== *)
theory Multi_Hash
  imports Hash_Index
begin

text \<open>The static hash table with repeated keys, \<open>src/ds/multi_hash.c\<close>: a table over the rows
  of an array in which equal keys are neighbours.  A slot holds the first row of a key, the
  number of its rows and the link of its chain.  A first pass puts each key in the slot of its
  hash value or, when another key has it, on a stack; a second pass moves the stacked keys into
  the slots left empty and links them at the end of the chain of their hash value.  None is
  undefined behaviour: a slot or row outside its array, a stack written past its end, a chain
  that does not end.\<close>

record multi_hash_node =
  rowno :: int
  link :: int
  count :: int

text \<open>\<open>getdata(data, n)\<close> is the n-th row; \<open>do_hash\<close> and \<open>key_cmp\<close> are the callbacks.\<close>

record 'd hash_paramiter =
  data :: "'d list"
  key_count :: int
  do_hash :: "'d \<Rightarrow> int \<Rightarrow> int"
  key_cmp :: "'d \<Rightarrow> 'd \<Rightarrow> int"
  index :: "multi_hash_node list option"

definition data_count :: "'d hash_paramiter \<Rightarrow> nat" where
  "data_count para = length (data para)"

definition no_node :: multi_hash_node where
  "no_node = \<lparr>rowno = -1, link = -1, count = 0\<rparr>"

text \<open>\<open>COMPARE(i, k)\<close> of a row with the row a node holds.\<close>

definition same_key :: "'d hash_paramiter \<Rightarrow> nat \<Rightarrow> multi_hash_node \<Rightarrow> bool" where
  "same_key para i hp \<longleftrightarrow> key_cmp para (data para ! i) (data para ! nat (rowno hp)) = 0"

definition counted :: "multi_hash_node \<Rightarrow> multi_hash_node" where
  "counted hp = hp\<lparr>count := count hp + 1\<rparr>"

text \<open>The first pass over the rows; the stack grows at the end of the list.\<close>

fun place_rows :: "'d hash_paramiter \<Rightarrow> multi_hash_node list \<Rightarrow> multi_hash_node list \<Rightarrow> nat list
    \<Rightarrow> (multi_hash_node list \<times> multi_hash_node list) option" where
  "place_rows para hash stack [] = Some (hash, stack)"
| "place_rows para hash stack (i # is) =
     (let hashnum = do_hash para (data para ! i) (key_count para) in
      if hashnum < 0 \<or> hashnum \<ge> int (length hash) then None
      else let hp = hash ! nat hashnum in
        if rowno hp = -1 then
          place_rows para (hash[nat hashnum := hp\<lparr>rowno := int i, count := 1\<rparr>]) stack is
        else if same_key para i hp then place_rows para (hash[nat hashnum := counted hp]) stack is
        else if stack \<noteq> [] \<and> same_key para i (last stack) then
          place_rows para hash (butlast stack @ [counted (last stack)]) is
        else if int (length stack) \<ge> key_count para then None
        else place_rows para hash (stack @ [\<lparr>rowno = int i, link = hashnum, count = 1\<rparr>]) is)"

text \<open>The end of the chain that starts at slot p.\<close>

partial_function (option) chain_end :: "multi_hash_node list \<Rightarrow> int \<Rightarrow> nat option" where
  "chain_end hash p =
     (if p < 0 \<or> p \<ge> int (length hash) then None
      else if link (hash ! nat p) = -1 then Some (nat p)
      else chain_end hash (link (hash ! nat p)))"

text \<open>The second pass over the slots.\<close>

fun place_conflicts :: "multi_hash_node list \<Rightarrow> multi_hash_node list \<Rightarrow> nat list
    \<Rightarrow> multi_hash_node list option" where
  "place_conflicts hash stack [] = Some hash"
| "place_conflicts hash stack (i # is) =
     (if stack = [] then Some hash
      else if rowno (hash ! i) > -1 then place_conflicts hash stack is
      else do {
        let top = last stack;
        let hash = hash[i := top\<lparr>link := -1\<rparr>];
        y \<leftarrow> chain_end hash (link top);
        place_conflicts (hash[y := (hash ! y)\<lparr>link := int i\<rparr>]) (butlast stack) is })"

text \<open>\<open>stack_ok\<close> and \<open>index_ok\<close> say whether the two calls of \<open>malloc\<close> succeed.\<close>

definition multi_hash :: "bool \<Rightarrow> bool \<Rightarrow> 'd hash_paramiter option
    \<Rightarrow> (int \<times> 'd hash_paramiter option) option" where
  "multi_hash stack_ok index_ok para =
     (case para of
        None \<Rightarrow> Some (-1, None)
      | Some para \<Rightarrow>
          if \<not> stack_ok then Some (MEMERR, Some para)
          else if \<not> index_ok then Some (MEMERR, Some (para\<lparr>index := None\<rparr>))
          else do {
            let n = nat (key_count para);
            (hash, stack) \<leftarrow> place_rows para (replicate n no_node) [] [0..<data_count para];
            hash \<leftarrow> place_conflicts hash stack [0..<n];
            Some (int (length stack), Some (para\<lparr>index := Some hash\<rparr>)) })"

text \<open>The search: the slot it stops at, or that the chain ended.\<close>

partial_function (option) find_slot :: "'d hash_paramiter \<Rightarrow> multi_hash_node list \<Rightarrow> 'd \<Rightarrow> int
    \<Rightarrow> multi_hash_node option option" where
  "find_slot para hash key p =
     (if p < 0 \<or> p \<ge> int (length hash) then None
      else let hp = hash ! nat p in
        if rowno hp > -1 \<and> nat (rowno hp) \<ge> data_count para then None
        else if rowno hp > -1 \<and> key_cmp para (data para ! nat (rowno hp)) key \<noteq> 0 then
          if link hp < 0 then Some None else find_slot para hash key (link hp)
        else Some (Some hp))"

text \<open>The row and what is stored through \<open>a_count\<close>.\<close>

definition multi_hash_find :: "'d \<Rightarrow> 'd hash_paramiter option \<Rightarrow> (int \<times> int) option" where
  "multi_hash_find key para =
     (case para of
        None \<Rightarrow> Some (-1, 0)
      | Some para \<Rightarrow>
          (case index para of
             None \<Rightarrow> Some (-1, 0)
           | Some hash \<Rightarrow>
               do { s \<leftarrow> find_slot para hash key (do_hash para key (key_count para));
                    Some (case s of
                            None \<Rightarrow> (-1, 0)
                          | Some hp \<Rightarrow> if rowno hp < 0 then (-1, 0) else (rowno hp, count hp)) }))"


subsection \<open>Keys in order of their first rows\<close>

text \<open>The rows seen so far are \<open>xs\<close>, given by their keys; equal keys are neighbours when
  \<open>remdups_adj\<close> leaves no repetition.\<close>

lemma remdups_adj_snoc:
  "remdups_adj (xs @ [x]) = (if xs \<noteq> [] \<and> last xs = x then remdups_adj xs else remdups_adj xs @ [x])"
  by (induction xs rule: remdups_adj.induct) auto

lemma last_remdups_adj: "last (remdups_adj xs) = last xs"
  by (induction xs rule: remdups_adj.induct) auto

lemma grouped_snoc:
  assumes "distinct (remdups_adj (xs @ [x]))"
  shows "distinct (remdups_adj xs)" "x \<in> set xs \<Longrightarrow> last xs = x"
  using assms by (auto simp: remdups_adj_snoc split: if_splits)

definition first_row :: "'k list \<Rightarrow> 'k \<Rightarrow> nat" where
  "first_row xs k = length (takeWhile (\<lambda>x. x \<noteq> k) xs)"

lemma first_row_snoc: "k \<in> set xs \<Longrightarrow> first_row (xs @ [x]) k = first_row xs k"
  by (simp add: first_row_def)

lemma first_row_new: "x \<notin> set xs \<Longrightarrow> first_row (xs @ [x]) x = length xs"
  by (simp add: first_row_def takeWhile_append)

lemma first_row_nth:
  assumes "k \<in> set xs"
  shows "first_row xs k < length xs" "xs ! first_row xs k = k"
proof -
  show l: "first_row xs k < length xs"
    using assms unfolding first_row_def by (induction xs) auto
  show "xs ! first_row xs k = k"
    using nth_length_takeWhile [of "\<lambda>x. x \<noteq> k" xs] l by (simp add: first_row_def)
qed

lemma first_row_inj: "k \<in> set xs \<Longrightarrow> first_row xs k = first_row xs k' \<Longrightarrow> k' \<in> set xs \<Longrightarrow> k = k'"
  using first_row_nth(2) by metis

definition node_of :: "'k list \<Rightarrow> 'k \<Rightarrow> int \<Rightarrow> multi_hash_node" where
  "node_of xs k l = \<lparr>rowno = int (first_row xs k), link = l, count = int (count_list xs k)\<rparr>"

lemma node_of_snoc:
  "k \<in> set xs \<Longrightarrow> node_of (xs @ [x]) k l = (if x = k then counted (node_of xs k l) else node_of xs k l)"
  by (simp add: node_of_def first_row_snoc counted_def)

lemma node_of_new: "x \<notin> set xs \<Longrightarrow> node_of (xs @ [x]) x l = \<lparr>rowno = int (length xs), link = l, count = 1\<rparr>"
  by (simp add: node_of_def first_row_new)

text \<open>The keys of the stack: those that find their slot taken by an earlier one.\<close>

fun late :: "('k \<Rightarrow> nat) \<Rightarrow> nat set \<Rightarrow> 'k list \<Rightarrow> 'k list" where
  "late H A [] = []"
| "late H A (k # ks) = (if H k \<in> A then k # late H A ks else late H (insert (H k) A) ks)"

lemma late_snoc:
  "late H A (ks @ [k]) = late H A ks @ (if H k \<in> A \<union> H ` set ks then [k] else [])"
  by (induction ks arbitrary: A) auto

lemma late_count: "finite A \<Longrightarrow> length (late H A ks) + card (A \<union> H ` set ks) = length ks + card A"
proof (induction ks arbitrary: A)
  case (Cons k ks)
  show ?case
  proof (cases "H k \<in> A")
    case True
    then show ?thesis using Cons by (simp add: insert_absorb)
  next
    case False
    then show ?thesis using Cons.IH [of "insert (H k) A"] Cons.prems by simp
  qed
qed simp

lemma set_late: "set (late H A ks) \<subseteq> set ks"
  by (induction ks arbitrary: A) auto

lemma distinct_late: "distinct ks \<Longrightarrow> distinct (late H A ks)"
  using set_late [of H _ ks] by (induction ks arbitrary: A) (auto dest: set_late [THEN subsetD])

lemma late_last:
  assumes "distinct (D0 @ [x])" "x \<in> set (late H A (D0 @ [x]))"
  shows "late H A (D0 @ [x]) = late H A D0 @ [x]" "x \<notin> set (late H A D0)"
proof -
  show out: "x \<notin> set (late H A D0)" using assms(1) set_late [of H A D0] by auto
  show "late H A (D0 @ [x]) = late H A D0 @ [x]"
  proof (cases "H x \<in> A \<union> H ` set D0")
    case True
    then show ?thesis by (subst late_snoc) (simp only: if_True)
  next
    case False
    then have "late H A (D0 @ [x]) = late H A D0" by (subst late_snoc) (simp only: if_False append_Nil2)
    then show ?thesis using assms(2) out by (simp only:)
  qed
qed

text \<open>A key on the stack, or at home in its slot.\<close>

lemma find_mem: "find P xs = Some x \<Longrightarrow> x \<in> set xs \<and> P x"
  by (auto simp: find_Some_iff)

lemma late_not_home:
  "distinct ks \<Longrightarrow> find (\<lambda>k. H k = h) ks = Some k \<Longrightarrow> k \<notin> set (late H {} ks)"
proof (induction ks rule: rev_induct)
  case (snoc x xs)
  then show ?case
    using set_late [of H "{}" xs]
    by (auto simp: late_snoc find_append split: option.splits if_splits dest: find_mem)
      (auto simp: find_None_iff)
qed simp

lemma home_or_late: "k \<in> set ks \<Longrightarrow> find (\<lambda>j. H j = H k) ks = Some k \<or> k \<in> set (late H {} ks)"
proof (induction ks rule: rev_induct)
  case (snoc x xs)
  show ?case
  proof (cases "k \<in> set xs")
    case True
    then show ?thesis using snoc.IH by (auto simp: late_snoc find_append)
  next
    case False
    then have "k = x" using snoc.prems by simp
    then show ?thesis
      by (auto simp: late_snoc find_append find_None_iff split: option.splits dest!: find_mem)
        (metis image_eqI)
  qed
qed simp


subsection \<open>The first pass\<close>

text \<open>The callbacks agree on a key of each row and hash it into the table.\<close>

definition keyed :: "'d hash_paramiter \<Rightarrow> ('d \<Rightarrow> 'k) \<Rightarrow> ('k \<Rightarrow> nat) \<Rightarrow> nat \<Rightarrow> bool" where
  "keyed para K H n \<longleftrightarrow> key_count para = int n \<and> (\<forall>x y. key_cmp para x y = 0 \<longleftrightarrow> K x = K y) \<and>
     (\<forall>x. do_hash para x (int n) = int (H (K x)) \<and> H (K x) < n)"

text \<open>What the table and the stack hold after the rows with keys \<open>xs\<close>.\<close>

definition home :: "('k \<Rightarrow> nat) \<Rightarrow> 'k list \<Rightarrow> nat \<Rightarrow> 'k option" where
  "home H xs h = find (\<lambda>k. H k = h) (remdups_adj xs)"

definition tab :: "('k \<Rightarrow> nat) \<Rightarrow> nat \<Rightarrow> 'k list \<Rightarrow> multi_hash_node list" where
  "tab H n xs = map (\<lambda>h. case home H xs h of None \<Rightarrow> no_node | Some k \<Rightarrow> node_of xs k (-1)) [0..<n]"

definition stk :: "('k \<Rightarrow> nat) \<Rightarrow> 'k list \<Rightarrow> multi_hash_node list" where
  "stk H xs = map (\<lambda>k. node_of xs k (int (H k))) (late H {} (remdups_adj xs))"

lemma length_tab [simp]: "length (tab H n xs) = n"
  by (simp add: tab_def)

lemma home_mem: "home H xs h = Some k \<Longrightarrow> k \<in> set xs \<and> H k = h"
  unfolding home_def by (drule find_mem) simp

lemma home_None: "home H xs h = None \<longleftrightarrow> h \<notin> H ` set xs"
  unfolding home_def find_None_iff by auto

lemma home_snoc:
  "home H (xs @ [x]) h =
     (case home H xs h of
        Some k \<Rightarrow> Some k
      | None \<Rightarrow> if H x = h then Some x else None)"
proof (cases "xs \<noteq> [] \<and> last xs = x")
  case True
  then have "home H (xs @ [x]) h = home H xs h" by (simp add: home_def remdups_adj_snoc)
  moreover have "H x \<noteq> h" if "home H xs h = None"
    using that True by (auto simp: home_None)
  ultimately show ?thesis by (simp split: option.split)
next
  case False
  then show ?thesis by (auto simp: home_def remdups_adj_snoc find_append split: option.split)
qed

lemma tab_nth: "h < n \<Longrightarrow> tab H n xs ! h =
    (case home H xs h of None \<Rightarrow> no_node | Some k \<Rightarrow> node_of xs k (-1))"
  by (simp add: tab_def)

lemma tab_snoc:
  assumes "H x < n"
  shows "tab H n (xs @ [x]) =
    (case home H xs (H x) of
       None \<Rightarrow> (tab H n xs)[H x := \<lparr>rowno = int (length xs), link = -1, count = 1\<rparr>]
     | Some k \<Rightarrow> if k = x then (tab H n xs)[H x := counted (tab H n xs ! H x)] else tab H n xs)"
    (is "?l = ?r")
proof (rule nth_equalityI)
  show "length ?l = length ?r" by (simp split: option.split)
  fix h assume "h < length ?l"
  then have h: "h < n" by simp
  have other: "tab H n (xs @ [x]) ! h = tab H n xs ! h" if "h \<noteq> H x"
  proof (cases "home H xs h")
    case None
    then show ?thesis using h that by (simp add: tab_nth home_snoc)
  next
    case (Some k)
    then show ?thesis using h that home_mem [OF Some] by (auto simp: tab_nth home_snoc node_of_snoc)
  qed
  show "?l ! h = ?r ! h"
  proof (cases "home H xs (H x)")
    case None
    then have "x \<notin> set xs" by (auto simp: home_None)
    then show ?thesis
      using h None other by (cases "h = H x") (simp_all add: tab_nth home_snoc node_of_new)
  next
    case (Some k)
    then show ?thesis
      using h home_mem [OF Some] other
      by (cases "h = H x"; cases "k = x") (simp_all add: tab_nth home_snoc node_of_snoc)
  qed
qed

lemma stk_snoc:
  assumes "distinct (remdups_adj (xs @ [x]))"
  shows "stk H (xs @ [x]) =
    (if home H xs (H x) = None \<or> home H xs (H x) = Some x then stk H xs
     else if x \<in> set xs then butlast (stk H xs) @ [counted (last (stk H xs))]
     else stk H xs @ [\<lparr>rowno = int (length xs), link = int (H x), count = 1\<rparr>])"
proof -
  let ?D = "remdups_adj xs"
  have D: "distinct ?D" using grouped_snoc(1) [OF assms] .
  have keep: "map (\<lambda>k. node_of (xs @ [x]) k (int (H k))) ks = map (\<lambda>k. node_of xs k (int (H k))) ks"
    if "x \<notin> set ks" "set ks \<subseteq> set xs" for ks
    using that by (intro map_cong) (auto simp: node_of_snoc)
  have sub: "set (late H {} ?D) \<subseteq> set xs" using set_late [of H "{}" ?D] by simp
  have hm: "H x \<in> H ` set xs \<longleftrightarrow> home H xs (H x) \<noteq> None"
    using home_None [of H xs "H x"] by simp
  show ?thesis
  proof (cases "x \<in> set xs")
    case True
    then have l: "xs \<noteq> []" "last xs = x" using grouped_snoc(2) [OF assms] by auto
    then obtain D0 where D0: "?D = D0 @ [x]"
      by (metis append_butlast_last_id last_remdups_adj remdups_adj_Nil_iff)
    have same: "remdups_adj (xs @ [x]) = ?D" using l by (simp add: remdups_adj_snoc)
    show ?thesis
    proof (cases "x \<in> set (late H {} ?D)")
      case False
      then have "home H xs (H x) = Some x"
        using home_or_late [of x ?D H] True by (simp add: home_def)
      then show ?thesis using keep [OF False sub] same by (simp add: stk_def)
    next
      case True
      then have nh: "home H xs (H x) \<noteq> Some x" "home H xs (H x) \<noteq> None"
        using late_not_home [OF D, of H "H x" x] hm l by (auto simp: home_def)
      note lt = late_last(1) [OF D [unfolded D0] True [unfolded D0], folded D0]
        and out = late_last(2) [OF D [unfolded D0] True [unfolded D0]]
      have "set (late H {} D0) \<subseteq> set xs" using sub lt by simp
      then show ?thesis
        using lt out nh l \<open>x \<in> set xs\<close> keep [of "late H {} D0"] same
          by (cases "home H xs (H x)") (simp_all add: stk_def node_of_snoc)
    qed
  next
    case False
    then have "remdups_adj (xs @ [x]) = ?D @ [x]" by (auto simp: remdups_adj_snoc)
    moreover have "x \<notin> set (late H {} ?D)" using sub False by blast
    moreover have "home H xs (H x) \<noteq> Some x" using home_mem [of H xs "H x" x] False by auto
    ultimately show ?thesis
      using False hm keep [OF _ sub]
      by (auto simp: stk_def late_snoc node_of_new)
  qed
qed


lemma same_key_node:
  assumes "keyed para K H n" "xs = take i (map K (data para))" "i < length (data para)"
    "k \<in> set xs"
  shows "same_key para i (node_of xs k l) \<longleftrightarrow> k = K (data para ! i)"
proof -
  have f: "first_row xs k < i" using first_row_nth(1) [OF assms(4)] assms(2,3) by simp
  then have "K (data para ! first_row xs k) = k"
    using first_row_nth(2) [OF assms(4)] assms(2,3) by simp
  then show ?thesis using assms(1) by (auto simp: same_key_def node_of_def keyed_def)
qed

lemma place_row:
  assumes k: "keyed para K H n" and i: "i < length (data para)"
    and xs: "xs = take i (map K (data para))" and x: "x = K (data para ! i)"
    and g: "distinct (remdups_adj (xs @ [x]))" and small: "length (stk H xs) < n"
  shows "place_rows para (tab H n xs) (stk H xs) (i # is) =
         place_rows para (tab H n (xs @ [x])) (stk H (xs @ [x])) is"
proof -
  have len: "length xs = i" using xs i by simp
  have h: "do_hash para (data para ! i) (key_count para) = int (H x)" "H x < n"
    and kc: "key_count para = int n"
    using k x by (auto simp: keyed_def)
  show ?thesis
  proof (cases "home H xs (H x)")
    case None
    then show ?thesis
      using h by (simp add: tab_nth tab_snoc stk_snoc [OF g] no_node_def len)
  next
    case (Some k0)
    have k0: "k0 \<in> set xs" using home_mem [OF Some] by simp
    have t: "tab H n xs ! H x = node_of xs k0 (-1)" using Some h by (simp add: tab_nth)
    have occ: "rowno (node_of xs k0 (-1)) \<noteq> -1" by (simp add: node_of_def)
    have sk: "same_key para i (node_of xs k0 (-1)) \<longleftrightarrow> k0 = x"
      unfolding x by (rule same_key_node [OF k xs i k0])
    show ?thesis
    proof (cases "k0 = x")
      case True
      then show ?thesis using h t occ sk Some by (simp add: tab_snoc stk_snoc [OF g])
    next
      case False
      have top: "stk H xs \<noteq> [] \<and> same_key para i (last (stk H xs)) \<longleftrightarrow> x \<in> set xs"
      proof -
        let ?L = "late H {} (remdups_adj xs)"
        have sub: "set ?L \<subseteq> set xs" using set_late [of H "{}" "remdups_adj xs"] by simp
        have "stk H xs \<noteq> [] \<and> same_key para i (last (stk H xs)) \<longleftrightarrow> ?L \<noteq> [] \<and> last ?L = x"
        proof (cases "?L = []")
          case False
          then have "last ?L \<in> set xs" using sub last_in_set by blast
          from same_key_node [OF k xs i this] show ?thesis
            using False x by (simp add: stk_def last_map)
        qed (simp add: stk_def)
        also have "\<dots> \<longleftrightarrow> x \<in> set xs"
        proof
          assume "x \<in> set xs"
          then have l: "xs \<noteq> []" "last xs = x" using grouped_snoc(2) [OF g] by auto
          then obtain D0 where D0: "remdups_adj xs = D0 @ [x]"
            by (metis append_butlast_last_id last_remdups_adj remdups_adj_Nil_iff)
          moreover have "x \<in> set ?L"
            using home_or_late [of x "remdups_adj xs" H] \<open>x \<in> set xs\<close> Some False by (auto simp: home_def)
          ultimately show "?L \<noteq> [] \<and> last ?L = x"
            using late_last(1) [of D0 x H "{}"] grouped_snoc(1) [OF g] by (simp add: D0)
        qed (use sub last_in_set in blast)
        finally show ?thesis .
      qed
      show ?thesis
      proof (cases "x \<in> set xs")
        case True
        then show ?thesis using False h t occ sk Some top by (simp add: tab_snoc stk_snoc [OF g])
      next
        case new: False
        then have none: "(stk H xs \<noteq> [] \<and> same_key para i (last (stk H xs))) = False" using top by blast
        show ?thesis
          using False new h t occ sk Some kc small len by (simp add: none tab_snoc stk_snoc [OF g])
      qed
    qed
  qed
qed

lemma place_rows_ok:
  assumes k: "keyed para K H n" and g: "distinct (remdups_adj (map K (data para)))"
    and c: "card (K ` set (data para)) \<le> n" and i: "i \<le> length (data para)"
  shows "place_rows para (tab H n (take i (map K (data para)))) (stk H (take i (map K (data para))))
           [i..<length (data para)] =
         Some (tab H n (map K (data para)), stk H (map K (data para)))"
  using i
proof (induction "length (data para) - i" arbitrary: i)
  case 0
  then show ?case by simp
next
  case (Suc m)
  let ?ks = "map K (data para)"
  have i: "i < length (data para)" using Suc.hyps(2) by simp
  have next_i: "take (Suc i) ?ks = take i ?ks @ [K (data para ! i)]"
    using i by (simp add: take_Suc_conv_app_nth)
  have g': "distinct (remdups_adj (take j ?ks))" for j
  proof (cases "j \<le> length ?ks")
    case True
    then show ?thesis
    proof (induction "length ?ks - j" arbitrary: j)
      case (Suc d)
      then have "take (Suc j) ?ks = take j ?ks @ [?ks ! j]"
        by (intro take_Suc_conv_app_nth) simp
      moreover have "distinct (remdups_adj (take (Suc j) ?ks))"
        by (rule Suc.hyps(1)) (use Suc in auto)
      ultimately show ?case using grouped_snoc(1) by metis
    qed (use g in simp)
  qed (use g in simp)
  have "length (stk H (take i ?ks)) < n"
  proof -
    let ?D = "remdups_adj (take i ?ks)"
    have fs: "length (stk H (take i ?ks)) + card (H ` set ?D) = length ?D"
      using late_count [of "{}" H ?D] by (simp add: stk_def)
    have "set ?D \<subseteq> K ` set (data para)" by (auto dest: in_set_takeD)
    then have "card (set ?D) \<le> n" using c by (meson card_mono dual_order.trans finite_imageI finite_set)
    then have D: "length ?D \<le> n" using distinct_card [OF g' [of i]] by simp
    have "0 < n" using k by (auto simp: keyed_def)
    moreover have "0 < card (H ` set ?D)" if "?D \<noteq> []"
      using that by (simp add: card_gt_0_iff)
    ultimately show ?thesis using fs D by (cases "?D = []") auto
  qed
  from place_row [OF k i refl refl _ this] have
    "place_rows para (tab H n (take i ?ks)) (stk H (take i ?ks)) (i # [Suc i..<length (data para)]) =
     place_rows para (tab H n (take (Suc i) ?ks)) (stk H (take (Suc i) ?ks)) [Suc i..<length (data para)]"
    using g' [of "Suc i"] unfolding next_i by blast
  then show ?case
    using Suc.hyps(1) [of "Suc i"] Suc.hyps(2) i by (simp add: upt_conv_Cons)
qed


subsection \<open>The second pass\<close>

abbreviation links_of :: "multi_hash_node list \<Rightarrow> nat \<Rightarrow> int" where
  "links_of hash \<equiv> (\<lambda>j. link (hash ! j))"

lemma chain_end_last:
  "chain (links_of T) p zs \<Longrightarrow> zs \<noteq> [] \<Longrightarrow> \<forall>z\<in>set zs. z < length T \<Longrightarrow> chain_end T p = Some (last zs)"
proof (induction zs arbitrary: p)
  case (Cons z zs)
  then show ?case by (subst chain_end.simps) (cases zs; auto)
qed simp

text \<open>A slot of the table: empty and the hash value of no key, or with a key, its first row and
  its number of rows, and a chain that holds all keys of that hash value but those in \<open>L\<close>.\<close>

definition holds_key :: "'k list \<Rightarrow> multi_hash_node \<Rightarrow> 'k \<Rightarrow> bool" where
  "holds_key ks hp k \<longleftrightarrow> k \<in> set ks \<and> rowno hp = int (first_row ks k) \<and> count hp = int (count_list ks k)"

definition full_chain :: "'k list \<Rightarrow> ('k \<Rightarrow> nat) \<Rightarrow> 'k list \<Rightarrow> multi_hash_node list \<Rightarrow> nat \<Rightarrow> bool" where
  "full_chain ks H L T j \<longleftrightarrow> (\<exists>zs. chain (links_of T) (int j) zs \<and>
     (\<forall>z\<in>set zs. z < length T \<and> rowno (T ! z) \<noteq> -1) \<and>
     (\<forall>k\<in>set ks. H k = j \<longrightarrow> k \<in> set L \<or> (\<exists>z\<in>set zs. holds_key ks (T ! z) k)))"

definition table_ok :: "'k list \<Rightarrow> ('k \<Rightarrow> nat) \<Rightarrow> nat \<Rightarrow> 'k list \<Rightarrow> multi_hash_node list \<Rightarrow> bool" where
  "table_ok ks H n L T \<longleftrightarrow> length T = n \<and> (\<forall>j<n.
     if rowno (T ! j) = -1 then T ! j = no_node \<and> j \<notin> H ` set ks
     else (\<exists>k. holds_key ks (T ! j) k) \<and> full_chain ks H L T j)"

lemma table_ok_full:
  assumes "table_ok ks H n L T" "j < n" "rowno (T ! j) \<noteq> -1"
  obtains zs where "chain (links_of T) (int j) zs" "\<forall>z\<in>set zs. z < n \<and> rowno (T ! z) \<noteq> -1"
    "\<forall>k\<in>set ks. H k = j \<longrightarrow> k \<in> set L \<or> (\<exists>z\<in>set zs. holds_key ks (T ! z) k)"
  using assms unfolding table_ok_def full_chain_def by metis

lemma table_ok_holds:
  "table_ok ks H n L T \<Longrightarrow> j < n \<Longrightarrow> rowno (T ! j) \<noteq> -1 \<Longrightarrow> \<exists>k. holds_key ks (T ! j) k"
  unfolding table_ok_def by metis

lemma holds_node: "k \<in> set ks \<Longrightarrow> holds_key ks (node_of ks k l) k"
  by (simp add: holds_key_def node_of_def)

lemma node_rowno [simp]: "rowno (node_of ks k l) \<noteq> -1"
  by (simp add: node_of_def)

lemma holds_link [simp]: "holds_key ks (hp\<lparr>link := l\<rparr>) k = holds_key ks hp k"
  by (simp add: holds_key_def)

lemma tab_ok: "table_ok ks H n (late H {} (remdups_adj ks)) (tab H n ks)"
  unfolding table_ok_def
proof (intro conjI allI impI)
  fix j assume j: "j < n"
  show "if rowno (tab H n ks ! j) = -1 then tab H n ks ! j = no_node \<and> j \<notin> H ` set ks
    else (\<exists>k. holds_key ks (tab H n ks ! j) k)
      \<and> full_chain ks H (late H {} (remdups_adj ks)) (tab H n ks) j"
  proof (cases "home H ks j")
    case None
    then have "tab H n ks ! j = no_node" "j \<notin> H ` set ks" using j home_None [of H ks j] by (simp_all add: tab_nth)
    then show ?thesis by (simp add: no_node_def)
  next
    case (Some k)
    note k = home_mem [OF Some]
    have t: "tab H n ks ! j = node_of ks k (-1)" using Some j by (simp add: tab_nth)
    have "full_chain ks H (late H {} (remdups_adj ks)) (tab H n ks) j"
      unfolding full_chain_def
    proof (intro exI [of _ "[j]"] conjI ballI impI)
      show "chain (links_of (tab H n ks)) (int j) [j]" by (simp add: t) (simp add: node_of_def)
      fix k' assume k': "k' \<in> set ks" "H k' = j"
      then have "k' = k \<or> k' \<in> set (late H {} (remdups_adj ks))"
        using home_or_late [of k' "remdups_adj ks" H] Some by (auto simp: home_def)
      then show "k' \<in> set (late H {} (remdups_adj ks)) \<or> (\<exists>z\<in>set [j]. holds_key ks (tab H n ks ! z) k')"
        using k by (auto simp: t holds_node)
    qed (use j in \<open>simp_all add: t node_rowno\<close>)
    moreover have "\<exists>k. holds_key ks (tab H n ks ! j) k"
      unfolding t using k by (intro exI [of _ k] holds_node) simp
    ultimately show ?thesis by (simp add: t node_rowno)
  qed
qed simp

lemma place_conflict:
  assumes t: "table_ok ks H n (L @ [q]) T" and q: "q \<in> set ks" "H q < n"
    and i: "i < n" "rowno (T ! i) = -1"
  shows "\<exists>y. chain_end (T[i := node_of ks q (-1)]) (int (H q)) = Some y \<and>
    table_ok ks H n L ((T[i := node_of ks q (-1)])
      [y := (T[i := node_of ks q (-1)] ! y)\<lparr>link := int i\<rparr>])"
proof -
  let ?T1 = "T[i := node_of ks q (-1)]"
  have len: "length T = n" using t by (simp add: table_ok_def)
  have ti: "T ! i = no_node" "i \<notin> H ` set ks" using t i by (auto simp: table_ok_def)
  have occ: "rowno (T ! H q) \<noteq> -1" using t q by (auto simp: table_ok_def)
  obtain zs where zs: "chain (links_of T) (int (H q)) zs"
      "\<forall>z\<in>set zs. z < n \<and> rowno (T ! z) \<noteq> -1"
    using table_ok_full [OF t q(2) occ] by metis
  have ne: "zs \<noteq> []" using zs(1) by (cases zs) auto
  have l1: "links_of ?T1 = links_of T"
    using ti(1) i(1) len by (auto simp: fun_eq_iff nth_list_update node_of_def no_node_def)
  define y where "y = last zs"
  have y: "y \<in> set zs" "y < n" "rowno (T ! y) \<noteq> -1" "y \<noteq> i"
    using zs(2) ne i(2) by (auto simp: y_def)
  have ce: "chain_end ?T1 (int (H q)) = Some y"
    unfolding y_def by (rule chain_end_last) (use zs ne len l1 in auto)
  let ?T2 = "?T1[y := (?T1 ! y)\<lparr>link := int i\<rparr>]"
  have ly: "links_of T y = -1" "links_of T i = -1"
    using chain_tail_link [OF zs(1) ne] ti(1) by (simp_all add: y_def no_node_def)
  have l2: "links_of ?T2 = (links_of T)(i := links_of T y, y := int i)"
    using y(2,4) len i(1) ly ti(1)
    by (auto simp: fun_eq_iff nth_list_update node_of_def no_node_def)
  have keys: "holds_key ks (?T2 ! z) k = holds_key ks (T ! z) k" if "z \<noteq> i" for z k
    using that y(2) len by (cases "z = y") (simp_all add: nth_list_update)
  have ki: "holds_key ks (?T2 ! i) q"
    using y(4) i(1) len q(1) by (simp add: holds_node)
  have rows: "rowno (?T2 ! z) = (if z = i then rowno (node_of ks q (-1)) else rowno (T ! z))" for z
    using y i(1) len by (cases "z = y") (auto simp: nth_list_update)
  have full: "full_chain ks H L ?T2 j" if j: "j < n" "rowno (?T2 ! j) \<noteq> -1" for j
  proof (cases "j = i")
    case True
    have "chain (links_of ?T2) (int i) [i]" unfolding l2 using y(4) ly by simp
    then show ?thesis
      unfolding full_chain_def True using ti(2) i len rows node_rowno [of ks q "-1"]
      by (intro exI [of _ "[i]"]) auto
  next
    case False
    then have "rowno (T ! j) \<noteq> -1" using j rows by simp
    then obtain us where us: "chain (links_of T) (int j) us"
        "\<forall>z\<in>set us. z < n \<and> rowno (T ! z) \<noteq> -1"
        "\<forall>k\<in>set ks. H k = j \<longrightarrow> k \<in> set (L @ [q]) \<or> (\<exists>z\<in>set us. holds_key ks (T ! z) k)"
      using table_ok_full [OF t j(1)] by metis
    have iu: "i \<notin> set us" using us(2) i(2) by blast
    let ?vs = "if y \<in> set us then takeWhile (\<lambda>x. x \<noteq> y) us @ y # i # tl (dropWhile (\<lambda>x. x \<noteq> y) us) else us"
    have c: "chain (links_of ?T2) (int j) ?vs"
      unfolding l2 by (rule chain_insert [OF us(1) iu y(4)])
    have vs: "set ?vs = (if y \<in> set us then insert i (set us) else set us)"
    proof (cases "y \<in> set us")
      case True
      then have "us = takeWhile (\<lambda>x. x \<noteq> y) us @ y # tl (dropWhile (\<lambda>x. x \<noteq> y) us)"
        by (metis (mono_tags, lifting) hd_dropWhile dropWhile_eq_Nil_conv list.collapse takeWhile_dropWhile_id)
      then have "set us = set (takeWhile (\<lambda>x. x \<noteq> y) us) \<union> insert y (set (tl (dropWhile (\<lambda>x. x \<noteq> y) us)))"
        by (metis list.simps(15) set_append)
      then show ?thesis using True by auto
    qed simp
    have "\<forall>k\<in>set ks. H k = j \<longrightarrow> k \<in> set L \<or> (\<exists>z\<in>set ?vs. holds_key ks (?T2 ! z) k)"
    proof (intro ballI impI)
      fix k assume k: "k \<in> set ks" "H k = j"
      show "k \<in> set L \<or> (\<exists>z\<in>set ?vs. holds_key ks (?T2 ! z) k)"
      proof (cases "k = q")
        case True
        then have "us = zs" using chain_unique [OF us(1)] zs(1) k(2) by simp
        then have "i \<in> set ?vs" using vs y(1) by simp
        then show ?thesis using ki True by blast
      next
        case False
        then have "k \<in> set L \<or> (\<exists>z\<in>set us. holds_key ks (T ! z) k)" using us(3) k by auto
        moreover have "set us \<subseteq> set ?vs" using vs by auto
        moreover have "holds_key ks (?T2 ! z) k" if "z \<in> set us" "holds_key ks (T ! z) k" for z
          using that iu keys [of z k] by (cases "z = i") auto
        ultimately show ?thesis by (meson subsetD)
      qed
    qed
    moreover have "\<forall>z\<in>set ?vs. z < n \<and> rowno (?T2 ! z) \<noteq> -1"
      unfolding vs using us(2) i(1) rows node_rowno by auto
    ultimately show ?thesis using c len unfolding full_chain_def
      by (intro exI [of _ ?vs]) simp
  qed
  have "table_ok ks H n L ?T2"
    unfolding table_ok_def
  proof (intro conjI allI impI)
    show "length ?T2 = n" using len by simp
    fix j assume j: "j < n"
    show "if rowno (?T2 ! j) = -1 then ?T2 ! j = no_node \<and> j \<notin> H ` set ks
      else (\<exists>k. holds_key ks (?T2 ! j) k) \<and> full_chain ks H L ?T2 j"
    proof (cases "rowno (?T2 ! j) = -1")
      case True
      then have "j \<noteq> i" using rows node_rowno by auto
      moreover have "j \<noteq> y" using True rows [of j] y(3,4) by auto
      ultimately have "?T2 ! j = T ! j" by simp
      then show ?thesis using t j True by (simp add: table_ok_def)
    next
      case False
      have "\<exists>k. holds_key ks (?T2 ! j) k"
      proof (cases "j = i")
        case ji: False
        then have "rowno (T ! j) \<noteq> -1" using False rows by simp
        then show ?thesis using t j keys [OF ji] by (simp add: table_ok_def)
      qed (use ki in auto)
      then show ?thesis using False full [OF j] by simp
    qed
  qed
  then show ?thesis using ce by blast
qed


lemma place_conflicts_ok:
  assumes "table_ok ks H n L T" "set L \<subseteq> set ks" "\<forall>k\<in>set L. H k < n" "is = [i..<n]" "i \<le> n"
    "length L \<le> length (filter (\<lambda>j. rowno (T ! j) = -1) is)"
  shows "\<exists>T'. place_conflicts T (map (\<lambda>k. node_of ks k (int (H k))) L) is = Some T' \<and> table_ok ks H n [] T'"
  using assms
proof (induction "is" arbitrary: i L T)
  case Nil
  then show ?case by simp
next
  case (Cons j js)
  have j: "j = i" "i < n" and js: "js = [Suc i..<n]"
    using Cons.prems(4) by (cases "i < n"; simp add: upt_conv_Cons)+
  show ?case
  proof (cases "L = [] \<or> rowno (T ! i) \<noteq> -1")
    case True
    show ?thesis
    proof (cases "L = []")
      case True
      then show ?thesis using Cons.prems(1) by simp
    next
      case False
      then have occ: "rowno (T ! i) \<noteq> -1" using True by simp
      then have "rowno (T ! i) > -1"
        using table_ok_holds [OF Cons.prems(1) j(2)] by (auto simp: holds_key_def)
      moreover have "length L \<le> length (filter (\<lambda>j. rowno (T ! j) = -1) js)"
        using Cons.prems(6) occ j(1) by simp
      ultimately show ?thesis
        using Cons.IH [OF Cons.prems(1-3) js] False j by simp
    qed
  next
    case False
    then obtain L1 q where L: "L = L1 @ [q]" by (cases L rule: rev_cases) auto
    have e: "rowno (T ! i) = -1" using False by simp
    have q: "q \<in> set ks" "H q < n" using Cons.prems(2,3) L by auto
    let ?T1 = "T[i := node_of ks q (-1)]"
    obtain y where y: "chain_end ?T1 (int (H q)) = Some y"
        "table_ok ks H n L1 (?T1[y := (?T1 ! y)\<lparr>link := int i\<rparr>])"
      using place_conflict [OF Cons.prems(1) [unfolded L] q j(2) e] by blast
    let ?T2 = "?T1[y := (?T1 ! y)\<lparr>link := int i\<rparr>]"
    have "rowno (?T2 ! m) = rowno (T ! m)" if "m \<in> set js" for m
    proof -
      have "m \<noteq> i" using that js by auto
      then show ?thesis by (cases "m = y"; cases "y < length T") (simp_all add: list_update_beyond)
    qed
    then have "filter (\<lambda>j. rowno (?T2 ! j) = -1) js = filter (\<lambda>j. rowno (T ! j) = -1) js"
      by (intro filter_cong) auto
    then have "length L1 \<le> length (filter (\<lambda>j. rowno (?T2 ! j) = -1) js)"
      using Cons.prems(6) L e j(1) by simp
    then obtain T' where T': "place_conflicts ?T2 (map (\<lambda>k. node_of ks k (int (H k))) L1) js = Some T'"
        "table_ok ks H n [] T'"
      using Cons.IH [OF y(2) _ _ js] Cons.prems(2,3) L j(2) by auto
    have "(node_of ks q (int (H q)))\<lparr>link := -1\<rparr> = node_of ks q (-1)"
      "link (node_of ks q (int (H q))) = int (H q)"
      by (simp_all add: node_of_def)
    then show ?thesis using T' y(1) L e j(1) by (simp add: Let_def)
  qed
qed

text \<open>The search follows the chain to the slot of the key.\<close>

lemma find_slot_chain:
  assumes "keyed para K H n"
  shows "chain (links_of T) p zs \<Longrightarrow> zs \<noteq> [] \<Longrightarrow>
    \<forall>z\<in>set zs. z < length T \<and> 0 \<le> rowno (T ! z) \<and> nat (rowno (T ! z)) < length (data para) \<Longrightarrow>
    find_slot para T key p = Some (map_option (\<lambda>z. T ! z)
      (find (\<lambda>z. K (data para ! nat (rowno (T ! z))) = K key) zs))"
proof (induction zs arbitrary: p)
  case (Cons z zs)
  have p: "p = int z" "z < length T" "0 \<le> rowno (T ! z)" "nat (rowno (T ! z)) < data_count para"
    using Cons.prems by (auto simp: data_count_def)
  have cmp: "key_cmp para (data para ! nat (rowno (T ! z))) key = 0 \<longleftrightarrow>
      K (data para ! nat (rowno (T ! z))) = K key"
    using assms by (simp add: keyed_def)
  show ?case
  proof (cases "K (data para ! nat (rowno (T ! z))) = K key")
    case True
    then show ?thesis using p cmp by (subst find_slot.simps) simp
  next
    case False
    show ?thesis
    proof (cases "zs = []")
      case True
      then have "link (T ! z) = -1" using Cons.prems(1) by simp
      then show ?thesis using False True p cmp by (subst find_slot.simps) simp
    next
      case ne: False
      then have "0 \<le> link (T ! z)" using Cons.prems(1) by (cases zs) auto
      then show ?thesis
        using False ne p cmp Cons by (subst find_slot.simps) simp
    qed
  qed
qed simp


subsection \<open>Properties\<close>

lemma multi_hash_builds:
  assumes k: "keyed para K H n" and ks: "ks = map K (data para)" and g: "distinct (remdups_adj ks)"
    and c: "card (set ks) \<le> n"
  shows "\<exists>T. multi_hash True True (Some para) =
      Some (int (card (set ks)) - int (card (H ` set ks)), Some (para\<lparr>index := Some T\<rparr>)) \<and>
    table_ok ks H n [] T"
proof -
  let ?D = "remdups_adj ks" and ?L = "late H {} (remdups_adj ks)"
  have start: "tab H n [] = replicate n no_node" "stk H [] = []"
    by (simp_all add: tab_def stk_def home_def map_replicate_const)
  have n: "nat (key_count para) = n" using k by (simp add: keyed_def)
  have Hn: "H x < n" if "x \<in> set ks" for x using that k ks by (auto simp: keyed_def)
  have rows: "place_rows para (replicate n no_node) [] [0..<data_count para] = Some (tab H n ks, stk H ks)"
    using place_rows_ok [OF k, of 0] g c start ks by (simp add: data_count_def)
  have lens: "length ?L + card (H ` set ks) = card (set ks)"
    using late_count [of "{}" H ?D] distinct_card [OF g] by simp
  have sub: "set ?L \<subseteq> set ks" using set_late [of H "{}" ?D] by simp
  have "length (filter (\<lambda>j. rowno (tab H n ks ! j) = -1) [0..<n]) = n - card (H ` set ks)"
  proof -
    have "rowno (tab H n ks ! j) = -1 \<longleftrightarrow> j \<notin> H ` set ks" if "j < n" for j
      using that home_None [of H ks j] node_rowno
      by (cases "home H ks j") (simp_all add: tab_nth no_node_def)
    then have "filter (\<lambda>j. rowno (tab H n ks ! j) = -1) [0..<n] = filter (\<lambda>j. j \<notin> H ` set ks) [0..<n]"
      by (intro filter_cong) auto
    also have "length \<dots> = card ({0..<n} - H ` set ks)"
      by (subst distinct_card [symmetric]) (auto intro: arg_cong [where f = card])
    also have "\<dots> = n - card (H ` set ks)"
      using Hn by (subst card_Diff_subset) auto
    finally show ?thesis .
  qed
  then have "length ?L \<le> length (filter (\<lambda>j. rowno (tab H n ks ! j) = -1) [0..<n])"
    using lens c by linarith
  then obtain T where T: "place_conflicts (tab H n ks) (stk H ks) [0..<n] = Some T" "table_ok ks H n [] T"
    using place_conflicts_ok [OF tab_ok sub _ refl, where n = n] Hn sub unfolding stk_def by blast
  have "int (length (stk H ks)) = int (card (set ks)) - int (card (H ` set ks))"
    using lens by (simp add: stk_def)
  then show ?thesis using rows T n by (intro exI [of _ T]) (simp add: multi_hash_def)
qed

lemma multi_hash_found:
  assumes k: "keyed para K H n" and ks: "ks = map K (data para)" and t: "table_ok ks H n [] T"
  shows "multi_hash_find key (Some (para\<lparr>index := Some T\<rparr>)) =
    Some (if K key \<in> set ks then (int (first_row ks (K key)), int (count_list ks (K key))) else (-1, 0))"
proof -
  let ?P = "para\<lparr>index := Some T\<rparr>"
  have kP: "keyed ?P K H n" using k by (simp add: keyed_def)
  have h: "do_hash para key (key_count para) = int (H (K key))" "H (K key) < n"
    using k by (auto simp: keyed_def)
  have len: "length T = n" using t by (simp add: table_ok_def)
  show ?thesis
  proof (cases "rowno (T ! H (K key)) = -1")
    case True
    then have "K key \<notin> set ks" using t h(2) by (auto simp: table_ok_def)
    moreover have "find_slot ?P T key (int (H (K key))) = Some (Some (T ! H (K key)))"
      using True h len by (subst find_slot.simps) simp
    ultimately show ?thesis using True h by (simp add: multi_hash_find_def)
  next
    case False
    obtain zs where zs: "chain (links_of T) (int (H (K key))) zs"
        "\<forall>z\<in>set zs. z < n \<and> rowno (T ! z) \<noteq> -1"
        "\<forall>k\<in>set ks. H k = H (K key) \<longrightarrow> (\<exists>z\<in>set zs. holds_key ks (T ! z) k)"
      using table_ok_full [OF t h(2) False] by simp metis
    have ne: "zs \<noteq> []" using zs(1) by (cases zs) auto
    have held: "\<exists>k. holds_key ks (T ! z) k" if "z \<in> set zs" for z
      using table_ok_holds [OF t, of z] zs(2) that by blast
    have row: "0 \<le> rowno (T ! z) \<and> nat (rowno (T ! z)) < length (data para) \<and>
        K (data para ! nat (rowno (T ! z))) = k" if "holds_key ks (T ! z) k" for z k
      using that first_row_nth [of k ks] ks by (auto simp: holds_key_def)
    have zr: "\<forall>z\<in>set zs. z < length T \<and> 0 \<le> rowno (T ! z) \<and> nat (rowno (T ! z)) < length (data ?P)"
    proof
      fix z assume z: "z \<in> set zs"
      then obtain k where "holds_key ks (T ! z) k" using held by blast
      then show "z < length T \<and> 0 \<le> rowno (T ! z) \<and> nat (rowno (T ! z)) < length (data ?P)"
        using row [of z k] zs(2) z len by simp
    qed
    note fs = find_slot_chain [OF kP zs(1) ne zr, of key, simplified]
    show ?thesis
    proof (cases "find (\<lambda>z. K (data para ! nat (rowno (T ! z))) = K key) zs")
      case None
      have "K key \<notin> set ks"
      proof
        assume "K key \<in> set ks"
        then obtain z where "z \<in> set zs" "holds_key ks (T ! z) (K key)" using zs(3) by blast
        then show False using None row [of z "K key"] by (auto simp: find_None_iff)
      qed
      then show ?thesis using None fs h by (simp add: multi_hash_find_def)
    next
      case (Some z)
      note fz = find_mem [OF Some]
      then obtain k where k: "holds_key ks (T ! z) k" using held by blast
      then have "k = K key" using row [OF k] fz by simp
      then show ?thesis using Some fs h k by (simp add: multi_hash_find_def holds_key_def)
    qed
  qed
qed

text \<open>C39: on rows whose equal keys are neighbours, with no more keys than \<open>key_count\<close> and
  callbacks that hash into the table, \<open>multi_hash\<close> builds a table, reports the number of keys
  in conflict, and \<open>multi_hash_find\<close> then returns, for every key, the first row that has it
  with the number of such rows, or -1 and 0 when none has.\<close>

theorem multi_hash_finds_groups:
  assumes "keyed para K H n" "distinct (remdups_adj (map K (data para)))"
    "card (K ` set (data para)) \<le> n"
  shows "\<exists>para'. multi_hash True True (Some para) =
      Some (int (card (K ` set (data para))) - int (card (H ` K ` set (data para))), Some para') \<and>
    (\<forall>key. multi_hash_find key (Some para') =
      Some (if K key \<in> K ` set (data para)
            then (int (length (takeWhile (\<lambda>x. K x \<noteq> K key) (data para))),
                  int (length (filter (\<lambda>x. K x = K key) (data para))))
            else (-1, 0)))"
proof -
  obtain T where T: "multi_hash True True (Some para) =
      Some (int (card (K ` set (data para))) - int (card (H ` K ` set (data para))),
        Some (para\<lparr>index := Some T\<rparr>))" "table_ok (map K (data para)) H n [] T"
    using multi_hash_builds [OF assms(1) refl assms(2)] assms(3) by auto
  have "first_row (map K (data para)) k = length (takeWhile (\<lambda>x. K x \<noteq> k) (data para))"
    "count_list (map K (data para)) k = length (filter (\<lambda>x. K x = k) (data para))" for k
    by (simp_all add: first_row_def takeWhile_map o_def count_list_eq_length_filter filter_map eq_commute)
  then show ?thesis using T multi_hash_found [OF assms(1) refl T(2)] by auto
qed

definition six_rows :: "(int \<times> int) hash_paramiter" where
  "six_rows = \<lparr>data = [(7, 0), (7, 1), (2, 0), (12, 0), (12, 1), (12, 2)], key_count = 5,
     do_hash = (\<lambda>x m. fst x mod 5 mod m), key_cmp = (\<lambda>x y. fst x - fst y), index = None\<rparr>"

theorem multi_hash_finds_groups_witness:
  "\<exists>para'. multi_hash True True (Some six_rows) = Some (2, Some para') \<and>
     multi_hash_find (12, 0) (Some para') = Some (3, 3) \<and>
     multi_hash_find (2, 0) (Some para') = Some (2, 1) \<and>
     multi_hash_find (17, 0) (Some para') = Some (-1, 0)"
proof -
  have "keyed six_rows fst (\<lambda>k. nat (k mod 5)) 5"
    by (auto simp: keyed_def six_rows_def nat_less_iff)
  moreover have "distinct (remdups_adj (map fst (data six_rows)))"
    "card (fst ` set (data six_rows)) = 3" "card ((\<lambda>k. nat (k mod 5)) ` fst ` set (data six_rows)) = 1"
    by (simp_all add: six_rows_def)
  ultimately obtain para' where "multi_hash True True (Some six_rows) = Some (2, Some para')"
      "\<forall>key. multi_hash_find key (Some para') =
        Some (if fst key \<in> fst ` set (data six_rows)
              then (int (length (takeWhile (\<lambda>x. fst x \<noteq> fst key) (data six_rows))),
                    int (length (filter (\<lambda>x. fst x = fst key) (data six_rows))))
              else (-1, 0))"
    using multi_hash_finds_groups [of six_rows fst "\<lambda>k. nat (k mod 5)" 5] by auto
  then show ?thesis by (intro exI [of _ para']) (simp add: six_rows_def)
qed

end
