(* ===== verification/Crc.thy ===== *)
theory Crc
  imports Sdbc_Prelude
begin

text \<open>The two checksums of \<open>src/crypto\<close>: \<open>gencrc\<close> of \<open>crc.c\<close> (CRC-CCITT, four bits per
  table lookup) and \<open>ssh_crc32\<close> of \<open>crc32.c\<close> (eight bits per lookup), with the bit-serial
  division they are meant to compute and the errors they detect.\<close>

unbundle bit_operations_syntax

definition crctab :: "16 word list" where
  "crctab = [0x0000, 0x1081, 0x2102, 0x3183, 0x4204, 0x5285, 0x6306, 0x7387,
     0x8408, 0x9489, 0xA50A, 0xB58B, 0xC60C, 0xD68D, 0xE70E, 0xF78F]"

text \<open>One byte of \<open>gencrc\<close>, lines 35-40 of the loop: low nibble, then high nibble.\<close>

definition gencrc_byte :: "16 word \<Rightarrow> byte \<Rightarrow> 16 word" where
  "gencrc_byte crctmp p =
     (let tmpchar = ucast p :: 16 word;
          index = unat ((crctmp XOR tmpchar) AND 0x000f);
          crctmp = (drop_bit 4 crctmp AND 0xfff) XOR crctab ! index;
          tmpchar = drop_bit 4 tmpchar;
          index = unat ((crctmp XOR tmpchar) AND 0x000f)
      in (drop_bit 4 crctmp AND 0xfff) XOR crctab ! index)"

definition gencrc :: "bytes \<Rightarrow> 16 word" where
  "gencrc p = NOT (fold (\<lambda>b crctmp. gencrc_byte crctmp b) p 0xFFFF)"

definition crc32_tab :: "32 word list" where
  "crc32_tab =
    [0x00000000, 0x77073096, 0xee0e612c, 0x990951ba, 0x076dc419, 0x706af48f,
     0xe963a535, 0x9e6495a3, 0x0edb8832, 0x79dcb8a4, 0xe0d5e91e, 0x97d2d988,
     0x09b64c2b, 0x7eb17cbd, 0xe7b82d07, 0x90bf1d91, 0x1db71064, 0x6ab020f2,
     0xf3b97148, 0x84be41de, 0x1adad47d, 0x6ddde4eb, 0xf4d4b551, 0x83d385c7,
     0x136c9856, 0x646ba8c0, 0xfd62f97a, 0x8a65c9ec, 0x14015c4f, 0x63066cd9,
     0xfa0f3d63, 0x8d080df5, 0x3b6e20c8, 0x4c69105e, 0xd56041e4, 0xa2677172,
     0x3c03e4d1, 0x4b04d447, 0xd20d85fd, 0xa50ab56b, 0x35b5a8fa, 0x42b2986c,
     0xdbbbc9d6, 0xacbcf940, 0x32d86ce3, 0x45df5c75, 0xdcd60dcf, 0xabd13d59,
     0x26d930ac, 0x51de003a, 0xc8d75180, 0xbfd06116, 0x21b4f4b5, 0x56b3c423,
     0xcfba9599, 0xb8bda50f, 0x2802b89e, 0x5f058808, 0xc60cd9b2, 0xb10be924,
     0x2f6f7c87, 0x58684c11, 0xc1611dab, 0xb6662d3d, 0x76dc4190, 0x01db7106,
     0x98d220bc, 0xefd5102a, 0x71b18589, 0x06b6b51f, 0x9fbfe4a5, 0xe8b8d433,
     0x7807c9a2, 0x0f00f934, 0x9609a88e, 0xe10e9818, 0x7f6a0dbb, 0x086d3d2d,
     0x91646c97, 0xe6635c01, 0x6b6b51f4, 0x1c6c6162, 0x856530d8, 0xf262004e,
     0x6c0695ed, 0x1b01a57b, 0x8208f4c1, 0xf50fc457, 0x65b0d9c6, 0x12b7e950,
     0x8bbeb8ea, 0xfcb9887c, 0x62dd1ddf, 0x15da2d49, 0x8cd37cf3, 0xfbd44c65,
     0x4db26158, 0x3ab551ce, 0xa3bc0074, 0xd4bb30e2, 0x4adfa541, 0x3dd895d7,
     0xa4d1c46d, 0xd3d6f4fb, 0x4369e96a, 0x346ed9fc, 0xad678846, 0xda60b8d0,
     0x44042d73, 0x33031de5, 0xaa0a4c5f, 0xdd0d7cc9, 0x5005713c, 0x270241aa,
     0xbe0b1010, 0xc90c2086, 0x5768b525, 0x206f85b3, 0xb966d409, 0xce61e49f,
     0x5edef90e, 0x29d9c998, 0xb0d09822, 0xc7d7a8b4, 0x59b33d17, 0x2eb40d81,
     0xb7bd5c3b, 0xc0ba6cad, 0xedb88320, 0x9abfb3b6, 0x03b6e20c, 0x74b1d29a,
     0xead54739, 0x9dd277af, 0x04db2615, 0x73dc1683, 0xe3630b12, 0x94643b84,
     0x0d6d6a3e, 0x7a6a5aa8, 0xe40ecf0b, 0x9309ff9d, 0x0a00ae27, 0x7d079eb1,
     0xf00f9344, 0x8708a3d2, 0x1e01f268, 0x6906c2fe, 0xf762575d, 0x806567cb,
     0x196c3671, 0x6e6b06e7, 0xfed41b76, 0x89d32be0, 0x10da7a5a, 0x67dd4acc,
     0xf9b9df6f, 0x8ebeeff9, 0x17b7be43, 0x60b08ed5, 0xd6d6a3e8, 0xa1d1937e,
     0x38d8c2c4, 0x4fdff252, 0xd1bb67f1, 0xa6bc5767, 0x3fb506dd, 0x48b2364b,
     0xd80d2bda, 0xaf0a1b4c, 0x36034af6, 0x41047a60, 0xdf60efc3, 0xa867df55,
     0x316e8eef, 0x4669be79, 0xcb61b38c, 0xbc66831a, 0x256fd2a0, 0x5268e236,
     0xcc0c7795, 0xbb0b4703, 0x220216b9, 0x5505262f, 0xc5ba3bbe, 0xb2bd0b28,
     0x2bb45a92, 0x5cb36a04, 0xc2d7ffa7, 0xb5d0cf31, 0x2cd99e8b, 0x5bdeae1d,
     0x9b64c2b0, 0xec63f226, 0x756aa39c, 0x026d930a, 0x9c0906a9, 0xeb0e363f,
     0x72076785, 0x05005713, 0x95bf4a82, 0xe2b87a14, 0x7bb12bae, 0x0cb61b38,
     0x92d28e9b, 0xe5d5be0d, 0x7cdcefb7, 0x0bdbdf21, 0x86d3d2d4, 0xf1d4e242,
     0x68ddb3f8, 0x1fda836e, 0x81be16cd, 0xf6b9265b, 0x6fb077e1, 0x18b74777,
     0x88085ae6, 0xff0f6a70, 0x66063bca, 0x11010b5c, 0x8f659eff, 0xf862ae69,
     0x616bffd3, 0x166ccf45, 0xa00ae278, 0xd70dd2ee, 0x4e048354, 0x3903b3c2,
     0xa7672661, 0xd06016f7, 0x4969474d, 0x3e6e77db, 0xaed16a4a, 0xd9d65adc,
     0x40df0b66, 0x37d83bf0, 0xa9bcae53, 0xdebb9ec5, 0x47b2cf7f, 0x30b5ffe9,
     0xbdbdf21c, 0xcabac28a, 0x53b39330, 0x24b4a3a6, 0xbad03605, 0xcdd70693,
     0x54de5729, 0x23d967bf, 0xb3667a2e, 0xc4614ab8, 0x5d681b02, 0x2a6f2b94,
     0xb40bbe37, 0xc30c8ea1, 0x5a05df1b, 0x2d02ef8d]"

definition ssh_crc32 :: "bytes \<Rightarrow> 32 word" where
  "ssh_crc32 s =
     fold (\<lambda>b crc32val. crc32_tab ! unat ((crc32val XOR ucast b) AND 0xff) XOR drop_bit 8 crc32val) s 0"

subsection \<open>Bit-serial division\<close>

text \<open>One step of the shift register for the reversed polynomial \<open>poly\<close>.\<close>

definition crc_step :: "'a::len word \<Rightarrow> 'a word \<Rightarrow> 'a word" where
  "crc_step poly w = drop_bit 1 w XOR (if bit w 0 then poly else 0)"

fun crc_steps :: "nat \<Rightarrow> 'a::len word \<Rightarrow> 'a word \<Rightarrow> 'a word" where
  "crc_steps 0 poly w = w"
| "crc_steps (Suc n) poly w = crc_steps n poly (crc_step poly w)"

definition crc_bytes :: "'a::len word \<Rightarrow> bytes \<Rightarrow> 'a word \<Rightarrow> 'a word" where
  "crc_bytes poly p c = fold (\<lambda>b c. crc_steps 8 poly (c XOR ucast b)) p c"

lemma crc_step_xor: "crc_step poly (a XOR b) = crc_step poly a XOR crc_step poly b"
  by (auto simp: crc_step_def bit_xor_iff drop_bit_xor bit_eq_iff)

lemma crc_steps_xor: "crc_steps n poly (a XOR b) = crc_steps n poly a XOR crc_steps n poly b"
  by (induction n arbitrary: a b) (auto simp: crc_step_xor)

lemma crc_steps_add: "crc_steps (m + n) poly w = crc_steps n poly (crc_steps m poly w)"
  by (induction m arbitrary: w) auto

lemma crc_steps_shift: "take_bit n w = 0 \<Longrightarrow> crc_steps n poly w = drop_bit n w"
proof (induction n arbitrary: w)
  case (Suc n)
  then have bits: "\<not> bit w k" if "k < Suc n" for k
    using that by (metis bit_take_bit_iff bit_0_eq bot_apply bot_bool_def)
  then have "take_bit n (drop_bit 1 w) = 0"
    by (intro bit_eqI) (auto simp: bit_take_bit_iff bit_drop_bit_eq)
  moreover have "crc_step poly w = drop_bit 1 w" using bits [of 0] by (simp add: crc_step_def)
  ultimately show ?case using Suc.IH by (simp add: add.commute)
qed simp

text \<open>A table lookup on the low n bits does n steps at once.\<close>

lemma crc_steps_table:
  "crc_steps n poly w = drop_bit n w XOR crc_steps n poly (take_bit n w)"
proof -
  have "w = (w AND NOT (mask n)) XOR take_bit n w"
    by (rule bit_eqI) (auto simp: bit_take_bit_iff bit_and_iff bit_not_iff bit_xor_iff bit_mask_iff)
  then have "crc_steps n poly w = crc_steps n poly (w AND NOT (mask n)) XOR crc_steps n poly (take_bit n w)"
    by (metis crc_steps_xor)
  moreover have "take_bit n (w AND NOT (mask n)) = 0"
    by (rule bit_eqI) (auto simp: bit_take_bit_iff bit_and_iff bit_not_iff bit_mask_iff)
  moreover have "drop_bit n (w AND NOT (mask n)) = drop_bit n w"
    by (rule bit_eqI) (auto simp: bit_drop_bit_eq bit_and_iff bit_not_iff bit_mask_iff dest: bit_imp_le_length)
  ultimately show ?thesis by (simp add: crc_steps_shift)
qed

lemma crctab_steps: "crctab = map (\<lambda>i. crc_steps 4 0x8408 (of_nat i)) [0..<16]"
  by code_simp

text \<open>The large table from the entries of the powers of two.\<close>

lemma of_nat_split:
  assumes "j < 2 ^ k"
  shows "(of_nat (2 ^ k + j) :: 'a::len word) = of_nat (2 ^ k) XOR of_nat j"
proof -
  have "(of_nat (2 ^ k) :: 'a word) AND of_nat j = 0"
  proof (rule bit_word_eqI)
    fix n assume "n < LENGTH('a)"
    have "\<not> bit j k" using assms by (metis bit_take_bit_iff less_irrefl take_bit_nat_eq_self)
    then show "bit (of_nat (2 ^ k) AND of_nat j :: 'a word) n = bit (0::'a word) n"
      by (auto simp: bit_and_iff bit_of_nat_iff bit_exp_iff)
  qed
  then show ?thesis by (simp only: of_nat_add disjunctive_add_eq_xor)
qed

lemma xor_table_step:
  assumes "\<And>a b. f (a XOR b) = f a XOR f b"
  shows "map (\<lambda>i. f (of_nat i :: 'a::len word)) [0..<2 ^ Suc k] =
    map (\<lambda>i. f (of_nat i)) [0..<2 ^ k] @ map (\<lambda>i. f (of_nat (2 ^ k)) XOR f (of_nat i)) [0..<2 ^ k]"
proof -
  have "[0..<2 ^ Suc k] = [0..<2 ^ k] @ map (\<lambda>i. 2 ^ k + i) [0..<2 ^ k]"
    using upt_add_eq_append [of 0 "2 ^ k" "2 ^ k"] by (simp add: map_add_upt mult_2 add.commute)
  then show ?thesis
    using of_nat_split [of _ k, where 'a = 'a] by (simp add: assms [symmetric] del: of_nat_add of_nat_power)
qed

definition xor_grow :: "'a::len word list \<Rightarrow> 'a word \<Rightarrow> 'a word list" where
  "xor_grow t b = t @ map (\<lambda>x. b XOR x) t"

lemma crc32_tab_grow:
  "crc32_tab = foldl xor_grow [0] [0x77073096, 0xee0e612c, 0x076dc419, 0x0edb8832, 0x1db71064, 0x3b6e20c8, 0x76dc4190, 0xedb88320]"
  by (simp add: crc32_tab_def xor_grow_def)
lemma crc32_basis: "map (\<lambda>k. crc_steps 8 (0xEDB88320::32 word) (of_nat (2 ^ k))) [0..<8] = [0x77073096, 0xee0e612c, 0x076dc419, 0x0edb8832, 0x1db71064, 0x3b6e20c8, 0x76dc4190, 0xedb88320]"
  by code_simp

lemma xor_grow_steps:
  "foldl xor_grow (map (\<lambda>i. crc_steps n poly (of_nat i)) [0..<2 ^ m])
      (map (\<lambda>k. crc_steps n poly (of_nat (2 ^ k))) [m..<m + j])
    = map (\<lambda>i. crc_steps n poly (of_nat i)) [0..<2 ^ (m + j)]"
proof (induction j arbitrary: m)
  case (Suc j)
  have "xor_grow (map (\<lambda>i. crc_steps n poly (of_nat i)) [0..<2 ^ m]) (crc_steps n poly (of_nat (2 ^ m)))
      = map (\<lambda>i. crc_steps n poly (of_nat i)) [0..<2 ^ Suc m]"
    by (simp only: xor_table_step [of "crc_steps n poly", OF crc_steps_xor] xor_grow_def map_map comp_def)
  moreover have "[m..<m + Suc j] = m # [Suc m..<Suc m + j]"
    by (simp add: upt_conv_Cons)
  ultimately show ?case using Suc [of "Suc m"]
    by (simp only: list.map foldl_Cons add_Suc_right add_Suc)
qed simp

lemma crc_steps_zero: "crc_steps n poly 0 = 0"
  by (induction n) (auto simp: crc_step_def)

lemma crc32_tab_steps: "crc32_tab = map (\<lambda>i. crc_steps 8 0xEDB88320 (of_nat i)) [0..<256]"
proof -
  have "map (\<lambda>i. crc_steps 8 (0xEDB88320::32 word) (of_nat i)) [0..<2 ^ 0] = [0]"
    by (simp add: crc_steps_zero)
  moreover have "foldl xor_grow (map (\<lambda>i. crc_steps 8 (0xEDB88320::32 word) (of_nat i)) [0..<2 ^ 0])
      (map (\<lambda>k. crc_steps 8 0xEDB88320 (of_nat (2 ^ k))) [0..<0 + 8])
    = map (\<lambda>i. crc_steps 8 0xEDB88320 (of_nat i)) [0..<2 ^ (0 + 8)]"
    by (rule xor_grow_steps)
  moreover have "(2::nat) ^ (0 + 8) = 256" by simp
  ultimately show ?thesis unfolding crc32_tab_grow by (simp only: crc32_basis add_0)
qed

subsection \<open>The table-driven routines are bit-serial division\<close>

text \<open>A lookup with an index of n bits.\<close>

lemma table_lookup:
  assumes "tab = map (\<lambda>i. crc_steps n poly (of_nat i)) [0..<2 ^ n]"
  shows "tab ! unat (take_bit n w) = crc_steps n poly (take_bit n (w :: 'a::len word))"
proof -
  have "unat (take_bit n w) < 2 ^ n" by (simp add: unsigned_take_bit_eq)
  then show ?thesis by (simp add: assms)
qed

lemma gencrc_byte_steps: "gencrc_byte c b = crc_steps 8 0x8408 (c XOR ucast b)"
proof -
  have tab: "crctab ! unat (w AND 0x000f) = crc_steps 4 0x8408 (take_bit 4 w)" for w :: "16 word"
  proof -
    have "w AND 0x000f = take_bit 4 w" by (simp add: take_bit_eq_mask mask_eq_exp_minus_1)
    then show ?thesis using table_lookup [of crctab 4 "0x8408" w] by (simp add: crctab_steps)
  qed
  have high: "drop_bit 4 w AND 0xfff = drop_bit 4 w" for w :: "16 word"
  proof -
    have "drop_bit 4 w AND mask 12 = drop_bit 4 w"
      by (rule bit_eqI) (auto simp: bit_and_iff bit_mask_iff bit_drop_bit_eq dest: bit_imp_le_length)
    then show ?thesis by (simp add: mask_eq_exp_minus_1)
  qed
  let ?b = "ucast b :: 16 word"
  let ?c = "drop_bit 4 c XOR crc_steps 4 0x8408 (take_bit 4 (c XOR ?b))"
  have "crc_steps 4 0x8408 (c XOR ?b) = ?c XOR drop_bit 4 ?b"
    by (subst crc_steps_table) (simp add: drop_bit_xor ac_simps)
  moreover have "crc_steps 4 0x8408 (?c XOR drop_bit 4 ?b) =
      drop_bit 4 ?c XOR crc_steps 4 0x8408 (take_bit 4 (?c XOR drop_bit 4 ?b))"
  proof -
    have "drop_bit 4 (drop_bit 4 ?b) = 0"
      by (rule bit_eqI) (auto simp: bit_drop_bit_eq bit_ucast_iff dest: bit_imp_le_length)
    then show ?thesis by (subst crc_steps_table) (simp add: drop_bit_xor)
  qed
  moreover have "crc_steps 8 0x8408 (c XOR ?b) = crc_steps 4 0x8408 (crc_steps 4 0x8408 (c XOR ?b))"
    using crc_steps_add [of 4 4 "0x8408" "c XOR ?b"] by simp
  ultimately show ?thesis by (simp add: gencrc_byte_def Let_def tab high)
qed

lemma gencrc_bytes: "gencrc p = NOT (crc_bytes 0x8408 p 0xFFFF)"
  by (simp add: gencrc_def crc_bytes_def gencrc_byte_steps)

lemma ssh_crc32_byte:
  "crc32_tab ! unat ((c XOR ucast b) AND 0xff) XOR drop_bit 8 c =
     crc_steps 8 0xEDB88320 (c XOR ucast (b::byte))" for c :: "32 word"
proof -
  have "(c XOR ucast b) AND 0xff = take_bit 8 (c XOR ucast b)"
    by (simp add: take_bit_eq_mask mask_eq_exp_minus_1)
  moreover have "drop_bit 8 (ucast b :: 32 word) = 0"
    by (rule bit_eqI) (auto simp: bit_drop_bit_eq bit_ucast_iff dest: bit_imp_le_length)
  ultimately show ?thesis
    using table_lookup [of crc32_tab 8 "0xEDB88320" "c XOR ucast b"]
    by (subst crc_steps_table) (simp add: crc32_tab_steps drop_bit_xor ac_simps)
qed

lemma ssh_crc32_bytes: "ssh_crc32 p = crc_bytes 0xEDB88320 p 0"
  by (simp add: ssh_crc32_def crc_bytes_def ssh_crc32_byte)

subsection \<open>Detected errors\<close>

text \<open>With a polynomial whose top bit is set a step loses nothing.\<close>

lemma crc_step_inj:
  assumes "bit poly (LENGTH('a) - 1)" "crc_step poly a = crc_step poly (b :: 'a::len word)"
  shows "a = b"
proof -
  have top: "bit (crc_step poly w) (LENGTH('a) - 1) = bit w 0" for w :: "'a word"
    using assms(1) by (auto simp: crc_step_def bit_xor_iff bit_drop_bit_eq dest: bit_imp_le_length)
  then have "bit a 0 = bit b 0" using assms(2) by metis
  then have "drop_bit 1 a = drop_bit 1 b" using assms(2) by (auto simp: crc_step_def bit_eq_iff bit_xor_iff)
  moreover have "bit w (Suc n) = bit (drop_bit 1 w) n" for w :: "'a word" and n
    by (simp add: bit_drop_bit_eq)
  ultimately show ?thesis using \<open>bit a 0 = bit b 0\<close>
    by (intro bit_eqI) (metis not0_implies_Suc)
qed

lemma crc_steps_inj:
  assumes "bit poly (LENGTH('a) - 1)"
  shows "crc_steps n poly a = crc_steps n poly (b :: 'a::len word) \<Longrightarrow> a = b"
proof (induction n arbitrary: a b)
  case (Suc n)
  then have "crc_step poly a = crc_step poly b" by simp
  then show ?case by (rule crc_step_inj [OF assms])
qed simp

lemma crc_bytes_Cons: "crc_bytes poly (b # bs) c = crc_bytes poly bs (crc_steps 8 poly (c XOR ucast b))"
  by (simp add: crc_bytes_def)

lemma crc_bytes_Nil [simp]: "crc_bytes poly [] c = c"
  by (simp add: crc_bytes_def)

lemma crc_bytes_append: "crc_bytes poly (xs @ ys) c = crc_bytes poly ys (crc_bytes poly xs c)"
  by (simp add: crc_bytes_def)

lemma xor_cancel: "(a :: 'a::len word) XOR c = b XOR c \<longleftrightarrow> a = b" "c XOR a = c XOR b \<longleftrightarrow> a = b"
  by (auto simp: bit_eq_iff bit_xor_iff)

lemma crc_bytes_inj:
  assumes "bit poly (LENGTH('a) - 1)"
  shows "crc_bytes poly p c = crc_bytes poly p d \<Longrightarrow> c = (d :: 'a::len word)"
proof (induction p arbitrary: c d)
  case (Cons b p)
  then have "crc_steps 8 poly (c XOR ucast b) = crc_steps 8 poly (d XOR ucast b)"
    by (simp add: crc_bytes_Cons)
  then show ?case using crc_steps_inj [OF assms] xor_cancel(1) by blast
qed simp

text \<open>As many bytes as the register is wide are one number, low byte first.\<close>

fun le_bytes :: "bytes \<Rightarrow> 'a::len word" where
  "le_bytes [] = 0"
| "le_bytes (b # bs) = ucast b XOR push_bit 8 (le_bytes bs)"

lemma le_bytes_high: "bit (le_bytes bs :: 'a::len word) k \<Longrightarrow> k < 8 * length bs"
proof (induction bs arbitrary: k)
  case (Cons b bs)
  then show ?case
    by (fastforce simp: bit_xor_iff bit_push_bit_iff bit_ucast_iff dest: bit_imp_le_length)
qed simp

lemma crc_bytes_number:
  "8 * length bs \<le> LENGTH('a) \<Longrightarrow>
     crc_bytes poly bs c = crc_steps (8 * length bs) poly (c XOR (le_bytes bs :: 'a::len word))"
proof (induction bs arbitrary: c)
  case (Cons b bs)
  let ?l = "le_bytes bs :: 'a word"
  have "take_bit 8 (push_bit 8 ?l) = 0"
    by (rule bit_eqI) (auto simp: bit_take_bit_iff bit_push_bit_iff)
  then have "crc_steps 8 poly (push_bit 8 ?l) = drop_bit 8 (push_bit 8 ?l)" by (rule crc_steps_shift)
  also have "\<dots> = ?l"
    using Cons.prems le_bytes_high [of bs, where 'a = 'a]
    by (intro bit_eqI) (force simp: bit_drop_bit_eq bit_push_bit_iff)
  finally have "crc_steps 8 poly (c XOR ucast b) XOR ?l = crc_steps 8 poly (c XOR le_bytes (b # bs))"
    by (simp add: crc_steps_xor flip: xor.assoc)
  moreover have "8 * length (b # bs) = 8 + 8 * length bs" by simp
  ultimately show ?case
    using Cons by (simp add: crc_bytes_Cons crc_steps_add del: le_bytes.simps)
qed simp

lemma le_bytes_inj:
  "length bs = length ds \<Longrightarrow> 8 * length bs \<le> LENGTH('a) \<Longrightarrow>
     (le_bytes bs :: 'a::len word) = le_bytes ds \<Longrightarrow> bs = ds"
proof (induction bs ds rule: list_induct2)
  case (Cons b bs d ds)
  have bits: "bit (ucast b XOR push_bit 8 (le_bytes bs) :: 'a word) k =
      bit (ucast d XOR push_bit 8 (le_bytes ds) :: 'a word) k" for k
    using Cons.prems(2) by simp
  have "bit b k = bit d k" if "k < 8" for k
    using bits [of k] that Cons.prems(1) by (auto simp: bit_xor_iff bit_push_bit_iff bit_ucast_iff)
  then have "b = d" by (intro bit_eqI) (auto dest: bit_imp_le_length)
  moreover have "bit (le_bytes bs :: 'a word) k = bit (le_bytes ds :: 'a word) k" for k
  proof (cases "k < 8 * length bs")
    case True
    then show ?thesis using bits [of "k + 8"] Cons.prems(1) Cons.hyps
      by (auto simp: bit_xor_iff bit_push_bit_iff bit_ucast_iff \<open>b = d\<close>)
  next
    case False
    then show ?thesis using le_bytes_high [of bs k, where 'a = 'a] le_bytes_high [of ds k, where 'a = 'a]
      Cons.hyps by auto
  qed
  then have "(le_bytes bs :: 'a word) = le_bytes ds" by (rule bit_eqI)
  ultimately show ?case using Cons by simp
qed simp

lemma crc_burst:
  assumes "bit poly (LENGTH('a) - 1)" "length e = length e'" "8 * length e \<le> LENGTH('a)" "e \<noteq> e'"
  shows "crc_bytes poly (xs @ e @ ys) c \<noteq> crc_bytes poly (xs @ e' @ ys) (c :: 'a::len word)"
proof
  let ?c = "crc_bytes poly xs c"
  assume "crc_bytes poly (xs @ e @ ys) c = crc_bytes poly (xs @ e' @ ys) c"
  then have "crc_bytes poly e ?c = crc_bytes poly e' ?c"
    using crc_bytes_inj [OF assms(1)] by (simp add: crc_bytes_append)
  then have "?c XOR le_bytes e = ?c XOR le_bytes e'"
    using crc_bytes_number [of e poly ?c] crc_bytes_number [of e' poly ?c] assms(2,3)
      crc_steps_inj [OF assms(1)] by auto
  then have "(le_bytes e :: 'a word) = le_bytes e'" by (simp add: xor_cancel)
  then show False using le_bytes_inj [OF assms(2,3)] assms(4) by blast
qed

subsection \<open>Properties\<close>


text \<open>C18: Two messages of one length that differ only within two adjacent bytes have different
  \<open>gencrc\<close> sums, and two that differ only within four adjacent bytes have different
  \<open>ssh_crc32\<close> sums, whatever surrounds the damage.\<close>

theorem crc_detects_bursts:
  assumes "length e = length e'" "e \<noteq> e'"
  shows "(length e \<le> 2 \<longrightarrow> gencrc (xs @ e @ ys) \<noteq> gencrc (xs @ e' @ ys)) \<and>
    (length e \<le> 4 \<longrightarrow> ssh_crc32 (xs @ e @ ys) \<noteq> ssh_crc32 (xs @ e' @ ys))"
proof -
  have "bit (0x8408 :: 16 word) (LENGTH(16) - 1)" "bit (0xEDB88320 :: 32 word) (LENGTH(32) - 1)"
    by simp_all
  from crc_burst [OF this(1) assms(1) _ assms(2)] crc_burst [OF this(2) assms(1) _ assms(2)]
  show ?thesis by (simp add: gencrc_bytes ssh_crc32_bytes)
qed

theorem crc_detects_bursts_witness:
  "gencrc [1, 2, 3] \<noteq> gencrc [1, 7, 3] \<and> ssh_crc32 [1, 2, 3] \<noteq> ssh_crc32 [1, 7, 3]"
  using crc_detects_bursts [of "[2]" "[7]" "[1]" "[3]"] by simp

end
