(* ===== verification/Enigma.thy ===== *)
theory Enigma
  imports Crc
begin

text \<open>The rotor cipher of \<open>src/crypto/enigma.c\<close> and the strengthened one of
  \<open>src/crypto/enigma2.c\<close>.  The rotors are arrays of 256 signed chars that are only used
  masked to eight bits, so they are lists of bytes and the masked sums are byte arithmetic;
  \<open>int\<close> arithmetic on the seed wraps at 32 bits.  None is the undefined behaviour
  of a remainder by zero, an endless search, or an uninitialised key.\<close>

unbundle bit_operations_syntax

record ENIGMA =
  rot1 :: bytes
  rot2 :: bytes
  refl :: bytes

text \<open>\<open>while(t3[ic]!=0) ic=(ic+1)%k\<close>.\<close>

partial_function (option) find_free :: "bytes \<Rightarrow> nat \<Rightarrow> nat \<Rightarrow> nat option" where
  "find_free t3 k ic = (if t3 ! ic \<noteq> 0 then find_free t3 k ((ic + 1) mod k) else Some ic)"

text \<open>One round of lines 37-53.\<close>

definition init_round :: "bytes \<Rightarrow> nat \<Rightarrow> 32 word \<times> bytes \<times> bytes \<Rightarrow> (32 word \<times> bytes \<times> bytes) option" where
  "init_round bin_key i st =
     (case st of (seed, t1, t3) \<Rightarrow>
        let seed = push_bit 1 seed + scast (bin_key ! (i mod length bin_key));
            random = uint (seed AND 0x7FFFFFFF) mod 65529;
            k = 256 - 1 - i;
            ic = nat (random mod (int k + 1));
            t1 = t1[k := t1 ! ic, ic := t1 ! k]
        in if t3 ! k \<noteq> 0 then Some (seed, t1, t3)
           else if k = 0 then None
           else do {
             ic \<leftarrow> find_free t3 k (nat ((random AND 0xFF) mod int k));
             Some (seed, t1, t3[k := of_nat ic, ic := of_nat k]) })"

fun init_rounds :: "bytes \<Rightarrow> nat list \<Rightarrow> 32 word \<times> bytes \<times> bytes \<Rightarrow> (32 word \<times> bytes \<times> bytes) option" where
  "init_rounds bin_key [] st = Some st"
| "init_rounds bin_key (i # is) st = do { st \<leftarrow> init_round bin_key i st; init_rounds bin_key is st }"

text \<open>\<open>t2[t1[i]&MASK] = i\<close> for every i.\<close>

definition invert_rotor :: "bytes \<Rightarrow> bytes \<Rightarrow> bytes" where
  "invert_rotor t1 t2 = fold (\<lambda>i t2. t2[unat (t1 ! i) := of_nat i]) [0..<256] t2"

text \<open>The key bytes \<open>bin_key\<close> and \<open>len\<close> name: a length not positive asks for \<open>strlen\<close>.\<close>

definition key_of :: "bytes \<Rightarrow> int \<Rightarrow> bytes" where
  "key_of bin_key len = (if len \<le> 0 then takeWhile (\<lambda>b. b \<noteq> 0) bin_key else take (nat len) bin_key)"

definition enigma_init :: "ENIGMA \<Rightarrow> bytes \<Rightarrow> int \<Rightarrow> ENIGMA option" where
  "enigma_init t bin_key len =
     (let key = key_of bin_key len in
      if key = [] then Some t
      else do {
        let seed = ssh_crc32 key;
        let ic = unat ((seed + sum_list (map scast key) :: 32 word) AND 0xFF);
        let t1 = map (\<lambda>i. of_nat ((i + ic) mod 256)) [0..<256];
        let t3 = replicate 256 0;
        let key = (if length key > 256 then drop (length key - 256) key else key);
        (seed, t1, t3) \<leftarrow> init_rounds key [0..<256] (seed, t1, t3);
        Some \<lparr>rot1 = t1, rot2 = invert_rotor t1 (rot2 t), refl = t3\<rparr> })"

subsection \<open>Enciphering\<close>

text \<open>The starting positions, from the length of the text and the wheels.\<close>

definition start_n2 :: "ENIGMA \<Rightarrow> nat \<Rightarrow> nat" where
  "start_n2 t len =
     unat ((if len mod 2 = 0 then rot1 t else rot2 t) ! (drop_bit 9 len mod 256))"

definition start_n1 :: "ENIGMA \<Rightarrow> nat \<Rightarrow> nat" where
  "start_n1 t len = unat (refl t ! (drop_bit 1 len mod 256))"

fun enigma_loop :: "ENIGMA \<Rightarrow> nat \<Rightarrow> nat \<Rightarrow> bytes \<Rightarrow> bytes" where
  "enigma_loop t n1 n2 [] = []"
| "enigma_loop t n1 n2 (c # cs) =
     (let out = rot2 t ! unat (refl t ! unat (rot1 t ! unat (c + of_nat n1) + of_nat n2) - of_nat n2)
                - of_nat n1
      in out # (if n1 + 1 \<ge> 256
                then enigma_loop t ((n1 + 1) mod 256) (if n2 + 1 = 256 then 0 else n2 + 1) cs
                else enigma_loop t (n1 + 1) n2 cs))"

definition enigma :: "ENIGMA \<Rightarrow> bytes \<Rightarrow> bytes" where
  "enigma t s = enigma_loop t (start_n1 t (length s)) (start_n2 t (length s)) s"

fun encrypt_loop :: "ENIGMA \<Rightarrow> nat \<Rightarrow> nat \<Rightarrow> bytes \<Rightarrow> bytes" where
  "encrypt_loop t n1 n2 [] = []"
| "encrypt_loop t n1 n2 (p # ps) =
     (let x = rot1 t ! unat (p + of_nat n1);
          out = rot2 t ! unat (refl t ! unat (x + of_nat n2) - of_nat n2) - of_nat n1;
          n1 = n1 + unat (x AND 0x1F) + 1
      in out # (if n1 \<ge> 256
                then encrypt_loop t (n1 mod 256) (if n2 + 1 = 256 then 0 else n2 + 1) ps
                else encrypt_loop t n1 n2 ps))"

definition enigma_encrypt :: "ENIGMA \<Rightarrow> bytes \<Rightarrow> bytes" where
  "enigma_encrypt t s = encrypt_loop t (start_n1 t (length s)) (start_n2 t (length s)) s"

fun decrypt_loop :: "ENIGMA \<Rightarrow> nat \<Rightarrow> nat \<Rightarrow> bytes \<Rightarrow> bytes" where
  "decrypt_loop t n1 n2 [] = []"
| "decrypt_loop t n1 n2 (p # ps) =
     (let x = refl t ! unat (rot1 t ! unat (p + of_nat n1) + of_nat n2) - of_nat n2;
          out = rot2 t ! unat x - of_nat n1;
          n1 = n1 + unat (x AND 0x1F) + 1
      in out # (if n1 \<ge> 256
                then decrypt_loop t (n1 mod 256) (if n2 + 1 = 256 then 0 else n2 + 1) ps
                else decrypt_loop t n1 n2 ps))"

definition enigma_decrypt :: "ENIGMA \<Rightarrow> bytes \<Rightarrow> bytes" where
  "enigma_decrypt t s = decrypt_loop t (start_n1 t (length s)) (start_n2 t (length s)) s"

subsection \<open>enigma2.c\<close>

text \<open>\<open>b_revers\<close> swaps inwards from both ends; \<open>lo\<close> and \<open>hi\<close> are its two pointers.\<close>

function b_revers_loop :: "bytes \<Rightarrow> nat \<Rightarrow> nat \<Rightarrow> bytes" where
  "b_revers_loop buf lo hi =
     (if hi > lo then b_revers_loop (buf[hi := buf ! lo, lo := buf ! hi]) (lo + 1) (hi - 1) else buf)"
  by pat_completeness auto
termination by (relation "measure (\<lambda>(buf, lo, hi). hi - lo)") auto

declare b_revers_loop.simps [simp del]

definition b_revers :: "bytes \<Rightarrow> bytes" where
  "b_revers buf = (if length buf < 2 then buf else b_revers_loop buf 0 (length buf - 1))"

text \<open>The running exclusive-ors of \<open>enigma_rev\<close> and \<open>rev_enigma\<close>.\<close>

fun xor_chain :: "bytes \<Rightarrow> bytes" where
  "xor_chain (a # b # bs) = a # xor_chain ((b XOR a) # bs)"
| "xor_chain bs = bs"

fun xor_unchain :: "bytes \<Rightarrow> bytes" where
  "xor_unchain (a # b # bs) = (a XOR b) # xor_unchain (b # bs)"
| "xor_unchain bs = bs"

definition enigma_rev :: "ENIGMA \<Rightarrow> bytes \<Rightarrow> bytes" where
  "enigma_rev ep buf = (if buf = [] then buf else xor_chain (b_revers (enigma_encrypt ep buf)))"

definition rev_enigma :: "ENIGMA \<Rightarrow> bytes \<Rightarrow> bytes" where
  "rev_enigma ep buf = (if buf = [] then buf else enigma_decrypt ep (xor_unchain (b_revers buf)))"

text \<open>\<open>str_rotor\<close>: three exclusive-ors per step exchange the bytes at \<open>rotor+i\<close> and i.\<close>

definition c_MIN :: "int \<Rightarrow> int \<Rightarrow> int" where
  "c_MIN a b = (if a > b then b else a)"

definition xor_swap :: "nat \<Rightarrow> nat \<Rightarrow> bytes \<Rightarrow> bytes" where
  "xor_swap p p1 str =
     (let str = str[p := str ! p XOR str ! p1];
          str = str[p1 := str ! p1 XOR str ! p];
          str = str[p := str ! p XOR str ! p1]
      in str)"

definition str_rotor :: "bytes \<Rightarrow> nat \<Rightarrow> bytes" where
  "str_rotor str rotor =
     (if rotor = 0 then str
      else fold (\<lambda>i. xor_swap (rotor + i) i)
             [0..<nat (c_MIN (int rotor) (int (length str) - int rotor))] str)"

record ENIGMA2 =
  e2_t :: ENIGMA
  e2_r :: ENIGMA
  e2_crc :: "32 word"

definition enigma_mem :: "ENIGMA \<Rightarrow> bytes" where
  "enigma_mem t = rot1 t @ rot2 t @ refl t"

definition enigma2_init :: "ENIGMA2 \<Rightarrow> bytes \<Rightarrow> int \<Rightarrow> ENIGMA2 option" where
  "enigma2_init ep bin_key len =
     (let key = key_of bin_key len in
      do { t \<leftarrow> enigma_init (e2_t ep) bin_key (int (length key));
           let rk = enigma_encrypt t (b_revers (take 256 key));
           r \<leftarrow> (if rk = [] then None else enigma_init (e2_r ep) rk (int (length rk)));
           Some \<lparr>e2_t = t, e2_r = r,
             e2_crc = 0x7FFFFFFF AND ssh_crc32 (enigma_mem t @ enigma_mem r)\<rparr> })"

definition enigma2_encrypt :: "ENIGMA2 \<Rightarrow> bytes \<Rightarrow> bytes" where
  "enigma2_encrypt ep buf =
     (if buf = [] then buf
      else let buf = enigma_rev (e2_t ep) buf;
               buf = str_rotor buf (unat (e2_crc ep) mod length buf)
           in enigma (e2_r ep) buf)"

definition enigma2_decrypt :: "ENIGMA2 \<Rightarrow> bytes \<Rightarrow> bytes" where
  "enigma2_decrypt ep buf =
     (if buf = [] then buf
      else let buf = enigma (e2_r ep) buf;
               buf = str_rotor buf (unat (e2_crc ep) mod length buf)
           in rev_enigma (e2_t ep) buf)"

subsection \<open>The interface of a set of wheels\<close>

text \<open>All that enciphering needs of the wheels: the second inverts the first, and the
  reflector joins the positions in pairs.\<close>

locale wheels =
  fixes t :: ENIGMA
  assumes inv21: "rot2 t ! unat (rot1 t ! unat w) = w"
    and inv12: "rot1 t ! unat (rot2 t ! unat w) = w"
    and reflect: "refl t ! unat (refl t ! unat w) = w"
    and no_fixpoint: "refl t ! unat w \<noteq> w"
begin

lemma enigma_loop_inverse: "enigma_loop t n1 n2 (enigma_loop t n1 n2 s) = s"
  by (induction s arbitrary: n1 n2) (auto simp: Let_def inv12 inv21 reflect)

lemma decrypt_encrypt_loop: "decrypt_loop t n1 n2 (encrypt_loop t n1 n2 s) = s"
  by (induction s arbitrary: n1 n2) (auto simp: Let_def inv12 inv21 reflect)

lemma encrypt_decrypt_loop: "encrypt_loop t n1 n2 (decrypt_loop t n1 n2 s) = s"
  by (induction s arbitrary: n1 n2) (auto simp: Let_def inv12 inv21 reflect)

lemma no_byte_kept: "i < length s \<Longrightarrow> enigma_loop t n1 n2 s ! i \<noteq> s ! i"
proof (induction s arbitrary: n1 n2 i)
  case (Cons c cs)
  have "rot2 t ! unat (refl t ! unat (rot1 t ! unat (c + of_nat n1) + of_nat n2) - of_nat n2) - of_nat n1 \<noteq> c"
  proof
    assume eq: "rot2 t ! unat (refl t ! unat (rot1 t ! unat (c + of_nat n1) + of_nat n2) - of_nat n2)
      - of_nat n1 = c"
    then have "rot2 t ! unat (refl t ! unat (rot1 t ! unat (c + of_nat n1) + of_nat n2) - of_nat n2)
        = c + of_nat n1" by (simp add: diff_eq_eq)
    then have "refl t ! unat (rot1 t ! unat (c + of_nat n1) + of_nat n2) - of_nat n2
        = rot1 t ! unat (c + of_nat n1)" by (metis inv12)
    then show False using no_fixpoint by (simp add: diff_eq_eq)
  qed
  then show ?case using Cons by (cases i) (auto simp: Let_def)
qed simp

end

lemma length_loops [simp]:
  "length (enigma_loop t n1 n2 s) = length s"
  "length (encrypt_loop t n1 n2 s) = length s"
  "length (decrypt_loop t n1 n2 s) = length s"
  by (induction s arbitrary: n1 n2) (auto simp: Let_def)

lemma length_ciphers [simp]:
  "length (enigma t s) = length s" "length (enigma_encrypt t s) = length s"
  "length (enigma_decrypt t s) = length s"
  by (simp_all add: enigma_def enigma_encrypt_def enigma_decrypt_def)

context wheels
begin

lemma enigma_inverse: "enigma t (enigma t s) = s"
  by (simp add: enigma_def enigma_loop_inverse)

lemma decrypt_encrypt: "enigma_decrypt t (enigma_encrypt t s) = s"
  by (simp add: enigma_decrypt_def enigma_encrypt_def decrypt_encrypt_loop)

lemma encrypt_decrypt: "enigma_encrypt t (enigma_decrypt t s) = s"
  by (simp add: enigma_decrypt_def enigma_encrypt_def encrypt_decrypt_loop)

end

subsection \<open>Scrambling and its inverse\<close>

lemma b_revers_loop_nth:
  "hi < length buf \<Longrightarrow> length (b_revers_loop buf lo hi) = length buf \<and>
     (\<forall>j<length buf. b_revers_loop buf lo hi ! j =
        (if lo \<le> j \<and> j \<le> hi then buf ! (lo + hi - j) else buf ! j))"
proof (induction buf lo hi rule: b_revers_loop.induct)
  case (1 buf lo hi)
  show ?case
  proof (cases "hi > lo")
    case True
    let ?b = "buf[hi := buf ! lo, lo := buf ! hi]"
    have ih: "length (b_revers_loop ?b (lo + 1) (hi - 1)) = length buf"
      "\<And>j. j < length buf \<Longrightarrow> b_revers_loop ?b (lo + 1) (hi - 1) ! j =
        (if lo + 1 \<le> j \<and> j \<le> hi - 1 then ?b ! (lo + 1 + (hi - 1) - j) else ?b ! j)"
      using 1 True by auto
    show ?thesis
    proof (subst (1 2) b_revers_loop.simps, intro conjI allI impI)
      fix j assume j: "j < length buf"
      consider "j = lo" | "j = hi" | "lo < j" "j < hi" | "j < lo \<or> hi < j" by linarith
      then show "(if lo < hi then b_revers_loop ?b (lo + 1) (hi - 1) else buf) ! j =
          (if lo \<le> j \<and> j \<le> hi then buf ! (lo + hi - j) else buf ! j)"
      proof cases
        case 3
        then have "lo + hi - j \<noteq> lo" "lo + hi - j \<noteq> hi" by auto
        then show ?thesis using ih(2) [OF j] True 3 by auto
      qed (use ih(2) [OF j] True 1(2) in auto)
    qed (use ih(1) True in auto)
  next
    case False
    then have "lo + hi - j = j" if "lo \<le> j" "j \<le> hi" for j using that by linarith
    then show ?thesis using False by (subst (1 2) b_revers_loop.simps) auto
  qed
qed

lemma b_revers_rev [simp]: "b_revers buf = rev buf"
proof (cases "length buf < 2")
  case True
  then show ?thesis by (cases buf) (auto simp: b_revers_def)
next
  case False
  then have "length buf - 1 < length buf" by simp
  note nth = b_revers_loop_nth [OF this, of 0]
  then have "b_revers_loop buf 0 (length buf - 1) = rev buf"
    by (intro nth_equalityI) (auto simp: rev_nth)
  then show ?thesis using False by (simp add: b_revers_def)
qed

lemma length_xor_chain [simp]: "length (xor_chain bs) = length bs"
  by (induction bs rule: xor_chain.induct) auto

lemma length_xor_unchain [simp]: "length (xor_unchain bs) = length bs"
  by (induction bs rule: xor_unchain.induct) auto

lemma xor_chain_Nil [simp]: "xor_chain bs = [] \<longleftrightarrow> bs = []"
  by (metis length_0_conv length_xor_chain)

text \<open>The chain, reversed and unchained, is the reversed original.\<close>

lemma xor_unchain_Cons: "bs \<noteq> [] \<Longrightarrow> xor_unchain (a # bs) = (a XOR hd bs) # xor_unchain bs"
  by (cases bs) auto

lemma xor_chain_rev: "xor_unchain (rev (xor_chain bs)) = rev bs"
proof -
  have chain_snoc: "xor_chain (bs @ [b]) =
      xor_chain bs @ [if bs = [] then b else b XOR last (xor_chain bs)]" for bs b
    by (induction bs rule: xor_chain.induct) (auto simp: neq_Nil_conv)
  show ?thesis
  proof (induction bs rule: rev_induct)
    case (snoc b bs)
    show ?case
    proof (cases "bs = []")
      case False
      then have ne: "rev (xor_chain bs) \<noteq> []" by (metis length_0_conv length_rev length_xor_chain)
      moreover have "hd (rev (xor_chain bs)) = last (xor_chain bs)" by (simp add: hd_rev)
      ultimately show ?thesis using snoc False
        by (simp add: chain_snoc xor_unchain_Cons xor.assoc)
    qed simp
  qed simp
qed

lemma xor_swap_update:
  "p < length str \<Longrightarrow> p1 < length str \<Longrightarrow> p \<noteq> p1 \<Longrightarrow>
     xor_swap p p1 str = str[p := str ! p1, p1 := str ! p]"
  by (auto simp: xor_swap_def Let_def list_eq_iff_nth_eq nth_list_update xor.assoc xor.left_commute
      xor.commute)


lemma str_rotor_fold:
  assumes "l \<le> rotor" "rotor + l \<le> length str"
  shows "length (fold (\<lambda>i. xor_swap (rotor + i) i) [0..<l] str) = length str \<and>
    (\<forall>j<length str. fold (\<lambda>i. xor_swap (rotor + i) i) [0..<l] str ! j =
       (if j < l then str ! (rotor + j)
        else if rotor \<le> j \<and> j < rotor + l then str ! (j - rotor) else str ! j))"
  using assms
proof (induction l)
  case (Suc l)
  then show ?case by (auto simp: xor_swap_update nth_list_update)
qed auto

lemma rotor_span:
  "rotor < len \<Longrightarrow> nat (c_MIN (int rotor) (int len - int rotor)) = min rotor (len - rotor)"
  by (auto simp: c_MIN_def min_def nat_diff_distrib)

lemma length_str_rotor [simp]: "rotor < length str \<Longrightarrow> length (str_rotor str rotor) = length str"
  using str_rotor_fold [of "min rotor (length str - rotor)" rotor str]
  by (auto simp: str_rotor_def rotor_span)

lemma str_rotor_involution:
  assumes "rotor < length str"
  shows "str_rotor (str_rotor str rotor) rotor = str"
proof (cases "rotor = 0")
  case False
  define l where "l = min rotor (length str - rotor)"
  have l: "l \<le> rotor" "rotor + l \<le> length str" using assms by (auto simp: l_def)
  note rot = str_rotor_fold [OF l]
  have eq: "str_rotor s rotor = fold (\<lambda>i. xor_swap (rotor + i) i) [0..<l] s" if "length s = length str" for s
    using False assms that by (simp add: str_rotor_def rotor_span l_def)
  let ?s = "str_rotor str rotor"
  have len: "length ?s = length str" using assms by simp
  have rot2: "\<forall>j<length str. str_rotor ?s rotor ! j =
       (if j < l then ?s ! (rotor + j)
        else if rotor \<le> j \<and> j < rotor + l then ?s ! (j - rotor) else ?s ! j)"
    using str_rotor_fold [of l rotor ?s] l len by (simp add: eq)
  show ?thesis
  proof (rule nth_equalityI)
    fix j assume "j < length (str_rotor ?s rotor)"
    then have j: "j < length str" using assms by simp
    then show "str_rotor ?s rotor ! j = str ! j"
      using rot rot2 l by (auto simp: eq)
  qed (use assms in simp)
qed (simp add: str_rotor_def)

lemma length_rev_ciphers [simp]:
  "length (enigma_rev t s) = length s" "length (rev_enigma t s) = length s"
  by (simp_all add: enigma_rev_def rev_enigma_def)

context wheels
begin

lemma rev_enigma_inverse: "rev_enigma t (enigma_rev t s) = s"
proof (cases "s = []")
  case False
  then have "enigma_rev t s \<noteq> []" by (metis length_0_conv length_rev_ciphers(1))
  then show ?thesis using False
    by (simp add: rev_enigma_def) (simp add: enigma_rev_def xor_chain_rev decrypt_encrypt)
qed (simp add: enigma_rev_def rev_enigma_def)

end

subsection \<open>What \<open>enigma_init\<close> builds\<close>

text \<open>The reflector while the positions from n on are joined: no joined position is its own
  partner, a position below n that is joined has a partner from n on, and the number of free
  positions is even.\<close>

definition free_count :: "nat \<Rightarrow> bytes \<Rightarrow> nat" where
  "free_count n t3 = length (filter (\<lambda>j. t3 ! j = 0) [0..<n])"

definition joined :: "nat \<Rightarrow> bytes \<Rightarrow> bool" where
  "joined n t3 \<longleftrightarrow> length t3 = 256 \<and> n \<le> 256 \<and>
     (\<forall>j<n. t3 ! j \<noteq> 0 \<longrightarrow> n \<le> unat (t3 ! j) \<and> unat (t3 ! unat (t3 ! j)) = j) \<and>
     (\<forall>j. n \<le> j \<longrightarrow> j < 256 \<longrightarrow> unat (t3 ! j) \<noteq> j \<and> unat (t3 ! unat (t3 ! j)) = j) \<and>
     even (free_count n t3)"

lemma find_free_steps:
  "ic < k \<Longrightarrow> (ic + d) mod k = j \<Longrightarrow> t3 ! j = 0 \<Longrightarrow>
     \<exists>r. find_free t3 k ic = Some r \<and> r < k \<and> t3 ! r = 0"
proof (induction d arbitrary: ic)
  case (Suc d)
  show ?case
  proof (cases "t3 ! ic = 0")
    case False
    have "((ic + 1) mod k + d) mod k = j" using Suc.prems(2) by (simp add: mod_simps)
    then have "\<exists>r. find_free t3 k ((ic + 1) mod k) = Some r \<and> r < k \<and> t3 ! r = 0"
      using Suc.prems(1,3) by (intro Suc.IH) auto
    then show ?thesis using False by (subst find_free.simps) simp
  qed (use Suc.prems in \<open>subst find_free.simps, simp\<close>)
qed (subst find_free.simps, simp)

lemma find_free_ok:
  assumes "ic < k" "\<exists>j<k. t3 ! j = 0"
  shows "\<exists>r. find_free t3 k ic = Some r \<and> r < k \<and> t3 ! r = 0"
proof -
  obtain j where j: "j < k" "t3 ! j = 0" using assms(2) by blast
  then have "(ic + (j + k - ic)) mod k = j" using assms(1) by simp
  from find_free_steps [OF assms(1) this j(2)] show ?thesis .
qed

lemma free_count_Suc: "free_count (Suc k) t3 = free_count k t3 + (if t3 ! k = 0 then 1 else 0)"
  by (simp add: free_count_def)

lemma byte_of_nat [simp]: "k < 256 \<Longrightarrow> unat (of_nat k :: byte) = k"
  by (simp add: unat_of_nat)

lemma byte_less: "unat (w :: byte) < 256"
  using unsigned_less [of w] by simp

lemma byte_nonzero: "0 < k \<Longrightarrow> k < 256 \<Longrightarrow> of_nat k \<noteq> (0 :: byte)"
  by (metis byte_of_nat less_irrefl unsigned_0)

lemma free_count_join:
  assumes "ic < k" "t3 ! ic = 0" "k < length t3" "k < 256"
  shows "free_count k t3 = Suc (free_count k (t3[k := x, ic := of_nat k]))"
  unfolding free_count_def using assms byte_nonzero [of k]
  by (intro count_fill [of ic]) auto

lemma free_below: "odd (free_count k t3) \<Longrightarrow> \<exists>j<k. t3 ! j = 0"
proof (rule ccontr)
  assume odd: "odd (free_count k t3)" and "\<not> (\<exists>j<k. t3 ! j = 0)"
  then have "filter (\<lambda>j. t3 ! j = 0) [0..<k] = []" by (auto simp: filter_empty_conv)
  then show False using odd by (simp add: free_count_def)
qed

lemma joined_skip:
  assumes "joined (Suc k) t3" "t3 ! k \<noteq> 0"
  shows "joined k t3"
  unfolding joined_def
proof (intro conjI allI impI)
  have k: "Suc k \<le> unat (t3 ! k)" "unat (t3 ! unat (t3 ! k)) = k"
    using assms by (auto simp: joined_def)
  show "even (free_count k t3)" using assms by (auto simp: joined_def free_count_Suc)
  show "length t3 = 256" "k \<le> 256" using assms(1) by (auto simp: joined_def)
  show "k \<le> unat (t3 ! j)" "unat (t3 ! unat (t3 ! j)) = j" if "j < k" "t3 ! j \<noteq> 0" for j
    using assms(1) that by (auto simp: joined_def Suc_le_eq dest: less_SucI)
  show "unat (t3 ! j) \<noteq> j" "unat (t3 ! unat (t3 ! j)) = j" if "k \<le> j" "j < 256" for j
    using assms(1) that k by (cases "j = k"; simp add: joined_def)+
qed

lemma joined_pair:
  assumes "joined (Suc k) t3" "t3 ! k = 0" "ic < k" "t3 ! ic = 0"
  shows "joined k (t3[k := of_nat ic, ic := of_nat k])"
proof -
  let ?t = "t3[k := of_nat ic, ic := of_nat k]"
  have k: "k < 256" "length t3 = 256" using assms(1) by (auto simp: joined_def)
  have nth: "?t ! j = (if j = ic then of_nat k else if j = k then of_nat ic else t3 ! j)"
    if "j < 256" for j using k assms(3) that by (auto simp: nth_list_update)
  have lo: "k \<le> unat (?t ! j) \<and> unat (?t ! unat (?t ! j)) = j" if "j < k" "?t ! j \<noteq> 0" for j
  proof (cases "j = ic")
    case True
    then show ?thesis using k assms(3) by (simp add: nth)
  next
    case False
    then have "t3 ! j \<noteq> 0" using that nth [of j] k by simp
    then have p: "Suc k \<le> unat (t3 ! j)" "unat (t3 ! unat (t3 ! j)) = j"
      using assms(1) that(1) by (auto simp: joined_def)
    moreover have "unat (t3 ! j) < 256" using unsigned_less [of "t3 ! j"] by simp
    ultimately show ?thesis using False that(1) k assms(3) by (simp add: nth)
  qed
  have hi: "unat (?t ! j) \<noteq> j \<and> unat (?t ! unat (?t ! j)) = j" if "k \<le> j" "j < 256" for j
  proof (cases "j = k")
    case True
    then show ?thesis using k assms(3) by (simp add: nth)
  next
    case False
    then have p: "unat (t3 ! j) \<noteq> j" "unat (t3 ! unat (t3 ! j)) = j"
      using assms(1) that by (auto simp: joined_def)
    moreover have "unat (t3 ! j) < 256" using unsigned_less [of "t3 ! j"] by simp
    moreover have "unat (t3 ! j) \<noteq> k" "unat (t3 ! j) \<noteq> ic"
      using p(2) assms(2-4) that False by auto
    ultimately show ?thesis using False that assms(3) by (simp add: nth)
  qed
  have "even (free_count k ?t)"
    using assms(1,2) free_count_join [OF assms(3,4), of "of_nat ic"] k
    by (auto simp: joined_def free_count_Suc)
  then show ?thesis using lo hi k unfolding joined_def by simp
qed

lemma init_round_ok:
  assumes "joined (Suc k) t3" "i = 255 - k" "length t1 = 256" "distinct t1"
  shows "\<exists>seed' t1' t3'. init_round bin_key i (seed, t1, t3) = Some (seed', t1', t3') \<and>
    joined k t3' \<and> length t1' = 256 \<and> distinct t1'"
proof -
  have k: "k < 256" "256 - 1 - i = k" using assms(1,2) by (auto simp: joined_def)
  define seed' where "seed' = push_bit 1 seed + scast (bin_key ! (i mod length bin_key))"
  define random where "random = uint (seed' AND 0x7FFFFFFF) mod 65529"
  have r0: "0 \<le> random" by (simp add: random_def)
  define ic where "ic = nat (random mod (int k + 1))"
  have "random mod (int k + 1) < int k + 1" by (rule pos_mod_bound) simp
  then have "ic < Suc k" by (simp add: ic_def nat_less_iff)
  then have swap: "length (t1[k := t1 ! ic, ic := t1 ! k]) = 256"
      "distinct (t1[k := t1 ! ic, ic := t1 ! k])"
    using assms(3,4) k by (simp_all add: distinct_swap)
  define t1' where "t1' = t1[k := t1 ! ic, ic := t1 ! k]"
  note swap = swap [folded t1'_def]
  have eq: "init_round bin_key i (seed, t1, t3) =
      (if t3 ! k \<noteq> 0 then Some (seed', t1', t3)
       else if k = 0 then None
       else do { ic \<leftarrow> find_free t3 k (nat ((random AND 0xFF) mod int k));
                 Some (seed', t1', t3[k := of_nat ic, ic := of_nat k]) })"
    by (simp only: init_round_def prod.case Let_def k seed'_def random_def ic_def t1'_def)
  show ?thesis
  proof (cases "t3 ! k = 0")
    case False
    then show ?thesis using joined_skip [OF assms(1)] swap by (simp add: eq)
  next
    case True
    then have odd: "odd (free_count k t3)" using assms(1) by (auto simp: joined_def free_count_Suc)
    then have "k \<noteq> 0" by (metis even_zero free_count_def filter.simps(1) list.size(3) upt_0)
    moreover have "nat ((random AND 0xFF) mod int k) < k"
      using calculation by (simp add: nat_less_iff)
    ultimately obtain j where j: "find_free t3 k (nat ((random AND 0xFF) mod int k)) = Some j"
        "j < k" "t3 ! j = 0"
      using find_free_ok free_below [OF odd] by blast
    then show ?thesis using joined_pair [OF assms(1) True j(2,3)] swap True \<open>k \<noteq> 0\<close>
      by (simp add: eq)
  qed
qed

lemma init_rounds_ok:
  assumes "joined n t3" "n \<le> 256" "length t1 = 256" "distinct t1"
  shows "\<exists>seed' t1' t3'. init_rounds bin_key [256 - n..<256] (seed, t1, t3) = Some (seed', t1', t3') \<and>
    joined 0 t3' \<and> length t1' = 256 \<and> distinct t1'"
  using assms
proof (induction n arbitrary: seed t1 t3)
  case (Suc k)
  obtain seed' t1' t3' where r: "init_round bin_key (255 - k) (seed, t1, t3) = Some (seed', t1', t3')"
      "joined k t3'" "length t1' = 256" "distinct t1'"
    using init_round_ok [OF Suc.prems(1) refl Suc.prems(3,4)] by blast
  have "[256 - Suc k..<256] = (255 - k) # [256 - k..<256]"
  proof -
    have "256 - Suc k = 255 - k" "256 - k = Suc (255 - k)" using Suc.prems(2) by simp_all
    then show ?thesis by (simp only: upt_conv_Cons [of "255 - k" 256])
  qed
  then show ?case using r Suc.IH [OF r(2) _ r(3,4)] Suc.prems(2) by simp
qed simp


lemma invert_rotor_nth:
  fixes t1 t2 :: bytes
  assumes "length t1 = 256" "distinct t1" "length t2 = 256" "n \<le> 256"
  shows "length (fold (\<lambda>i t2. t2[unat (t1 ! i) := of_nat i]) [0..<n] t2) = 256 \<and>
    (\<forall>i<n. fold (\<lambda>i t2. t2[unat (t1 ! i) := of_nat i]) [0..<n] t2 ! unat (t1 ! i) = (of_nat i :: byte))"
  using assms(4)
proof (induction n)
  case (Suc n)
  let ?f = "fold (\<lambda>i t2. t2[unat (t1 ! i) := of_nat i]) [0..<n] t2"
  have "unat (t1 ! n) < length ?f" using Suc byte_less by simp
  moreover have "t1 ! i \<noteq> t1 ! n" if "i < n" for i
    using that Suc.prems assms(1,2) by (simp add: nth_eq_iff_index_eq)
  then have "unat (t1 ! n) \<noteq> unat (t1 ! i)" if "i < n" for i
    using that by (metis unsigned_word_eqI)
  ultimately show ?case using Suc by (auto simp: less_Suc_eq nth_list_update)
qed (simp add: assms(3))

lemma rotor_surj:
  assumes "length t1 = 256" "distinct (t1 :: bytes)"
  shows "\<exists>i<256. w = t1 ! i"
proof -
  have "card (set t1) = card (UNIV :: byte set)"
    using assms by (simp add: distinct_card card_word)
  then have "set t1 = UNIV" by (intro card_subset_eq) auto
  then show ?thesis using assms(1) by (metis UNIV_I in_set_conv_nth)
qed

lemma wheels_built:
  assumes "length t1 = 256" "distinct t1" "length t2 = 256" "joined 0 t3"
  shows "wheels \<lparr>rot1 = t1, rot2 = invert_rotor t1 t2, refl = t3\<rparr>"
proof
  note inv = invert_rotor_nth [OF assms(1-3) order_refl, folded invert_rotor_def]
  fix w :: byte
  have w: "unat w < 256" using unsigned_less [of w] by simp
  show "rot2 \<lparr>rot1 = t1, rot2 = invert_rotor t1 t2, refl = t3\<rparr> !
      unat (rot1 \<lparr>rot1 = t1, rot2 = invert_rotor t1 t2, refl = t3\<rparr> ! unat w) = w"
    using inv w by simp
  obtain i where "i < 256" "w = t1 ! i" using rotor_surj [OF assms(1,2)] by blast
  then show "rot1 \<lparr>rot1 = t1, rot2 = invert_rotor t1 t2, refl = t3\<rparr> !
      unat (rot2 \<lparr>rot1 = t1, rot2 = invert_rotor t1 t2, refl = t3\<rparr> ! unat w) = w"
    using inv by simp
  have r: "unat (t3 ! unat w) \<noteq> unat w" "unat (t3 ! unat (t3 ! unat w)) = unat w"
    using assms(4) w by (auto simp: joined_def)
  then show "refl \<lparr>rot1 = t1, rot2 = invert_rotor t1 t2, refl = t3\<rparr> !
      unat (refl \<lparr>rot1 = t1, rot2 = invert_rotor t1 t2, refl = t3\<rparr> ! unat w) = w"
    by (simp add: unsigned_word_eqI)
  show "refl \<lparr>rot1 = t1, rot2 = invert_rotor t1 t2, refl = t3\<rparr> ! unat w \<noteq> w"
    using r(1) by auto
qed

lemma spin_distinct: "distinct (map (\<lambda>i. of_nat ((i + ic) mod 256) :: byte) [0..<256])"
proof -
  have "i = j" if "i < 256" "j < 256" "(of_nat ((i + ic) mod 256) :: byte) = of_nat ((j + ic) mod 256)" for i j
  proof -
    have "(i + ic) mod 256 = (j + ic) mod 256"
      using that(3) by (metis byte_of_nat mod_less_divisor zero_less_numeral)
    then have "i mod 256 = j mod 256" by (simp add: mod_add_cong nat_mod_eq_iff)
    then show ?thesis using that by simp
  qed
  then show ?thesis by (auto simp: distinct_map intro!: inj_onI)
qed

lemma joined_start: "joined 256 (replicate 256 0)"
proof -
  have "free_count 256 (replicate 256 0) = 256"
    unfolding free_count_def by (subst filter_True) simp_all
  then show ?thesis by (auto simp: joined_def)
qed

lemma enigma_init_ok:
  assumes "key_of bin_key len \<noteq> []" "length (rot2 t) = 256"
  shows "\<exists>m. enigma_init t bin_key len = Some m \<and> wheels m \<and> length (rot2 m) = 256"
proof -
  define key where "key = key_of bin_key len"
  define ic where "ic = unat ((ssh_crc32 key + sum_list (map scast key) :: 32 word) AND 0xFF)"
  define key' where "key' = (if length key > 256 then drop (length key - 256) key else key)"
  define spin where "spin = map (\<lambda>i. of_nat ((i + ic) mod 256) :: byte) [0..<256]"
  obtain seed' t1' t3' where r: "init_rounds key' [0..<256] (ssh_crc32 key, spin, replicate 256 0) =
      Some (seed', t1', t3')" "joined 0 t3'" "length t1' = 256" "distinct t1'"
    using init_rounds_ok [OF joined_start order_refl, of spin key' "ssh_crc32 key"] spin_distinct [of ic]
    by (auto simp: spin_def)
  have "enigma_init t bin_key len = Some \<lparr>rot1 = t1', rot2 = invert_rotor t1' (rot2 t), refl = t3'\<rparr>"
    unfolding enigma_init_def Let_def key_def [symmetric] ic_def [symmetric] key'_def [symmetric]
      spin_def [symmetric]
    using assms(1) r(1) by (simp add: key_def)
  moreover have "length (invert_rotor t1' (rot2 t)) = 256"
    using invert_rotor_nth [OF r(3,4) assms(2) order_refl] by (simp add: invert_rotor_def)
  ultimately show ?thesis using wheels_built [OF r(3,4) assms(2) r(2)] by simp
qed

definition blank_wheels :: ENIGMA where
  "blank_wheels = \<lparr>rot1 = replicate 256 0, rot2 = replicate 256 0, refl = replicate 256 0\<rparr>"

lemma blank_length [simp]: "length (rot2 blank_wheels) = 256"
  by (simp add: blank_wheels_def)

interpretation keyed: wheels "the (enigma_init blank_wheels (b # bs) (1 + int (length bs)))" for b bs
proof -
  have "\<exists>m. enigma_init blank_wheels (b # bs) (1 + int (length bs)) = Some m \<and> wheels m \<and> length (rot2 m) = 256"
    by (rule enigma_init_ok) (simp_all add: key_of_def)
  then show "wheels (the (enigma_init blank_wheels (b # bs) (1 + int (length bs))))" by auto
qed

lemma enigma_init_unique:
  assumes "enigma_init t bin_key len = Some m" "enigma_init t' bin_key len = Some m'"
    "key_of bin_key len \<noteq> []" "length (rot2 t) = 256" "length (rot2 t') = 256"
  shows "m' = m"
proof -
  have w: "wheels m" "wheels m'" "length (rot2 m) = 256" "length (rot2 m') = 256"
    using enigma_init_ok [OF assms(3,4)] enigma_init_ok [OF assms(3,5)] assms(1,2) by auto
  have same: "rot1 m' = rot1 m" "refl m' = refl m"
    using assms(1-3) by (auto simp: enigma_init_def Let_def split: bind_splits)
  have "rot2 m' ! j = rot2 m ! j" if "j < 256" for j
  proof -
    let ?w = "of_nat j :: byte"
    have "rot2 m' ! unat (rot1 m' ! unat (rot2 m ! unat ?w)) = rot2 m ! unat ?w"
      by (rule wheels.inv21 [OF w(2)])
    then show ?thesis using that unfolding same wheels.inv12 [OF w(1)] by simp
  qed
  then have "rot2 m' = rot2 m" using w by (intro nth_equalityI) auto
  then show ?thesis using same by (cases m; cases m') auto
qed

lemma enigma2_init_ok:
  assumes "key_of bin_key len \<noteq> []" "length (rot2 (e2_t ep)) = 256" "length (rot2 (e2_r ep)) = 256"
  shows "\<exists>e. enigma2_init ep bin_key len = Some e \<and> wheels (e2_t e) \<and> wheels (e2_r e) \<and>
    length (rot2 (e2_t e)) = 256 \<and> length (rot2 (e2_r e)) = 256"
proof -
  define key where "key = key_of bin_key len"
  have key: "key_of bin_key (int (length key)) = key"
  proof -
    have "take (length key) bin_key = key"
    proof (cases "len \<le> 0")
      case True
      then show ?thesis by (simp add: key_def key_of_def flip: takeWhile_eq_take)
    next
      case False
      then show ?thesis by (simp add: key_def key_of_def min_def)
    qed
    moreover have "key \<noteq> []" using assms(1) by (simp add: key_def)
    ultimately show ?thesis by (simp add: key_of_def)
  qed
  obtain t where t: "enigma_init (e2_t ep) bin_key (int (length key)) = Some t" "wheels t" "length (rot2 t) = 256"
    using enigma_init_ok [of bin_key "int (length key)" "e2_t ep"] assms(1,2)
    by (auto simp: key simp flip: key_def)
  define rk where "rk = enigma_encrypt t (b_revers (take 256 key))"
  have rk: "rk \<noteq> []" using assms(1) by (metis b_revers_rev key_def length_0_conv length_ciphers(2)
        length_rev rk_def take_eq_Nil zero_neq_numeral)
  then have "key_of rk (int (length rk)) \<noteq> []" by (simp add: key_of_def)
  then obtain r where r: "enigma_init (e2_r ep) rk (int (length rk)) = Some r" "wheels r" "length (rot2 r) = 256"
    using enigma_init_ok assms(3) by blast
  define e where "e = \<lparr>e2_t = t, e2_r = r,
     e2_crc = 0x7FFFFFFF AND ssh_crc32 (enigma_mem t @ enigma_mem r)\<rparr>"
  have "enigma2_init ep bin_key len = Some e"
    using t(1) r(1) rk
    by (simp add: enigma2_init_def Let_def e_def del: b_revers_rev flip: key_def rk_def)
  then show ?thesis using t r by (auto simp: e_def)
qed

lemma key_of_whole: "rk \<noteq> [] \<Longrightarrow> key_of rk (int (length rk)) \<noteq> []"
  by (simp add: key_of_def)

lemma enigma2_init_parts:
  assumes "enigma2_init ep bin_key len = Some e"
  defines "key \<equiv> key_of bin_key len"
  defines "rk \<equiv> enigma_encrypt (e2_t e) (b_revers (take 256 key))"
  shows "enigma_init (e2_t ep) bin_key (int (length key)) = Some (e2_t e)"
    "enigma_init (e2_r ep) rk (int (length rk)) = Some (e2_r e)" "rk \<noteq> []"
    "e2_crc e = 0x7FFFFFFF AND ssh_crc32 (enigma_mem (e2_t e) @ enigma_mem (e2_r e))"
  using assms(1) unfolding enigma2_init_def Let_def key_def [symmetric] rk_def
  by (auto split: bind_splits if_splits simp del: b_revers_rev length_ciphers)

lemma enigma2_init_unique:
  assumes "key_of bin_key len \<noteq> []"
    "length (rot2 (e2_t ep)) = 256" "length (rot2 (e2_r ep)) = 256"
    "length (rot2 (e2_t ep')) = 256" "length (rot2 (e2_r ep')) = 256"
    "enigma2_init ep bin_key len = Some e" "enigma2_init ep' bin_key len = Some e'"
  shows "e' = e"
proof -
  let ?k = "key_of bin_key len"
  have k: "key_of bin_key (int (length ?k)) \<noteq> []" using assms(1)
    by (auto simp: key_of_def split: if_splits dest: takeWhile_eq_Nil_iff [THEN iffD1])
  note i = enigma2_init_parts [OF assms(6)] and i' = enigma2_init_parts [OF assms(7)]
  have t: "e2_t e' = e2_t e" by (rule enigma_init_unique [OF i(1) i'(1) k assms(2,4)])
  from key_of_whole [OF i(3)]
  have "e2_r e' = e2_r e" by (rule enigma_init_unique [OF i(2) i'(2) [unfolded t] _ assms(3,5)])
  then show ?thesis using t i(4) i'(4) by (cases e; cases e') simp
qed

lemma enigma2_inverse:
  assumes "wheels (e2_t e)" "wheels (e2_r e)"
  shows "enigma2_decrypt e (enigma2_encrypt e s) = s"
  proof (cases "s = []")
    case False
    let ?k = "unat (e2_crc e) mod length s"
    have k: "?k < length s" using False by simp
    have len: "length (enigma2_encrypt e s) = length s"
      using k by (simp add: enigma2_encrypt_def Let_def)
    have "enigma (e2_r e) (enigma2_encrypt e s) = str_rotor (enigma_rev (e2_t e) s) ?k"
      using False wheels.enigma_inverse [OF assms(2)] by (simp add: enigma2_encrypt_def Let_def)
    moreover have "str_rotor (str_rotor (enigma_rev (e2_t e) s) ?k) ?k = enigma_rev (e2_t e) s"
      using k by (intro str_rotor_involution) simp
    moreover have "enigma2_encrypt e s \<noteq> []" using len False by (metis length_0_conv)
    ultimately show ?thesis
      using k wheels.rev_enigma_inverse [OF assms(1)] by (simp add: enigma2_decrypt_def Let_def)
  qed (simp add: enigma2_encrypt_def enigma2_decrypt_def)

subsection \<open>Properties\<close>

text \<open>For every non-empty key \<open>enigma_init\<close> ends without a remainder by zero and without
  an endless search, and builds a proper machine: the second rotor is the inverse of the first
  and the reflector is an involution without fixed points, so no byte is ever enciphered to
  itself by \<open>enigma\<close>.\<close>

theorem enigma_init_builds_wheels:
  assumes "key_of bin_key len \<noteq> []" "length (rot2 t) = 256"
  shows "\<exists>m. enigma_init t bin_key len = Some m \<and>
    (\<forall>w. rot2 m ! unat (rot1 m ! unat w) = w \<and> rot1 m ! unat (rot2 m ! unat w) = w \<and>
         refl m ! unat (refl m ! unat w) = w \<and> refl m ! unat w \<noteq> w) \<and>
    (\<forall>s. \<forall>i<length s. enigma m s ! i \<noteq> s ! i)"
proof -
  obtain m where m: "enigma_init t bin_key len = Some m" "wheels m"
    using enigma_init_ok [OF assms] by blast
  then show ?thesis
    using wheels.inv21 [OF m(2)] wheels.inv12 [OF m(2)] wheels.reflect [OF m(2)]
      wheels.no_fixpoint [OF m(2)] wheels.no_byte_kept [OF m(2)] by (auto simp: enigma_def)
qed

theorem enigma_init_builds_wheels_witness:
  "\<exists>m. enigma_init blank_wheels [65, 0, 66] 3 = Some m \<and> rot2 m ! unat (rot1 m ! 7) = 7"
  using enigma_init_builds_wheels [of "[65, 0, 66]" 3 blank_wheels]
  by (force simp: key_of_def dest: spec [of _ 7])

text \<open>C17: With the wheels of any non-empty key, \<open>enigma\<close> undoes itself, \<open>enigma_decrypt\<close>
  undoes \<open>enigma_encrypt\<close> and the other way round, and \<open>rev_enigma\<close> undoes the reversal and
  the running exclusive-or of \<open>enigma_rev\<close>, for texts of every length.\<close>

theorem enigma_round_trips:
  assumes "key_of bin_key len \<noteq> []" "length (rot2 t) = 256" "enigma_init t bin_key len = Some m"
  shows "enigma m (enigma m s) = s \<and> enigma_decrypt m (enigma_encrypt m s) = s \<and>
    enigma_encrypt m (enigma_decrypt m s) = s \<and> rev_enigma m (enigma_rev m s) = s"
proof -
  have "wheels m" using enigma_init_ok [OF assms(1,2)] assms(3) by auto
  from wheels.enigma_inverse [OF this] wheels.decrypt_encrypt [OF this]
    wheels.encrypt_decrypt [OF this] wheels.rev_enigma_inverse [OF this]
  show ?thesis by simp
qed

theorem enigma_round_trips_witness:
  "\<exists>m. enigma_init blank_wheels [65, 0, 66] 3 = Some m \<and> rev_enigma m (enigma_rev m [1, 2]) = [1, 2]"
proof -
  obtain m where m: "enigma_init blank_wheels [65, 0, 66] 3 = Some m"
    using enigma_init_ok [of "[65, 0, 66]" 3 blank_wheels] by (auto simp: key_of_def)
  then show ?thesis
    using enigma_round_trips [of "[65, 0, 66]" 3 blank_wheels m "[1, 2]"]
    by (auto simp: key_of_def)
qed

text \<open>For every non-empty key \<open>enigma2_init\<close> succeeds, and \<open>enigma2_decrypt\<close> then
  recovers every text that \<open>enigma2_encrypt\<close> enciphered, including the empty one.\<close>

theorem enigma2_round_trip:
  assumes "key_of bin_key len \<noteq> []" "length (rot2 (e2_t ep)) = 256" "length (rot2 (e2_r ep)) = 256"
  shows "\<exists>e. enigma2_init ep bin_key len = Some e \<and> enigma2_decrypt e (enigma2_encrypt e s) = s"
  using enigma2_init_ok [OF assms] enigma2_inverse by blast

theorem enigma2_round_trip_witness:
  "\<exists>e. enigma2_init \<lparr>e2_t = blank_wheels, e2_r = blank_wheels, e2_crc = 0\<rparr> [65, 66, 0] 0 = Some e \<and>
     enigma2_decrypt e (enigma2_encrypt e [1, 2, 3]) = [1, 2, 3]"
proof (rule enigma2_round_trip)
  show "key_of [65, 66, 0] 0 \<noteq> []" by (simp add: key_of_def)
qed simp_all

end
