(* ===== verification/Bignum.thy ===== *)
theory Bignum
  imports Sdbc_Prelude
begin

text \<open>Multi-word arithmetic, \<open>src/crypto/bignum.c\<close>, and the modular product and power of
  \<open>mulmod.c\<close> and \<open>expmod.c\<close>.  A number is an array of 32-bit words, low word first, here the
  list of its words; a routine given a pointer into the middle of an array works on the list
  from there.  The callers pass arrays of at least the stated number of words; where a
  definition by recursion meets a shorter one (undefined behaviour in C) it stops.

  The routines keep intermediate numbers in local arrays of MAXNUMBER + 1 words, \<open>_m_m_\<close> in one of
  2 * MAXNUMBER + 1, and none of them tests n.  The definitions have no such bound: they are those
  of the code for n up to MAXNUMBER, which is 128.  The callers under \<open>src/\<close> pass 3 and 4.\<close>

unbundle bit_operations_syntax

type_synonym u_int = "32 word"

definition mula :: "u_int \<Rightarrow> u_int \<Rightarrow> u_int \<times> u_int" where
  "mula a b =
     (if a < 2 then (if a = 1 then b else 0, 0)
      else let tmp = ucast a * ucast b :: 64 word
           in (ucast tmp, ucast (drop_bit 32 tmp)))"

text \<open>\<open>diva\<close>: the two words \<open>pa[0], pa[1]\<close> by b; quotient word and remainder.\<close>

definition diva :: "u_int \<Rightarrow> u_int \<Rightarrow> u_int \<Rightarrow> u_int \<times> u_int" where
  "diva pa0 pa1 b =
     (let tp = push_bit 32 (ucast pa1) + ucast pa0 :: 64 word; d = ucast b
      in (ucast (tp div d), ucast (tp mod d)))"

definition adda :: "u_int \<Rightarrow> u_int option \<Rightarrow> u_int \<Rightarrow> u_int \<times> u_int" where
  "adda pd ps cy =
     (let (pd, c) = (case ps of
                       Some s \<Rightarrow> (let pd = pd + s in (pd, if pd < s then 1 else 0))
                     | None \<Rightarrow> (pd, 0));
          pd = pd + cy;
          c = (if cy \<noteq> 0 \<and> pd = 0 then 1 else c)
      in (pd, c))"

definition suba :: "u_int \<Rightarrow> u_int option \<Rightarrow> u_int \<Rightarrow> u_int \<times> u_int" where
  "suba pd ps cy =
     (let (pd, c) = (case ps of
                       Some s \<Rightarrow> (pd - s, if pd < s then 1 else 0)
                     | None \<Rightarrow> (pd, 0));
          c = (if pd < cy then 1 else c)
      in (pd - cy, c))"

fun addm_loop :: "nat \<Rightarrow> u_int \<Rightarrow> u_int list \<Rightarrow> u_int list \<Rightarrow> u_int list \<times> u_int" where
  "addm_loop (Suc n) cy (d # pd) (s # ps) =
     (let (d, cy) = adda d (Some s) cy; (pd, cy) = addm_loop n cy pd ps in (d # pd, cy))"
| "addm_loop _ cy pd ps = (pd, cy)"

definition addm :: "nat \<Rightarrow> u_int list \<Rightarrow> u_int list \<Rightarrow> u_int list \<times> u_int" where
  "addm n pd ps = addm_loop n 0 pd ps"

fun subm_loop :: "nat \<Rightarrow> u_int \<Rightarrow> u_int list \<Rightarrow> u_int list \<Rightarrow> u_int list \<times> u_int" where
  "subm_loop (Suc n) cy (d # pd) (s # ps) =
     (let (d, cy) = suba d (Some s) cy; (pd, cy) = subm_loop n cy pd ps in (d # pd, cy))"
| "subm_loop _ cy pd ps = (pd, cy)"

definition subm :: "nat \<Rightarrow> u_int list \<Rightarrow> u_int list \<Rightarrow> u_int list \<times> u_int" where
  "subm n pd ps = subm_loop n 0 pd ps"

text \<open>\<open>incm\<close> and \<open>decm\<close> stop at the first word that takes the carry.\<close>

fun incm :: "nat \<Rightarrow> u_int list \<Rightarrow> u_int list" where
  "incm (Suc n) (d # pd) =
     (let (d, cy) = adda d None 1 in d # (if cy = 0 then pd else incm n pd))"
| "incm _ pd = pd"

fun decm :: "nat \<Rightarrow> u_int list \<Rightarrow> u_int list" where
  "decm (Suc n) (d # pd) =
     (let (d, cy) = suba d None 1 in d # (if cy = 0 then pd else decm n pd))"
| "decm _ pd = pd"

definition n_zero :: "nat \<Rightarrow> u_int list" where "n_zero n = replicate n 0"

definition n_ff :: "nat \<Rightarrow> u_int list" where "n_ff n = replicate n (-1)"

definition n_one :: "nat \<Rightarrow> u_int list" where "n_one n = 1 # replicate (n - 1) 0"

definition n_not :: "nat \<Rightarrow> u_int list \<Rightarrow> u_int list" where
  "n_not n pa = map (\<lambda>p. NOT p) (take n pa) @ drop n pa"

definition numcpy :: "nat \<Rightarrow> u_int list \<Rightarrow> u_int list \<Rightarrow> u_int list" where
  "numcpy n to from = take n from @ drop n to"

definition n_iszero :: "nat \<Rightarrow> u_int list \<Rightarrow> bool" where
  "n_iszero n pa \<longleftrightarrow> (\<forall>i<n. pa ! i = 0)"

text \<open>\<open>addm(k,pm+i,ps)\<close>.\<close>

definition addm_at :: "nat \<Rightarrow> nat \<Rightarrow> u_int list \<Rightarrow> u_int list \<Rightarrow> u_int list" where
  "addm_at i k pm ps = take i pm @ fst (addm k (drop i pm) ps)"

definition mul1 :: "nat \<Rightarrow> u_int list \<Rightarrow> u_int \<Rightarrow> u_int list" where
  "mul1 n pa b =
     (let pm = n_zero (n + 1) in
      if b \<le> 1 then (if b = 1 then numcpy n pm pa else pm)
      else fold (\<lambda>i pm. let (lo, hi) = mula (pa ! i) b in addm_at i 2 pm [lo, hi]) [0..<n] pm)"

definition mulm :: "nat \<Rightarrow> u_int list \<Rightarrow> u_int list \<Rightarrow> u_int list" where
  "mulm n pa pb = fold (\<lambda>i pm. addm_at i (n + 1) pm (mul1 n pa (pb ! i))) [0..<n] (n_zero (2 * n))"

text \<open>\<open>numcmp\<close> compares from the high word down; it is called with at least one word.\<close>

fun numcmp :: "nat \<Rightarrow> u_int list \<Rightarrow> u_int list \<Rightarrow> int" where
  "numcmp 0 pb ps = 0"
| "numcmp (Suc n) pb ps =
     (let k = pb ! n - ps ! n in
      if k = 0 then numcmp n pb ps else if k > pb ! n then -1 else 1)"

fun div1_loop :: "nat \<Rightarrow> u_int list \<Rightarrow> u_int \<Rightarrow> u_int list \<Rightarrow> u_int \<Rightarrow> u_int list \<times> u_int" where
  "div1_loop 0 pa b pq rem = (pq, rem)"
| "div1_loop (Suc n) pa b pq rem =
     (let (q, rem) = diva (pa ! n) rem b in div1_loop n pa b (pq[n := q]) rem)"

definition div1 :: "nat \<Rightarrow> u_int list \<Rightarrow> u_int \<Rightarrow> u_int list \<Rightarrow> u_int list \<times> u_int" where
  "div1 n pa b pq =
     (if b < 2 then (if b = 1 then numcpy n pq pa else numcpy n pq (n_zero n), 0)
      else div1_loop n pa b pq 0)"

text \<open>The two correction loops of \<open>divm\<close>.\<close>

partial_function (option) divm_down ::
    "nat \<Rightarrow> u_int list \<Rightarrow> u_int list \<Rightarrow> u_int list \<Rightarrow> u_int \<Rightarrow> (u_int list \<times> u_int) option" where
  "divm_down n dv tmp tmp1 qtmp =
     (if numcmp (n + 1) tmp tmp1 < 0 then
        (let (tmp1, cy) = subm n tmp1 dv;
             tmp1 = (if cy \<noteq> 0 then tmp1[n := tmp1 ! n - 1] else tmp1)
         in divm_down n dv tmp tmp1 (qtmp - 1))
      else Some (tmp1, qtmp))"

partial_function (option) divm_up ::
    "nat \<Rightarrow> u_int list \<Rightarrow> u_int list \<Rightarrow> u_int \<Rightarrow> (u_int list \<times> u_int) option" where
  "divm_up n dv tmp qtmp =
     (if tmp ! n \<noteq> 0 \<or> numcmp n tmp dv \<ge> 0 then
        (let (tmp, cy) = subm n tmp dv;
             tmp = (if cy \<noteq> 0 then tmp[n := tmp ! n - 1] else tmp)
         in divm_up n dv tmp (qtmp + 1))
      else Some (tmp, qtmp))"

text \<open>One quotient word of \<open>divm\<close>, lines 174-209; \<open>d\<close> is \<open>*(div+i-n)\<close>, \<open>tmp\<close> the n+1
  words of the running remainder.\<close>

definition divm_step ::
    "nat \<Rightarrow> u_int list \<Rightarrow> u_int \<Rightarrow> u_int \<Rightarrow> u_int list \<Rightarrow> (u_int list \<times> u_int) option" where
  "divm_step n dv testb d tmp =
     (let tmp = d # take n tmp;
          qtmp = (if tmp ! n = testb then -1 else fst (diva (tmp ! (n - 1)) (tmp ! n) testb))
      in if qtmp \<noteq> 0 then
           let tmp1 = mul1 n dv qtmp in
           if numcmp (n + 1) tmp tmp1 < 0 then
             do { (tmp1, qtmp) \<leftarrow> divm_down n dv tmp tmp1 qtmp;
                  Some (fst (subm (n + 1) tmp tmp1), qtmp) }
           else divm_up n dv (fst (subm (n + 1) tmp tmp1)) qtmp
         else Some (tmp, qtmp))"

fun divm_loop :: "nat \<Rightarrow> u_int list \<Rightarrow> u_int list \<Rightarrow> nat \<Rightarrow> u_int list \<Rightarrow> u_int list option
    \<Rightarrow> (u_int list \<times> u_int list option) option" where
  "divm_loop n dd dv 0 tmp quot = Some (tmp, quot)"
| "divm_loop n dd dv (Suc j) tmp quot =
     do { (tmp, qtmp) \<leftarrow> divm_step n dv (dv ! (n - 1)) (dd ! j) tmp;
          divm_loop n dd dv j tmp (map_option (\<lambda>q. q[j := qtmp]) quot) }"

text \<open>\<open>divm\<close> returns -1 and writes nothing when the divisor's high word is 0; \<open>quot\<close> may be
  the null pointer.  The result is the returned word, the quotient array and the remainder
  array.\<close>

definition divm :: "nat \<Rightarrow> u_int list \<Rightarrow> u_int list \<Rightarrow> u_int list option \<Rightarrow> u_int list
    \<Rightarrow> (u_int \<times> u_int list option \<times> u_int list) option" where
  "divm n dd dv quot rem =
     (if dv ! (n - 1) = 0 then Some (-1, quot, rem)
      else do { (tmp, quot) \<leftarrow> divm_loop n dd dv n (take n (drop n dd) @ [0]) quot;
                Some (0, quot, numcpy n rem tmp) })"

fun rshift_words :: "nat \<Rightarrow> u_int list \<Rightarrow> u_int list" where
  "rshift_words i (u # v # ws) = (drop_bit i u OR push_bit (32 - i) v) # rshift_words i (v # ws)"
| "rshift_words i [u] = [drop_bit i u]"
| "rshift_words i [] = []"

definition rshift :: "nat \<Rightarrow> u_int list \<Rightarrow> nat \<Rightarrow> u_int list \<times> u_int" where
  "rshift n up i =
     (rshift_words i (take n up) @ drop n up, drop_bit (32 - i) (push_bit (32 - i) (up ! 0)))"

fun lshift_words :: "nat \<Rightarrow> u_int \<Rightarrow> u_int list \<Rightarrow> u_int list" where
  "lshift_words i low [] = []"
| "lshift_words i low (u # us) = (push_bit i u OR drop_bit (32 - i) low) # lshift_words i u us"

definition lshift :: "nat \<Rightarrow> u_int list \<Rightarrow> nat \<Rightarrow> u_int list \<times> u_int" where
  "lshift n up i = (lshift_words i 0 (take n up) @ drop n up, drop_bit (32 - i) (up ! (n - 1)))"

subsection \<open>Modular product and power\<close>

definition m_m :: "nat \<Rightarrow> u_int list \<Rightarrow> u_int list \<Rightarrow> u_int list \<Rightarrow> u_int list \<Rightarrow> u_int list option" where
  "m_m n a b m ret =
     do { (_, _, ret) \<leftarrow> divm n (mulm n a b) m None ret; Some ret }"

partial_function (option) e_m_even ::
    "nat \<Rightarrow> u_int list \<Rightarrow> u_int list \<Rightarrow> u_int list \<Rightarrow> (u_int list \<times> u_int list) option" where
  "e_m_even n m z1 a1 =
     (if z1 ! 0 AND 1 = 0 then
        do { let z1 = fst (rshift n z1 1); a1 \<leftarrow> m_m n a1 a1 m a1; e_m_even n m z1 a1 }
      else Some (z1, a1))"

partial_function (option) e_m_loop ::
    "nat \<Rightarrow> u_int list \<Rightarrow> u_int list \<Rightarrow> u_int list \<Rightarrow> u_int list \<Rightarrow> u_int list option" where
  "e_m_loop n m z1 a1 x =
     (if \<not> n_iszero n z1 then
        do { (z1, a1) \<leftarrow> e_m_even n m z1 a1;
             let z1 = decm n z1;
             x \<leftarrow> m_m n x a1 m x;
             e_m_loop n m z1 a1 x }
      else Some x)"

definition e_m :: "nat \<Rightarrow> u_int list \<Rightarrow> u_int list \<Rightarrow> u_int list \<Rightarrow> u_int list \<Rightarrow> u_int list option" where
  "e_m n a z m ret =
     do { x \<leftarrow> e_m_loop n m (take n z) (take n a) (n_one n); Some (numcpy n ret x) }"

subsection \<open>The value of an array\<close>

definition B :: nat where "B = 2 ^ 32"

lemma B_pos [simp]: "0 < B" "B \<noteq> 0"
  by (simp_all add: B_def)

fun val :: "u_int list \<Rightarrow> nat" where
  "val [] = 0"
| "val (w # ws) = unat w + B * val ws"

lemma unat_B [simp]: "unat (w :: u_int) < B"
  using unsigned_less [of w] by (simp add: B_def)

lemma unat_le_B: "unat (w :: u_int) \<le> B - 1"
  using unat_B [of w] by linarith

lemma val_less: "val ws < B ^ length ws"
proof (induction ws)
  case (Cons w ws)
  have "unat w + B * val ws < B + B * val ws" by simp
  also have "\<dots> = B * Suc (val ws)" by simp
  also have "\<dots> \<le> B * B ^ length ws" using Cons by (intro mult_le_mono2) simp
  finally show ?case by simp
qed simp

lemma val_append: "val (xs @ ys) = val xs + B ^ length xs * val ys"
  by (induction xs) (simp_all add: algebra_simps)

lemma val_replicate [simp]: "val (replicate n 0) = 0"
  by (induction n) auto

lemma val_zero_iff: "val ws = 0 \<longleftrightarrow> (\<forall>w\<in>set ws. w = 0)"
  by (induction ws) (auto simp: unat_eq_0)

lemma val_update: "i < length ws \<Longrightarrow>
    val (ws[i := w]) + unat (ws ! i) * B ^ i = val ws + unat w * B ^ i"
proof (induction ws arbitrary: i)
  case (Cons u us)
  show ?case
  proof (cases i)
    case (Suc j)
    have "B * (val (us[j := w]) + unat (us ! j) * B ^ j) = B * (val us + unat w * B ^ j)"
      using Cons Suc by simp
    then show ?thesis using Suc by (simp add: algebra_simps)
  qed simp
qed simp

lemma val_inj: "length xs = length ys \<Longrightarrow> val xs = val ys \<Longrightarrow> xs = ys"
proof (induction xs ys rule: list_induct2)
  case (Cons x xs y ys)
  have "unat x = val (x # xs) mod B" "unat y = val (y # ys) mod B" by simp_all
  then have "unat x = unat y" using Cons.prems by metis
  then show ?case using Cons by (simp add: unsigned_word_eqI)
qed simp

subsection \<open>Carry chains\<close>

lemma small_word: "unat (w :: u_int) \<le> 1 \<Longrightarrow> w = 0 \<or> w = 1"
proof (cases "unat w = 0")
  case True
  then show ?thesis by (simp add: unat_eq_0)
next
  case False
  moreover assume "unat w \<le> 1"
  ultimately have "unat w = unat (1 :: u_int)" by simp
  then have "w = 1" by (rule unsigned_word_eqI)
  then show ?thesis ..
qed

lemma unat_ucast64 [simp]: "unat (ucast (a :: u_int) :: 64 word) = unat a"
proof -
  have "unat a < 2 ^ 64" using unat_B [of a] by (simp add: B_def del: unat_B)
  then show ?thesis by (simp add: unsigned_ucast_eq take_bit_nat_eq_self)
qed

lemma add_carry:
  "unat (d + s :: u_int) + (if d + s < s then B else 0) = unat d + unat s"
proof -
  have u: "unat (d + s) = (unat d + unat s) mod B" by (simp add: unat_word_ariths B_def)
  have d: "unat d < B" and s: "unat s < B" by (rule unat_B)+
  show ?thesis
  proof (cases "unat d + unat s < B")
    case True
    then have e: "unat (d + s) = unat d + unat s" using u by (metis mod_less)
    then have "\<not> d + s < s" by (simp only: word_less_nat_alt)
    then show ?thesis using e by (simp only: if_False add_0_right)
  next
    case False
    then have "(unat d + unat s) mod B = unat d + unat s - B"
      using d s by (metis add_less_mono less_add_eq_less linorder_not_less mod_less le_mod_geq
          less_diff_conv2)
    then have e: "unat (d + s) + B = unat d + unat s" using u False by linarith
    then have "d + s < s" using d by (simp only: word_less_nat_alt)
    then show ?thesis using e by (simp only: if_True)
  qed
qed

lemma sub_borrow:
  "unat (d - s :: u_int) + unat s = unat d + (if d < s then B else 0)"
proof (cases "d < s")
  case False
  then show ?thesis by (simp add: unat_sub word_less_nat_alt word_le_nat_alt)
next
  case True
  then have "unat (d - s) = B + unat d - unat s"
    by (simp add: unat_sub_if' word_less_nat_alt B_def)
  moreover have "unat s < B" by (rule unat_B)
  ultimately show ?thesis using True by (simp del: unat_B)
qed

lemma adda_spec:
  assumes "adda d (Some s) cy = (d', c)" "unat cy \<le> 1"
  shows "unat d' + unat c * B = unat d + unat s + unat cy \<and> unat c \<le> 1"
proof (cases "cy = 0")
  case True
  then show ?thesis using assms(1) add_carry [of d s] by (auto simp: adda_def Let_def split: if_splits)
next
  case False
  then have cy: "cy = 1" using small_word [OF assms(2)] by simp
  have "unat (d + s + 1) + (if d + s + 1 = 0 then B else 0) = unat (d + s) + 1"
    using add_carry [of "d + s" 1] by (simp add: word_less_1)
  moreover have "d + s < s \<Longrightarrow> d + s + 1 \<noteq> 0"
  proof
    assume "d + s < s" "d + s + 1 = 0"
    then have "d + s = -1" by (simp add: add_eq_0_iff2)
    then show False using \<open>d + s < s\<close> by simp
  qed
  ultimately show ?thesis using assms(1) cy add_carry [of d s]
    by (auto simp: adda_def Let_def split: if_splits)
qed

lemma suba_spec:
  assumes "suba d (Some s) cy = (d', c)" "unat cy \<le> 1"
  shows "unat d' + unat s + unat cy = unat d + unat c * B \<and> unat c \<le> 1"
proof -
  have "d < s \<Longrightarrow> \<not> (d - s < cy)"
  proof
    assume a: "d < s" "d - s < cy"
    then have "unat (d - s) = 0" using assms(2) by (simp add: word_less_nat_alt)
    then show False using a(1) by (simp add: unat_eq_0)
  qed
  then show ?thesis using assms(1) sub_borrow [of d s] sub_borrow [of "d - s" cy]
    by (auto simp: suba_def Let_def split: if_splits)
qed

lemma addm_loop_spec:
  "addm_loop n cy pd ps = (pd', c) \<Longrightarrow> n \<le> length pd \<Longrightarrow> n \<le> length ps \<Longrightarrow> unat cy \<le> 1 \<Longrightarrow>
     length pd' = length pd \<and> drop n pd' = drop n pd \<and> unat c \<le> 1 \<and>
     val (take n pd') + unat c * B ^ n = val (take n pd) + val (take n ps) + unat cy"
proof (induction n cy pd ps arbitrary: pd' c rule: addm_loop.induct)
  case (1 n cy d pd s ps)
  obtain d1 c1 where a: "adda d (Some s) cy = (d1, c1)" by fastforce
  obtain p2 c2 where r: "addm_loop n c1 pd ps = (p2, c2)" by fastforce
  have s: "unat d1 + unat c1 * B = unat d + unat s + unat cy" "unat c1 \<le> 1"
    using adda_spec [OF a 1(5)] by auto
  have ih: "length p2 = length pd" "drop n p2 = drop n pd" "unat c2 \<le> 1"
    "val (take n p2) + unat c2 * B ^ n = val (take n pd) + val (take n ps) + unat c1"
    using "1.IH" [OF a [symmetric] refl r] 1 s(2) by auto
  have "B * (val (take n p2) + unat c2 * B ^ n) = B * (val (take n pd) + val (take n ps) + unat c1)"
    unfolding ih(4) ..
  then have "unat d1 + B * val (take n p2) + unat c2 * B ^ Suc n =
      unat d + B * val (take n pd) + (unat s + B * val (take n ps)) + unat cy"
    using s(1) by (simp add: algebra_simps)
  moreover have "pd' = d1 # p2" "c = c2" using 1(2) a r by auto
  ultimately show ?case using ih(1-3) by simp
qed auto

lemma addm_spec:
  assumes "addm n pd ps = (pd', c)" "n \<le> length pd" "n \<le> length ps"
  shows "length pd' = length pd" "drop n pd' = drop n pd" "unat c \<le> 1"
    "val (take n pd') + unat c * B ^ n = val (take n pd) + val (take n ps)"
  using addm_loop_spec [OF assms(1) [unfolded addm_def] assms(2,3)] by auto

lemma subm_loop_spec:
  "subm_loop n cy pd ps = (pd', c) \<Longrightarrow> n \<le> length pd \<Longrightarrow> n \<le> length ps \<Longrightarrow> unat cy \<le> 1 \<Longrightarrow>
     length pd' = length pd \<and> drop n pd' = drop n pd \<and> unat c \<le> 1 \<and>
     val (take n pd') + val (take n ps) + unat cy = val (take n pd) + unat c * B ^ n"
proof (induction n cy pd ps arbitrary: pd' c rule: subm_loop.induct)
  case (1 n cy d pd s ps)
  obtain d1 c1 where a: "suba d (Some s) cy = (d1, c1)" by fastforce
  obtain p2 c2 where r: "subm_loop n c1 pd ps = (p2, c2)" by fastforce
  have s: "unat d1 + unat s + unat cy = unat d + unat c1 * B" "unat c1 \<le> 1"
    using suba_spec [OF a 1(5)] by auto
  have ih: "length p2 = length pd" "drop n p2 = drop n pd" "unat c2 \<le> 1"
    "val (take n p2) + val (take n ps) + unat c1 = val (take n pd) + unat c2 * B ^ n"
    using "1.IH" [OF a [symmetric] refl r] 1 s(2) by auto
  have "B * (val (take n p2) + val (take n ps) + unat c1) = B * (val (take n pd) + unat c2 * B ^ n)"
    unfolding ih(4) ..
  then have "unat d1 + B * val (take n p2) + (unat s + B * val (take n ps)) + unat cy =
      unat d + B * val (take n pd) + unat c2 * B ^ Suc n"
    using s(1) by (simp add: algebra_simps)
  moreover have "pd' = d1 # p2" "c = c2" using 1(2) a r by auto
  ultimately show ?case using ih(1-3) by simp
qed auto

lemma subm_spec:
  assumes "subm n pd ps = (pd', c)" "n \<le> length pd" "n \<le> length ps"
  shows "length pd' = length pd" "drop n pd' = drop n pd" "unat c \<le> 1"
    "val (take n pd') + val (take n ps) = val (take n pd) + unat c * B ^ n"
  using subm_loop_spec [OF assms(1) [unfolded subm_def] assms(2,3)] by auto


lemma val_take_le: "val (take k ws) \<le> val ws"
proof -
  have "val ws = val (take k ws) + B ^ length (take k ws) * val (drop k ws)"
    by (metis append_take_drop_id val_append)
  then show ?thesis by simp
qed

lemma val_split: "k \<le> length ws \<Longrightarrow> val ws = val (take k ws) + B ^ k * val (drop k ws)"
  by (metis append_take_drop_id length_take min.absorb2 val_append)

lemma val_drop: "val (drop k ws) = val ws div B ^ k"
proof (cases "k \<le> length ws")
  case True
  then have "val (take k ws) < B ^ k" using val_less [of "take k ws"] by simp
  then show ?thesis using val_split [OF True] by simp
next
  case False
  then have "B ^ length ws \<le> B ^ k" by (intro power_increasing) (auto simp: Suc_leI)
  then have "val ws < B ^ k" using val_less [of ws] by linarith
  then show ?thesis using False by simp
qed

lemma val_take_Suc: "i < length ws \<Longrightarrow> val (take (Suc i) ws) = val (take i ws) + unat (ws ! i) * B ^ i"
  by (simp add: take_Suc_conv_app_nth val_append)

lemma addm_at_spec:
  assumes "i + k \<le> length pm" "k \<le> length ps" "val pm div B ^ i + val (take k ps) < B ^ k"
  shows "length (addm_at i k pm ps) = length pm \<and>
    val (addm_at i k pm ps) = val pm + B ^ i * val (take k ps)"
proof -
  obtain r c where a: "addm k (drop i pm) ps = (r, c)" by fastforce
  have le: "k \<le> length (drop i pm)" using assms(1) by simp
  note sp = addm_spec [OF a le assms(2)]
  have "val (take k (drop i pm)) + val (take k ps) < B ^ k"
    using assms(3) val_take_le [of k "drop i pm"] by (simp add: val_drop)
  then have "unat c = 0" using sp(3,4)
    by (metis add_leD2 le_add2 linorder_not_less mult_1 not_less_eq_eq One_nat_def le_antisym le0)
  then have vk: "val (take k r) = val (take k (drop i pm)) + val (take k ps)" using sp(4) by simp
  have "val r = val (take k r) + B ^ k * val (drop k r)" using val_split [of k r] sp(1) le by simp
  also have "\<dots> = val (drop i pm) + val (take k ps)"
    using vk sp(2) val_split [OF le] by simp
  finally have "val (take i pm @ r) = val (take i pm) + B ^ i * (val (drop i pm) + val (take k ps))"
    using assms(1) by (simp add: val_append)
  also have "\<dots> = val pm + B ^ i * val (take k ps)"
    using val_split [of i pm] assms(1) by (simp add: algebra_simps)
  finally show ?thesis using a sp(1) assms(1) by (simp add: addm_at_def)
qed

lemma mula_spec:
  assumes "mula a b = (lo, hi)"
  shows "unat lo + B * unat hi = unat a * unat b"
proof (cases "a < 2")
  case True
  then have "unat a < 2" by (simp add: word_less_nat_alt)
  then have "a = 0 \<or> a = 1" by (intro small_word) simp
  then show ?thesis using assms True by (auto simp: mula_def)
next
  case False
  let ?t = "ucast a * ucast b :: 64 word"
  have "unat a * unat b < B * B"
    using mult_strict_mono' [OF unat_B [of a] unat_B [of b]] by simp
  then have t: "unat ?t = unat a * unat b"
    by (simp add: unat_word_ariths B_def)
  have "unat (ucast ?t :: u_int) = unat ?t mod B"
    by (simp add: unsigned_ucast_eq take_bit_eq_mod B_def)
  moreover have "unat (ucast (drop_bit 32 ?t) :: u_int) = unat ?t div B mod B"
    by (simp add: unsigned_ucast_eq take_bit_eq_mod B_def drop_bit_eq_div unat_div)
  moreover have "unat ?t div B mod B = unat ?t div B"
    using \<open>unat a * unat b < B * B\<close> t by (simp add: less_mult_imp_div_less)
  ultimately show ?thesis using assms False t
    by (auto simp: mula_def Let_def)
qed

lemma n_zero_props [simp]: "length (n_zero n) = n" "val (n_zero n) = 0"
  by (simp_all add: n_zero_def)

lemma numcpy_props:
  "n \<le> length to \<Longrightarrow> n \<le> length from \<Longrightarrow> length (numcpy n to from) = length to"
  by (simp add: numcpy_def)

lemma mul1_spec:
  assumes "n \<le> length pa"
  shows "length (mul1 n pa b) = n + 1 \<and> val (mul1 n pa b) = val (take n pa) * unat b"
proof (cases "b \<le> 1")
  case True
  then have "unat b \<le> 1" by (simp add: word_le_nat_alt)
  then have "b = 0 \<or> b = 1" by (rule small_word)
  moreover have "drop n (n_zero (n + 1)) = [0]" by (simp add: n_zero_def drop_replicate del: replicate_Suc) simp
  ultimately show ?thesis using assms True
    by (auto simp: mul1_def numcpy_def val_append Let_def)
next
  case False
  let ?step = "\<lambda>i pm. let (lo, hi) = mula (pa ! i) b in addm_at i 2 pm [lo, hi]"
  have "length (fold ?step [0..<i] (n_zero (n + 1))) = n + 1 \<and>
      val (fold ?step [0..<i] (n_zero (n + 1))) = val (take i pa) * unat b" if "i \<le> n" for i
    using that
  proof (induction i)
    case (Suc i)
    define pm where "pm = fold ?step [0..<i] (n_zero (n + 1))"
    obtain lo hi where m: "mula (pa ! i) b = (lo, hi)" by fastforce
    have v: "val (take 2 [lo, hi]) = unat (pa ! i) * unat b"
      using mula_spec [OF m] by simp
    have "val (take i pa) < B ^ i" using val_less [of "take i pa"] Suc.prems assms by simp
    then have "val (take i pa) * unat b < B ^ i * B" by (intro mult_strict_mono') auto
    then have "val pm div B ^ i < B"
      using Suc by (simp add: pm_def less_mult_imp_div_less mult.commute)
    moreover have "unat (pa ! i) * unat b \<le> (B - 1) * (B - 1)"
      by (intro mult_le_mono unat_le_B)
    moreover have "(B - 1) + (B - 1) * (B - 1) < B ^ 2" by (simp add: B_def)
    ultimately have lt: "val pm div B ^ i + val (take 2 [lo, hi]) < B ^ 2"
      unfolding v by linarith
    have pm: "length pm = n + 1" "val pm = val (take i pa) * unat b"
      using Suc by (simp_all add: pm_def)
    have "fold ?step [0..<Suc i] (n_zero (n + 1)) = addm_at i 2 pm [lo, hi]"
      by (simp add: pm_def m)
    moreover have "length (addm_at i 2 pm [lo, hi]) = length pm \<and>
        val (addm_at i 2 pm [lo, hi]) = val pm + B ^ i * val (take 2 [lo, hi])"
      using addm_at_spec [OF _ _ lt] Suc.prems pm by simp
    moreover have "val pm + B ^ i * val (take 2 [lo, hi]) = val (take (Suc i) pa) * unat b"
      unfolding v pm(2) using Suc.prems assms by (simp add: val_take_Suc algebra_simps)
    ultimately show ?case using pm(1) by simp
  qed simp
  from this [of n] show ?thesis using False by (simp add: mul1_def Let_def)
qed


lemma mulm_spec:
  assumes "n \<le> length pa" "n \<le> length pb"
  shows "length (mulm n pa pb) = 2 * n \<and> val (mulm n pa pb) = val (take n pa) * val (take n pb)"
proof -
  let ?step = "\<lambda>i pm. addm_at i (n + 1) pm (mul1 n pa (pb ! i))"
  let ?A = "val (take n pa)"
  have A: "?A < B ^ n" using val_less [of "take n pa"] assms(1) by simp
  have "length (fold ?step [0..<i] (n_zero (2 * n))) = 2 * n \<and>
      val (fold ?step [0..<i] (n_zero (2 * n))) = ?A * val (take i pb)" if "i \<le> n" for i
    using that
  proof (induction i)
    case (Suc i)
    define pm where "pm = fold ?step [0..<i] (n_zero (2 * n))"
    have pm: "length pm = 2 * n" "val pm = ?A * val (take i pb)"
      using Suc by (simp_all add: pm_def)
    note m = mul1_spec [OF assms(1), of "pb ! i"]
    have v: "val (take (n + 1) (mul1 n pa (pb ! i))) = ?A * unat (pb ! i)" using m by simp
    have lt: "val pm div B ^ i + val (take (n + 1) (mul1 n pa (pb ! i))) < B ^ (n + 1)"
    proof (cases "?A = 0")
      case False
      have "val (take i pb) < B ^ i" using val_less [of "take i pb"] Suc.prems assms by simp
      then have "val pm < ?A * B ^ i" using pm(2) False by simp
      then have "val pm div B ^ i < ?A" by (simp add: less_mult_imp_div_less)
      moreover have "?A * unat (pb ! i) \<le> ?A * (B - 1)" by (intro mult_le_mono2 unat_le_B)
      moreover have "?A + ?A * (B - 1) = ?A * B" by (simp add: diff_mult_distrib2 B_def)
      moreover have "?A * B < B ^ (n + 1)" using A by simp
      ultimately show ?thesis unfolding v by linarith
    next
      case True
      then show ?thesis unfolding pm(2) v by simp
    qed
    have "fold ?step [0..<Suc i] (n_zero (2 * n)) = addm_at i (n + 1) pm (mul1 n pa (pb ! i))"
      by (simp add: pm_def)
    moreover have "length (addm_at i (n + 1) pm (mul1 n pa (pb ! i))) = length pm \<and>
        val (addm_at i (n + 1) pm (mul1 n pa (pb ! i))) =
          val pm + B ^ i * val (take (n + 1) (mul1 n pa (pb ! i)))"
      using addm_at_spec [OF _ _ lt] Suc.prems pm m by simp
    moreover have "val pm + B ^ i * val (take (n + 1) (mul1 n pa (pb ! i))) = ?A * val (take (Suc i) pb)"
      unfolding v pm(2) using Suc.prems assms by (simp add: val_take_Suc algebra_simps)
    ultimately show ?case using pm(1) by simp
  qed simp
  from this [of n] show ?thesis by (simp add: mulm_def)
qed

lemma incm_spec:
  "n \<le> length pd \<Longrightarrow> length (incm n pd) = length pd \<and> drop n (incm n pd) = drop n pd \<and>
     val (take n (incm n pd)) = (val (take n pd) + 1) mod B ^ n"
proof (induction n pd rule: incm.induct)
  case (1 n d pd)
  have d: "unat (d + 1) + (if d + 1 = 0 then B else 0) = unat d + 1"
    using add_carry [of d 1] by (simp add: word_less_1)
  have lt: "val (take n pd) < B ^ n" using val_less [of "take n pd"] 1(2) by simp
  show ?case
  proof (cases "d + 1 = 0")
    case True
    then have ih: "length (incm n pd) = length pd" "drop n (incm n pd) = drop n pd"
      "val (take n (incm n pd)) = (val (take n pd) + 1) mod B ^ n"
      using 1 by (auto simp: adda_def Let_def)
    have "unat d + 1 = B" using d True by simp
    then have "unat d + B * val (take n pd) + 1 = B * (val (take n pd) + 1)" by simp
    then have "(unat d + B * val (take n pd) + 1) mod (B * B ^ n) = B * ((val (take n pd) + 1) mod B ^ n)"
      by (simp only: mult_mod_right)
    then show ?thesis using True ih by (simp add: adda_def Let_def)
  next
    case False
    then have e: "unat (d + 1) = unat d + 1" using d by simp
    then have "unat d + 1 + B * val (take n pd) < B * B ^ n"
    proof -
      have "unat d + 1 < B" using unat_B [of "d + 1"] e by (simp del: unat_B)
      moreover have "B * val (take n pd) + B \<le> B * B ^ n"
        using lt by (metis Suc_leI mult_Suc_right mult_le_mono2 add.commute)
      ultimately show ?thesis by linarith
    qed
    then show ?thesis using False e by (simp add: adda_def Let_def)
  qed
qed auto

text \<open>\<open>numcmp\<close> is the comparison of the values.\<close>

lemma numcmp_word:
  "(pb - ps = 0) = (pb = (ps :: u_int))" "pb \<noteq> ps \<Longrightarrow> (pb - ps > pb) = (pb < ps)"
proof -
  show "(pb - ps = 0) = (pb = ps)" by simp
  assume ne: "pb \<noteq> ps"
  show "(pb - ps > pb) = (pb < ps)"
  proof (cases "pb < ps")
    case True
    then have "unat (pb - ps) + unat ps = unat pb + B" using sub_borrow [of pb ps] by simp
    then have "unat pb < unat (pb - ps)" using unat_B [of ps] by linarith
    then show ?thesis using True by (simp add: word_less_nat_alt)
  next
    case False
    then have "unat (pb - ps) + unat ps = unat pb" using sub_borrow [of pb ps] by simp
    then have "unat (pb - ps) \<le> unat pb" by linarith
    then show ?thesis using False by (simp add: word_less_nat_alt)
  qed
qed

lemma numcmp_spec:
  "n \<le> length pb \<Longrightarrow> n \<le> length ps \<Longrightarrow>
     numcmp n pb ps = (if val (take n pb) < val (take n ps) then -1
                       else if val (take n ps) < val (take n pb) then 1 else 0)"
proof (induction n)
  case (Suc n)
  have lt: "val (take n pb) < B ^ n" "val (take n ps) < B ^ n"
    using val_less [of "take n pb"] val_less [of "take n ps"] Suc.prems by simp_all
  have hi: "x + unat v * B ^ n < y + unat w * B ^ n" if "x < B ^ n" "v < w" for x y :: nat and v w :: u_int
  proof -
    have "unat v + 1 \<le> unat w" using that(2) by (simp add: word_less_nat_alt)
    then have "(unat v + 1) * B ^ n \<le> unat w * B ^ n" by (rule mult_le_mono1)
    then show ?thesis using that(1) by (simp add: algebra_simps)
  qed
  consider "pb ! n = ps ! n" | "pb ! n < ps ! n" | "ps ! n < pb ! n" by fastforce
  then show ?case
  proof cases
    case 1
    then show ?thesis using Suc by (simp add: val_take_Suc)
  next
    case 2
    then have "pb ! n \<noteq> ps ! n" by auto
    then show ?thesis using 2 hi [OF lt(1) 2, of "val (take n ps)"] numcmp_word [of "pb ! n" "ps ! n"] Suc.prems
      by (simp add: val_take_Suc Let_def)
  next
    case 3
    then have "pb ! n \<noteq> ps ! n" "\<not> pb ! n < ps ! n" by auto
    then show ?thesis using hi [OF lt(2) 3, of "val (take n pb)"] numcmp_word [of "pb ! n" "ps ! n"] Suc.prems
      by (simp add: val_take_Suc Let_def)
  qed
qed simp


subsection \<open>Long division\<close>

lemma diva_spec:
  assumes "diva p0 p1 b = (q, r)" "b \<noteq> 0" "unat p1 < unat b"
  shows "unat q = (unat p0 + B * unat p1) div unat b" "unat r = (unat p0 + B * unat p1) mod unat b"
proof -
  let ?t = "push_bit 32 (ucast p1) + ucast p0 :: 64 word"
  have "unat p0 + B * unat p1 < B * B"
  proof -
    have "B * unat p1 + B \<le> B * B" using unat_B [of p1]
      by (metis Suc_leI mult_Suc_right mult_le_mono2 add.commute)
    then show ?thesis using unat_B [of p0] by linarith
  qed
  then have t: "unat ?t = unat p0 + B * unat p1"
    by (simp add: unat_word_ariths push_bit_eq_mult B_def)
  have b: "unat (ucast b :: 64 word) = unat b" by simp
  have "unat p0 + B * unat p1 < B * unat b"
  proof -
    have "B * (unat p1 + 1) \<le> B * unat b" using assms(3) by (intro mult_le_mono2) simp
    moreover have "B * (unat p1 + 1) = B * unat p1 + B" by simp
    ultimately show ?thesis using unat_B [of p0] by linarith
  qed
  then have "(unat p0 + B * unat p1) div unat b < B" by (simp add: less_mult_imp_div_less)
  moreover have "unat (?t div ucast b) = (unat p0 + B * unat p1) div unat b"
    by (simp only: unat_div t b)
  ultimately show "unat q = (unat p0 + B * unat p1) div unat b"
    using assms(1) by (auto simp: diva_def Let_def unsigned_ucast_eq take_bit_nat_eq_self B_def)
  have "(unat p0 + B * unat p1) mod unat b < unat b" using assms(2) by (simp add: unat_gt_0)
  then have "(unat p0 + B * unat p1) mod unat b < B" using unat_B [of b] by linarith
  moreover have "unat (?t mod ucast b) = (unat p0 + B * unat p1) mod unat b"
    by (simp only: unat_mod t b)
  ultimately show "unat r = (unat p0 + B * unat p1) mod unat b"
    using assms(1) by (auto simp: diva_def Let_def unsigned_ucast_eq take_bit_nat_eq_self B_def)
qed

text \<open>Subtracting the n-word divisor from an (n+1)-word number, borrow from the top word.\<close>

definition sub_top :: "nat \<Rightarrow> u_int list \<Rightarrow> u_int list \<Rightarrow> u_int list" where
  "sub_top n x dv = (let (x, cy) = subm n x dv in if cy \<noteq> 0 then x[n := x ! n - 1] else x)"

lemma sub_top_spec:
  assumes "length x = n + 1" "n \<le> length dv" "val (take n dv) \<le> val x"
  shows "length (sub_top n x dv) = n + 1 \<and> val (sub_top n x dv) = val x - val (take n dv)"
proof -
  obtain y cy where s: "subm n x dv = (y, cy)" by fastforce
  have le: "n \<le> length x" using assms(1) by simp
  note sp = subm_spec [OF s le assms(2)]
  have top: "y ! n = x ! n" using sp(1,2) assms(1)
    by (metis Cons_nth_drop_Suc less_add_one list.inject)
  have vx: "val x = val (take n x) + unat (x ! n) * B ^ n" if "length x = n + 1" for x
    using val_take_Suc [of n x] that by simp
  show ?thesis
  proof (cases "cy = 0")
    case True
    have "val y + val (take n dv) = val x"
      using sp(1,4) True top vx [of x] vx [of y] assms(1) by simp
    then show ?thesis using s True sp(1) assms(1) by (simp add: sub_top_def)
  next
    case False
    then have cy: "unat cy = 1" using small_word [OF sp(3)] by auto
    have "x ! n \<noteq> 0"
    proof
      assume "x ! n = 0"
      then have "val x = val (take n x)" using vx [OF assms(1)] by simp
      moreover have "val (take n y) + val (take n dv) = val (take n x) + B ^ n" using sp(4) cy by simp
      ultimately have "val (take n y) \<ge> B ^ n" using assms(3) by linarith
      then show False using val_less [of "take n y"] sp(1) assms(1) by simp
    qed
    then have u: "unat (x ! n - 1) + 1 = unat (x ! n)"
      using sub_borrow [of "x ! n" 1] by (simp add: word_less_1)
    let ?z = "y[n := y ! n - 1]"
    have "val ?z = val (take n y) + unat (x ! n - 1) * B ^ n"
      using vx [of ?z] sp(1) assms(1) top by simp
    moreover have "val x = val (take n x) + unat (x ! n - 1) * B ^ n + B ^ n"
      using vx [OF assms(1)] u by (metis add.assoc add_mult_distrib mult_1)
    ultimately have "val ?z + val (take n dv) = val x" using sp(4) cy by simp
    then show ?thesis using s False sp(1) assms(1) by (simp add: sub_top_def)
  qed
qed

lemma val_whole: "length x = k \<Longrightarrow> val (take k x) = val x"
  by simp

lemma divm_down_spec:
  assumes "length tmp = n + 1" "n \<le> length dv" "0 < val (take n dv)" "length tmp1 = n + 1"
    "val tmp1 = unat qtmp * val (take n dv)" "val tmp div val (take n dv) \<le> unat qtmp"
  shows "\<exists>tmp1' q. divm_down n dv tmp tmp1 qtmp = Some (tmp1', q) \<and> length tmp1' = n + 1 \<and>
    unat q = val tmp div val (take n dv) \<and> val tmp1' = unat q * val (take n dv)"
  using assms(4-6)
proof (induction "unat qtmp" arbitrary: tmp1 qtmp rule: less_induct)
  case less
  let ?D = "val (take n dv)"
  have cmp: "numcmp (n + 1) tmp tmp1 < 0 \<longleftrightarrow> val tmp < val tmp1"
    using numcmp_spec [of "n + 1" tmp tmp1] assms(1) less.prems(1) by simp
  show ?case
  proof (cases "val tmp < val tmp1")
    case False
    then have "unat qtmp \<le> val tmp div ?D"
      using less.prems(2) assms(3) by (simp add: less_eq_div_iff_mult_less_eq)
    then show ?thesis using less.prems False cmp by (subst divm_down.simps) simp
  next
    case True
    then have q: "val tmp div ?D < unat qtmp"
      using less.prems(2) assms(3) by (metis div_less_iff_less_mult)
    then have q1: "unat (qtmp - 1) + 1 = unat qtmp"
      using sub_borrow [of qtmp 1] by (auto simp: word_less_1)
    have "?D \<le> val tmp1" unfolding less.prems(2) using q by simp
    note st = sub_top_spec [OF less.prems(1) assms(2) this]
    have "val (sub_top n tmp1 dv) = unat (qtmp - 1) * ?D"
      using st less.prems(2) q1 by (metis add_diff_cancel_right' add_mult_distrib mult_1)
    moreover have "val tmp div ?D \<le> unat (qtmp - 1)" using q q1 by linarith
    ultimately have "\<exists>tmp1' q. divm_down n dv tmp (sub_top n tmp1 dv) (qtmp - 1) = Some (tmp1', q) \<and>
       length tmp1' = n + 1 \<and> unat q = val tmp div ?D \<and> val tmp1' = unat q * ?D"
      using st q1 by (intro less.hyps) auto
    moreover have "divm_down n dv tmp tmp1 qtmp = divm_down n dv tmp (sub_top n tmp1 dv) (qtmp - 1)"
      using True cmp by (subst divm_down.simps) (simp add: sub_top_def split: prod.split)
    ultimately show ?thesis by simp
  qed
qed

lemma divm_up_stop:
  assumes "length tmp = n + 1" "n \<le> length dv" "val tmp < val (take n dv)"
  shows "divm_up n dv tmp q = Some (tmp, q)"
proof -
  have "val tmp = val (take n tmp) + unat (tmp ! n) * B ^ n"
    using val_take_Suc [of n tmp] assms(1) by simp
  moreover have "val (take n dv) < B ^ n" using val_less [of "take n dv"] assms(2) by simp
  ultimately have "unat (tmp ! n) * B ^ n < 1 * B ^ n" "val (take n tmp) < val (take n dv)"
    using assms(3) by linarith+
  then have "tmp ! n = 0" "numcmp n tmp dv < 0"
    using numcmp_spec [of n tmp dv] assms(1,2) by (auto simp: unat_eq_0)
  then show ?thesis by (subst divm_up.simps) simp
qed


lemma divm_step_spec:
  assumes "0 < n" "n \<le> length dv" "dv ! (n - 1) \<noteq> 0" "length tmp = n + 1"
    "val (take n tmp) < val (take n dv)"
  shows "\<exists>tmp' q. divm_step n dv (dv ! (n - 1)) d tmp = Some (tmp', q) \<and> length tmp' = n + 1 \<and>
    unat q = (unat d + B * val (take n tmp)) div val (take n dv) \<and>
    val tmp' = (unat d + B * val (take n tmp)) mod val (take n dv)"
proof -
  let ?D = "val (take n dv)" and ?t = "d # take n tmp" and ?b = "dv ! (n - 1)"
  define T where "T = unat d + B * val (take n tmp)"
  obtain m where n: "n = Suc m" using assms(1) by (cases n) auto
  have t: "length ?t = n + 1" "val ?t = T" using assms(4) by (simp_all add: T_def)
  have "?D = val (take m dv) + unat ?b * B ^ m"
    using val_take_Suc [of m dv] assms(2) n by simp
  moreover have "val (take m dv) < B ^ m" using val_less [of "take m dv"] assms(2) n by simp
  ultimately have D: "unat ?b * B ^ m \<le> ?D" "?D < (unat ?b + 1) * B ^ m" by simp_all
  have b0: "0 < unat ?b" using assms(3) by (simp add: unat_gt_0)
  then have D0: "0 < ?D" using assms(5) by simp
  have "B * (val (take n tmp) + 1) \<le> B * ?D" using assms(5) by (intro mult_le_mono2) simp
  then have TD: "T < B * ?D" using unat_B [of d] unfolding T_def by (simp only: distrib_left)
  then have qB: "T div ?D < B" by (simp add: less_mult_imp_div_less)
  have Tsplit: "T = val (take m ?t) + unat (?t ! m) * B ^ m + unat (?t ! n) * B ^ n"
    using val_take_Suc [of m ?t] val_take_Suc [of n ?t] t n by simp
  have low: "val (take m ?t) < B ^ m" using val_less [of "take m ?t"] t(1) n by simp
  let ?h = "unat (?t ! m) + B * unat (?t ! n)"
  have T2: "T < (?h + 1) * B ^ m" "?h * B ^ m \<le> T"
    using Tsplit low n by (simp_all add: algebra_simps)
  have topb: "unat (?t ! n) \<le> unat ?b"
  proof (rule ccontr)
    assume "\<not> unat (?t ! n) \<le> unat ?b"
    then have "(unat ?b + 1) * B ^ n \<le> unat (?t ! n) * B ^ n" by (intro mult_le_mono1) simp
    then have "(unat ?b + 1) * B ^ n \<le> T" using Tsplit by linarith
    moreover have "B * ?D < B * ((unat ?b + 1) * B ^ m)" using D(2) by simp
    ultimately show False using TD n by (simp add: algebra_simps)
  qed
  define qh where "qh = (if ?t ! n = ?b then -1 else fst (diva (?t ! (n - 1)) (?t ! n) ?b))"
  have qh: "T div ?D \<le> unat qh"
  proof (cases "?t ! n = ?b")
    case True
    have "unat (-1 :: u_int) = B - 1" using sub_borrow [of 0 1] by (simp add: B_def)
    then show ?thesis using True qB by (simp add: qh_def)
  next
    case False
    then have "unat (?t ! n) < unat ?b"
      using topb by (metis le_neq_implies_less unsigned_word_eqI)
    then have q: "unat qh = ?h div unat ?b"
      using diva_spec(1) [of "?t ! m" "?t ! n" ?b] assms(3) False n
      by (metis (no_types, lifting) diff_Suc_1 prod.collapse qh_def)
    have "T div ?D * (unat ?b * B ^ m) \<le> T div ?D * ?D" using D(1) by (rule mult_le_mono2)
    also have "\<dots> \<le> T" by simp
    finally have "(T div ?D * unat ?b) * B ^ m < (?h + 1) * B ^ m" using T2(1) by (simp add: mult.assoc)
    then have "T div ?D * unat ?b < ?h + 1" by (simp only: mult_less_cancel2)
    then have "T div ?D * unat ?b \<le> ?h" by linarith
    then show ?thesis unfolding q using b0 by (simp add: less_eq_div_iff_mult_less_eq)
  qed
  have m1: "length (mul1 n dv qh) = n + 1" "val (mul1 n dv qh) = unat qh * ?D"
    using mul1_spec [OF assms(2), of qh] by (simp_all add: mult.commute)
  have sub: "length (fst (subm (n + 1) ?t x)) = n + 1 \<and> val (fst (subm (n + 1) ?t x)) = T - val x"
    if "length x = n + 1" "val x \<le> T" for x
  proof -
    obtain y c where s: "subm (n + 1) ?t x = (y, c)" by fastforce
    note sp = subm_spec [OF s]
    have "val y + val x = T + unat c * B ^ (n + 1)" "length y = n + 1" "unat c \<le> 1"
      using sp that t by simp_all
    moreover have "unat c = 0"
    proof (rule ccontr)
      assume "unat c \<noteq> 0"
      then have "unat c = 1" using \<open>unat c \<le> 1\<close> by simp
      then have "B ^ (n + 1) \<le> val y" using calculation(1) that(2) by simp
      then show False using val_less [of y] \<open>length y = n + 1\<close> by simp
    qed
    ultimately show ?thesis using s by simp
  qed
  have cmp: "numcmp (n + 1) ?t (mul1 n dv qh) < 0 \<longleftrightarrow> T < unat qh * ?D"
    using numcmp_spec [of "n + 1" ?t "mul1 n dv qh"] t m1 by simp
  have eq: "divm_step n dv ?b d tmp =
      (if qh \<noteq> 0 then
         (if numcmp (n + 1) ?t (mul1 n dv qh) < 0 then
            divm_down n dv ?t (mul1 n dv qh) qh \<bind> (\<lambda>(x, q). Some (fst (subm (n + 1) ?t x), q))
          else divm_up n dv (fst (subm (n + 1) ?t (mul1 n dv qh))) qh)
       else Some (?t, qh))"
    by (simp only: divm_step_def Let_def qh_def)
  have rem: "T - T div ?D * ?D = T mod ?D" by (simp add: minus_div_mult_eq_mod)
  consider "qh = 0" | "qh \<noteq> 0" "T < unat qh * ?D" | "qh \<noteq> 0" "unat qh * ?D \<le> T" by linarith
  then have "\<exists>tmp' q. divm_step n dv ?b d tmp = Some (tmp', q) \<and> length tmp' = n + 1 \<and>
    unat q = T div ?D \<and> val tmp' = T mod ?D"
  proof cases
    case 1
    then have "T div ?D = 0" using qh by simp
    then have "T mod ?D = T" using D0 by (simp add: div_eq_0_iff)
    then show ?thesis using 1 t \<open>T div ?D = 0\<close>
      by (subst eq, simp)
  next
    case 2
    obtain x q where x: "divm_down n dv ?t (mul1 n dv qh) qh = Some (x, q)" "length x = n + 1"
        "unat q = T div ?D" "val x = unat q * ?D"
      using divm_down_spec [OF t(1) assms(2) D0 m1] qh t(2) by auto
    then have "val x \<le> T" by simp
    from sub [OF x(2) this] show ?thesis using 2 cmp x rem
      by (subst eq, simp)
  next
    case 3
    then have "unat qh \<le> T div ?D" using D0 by (simp add: less_eq_div_iff_mult_less_eq)
    then have q: "unat qh = T div ?D" using qh by simp
    note s = sub [OF m1(1)]
    have "divm_up n dv (fst (subm (n + 1) ?t (mul1 n dv qh))) qh =
        Some (fst (subm (n + 1) ?t (mul1 n dv qh)), qh)"
      using s m1(2) 3(2) q rem D0 by (intro divm_up_stop [OF _ assms(2)]) auto
    moreover have "\<not> numcmp (n + 1) ?t (mul1 n dv qh) < 0" using cmp 3(2) by simp
    ultimately have "divm_step n dv ?b d tmp = Some (fst (subm (n + 1) ?t (mul1 n dv qh)), qh)"
      using 3(1) by (simp only: eq if_True if_False not_False_eq_True)
    then show ?thesis using 3(2) s m1(2) q rem by simp
  qed
  then show ?thesis by (simp add: T_def)
qed


lemma divm_loop_spec:
  assumes "0 < n" "n \<le> length dv" "dv ! (n - 1) \<noteq> 0" "length tmp = n + 1"
    "val (take n tmp) < val (take n dv)" "j \<le> length dd" "\<And>q. quot = Some q \<Longrightarrow> j \<le> length q"
  shows "\<exists>tmp' quot'. divm_loop n dd dv j tmp quot = Some (tmp', quot') \<and> length tmp' = n + 1 \<and>
    val (take n tmp') = (val (take n tmp) * B ^ j + val (take j dd)) mod val (take n dv) \<and>
    (case quot of None \<Rightarrow> quot' = None
     | Some q \<Rightarrow> \<exists>q'. quot' = Some q' \<and> length q' = length q \<and> drop j q' = drop j q \<and>
         val (take j q') = (val (take n tmp) * B ^ j + val (take j dd)) div val (take n dv))"
  using assms(4-7)
proof (induction j arbitrary: tmp quot)
  case 0
  then show ?case by (auto split: option.split)
next
  case (Suc j)
  let ?D = "val (take n dv)"
  define T where "T = unat (dd ! j) + B * val (take n tmp)"
  have D0: "0 < ?D" using Suc.prems(2) by simp
  obtain x q where x: "divm_step n dv (dv ! (n - 1)) (dd ! j) tmp = Some (x, q)" "length x = n + 1"
      "unat q = T div ?D" "val x = T mod ?D"
    using divm_step_spec [OF assms(1-3) Suc.prems(1,2), of "dd ! j"] by (auto simp: T_def)
  have vx: "val (take n x) = T mod ?D"
  proof -
    have "val x = val (take n x) + unat (x ! n) * B ^ n"
      using val_take_Suc [of n x] x(2) by simp
    moreover have "val x < B ^ n"
      using x(4) D0 val_less [of "take n dv"] assms(2) by (metis length_take less_trans min.absorb2 mod_less_divisor)
    ultimately have "unat (x ! n) * B ^ n < 1 * B ^ n" by linarith
    then have "unat (x ! n) = 0" by (simp only: mult_less_cancel2) simp
    then show ?thesis using \<open>val x = val (take n x) + unat (x ! n) * B ^ n\<close> x(4) by simp
  qed
  let ?quot = "map_option (\<lambda>qs. qs[j := q]) quot"
  have pre: "val (take n x) < ?D" "j \<le> length dd" "\<And>q. ?quot = Some q \<Longrightarrow> j \<le> length q"
    using vx D0 Suc.prems(3) by simp_all (use Suc.prems(4) in force)
  obtain tmp' quot' where ih: "divm_loop n dd dv j x ?quot = Some (tmp', quot')" "length tmp' = n + 1"
    "val (take n tmp') = (T mod ?D * B ^ j + val (take j dd)) mod ?D"
    "case ?quot of None \<Rightarrow> quot' = None
     | Some q \<Rightarrow> \<exists>q'. quot' = Some q' \<and> length q' = length q \<and> drop j q' = drop j q \<and>
         val (take j q') = (T mod ?D * B ^ j + val (take j dd)) div ?D"
    using Suc.IH [OF x(2) pre] unfolding vx by blast
  have num: "val (take n tmp) * B ^ Suc j + val (take (Suc j) dd) = T * B ^ j + val (take j dd)"
    using Suc.prems(3) by (simp add: val_take_Suc T_def algebra_simps)
  have T: "T * B ^ j + val (take j dd) = (T mod ?D * B ^ j + val (take j dd)) + (T div ?D * B ^ j) * ?D"
  proof -
    have "T * B ^ j = (T div ?D * ?D + T mod ?D) * B ^ j" by simp
    then show ?thesis by (simp only: algebra_simps)
  qed
  have md: "(T * B ^ j + val (take j dd)) mod ?D = (T mod ?D * B ^ j + val (take j dd)) mod ?D"
    unfolding T by (rule mod_mult_self1)
  have dv: "(T * B ^ j + val (take j dd)) div ?D =
      T div ?D * B ^ j + (T mod ?D * B ^ j + val (take j dd)) div ?D"
    unfolding T using D0 by (subst div_mult_self1) auto
  show ?case
  proof (cases quot)
    case None
    then show ?thesis using x(1) ih num md by simp
  next
    case (Some qs)
    then have len: "Suc j \<le> length qs" using Suc.prems(4) by simp
    obtain q' where q': "quot' = Some q'" "length q' = length qs" "drop j q' = drop j (qs[j := q])"
        "val (take j q') = (T mod ?D * B ^ j + val (take j dd)) div ?D"
      using ih(4) Some by auto
    have "q' ! j = q" using q'(2,3) len
      by (metis Cons_nth_drop_Suc Suc_le_lessD length_list_update list.inject nth_list_update_eq)
    moreover have "drop (Suc j) q' = drop (Suc j) qs"
      using q'(3) by (metis drop_Suc drop_update_cancel lessI tl_drop)
    ultimately show ?thesis using x(1,3) ih num md dv Some q' len
      by (simp add: val_take_Suc)
  qed
qed

lemma divm_spec:
  assumes "0 < n" "n \<le> length dv" "dv ! (n - 1) \<noteq> 0" "length dd = 2 * n" "n \<le> length rem"
    "val (drop n dd) < val (take n dv)" "\<And>q. quot = Some q \<Longrightarrow> n \<le> length q"
  shows "\<exists>quot' rem'. divm n dd dv quot rem = Some (0, quot', rem') \<and> length rem' = length rem \<and>
    val (take n rem') = val dd mod val (take n dv) \<and>
    (case quot of None \<Rightarrow> quot' = None
     | Some q \<Rightarrow> \<exists>q'. quot' = Some q' \<and> val (take n q') = val dd div val (take n dv))"
proof -
  have t: "length (take n (drop n dd) @ [0]) = n + 1" "take n (take n (drop n dd) @ [0]) = drop n dd"
    using assms(4) by simp_all
  have vd: "val (drop n dd) * B ^ n + val (take n dd) = val dd"
    using val_split [of n dd] assms(4) by (simp add: mult.commute)
  obtain tmp' quot' where l: "divm_loop n dd dv n (take n (drop n dd) @ [0]) quot = Some (tmp', quot')"
    "length tmp' = n + 1" "val (take n tmp') = val dd mod val (take n dv)"
    "case quot of None \<Rightarrow> quot' = None
     | Some q \<Rightarrow> \<exists>q'. quot' = Some q' \<and> length q' = length q \<and> drop n q' = drop n q \<and>
         val (take n q') = val dd div val (take n dv)"
    using divm_loop_spec [OF assms(1-3) t(1), of n dd quot] assms(4,6,7) unfolding t(2) vd by auto
  have "take n (numcpy n rem tmp') = take n tmp'" "length (numcpy n rem tmp') = length rem"
    using assms(5) l(2) by (simp_all add: numcpy_def)
  then show ?thesis using l assms(3)
    by (auto simp: divm_def split: option.splits)
qed

lemma decm_spec:
  "n \<le> length pd \<Longrightarrow> length (decm n pd) = length pd \<and> drop n (decm n pd) = drop n pd \<and>
     val (take n (decm n pd)) + 1 = val (take n pd) + (if val (take n pd) = 0 then B ^ n else 0)"
proof (induction n pd rule: decm.induct)
  case (1 n d pd)
  show ?case
  proof (cases "d = 0")
    case True
    then have ih: "length (decm n pd) = length pd" "drop n (decm n pd) = drop n pd"
      "val (take n (decm n pd)) + 1 = val (take n pd) + (if val (take n pd) = 0 then B ^ n else 0)"
      using 1 by (auto simp: suba_def Let_def)
    have m1: "unat (-1 :: u_int) + 1 = B" by (use add_carry [of "-1" 1] in simp)
    have "B * (val (take n (decm n pd)) + 1) =
        B * (val (take n pd) + (if val (take n pd) = 0 then B ^ n else 0))"
      unfolding ih(3) ..
    then have "unat (-1 :: u_int) + B * val (take n (decm n pd)) + 1 =
        B * val (take n pd) + (if val (take n pd) = 0 then B * B ^ n else 0)"
      using m1 by (simp only: distrib_left mult_1_right) (simp split: if_splits)
    then show ?thesis using True ih(1,2) by (simp add: suba_def Let_def)
  next
    case False
    then have "\<not> d < 1" by (simp add: word_less_1)
    moreover have "unat (d - 1) + 1 = unat d" using sub_borrow [of d 1] calculation by simp
    moreover have "0 < unat d" using False by (simp add: unat_gt_0)
    ultimately show ?thesis by (simp add: suba_def Let_def)
  qed
qed auto

lemma n_iszero_spec: "n \<le> length pa \<Longrightarrow> n_iszero n pa \<longleftrightarrow> val (take n pa) = 0"
  unfolding n_iszero_def val_zero_iff nth_image [symmetric] by auto

lemma n_one_val: "0 < n \<Longrightarrow> length (n_one n) = n \<and> val (n_one n) = 1"
  by (simp add: n_one_def)

lemma shift_word:
  assumes "0 < i" "i < 32"
  shows "unat (drop_bit i u OR push_bit (32 - i) v :: u_int) =
    unat u div 2 ^ i + (unat v mod 2 ^ i) * 2 ^ (32 - i)"
proof -
  have pow: "(2::nat) ^ 32 = 2 ^ i * 2 ^ (32 - i)" using assms by (simp flip: power_add)
  have "drop_bit i u AND push_bit (32 - i) v = 0"
    by (rule bit_word_eqI) (use assms in \<open>auto simp: bit_simps dest: bit_imp_le_length\<close>)
  then have "drop_bit i u OR push_bit (32 - i) v = drop_bit i u + push_bit (32 - i) v"
    using word_plus_and_or [of "drop_bit i u" "push_bit (32 - i) v"] by simp
  moreover have p: "unat (push_bit (32 - i) v) = (unat v mod 2 ^ i) * 2 ^ (32 - i)"
  proof -
    have "unat (push_bit (32 - i) v) = unat v * 2 ^ (32 - i) mod 2 ^ 32"
      unfolding unsigned_push_bit_eq by (simp add: take_bit_eq_mod push_bit_eq_mult)
    then show ?thesis unfolding pow by (simp only: mult_mod_left)
  qed
  moreover have d: "unat (drop_bit i u) = unat u div 2 ^ i"
    by (simp add: unat_drop_bit_eq flip: drop_bit_eq_div)
  moreover have "unat u div 2 ^ i + (unat v mod 2 ^ i) * 2 ^ (32 - i) < 2 ^ 32"
  proof -
    have "unat u < 2 ^ (32 - i) * 2 ^ i" using unat_B [of u] pow by (simp only: B_def mult.commute)
    then have "unat u div 2 ^ i < 2 ^ (32 - i)" by (simp add: less_mult_imp_div_less)
    moreover have "unat v mod 2 ^ i + 1 \<le> 2 ^ i" by (simp add: Suc_le_eq)
    then have "(unat v mod 2 ^ i + 1) * 2 ^ (32 - i) \<le> 2 ^ i * 2 ^ (32 - i)" by (rule mult_le_mono1)
    ultimately show ?thesis unfolding pow by (simp add: algebra_simps)
  qed
  ultimately show ?thesis by (simp add: unat_word_ariths)
qed

lemma rshift_words_spec:
  "0 < i \<Longrightarrow> i < 32 \<Longrightarrow> length (rshift_words i ws) = length ws \<and> val (rshift_words i ws) = val ws div 2 ^ i"
proof (induction i ws rule: rshift_words.induct)
  case (1 i u v ws)
  note i = 1(2,3)
  let ?V = "val (v # ws)"
  have B: "B = 2 ^ (32 - i) * 2 ^ i" using i by (simp add: B_def flip: power_add)
  have "unat v mod 2 ^ i = ?V mod 2 ^ i"
    by (simp add: B mult.commute [of _ "2 ^ i"] mult.assoc)
  then have V: "?V = ?V div 2 ^ i * 2 ^ i + unat v mod 2 ^ i"
    by (simp only: div_mult_mod_eq)
  have "(unat u + B * ?V) div 2 ^ i = (unat u + 2 ^ i * (2 ^ (32 - i) * ?V)) div 2 ^ i"
    by (simp only: B ac_simps)
  also have "\<dots> = unat u div 2 ^ i + 2 ^ (32 - i) * ?V" by simp
  also have "\<dots> = unat u div 2 ^ i + 2 ^ (32 - i) * (?V div 2 ^ i * 2 ^ i + unat v mod 2 ^ i)"
    using V by simp
  also have "\<dots> = unat u div 2 ^ i + (unat v mod 2 ^ i) * 2 ^ (32 - i) + B * (?V div 2 ^ i)"
    by (simp only: B distrib_left ac_simps)
  finally show ?case using 1 shift_word [OF i, of u v] by simp
qed (simp_all add: unat_drop_bit_eq flip: drop_bit_eq_div)

lemma rshift_spec:
  "0 < i \<Longrightarrow> i < 32 \<Longrightarrow> length up = n \<Longrightarrow>
     length (fst (rshift n up i)) = n \<and> val (fst (rshift n up i)) = val up div 2 ^ i"
  by (simp add: rshift_def rshift_words_spec)

lemma lshift_words_spec:
  assumes "0 < i" "i < 32"
  shows "length (lshift_words i low us) = length us \<and>
    val (lshift_words i low us) + unat (last (low # us)) div 2 ^ (32 - i) * B ^ length us =
    val us * 2 ^ i + unat low div 2 ^ (32 - i)"
proof (induction us arbitrary: low)
  case (Cons u us)
  have B: "B = 2 ^ (32 - i) * 2 ^ i" using assms by (simp add: B_def flip: power_add)
  have "drop_bit (32 - i) low OR push_bit (32 - (32 - i)) u = push_bit i u OR drop_bit (32 - i) low"
    using assms by (simp add: or.commute)
  then have w: "unat (push_bit i u OR drop_bit (32 - i) low) =
      unat low div 2 ^ (32 - i) + (unat u mod 2 ^ (32 - i)) * 2 ^ i"
    using shift_word [of "32 - i" low u] assms by simp
  have "unat u * 2 ^ i = (unat u div 2 ^ (32 - i) * 2 ^ (32 - i) + unat u mod 2 ^ (32 - i)) * 2 ^ i"
    by (simp only: div_mult_mod_eq)
  then have u: "unat u * 2 ^ i = B * (unat u div 2 ^ (32 - i)) + (unat u mod 2 ^ (32 - i)) * 2 ^ i"
    by (simp only: B distrib_right distrib_left ac_simps)
  have "B * (val (lshift_words i u us) + unat (last (u # us)) div 2 ^ (32 - i) * B ^ length us) =
      B * (val us * 2 ^ i + unat u div 2 ^ (32 - i))"
    using Cons by simp
  then show ?case using Cons [of u] w u by (simp add: algebra_simps)
qed simp

lemma lshift_spec:
  assumes "0 < i" "i < 32" "length up = n" "0 < n"
  shows "length (fst (lshift n up i)) = n \<and>
    val (fst (lshift n up i)) + unat (snd (lshift n up i)) * B ^ n = val up * 2 ^ i"
proof -
  have "last (0 # up) = up ! (n - 1)" using assms(3,4) by (auto simp: last_conv_nth)
  then show ?thesis using lshift_words_spec [OF assms(1,2), of 0 up] assms
    by (simp add: lshift_def unat_drop_bit_eq flip: drop_bit_eq_div)
qed

lemma m_m_spec:
  assumes "0 < n" "length a = n" "length b = n" "length m = n" "m ! (n - 1) \<noteq> 0" "n \<le> length ret"
    "val a < val m \<or> val b < val m"
  shows "\<exists>r. m_m n a b m ret = Some r \<and> length r = length ret \<and> val (take n r) = val a * val b mod val m"
proof -
  have mm: "length (mulm n a b) = 2 * n" "val (mulm n a b) = val a * val b"
    using mulm_spec [of n a b] assms(2,3) by simp_all
  have "val a * val b < val m * B ^ n"
    using assms(7)
  proof
    assume "val a < val m"
    then show ?thesis using val_less [of b] assms(3)
      by (intro mult_strict_mono) auto
  next
    assume "val b < val m"
    then show ?thesis using val_less [of a] assms(2)
      by (subst mult.commute, intro mult_strict_mono) auto
  qed
  then have "val (drop n (mulm n a b)) < val (take n m)"
    using assms(4) by (simp add: val_drop mm(2) less_mult_imp_div_less)
  from divm_spec [OF assms(1) _ assms(5) mm(1) assms(6) this, of None] assms(4) mm(2)
  show ?thesis by (auto simp: m_m_def)
qed

text \<open>The modulus as \<open>divm\<close> needs it: n words, the high word not 0.\<close>

definition modulus :: "nat \<Rightarrow> u_int list \<Rightarrow> bool" where
  "modulus n m \<longleftrightarrow> 0 < n \<and> length m = n \<and> m ! (n - 1) \<noteq> 0"

lemma m_m_mod:
  assumes "modulus n m" "length a = n" "length b = n" "length ret = n" "val b < val m"
  shows "\<exists>r. m_m n a b m ret = Some r \<and> length r = n \<and> val r = val a * val b mod val m"
  using m_m_spec [of n a b m ret] assms by (auto simp: modulus_def)

lemma modulus_pos: "modulus n m \<Longrightarrow> 0 < val m"
proof (rule gr0I)
  assume m: "modulus n m" "val m = 0"
  then have "m ! (n - 1) \<in> set m" "\<forall>w\<in>set m. w = 0"
    by (auto simp: modulus_def val_zero_iff intro!: nth_mem)
  then have "m ! (n - 1) = 0" by blast
  then show False using m(1) by (simp add: modulus_def)
qed

lemma lsb_even: "ws \<noteq> [] \<Longrightarrow> ws ! 0 AND 1 = 0 \<longleftrightarrow> even (val ws)"
proof (cases ws)
  case (Cons w us)
  have "even (val ws) \<longleftrightarrow> even (unat w)" using Cons by (simp add: B_def)
  also have "\<dots> \<longleftrightarrow> even w" using bit_unsigned_iff [where 'a = nat, of w 0] by (simp add: bit_0)
  finally show ?thesis using Cons by (simp add: and_one_eq odd_iff_mod_2_eq_one mod2_eq_if)
qed simp

lemma e_m_even_spec:
  assumes "modulus n m" "length z1 = n" "length a1 = n" "val a1 < val m" "0 < val z1"
  shows "\<exists>z a. e_m_even n m z1 a1 = Some (z, a) \<and> length z = n \<and> length a = n \<and> val a < val m \<and>
    odd (val z) \<and> val z \<le> val z1 \<and> val a ^ val z mod val m = val a1 ^ val z1 mod val m"
  using assms(2-5)
proof (induction "val z1" arbitrary: z1 a1 rule: less_induct)
  case less
  have ne: "z1 \<noteq> []" using less.prems(4) by auto
  show ?case
  proof (cases "even (val z1)")
    case False
    then have "e_m_even n m z1 a1 = Some (z1, a1)" using lsb_even [OF ne]
      by (subst e_m_even.simps, simp)
    then show ?thesis using False less.prems by auto
  next
    case True
    obtain r where r: "m_m n a1 a1 m a1 = Some r" "length r = n" "val r = val a1 * val a1 mod val m"
      using m_m_mod [OF assms(1) less.prems(2,2,2,3)] by blast
    have z: "length (fst (rshift n z1 1)) = n" "val (fst (rshift n z1 1)) = val z1 div 2"
      using rshift_spec [of 1 z1 n] less.prems(1) by simp_all
    have "val r < val m" using r(3) modulus_pos [OF assms(1)] by simp
    moreover have "val z1 div 2 < val z1" "0 < val z1 div 2" using less.prems(4) True by auto
    ultimately obtain z a where ih: "e_m_even n m (fst (rshift n z1 1)) r = Some (z, a)" "length z = n"
        "length a = n" "val a < val m" "odd (val z)" "val z \<le> val z1 div 2"
        "val a ^ val z mod val m = val r ^ (val z1 div 2) mod val m"
      using less.hyps [of "fst (rshift n z1 1)" r] z r(2) by auto
    have "val r ^ (val z1 div 2) mod val m = (val a1 * val a1) ^ (val z1 div 2) mod val m"
      unfolding r(3) by (rule power_mod)
    also have "(val a1 * val a1) ^ (val z1 div 2) = val a1 ^ (2 * (val z1 div 2))"
      by (simp add: power_mult power2_eq_square)
    also have "2 * (val z1 div 2) = val z1" using True by simp
    finally have "val a ^ val z mod val m = val a1 ^ val z1 mod val m" using ih(7) by simp
    moreover have "e_m_even n m z1 a1 = Some (z, a)" using ih(1) r(1) True lsb_even [OF ne]
      by (subst e_m_even.simps, simp)
    ultimately show ?thesis using ih by auto
  qed
qed

lemma e_m_loop_spec:
  assumes "modulus n m" "length z1 = n" "length a1 = n" "length x = n" "val a1 < val m" "val x < val m"
  shows "\<exists>r. e_m_loop n m z1 a1 x = Some r \<and> length r = n \<and>
    val r = val x * val a1 ^ val z1 mod val m"
  using assms(2-6)
proof (induction "val z1" arbitrary: z1 a1 x rule: less_induct)
  case less
  have iz: "n_iszero n z1 \<longleftrightarrow> val z1 = 0" using n_iszero_spec [of n z1] less.prems(1) by simp
  show ?case
  proof (cases "val z1 = 0")
    case True
    then have "e_m_loop n m z1 a1 x = Some x" using iz by (subst e_m_loop.simps, simp)
    then show ?thesis using True less.prems by simp
  next
    case False
    obtain z a where e: "e_m_even n m z1 a1 = Some (z, a)" "length z = n" "length a = n"
        "val a < val m" "odd (val z)" "val z \<le> val z1"
        "val a ^ val z mod val m = val a1 ^ val z1 mod val m"
      using e_m_even_spec [OF assms(1) less.prems(1,2,4)] False by auto
    have d: "length (decm n z) = n" "val (decm n z) + 1 = val z"
      using decm_spec [of n z] e(2,5) by (auto simp: odd_pos split: if_splits)
    obtain y where y: "m_m n x a m x = Some y" "length y = n" "val y = val x * val a mod val m"
      using m_m_mod [OF assms(1) less.prems(3) e(3) less.prems(3) e(4)] by blast
    have "val y < val m" using y(3) modulus_pos [OF assms(1)] by simp
    moreover have "val (decm n z) < val z1" using d(2) e(6) by linarith
    ultimately obtain r where ih: "e_m_loop n m (decm n z) a y = Some r" "length r = n"
        "val r = val y * val a ^ val (decm n z) mod val m"
      using less.hyps [of "decm n z" a y] d(1) e(3,4) y(2) by auto
    have "val r = (val x * val a) * val a ^ val (decm n z) mod val m"
      unfolding ih(3) y(3) by (rule mod_mult_left_eq)
    also have "(val x * val a) * val a ^ val (decm n z) = val x * val a ^ val z"
      using d(2) [symmetric] by (simp add: mult.assoc)
    also have "\<dots> mod val m = val x * (val a ^ val z mod val m) mod val m"
      by (rule mod_mult_right_eq [symmetric])
    also have "\<dots> = val x * val a1 ^ val z1 mod val m"
      unfolding e(7) by (rule mod_mult_right_eq)
    finally have "val r = val x * val a1 ^ val z1 mod val m" .
    moreover have "e_m_loop n m z1 a1 x = Some r" using iz False e(1) y(1) ih(1)
      by (subst e_m_loop.simps, simp)
    ultimately show ?thesis using ih(2) by blast
  qed
qed

lemma e_m_spec:
  assumes "modulus n m" "length a = n" "length z = n" "length ret = n" "val a < val m" "1 < val m"
  shows "\<exists>r. e_m n a z m ret = Some r \<and> length r = n \<and> val r = val a ^ val z mod val m"
proof -
  have n: "0 < n" using assms(1) by (simp add: modulus_def)
  obtain r where "e_m_loop n m z a (n_one n) = Some r" "length r = n"
    "val r = 1 * val a ^ val z mod val m"
    using e_m_loop_spec [of n m z a "n_one n"] n_one_val [OF n] assms by auto
  then show ?thesis using assms by (simp add: e_m_def numcpy_def)
qed

lemma div1_loop_spec:
  "2 \<le> unat b \<Longrightarrow> k \<le> length pa \<Longrightarrow> k \<le> length pq \<Longrightarrow> unat rem < unat b \<Longrightarrow>
     div1_loop k pa b pq rem = (pq', r) \<Longrightarrow>
     length pq' = length pq \<and> drop k pq' = drop k pq \<and> unat r < unat b \<and>
     val (take k pq') * unat b + unat r = unat rem * B ^ k + val (take k pa)"
proof (induction k arbitrary: pq rem pq' r)
  case (Suc k)
  obtain q r1 where q: "diva (pa ! k) rem b = (q, r1)" by fastforce
  have b: "b \<noteq> 0" using Suc.prems(1) by auto
  have d: "unat q * unat b + unat r1 = unat rem * B + unat (pa ! k)" "unat r1 < unat b"
    unfolding diva_spec [OF q b Suc.prems(4)] using Suc.prems(1) by simp_all
  have ih: "length pq' = length pq" "drop k pq' = drop k (pq[k := q])" "unat r < unat b"
    "val (take k pq') * unat b + unat r = unat r1 * B ^ k + val (take k pa)"
    using Suc.IH [of "pq[k := q]" r1 pq' r] Suc.prems q d(2) by auto
  have "pq' ! k = pq[k := q] ! k" using ih(1,2) Suc.prems(3)
    by (metis Cons_nth_drop_Suc Suc_le_lessD length_list_update list.inject)
  then have k: "pq' ! k = q" using Suc.prems(3) by simp
  have "drop (Suc k) pq' = drop (Suc k) pq"
    using ih(2) by (metis drop_Suc drop_update_cancel lessI tl_drop)
  moreover have "(unat q * unat b + unat r1) * B ^ k = (unat rem * B + unat (pa ! k)) * B ^ k"
    using d(1) by simp
  then have "val (take (Suc k) pq') * unat b + unat r = unat rem * B ^ Suc k + val (take (Suc k) pa)"
    using ih(1,4) Suc.prems(2,3) k by (simp add: val_take_Suc algebra_simps)
  ultimately show ?case using ih(1,3) by blast
qed auto

lemma div1_spec:
  assumes "b \<noteq> 0" "n \<le> length pa" "n \<le> length pq" "div1 n pa b pq = (q, r)"
  shows "val (take n q) = val (take n pa) div unat b \<and> unat r = val (take n pa) mod unat b"
proof (cases "b < 2")
  case True
  then have "b = 1" using small_word [of b] assms(1) by (simp add: word_less_nat_alt)
  then show ?thesis using assms(2,3,4) True by (auto simp: div1_def numcpy_def)
next
  case False
  then have b: "2 \<le> unat b" by (simp add: word_less_nat_alt)
  have "div1_loop n pa b pq 0 = (q, r)" using assms(4) False by (simp add: div1_def)
  from div1_loop_spec [OF b assms(2,3) _ this] b
  have "unat r < unat b" "val (take n q) * unat b + unat r = val (take n pa)" by auto
  then show ?thesis by (metis add.commute div_mult_self1 div_less add.right_neutral mod_less
      mod_mult_self1 add_0 mult.commute not_less_zero)
qed

lemma e_m_even_stuck:
  assumes "m ! (n - 1) = 0" "length z1 = n" "0 < val z1"
  shows "\<exists>z. e_m_even n m z1 a1 = Some (z, a1) \<and> length z = n \<and> odd (val z) \<and> val z \<le> val z1"
  using assms(2,3)
proof (induction "val z1" arbitrary: z1 rule: less_induct)
  case less
  have ne: "z1 \<noteq> []" using less.prems(2) by auto
  show ?case
  proof (cases "even (val z1)")
    case False
    then have "e_m_even n m z1 a1 = Some (z1, a1)" using lsb_even [OF ne]
      by (subst e_m_even.simps, simp)
    then show ?thesis using False less.prems by auto
  next
    case True
    have z: "length (fst (rshift n z1 1)) = n" "val (fst (rshift n z1 1)) = val z1 div 2"
      using rshift_spec [of 1 z1 n] less.prems(1) by simp_all
    have "val z1 div 2 < val z1" "0 < val z1 div 2" using less.prems(2) True by auto
    then obtain z where ih: "e_m_even n m (fst (rshift n z1 1)) a1 = Some (z, a1)" "length z = n"
        "odd (val z)" "val z \<le> val z1 div 2"
      using less.hyps [of "fst (rshift n z1 1)"] z by auto
    have "e_m_even n m z1 a1 = Some (z, a1)" using ih(1) True lsb_even [OF ne] assms(1)
      by (subst e_m_even.simps, simp add: m_m_def divm_def)
    then show ?thesis using ih by auto
  qed
qed

lemma e_m_loop_stuck:
  assumes "m ! (n - 1) = 0" "length z1 = n"
  shows "e_m_loop n m z1 a1 x = Some x"
  using assms(2)
proof (induction "val z1" arbitrary: z1 rule: less_induct)
  case less
  have iz: "n_iszero n z1 \<longleftrightarrow> val z1 = 0" using n_iszero_spec [of n z1] less.prems(1) by simp
  show ?case
  proof (cases "val z1 = 0")
    case True
    then show ?thesis using iz by (subst e_m_loop.simps, simp)
  next
    case False
    obtain z where e: "e_m_even n m z1 a1 = Some (z, a1)" "length z = n" "odd (val z)"
        "val z \<le> val z1"
      using e_m_even_stuck [OF assms(1) less.prems(1)] False by auto
    have d: "length (decm n z) = n" "val (decm n z) + 1 = val z"
      using decm_spec [of n z] e(2,3) by (auto simp: odd_pos split: if_splits)
    then have "e_m_loop n m (decm n z) a1 x = Some x" using less.hyps [of "decm n z"] e(4) by simp
    then show ?thesis using iz False e(1) assms(1)
      by (subst e_m_loop.simps, simp add: m_m_def divm_def)
  qed
qed

section \<open>Properties\<close>

text \<open>Addition, subtraction, increment, decrement and comparison of n-word numbers are
  exact on the values the arrays denote: the carry and the borrow returned are the overflow of
  n words, \<open>incm\<close> and \<open>decm\<close> wrap around modulo the n-word range and undo each other, and
  \<open>numcmp\<close> is the sign of the difference although it subtracts words without sign.\<close>

theorem carry_chains_exact:
  assumes "length a = n" "length b = n"
  shows "(case addm n a b of (s, c) \<Rightarrow> val s + unat c * B ^ n = val a + val b \<and> unat c \<le> 1) \<and>
    (case subm n a b of (d, c) \<Rightarrow> val d + val b = val a + unat c * B ^ n \<and> unat c \<le> 1) \<and>
    val (incm n a) = (val a + 1) mod B ^ n \<and> (val (decm n a) + 1) mod B ^ n = val a \<and>
    incm n (decm n a) = a \<and> numcmp n a b = sgn (int (val a) - int (val b))"
proof -
  have p1: "case addm n a b of (s, c) \<Rightarrow> val s + unat c * B ^ n = val a + val b \<and> unat c \<le> 1"
    using addm_spec [of n a b] assms by (auto split: prod.splits)
  have p2: "case subm n a b of (d, c) \<Rightarrow> val d + val b = val a + unat c * B ^ n \<and> unat c \<le> 1"
    using subm_spec [of n a b] assms by (auto split: prod.splits)
  have lt: "val a < B ^ n" using val_less [of a] assms(1) by simp
  have d: "length (decm n a) = n" "val (decm n a) + 1 = val a + (if val a = 0 then B ^ n else 0)"
    using decm_spec [of n a] assms(1) val_whole [of "decm n a" n] by auto
  then have w: "(val (decm n a) + 1) mod B ^ n = val a" using lt by simp
  have p3: "val (incm n a) = (val a + 1) mod B ^ n \<and> (val (decm n a) + 1) mod B ^ n = val a"
    using w incm_spec [of n a] assms(1) val_whole [of "incm n a" n] by auto
  have p4: "incm n (decm n a) = a"
    using w incm_spec [of n "decm n a"] assms(1) d(1) val_whole [of "incm n (decm n a)" n] val_whole [OF d(1)]
    by (intro val_inj) auto
  have p5: "numcmp n a b = sgn (int (val a) - int (val b))"
    using numcmp_spec [of n a b] assms by (simp add: sgn_if)
  show ?thesis using p1 p2 p3 p4 p5 by blast
qed

theorem carry_chains_exact_witness:
  "addm 2 [-1, -1] [1, 0] = ([0, 0], 1) \<and> incm 2 (decm 2 [0, 0]) = [0, 0] \<and>
   numcmp 2 [5, 1] [9, 0] = sgn (int (val [5, 1]) - int (val [9, 0]))"
  using carry_chains_exact [of "[0, 0]" 2 "[0, 0]"] carry_chains_exact [of "[5, 1]" 2 "[9, 0]"]
  by (simp add: addm_def adda_def numeral_2_eq_2)

text \<open>\<open>mulm\<close> writes the exact 2n-word product of two n-word numbers: no partial product
  added at word i by \<open>addm(n+1, pm+i, ..)\<close> carries out of its n+1 words.\<close>

theorem mulm_is_product:
  assumes "length a = n" "length b = n"
  shows "length (mulm n a b) = 2 * n \<and> val (mulm n a b) = val a * val b"
  using mulm_spec [of n a b] assms by simp

theorem mulm_is_product_witness:
  "val (mulm 2 [-1, -1] [-1, 7]) = val [-1, -1] * val [-1, 7]"
  using mulm_is_product [of "[-1, -1]" 2 "[-1, 7]"] by simp

text \<open>C5: Long division.  For a divisor whose high word is not 0 and a dividend whose high half
  is below the divisor, \<open>divm\<close> returns 0, both correction loops of every step end, the quotient
  array holds the quotient and the remainder array the remainder; the divisor need not be
  normalised, so the estimate of a quotient word may be too large by more than two.\<close>

theorem divm_divides:
  assumes "0 < n" "length dv = n" "dv ! (n - 1) \<noteq> 0" "length dd = 2 * n" "length rem = n"
    "val (drop n dd) < val dv" "length q = n"
  shows "\<exists>q' rem'. divm n dd dv (Some q) rem = Some (0, Some q', rem') \<and>
    val (take n q') = val dd div val dv \<and> val rem' = val dd mod val dv"
  using divm_spec [of n dv dd rem "Some q"] assms by auto

theorem divm_divides_witness:
  "\<exists>q' rem'. divm 2 [0, 0, 0, 1] [3, 2] (Some [0, 0]) [0, 0] = Some (0, Some q', rem') \<and>
    val (take 2 q') = val [0, 0, 0, 1] div val [3, 2] \<and> val rem' = val [0, 0, 0, 1] mod val [3, 2]"
  using divm_divides [of 2 "[3, 2]" "[0, 0, 0, 1]" "[0, 0]" "[0, 0]"] by (simp add: B_def)

text \<open>The single-word and bit operations are division and scaling: \<open>div1\<close> by a word that is
  not 0 gives quotient and remainder, \<open>rshift\<close> by 0 < i < 32 bits divides by \<open>2 ^ i\<close>, and
  \<open>lshift\<close> multiplies by it with the bits that leave the top word returned.\<close>

theorem word_shifts_and_div1:
  assumes "length a = n" "0 < n" "0 < i" "i < 32" "w \<noteq> 0" "length q = n"
  shows "val (fst (rshift n a i)) = val a div 2 ^ i \<and>
    val (fst (lshift n a i)) + unat (snd (lshift n a i)) * B ^ n = val a * 2 ^ i \<and>
    val (take n (fst (div1 n a w q))) = val a div unat w \<and>
    unat (snd (div1 n a w q)) = val a mod unat w"
  using rshift_spec [of i a n] lshift_spec [of i a n] assms
    div1_spec [of w n a q "fst (div1 n a w q)" "snd (div1 n a w q)"] by simp_all

theorem word_shifts_and_div1_witness:
  "val (fst (rshift 2 [7, 5] 3)) = val [7, 5] div 2 ^ 3"
  using word_shifts_and_div1 [of "[7, 5]" 2 3 10 "[0, 0]"] by simp

text \<open>C6: \<open>_e_m_\<close> is modular exponentiation by squaring: for a modulus above 1 whose high word
  is not 0 and a base below it, both loops end and the result is \<open>a ^ z mod m\<close>, every
  intermediate product staying in the range \<open>divm\<close> accepts.\<close>

theorem e_m_is_modular_power:
  assumes "modulus n m" "length a = n" "length z = n" "length ret = n" "val a < val m" "1 < val m"
  shows "\<exists>r. e_m n a z m ret = Some r \<and> length r = n \<and> val r = val a ^ val z mod val m"
  by (rule e_m_spec [OF assms])

theorem e_m_is_modular_power_witness:
  "\<exists>r. e_m 1 [3] [5] [7] [0] = Some r \<and> length r = 1 \<and> val r = 5"
  using e_m_is_modular_power [of 1 "[7]" "[3]" "[5]" "[0]"] by (simp add: modulus_def)

text \<open>\<open>_m_m_\<close> drops the error \<open>divm\<close> returns for a modulus whose high word is 0, so with
  such a modulus \<open>_e_m_\<close> returns 1 whatever the base and the exponent are.\<close>

theorem e_m_zero_high_word:
  assumes "m ! (n - 1) = 0" "length z = n" "0 < n" "length ret = n"
  shows "e_m n a z m ret = Some (n_one n)"
  using e_m_loop_stuck [OF assms(1,2), of "take n a" "n_one n"] assms n_one_val [OF assms(3)]
  by (simp add: e_m_def numcpy_def)

theorem e_m_zero_high_word_witness:
  "e_m 2 [3, 0] [2, 0] [5, 0] [0, 0] = Some [1, 0] \<and>
   val [1, 0] \<noteq> val [3, 0] ^ val [2, 0] mod val [5, 0]"
  using e_m_zero_high_word [of "[5, 0]" 2 "[2, 0]" "[0, 0]" "[3, 0]"] by (simp add: n_one_def)

end
