(* ===== verification/Memzip.thy ===== *)
theory Memzip
  imports Sdbc_Prelude
begin

text \<open>The online compressor \<open>memzip\<close> and its decompressor \<open>memunzip\<close>,
  \<open>src/crypto/memzip.c\<close>: LZ77 over hash chains in a sliding window of 32768 positions.

  The source is the function from an index to the byte there, so the few reads past its end
  (they only feed the hash) see whatever bytes lie there; \<open>p\<close>, \<open>strbegin\<close> and \<open>strend\<close> are
  indexes into it.  The arrays \<open>head\<close> and \<open>prev\<close> are functions from the index.  What the
  compressor writes is the list of bytes from \<open>dest\<close> on, so \<open>pd-dest\<close> is its length.\<close>

unbundle bit_operations_syntax

definition ESC :: byte where "ESC = 0x10"
definition MFLG :: byte where "MFLG = 0x11"
definition MBASE :: byte where "MBASE = 0x12"
definition IBASE :: nat where "IBASE = unat MBASE - 3"
definition MAX_DISTANCE :: nat where "MAX_DISTANCE = 16576"
definition NIL :: "16 word" where "NIL = 0xFFFF"

definition HASH :: "32 word \<Rightarrow> byte \<Rightarrow> 32 word" where
  "HASH s c = (push_bit 5 s XOR ucast c) AND 0x7FFF"

text \<open>\<open>struct comprtok\<close>; \<open>len\<close> is \<open>tlen\<close>, \<open>distance[0]\<close> and \<open>distance[1]\<close> are two fields.\<close>

record comprtok =
  flgbyte :: byte
  tlen :: byte
  distance0 :: byte
  distance1 :: byte
  strend :: nat
  strbegin :: nat
  head :: "nat \<Rightarrow> 16 word"
  prev :: "nat \<Rightarrow> 16 word"
  hkey :: "16 word"

subsection \<open>The compressor\<close>

text \<open>Lines 83-91: the length of the match of position \<open>q\<close> with \<open>strstart\<close>, from i on.\<close>

function match_len :: "(nat \<Rightarrow> byte) \<Rightarrow> nat \<Rightarrow> nat \<Rightarrow> nat \<Rightarrow> nat \<Rightarrow> nat" where
  "match_len src q strstart len i =
     (if i < len \<and> src (q + i) = src (strstart + i) then
        (if i + 1 = 264 then 264 else match_len src q strstart len (i + 1))
      else i)"
  by pat_completeness auto
termination by (relation "measure (\<lambda>(_, _, _, len, i). len - i)") auto

declare match_len.simps [simp del]

text \<open>Lines 92-100: what a match of i bytes saves.\<close>

definition saving :: "nat \<Rightarrow> nat \<Rightarrow> int" where
  "saving i distance =
     (let g1 = int i - 2 in
      if i = 3 then g1
      else (let g1 = (if distance > 192 then g1 - 1 else g1) in if i > 8 then g1 - 1 else g1))"

text \<open>Lines 103-115: the token of a match of i bytes at \<open>distance\<close>.\<close>

definition set_token :: "comprtok \<Rightarrow> nat \<Rightarrow> nat \<Rightarrow> nat \<Rightarrow> comprtok" where
  "set_token tok strstart i distance =
     (let tok = (if i < 9 then tok\<lparr>flgbyte := of_nat (i + IBASE)\<rparr>
                 else tok\<lparr>flgbyte := MFLG, tlen := of_nat (i - 9)\<rparr>);
          tok = (if i = 3 \<or> distance < 193 then tok\<lparr>distance0 := of_nat (distance - 1)\<rparr>
                 else tok\<lparr>distance0 := of_nat (drop_bit 8 (distance - 193)) OR 0xC0,
                          distance1 := of_nat (distance - 193)\<rparr>)
      in tok\<lparr>strend := strstart + i\<rparr>)"

text \<open>The loop of \<open>deflate\<close> along the hash chain; \<open>b\<close> is the lowest position in reach.\<close>

partial_function (option) deflate_loop ::
    "(nat \<Rightarrow> byte) \<Rightarrow> nat \<Rightarrow> nat \<Rightarrow> nat \<Rightarrow> comprtok \<Rightarrow> int \<Rightarrow> 16 word \<Rightarrow> (comprtok \<times> int) option" where
  "deflate_loop src strstart len b tok gain pos =
     (if pos = NIL \<or> unat pos < b then Some (tok, gain)
      else
        let p = strbegin tok + unat pos in
        if src strstart \<noteq> src p \<or> src (strstart + 1) \<noteq> src (p + 1) \<or> src (strstart + 2) \<noteq> src (p + 2)
        then deflate_loop src strstart len b tok gain (prev tok (unat pos))
        else
          let distance = strstart - strbegin tok - unat pos;
              i = match_len src p strstart len 3;
              g1 = saving i distance
          in
          if i = 3 \<and> distance > 256
          then deflate_loop src strstart len b tok gain (prev tok (unat pos))
          else if g1 > gain then
            let tok = set_token tok strstart i distance in
            if (distance < i \<and> g1 > 20) \<or> i > 263 then Some (tok, g1)
            else deflate_loop src strstart len b tok g1 (prev tok (unat pos))
          else deflate_loop src strstart len b tok gain (prev tok (unat pos)))"

definition deflate :: "(nat \<Rightarrow> byte) \<Rightarrow> comprtok \<Rightarrow> nat \<Rightarrow> nat \<Rightarrow> (comprtok \<times> int) option" where
  "deflate src tok strstart len =
     (if len < 3 then Some (tok, -1)
      else
        let cur = strstart - strbegin tok;
            b = (if cur > MAX_DISTANCE then cur - MAX_DISTANCE else 0)
        in deflate_loop src strstart len b tok (-1) (head tok (unat (hkey tok))))"

text \<open>\<open>win_slip\<close> moves the window on by half its size; the upper half of \<open>prev\<close> keeps its
  old content.\<close>

definition slip :: "16 word \<Rightarrow> 16 word" where
  "slip u = (if u = NIL \<or> u < 16384 then NIL else u - 16384)"

definition win_slip :: "comprtok \<Rightarrow> comprtok" where
  "win_slip tok = tok\<lparr>head := (\<lambda>i. if i < 32768 then slip (head tok i) else head tok i),
     prev := (\<lambda>i. if i < 16384 then slip (prev tok (i + 16384)) else prev tok i),
     strbegin := strbegin tok + 16384\<rparr>"

text \<open>Entering position \<open>cur\<close> under the current key.\<close>

definition enter :: "comprtok \<Rightarrow> nat \<Rightarrow> comprtok" where
  "enter tok cur =
     (let tok = tok\<lparr>prev := (prev tok)(cur := head tok (unat (hkey tok)))\<rparr>
      in tok\<lparr>head := (head tok)(unat (hkey tok) := of_nat cur)\<rparr>)"

text \<open>Lines 207-216: every position of the match but the first.\<close>

fun enter_match :: "(nat \<Rightarrow> byte) \<Rightarrow> comprtok \<Rightarrow> nat list \<Rightarrow> comprtok" where
  "enter_match src tok [] = tok"
| "enter_match src tok (cur # cs) =
     enter_match src
       (enter (tok\<lparr>hkey := ucast (HASH (ucast (hkey tok)) (src (strbegin tok + cur + 2)))\<rparr>) cur) cs"

text \<open>Lines 217-223: the bytes of the token.\<close>

definition token_bytes :: "comprtok \<Rightarrow> bytes" where
  "token_bytes tok =
     [flgbyte tok] @ (if flgbyte tok = MFLG then [tlen tok] else []) @ [distance0 tok] @
     (if flgbyte tok \<noteq> MBASE \<and> distance0 tok > 191 then [distance1 tok] else [])"

definition escaped :: "byte \<Rightarrow> bool" where
  "escaped c \<longleftrightarrow> ESC \<le> c \<and> c < ESC + 8"

text \<open>The main loop, from the index p: what is written, the total gain and where p stops.\<close>

partial_function (option) memzip_loop ::
    "(nat \<Rightarrow> byte) \<Rightarrow> nat \<Rightarrow> comprtok \<Rightarrow> nat \<Rightarrow> bytes \<Rightarrow> int \<Rightarrow> (bytes \<times> int \<times> nat) option" where
  "memzip_loop src srcLen tok p dest totalgain =
     (if p < srcLen then
        let tok = (if p + 2 < srcLen then tok\<lparr>hkey := ucast (HASH (ucast (hkey tok)) (src (p + 2)))\<rparr> else tok);
            cur = p - strbegin tok;
            (tok, cur) = (if cur > 32504 then (win_slip tok, cur - 16384) else (tok, cur))
        in do {
          (tok, gain) \<leftarrow> deflate src tok p (srcLen - p);
          let tok = enter tok cur;
          if gain > 0 then
            memzip_loop src srcLen
              (enter_match src tok [cur + 1..<strend tok - strbegin tok])
              (strend tok) (dest @ token_bytes tok) (totalgain + gain)
          else if escaped (src p) \<and> length dest > srcLen then Some (dest, -1, p)
          else
            let (dest, totalgain) =
              (if escaped (src p) then (dest @ [ESC], totalgain - 1) else (dest, totalgain))
            in if length dest > srcLen then Some (dest, -1, p)
               else memzip_loop src srcLen tok (p + 1) (dest @ [src p]) totalgain
        }
      else Some (dest, totalgain, p))"

text \<open>\<open>tok0\<close> is what the uninitialised structure on the stack holds.\<close>

definition comtok_init :: "comprtok \<Rightarrow> (nat \<Rightarrow> byte) \<Rightarrow> comprtok" where
  "comtok_init tok0 src =
     (let h = ucast (HASH (HASH (ucast (src 0)) (src 1)) (src 2)) :: 16 word
      in tok0\<lparr>strbegin := 0, hkey := h, head := (\<lambda>i. if i < 32768 then NIL else head tok0 i)(unat h := 0),
              prev := (prev tok0)(0 := NIL)\<rparr>)"

definition memzip :: "comprtok \<Rightarrow> (nat \<Rightarrow> byte) \<Rightarrow> nat \<Rightarrow> bytes option" where
  "memzip tok0 src srcLen =
     do { (dest, totalgain, p) \<leftarrow> memzip_loop src srcLen (comtok_init tok0 src) 1 [src 0] 0;
          Some (if totalgain \<le> 0 \<and> p \<noteq> srcLen then map src [0..<srcLen] else dest) }"

text \<open>The same into an array \<open>dest\<close> of \<open>room\<close> bytes; None is a write past its end.  What the loop
  writes it never takes back, so that its longest output is the last one.\<close>

definition memzip_into :: "nat \<Rightarrow> comprtok \<Rightarrow> (nat \<Rightarrow> byte) \<Rightarrow> nat \<Rightarrow> bytes option" where
  "memzip_into room tok0 src srcLen =
     do { (dest, totalgain, p) \<leftarrow> memzip_loop src srcLen (comtok_init tok0 src) 1 [src 0] 0;
          let out = (if totalgain \<le> 0 \<and> p \<noteq> srcLen then map src [0..<srcLen] else dest);
          if room < length dest \<or> room < length out then None else Some out }"

subsection \<open>The decompressor\<close>

text \<open>Lines 302-312.  None is a read past the end of the input.\<close>

fun get_distance :: "bytes \<Rightarrow> (nat \<times> bytes) option" where
  "get_distance [] = None"
| "get_distance (d # p) =
     (if d > 191 then
        (case p of [] \<Rightarrow> None
         | e # p \<Rightarrow> Some (push_bit 8 (unat (d AND 0x3F)) + unat e + 193, p))
      else Some (unat d + 1, p))"

text \<open>Lines 314-315; None is a distance that reaches back before \<open>buf\<close>.\<close>

fun copy_back :: "nat \<Rightarrow> nat \<Rightarrow> bytes \<Rightarrow> bytes option" where
  "copy_back 0 distance buf = Some buf"
| "copy_back (Suc n) distance buf =
     (if distance > length buf then None
      else copy_back n distance (buf @ [buf ! (length buf - distance)]))"

lemma get_distance_shorter: "get_distance p = Some (d, p') \<Longrightarrow> length p' < length p"
  by (cases p) (auto split: if_splits list.splits)

function unzip_loop :: "nat \<Rightarrow> bytes \<Rightarrow> bytes \<Rightarrow> (int \<times> bytes) option" where
  "unzip_loop pkg_len p buf =
     (case p of
        [] \<Rightarrow> Some (int (length buf), buf)
      | c # p \<Rightarrow>
          if length buf \<ge> pkg_len then Some (-1, buf)
          else if MBASE \<le> c \<and> c \<le> MBASE + 5 then
            (let n = unat c - IBASE in
             if n \<noteq> 3 then
               (case get_distance p of None \<Rightarrow> None
                | Some (distance, p) \<Rightarrow>
                    (case copy_back n distance buf of None \<Rightarrow> None
                     | Some buf \<Rightarrow> unzip_loop pkg_len p buf))
             else
               (case p of [] \<Rightarrow> None
                | d # p \<Rightarrow>
                    (case copy_back n (unat d + 1) buf of None \<Rightarrow> None
                     | Some buf \<Rightarrow> unzip_loop pkg_len p buf)))
          else if c = MFLG then
            (case p of [] \<Rightarrow> None
             | l # p \<Rightarrow>
                 (case get_distance p of None \<Rightarrow> None
                  | Some (distance, p) \<Rightarrow>
                      (case copy_back (unat l + 9) distance buf of None \<Rightarrow> None
                       | Some buf \<Rightarrow> unzip_loop pkg_len p buf)))
          else if c = ESC then
            (case p of [] \<Rightarrow> None | d # p \<Rightarrow> unzip_loop pkg_len p (buf @ [d]))
          else unzip_loop pkg_len p (buf @ [c]))"
  by pat_completeness auto
termination
  by (relation "measure (\<lambda>(_, p, _). length p)") (auto dest: get_distance_shorter)

declare unzip_loop.simps [simp del]

text \<open>The decompressor on two buffers of its own, the source as a list: the test \<open>p1 == p\<close> of line
  274 is never true, and None is a read outside of the buffers.  The next section has the function on
  the memory, with that test and such reads; \<open>memunzip_mem_agrees\<close> shows that it does the same where
  this is not None.\<close>

definition memunzip :: "bytes \<Rightarrow> nat \<Rightarrow> (int \<times> bytes) option" where
  "memunzip compr_str pkg_len =
     (if length compr_str = pkg_len then Some (int pkg_len, compr_str)
      else (case compr_str of [] \<Rightarrow> None | c # p \<Rightarrow> unzip_loop pkg_len p [c]))"

subsection \<open>The decompressor in memory\<close>

text \<open>The memory is the function from an address to the byte there; \<open>p\<close>, \<open>p1\<close>, \<open>src\<close> and \<open>buf\<close> are
  addresses, and the buffers may overlap.  Line 315, at \<open>distance\<close> behind \<open>p1\<close>.\<close>

fun copy_mem :: "nat \<Rightarrow> int \<Rightarrow> (int \<Rightarrow> byte) \<Rightarrow> int \<Rightarrow> (int \<Rightarrow> byte)" where
  "copy_mem 0 distance m p1 = m"
| "copy_mem (Suc n) distance m p1 = copy_mem n distance (m(p1 := m (p1 - distance))) (p1 + 1)"

definition distance_mem :: "(int \<Rightarrow> byte) \<Rightarrow> int \<Rightarrow> int \<times> int" where
  "distance_mem m p =
     (if m p > 191 then (int (push_bit 8 (unat (m p AND 0x3F)) + unat (m (p + 1)) + 193), p + 2)
      else (int (unat (m p)) + 1, p + 1))"

text \<open>The switch of lines 282-322: the memory, \<open>p\<close> and \<open>p1\<close> after it.\<close>

definition unzip_switch :: "(int \<Rightarrow> byte) \<Rightarrow> int \<Rightarrow> int \<Rightarrow> (int \<Rightarrow> byte) \<times> int \<times> int" where
  "unzip_switch m p p1 =
     (let c = m p in
      if MBASE \<le> c \<and> c \<le> MBASE + 5 then
        let n = unat c - IBASE;
            (distance, p) = (if n \<noteq> 3 then distance_mem m (p + 1) else (int (unat (m (p + 1))) + 1, p + 2))
        in (copy_mem n distance m p1, p, p1 + int n)
      else if c = MFLG then
        let n = unat (m (p + 1)) + 9; (distance, p) = distance_mem m (p + 2)
        in (copy_mem n distance m p1, p, p1 + int n)
      else let p = (if c = ESC then p + 1 else p) in (m(p1 := m p), p + 1, p1 + 1))"

lemma unzip_switch_moves: "unzip_switch m p p1 = (m', p', p1') \<Longrightarrow> p < p'"
  by (auto simp: unzip_switch_def distance_mem_def Let_def split: if_splits)

function unzip_mem ::
    "int \<Rightarrow> int \<Rightarrow> int \<Rightarrow> (int \<Rightarrow> byte) \<Rightarrow> int \<Rightarrow> int \<Rightarrow> int \<times> (int \<Rightarrow> byte) \<times> int \<times> int" where
  "unzip_mem pkg_len buf p0 m p p1 =
     (if \<not> p < p0 then (p1 - buf, m, p, p1)
      else if p1 = p then (pkg_len, m, p, p1)
      else if p1 - buf \<ge> pkg_len then (-1, m, p, p1)
      else case unzip_switch m p p1 of (m, p, p1) \<Rightarrow> unzip_mem pkg_len buf p0 m p p1)"
  by pat_completeness auto
termination
  by (relation "measure (\<lambda>(_, _, p0, _, p, _). nat (p0 - p))") (auto dest: unzip_switch_moves split: prod.splits)

declare unzip_mem.simps [simp del]

text \<open>The result with the memory and where \<open>p\<close> and \<open>p1\<close> stop.  The copy of line 266 is that of buffers
  which do not overlap.\<close>

definition memunzip_mem ::
    "(int \<Rightarrow> byte) \<Rightarrow> int \<Rightarrow> nat \<Rightarrow> int \<Rightarrow> int \<Rightarrow> int \<times> (int \<Rightarrow> byte) \<times> int \<times> int" where
  "memunzip_mem m compr_str t_len buf pkg_len =
     (if compr_str = 0 \<or> buf = 0 then (0, m, compr_str, buf)
      else if int t_len = pkg_len then
        (int t_len, (\<lambda>a. if buf \<le> a \<and> a < buf + int t_len then m (compr_str + (a - buf)) else m a),
         compr_str + int t_len, buf + int t_len)
      else unzip_mem pkg_len buf (compr_str + int t_len) (m(buf := m compr_str)) (compr_str + 1) (buf + 1))"

subsection \<open>Tokens\<close>

definition token :: "nat \<Rightarrow> nat \<Rightarrow> bytes" where
  "token i d =
     (if i < 9 then [of_nat (i + IBASE)] else [MFLG, of_nat (i - 9)]) @
     (if i = 3 \<or> d < 193 then [of_nat (d - 1)]
      else [of_nat (drop_bit 8 (d - 193)) OR 0xC0, of_nat (d - 193)])"

lemmas flag_defs = ESC_def MFLG_def MBASE_def IBASE_def

lemma unat_byte: "k < 256 \<Longrightarrow> unat (of_nat k :: byte) = k"
  by (simp add: unat_of_nat)

lemma far_byte:
  assumes "d < 16577" "193 \<le> d"
  shows "(of_nat (drop_bit 8 (d - 193)) OR 0xC0 :: byte) AND 0x3F = of_nat ((d - 193) div 256)"
    "(of_nat (drop_bit 8 (d - 193)) OR 0xC0 :: byte) > 191"
proof -
  let ?h = "(d - 193) div 256"
  let ?x = "of_nat ?h :: byte"
  have x: "unat ?x < 64" using assms by (simp add: unat_byte)
  have hi: "\<not> bit ?x k" if "6 \<le> k" for k
  proof
    assume "bit ?x k"
    then have "bit (unat ?x) k" by (simp add: bit_unsigned_iff)
    moreover have "take_bit 6 (unat ?x) = unat ?x" using x by (simp add: take_bit_nat_eq_self)
    ultimately show False using that by (metis bit_take_bit_iff linorder_not_less)
  qed
  have c: "(0xC0 :: byte) = push_bit 6 3" and m: "(0x3F :: byte) = mask 6" by (simp_all add: mask_eq_exp_minus_1)
  have bc: "6 \<le> n" if "bit (0xC0 :: byte) n" for n
    using that unfolding c bit_push_bit_iff by blast
  have bm: "bit (0x3F :: byte) n \<longleftrightarrow> n < 6" if "n < 8" for n
    using that unfolding m bit_mask_iff by simp
  have "(?x OR 0xC0) AND 0x3F = ?x"
  proof (rule bit_word_eqI)
    fix n
    assume "n < LENGTH(8)"
    then have "n < 8" by simp
    then show "bit ((?x OR 0xC0) AND 0x3F) n = bit ?x n"
      unfolding bit_and_iff bit_or_iff bm [OF \<open>n < 8\<close>] using hi [of n] bc [of n] linorder_not_less by blast
  qed
  moreover have "?x OR 0xC0 > 191"
  proof -
    have "0xC0 \<le> ?x OR (0xC0 :: byte)" by (rule le_word_or1)
    then show ?thesis by (simp add: word_less_nat_alt word_le_nat_alt)
  qed
  ultimately have "(?x OR 0xC0) AND 0x3F = ?x \<and> ?x OR 0xC0 > 191" by blast
  then show "(of_nat (drop_bit 8 (d - 193)) OR 0xC0 :: byte) AND 0x3F = of_nat ?h"
    "(of_nat (drop_bit 8 (d - 193)) OR 0xC0 :: byte) > 191"
    by (simp_all add: drop_bit_eq_div)
qed

text \<open>A match the compressor may use: i bytes at distance d.\<close>

definition usable :: "nat \<Rightarrow> nat \<Rightarrow> bool" where
  "usable i d \<longleftrightarrow> 3 \<le> i \<and> i \<le> 264 \<and> 1 \<le> d \<and> d \<le> MAX_DISTANCE \<and> (i = 3 \<longrightarrow> d \<le> 256)"

lemma saving_pos: "usable i d \<Longrightarrow> 0 < saving i d"
  by (auto simp: usable_def saving_def Let_def)

lemma length_token: "usable i d \<Longrightarrow> int (length (token i d)) = int i - saving i d"
  by (auto simp: usable_def saving_def Let_def token_def)

lemma short_flag:
  assumes "3 \<le> i" "i < 9"
  shows "(of_nat (i + IBASE) :: byte) \<noteq> MFLG" "(of_nat (i + IBASE) :: byte) = MBASE \<longleftrightarrow> i = 3"
    "MBASE \<le> (of_nat (i + IBASE) :: byte)" "(of_nat (i + IBASE) :: byte) \<le> MBASE + 5"
    "unat (of_nat (i + IBASE) :: byte) = i + IBASE"
proof -
  consider "i = 3" | "i = 4" | "i = 5" | "i = 6" | "i = 7" | "i = 8" using assms by linarith
  then show "(of_nat (i + IBASE) :: byte) \<noteq> MFLG" "(of_nat (i + IBASE) :: byte) = MBASE \<longleftrightarrow> i = 3"
    "MBASE \<le> (of_nat (i + IBASE) :: byte)" "(of_nat (i + IBASE) :: byte) \<le> MBASE + 5"
    "unat (of_nat (i + IBASE) :: byte) = i + IBASE"
    by (cases; simp add: flag_defs)+
qed

lemma near_byte: "1 \<le> d \<Longrightarrow> d < 193 \<Longrightarrow> \<not> (of_nat (d - 1) :: byte) > 191"
  by (cases d) (simp_all add: word_less_nat_alt unat_byte)

lemma token_bytes_set_token:
  assumes "usable i d"
  shows "token_bytes (set_token tok s i d) = token i d"
proof -
  have u: "3 \<le> i" "i \<le> 264" "1 \<le> d" "d < 16577" using assms by (auto simp: usable_def MAX_DISTANCE_def)
  have nm: "MFLG \<noteq> MBASE" by (simp add: flag_defs)
  consider "i = 3" | "i \<noteq> 3" "d < 193" | "i \<noteq> 3" "193 \<le> d" by linarith
  then show ?thesis
  proof cases
    case 1
    then show ?thesis using short_flag [of 3] by (simp add: token_bytes_def set_token_def token_def)
  next
    case 2
    then show ?thesis using short_flag [OF u(1)] near_byte [OF u(3)] nm
      by (cases "i < 9") (simp_all add: token_bytes_def set_token_def token_def)
  next
    case 3
    then show ?thesis using short_flag [OF u(1)] far_byte [OF u(4)] nm
      by (cases "i < 9") (simp_all add: token_bytes_def set_token_def token_def Let_def)
  qed
qed

lemma get_distance_near: "1 \<le> d \<Longrightarrow> d < 193 \<Longrightarrow> get_distance (of_nat (d - 1) # rest) = Some (d, rest)"
  using near_byte [of d] by (cases d) (simp_all add: unat_byte)

lemma get_distance_far:
  assumes "193 \<le> d" "d < 16577"
  shows "get_distance ((of_nat (drop_bit 8 (d - 193)) OR 0xC0) # of_nat (d - 193) # rest) = Some (d, rest)"
proof -
  have "unat (of_nat ((d - 193) div 256) :: byte) = (d - 193) div 256"
    using assms by (intro unat_byte) simp
  moreover have "unat (of_nat (d - 193) :: byte) = (d - 193) mod 256"
    by (simp add: unat_of_nat)
  moreover have "(d - 193) div 256 * 256 + (d - 193) mod 256 = d - 193" by (rule div_mult_mod_eq)
  ultimately show ?thesis using far_byte [OF assms(2,1)] assms(1)
    by (simp add: push_bit_eq_mult)
qed

lemma unzip_token:
  assumes "usable i d" "length buf < n" "copy_back i d buf = Some buf'"
  shows "unzip_loop n (token i d @ rest) buf = unzip_loop n rest buf'"
proof -
  have u: "3 \<le> i" "i \<le> 264" "1 \<le> d" "d < 16577" using assms by (auto simp: usable_def MAX_DISTANCE_def)
  have fl: "\<not> (MBASE \<le> MFLG)" by (simp add: flag_defs)
  consider "i = 3" | "i \<noteq> 3" "i < 9" "d < 193" | "i \<noteq> 3" "i < 9" "193 \<le> d" |
    "9 \<le> i" "d < 193" | "9 \<le> i" "193 \<le> d" by linarith
  then show ?thesis
  proof cases
    case 1
    then have "d \<le> 256" using assms(1) by (simp add: usable_def)
    then have "unat (of_nat (d - 1) :: byte) = d - 1" using u(3) by (intro unat_byte) simp
    then have "unat (of_nat (d - 1) :: byte) + 1 = d" using u(3) by simp
    then show ?thesis using 1 assms(2,3) short_flag [of 3]
      by (subst unzip_loop.simps) (simp add: token_def del: of_nat_diff)
  next
    case 2
    then show ?thesis using assms(2,3) short_flag [OF u(1)] get_distance_near [OF u(3)]
      by (subst unzip_loop.simps) (simp add: token_def del: get_distance.simps)
  next
    case 3
    then show ?thesis using assms(2,3) short_flag [OF u(1)] get_distance_far [OF _ u(4)]
      by (subst unzip_loop.simps) (simp add: token_def del: get_distance.simps)
  next
    case 4
    then show ?thesis using assms(2,3) fl get_distance_near [OF u(3)] u(2) unat_byte [of "i - 9"]
      by (subst unzip_loop.simps) (simp add: token_def del: get_distance.simps)
  next
    case 5
    then show ?thesis using assms(2,3) fl get_distance_far [OF _ u(4)] u(2) unat_byte [of "i - 9"]
      by (subst unzip_loop.simps) (simp add: token_def del: get_distance.simps)
  qed
qed

lemma copy_back_match:
  "\<forall>k<i. src (p + k) = src (p + k - d) \<Longrightarrow> 1 \<le> d \<Longrightarrow> d \<le> p \<Longrightarrow>
     copy_back i d (map src [0..<p]) = Some (map src [0..<p + i])"
proof (induction i arbitrary: p)
  case (Suc i)
  have "map src [0..<p] @ [src (p - d)] = map src [0..<Suc p]"
    using Suc.prems(1) by force
  moreover have "\<forall>k<i. src (Suc p + k) = src (Suc p + k - d)"
    using Suc.prems(1) by (metis Suc_less_eq add_Suc_shift)
  ultimately show ?case using Suc.IH [of "Suc p"] Suc.prems(2,3) by simp
qed simp


subsection \<open>The hash chains\<close>

text \<open>Every chain runs through ever lower positions, all below \<open>cur\<close>.\<close>

definition below :: "16 word \<Rightarrow> nat \<Rightarrow> bool" where
  "below u n \<longleftrightarrow> u = NIL \<or> unat u < n"

definition linked :: "comprtok \<Rightarrow> nat \<Rightarrow> bool" where
  "linked tok cur \<longleftrightarrow> unat (hkey tok) < 32768 \<and> (\<forall>h<32768. below (head tok h) cur) \<and>
     (\<forall>q<cur. below (prev tok q) q)"

text \<open>The fields \<open>deflate\<close> leaves alone.\<close>

definition same_chains :: "comprtok \<Rightarrow> comprtok \<Rightarrow> bool" where
  "same_chains tok tok' \<longleftrightarrow> head tok' = head tok \<and> prev tok' = prev tok \<and> hkey tok' = hkey tok \<and>
     strbegin tok' = strbegin tok"

lemma same_chains_refl [simp]: "same_chains tok tok"
  by (simp add: same_chains_def)

lemma same_chains_set_token [simp]: "same_chains tok (set_token tok' s i d) = same_chains tok tok'"
  by (auto simp: same_chains_def set_token_def Let_def)

lemma chains_set_token [simp]:
  "head (set_token tok s i d) = head tok" "prev (set_token tok s i d) = prev tok"
  "hkey (set_token tok s i d) = hkey tok" "strbegin (set_token tok s i d) = strbegin tok"
  by (simp_all add: set_token_def Let_def)

lemma strend_set_token [simp]: "strend (set_token tok s i d) = s + i"
  by (simp add: set_token_def Let_def)

text \<open>The structure holds a token for a true match at p.\<close>

definition found :: "(nat \<Rightarrow> byte) \<Rightarrow> nat \<Rightarrow> nat \<Rightarrow> comprtok \<Rightarrow> int \<Rightarrow> bool" where
  "found src p len tok gain \<longleftrightarrow>
     (\<exists>i d. usable i d \<and> i \<le> len \<and> d \<le> p \<and> (\<forall>k<i. src (p + k) = src (p + k - d)) \<and>
        gain = saving i d \<and> token_bytes tok = token i d \<and> strend tok = p + i)"

lemma match_len_spec:
  "3 \<le> i \<Longrightarrow> i \<le> len \<Longrightarrow> i < 264 \<Longrightarrow> (\<forall>k<i. src (q + k) = src (p + k)) \<Longrightarrow>
     i \<le> match_len src q p len i \<and> match_len src q p len i \<le> len \<and> match_len src q p len i \<le> 264 \<and>
     (\<forall>k<match_len src q p len i. src (q + k) = src (p + k))"
proof (induction src q p len i rule: match_len.induct)
  case (1 src q p len i)
  show ?case
  proof (cases "i < len \<and> src (q + i) = src (p + i)")
    case True
    then have m: "\<forall>k<i + 1. src (q + k) = src (p + k)" using 1(5) by (metis less_Suc_eq Suc_eq_plus1)
    show ?thesis
    proof (cases "i + 1 = 264")
      case eq: True
      then show ?thesis using True m 1(2,3) by (subst (1 2 3 4) match_len.simps) auto
    next
      case False
      then have "match_len src q p len i = match_len src q p len (i + 1)"
        using True by (subst match_len.simps) simp
      moreover have "3 \<le> i + 1" "i + 1 \<le> len" "i + 1 < 264" using 1(2,4) True False by simp_all
      ultimately show ?thesis using 1(1) [OF True False _ _ _ m] by auto
    qed
  next
    case False
    then show ?thesis using 1(2-5) by (subst (1 2 3 4) match_len.simps) auto
  qed
qed

lemma guarded_choice:
  "\<not> (A \<or> \<not> P) \<Longrightarrow> (if A then x else if P then (if C then y else z) else w) = y \<or>
     (if A then x else if P then (if C then y else z) else w) = z"
  by simp

lemma deflate_loop_spec:
  assumes "3 \<le> len" "p - strbegin tok0 \<le> MAX_DISTANCE + b" "linked tok0 (p - strbegin tok0)"
    "strbegin tok0 \<le> p"
  shows "same_chains tok0 tok \<Longrightarrow> below pos (p - strbegin tok0) \<Longrightarrow> gain = -1 \<or> found src p len tok gain \<Longrightarrow>
    \<exists>tok' gain'. deflate_loop src p len b tok gain pos = Some (tok', gain') \<and> same_chains tok0 tok' \<and>
      (gain' = -1 \<or> found src p len tok' gain')"
proof (induction "unat pos" arbitrary: pos tok gain rule: less_induct)
  case less
  have sb: "strbegin tok = strbegin tok0" "prev tok = prev tok0"
    using less.prems(1) by (simp_all add: same_chains_def)
  show ?case
  proof (cases "pos = NIL \<or> unat pos < b")
    case True
    then show ?thesis using less.prems by (subst deflate_loop.simps) auto
  next
    case False
    then have pos: "unat pos < p - strbegin tok0" "b \<le> unat pos"
      using less.prems(2) by (auto simp: below_def)
    let ?q = "strbegin tok + unat pos" and ?next = "prev tok (unat pos)"
    have nx: "below ?next (unat pos)" using assms(3) pos(1) sb(2) by (simp add: linked_def)
    then have nx': "below ?next (p - strbegin tok0)" using pos(1) by (auto simp: below_def)
    have stop: "deflate_loop src p len b t g NIL = Some (t, g)" for t g
      by (subst deflate_loop.simps) simp
    have go: "\<exists>tok' gain'. deflate_loop src p len b t g ?next = Some (tok', gain') \<and>
        same_chains tok0 tok' \<and> (gain' = -1 \<or> found src p len tok' gain')"
      if "same_chains tok0 t" "g = -1 \<or> found src p len t g" for t g
    proof (cases "?next = NIL")
      case True
      then show ?thesis using that stop by simp
    next
      case False
      then have "unat ?next < unat pos" using nx by (simp add: below_def)
      then show ?thesis using less.hyps [OF _ that(1) nx' that(2)] by blast
    qed
    let ?i = "match_len src ?q p len 3" and ?d = "p - strbegin tok - unat pos"
    note unf = deflate_loop.simps [of src p len b tok gain pos]
    show ?thesis
    proof (cases "src p \<noteq> src ?q \<or> src (p + 1) \<noteq> src (?q + 1) \<or> src (p + 2) \<noteq> src (?q + 2)")
      case True
      then have "deflate_loop src p len b tok gain pos = deflate_loop src p len b tok gain ?next"
        using False by (subst unf) (simp add: Let_def)
      then show ?thesis using go [OF less.prems(1,3)] by simp
    next
      case eq: False
      have k3: "\<forall>k<3. src (?q + k) = src (p + k)"
      proof (intro allI impI)
        fix k :: nat
        assume "k < 3"
        then consider "k = 0" | "k = 1" | "k = 2" by linarith
        then show "src (?q + k) = src (p + k)" using eq by cases auto
      qed
      have ml: "3 \<le> ?i" "?i \<le> len" "?i \<le> 264" "\<forall>k<?i. src (?q + k) = src (p + k)"
        using match_len_spec [of 3 len src ?q p, OF _ assms(1) _ k3] by auto
      have d: "1 \<le> ?d" "?d \<le> p" "?d \<le> MAX_DISTANCE" "p - ?d = ?q"
        using pos assms(2,4) sb(1) by auto
      have md: "\<forall>k<?i. src (p + k) = src (p + k - ?d)"
        using ml(4) d(2,4) by (metis Nat.add_diff_assoc2 add.commute)
      have eqn: "deflate_loop src p len b tok gain pos =
          (if ?i = 3 \<and> ?d > 256 then deflate_loop src p len b tok gain ?next
           else if saving ?i ?d > gain then
             (if (?d < ?i \<and> saving ?i ?d > 20) \<or> ?i > 263 then Some (set_token tok p ?i ?d, saving ?i ?d)
              else deflate_loop src p len b (set_token tok p ?i ?d) (saving ?i ?d)
                     (prev (set_token tok p ?i ?d) (unat pos)))
           else deflate_loop src p len b tok gain ?next)"
        using False eq by (subst unf) (simp only: Let_def if_False simp_thms)
      show ?thesis
      proof (cases "(?i = 3 \<and> ?d > 256) \<or> \<not> saving ?i ?d > gain")
        case True
        then have "deflate_loop src p len b tok gain pos = deflate_loop src p len b tok gain ?next"
          unfolding eqn by auto
        then show ?thesis using go [OF less.prems(1,3)] by simp
      next
        case better: False
        then have us: "usable ?i ?d" using ml d by (auto simp: usable_def)
        let ?t = "set_token tok p ?i ?d"
        have f: "found src p len ?t (saving ?i ?d)"
          unfolding found_def using us ml(2) d(2) md token_bytes_set_token [OF us] strend_set_token by blast
        have c: "same_chains tok0 ?t" using less.prems(1) by simp
        have "prev ?t = prev tok" using c sb by (simp add: same_chains_def)
        have "deflate_loop src p len b tok gain pos = Some (?t, saving ?i ?d) \<or>
            deflate_loop src p len b tok gain pos = deflate_loop src p len b ?t (saving ?i ?d) ?next"
          unfolding eqn \<open>prev ?t = prev tok\<close> by (rule guarded_choice [OF better])
        then show ?thesis using go [OF c] f c by auto
      qed
    qed
  qed
qed

lemma deflate_spec:
  assumes "linked tok (p - strbegin tok)" "strbegin tok \<le> p"
  shows "\<exists>tok' gain. deflate src tok p len = Some (tok', gain) \<and> same_chains tok tok' \<and>
    (gain = -1 \<or> found src p len tok' gain)"
proof (cases "len < 3")
  case True
  then show ?thesis by (simp add: deflate_def)
next
  case False
  let ?cur = "p - strbegin tok"
  let ?b = "if ?cur > MAX_DISTANCE then ?cur - MAX_DISTANCE else 0"
  have "below (head tok (unat (hkey tok))) ?cur" using assms(1) by (simp add: linked_def)
  from deflate_loop_spec [of len p tok ?b, OF _ _ assms _ this] False
  show ?thesis by (simp add: deflate_def Let_def)
qed


subsection \<open>The window\<close>

lemma unat_NIL: "unat NIL = 65535"
  by (simp add: NIL_def)

lemma below_slip:
  assumes "below u (n + 16384)"
  shows "below (slip u) n"
proof (cases "u = NIL \<or> u < 16384")
  case True
  then show ?thesis by (auto simp: slip_def below_def)
next
  case False
  then have "16384 \<le> u" by auto
  then have "unat (u - 16384) = unat u - 16384" "16384 \<le> unat u"
    by (simp_all add: unat_sub word_le_nat_alt)
  then show ?thesis using assms False by (auto simp: slip_def below_def)
qed

lemma linked_slip:
  assumes "linked tok (n + 16384)" "n \<le> 16384"
  shows "linked (win_slip tok) n"
proof -
  have "below (slip (prev tok (q + 16384))) q" if "q < n" for q
    using assms(1) that by (intro below_slip) (simp add: linked_def)
  moreover have "below (slip (head tok h)) n" if "h < 32768" for h
    using assms(1) that by (intro below_slip) (simp add: linked_def)
  ultimately show ?thesis using assms by (auto simp: linked_def win_slip_def)
qed

lemma hash_small: "unat (ucast (HASH s c) :: 16 word) < 32768"
proof -
  have "HASH s c \<le> 0x7FFF" unfolding HASH_def by (rule word_and_le1)
  then have "unat (HASH s c) \<le> 32767" by (simp add: word_le_nat_alt)
  then show ?thesis by (simp add: unsigned_ucast_eq take_bit_nat_eq_self)
qed

lemma linked_hkey: "linked tok n \<Longrightarrow> unat h < 32768 \<Longrightarrow> linked (tok\<lparr>hkey := h\<rparr>) n"
  by (simp add: linked_def)

lemma linked_chains: "linked tok n \<Longrightarrow> same_chains tok tok' \<Longrightarrow> linked tok' n"
  by (simp add: linked_def same_chains_def)

lemma below_mono: "below u m \<Longrightarrow> m \<le> n \<Longrightarrow> below u n"
  by (auto simp: below_def)

lemma linked_enter:
  assumes "linked tok n" "n \<le> 32768"
  shows "linked (enter tok n) (Suc n)" "strbegin (enter tok n) = strbegin tok"
proof -
  have "unat (of_nat n :: 16 word) = n" using assms(2) by (simp add: unat_of_nat)
  then have "below (of_nat n) (Suc n)" by (simp add: below_def)
  then show "linked (enter tok n) (Suc n)"
    using assms(1) by (auto simp: linked_def enter_def Let_def less_Suc_eq intro: below_mono)
  show "strbegin (enter tok n) = strbegin tok" by (simp add: enter_def Let_def)
qed

lemma linked_enter_match:
  "linked tok n \<Longrightarrow> n \<le> m \<Longrightarrow> m \<le> 32769 \<Longrightarrow> linked (enter_match src tok [n..<m]) m \<and>
     strbegin (enter_match src tok [n..<m]) = strbegin tok"
proof (induction "m - n" arbitrary: n tok)
  case (Suc d)
  let ?t = "enter (tok\<lparr>hkey := ucast (HASH (ucast (hkey tok)) (src (strbegin tok + n + 2)))\<rparr>) n"
  have c: "[n..<m] = n # [Suc n..<m]" using Suc.hyps(2) by (simp add: upt_conv_Cons)
  have "linked ?t (Suc n)" "strbegin ?t = strbegin tok"
    using linked_enter [OF linked_hkey [OF Suc.prems(1) hash_small]] Suc.hyps(2) Suc.prems(3) by simp_all
  then show ?case using Suc.hyps(1) [of "Suc n" ?t] Suc.hyps(2) Suc.prems(3) c by simp
qed simp

subsection \<open>The round trip\<close>

text \<open>After any number of tokens the decoder that has read \<open>dest\<close> has rebuilt the source
  up to p.\<close>

definition decodes :: "nat \<Rightarrow> (nat \<Rightarrow> byte) \<Rightarrow> bytes \<Rightarrow> nat \<Rightarrow> bool" where
  "decodes n src dest p \<longleftrightarrow>
     (case dest of [] \<Rightarrow> False
      | c # cs \<Rightarrow> (\<forall>rest. unzip_loop n (cs @ rest) [c] = unzip_loop n rest (map src [0..<p])))"

lemma decodes_start: "decodes n src [src 0] 1"
  by (simp add: decodes_def)

lemma decodes_token:
  assumes "decodes n src dest p" "p < n" "usable i d" "d \<le> p" "\<forall>k<i. src (p + k) = src (p + k - d)"
  shows "decodes n src (dest @ token i d) (p + i)"
proof -
  have "copy_back i d (map src [0..<p]) = Some (map src [0..<p + i])"
    using assms(3-5) by (intro copy_back_match) (auto simp: usable_def)
  from unzip_token [OF assms(3) _ this, of n] assms(1,2) show ?thesis
    by (cases dest) (simp_all add: decodes_def)
qed

lemma decodes_literal:
  assumes "decodes n src dest p" "p < n"
  shows "decodes n src (dest @ (if escaped (src p) then [ESC] else []) @ [src p]) (p + 1)"
proof -
  have "unzip_loop n ((if escaped (src p) then [ESC] else []) @ [src p] @ rest) (map src [0..<p]) =
      unzip_loop n rest (map src [0..<p + 1])" for rest
  proof (cases "escaped (src p)")
    case True
    have "\<not> MBASE \<le> ESC" "ESC \<noteq> MFLG" by (simp_all add: flag_defs)
    then show ?thesis using True assms(2) by (subst unzip_loop.simps) simp
  next
    case False
    then have "unat (src p) < 16 \<or> 24 \<le> unat (src p)"
      by (auto simp: escaped_def ESC_def word_less_nat_alt word_le_nat_alt)
    then have "\<not> (MBASE \<le> src p \<and> src p \<le> MBASE + 5)" "src p \<noteq> MFLG" "src p \<noteq> ESC"
      by (auto simp: flag_defs word_less_nat_alt word_le_nat_alt)
    then show ?thesis using False assms(2) by (subst unzip_loop.simps) auto
  qed
  then show ?thesis using assms(1) by (cases dest) (simp_all add: decodes_def)
qed

lemma decodes_all: "decodes n src dest n \<Longrightarrow> 0 < n \<Longrightarrow> length dest \<noteq> n \<Longrightarrow>
    memunzip dest n = Some (int n, map src [0..<n])"
  by (cases dest) (auto simp: decodes_def memunzip_def dest!: spec [of _ "[]"] simp: unzip_loop.simps [of n "[]"])

definition state_ok :: "comprtok \<Rightarrow> nat \<Rightarrow> bool" where
  "state_ok tok p \<longleftrightarrow> strbegin tok \<le> p \<and> p - strbegin tok \<le> 32768 \<and> linked tok (p - strbegin tok)"

text \<open>Without bytes to escape nothing is lost: no gain means that dest is a copy.\<close>

definition plain :: "(nat \<Rightarrow> byte) \<Rightarrow> nat \<Rightarrow> bool" where
  "plain src n \<longleftrightarrow> (\<forall>k. 1 \<le> k \<and> k < n \<longrightarrow> \<not> escaped (src k))"

definition copied :: "nat \<Rightarrow> (nat \<Rightarrow> byte) \<Rightarrow> bytes \<Rightarrow> int \<Rightarrow> nat \<Rightarrow> bool" where
  "copied n src dest gain p \<longleftrightarrow>
     (plain src n \<longrightarrow> 0 \<le> gain \<and> (gain = 0 \<longrightarrow> dest = map src [0..<p]))"

definition finished :: "nat \<Rightarrow> (nat \<Rightarrow> byte) \<Rightarrow> bytes \<times> int \<times> nat \<Rightarrow> bool" where
  "finished n src r \<longleftrightarrow>
     (case r of (dest, gain, q) \<Rightarrow>
        length dest \<le> 2 * n \<and>
        (q = n \<and> decodes n src dest n \<and> int (length dest) + gain = int n \<and> copied n src dest gain n \<or>
         q < n \<and> gain = -1 \<and> \<not> plain src n))"

lemma memzip_loop_spec:
  "state_ok tok p \<Longrightarrow> decodes n src dest p \<Longrightarrow> 1 \<le> p \<Longrightarrow> p \<le> n \<Longrightarrow> int (length dest) + gain = int p \<Longrightarrow>
   copied n src dest gain p \<Longrightarrow> length dest \<le> 2 * p \<Longrightarrow>
   \<exists>r. memzip_loop src n tok p dest gain = Some r \<and> finished n src r"
proof (induction "n - p" arbitrary: tok p dest gain rule: less_induct)
  case less
  show ?case
  proof (cases "p < n")
    case False
    then show ?thesis using less.prems by (subst memzip_loop.simps) (auto simp: finished_def)
  next
    case True
    define t1 where "t1 = (if p + 2 < n then tok\<lparr>hkey := ucast (HASH (ucast (hkey tok)) (src (p + 2)))\<rparr> else tok)"
    define cur where "cur = p - strbegin tok"
    define t2 where "t2 = (if cur > 32504 then win_slip t1 else t1)"
    define c2 where "c2 = (if cur > 32504 then cur - 16384 else cur)"
    have t1: "linked t1 cur" "strbegin t1 = strbegin tok"
      using less.prems(1) linked_hkey [OF _ hash_small] by (simp_all add: t1_def state_ok_def cur_def)
    have c: "cur \<le> 32768" "strbegin tok \<le> p" using less.prems(1) by (simp_all add: state_ok_def cur_def)
    have t2: "linked t2 c2" "strbegin t2 \<le> p" "c2 = p - strbegin t2" "c2 \<le> 32504"
      using t1 c linked_slip [of t1 "cur - 16384"] by (auto simp: t2_def c2_def cur_def win_slip_def)
    obtain t3 g where d: "deflate src t2 p (n - p) = Some (t3, g)" "same_chains t2 t3"
        "g = -1 \<or> found src p (n - p) t3 g"
      using deflate_spec [of t2 p src "n - p"] t2 by auto
    have t3: "linked t3 c2" "strbegin t3 = strbegin t2"
      using linked_chains [OF t2(1) d(2)] d(2) by (simp_all add: same_chains_def)
    define t4 where "t4 = enter t3 c2"
    have t4: "linked t4 (Suc c2)" "strbegin t4 = strbegin t2" "strend t4 = strend t3"
        "token_bytes t4 = token_bytes t3"
      using linked_enter [OF t3(1)] t2(4) t3(2) by (simp_all add: t4_def enter_def token_bytes_def Let_def)
    have step: "memzip_loop src n tok p dest gain =
       (if g > 0 then
          memzip_loop src n (enter_match src t4 [c2 + 1..<strend t4 - strbegin t4]) (strend t4)
            (dest @ token_bytes t4) (gain + g)
        else if escaped (src p) \<and> length dest > n then Some (dest, -1, p)
        else
          let (dest, gain) = (if escaped (src p) then (dest @ [ESC], gain - 1) else (dest, gain))
          in if length dest > n then Some (dest, -1, p)
             else memzip_loop src n t4 (p + 1) (dest @ [src p]) gain)"
    proof -
      have pair: "(if cur > 32504 then (win_slip t1, cur - 16384) else (t1, cur)) = (t2, c2)"
        by (simp add: t2_def c2_def)
      show ?thesis
        by (subst memzip_loop.simps)
           (simp only: True if_True Let_def t1_def [symmetric] t1(2) cur_def [symmetric] pair prod.case
             d(1) Option.bind.simps t4_def [symmetric])
    qed
    show ?thesis
    proof (cases "g > 0")
      case g: True
      then obtain i dd where f: "usable i dd" "i \<le> n - p" "dd \<le> p" "\<forall>k<i. src (p + k) = src (p + k - dd)"
          "g = saving i dd" "token_bytes t3 = token i dd" "strend t3 = p + i"
        using d(3) by (auto simp: found_def)
      let ?t = "enter_match src t4 [c2 + 1..<strend t4 - strbegin t4]"
      have i: "3 \<le> i" "i \<le> 264" using f(1) by (simp_all add: usable_def)
      have e: "strend t4 - strbegin t4 = c2 + i" using f(7) t4(2,3) t2(2,3) by simp
      have em: "linked ?t (c2 + i)" "strbegin ?t = strbegin t2"
        using linked_enter_match [of t4 "Suc c2" "c2 + i" src] t4(1,2) i t2(4) unfolding e by simp_all
      have "state_ok ?t (p + i)" using em t2(2,3,4) i(2) by (simp add: state_ok_def)
      moreover have "decodes n src (dest @ token_bytes t4) (p + i)"
        using decodes_token [OF less.prems(2) True f(1,3,4)] f(6) t4(4) by simp
      moreover have "int (length (dest @ token_bytes t4)) + (gain + g) = int (p + i)"
        using length_token [OF f(1)] f(5,6) t4(4) less.prems(5) by simp
      moreover have "copied n src (dest @ token_bytes t4) (gain + g) (p + i)"
        using less.prems(6) g by (auto simp: copied_def)
      moreover have "length (dest @ token_bytes t4) \<le> 2 * (p + i)"
        using length_token [OF f(1)] f(5,6) t4(4) less.prems(7) g by simp
      moreover have "1 \<le> p + i" using less.prems(3) by simp
      moreover have "n - (p + i) < n - p" "p + i \<le> n" using True f(2) i by simp_all
      ultimately have "\<exists>r. memzip_loop src n ?t (p + i) (dest @ token_bytes t4) (gain + g) = Some r \<and>
          finished n src r"
        using less.hyps by blast
      then show ?thesis using step g f(7) t4(3) by simp
    next
      case g: False
      let ?esc = "if escaped (src p) then [ESC] else []"
      let ?g = "if escaped (src p) then gain - 1 else gain"
      have esc: "plain src n \<Longrightarrow> \<not> escaped (src p)"
        using less.prems(3) True by (simp add: plain_def)
      have room: "plain src n \<Longrightarrow> length dest \<le> n"
        using less.prems(4-6) by (simp add: copied_def)
      have s2: "memzip_loop src n tok p dest gain = Some (dest, -1, p) \<and> \<not> plain src n \<or>
         memzip_loop src n tok p dest gain = Some (dest @ ?esc, -1, p) \<and> \<not> plain src n \<or>
         memzip_loop src n tok p dest gain = memzip_loop src n t4 (p + 1) (dest @ ?esc @ [src p]) ?g"
        using step g esc room by (auto simp: Let_def)
      have "state_ok t4 (p + 1)" using t4(1,2) t2(2,3,4) by (simp add: state_ok_def Suc_diff_le)
      moreover have "decodes n src (dest @ ?esc @ [src p]) (p + 1)"
        using decodes_literal [OF less.prems(2) True] by simp
      moreover have "int (length (dest @ ?esc @ [src p])) + ?g = int (p + 1)"
        using less.prems(5) by simp
      moreover have "copied n src (dest @ ?esc @ [src p]) ?g (p + 1)"
        using less.prems(6) esc by (auto simp: copied_def)
      moreover have "length (dest @ ?esc @ [src p]) \<le> 2 * (p + 1)" using less.prems(7) by simp
      moreover have "n - (p + 1) < n - p" "1 \<le> p + 1" "p + 1 \<le> n" using True by simp_all
      ultimately have "\<exists>r. memzip_loop src n t4 (p + 1) (dest @ ?esc @ [src p]) ?g = Some r \<and> finished n src r"
        using less.hyps by blast
      then show ?thesis using s2 True less.prems(7) by (auto simp: finished_def)
    qed
  qed
qed


lemma comtok_init_ok: "state_ok (comtok_init tok0 src) 1"
  using hash_small [of "HASH (ucast (src 0)) (src 1)" "src 2"]
  by (simp add: state_ok_def comtok_init_def linked_def below_def Let_def)

lemma memzip_spec:
  assumes "0 < n"
  shows "\<exists>dest. memzip tok0 src n = Some dest \<and>
    (\<forall>room. 2 * n \<le> room \<or> plain src n \<and> n \<le> room \<longrightarrow> memzip_into room tok0 src n = Some dest) \<and>
    (dest = map src [0..<n] \<or> decodes n src dest n \<and> (plain src n \<longrightarrow> length dest < n))"
proof -
  obtain dest gain q where l: "memzip_loop src n (comtok_init tok0 src) 1 [src 0] 0 = Some (dest, gain, q)"
    "finished n src (dest, gain, q)"
    using memzip_loop_spec [OF comtok_init_ok decodes_start, where n = n and gain = 0] assms
    by (fastforce simp: copied_def)
  then show ?thesis by (auto simp: memzip_def memzip_into_def Let_def finished_def copied_def)
qed

text \<open>An array of twice the length of the source is always enough; one of its length, which the
  comment asks for, when there is nothing to escape.\<close>

lemma memzip_into_fits:
  "0 < n \<Longrightarrow> 2 * n \<le> room \<or> plain src n \<and> n \<le> room \<Longrightarrow> memzip_into room tok0 src n = memzip tok0 src n"
  using memzip_spec [of n tok0 src] by auto

lemma copy_back_length: "copy_back n d buf = Some buf' \<Longrightarrow> length buf' = length buf + n"
  by (induction n d buf rule: copy_back.induct) (auto split: if_splits)

lemma get_distance_pos: "get_distance p = Some (d, p') \<Longrightarrow> 0 < d"
  by (cases p) (auto split: if_splits list.splits)

subsection \<open>What the memory holds\<close>

lemma copy_mem_outside: "a < p1 \<or> p1 + int n \<le> a \<Longrightarrow> copy_mem n d m p1 a = m a"
  by (induction n d m p1 rule: copy_mem.induct) auto

text \<open>One turn of the switch writes at most 264 bytes, from \<open>p1\<close> on, and reads at most four.\<close>

lemma unzip_switch_bounds:
  assumes "unzip_switch m p p1 = (m', p', p1')"
  shows "p < p'" "p' \<le> p + 4" "p1 \<le> p1'" "p1' \<le> p1 + 264" "a < p1 \<or> p1' \<le> a \<Longrightarrow> m' a = m a"
proof -
  have k: "unat c - IBASE \<le> 5 + 3" if "c \<le> MBASE + 5" for c
    using that by (simp add: flag_defs word_le_nat_alt)
  have l: "uint c < 256" for c :: byte using unsigned_less [where 'a = int, of c] by simp
  have d: "q < q' \<and> q' \<le> q + 2" if "distance_mem m q = (x, q')" for q x q'
    using that by (auto simp: distance_mem_def split: if_splits)
  consider (short) "MBASE \<le> m p \<and> m p \<le> MBASE + 5" | (long) "\<not> (MBASE \<le> m p \<and> m p \<le> MBASE + 5)" "m p = MFLG"
    | (one) "\<not> (MBASE \<le> m p \<and> m p \<le> MBASE + 5)" "m p \<noteq> MFLG" by blast
  then have "p < p' \<and> p' \<le> p + 4 \<and> p1 \<le> p1' \<and> p1' \<le> p1 + 264 \<and> (a < p1 \<or> p1' \<le> a \<longrightarrow> m' a = m a)"
  proof cases
    case short
    let ?n = "unat (m p) - IBASE"
    obtain x q where x: "(if ?n \<noteq> 3 then distance_mem m (p + 1) else (int (unat (m (p + 1))) + 1, p + 2)) = (x, q)"
      by fastforce
    then have "p < q \<and> q \<le> p + 4" using d [of "p + 1" x q] by (auto split: if_splits)
    moreover have "m' = copy_mem ?n x m p1" "p' = q" "p1' = p1 + int ?n"
      using assms short x by (simp_all add: unzip_switch_def Let_def)
    ultimately show ?thesis using k [of "m p"] short copy_mem_outside [of a p1 ?n x m] by auto
  next
    case long
    obtain x q where x: "distance_mem m (p + 2) = (x, q)" by fastforce
    have "m' = copy_mem (unat (m (p + 1)) + 9) x m p1" "p' = q" "p1' = p1 + int (unat (m (p + 1)) + 9)"
      using assms x unfolding unzip_switch_def Let_def if_not_P [OF long(1)] if_P [OF long(2)] by simp_all
    then show ?thesis using d [OF x] l [of "m (p + 1)"] copy_mem_outside [of a p1 "unat (m (p + 1)) + 9" x m] by auto
  next
    case one
    then show ?thesis using assms by (auto simp: unzip_switch_def Let_def split: if_splits)
  qed
  then show "p < p'" "p' \<le> p + 4" "p1 \<le> p1'" "p1' \<le> p1 + 264" "a < p1 \<or> p1' \<le> a \<Longrightarrow> m' a = m a"
    by blast+
qed

lemma unzip_mem_bounds:
  "unzip_mem pkg_len buf p0 m p p1 = (r, m', q, q1) \<Longrightarrow> p \<le> max p0 (src + 1) + 3 \<Longrightarrow> src + 1 \<le> p \<Longrightarrow>
     p1 \<le> buf + max 1 (pkg_len + 263) \<Longrightarrow> buf \<le> p1 \<Longrightarrow>
   q \<le> max p0 (src + 1) + 3 \<and> p1 \<le> q1 \<and> q1 \<le> buf + max 1 (pkg_len + 263) \<and>
   r \<in> {-1, pkg_len, q1 - buf} \<and> (a < p1 \<or> q1 \<le> a \<longrightarrow> m' a = m a)"
proof (induction pkg_len buf p0 m p p1 rule: unzip_mem.induct)
  case (1 pkg_len buf p0 m p p1)
  show ?case
  proof (cases "p < p0 \<and> p1 \<noteq> p \<and> p1 - buf < pkg_len")
    case False
    then show ?thesis using 1(2-) by (subst (asm) unzip_mem.simps) (auto split: if_splits)
  next
    case True
    obtain n q' n1 where t: "unzip_switch m p p1 = (n, q', n1)" by (metis prod_cases3)
    note b = unzip_switch_bounds [OF t]
    have u: "unzip_mem pkg_len buf p0 n q' n1 = (r, m', q, q1)"
      using 1(2) True t by (subst (asm) unzip_mem.simps) simp
    have "q' \<le> max p0 (src + 1) + 3" "src + 1 \<le> q'" "n1 \<le> buf + max 1 (pkg_len + 263)" "buf \<le> n1"
      using b(1-4) True 1(4,6) by auto
    from 1(1) [of n "(q', n1)" q' n1, OF _ _ _ t [symmetric] refl u this] True b(3) b(5) [of a]
    show ?thesis by fastforce
  qed
qed

text \<open>The memory m holds the bytes xs from the address a on.\<close>

definition stored :: "(int \<Rightarrow> byte) \<Rightarrow> int \<Rightarrow> bytes \<Rightarrow> bool" where
  "stored m a xs \<longleftrightarrow> (\<forall>k<length xs. m (a + int k) = xs ! k)"

lemma stored_Nil [simp]: "stored m a []"
  by (simp add: stored_def)

lemma stored_Cons [simp]: "stored m a (x # xs) \<longleftrightarrow> m a = x \<and> stored m (a + 1) xs"
  by (auto simp: stored_def All_less_Suc2 add.assoc)

lemma stored_snoc: "stored m a xs \<Longrightarrow> stored (m(a + int (length xs) := x)) a (xs @ [x])"
  by (auto simp: stored_def nth_append less_Suc_eq)

lemma stored_kept: "stored m a xs \<Longrightarrow> (\<And>k. a \<le> k \<Longrightarrow> k < a + int (length xs) \<Longrightarrow> m' k = m k) \<Longrightarrow> stored m' a xs"
  by (simp add: stored_def)

lemma copy_mem_stored:
  "copy_back n d b = Some b' \<Longrightarrow> 0 < d \<Longrightarrow> stored m buf b \<Longrightarrow>
     stored (copy_mem n (int d) m (buf + int (length b))) buf b'"
proof (induction n d b arbitrary: m rule: copy_back.induct)
  case (2 n d b)
  then have d: "d \<le> length b" by (auto split: if_splits)
  have "m (buf + int (length b) - int d) = b ! (length b - d)"
  proof -
    have e: "buf + int (length b) - int d = buf + int (length b - d)" using d by simp
    have "length b - d < length b" using 2(3) d by simp
    then have "m (buf + int (length b - d)) = b ! (length b - d)" using 2(4) by (simp only: stored_def)
    then show ?thesis by (simp only: e)
  qed
  moreover have "stored (copy_mem n (int d) (m(buf + int (length b) := b ! (length b - d)))
      (buf + int (length (b @ [b ! (length b - d)])))) buf b'"
    by (rule 2(1) [OF _ _ 2(3) stored_snoc [OF 2(4)]]) (use 2(2) d in simp_all)
  moreover have "buf + int (length (b @ [b ! (length b - d)])) = buf + int (length b) + 1" by simp
  ultimately show ?case by (simp only: copy_mem.simps)
qed simp

lemma distance_mem_stored:
  assumes "get_distance q = Some (d, q')" "stored m a q"
  shows "distance_mem m a = (int d, a + int (length q) - int (length q')) \<and> 0 < d \<and>
    stored m (a + int (length q) - int (length q')) q'"
  using assms by (cases q) (auto simp: distance_mem_def add.commute split: if_splits list.splits)

text \<open>A turn of the loop on lists is a turn of the switch on a memory that holds them.\<close>

lemma unzip_step_mem:
  assumes "unzip_loop n (c # q) b = Some x" "length b < n"
  shows "\<exists>q' b'. length q' \<le> length q \<and> length b \<le> length b' \<and> unzip_loop n q' b' = Some x \<and>
    (\<forall>m a buf. stored m a (c # q) \<longrightarrow> stored m buf b \<longrightarrow>
       (\<exists>m'. unzip_switch m a (buf + int (length b)) =
           (m', a + int (length (c # q)) - int (length q'), buf + int (length b')) \<and>
         stored m (a + int (length (c # q)) - int (length q')) q' \<and> stored m' buf b'))"
proof -
  note unf = assms(1) [unfolded unzip_loop.simps [of n "c # q"]]
  consider (short) "MBASE \<le> c \<and> c \<le> MBASE + 5" "unat c - IBASE \<noteq> 3" | (three) "MBASE \<le> c \<and> c \<le> MBASE + 5" "unat c - IBASE = 3" |
    (long) "\<not> (MBASE \<le> c \<and> c \<le> MBASE + 5)" "c = MFLG" | (esc) "\<not> (MBASE \<le> c \<and> c \<le> MBASE + 5)" "c \<noteq> MFLG" "c = ESC" |
    (one) "\<not> (MBASE \<le> c \<and> c \<le> MBASE + 5)" "c \<noteq> MFLG" "c \<noteq> ESC"
    by blast
  then show ?thesis
  proof cases
    case short
    let ?n = "unat c - IBASE"
    obtain d q' b' where r: "get_distance q = Some (d, q')" "copy_back ?n d b = Some b'" "unzip_loop n q' b' = Some x"
      using unf short assms(2) by (auto simp: Let_def split: option.splits)
    have "\<exists>m'. unzip_switch m a (buf + int (length b)) =
           (m', a + int (length (c # q)) - int (length q'), buf + int (length b')) \<and>
         stored m (a + int (length (c # q)) - int (length q')) q' \<and> stored m' buf b'"
      if h: "stored m a (c # q)" "stored m buf b" for m a buf
    proof -
      have e: "a + 1 + int (length q) - int (length q') = a + int (length (c # q)) - int (length q')" by simp
      have "stored m (a + 1) q" using h(1) by simp
      note distance_mem_stored [OF r(1) this, unfolded e]
      then show ?thesis using h copy_mem_stored [OF r(2) _ h(2)] copy_back_length [OF r(2)] short
        by (simp add: unzip_switch_def Let_def)
    qed
    moreover have "length q' \<le> length q" using get_distance_shorter [OF r(1)] by simp
    ultimately show ?thesis using r(3) copy_back_length [OF r(2)] by (intro exI [of _ q'] exI [of _ b']) simp
  next
    case three
    obtain d q' b' where r: "q = d # q'" "copy_back 3 (unat d + 1) b = Some b'" "unzip_loop n q' b' = Some x"
      using unf three assms(2) by (simp add: Let_def split: option.splits list.splits)
    have "\<exists>m'. unzip_switch m a (buf + int (length b)) =
           (m', a + int (length (c # q)) - int (length q'), buf + int (length b')) \<and>
         stored m (a + int (length (c # q)) - int (length q')) q' \<and> stored m' buf b'"
      if h: "stored m a (c # q)" "stored m buf b" for m a buf
      using h copy_mem_stored [OF r(2) _ h(2)] copy_back_length [OF r(2)] three r(1)
      by (simp add: unzip_switch_def Let_def add.commute)
    then show ?thesis using r(1,3) copy_back_length [OF r(2)] by (intro exI [of _ q'] exI [of _ b']) simp
  next
    case long
    obtain l q1 d q' b' where r: "q = l # q1" "get_distance q1 = Some (d, q')"
        "copy_back (unat l + 9) d b = Some b'" "unzip_loop n q' b' = Some x"
      using unf long assms(2) by (auto simp: Let_def split: option.splits list.splits)
    have "\<exists>m'. unzip_switch m a (buf + int (length b)) =
           (m', a + int (length (c # q)) - int (length q'), buf + int (length b')) \<and>
         stored m (a + int (length (c # q)) - int (length q')) q' \<and> stored m' buf b'"
      if h: "stored m a (c # q)" "stored m buf b" for m a buf
    proof -
      have "m a = c" "m (a + 1) = l" "stored m (a + 2) q1" using h(1) r(1) by (simp_all add: add.assoc)
      moreover note distance_mem_stored [OF r(2) this(3)]
      ultimately show ?thesis using h(2) copy_mem_stored [OF r(3) _ h(2)] copy_back_length [OF r(3)] r(1)
        unfolding unzip_switch_def Let_def \<open>m a = c\<close> if_not_P [OF long(1)] if_P [OF long(2)]
        by (simp add: add.assoc)
    qed
    moreover have "length q' \<le> length q" using get_distance_shorter [OF r(2)] r(1) by simp
    ultimately show ?thesis using r(4) copy_back_length [OF r(3)] by (intro exI [of _ q'] exI [of _ b']) simp
  next
    case esc
    have e: "\<not> MBASE \<le> ESC" "ESC \<noteq> MFLG" by (simp_all add: flag_defs)
    obtain d q' where r: "q = d # q'" "unzip_loop n q' (b @ [d]) = Some x"
      using unf esc(3) assms(2) e by (cases q) simp_all
    have "\<exists>m'. unzip_switch m a (buf + int (length b)) =
           (m', a + int (length (c # q)) - int (length q'), buf + int (length (b @ [d]))) \<and>
         stored m (a + int (length (c # q)) - int (length q')) q' \<and> stored m' buf (b @ [d])"
      if h: "stored m a (c # q)" "stored m buf b" for m a buf
      using h stored_snoc [OF h(2), of d] esc(3) e r(1)
      by (simp add: unzip_switch_def Let_def add.assoc)
    then show ?thesis using r by (intro exI [of _ q'] exI [of _ "b @ [d]"]) simp
  next
    case one
    have r: "unzip_loop n q (b @ [c]) = Some x" using unf assms(2) one(2,3) by (simp add: if_not_P [OF one(1)])
    have "\<exists>m'. unzip_switch m a (buf + int (length b)) =
           (m', a + int (length (c # q)) - int (length q), buf + int (length (b @ [c]))) \<and>
         stored m (a + int (length (c # q)) - int (length q)) q \<and> stored m' buf (b @ [c])"
      if h: "stored m a (c # q)" "stored m buf b" for m a buf
    proof -
      have "m a = c" "stored m (a + 1) q" using h(1) by simp_all
      then show ?thesis using stored_snoc [OF h(2), of c] one(2,3)
        unfolding unzip_switch_def Let_def by (simp add: if_not_P [OF one(1)] add.assoc)
    qed
    then show ?thesis using r by (intro exI [of _ q] exI [of _ "b @ [c]"]) simp
  qed
qed

lemma unzip_loop_mem:
  "unzip_loop n p b = Some (r, out) \<Longrightarrow> stored m a p \<Longrightarrow> stored m buf b \<Longrightarrow> length b \<le> n + 263 \<Longrightarrow>
     a + int (length p) \<le> buf \<or> buf + int n + 263 < a \<Longrightarrow>
   \<exists>m' q. unzip_mem (int n) buf (a + int (length p)) m a (buf + int (length b)) = (r, m', q, buf + int (length out)) \<and>
     stored m' buf out"
proof (induction "length p" arbitrary: p b m a rule: less_induct)
  case less
  show ?case
  proof (cases p)
    case Nil
    then show ?thesis using less.prems by (auto simp: unzip_loop.simps [of n "[]"] unzip_mem.simps [of "int n" buf a])
  next
    case (Cons c q)
    let ?p0 = "a + int (length p)" and ?p1 = "buf + int (length b)"
    have apart: "a < ?p0" "?p1 \<noteq> a" using less.prems(4,5) Cons by auto
    show ?thesis
    proof (cases "length b < n")
      case False
      then have "r = -1" "out = b" using less.prems(1) Cons by (simp_all add: unzip_loop.simps [of n "c # q"])
      moreover have "unzip_mem (int n) buf ?p0 m a ?p1 = (-1, m, a, ?p1)"
        using apart False by (subst unzip_mem.simps) simp
      ultimately show ?thesis using less.prems(3) by blast
    next
      case True
      obtain q' b' m' where s: "length q' \<le> length q" "length b \<le> length b'" "unzip_loop n q' b' = Some (r, out)"
          "unzip_switch m a ?p1 = (m', ?p0 - int (length q'), buf + int (length b'))"
          "stored m (?p0 - int (length q')) q'" "stored m' buf b'"
        using unzip_step_mem [of n c q b "(r, out)"] less.prems(1-3) True unfolding Cons by blast
      have b': "length b' \<le> n + 263" using unzip_switch_bounds(4) [OF s(4)] True by simp
      have "m' k = m k" if "?p0 - int (length q') \<le> k" "k < ?p0" for k
      proof -
        have "k < ?p1 \<or> buf + int (length b') \<le> k"
          using that less.prems(5) b' s(1) Cons by auto
        then show ?thesis by (rule unzip_switch_bounds(5) [OF s(4)])
      qed
      then have st: "stored m' (?p0 - int (length q')) q'" by (intro stored_kept [OF s(5)]) simp_all
      have "?p0 - int (length q') + int (length q') \<le> buf \<or> buf + int n + 263 < ?p0 - int (length q')"
        using less.prems(5) s(1) Cons by auto
      from less.hyps [OF _ s(3) st s(6) b' this] s(1) Cons
      obtain m2 q2 where i: "unzip_mem (int n) buf ?p0 m' (?p0 - int (length q')) (buf + int (length b')) =
          (r, m2, q2, buf + int (length out))" "stored m2 buf out" by auto
      have "unzip_mem (int n) buf ?p0 m a ?p1 = (r, m2, q2, buf + int (length out))"
        using apart True s(4) i(1) by (subst unzip_mem.simps) simp
      then show ?thesis using i(2) by blast
    qed
  qed
qed

text \<open>Where the decompressor on lists has a result, the one on the memory has the same: with the source
  anywhere in the memory, and the buffer, with the 263 bytes it may write past its end, elsewhere.\<close>

lemma memunzip_mem_agrees:
  assumes "memunzip s n = Some (r, out)" "stored m a s" "a \<noteq> 0" "buf \<noteq> 0"
    "a + int (length s) \<le> buf \<or> buf + int n + 263 < a"
  shows "\<exists>m' q. memunzip_mem m a (length s) buf (int n) = (r, m', q, buf + int (length out)) \<and> stored m' buf out"
proof (cases "length s = n")
  case True
  then show ?thesis using assms(1-4) by (auto simp: memunzip_def memunzip_mem_def stored_def)
next
  case False
  then obtain c p where s: "s = c # p" "unzip_loop n p [c] = Some (r, out)"
    using assms(1) by (auto simp: memunzip_def split: list.splits)
  have m: "m a = c" "stored m (a + 1) p" using assms(2) s(1) by simp_all
  have "stored (m(buf := c)) (a + 1) p"
    by (rule stored_kept [OF m(2)]) (use assms(5) s(1) in auto)
  moreover have "stored (m(buf := c)) buf [c]" by simp
  moreover have "a + 1 + int (length p) \<le> buf \<or> buf + int n + 263 < a + 1" using assms(5) s(1) by auto
  ultimately obtain m' q where "unzip_mem (int n) buf (a + 1 + int (length p)) (m(buf := c)) (a + 1) (buf + int (length [c])) =
      (r, m', q, buf + int (length out))" "stored m' buf out"
    using unzip_loop_mem [OF s(2)] by fastforce
  then show ?thesis using assms(3,4) False s(1) m(1) by (simp add: memunzip_mem_def add.assoc)
qed

text \<open>So the memory version restores what \<open>memzip\<close> has compressed.\<close>

lemma memunzip_mem_restores:
  assumes "0 < n" "memzip tok0 src n = Some dest" "length dest \<noteq> n" "stored m a dest" "a \<noteq> 0" "buf \<noteq> 0"
    "a + int (length dest) \<le> buf \<or> buf + int n + 263 < a"
  shows "\<exists>m' q. memunzip_mem m a (length dest) buf (int n) = (int n, m', q, buf + int n) \<and>
    stored m' buf (map src [0..<n])"
proof -
  have "memunzip dest n = Some (int n, map src [0..<n])"
    using memzip_spec [OF assms(1), of tok0 src] decodes_all [OF _ assms(1,3)] assms(2,3) by auto
  from memunzip_mem_agrees [OF this assms(4-7)] show ?thesis by simp
qed

section \<open>Properties\<close>

text \<open>C4: The compressor ends on every source, and the decompressor inverts it whenever the
  output is not exactly as long as the source, the length that stands for "not compressed".\<close>

theorem memzip_round_trip:
  assumes "0 < n"
  shows "\<exists>dest. memzip tok0 src n = Some dest \<and>
    (length dest \<noteq> n \<longrightarrow> memunzip dest n = Some (int n, map src [0..<n]))"
  using memzip_spec [OF assms, of tok0 src] decodes_all [OF _ assms, of src] by auto

definition blank_tok :: comprtok where
  "blank_tok = \<lparr>flgbyte = 0, tlen = 0, distance0 = 0, distance1 = 0, strend = 0, strbegin = 0,
     head = (\<lambda>_. 0), prev = (\<lambda>_. 0), hkey = 0\<rparr>"

theorem memzip_round_trip_witness:
  "\<exists>dest. memzip blank_tok (\<lambda>i. of_nat i) 600 = Some dest \<and>
    (length dest \<noteq> 600 \<longrightarrow> memunzip dest 600 = Some (600, map (\<lambda>i. of_nat i) [0..<600]))"
  using memzip_round_trip [of 600 blank_tok "\<lambda>i. of_nat i"] by simp

text \<open>On a source without bytes 0x10 to 0x17 behind the first one the compressor never
  expands, and decompression gives the source back in every case, the uncompressed one
  included.\<close>

theorem memzip_plain:
  assumes "0 < n" "\<forall>k. 1 \<le> k \<and> k < n \<longrightarrow> \<not> (0x10 \<le> src k \<and> src k \<le> 0x17)"
  shows "\<exists>dest. memzip tok0 src n = Some dest \<and> length dest \<le> n \<and>
    memunzip dest n = Some (int n, map src [0..<n])"
proof -
  have "plain src n" using assms(2)
    by (auto simp: plain_def escaped_def ESC_def word_less_nat_alt word_le_nat_alt)
  then obtain dest where "memzip tok0 src n = Some dest" "dest = map src [0..<n] \<or>
      decodes n src dest n \<and> length dest < n"
    using memzip_spec [OF assms(1), of tok0 src] by blast
  then show ?thesis using decodes_all [OF _ assms(1), of src dest]
    by (auto simp: memunzip_def)
qed

theorem memzip_plain_witness:
  "\<exists>dest. memzip blank_tok (\<lambda>i. 0x61) 1000 = Some dest \<and> length dest \<le> 1000 \<and>
    memunzip dest 1000 = Some (1000, map (\<lambda>i. 0x61) [0..<1000])"
  using memzip_plain [of 1000 "\<lambda>i. 0x61" blank_tok] by simp

definition aaaa_esc :: "nat \<Rightarrow> byte" where
  "aaaa_esc i = (if i < 4 then 0x61 else 0x10)"

definition a_esc :: "nat \<Rightarrow> byte" where
  "a_esc i = (if i < 1 then 0x61 else 0x10)"

lemma memzip_last_escape:
  assumes "strbegin tok = 0" "length dest < n" "src (n - 1) = 0x10" "1 < n" "n < 30000"
  shows "memzip_loop src n tok (n - 1) dest g = Some (dest @ [0x10, 0x10], g - 1, n)"
proof -
  obtain m where n: "n = Suc m" using assms(4) by (cases n) auto
  have e: "escaped 0x10" by (simp add: escaped_def ESC_def)
  have "memzip_loop src n t n d k = Some (d, k, n)" for t d k
    by (subst memzip_loop.simps) simp
  then show ?thesis using assms e unfolding n
    by (subst memzip_loop.simps) (simp add: deflate_def ESC_def)
qed

lemma memzip_aaaa:
  "\<exists>tok. memzip_loop aaaa_esc 5 (comtok_init blank_tok aaaa_esc) 1 [0x61] 0 =
     memzip_loop aaaa_esc 5 tok 4 [0x61, 0x12, 0] 1 \<and> strbegin tok = 0"
proof -
  let ?T = "comtok_init blank_tok aaaa_esc"
  let ?t = "?T\<lparr>hkey := 0x841\<rparr>"
  have h: "HASH 0x841 0x61 = 0x841" "HASH (HASH 0x61 0x61) 0x61 = 0x841"
    by (simp_all add: HASH_def)
  have t: "hkey ?T = 0x841" "strbegin ?T = 0" "prev ?T 0 = NIL" "head ?T 0x841 = 0"
    using h(2) by (simp_all add: comtok_init_def aaaa_esc_def Let_def)
  have e: "aaaa_esc 0 = 0x61" "aaaa_esc (Suc 0) = 0x61" "aaaa_esc (Suc (Suc 0)) = 0x61"
    "aaaa_esc (Suc (Suc (Suc 0))) = 0x61" "aaaa_esc 2 = 0x61" "aaaa_esc 3 = 0x61"
    by (simp_all add: aaaa_esc_def)
  have nil: "deflate_loop aaaa_esc (Suc 0) 4 0 k g NIL = Some (k, g)" for k g
    by (subst deflate_loop.simps) simp
  have ml: "match_len aaaa_esc 0 (Suc 0) 4 3 = 3"
    by (subst match_len.simps) (simp add: aaaa_esc_def)
  have "deflate_loop aaaa_esc (Suc 0) 4 0 ?t (-1) 0 = Some (set_token ?t (Suc 0) 3 (Suc 0), 1)"
    by (subst deflate_loop.simps) (simp add: t ml nil e saving_def NIL_def [THEN arg_cong [of _ _ "\<lambda>x. 0 = x"]])
  then have d: "deflate aaaa_esc ?t (Suc 0) 4 = Some (set_token ?t (Suc 0) 3 (Suc 0), 1)"
    using t by (simp add: deflate_def MAX_DISTANCE_def)
  define u where "u = enter (set_token ?t (Suc 0) 3 (Suc 0)) (Suc 0)"
  have u: "strbegin u = 0" "strend u = 4" "token_bytes u = [0x12, 0]"
    using t(2) by (simp_all add: u_def enter_def Let_def set_token_def token_bytes_def flag_defs)
  have "memzip_loop aaaa_esc 5 ?T 1 [0x61] 0 =
      memzip_loop aaaa_esc 5 (enter_match aaaa_esc u [Suc (Suc 0)..<4]) 4 [0x61, 0x12, 0] 1"
    by (subst memzip_loop.simps)
       (simp add: t(1,2) h(1) d u e(4) u_def [symmetric] del: upt_Suc upt_rec_numeral)
  moreover have "strbegin (enter_match aaaa_esc u [Suc (Suc 0)..<4]) = 0"
    using u(1) by (simp add: upt_rec enter_def Let_def)
  ultimately show ?thesis by blast
qed

text \<open>With escapes the contract fails: a gain of 1 and one escape cancel, the output has the
  length of the source and \<open>memunzip\<close> takes it for uncompressed; and an escape without a gain
  gives one byte more than the source, written past a \<open>dest\<close> of \<open>srcLen\<close> bytes.\<close>

theorem memzip_escape_cancels:
  "memzip blank_tok aaaa_esc 5 = Some [0x61, 0x12, 0, 0x10, 0x10] \<and>
   memunzip [0x61, 0x12, 0, 0x10, 0x10] 5 = Some (5, [0x61, 0x12, 0, 0x10, 0x10]) \<and>
   memzip blank_tok a_esc 2 = Some [0x61, 0x10, 0x10] \<and> memzip_into 2 blank_tok a_esc 2 = None"
proof -
  obtain tok where a: "memzip_loop aaaa_esc 5 (comtok_init blank_tok aaaa_esc) 1 [0x61] 0 =
     memzip_loop aaaa_esc 5 tok 4 [0x61, 0x12, 0] 1" "strbegin tok = 0"
    using memzip_aaaa by blast
  have "memzip_loop aaaa_esc 5 tok 4 [0x61, 0x12, 0] 1 = Some ([0x61, 0x12, 0, 0x10, 0x10], 0, 5)"
    using memzip_last_escape [of tok "[0x61, 0x12, 0]" 5 aaaa_esc 1] a(2) by (simp add: aaaa_esc_def)
  moreover have "memzip_loop a_esc 2 (comtok_init blank_tok a_esc) 1 [0x61] 0 =
      Some ([0x61, 0x10, 0x10], -1, 2)"
    using memzip_last_escape [of "comtok_init blank_tok a_esc" "[0x61]" 2 a_esc 0]
    by (simp add: a_esc_def comtok_init_def Let_def)
  moreover have "aaaa_esc 0 = 0x61" "a_esc 0 = 0x61" by (simp_all add: aaaa_esc_def a_esc_def)
  ultimately show ?thesis using a(1) by (simp add: memzip_def memzip_into_def memunzip_def)
qed

text \<open>C20: The decompressor ends on every memory, wherever its two buffers lie and whatever they hold (only
  for two equal lengths, which are copied by \<open>memcpy\<close>, the buffers are taken to be apart).  It writes from the start of its buffer without a gap and at most 263 bytes past the length it was
  given, since the bound is tested before a token and not before the copy, and nothing else; it stops
  at most 3 bytes behind the end of the source; and the result is -1, the length given, or the number
  of bytes written.\<close>

theorem memunzip_bounded:
  "case memunzip_mem m src t_len buf pkg_len of (r, m', p, p1) \<Rightarrow>
     p \<le> src + max (int t_len) 1 + 3 \<and> buf \<le> p1 \<and> p1 \<le> buf + max 1 (pkg_len + 263) \<and>
     r \<in> {-1, pkg_len, p1 - buf} \<and> (\<forall>a. a < buf \<or> p1 \<le> a \<longrightarrow> m' a = m a)"
proof (cases "src = 0 \<or> buf = 0 \<or> int t_len = pkg_len")
  case True
  then show ?thesis by (auto simp: memunzip_mem_def)
next
  case False
  let ?m = "m(buf := m src)"
  obtain r m' q q1 where u: "unzip_mem pkg_len buf (src + int t_len) ?m (src + 1) (buf + 1) = (r, m', q, q1)"
    by (metis prod_cases4)
  have b: "q \<le> max (src + int t_len) (src + 1) + 3 \<and> buf + 1 \<le> q1 \<and> q1 \<le> buf + max 1 (pkg_len + 263) \<and>
      r \<in> {-1, pkg_len, q1 - buf} \<and> (a < buf + 1 \<or> q1 \<le> a \<longrightarrow> m' a = ?m a)" for a
    by (rule unzip_mem_bounds [OF u]) simp_all
  have "m' a = m a" if "a < buf \<or> q1 \<le> a" for a
  proof -
    have "a < buf + 1 \<or> q1 \<le> a" "a \<noteq> buf" using that b [of a] by auto
    then show ?thesis using b [of a] by (metis fun_upd_other)
  qed
  moreover have "max (src + int t_len) (src + 1) = src + max (int t_len) 1" by (simp add: max_def)
  moreover have "buf \<le> q1" using b by fastforce
  ultimately have "q \<le> src + max (int t_len) 1 + 3 \<and> buf \<le> q1 \<and> q1 \<le> buf + max 1 (pkg_len + 263) \<and>
      r \<in> {-1, pkg_len, q1 - buf} \<and> (\<forall>a. a < buf \<or> q1 \<le> a \<longrightarrow> m' a = m a)"
    using b by simp
  then show ?thesis using False u by (simp add: memunzip_mem_def)
qed

text \<open>The bound is reached.\<close>

theorem memunzip_bounded_witness:
  "\<exists>m m' p. memunzip_mem m 100 4 200 2 = (265, m', p, 200 + (2 + 263)) \<and> p \<le> 107 \<and> m' 465 = m 465 \<and> m' 464 = 0x61"
proof -
  let ?m = "\<lambda>a. [0x61, 0x11, 255, 0] ! nat (a - 100) :: byte"
  have "copy_back n 1 (xs @ [x]) = Some (xs @ [x] @ replicate n x)" for n and x :: byte and xs
    by (induction n arbitrary: xs) (simp_all add: replicate_append_same [symmetric], metis append_Cons append_assoc append_Nil)
  from this [of 264 "[]" "0x61"] have "copy_back 264 1 [0x61] = Some (0x61 # replicate 264 0x61)"
    by (simp only: append_Nil append_Cons)
  then have z: "memunzip [0x61, 0x11, 255, 0] 2 = Some (265, 0x61 # replicate 264 0x61)"
    by (simp add: memunzip_def unzip_loop.simps [of 2 "[0x11, 255, 0]"] unzip_loop.simps [of 2 "[]"]
        flag_defs del: copy_back.simps replicate.simps)
  have st: "stored ?m 100 [0x61, 0x11, 255, 0]" by simp
  have "(100 :: int) \<noteq> 0" "(200 :: int) \<noteq> 0"
    "100 + int (length [0x61 :: byte, 0x11, 255, 0]) \<le> 200 \<or> 200 + int 2 + 263 < (100 :: int)" by simp_all
  from memunzip_mem_agrees [OF z st this]
  obtain m' p where "memunzip_mem ?m 100 (length [0x61 :: byte, 0x11, 255, 0]) 200 (int 2) =
        (265, m', p, 200 + int (length (0x61 # replicate 264 (0x61 :: byte))))"
      "stored m' 200 (0x61 # replicate 264 0x61)" by blast
  moreover have "length [0x61 :: byte, 0x11, 255, 0] = 4" "int 2 = 2"
    "200 + int (length (0x61 # replicate 264 (0x61 :: byte))) = 200 + (2 + 263)" by simp_all
  ultimately have u: "memunzip_mem ?m 100 4 200 2 = (265, m', p, 200 + (2 + 263))"
      "stored m' 200 (0x61 # replicate 264 0x61)" by (simp_all only:)
  have "m' 464 = (0x61 # replicate 264 0x61) ! 264" using spec [OF u(2) [unfolded stored_def], of 264]
    by (simp del: replicate.simps)
  moreover have "p \<le> 107 \<and> m' 465 = ?m 465" using memunzip_bounded [where m = ?m and src = 100 and t_len = 4 and buf = 200 and pkg_len = 2] unfolding u(1) by simp
  ultimately show ?thesis using u(1) by (intro exI [of _ ?m] exI [of _ m'] exI [of _ p]) (simp del: replicate.simps)
qed

end
