(* ===== verification/Pack.thy ===== *)
theory Pack
  imports Hash_Index
begin

text \<open>Records as delimited text, \<open>src/pack/pack.c\<close> (and \<open>isnull\<close> of \<open>src/pack/netvar.c\<close>):
  \<open>pkg_pack\<close> writes the columns of a structure one after the other, each followed by the
  delimiter, and \<open>pkg_dispack\<close> reads them back.

  The memory of the structure is the function from an address to the byte there; \<open>base\<close> is the
  address of the structure, integers are little-endian.  A C string is the list of its bytes
  before the null byte.  What a routine prints is its result, and the count it returns is the
  length of that.  The string and date library of the project (\<open>strproc.h\<close>, \<open>datejul.h\<close>), whose
  code is not part of the repository, and the formatted printing of numbers are the fields of
  the record \<open>strlib\<close>.\<close>

unbundle bit_operations_syntax

type_synonym mem = "int \<Rightarrow> byte"

record strlib =
  GBK_flag :: bool
  firstcc :: "bytes \<Rightarrow> nat \<Rightarrow> bool"
  stptok_pos :: "bytes \<Rightarrow> bytes \<Rightarrow> nat"
  stptok_copy :: "bytes \<Rightarrow> int \<Rightarrow> bytes \<times> int"
  itoStr :: "int \<Rightarrow> bytes"
  lltoStr :: "int \<Rightarrow> bytes"
  sprintf_int :: "bytes \<Rightarrow> int \<Rightarrow> bytes"
  sprintf_real :: "bytes \<Rightarrow> bytes \<Rightarrow> bytes"
  strto_real :: "nat \<Rightarrow> bytes \<Rightarrow> bytes"
  rjultostrfmt :: "int \<Rightarrow> bytes \<Rightarrow> bytes"
  rminstrfmt :: "int \<Rightarrow> bytes \<Rightarrow> bytes"
  rminstr :: "int \<Rightarrow> bytes"
  rsecstrfmt :: "int \<Rightarrow> bytes \<Rightarrow> bytes"
  rusecstrfmt :: "int \<Rightarrow> bytes \<Rightarrow> bytes"
  rstrfmttojul :: "bytes \<Rightarrow> bytes \<Rightarrow> int"
  rstrjul :: "bytes \<Rightarrow> int"
  rstrminfmt :: "bytes \<Rightarrow> bytes \<Rightarrow> int"
  rstrmin :: "bytes \<Rightarrow> int"
  rstrsecfmt :: "bytes \<Rightarrow> bytes \<Rightarrow> int"
  rstrusecfmt :: "bytes \<Rightarrow> bytes \<Rightarrow> int"
  str_at :: "int \<Rightarrow> bytes"

text \<open>The extended types of \<open>pack.h\<close>.\<close>

abbreviation (input) "CH_DATE \<equiv> (129::int)"
abbreviation (input) "CH_CNUM \<equiv> (257::int)"
abbreviation (input) "CH_JUL \<equiv> (132::int)"
abbreviation (input) "CH_MINUTS \<equiv> (260::int)"
abbreviation (input) "CH_TIME \<equiv> (134::int)"
abbreviation (input) "CH_USEC \<equiv> (518::int)"
abbreviation (input) "CH_CJUL \<equiv> (516::int)"
abbreviation (input) "CH_CMINUTS \<equiv> (1028::int)"
abbreviation (input) "CH_CTIME \<equiv> (262::int)"

definition NOSELECT :: int where "NOSELECT = 4"

definition ESC_CHAR :: byte where "ESC_CHAR = 0x5C"

abbreviation chars :: "string \<Rightarrow> bytes" where "chars s \<equiv> map of_char s"

subsection \<open>Memory\<close>

definition rd :: "mem \<Rightarrow> int \<Rightarrow> nat \<Rightarrow> bytes" where
  "rd m p n = map (\<lambda>i. m (p + int i)) [0..<n]"

definition wr :: "mem \<Rightarrow> int \<Rightarrow> bytes \<Rightarrow> mem" where
  "wr m p bs = (\<lambda>a. if p \<le> a \<and> a < p + int (length bs) then bs ! nat (a - p) else m a)"

fun le_val :: "bytes \<Rightarrow> int" where
  "le_val [] = 0"
| "le_val (b # bs) = uint b + 256 * le_val bs"

definition s_val :: "bytes \<Rightarrow> int" where
  "s_val bs = (let v = le_val bs; w = 2 ^ (8 * length bs) in if 2 * v \<ge> w then v - w else v)"

fun le_put :: "nat \<Rightarrow> int \<Rightarrow> bytes" where
  "le_put 0 v = []"
| "le_put (Suc n) v = of_int v # le_put n (v div 256)"

text \<open>The null values, \<open>SHORTNULL\<close> and so on: the least number of n bytes.\<close>

definition null_int :: "nat \<Rightarrow> int" where
  "null_int n = - (2 ^ (8 * n - 1))"

definition NAN_NULL :: bytes where
  "NAN_NULL = replicate 8 0xFF"

definition isnull :: "mem \<Rightarrow> int \<Rightarrow> int \<Rightarrow> bool" where
  "isnull m vp type =
     (let t = type AND 127 in
      if t = CH_CHAR then m vp = 0
      else if t = CH_CLOB then le_val (rd m vp 8) = 0
      else if t = CH_TINY then m vp = 0x80
      else if t = CH_SHORT then s_val (rd m vp 2) = null_int 2
      else if t = CH_INT then s_val (rd m vp 4) = null_int 4
      else if t = CH_LONG \<or> t = CH_INT64 then s_val (rd m vp 8) = null_int 8
      else if t = CH_DOUBLE \<or> t = CH_LDOUBLE then rd m vp 8 = NAN_NULL
      else if t = CH_FLOAT then rd m vp 4 = take 4 NAN_NULL
      else False)"

text \<open>\<open>strlen\<close> in memory.\<close>

partial_function (option) c_str :: "mem \<Rightarrow> int \<Rightarrow> bytes option" where
  "c_str m p = (if m p = 0 then Some [] else do { s \<leftarrow> c_str m (p + 1); Some (m p # s) })"

subsection \<open>Bytes in hexadecimal\<close>

definition hex_digit :: "byte \<Rightarrow> byte" where
  "hex_digit n = (if n < 10 then 0x30 + n else 0x37 + n)"

definition b2h :: "bytes \<Rightarrow> bytes" where
  "b2h bin = concat (map (\<lambda>b. [hex_digit (drop_bit 4 b), hex_digit (b AND 15)]) bin)"

definition toupper :: "byte \<Rightarrow> byte" where
  "toupper c = (if 0x61 \<le> c \<and> c \<le> 0x7A then c - 0x20 else c)"

definition h_b :: "byte \<Rightarrow> byte" where
  "h_b c =
     (let c = toupper c - 0x30 in
      if sint c < 0 then 0 else (let c = (if c > 9 then c - 7 else c) in c AND 15))"

text \<open>\<open>byte_cpy\<close> with \<open>h2b\<close>: two digits for each byte, at most \<open>destlen\<close> bytes.\<close>

fun byte_cpy :: "nat \<Rightarrow> bytes \<Rightarrow> bytes" where
  "byte_cpy (Suc n) (a # b # s) = (push_bit 4 (h_b a) + h_b b) # byte_cpy n s"
| "byte_cpy (Suc n) [a] = [push_bit 4 (h_b a)]"
| "byte_cpy _ _ = []"

subsection \<open>Escapes\<close>

definition and_last :: "bytes \<Rightarrow> bytes" where
  "and_last out = butlast out @ [last out AND 0x7F]"

text \<open>One character of \<open>get_one_str\<close>, lines 176-204; J is its index in \<open>sp\<close>.\<close>

definition esc_char :: "strlib \<Rightarrow> byte \<Rightarrow> bytes \<Rightarrow> nat \<Rightarrow> bytes \<Rightarrow> bytes" where
  "esc_char lib dlm sp J out =
     (let c = sp ! J in
      if dlm = 0 then out @ [c]
      else if c = ESC_CHAR then
        (if J > 0 \<and> GBK_flag lib \<and> firstcc lib sp (J - 1) then out @ [c] else out @ [c, c])
      else if c = 0x0A then
        (if J > 0 \<and> firstcc lib sp (J - 1) then and_last out else out) @ [ESC_CHAR, of_char (CHR ''n'')]
      else if c = dlm then
        (if J > 0 \<and> GBK_flag lib \<and> firstcc lib sp (J - 1) then out @ [c]
         else out @ [ESC_CHAR, of_char (CHR ''G'')])
      else out @ [c])"

definition esc_str :: "strlib \<Rightarrow> byte \<Rightarrow> bytes \<Rightarrow> bytes" where
  "esc_str lib dlm sp =
     (let out = fold (esc_char lib dlm sp) [0..<length sp] []
      in if sp \<noteq> [] \<and> firstcc lib sp (length sp - 1) then and_last out else out)"

text \<open>\<open>strcpy_esc\<close>, lines 66-91: the copied string and the number of rounds.\<close>

fun unesc :: "strlib \<Rightarrow> byte \<Rightarrow> bytes \<Rightarrow> nat \<Rightarrow> bytes \<Rightarrow> int \<Rightarrow> bytes \<times> int" where
  "unesc lib dlm src p [] room = ([], 0)"
| "unesc lib dlm src p (c # cs) room =
     (if room \<le> 0 then ([], 0)
      else if c \<noteq> ESC_CHAR \<or> (p > 0 \<and> GBK_flag lib \<and> firstcc lib src (p - 1)) then
        (let (d, i) = unesc lib dlm src (p + 1) cs (room - 1) in (c # d, i + 1))
      else
        (case cs of
           [] \<Rightarrow> ([], 1)
         | e # es \<Rightarrow>
             (let (d, i) = unesc lib dlm src (p + 2) es (room - 1)
              in ((if e = of_char (CHR ''n'') then 0x0A else if e = of_char (CHR ''G'') then dlm else e) # d,
                  i + 1))))"

definition strcpy_esc :: "strlib \<Rightarrow> bytes \<Rightarrow> int \<Rightarrow> byte \<Rightarrow> bytes \<times> int" where
  "strcpy_esc lib src len dlm =
     (let len = (if len \<le> 0 then int (length src) + 1 else len) in
      if dlm = 0 then stptok_copy lib src len
      else unesc lib dlm src 0 src (len - 1))"

subsection \<open>Numbers\<close>

text \<open>\<open>atoi\<close>, \<open>strtol\<close> and \<open>%hd\<close> of the C library: blanks, a sign, digits; None without a digit.\<close>

definition is_digit :: "byte \<Rightarrow> bool" where
  "is_digit c \<longleftrightarrow> 0x30 \<le> c \<and> c \<le> 0x39"

definition is_space :: "byte \<Rightarrow> bool" where
  "is_space c \<longleftrightarrow> c = 0x20 \<or> (9 \<le> c \<and> c \<le> 13)"

definition digits_val :: "bytes \<Rightarrow> int" where
  "digits_val ds = fold (\<lambda>c v. 10 * v + (uint c - 48)) ds 0"

definition scan_int :: "bytes \<Rightarrow> int option" where
  "scan_int s =
     (let s = dropWhile is_space s;
          (neg, s) = (case s of c # r \<Rightarrow> if c = 0x2D then (True, r) else if c = 0x2B then (False, r) else (False, s)
                      | [] \<Rightarrow> (False, []));
          ds = takeWhile is_digit s
      in if ds = [] then None else Some (if neg then - digits_val ds else digits_val ds))"

definition atoi :: "bytes \<Rightarrow> int" where
  "atoi s = (case scan_int s of None \<Rightarrow> 0 | Some v \<Rightarrow> v)"

subsection \<open>One column\<close>

fun text_format :: "T_Format \<Rightarrow> bytes option" where
  "text_format (Text_Format f) = Some f"
| "text_format _ = None"

definition fmt_or :: "T_PkgType \<Rightarrow> string \<Rightarrow> bytes" where
  "fmt_or t dflt = (case text_format (pformat t) of None \<Rightarrow> chars dflt | Some f \<Rightarrow> f)"

definition char_col :: "mem \<Rightarrow> int \<Rightarrow> int \<Rightarrow> bytes option" where
  "char_col m p len =
     (if len > 0 then Some (takeWhile (\<lambda>c. c \<noteq> 0) (rd m p (nat (len - 1)))) else c_str m p)"

definition print_int :: "strlib \<Rightarrow> (int \<Rightarrow> bytes) \<Rightarrow> T_PkgType \<Rightarrow> int \<Rightarrow> int \<Rightarrow> bytes" where
  "print_int lib to_str t raw v =
     (case text_format (pformat t) of Some f \<Rightarrow> sprintf_int lib f raw | None \<Rightarrow> to_str v)"

definition get_one_str :: "strlib \<Rightarrow> mem \<Rightarrow> int \<Rightarrow> T_PkgType \<Rightarrow> byte \<Rightarrow> bytes option" where
  "get_one_str lib m base typ dlm =
     (let cp2 = base + poffset typ; ty = ptype typ in
      if isnull m cp2 ty then Some []
      else if ty = CH_BYTE then Some (b2h (rd m cp2 (nat (plen typ))))
      else if ty = CH_CLOB then Some (esc_str lib dlm (str_at lib (le_val (rd m cp2 8))))
      else if ty = CH_DATE \<or> ty = CH_CNUM \<or> ty = CH_CHAR then
        map_option (esc_str lib dlm) (char_col m cp2 (plen typ))
      else if ty = CH_FLOAT then Some (sprintf_real lib (fmt_or typ ''%g'') (rd m cp2 4))
      else if ty = CH_DOUBLE then Some (sprintf_real lib (fmt_or typ ''%g'') (rd m cp2 8))
      else if ty = CH_LDOUBLE then Some (sprintf_real lib (fmt_or typ ''%Lg'') (rd m cp2 16))
      else if ty = CH_TINY then Some (print_int lib (itoStr lib) typ (uint (m cp2)) (sint (m cp2)))
      else if ty = CH_SHORT then
        Some (print_int lib (itoStr lib) typ (le_val (rd m cp2 2)) (s_val (rd m cp2 2)))
      else if ty = CH_INT then
        Some (print_int lib (itoStr lib) typ (s_val (rd m cp2 4)) (s_val (rd m cp2 4)))
      else if ty = CH_LONG \<or> ty = CH_INT64 then
        Some (print_int lib (lltoStr lib) typ (s_val (rd m cp2 8)) (s_val (rd m cp2 8)))
      else if ty = CH_CJUL \<or> ty = CH_JUL then
        Some (rjultostrfmt lib (s_val (rd m cp2 4)) (fmt_or typ ''YYYYMMDD''))
      else if ty = CH_MINUTS \<or> ty = CH_CMINUTS then
        Some (case text_format (pformat typ) of
                Some f \<Rightarrow> rminstrfmt lib (s_val (rd m cp2 4)) f
              | None \<Rightarrow> rminstr lib (s_val (rd m cp2 4)))
      else if ty = CH_TIME \<or> ty = CH_CTIME then
        Some (rsecstrfmt lib (s_val (rd m cp2 8)) (fmt_or typ ''YYYYMMDDHH24MISS''))
      else if ty = CH_USEC then
        Some (rusecstrfmt lib (s_val (rd m cp2 8)) (fmt_or typ ''YYYYMMDDHH24MISS.FF6''))
      else Some [])"

text \<open>\<open>put_str_one\<close>: the new memory and the returned flag.  A CLOB column stores a pointer
  into the text and unescapes the text in place, which is not modelled (None).\<close>

definition put_str_one :: "strlib \<Rightarrow> mem \<Rightarrow> int \<Rightarrow> bytes \<Rightarrow> T_PkgType \<Rightarrow> byte \<Rightarrow> (mem \<times> int) option" where
  "put_str_one lib m base cp typ dlm =
     (let cp1 = base + poffset typ; ty = ptype typ in
      if ty = CH_CLOB then None
      else if ty = CH_BYTE then Some (wr m cp1 (byte_cpy (nat (plen typ)) cp), 1)
      else if ty = CH_DATE \<or> ty = CH_CNUM \<or> ty = CH_CHAR then
        Some (wr m cp1 (fst (strcpy_esc lib cp (plen typ) dlm) @ [0]), 1)
      else if ty = CH_FLOAT then Some (wr m cp1 (strto_real lib 4 cp), 1)
      else if ty = CH_DOUBLE then Some (wr m cp1 (strto_real lib 8 cp), 1)
      else if ty = CH_LDOUBLE then Some (wr m cp1 (strto_real lib 16 cp), 0)
      else if ty = CH_JUL \<or> ty = CH_CJUL then
        Some (wr m cp1 (le_put 4
          (if cp = [] then null_int 4
           else (case text_format (pformat typ) of
                   Some f \<Rightarrow> rstrfmttojul lib cp f | None \<Rightarrow> rstrjul lib cp))), 1)
      else if ty = CH_MINUTS \<or> ty = CH_CMINUTS then
        Some (wr m cp1 (le_put 4
          (if cp = [] then null_int 4
           else (case text_format (pformat typ) of
                   Some f \<Rightarrow> rstrminfmt lib cp f | None \<Rightarrow> rstrmin lib cp))), 1)
      else if ty = CH_TIME \<or> ty = CH_CTIME then
        Some (wr m cp1 (le_put 8
          (if cp = [] then null_int 8 else rstrsecfmt lib cp (fmt_or typ ''YYYYMMDDHH24MISS''))), 1)
      else if ty = CH_USEC then
        Some (wr m cp1 (le_put 8
          (if cp = [] then null_int 8 else rstrusecfmt lib cp (fmt_or typ ''YYYYMMDDHH24MISS.FF6''))), 1)
      else if ty = CH_TINY then
        Some (wr m cp1 (if cp = [] then [0x80] else [of_int (atoi cp)]), 0)
      else if ty = CH_SHORT then
        Some (wr m cp1 (le_put 2 (case scan_int cp of None \<Rightarrow> null_int 2 | Some v \<Rightarrow> v)), 1)
      else if ty = CH_INT then
        Some (wr m cp1 (le_put 4 (if cp = [] then null_int 4 else atoi cp)), 0)
      else if ty = CH_LONG \<or> ty = CH_INT64 then
        Some (wr m cp1 (le_put 8 (if cp = [] then null_int 8 else atoi cp)), 0)
      else Some (m, 0))"


subsection \<open>Whole records\<close>

text \<open>Laying a template out changes no size, so a walk down the templates of its structure
  columns ends.\<close>

lemma size_set [simp]: "size (set_bind t b) = size t" "size (set_off t k) = size t"
  by (cases t; simp add: set_bind_def set_off_def)+

lemma size_list_hd: "ts \<noteq> [] \<Longrightarrow> size (f (hd ts)) = size (hd ts) \<Longrightarrow>
    size_list size (f (hd ts) # tl ts) = size_list size (ts :: T_PkgType list)"
  by (cases ts) auto

declare set_offset.simps [simp del] layout_loop.simps [simp del] cnt_type.simps [simp del]
  visit_all.simps [simp del] visit.simps [simp del]

lemma layout_loop_size: "layout_loop first k a ts = Some ts' \<Longrightarrow> size_list size ts' = size_list size ts"
proof (induction ts arbitrary: first k a ts')
  case (Cons t ts)
  show ?case
  proof (cases "ptype t > -1")
    case False
    then show ?thesis using Cons.prems by (auto simp: layout_loop.simps Let_def)
  next
    case True
    obtain u us where ts: "ts = u # us"
      using Cons.prems True by (cases ts) (simp_all add: layout_loop.simps(2) [of _ _ _ t] Let_def)
    let ?t = "set_bind (if first then t else set_off t k) 0"
    let ?na = "next_align u (struct_align u) (if base_type ?t \<noteq> CH_CLOB then k + plen ?t else k + 8) a"
    have "map_option (\<lambda>ts'. ?t # ts') (layout_loop False (fst ?na) (snd ?na) ts) = Some ts'"
      using Cons.prems True
      by (simp only: layout_loop.simps(2) [of first k a t] Let_def ts list.case case_prod_unfold if_True)
    then obtain vs where "layout_loop False (fst ?na) (snd ?na) ts = Some vs" "ts' = ?t # vs"
      by auto
    then show ?thesis using Cons.IH by auto
  qed
qed (simp add: layout_loop.simps)

lemma layout_loop_ne: "layout_loop first k a ts = Some ts' \<Longrightarrow> ts' \<noteq> []"
  using layout_loop_size [of first k a ts ts'] by (cases ts) (auto simp: layout_loop.simps(1))

lemma set_offset_size:
  "set_offset ts = Some (n, ts') \<Longrightarrow> size_list size ts' = size_list size ts"
  "visit_all ts = Some ts' \<Longrightarrow> size_list size ts' = size_list size ts"
  "visit t = Some t' \<Longrightarrow> size t' = size t"
proof (induction ts and ts and t arbitrary: n ts' and ts' and t' rule: set_offset_visit_all_visit.induct)
  case (1 ts)
  show ?case
  proof (cases ts)
    case Nil
    then show ?thesis using 1(2) by (simp add: set_offset.simps [of "[]"])
  next
    case (Cons t us)
    note eq = trans [OF set_offset.simps [of ts, symmetric] 1(2), unfolded Cons list.case]
    show ?thesis
    proof (cases "poffset t > -1")
      case True
      then show ?thesis using eq Cons by (auto split: bind_splits)
    next
      case False
      then obtain k vs ws where v: "cnt_type ts = Some k" "visit_all ts = Some vs"
          "layout_loop True 0 (first_align (hd vs) (struct_align (hd vs))) vs = Some ws"
          "ts' = set_off (hd ws) 0 # tl ws"
        using eq Cons by (auto split: bind_splits)
      have "size_list size vs = size_list size ts" using 1(1) [OF Cons False v(1,2)] .
      moreover have "size_list size ws = size_list size vs" using layout_loop_size [OF v(3)] .
      ultimately show ?thesis using v(4) layout_loop_ne [OF v(3)] by (cases ws) auto
    qed
  qed
next
  case 2
  then show ?case by (simp add: visit_all.simps)
next
  case (3 t ts)
  then show ?case by (auto simp: visit_all.simps split: if_splits bind_splits)
next
  case (4 ty ln nm fmt off b)
  show ?case
  proof (cases "ty AND 127 = CH_STRUCT")
    case False
    then show ?thesis using 4(2) by (auto simp: visit.simps)
  next
    case True
    then obtain fs where fs: "fmt = Struct_Format fs"
      using 4(2) by (cases fmt) (auto simp: visit.simps)
    then obtain l fs' where "set_offset fs = Some (l, fs')"
        "t' = PkgType ty (poffset (fs' ! nat l)) nm (Struct_Format fs') off b"
      using 4(2) True by (auto simp: visit.simps split: bind_splits)
    then show ?thesis using 4(1) [OF True fs, of l fs'] fs by simp
  qed
qed

definition laid_out :: "T_PkgType list \<Rightarrow> T_PkgType list option" where
  "laid_out tpl =
     (case tpl of [] \<Rightarrow> None
      | t # _ \<Rightarrow> if poffset t < 0 then map_option snd (set_offset tpl) else Some tpl)"

lemma laid_out_size: "laid_out tpl = Some tpl' \<Longrightarrow> size_list size tpl' = size_list size tpl"
  using set_offset_size(1) by (auto simp: laid_out_def split: list.splits if_splits)

lemma struct_size: "pformat t = Struct_Format fs \<Longrightarrow> size_list size fs < size t"
  by (cases t) auto

function pkg_pack :: "strlib \<Rightarrow> mem \<Rightarrow> int \<Rightarrow> T_PkgType list \<Rightarrow> byte \<Rightarrow> bytes option"
  and pack_cols :: "strlib \<Rightarrow> mem \<Rightarrow> int \<Rightarrow> T_PkgType list \<Rightarrow> byte \<Rightarrow> bytes option" where
  "pkg_pack lib m base tpl dlm =
     (case laid_out tpl of None \<Rightarrow> None | Some tpl \<Rightarrow> pack_cols lib m base tpl dlm)"
| "pack_cols lib m base tpl dlm =
     (case tpl of
        [] \<Rightarrow> None
      | typ # ts \<Rightarrow>
          if ptype typ \<le> -1 then Some []
          else if pbindtype typ AND NOSELECT \<noteq> 0 then pack_cols lib m base ts dlm
          else if ptype typ = CH_STRUCT then
            (case pformat typ of
               Struct_Format fs \<Rightarrow>
                 (case pkg_pack lib m (base + poffset typ) fs dlm of
                    None \<Rightarrow> None
                  | Some a \<Rightarrow> map_option (\<lambda>b. a @ b) (pack_cols lib m base ts dlm))
             | _ \<Rightarrow> None)
          else
            (case get_one_str lib m base typ dlm of
               None \<Rightarrow> None
             | Some a \<Rightarrow> map_option (\<lambda>b. a @ dlm # b) (pack_cols lib m base ts dlm)))"
  by pat_completeness auto
termination
  by (relation "measure (\<lambda>x. case x of Inl (_, _, _, ts, _) \<Rightarrow> 2 * size_list size ts + 1
    | Inr (_, _, _, ts, _) \<Rightarrow> 2 * size_list size ts)") (auto dest: laid_out_size struct_size)

text \<open>\<open>pkg_dispack\<close>: the new memory and what is left of the text.  A delimiter of 0 would make
  line 452 step over the end of the text (None).\<close>

function pkg_dispack :: "strlib \<Rightarrow> mem \<Rightarrow> int \<Rightarrow> bytes \<Rightarrow> T_PkgType list \<Rightarrow> byte \<Rightarrow> (mem \<times> bytes) option"
  and dispack_cols :: "strlib \<Rightarrow> mem \<Rightarrow> int \<Rightarrow> bytes \<Rightarrow> T_PkgType list \<Rightarrow> byte \<Rightarrow> (mem \<times> bytes) option" where
  "pkg_dispack lib m base cp tpl dlm =
     (if dlm = 0 then None
      else if cp = [] then Some (m, [])
      else (case laid_out tpl of None \<Rightarrow> None | Some tpl \<Rightarrow> dispack_cols lib m base cp tpl dlm))"
| "dispack_cols lib m base cp tpl dlm =
     (case tpl of
        [] \<Rightarrow> None
      | typ # ts \<Rightarrow>
          if ptype typ \<le> -1 then Some (m, cp)
          else if pbindtype typ AND NOSELECT \<noteq> 0 then dispack_cols lib m base cp ts dlm
          else if ptype typ = CH_STRUCT then
            (case pformat typ of
               Struct_Format fs \<Rightarrow>
                 (case pkg_dispack lib m (base + poffset typ) cp fs dlm of
                    None \<Rightarrow> None
                  | Some (m, cp) \<Rightarrow> dispack_cols lib m base cp ts dlm)
             | _ \<Rightarrow> None)
          else
            (let n = stptok_pos lib cp [dlm];
                 at_dlm = (n < length cp \<and> cp ! n = dlm);
                 cp1 = (if at_dlm then take n cp else cp);
                 cp = (if at_dlm then drop (n + 1) cp else drop n cp)
             in case put_str_one lib m base cp1 typ dlm of
                  None \<Rightarrow> None
                | Some (m, _) \<Rightarrow> if cp = [] then Some (m, []) else dispack_cols lib m base cp ts dlm))"
  by pat_completeness auto
termination
  by (relation "measure (\<lambda>x. case x of Inl (_, _, _, _, ts, _) \<Rightarrow> 2 * size_list size ts + 1
    | Inr (_, _, _, _, ts, _) \<Rightarrow> 2 * size_list size ts)") (auto dest: laid_out_size struct_size)

declare pkg_pack.simps [simp del] pack_cols.simps [simp del]
  pkg_dispack.simps [simp del] dispack_cols.simps [simp del]

text \<open>One item by name: \<open>getitem_idx\<close> (the inner None is the null pointer for an unknown name)
  and \<open>putitem_idx\<close>.\<close>

definition getitem_idx :: "strlib \<Rightarrow> mem \<Rightarrow> int \<Rightarrow> T_PkgType list \<Rightarrow> bytes \<Rightarrow> slot list option \<Rightarrow> int
    \<Rightarrow> bytes option option" where
  "getitem_idx lib m base tpl key colidx colnum =
     do { tpl \<leftarrow> laid_out tpl;
          k \<leftarrow> index_col colidx colnum key (Some tpl);
          if k < 0 then Some None
          else map_option Some (get_one_str lib m base (tpl ! nat k) 0) }"

definition putitem_idx :: "strlib \<Rightarrow> mem \<Rightarrow> int \<Rightarrow> bytes \<Rightarrow> T_PkgType list \<Rightarrow> bytes \<Rightarrow> slot list option \<Rightarrow> int
    \<Rightarrow> (mem \<times> int) option" where
  "putitem_idx lib m base cp tpl key colidx colnum =
     do { tpl \<leftarrow> laid_out tpl;
          k \<leftarrow> index_col colidx colnum key (Some tpl);
          if k < 0 then Some (m, 0) else put_str_one lib m base cp (tpl ! nat k) 0 }"

fun init_cols :: "mem \<Rightarrow> int \<Rightarrow> T_PkgType list \<Rightarrow> mem option" where
  "init_cols m base [] = None"
| "init_cols m base (typ # ts) =
     (if ptype typ < 0 then Some m
      else
        let cp = base + poffset typ; ty = ptype typ;
            v = (if ty = CH_DOUBLE then replicate 8 0
                 else if ty = CH_CLOB then replicate 8 0
                 else if ty \<in> {CH_JUL, CH_CJUL, CH_MINUTS, CH_CMINUTS, CH_INT} then le_put 4 (null_int 4)
                 else if ty \<in> {CH_TIME, CH_CTIME, CH_USEC, CH_INT64} then le_put 8 (null_int 8)
                 else if ty = CH_SHORT then le_put 2 (null_int 2)
                 else if ty = CH_TINY then [0x80]
                 else if ty = CH_LONG then le_put 8 (null_int 8)
                 else replicate (nat (plen typ)) 0)
        in init_cols (wr m cp v) base ts)"

definition data_init :: "mem \<Rightarrow> int \<Rightarrow> T_PkgType list \<Rightarrow> mem option" where
  "data_init m base tpl = do { tpl \<leftarrow> laid_out tpl; init_cols m base tpl }"

end
