(* ===== verification/Pack_Round_Trip.thy ===== *)
theory Pack_Round_Trip
  imports Pack
begin

text \<open>What the text of a record is worth: the escapes, the numbers and the hexadecimal bytes
  written by \<open>get_one_str\<close> are read back by \<open>put_str_one\<close>, column by column and, over the
  layout \<open>set_offset\<close> computes, for whole records.\<close>

unbundle bit_operations_syntax

section \<open>Reading back what was written\<close>

subsection \<open>What the string library promises\<close>

definition ascii :: "bytes \<Rightarrow> bool" where
  "ascii s \<longleftrightarrow> (\<forall>c\<in>set s. c < 0x80)"

fun dec_nat :: "nat \<Rightarrow> bytes" where
  "dec_nat n = (if n < 10 then [of_nat (48 + n)] else dec_nat (n div 10) @ [of_nat (48 + n mod 10)])"

declare dec_nat.simps [simp del]

definition decimal :: "int \<Rightarrow> bytes" where
  "decimal n = (if n < 0 then 0x2D # dec_nat (nat (- n)) else dec_nat (nat n))"

text \<open>The documented behaviour of \<open>stptok\<close> (the position of the delimiter, or the end of the
  string), of \<open>firstcc\<close> (the first half of a two-byte character, never so in an ASCII string)
  and of the integer printers (decimal).\<close>

definition strproc_ok :: "strlib \<Rightarrow> bool" where
  "strproc_ok lib \<longleftrightarrow>
     (\<forall>s d. ascii s \<longrightarrow> stptok_pos lib s [d] = length (takeWhile (\<lambda>c. c \<noteq> d) s)) \<and>
     (\<forall>s i. ascii s \<longrightarrow> \<not> firstcc lib s i) \<and>
     (\<forall>n. itoStr lib n = decimal n \<and> lltoStr lib n = decimal n)"

text \<open>A usable delimiter: no character of an escape, a number or a hexadecimal string.\<close>

definition delimiter :: "byte \<Rightarrow> bool" where
  "delimiter d \<longleftrightarrow> d \<noteq> 0 \<and> d < 0x80 \<and> d \<noteq> ESC_CHAR \<and> d \<noteq> of_char (CHR ''n'') \<and> d \<noteq> of_char (CHR ''G'') \<and>
     \<not> is_digit d \<and> d \<noteq> 0x2D \<and> \<not> (0x41 \<le> d \<and> d \<le> 0x46)"

subsection \<open>Escapes\<close>

definition esc1 :: "byte \<Rightarrow> byte \<Rightarrow> bytes" where
  "esc1 d c =
     (if c = ESC_CHAR then [ESC_CHAR, ESC_CHAR]
      else if c = 0x0A then [ESC_CHAR, of_char (CHR ''n'')]
      else if c = d then [ESC_CHAR, of_char (CHR ''G'')] else [c])"

lemma esc_str_ascii:
  assumes "strproc_ok lib" "ascii s" "d \<noteq> 0"
  shows "esc_str lib d s = concat (map (esc1 d) s)"
proof -
  have fc: "\<not> firstcc lib s i" for i using assms by (simp add: strproc_ok_def)
  have "k \<le> length s \<Longrightarrow> fold (esc_char lib d s) [0..<k] [] = concat (map (esc1 d) (take k s))" for k
  proof (induction k)
    case (Suc k)
    have "esc_char lib d s k out = out @ esc1 d (s ! k)" for out
      using fc assms(3) by (simp add: esc_char_def esc1_def Let_def)
    then show ?case using Suc by (simp add: take_Suc_conv_app_nth)
  qed simp
  from this [of "length s"] show ?thesis using fc by (simp add: esc_str_def Let_def)
qed

lemma esc_letters: "ESC_CHAR \<noteq> of_char (CHR ''n'')" "ESC_CHAR \<noteq> of_char (CHR ''G'')"
    "ESC_CHAR \<noteq> 0x0A" "(of_char (CHR ''n'') :: byte) \<noteq> of_char (CHR ''G'')" "ESC_CHAR < 0x80"
    "(of_char (CHR ''n'') :: byte) < 0x80" "(of_char (CHR ''G'') :: byte) < 0x80"
  by (simp_all add: ESC_CHAR_def)

lemma unesc_esc:
  assumes "\<And>i. \<not> firstcc lib src i" "d \<noteq> ESC_CHAR"
  shows "int (length s) \<le> room \<Longrightarrow>
    unesc lib d src p (concat (map (esc1 d) s)) room = (s, int (length s))"
proof (induction s arbitrary: p room)
  case (Cons c s)
  have "0 < room" using Cons.prems by simp
  moreover have "unesc lib d src q (concat (map (esc1 d) s)) (room - 1) = (s, int (length s))" for q
    using Cons by simp
  ultimately show ?case using assms esc_letters by (auto simp: esc1_def [of d c])
qed simp

lemma esc_no_delimiter: "delimiter d \<Longrightarrow> d \<notin> set (concat (map (esc1 d) s))"
  by (auto simp: esc1_def delimiter_def)

lemma ascii_esc: "ascii s \<Longrightarrow> ascii (concat (map (esc1 d) s))"
  using esc_letters by (auto simp: ascii_def esc1_def)

subsection \<open>Numbers\<close>

lemma byte_256: "(256 :: byte) = 0"
  by transfer simp

lemma uint_of_nat: "j < 256 \<Longrightarrow> uint (of_nat j :: byte) = int j"
  unfolding uint_nat by (simp only: unat_of_nat) simp

lemma digit_of_nat: "k < 10 \<Longrightarrow> uint (of_nat (48 + k) :: byte) = 48 + int k"
  using uint_of_nat [of "48 + k"] by simp

lemma is_digit_of_nat: "k < 10 \<Longrightarrow> is_digit (of_nat (48 + k))"
  using digit_of_nat [of k] by (simp add: is_digit_def word_le_def)

lemma dec_nat_props:
  "dec_nat n \<noteq> [] \<and> (\<forall>c\<in>set (dec_nat n). is_digit c) \<and> digits_val (dec_nat n) = int n"
proof (induction n rule: dec_nat.induct)
  case (1 n)
  show ?case
  proof (cases "n < 10")
    case True
    then show ?thesis using is_digit_of_nat [of n] digit_of_nat [of n]
      by (simp add: dec_nat.simps [of n] digits_val_def)
  next
    case False
    have "digits_val (dec_nat (n div 10) @ [of_nat (48 + n mod 10)]) =
        10 * digits_val (dec_nat (n div 10)) + int (n mod 10)"
      using digit_of_nat [of "n mod 10"] by (simp add: digits_val_def)
    then have "digits_val (dec_nat n) = 10 * int (n div 10) + int (n mod 10)"
      using 1 False by (simp add: dec_nat.simps [of n])
    also have "\<dots> = int (10 * (n div 10) + n mod 10)"
      by (simp only: of_nat_add of_nat_mult of_nat_numeral)
    also have "\<dots> = int n" by (simp only: mult_div_mod_eq)
    finally have "digits_val (dec_nat n) = int n" .
    then show ?thesis using 1 False is_digit_of_nat [of "n mod 10"]
      by (simp add: dec_nat.simps [of n])
  qed
qed

lemma digit_chars: "is_digit c \<Longrightarrow> \<not> is_space c \<and> c \<noteq> 0x2D \<and> c \<noteq> 0x2B \<and> c < 0x80"
  by (auto simp: is_digit_def is_space_def word_le_nat_alt word_less_nat_alt unat_eq_0)

lemma scan_decimal: "scan_int (decimal n) = Some n"
proof -
  have neg: "\<not> is_space 0x2D" "\<not> is_digit 0x2D" by (simp_all add: is_space_def is_digit_def)
  have d: "takeWhile is_digit (dec_nat k) = dec_nat k" for k
    using dec_nat_props [of k] by (simp add: takeWhile_eq_all_conv)
  obtain c r where c: "dec_nat (nat n) = c # r" "is_digit c"
    using dec_nat_props [of "nat n"] by (cases "dec_nat (nat n)") auto
  note c' = digit_chars [OF c(2)]
  show ?thesis
  proof (cases "n < 0")
    case True
    then show ?thesis using neg dec_nat_props [of "nat (- n)"]
      by (simp add: scan_int_def decimal_def d Let_def)
  next
    case False
    have tw: "takeWhile is_digit r = r"
      using c(1) dec_nat_props [of "nat n"] by (simp add: takeWhile_eq_all_conv)
    show ?thesis using False c c' dec_nat_props [of "nat n"]
      by (simp add: scan_int_def decimal_def Let_def tw)
  qed
qed

lemma decimal_chars: "decimal n \<noteq> []" "ascii (decimal n)" "delimiter d \<Longrightarrow> d \<notin> set (decimal n)"
  using dec_nat_props digit_chars by (auto simp: decimal_def ascii_def delimiter_def)

lemma le_put_val: "le_put (length bs) (le_val bs) = bs"
proof (induction bs)
  case (Cons b bs)
  have "uint b < 256" "0 \<le> uint b" using uint_lt2p [of b] by simp_all
  then have "(uint b + 256 * le_val bs) div 256 = le_val bs" by simp
  moreover have "(of_int (uint b + 256 * le_val bs) :: byte) = b"
    by (simp add: byte_256)
  ultimately show ?case using Cons by simp
qed simp

lemma le_put_mod: "le_put n (v - 2 ^ (8 * n)) = le_put n v"
proof (induction n arbitrary: v)
  case (Suc n)
  have p: "(2::int) ^ (8 * Suc n) = 256 * 2 ^ (8 * n)" by (simp add: power_add)
  have "(v - 2 ^ (8 * Suc n)) div 256 = v div 256 - 2 ^ (8 * n)"
    unfolding p using div_mult_self1 [of 256 v "- (2 ^ (8 * n))"] by (simp add: mult.commute)
  moreover have "(of_int (v - 2 ^ (8 * Suc n)) :: byte) = of_int v"
    unfolding p by (simp add: byte_256)
  ultimately show ?case using Suc by simp
qed simp

lemma le_put_s_val: "length bs = n \<Longrightarrow> le_put n (s_val bs) = bs"
  using le_put_val [of bs] le_put_mod [of n "le_val bs"] by (auto simp: s_val_def Let_def)

lemma length_le_put [simp]: "length (le_put n v) = n"
  by (induction n arbitrary: v) auto

lemma length_rd [simp]: "length (rd m p n) = n"
  by (simp add: rd_def)

lemma rd_wr_same: "rd (wr m p bs) p (length bs) = bs"
  by (rule nth_equalityI) (simp_all add: rd_def wr_def)

lemma wr_other: "a < p \<or> p + int (length bs) \<le> a \<Longrightarrow> wr m p bs a = m a"
  by (auto simp: wr_def)


subsection \<open>One column\<close>

text \<open>The number of bytes of a column of text or of an integer type.\<close>

definition width :: "T_PkgType \<Rightarrow> nat" where
  "width t =
     (if ptype t = CH_TINY then 1 else if ptype t = CH_SHORT then 2 else if ptype t = CH_INT then 4
      else if ptype t = CH_LONG \<or> ptype t = CH_INT64 then 8 else nat (plen t))"

definition text_col :: "T_PkgType \<Rightarrow> bool" where
  "text_col t \<longleftrightarrow> ptype t = CH_DATE \<or> ptype t = CH_CNUM \<or> ptype t = CH_CHAR"

definition int_col :: "T_PkgType \<Rightarrow> bool" where
  "int_col t \<longleftrightarrow> ptype t \<in> {CH_TINY, CH_SHORT, CH_INT, CH_LONG, CH_INT64} \<and> text_format (pformat t) = None"

definition byte_col :: "T_PkgType \<Rightarrow> bool" where
  "byte_col t \<longleftrightarrow> ptype t = CH_BYTE"

text \<open>A column the round trip covers, with ASCII text where it holds text.\<close>

definition plain_col :: "mem \<Rightarrow> int \<Rightarrow> T_PkgType \<Rightarrow> bool" where
  "plain_col m base t \<longleftrightarrow> pbindtype t AND NOSELECT = 0 \<and>
     (text_col t \<and> 0 < plen t \<and> (\<forall>s. char_col m (base + poffset t) (plen t) = Some s \<longrightarrow> ascii s) \<or> int_col t \<or> byte_col t)"

text \<open>Two memories with the same value in a column: the same C string, the same integer.\<close>

definition col_same :: "mem \<Rightarrow> mem \<Rightarrow> int \<Rightarrow> T_PkgType \<Rightarrow> bool" where
  "col_same m m' base t \<longleftrightarrow>
     (if text_col t then char_col m' (base + poffset t) (plen t) = char_col m (base + poffset t) (plen t)
      else rd m' (base + poffset t) (width t) = rd m (base + poffset t) (width t))"

lemma s_val_1: "s_val [b] = sint b"
proof -
  have u: "uint b < 256" "0 \<le> uint b" using uint_lt2p [of b] by simp_all
  have "sint b = uint b - 256 * of_bool (bit (uint b) 7)"
    using sint_uint [of b] u by (simp add: signed_take_bit_eq_take_bit_minus take_bit_int_eq_self)
  also have "bit (uint b) 7 \<longleftrightarrow> 128 \<le> uint b"
  proof (cases "128 \<le> uint b")
    case True
    then have "uint b div 128 = 1" using u by (intro int_div_pos_eq [of _ _ _ "uint b - 128"]) simp_all
    then show ?thesis using True by (simp add: bit_iff_odd)
  next
    case False
    then show ?thesis using u by (simp add: bit_iff_odd)
  qed
  finally have "sint b = (if 2 * uint b \<ge> 256 then uint b - 256 else uint b)" by simp
  then show ?thesis by (simp add: s_val_def Let_def)
qed

lemma sint_128: "sint (b :: byte) = -128 \<longleftrightarrow> b = 0x80"
proof -
  have "sint (0x80 :: byte) = -128" by simp
  then show ?thesis using signed_word_eqI [of b "0x80"] by metis
qed

lemma null_1: "of_int (null_int 1) = (0x80 :: byte)"
  by (simp add: null_int_def)

definition int_null :: "mem \<Rightarrow> int \<Rightarrow> T_PkgType \<Rightarrow> bool" where
  "int_null m base t \<longleftrightarrow> s_val (rd m (base + poffset t) (width t)) = null_int (width t)"

lemma rd_1: "rd m p 1 = [m p]" "rd m p (Suc 0) = [m p]"
  by (simp_all add: rd_def)

lemma isnull_int:
  assumes "int_col t"
  shows "int_null m base t \<longleftrightarrow> isnull m (base + poffset t) (ptype t)"
  using assms s_val_1
  by (auto simp: int_null_def isnull_def int_col_def width_def rd_1 null_int_def Let_def sint_128)

text \<open>An integer column prints as its value in decimal, or as nothing for the null value.\<close>

lemma get_int:
  assumes "strproc_ok lib" "int_col t"
  shows "get_one_str lib m base t d =
    Some (if int_null m base t then [] else decimal (s_val (rd m (base + poffset t) (width t))))"
proof -
  have n: "int_null m base t \<longleftrightarrow> isnull m (base + poffset t) (ptype t)"
    using isnull_int [OF assms(2)] .
  show ?thesis unfolding n
    using assms by (auto simp: get_one_str_def int_col_def print_int_def width_def rd_1 s_val_1
        strproc_ok_def Let_def)
qed

lemma put_int:
  assumes "int_col t"
  shows "\<exists>r. put_str_one lib m base (if nul then [] else decimal v) t d =
    Some (wr m (base + poffset t) (le_put (width t) (if nul then null_int (width t) else v)), r)"
  using assms decimal_chars(1) [of v] scan_decimal [of v] null_1
  by (auto simp: put_str_one_def int_col_def width_def atoi_def scan_int_def Let_def)


lemma char_col_wr:
  assumes "0 < len" "length s < nat len" "0 \<notin> set s" "rd m p (length s + 1) = s @ [0]"
  shows "char_col m p len = Some s"
proof -
  obtain k where k: "nat (len - 1) = length s + k" using assms(1,2) by (metis le_add_diff_inverse
      One_nat_def Suc_leI Suc_le_mono Suc_pred nat_diff_distrib' nat_1 zero_less_nat_eq zero_le_one less_imp_le)
  have m: "m (p + int i) = s ! i" if "i < length s" for i
    using arg_cong [OF assms(4), of "\<lambda>x. x ! i"] that by (simp add: rd_def nth_append)
  have z: "m (p + int (length s)) = 0"
    using arg_cong [OF assms(4), of "\<lambda>x. x ! length s"] by (simp add: rd_def nth_append del: upt_Suc)
  have "rd m p (length s) = s" using m by (intro nth_equalityI) (simp_all add: rd_def)
  moreover have "rd m p (length s + k) = rd m p (length s) @ map (\<lambda>i. m (p + int (length s + i))) [0..<k]"
    by (intro nth_equalityI) (auto simp: rd_def nth_append)
  ultimately have r: "rd m p (length s + k) = s @ map (\<lambda>i. m (p + int (length s + i))) [0..<k]" by simp
  have "takeWhile (\<lambda>c. c \<noteq> 0) (map (\<lambda>i. m (p + int (length s + i))) [0..<k]) = []"
    using z by (cases k) (simp_all add: upt_conv_Cons del: upt_Suc)
  then have "takeWhile (\<lambda>c. c \<noteq> 0) (rd m p (length s + k)) = s"
    using assms(3) unfolding r by (subst takeWhile_append2) auto
  then show ?thesis using assms(1) k by (simp add: char_col_def)
qed

lemma char_col_props:
  assumes "char_col m p len = Some s" "0 < len"
  shows "0 \<notin> set s \<and> length s < nat len"
proof -
  have s: "s = takeWhile (\<lambda>c. c \<noteq> 0) (rd m p (nat (len - 1)))"
    using assms by (simp add: char_col_def)
  have "length s \<le> nat (len - 1)" unfolding s
    using length_takeWhile_le [of _ "rd m p (nat (len - 1))"] by simp
  then show ?thesis using assms(2) set_takeWhileD unfolding s by fastforce
qed

lemma isnull_text: "text_col t \<Longrightarrow> isnull m p (ptype t) \<longleftrightarrow> m p = 0"
  by (auto simp: text_col_def isnull_def Let_def)

lemma get_text:
  assumes "strproc_ok lib" "text_col t" "0 < plen t" "char_col m (base + poffset t) (plen t) = Some s"
    "ascii s" "d \<noteq> 0"
  shows "get_one_str lib m base t d = Some (concat (map (esc1 d) s))"
proof (cases "m (base + poffset t) = 0")
  case True
  then have "s = []" using assms(3,4)
    by (auto simp: char_col_def rd_def upt_rec [of 0] split: if_splits)
  then show ?thesis using True isnull_text [OF assms(2)] by (simp add: get_one_str_def Let_def)
next
  case False
  then show ?thesis using assms isnull_text [OF assms(2)] esc_str_ascii [OF assms(1,5,6)]
    by (auto simp: get_one_str_def text_col_def Let_def)
qed

lemma put_text:
  assumes "strproc_ok lib" "text_col t" "0 < plen t" "length s < nat (plen t)" "ascii s" "delimiter d"
  shows "put_str_one lib m base (concat (map (esc1 d) s)) t d = Some (wr m (base + poffset t) (s @ [0]), 1)"
proof -
  let ?e = "concat (map (esc1 d) s)"
  have "\<not> firstcc lib ?e i" for i
    using assms(1,5) ascii_esc by (simp add: strproc_ok_def)
  moreover have "d \<noteq> ESC_CHAR" "d \<noteq> 0" using assms(6) by (simp_all add: delimiter_def)
  ultimately have "strcpy_esc lib ?e (plen t) d = (s, int (length s))"
    using unesc_esc [of lib ?e d s "plen t - 1" 0] assms(3,4) by (simp add: strcpy_esc_def)
  then show ?thesis using assms(2) by (auto simp: put_str_one_def text_col_def Let_def)
qed

lemma hex_nibble:
  assumes "n < 16"
  shows "h_b (hex_digit n) = n" "is_digit (hex_digit n) \<or> 0x41 \<le> hex_digit n \<and> hex_digit n \<le> 0x46"
proof -
  have "\<forall>n\<in>set (map of_nat [0..<16]). h_b (hex_digit n) = n \<and>
      (is_digit (hex_digit n) \<or> 0x41 \<le> hex_digit n \<and> hex_digit n \<le> 0x46)"
    by code_simp
  moreover have "n \<in> set (map of_nat [0..<16])"
    using assms by (auto simp: word_less_nat_alt image_iff intro!: bexI [of _ "unat n"])
  ultimately show "h_b (hex_digit n) = n" "is_digit (hex_digit n) \<or> 0x41 \<le> hex_digit n \<and> hex_digit n \<le> 0x46"
    by blast+
qed

lemma nibbles: "drop_bit 4 b < (16 :: byte)" "b AND 15 < (16 :: byte)"
  "push_bit 4 (drop_bit 4 b) + (b AND 15) = (b :: byte)"
proof -
  have "unat (drop_bit 4 b) = unat b div 2 ^ 4"
    by (simp only: unat_drop_bit_eq) (simp add: drop_bit_eq_div)
  then have "unat (drop_bit 4 b) < 16"
    using unsigned_less [where 'a = nat, of b] by (simp add: less_mult_imp_div_less)
  then show "drop_bit 4 b < 16" by (simp add: word_less_nat_alt)
  have "b AND 15 \<le> 15" by (rule word_and_le1)
  then show "b AND 15 < 16" by (simp add: word_le_nat_alt word_less_nat_alt)
  have m: "(15 :: byte) = mask 4" by (simp add: mask_eq_exp_minus_1)
  have "push_bit 4 (drop_bit 4 b) AND (b AND 15) = 0"
    unfolding m by (rule bit_word_eqI) (auto simp: bit_simps)
  then have "push_bit 4 (drop_bit 4 b) + (b AND 15) = push_bit 4 (drop_bit 4 b) OR (b AND 15)"
    using word_plus_and_or [of "push_bit 4 (drop_bit 4 b)" "b AND 15"] by simp
  also have "\<dots> = b" unfolding m by (rule bit_word_eqI) (auto simp: bit_simps)
  finally show "push_bit 4 (drop_bit 4 b) + (b AND 15) = b" .
qed

lemma byte_cpy_b2h: "byte_cpy (length bs) (b2h bs) = bs"
proof (induction bs)
  case (Cons b bs)
  have "b2h (b # bs) = hex_digit (drop_bit 4 b) # hex_digit (b AND 15) # b2h bs"
    by (simp add: b2h_def)
  then show ?case using Cons hex_nibble(1) [OF nibbles(1)] hex_nibble(1) [OF nibbles(2)] nibbles(3)
    by simp
qed (simp add: b2h_def)

lemma b2h_chars: "ascii (b2h bs)" "delimiter d \<Longrightarrow> d \<notin> set (b2h bs)"
proof -
  have h: "is_digit c \<or> 0x41 \<le> c \<and> c \<le> 0x46" if "c \<in> set (b2h bs)" for c
    using that hex_nibble(2) [OF nibbles(1)] hex_nibble(2) [OF nibbles(2)] by (auto simp: b2h_def)
  moreover have "c < 0x80" if "0x41 \<le> c \<and> c \<le> 0x46" for c :: byte
    using that by (simp add: word_less_nat_alt word_le_nat_alt)
  ultimately show "ascii (b2h bs)" using digit_chars by (auto simp: ascii_def)
  show "delimiter d \<Longrightarrow> d \<notin> set (b2h bs)" using h by (auto simp: delimiter_def)
qed

text \<open>Writing a column and reading it back, whatever the memory outside it.\<close>

lemma col_round_trip:
  assumes "strproc_ok lib" "delimiter d" "plain_col m base t"
  shows "\<exists>a. get_one_str lib m base t d = Some a \<and> ascii a \<and> d \<notin> set a \<and>
    (\<exists>bs. length bs \<le> width t \<and>
      (\<forall>m0. \<exists>r. put_str_one lib m0 base a t d = Some (wr m0 (base + poffset t) bs, r)) \<and>
      (\<forall>m'. rd m' (base + poffset t) (length bs) = bs \<longrightarrow> col_same m m' base t))"
proof (cases "int_col t")
  case True
  let ?n = "width t" and ?p = "base + poffset t"
  let ?v = "s_val (rd m ?p ?n)"
  let ?a = "if int_null m base t then [] else decimal ?v"
  let ?bs = "le_put ?n (if int_null m base t then null_int ?n else ?v)"
  have bs: "?bs = rd m ?p ?n"
    using le_put_s_val [of "rd m ?p ?n" ?n] by (auto simp: int_null_def)
  have "\<not> text_col t" using True by (auto simp: int_col_def text_col_def)
  then have "rd m' ?p (length ?bs) = ?bs \<Longrightarrow> col_same m m' base t" for m'
    unfolding bs by (simp add: col_same_def)
  moreover have "ascii ?a" "d \<notin> set ?a"
    using decimal_chars assms(2) by (auto simp: ascii_def)
  ultimately show ?thesis using get_int [OF assms(1) True, of m base d] put_int [OF True, of lib _ base]
    by (intro exI [of _ ?a] conjI exI [of _ ?bs]) auto
next
  case not_int: False
  show ?thesis
  proof (cases "byte_col t")
    case True
  let ?p = "base + poffset t"
  have w: "width t = nat (plen t)" "\<not> text_col t" using True by (auto simp: width_def text_col_def byte_col_def)
  have "get_one_str lib m base t d = Some (b2h (rd m ?p (width t)))"
    using True w by (simp add: get_one_str_def byte_col_def isnull_def Let_def)
  moreover have "put_str_one lib m0 base (b2h (rd m ?p (width t))) t d = Some (wr m0 ?p (rd m ?p (width t)), 1)" for m0
    using True w byte_cpy_b2h [of "rd m ?p (width t)"] by (simp add: put_str_one_def byte_col_def Let_def)
  ultimately show ?thesis using b2h_chars assms(2) w
    by (intro exI [of _ "b2h (rd m ?p (width t))"] conjI exI [of _ "rd m ?p (width t)"])
       (auto simp: col_same_def)
next
  case False
  then have t: "text_col t" "0 < plen t" and asc: "\<And>s. char_col m (base + poffset t) (plen t) = Some s \<Longrightarrow> ascii s"
    using assms(3) not_int by (auto simp: plain_col_def)
  obtain s where s: "char_col m (base + poffset t) (plen t) = Some s"
    using t(2) by (simp add: char_col_def)
  note p = char_col_props [OF s t(2)]
  have w: "width t = nat (plen t)" using t(1) by (auto simp: width_def text_col_def)
  have d: "d \<noteq> 0" using assms(2) by (simp add: delimiter_def)
  have "col_same m m' base t" if "rd m' (base + poffset t) (length (s @ [0])) = s @ [0]" for m'
    using char_col_wr [OF t(2), of s m' "base + poffset t"] that p t(1) s by (simp add: col_same_def)
  then show ?thesis
    using get_text [OF assms(1) t s asc [OF s] d] put_text [OF assms(1) t _ asc [OF s] assms(2)]
      esc_no_delimiter [OF assms(2)] ascii_esc [OF asc [OF s]] p w
    by (intro exI [of _ "concat (map (esc1 d) s)"] conjI exI [of _ "s @ [0]"]) auto
qed
qed

subsection \<open>All columns\<close>

definition apart :: "T_PkgType \<Rightarrow> T_PkgType \<Rightarrow> bool" where
  "apart t u \<longleftrightarrow> poffset t + int (width t) \<le> poffset u \<or> poffset u + int (width u) \<le> poffset t"

fun separate :: "T_PkgType list \<Rightarrow> bool" where
  "separate [] \<longleftrightarrow> True"
| "separate (t # ts) \<longleftrightarrow> (\<forall>u\<in>set ts. apart t u) \<and> separate ts"

lemma plain_not_struct: "plain_col m base t \<Longrightarrow> ptype t > -1 \<and> ptype t \<noteq> CH_STRUCT \<and> pbindtype t AND NOSELECT = 0"
  by (auto simp: plain_col_def text_col_def int_col_def byte_col_def)

lemma pack_cols_Cons:
  assumes "plain_col m base t"
  shows "pack_cols lib m' base (t # ts) d =
    (case get_one_str lib m' base t d of None \<Rightarrow> None
     | Some a \<Rightarrow> map_option (\<lambda>b. a @ d # b) (pack_cols lib m' base ts d))"
  using plain_not_struct [OF assms] by (subst pack_cols.simps) simp

lemma dispack_cols_Cons:
  assumes "plain_col m base t" "strproc_ok lib" "ascii (a @ d # b)" "d \<notin> set a"
    "put_str_one lib m0 base a t d = Some (m1, r)"
  shows "dispack_cols lib m0 base (a @ d # b) (t # ts) d =
    (if b = [] then Some (m1, []) else dispack_cols lib m1 base b ts d)"
proof -
  have "takeWhile (\<lambda>c. c \<noteq> d) (a @ d # b) = a"
    using assms(4) by (subst takeWhile_append2) auto
  then have "stptok_pos lib (a @ d # b) [d] = length a"
    using assms(2,3) by (simp add: strproc_ok_def)
  then show ?thesis using plain_not_struct [OF assms(1)] assms(5)
    by (subst dispack_cols.simps) (simp add: Let_def)
qed

lemma cols_round_trip:
  assumes "strproc_ok lib" "delimiter d" "ptype e = -1"
  shows "\<forall>t\<in>set cols. plain_col m base t \<Longrightarrow> separate cols \<Longrightarrow>
    \<exists>buf. pack_cols lib m base (cols @ e # rest) d = Some buf \<and> ascii buf \<and> (buf = [] \<longleftrightarrow> cols = []) \<and>
      (\<forall>m0. \<exists>m'. dispack_cols lib m0 base buf (cols @ e # rest) d = Some (m', []) \<and>
         (\<forall>t\<in>set cols. col_same m m' base t) \<and>
         (\<forall>a. (\<forall>t\<in>set cols. a < base + poffset t \<or> base + poffset t + int (width t) \<le> a) \<longrightarrow> m' a = m0 a))"
proof (induction cols)
  case Nil
  have "pack_cols lib m base (e # rest) d = Some []" "dispack_cols lib m0 base [] (e # rest) d = Some (m0, [])" for m0
    by (subst pack_cols.simps, simp add: assms(3)) (subst dispack_cols.simps, simp add: assms(3))
  then show ?case by (simp add: ascii_def)
next
  case (Cons t ts)
  obtain b where b: "pack_cols lib m base (ts @ e # rest) d = Some b" "ascii b" "b = [] \<longleftrightarrow> ts = []"
    "\<And>m0. \<exists>m'. dispack_cols lib m0 base b (ts @ e # rest) d = Some (m', []) \<and>
         (\<forall>t\<in>set ts. col_same m m' base t) \<and>
         (\<forall>a. (\<forall>t\<in>set ts. a < base + poffset t \<or> base + poffset t + int (width t) \<le> a) \<longrightarrow> m' a = m0 a)"
    using Cons by auto
  have pt: "plain_col m base t" using Cons.prems(1) by simp
  obtain a bs where a: "get_one_str lib m base t d = Some a" "ascii a" "d \<notin> set a" "length bs \<le> width t"
    "\<And>m0. \<exists>r. put_str_one lib m0 base a t d = Some (wr m0 (base + poffset t) bs, r)"
    "\<And>m'. rd m' (base + poffset t) (length bs) = bs \<Longrightarrow> col_same m m' base t"
    using col_round_trip [OF assms(1,2) pt] by blast
  have buf: "pack_cols lib m base ((t # ts) @ e # rest) d = Some (a @ d # b)"
    using a(1) b(1) pack_cols_Cons [OF pt] by simp
  have asc: "ascii (a @ d # b)" using a(2) b(2) assms(2) by (auto simp: ascii_def delimiter_def)
  have "\<exists>m'. dispack_cols lib m0 base (a @ d # b) ((t # ts) @ e # rest) d = Some (m', []) \<and>
      (\<forall>u\<in>set (t # ts). col_same m m' base u) \<and>
      (\<forall>x. (\<forall>u\<in>set (t # ts). x < base + poffset u \<or> base + poffset u + int (width u) \<le> x) \<longrightarrow> m' x = m0 x)"
    for m0
  proof -
    let ?m1 = "wr m0 (base + poffset t) bs"
    obtain r where r: "put_str_one lib m0 base a t d = Some (?m1, r)" using a(5) by blast
    obtain m' where m': "dispack_cols lib ?m1 base b (ts @ e # rest) d = Some (m', [])"
      "\<forall>u\<in>set ts. col_same m m' base u"
      "\<And>x. (\<forall>u\<in>set ts. x < base + poffset u \<or> base + poffset u + int (width u) \<le> x) \<Longrightarrow> m' x = ?m1 x"
      using b(4) [of ?m1] by blast
    have step: "dispack_cols lib m0 base (a @ d # b) ((t # ts) @ e # rest) d = Some (m', [])"
    proof (cases "b = []")
      case True
      then have "ts = []" using b(3) by simp
      then have "m' = ?m1"
        using m'(1) True assms(3) by (simp add: dispack_cols.simps [of _ _ _ _ "e # rest"])
      then show ?thesis using dispack_cols_Cons [OF pt assms(1) asc a(3) r] True by simp
    next
      case False
      then show ?thesis using dispack_cols_Cons [OF pt assms(1) asc a(3) r] m'(1) by simp
    qed
    have "rd m' (base + poffset t) (length bs) = rd ?m1 (base + poffset t) (length bs)"
    proof (rule nth_equalityI)
      fix i
      assume "i < length (rd m' (base + poffset t) (length bs))"
      then have i: "i < length bs" by simp
      have "m' (base + poffset t + int i) = ?m1 (base + poffset t + int i)"
        using Cons.prems(2) i a(4) by (intro m'(3)) (force simp: apart_def)
      then show "rd m' (base + poffset t) (length bs) ! i = rd ?m1 (base + poffset t) (length bs) ! i"
        using i by (simp add: rd_def)
    qed simp
    then have "col_same m m' base t" using a(6) rd_wr_same by metis
    moreover have "m' x = m0 x"
      if "\<forall>u\<in>set (t # ts). x < base + poffset u \<or> base + poffset u + int (width u) \<le> x" for x
      using that m'(3) [of x] a(4) by (auto simp: wr_def)
    ultimately show ?thesis using step m'(2) by auto
  qed
  then show ?case using buf asc by auto
qed


subsection \<open>Templates that \<open>set_offset\<close> lays out\<close>

definition plain_type :: "T_PkgType \<Rightarrow> bool" where
  "plain_type t \<longleftrightarrow> (text_col t \<and> 0 < plen t \<or> int_col t \<and> int (width t) \<le> plen t \<or>
     byte_col t \<and> 0 \<le> plen t)"

lemma plain_type_cases:
  assumes "plain_type t"
  shows "ptype t \<in> {129, 257, 0, 1, 2, 3, 4, 5, 6}"
  using assms by (auto simp: plain_type_def text_col_def int_col_def byte_col_def)

lemma plain_type_base: "plain_type t \<Longrightarrow> base_type t \<in> {0, 1, 2, 3, 4, 5, 6}"
  by (drule plain_type_cases) (auto simp: base_type_def)

lemma plain_type_known:
  assumes "plain_type t"
  shows "c_known t" "c_size t = plen t" "int (width t) \<le> c_size t" "visit t = Some t"
proof -
  note b = plain_type_base [OF assms]
  show k: "c_known t" using b plain_type_cases [OF assms] by (auto simp: c_known_def)
  show s: "c_size t = plen t" using b by (auto simp: c_size_def)
  show "int (width t) \<le> c_size t" unfolding s
    using assms by (auto simp: plain_type_def text_col_def byte_col_def width_def)
  show "visit t = Some t"
    using b by (cases t) (auto simp: visit.simps base_type_def)
qed

lemma visit_all_plain: "\<forall>t\<in>set ts. plain_type t \<Longrightarrow> visit_all ts = Some ts"
proof (induction ts)
  case (Cons t ts)
  then have "c_known t" "visit t = Some t" by (auto intro: plain_type_known)
  then show ?case using Cons by (simp add: visit_all.simps c_known_def)
qed (simp add: visit_all.simps)

lemma c_offsets_apart:
  "\<forall>t\<in>set ts. 0 < c_align t \<and> int (width t) \<le> c_size t \<Longrightarrow> map poffset ts = c_offsets k ts \<Longrightarrow>
     separate ts \<and> (\<forall>t\<in>set ts. k \<le> poffset t)"
proof (induction ts arbitrary: k)
  case (Cons t ts)
  let ?o = "roundup k (c_align t)"
  have o: "poffset t = ?o" "map poffset ts = c_offsets (?o + c_size t) ts"
    using Cons.prems(2) by (simp_all add: Let_def)
  have "separate ts" "\<forall>u\<in>set ts. ?o + c_size t \<le> poffset u"
    using Cons.IH [OF _ o(2)] Cons.prems(1) by auto
  moreover have "k \<le> ?o" using Cons.prems(1) roundup_bounds [of "c_align t" k] by simp
  ultimately show ?case using o(1) Cons.prems(1) by (force simp: apart_def)
qed simp



lemma placed_set: "t \<in> set (placed k ts) \<Longrightarrow> \<exists>u\<in>set ts. \<exists>off. t = set_bind (set_off u off) 0"
  by (fastforce simp: placed_def set_zip)

lemma plain_type_placed: "plain_type (set_bind (set_off u off) 0) = plain_type u"
  by (simp add: plain_type_def text_col_def int_col_def byte_col_def width_def)

definition columns :: "T_PkgType list \<Rightarrow> T_PkgType list" where
  "columns tpl = takeWhile (\<lambda>t. ptype t > -1) tpl"

lemma laid_out_plain:
  assumes "poffset (hd (cols @ [e])) < 0" "ptype e = -1" "\<forall>t\<in>set cols. plain_type t"
  shows "\<exists>e'. laid_out (cols @ e # rest) = Some (placed 0 cols @ e' # rest) \<and> ptype e' = -1 \<and>
    columns (placed 0 cols @ e' # rest) = placed 0 cols \<and> separate (placed 0 cols)"
proof -
  have k: "\<forall>t\<in>set cols. c_known t" using assms(3) plain_type_known(1) by blast
  then have pos: "\<forall>t\<in>set cols. ptype t > -1" by (simp add: c_known_def)
  have "visit_all (cols @ e # rest) = Some (cols @ e # rest)"
    using visit_all_split [OF visit_all_plain [OF assms(3)] pos assms(2)] by blast
  then have so: "set_offset (cols @ e # rest) = Some (int (length cols),
      placed 0 cols @ closed e (c_end 0 cols) (c_max_align cols) # rest)"
    by (intro set_offset_placed [OF assms(1,2) pos _ _ k]) simp_all
  moreover have "laid_out (cols @ e # rest) = map_option snd (set_offset (cols @ e # rest))"
    using assms(1) by (cases cols) (simp_all add: laid_out_def)
  ultimately have lo: "laid_out (cols @ e # rest) =
      Some (placed 0 cols @ closed e (c_end 0 cols) (c_max_align cols) # rest)" by simp
  have e': "ptype (closed e (c_end 0 cols) (c_max_align cols)) = -1"
    using assms(2) by (simp add: closed_def)
  have pt: "\<forall>t\<in>set (placed 0 cols). plain_type t"
    using placed_set plain_type_placed assms(3) by blast
  then have "\<forall>t\<in>set (placed 0 cols). ptype t > -1" using plain_type_known(1) c_known_def by blast
  then have col: "columns (placed 0 cols @ closed e (c_end 0 cols) (c_max_align cols) # rest) = placed 0 cols"
    using e' by (simp add: columns_def takeWhile_tail)
  have "\<forall>t\<in>set (placed 0 cols). 0 < c_align t \<and> int (width t) \<le> c_size t"
    using pt plain_type_known(1,3) c_align_pos by blast
  then have "separate (placed 0 cols)" using c_offsets_apart [of "placed 0 cols" 0] by simp
  then show ?thesis using lo e' col by blast
qed

lemma plain_col_placed:
  assumes "plain_type t" "pbindtype t = 0"
    "text_col t \<Longrightarrow> (\<And>s. char_col m (base + poffset t) (plen t) = Some s \<Longrightarrow> ascii s)"
  shows "plain_col m base t"
  using assms by (auto simp: plain_col_def plain_type_def)

subsection \<open>Null records\<close>

definition null_able :: "T_PkgType \<Rightarrow> bool" where
  "null_able t \<longleftrightarrow> plain_type t \<and> \<not> byte_col t \<and> pbindtype t = 0"

lemma s_val_null: "0 < n \<Longrightarrow> n \<le> 8 \<Longrightarrow> s_val (le_put n (null_int n)) = null_int n"
proof -
  assume "0 < n" "n \<le> 8"
  then have "n \<in> {1, 2, 3, 4, 5, 6, 7, 8}" by auto
  moreover have "\<forall>n\<in>{1, 2, 3, 4, 5, 6, 7, 8}. s_val (le_put n (null_int n)) = null_int n"
    by code_simp
  ultimately show ?thesis by blast
qed

lemma isnull_cong:
  assumes "null_able t" "\<And>i. i < width t \<Longrightarrow> m' (p + int i) = m (p + int i)"
  shows "isnull m' p (ptype t) = isnull m p (ptype t)"
proof -
  have "0 < width t" using assms(1)
    by (auto simp: null_able_def plain_type_def text_col_def int_col_def width_def)
  then have "m' p = m p" using assms(2) [of 0] by simp
  moreover have "k \<le> width t \<Longrightarrow> rd m' p k = rd m p k" for k
    using assms(2) by (simp add: rd_def)
  ultimately show ?thesis using assms(1)
    by (auto simp: null_able_def plain_type_def text_col_def int_col_def byte_col_def width_def isnull_def Let_def)
qed

definition null_bytes :: "T_PkgType \<Rightarrow> bytes" where
  "null_bytes t =
     (if text_col t then replicate (nat (plen t)) 0 else le_put (width t) (null_int (width t)))"

lemma init_cols_Cons:
  assumes "null_able t"
  shows "init_cols m base (t # ts) = init_cols (wr m (base + poffset t) (null_bytes t)) base ts"
  using assms null_1
  by (auto simp: null_able_def plain_type_def text_col_def int_col_def null_bytes_def width_def Let_def byte_col_def)

lemma length_null_bytes: "null_able t \<Longrightarrow> length (null_bytes t) = width t"
  by (auto simp: null_able_def plain_type_def text_col_def null_bytes_def width_def)

lemma isnull_null_bytes:
  assumes "null_able t"
  shows "isnull (wr m p (null_bytes t)) p (ptype t)"
proof (cases "text_col t")
  case True
  then have "null_bytes t \<noteq> []" "null_bytes t ! 0 = 0" using assms
    by (auto simp: null_able_def plain_type_def null_bytes_def int_col_def text_col_def)
  then show ?thesis using isnull_text [OF True] by (simp add: wr_def)
next
  case False
  then have t: "int_col t" using assms by (auto simp: null_able_def plain_type_def)
  have w: "0 < width t" "width t \<le> 8" using t by (auto simp: int_col_def width_def)
  have r: "rd (wr m p (null_bytes t)) p (width t) = le_put (width t) (null_int (width t))"
    using rd_wr_same [of m p "null_bytes t"] length_null_bytes [OF assms] False
    by (simp add: null_bytes_def)
  then have "s_val (rd (wr m p (null_bytes t)) p (width t)) = null_int (width t)"
    using s_val_null [OF w] by simp
  then have "s_val (rd (wr m p (null_bytes t)) (p - poffset t + poffset t) (width t)) = null_int (width t)"
    by simp
  then have n: "int_null (wr m p (null_bytes t)) (p - poffset t) t" by (simp add: int_null_def)
  show ?thesis using n isnull_int [OF t, of _ "p - poffset t"] by simp
qed

lemma init_cols_null:
  "\<forall>t\<in>set cols. null_able t \<Longrightarrow> separate cols \<Longrightarrow> ptype e = -1 \<Longrightarrow>
   \<exists>m'. init_cols m base (cols @ e # rest) = Some m' \<and>
     (\<forall>t\<in>set cols. isnull m' (base + poffset t) (ptype t)) \<and>
     (\<forall>a. (\<forall>t\<in>set cols. a < base + poffset t \<or> base + poffset t + int (width t) \<le> a) \<longrightarrow> m' a = m a)"
proof (induction cols arbitrary: m)
  case (Cons t ts)
  let ?m1 = "wr m (base + poffset t) (null_bytes t)"
  have t: "null_able t" using Cons.prems(1) by simp
  obtain m' where m': "init_cols ?m1 base (ts @ e # rest) = Some m'"
    "\<forall>t\<in>set ts. isnull m' (base + poffset t) (ptype t)"
    "\<And>a. (\<forall>t\<in>set ts. a < base + poffset t \<or> base + poffset t + int (width t) \<le> a) \<Longrightarrow> m' a = ?m1 a"
    using Cons.IH [of ?m1] Cons.prems by auto
  have "m' (base + poffset t + int i) = ?m1 (base + poffset t + int i)" if "i < width t" for i
    using Cons.prems(2) that by (intro m'(3)) (force simp: apart_def)
  then have "isnull m' (base + poffset t) (ptype t) = isnull ?m1 (base + poffset t) (ptype t)"
    using isnull_cong [OF t] by blast
  then have "isnull m' (base + poffset t) (ptype t)" using isnull_null_bytes [OF t] by simp
  moreover have "m' a = m a"
    if "\<forall>u\<in>set (t # ts). a < base + poffset u \<or> base + poffset u + int (width u) \<le> a" for a
    using that m'(3) [of a] length_null_bytes [OF t] by (auto simp: wr_def)
  ultimately show ?case using m'(1,2) init_cols_Cons [OF t, of m base] by auto
qed simp

lemma pack_nulls:
  "\<forall>t\<in>set cols. null_able t \<Longrightarrow> \<forall>t\<in>set cols. isnull m (base + poffset t) (ptype t) \<Longrightarrow> ptype e = -1 \<Longrightarrow>
   pack_cols lib m base (cols @ e # rest) d = Some (replicate (length cols) d)"
proof (induction cols)
  case Nil
  then show ?case by (subst pack_cols.simps) simp
next
  case (Cons t ts)
  have "ptype t > -1" "ptype t \<noteq> CH_STRUCT" "pbindtype t = 0"
    using Cons.prems(1) plain_type_cases [of t] by (auto simp: null_able_def)
  moreover have "get_one_str lib m base t d = Some []"
    using Cons.prems(2) by (simp add: get_one_str_def Let_def)
  ultimately show ?case using Cons by (subst pack_cols.simps) simp
qed

section \<open>Properties\<close>

text \<open>C8: Packing and unpacking over the layout \<open>set_offset\<close> computes.  For a template, not yet
  laid out, of text, integer and byte columns, a delimiter that is no character of an escape or
  a number, and ASCII text, \<open>pkg_pack\<close> gives a text from which \<open>pkg_dispack\<close>, into any
  memory, restores every column: the same C string, delimiters, newlines and backslashes
  included, the same bytes, the same integer, null values included; nothing of the text is
  left over.\<close>

theorem pack_dispack_round_trip:
  assumes "strproc_ok lib" "delimiter d" "poffset (hd (cols @ [e])) < 0" "ptype e = -1"
    "\<forall>t\<in>set cols. plain_type t" "laid_out (cols @ e # rest) = Some tpl"
    "\<forall>t\<in>set (columns tpl). text_col t \<longrightarrow>
       (\<forall>s. char_col m (base + poffset t) (plen t) = Some s \<longrightarrow> ascii s)"
  shows "\<exists>buf. pkg_pack lib m base (cols @ e # rest) d = Some buf \<and>
    (\<forall>m0. \<exists>m'. pkg_dispack lib m0 base buf (cols @ e # rest) d = Some (m', []) \<and>
       (\<forall>t\<in>set (columns tpl). col_same m m' base t))"
proof -
  obtain e' where e': "tpl = placed 0 cols @ e' # rest" "ptype e' = -1" "columns tpl = placed 0 cols"
      "separate (placed 0 cols)"
    using laid_out_plain [OF assms(3,4,5), of rest] assms(6) by auto
  have "plain_col m base t" if "t \<in> set (placed 0 cols)" for t
  proof -
    obtain u off where u: "u \<in> set cols" "t = set_bind (set_off u off) 0"
      using placed_set \<open>t \<in> set (placed 0 cols)\<close> by blast
    then have "plain_type t" using assms(5) plain_type_placed by simp
    then show ?thesis using assms(7) that u(2) e'(3) by (intro plain_col_placed) auto
  qed
  then obtain buf where b: "pack_cols lib m base tpl d = Some buf" "buf = [] \<longleftrightarrow> placed 0 cols = []"
    "\<And>m0. \<exists>m'. dispack_cols lib m0 base buf tpl d = Some (m', []) \<and> (\<forall>t\<in>set (placed 0 cols). col_same m m' base t)"
    using cols_round_trip [OF assms(1,2) e'(2) _ e'(4), of m base rest] unfolding e'(1) by blast
  have d: "d \<noteq> 0" using assms(2) by (simp add: delimiter_def)
  have "\<exists>m'. pkg_dispack lib m0 base buf (cols @ e # rest) d = Some (m', []) \<and>
      (\<forall>t\<in>set (placed 0 cols). col_same m m' base t)" for m0
  proof (cases "buf = []")
    case True
    then show ?thesis using b(2) d by (subst pkg_dispack.simps) simp
  next
    case False
    then show ?thesis using b(3) [of m0] d assms(6) by (subst pkg_dispack.simps) simp
  qed
  moreover have "pkg_pack lib m base (cols @ e # rest) d = Some buf"
    using b(1) assms(6) by (subst pkg_pack.simps) simp
  ultimately show ?thesis using e'(3) by auto
qed

text \<open>A library that behaves as documented.\<close>

definition plain_lib :: strlib where
  "plain_lib = \<lparr>GBK_flag = False, firstcc = (\<lambda>_ _. False),
     stptok_pos = (\<lambda>s tok. length (takeWhile (\<lambda>c. c \<notin> set tok) s)), stptok_copy = (\<lambda>s n. (s, int (length s))),
     itoStr = decimal, lltoStr = decimal, sprintf_int = (\<lambda>_. decimal), sprintf_real = (\<lambda>_ b. b2h b),
     strto_real = byte_cpy, rjultostrfmt = (\<lambda>v _. decimal v), rminstrfmt = (\<lambda>v _. decimal v),
     rminstr = decimal, rsecstrfmt = (\<lambda>v _. decimal v), rusecstrfmt = (\<lambda>v _. decimal v),
     rstrfmttojul = (\<lambda>s _. atoi s), rstrjul = atoi, rstrminfmt = (\<lambda>s _. atoi s), rstrmin = atoi,
     rstrsecfmt = (\<lambda>s _. atoi s), rstrusecfmt = (\<lambda>s _. atoi s), str_at = (\<lambda>_. [])\<rparr>"

lemma plain_lib_ok: "strproc_ok plain_lib"
  by (simp add: strproc_ok_def plain_lib_def)

lemma bar_delimiter: "delimiter 0x7C"
  by (simp add: delimiter_def ESC_CHAR_def is_digit_def)

theorem pack_dispack_round_trip_witness:
  "\<exists>buf. pkg_pack plain_lib (\<lambda>_. 0x7C) 0
      [PkgType 4 4 None No_Format (-1) 0, PkgType 1 9 None No_Format 0 0, PkgType (-1) 0 None No_Format 0 0] 0x7C = Some buf"
proof -
  let ?c = "[PkgType 4 4 None No_Format (-1) 0, PkgType 1 9 None No_Format 0 0]"
  let ?e = "PkgType (-1) 0 None No_Format 0 0"
  have p: "\<forall>t\<in>set ?c. plain_type t"
    by (simp add: plain_type_def text_col_def int_col_def byte_col_def width_def)
  obtain tpl where t: "laid_out (?c @ [?e]) = Some tpl"
    using laid_out_plain [of ?c ?e "[]", OF _ _ p] by auto
  have a: "char_col (\<lambda>_. 0x7C) q n = Some s \<Longrightarrow> 0 < n \<Longrightarrow> ascii s" for q n s
    by (auto simp: char_col_def rd_def ascii_def dest!: set_takeWhileD)
  have "\<forall>t\<in>set (columns tpl). text_col t \<longrightarrow>
      (\<forall>s. char_col (\<lambda>_. 0x7C) (0 + poffset t) (plen t) = Some s \<longrightarrow> ascii s)"
  proof (intro ballI impI allI)
    fix t s
    assume "t \<in> set (columns tpl)" "text_col t" "char_col (\<lambda>_. 0x7C) (0 + poffset t) (plen t) = Some s"
    moreover have "columns tpl = placed 0 ?c" using laid_out_plain [of ?c ?e "[]", OF _ _ p] t by auto
    then have "0 < plen t" using \<open>t \<in> set (columns tpl)\<close> placed_set [of t 0 ?c] by auto
    ultimately show "ascii s" using a by blast
  qed
  from pack_dispack_round_trip [OF plain_lib_ok bar_delimiter _ _ p t this] show ?thesis by auto
qed


text \<open>\<open>data_init\<close> makes every integer and text column null: the record it leaves packs to a
  text of delimiters alone.\<close>

theorem data_init_packs_empty:
  assumes "poffset (hd (cols @ [e])) < 0" "ptype e = -1"
    "\<forall>t\<in>set cols. plain_type t \<and> \<not> byte_col t"
  shows "\<exists>m'. data_init m base (cols @ e # rest) = Some m' \<and>
    pkg_pack lib m' base (cols @ e # rest) d = Some (replicate (length cols) d)"
proof -
  have p: "\<forall>t\<in>set cols. plain_type t" using assms(3) by blast
  obtain e' where e': "laid_out (cols @ e # rest) = Some (placed 0 cols @ e' # rest)" "ptype e' = -1"
      "separate (placed 0 cols)"
    using laid_out_plain [OF assms(1,2) p, of rest] by auto
  have "\<forall>t\<in>set (placed 0 cols). null_able t"
    using placed_set [of _ 0 cols] assms(3) by (fastforce simp: null_able_def plain_type_placed byte_col_def)
  from init_cols_null [OF this e'(3,2), of m base rest] obtain m' where
    "init_cols m base (placed 0 cols @ e' # rest) = Some m'" "\<forall>t\<in>set (placed 0 cols). isnull m' (base + poffset t) (ptype t)"
    by blast
  moreover have "pack_cols lib m' base (placed 0 cols @ e' # rest) d = Some (replicate (length (placed 0 cols)) d)"
    using \<open>\<forall>t\<in>set (placed 0 cols). null_able t\<close> calculation(2) e'(2) by (intro pack_nulls)
  ultimately show ?thesis using e'(1)
    by (intro exI [of _ m']) (simp add: data_init_def pkg_pack.simps)
qed

theorem data_init_packs_empty_witness:
  "\<exists>m'. data_init (\<lambda>_. 1) 0 [PkgType 4 4 None No_Format (-1) 0, PkgType 1 9 None No_Format 0 0,
      PkgType (-1) 0 None No_Format 0 0] = Some m' \<and>
    pkg_pack plain_lib m' 0 [PkgType 4 4 None No_Format (-1) 0, PkgType 1 9 None No_Format 0 0,
      PkgType (-1) 0 None No_Format 0 0] 0x7C = Some [0x7C, 0x7C]"
  using data_init_packs_empty [of "[PkgType 4 4 None No_Format (-1) 0, PkgType 1 9 None No_Format 0 0]"
      "PkgType (-1) 0 None No_Format 0 0" "\<lambda>_. 1" 0 "[]" plain_lib "0x7C"]
  by (simp add: plain_type_def text_col_def int_col_def byte_col_def width_def numeral_2_eq_2)

end
