(* ===== verification/SQL_Text.thy ===== *)
theory SQL_Text
  imports Pack
begin

text \<open>The text of SQL statements over a template: column lists and values
  (\<open>src/pack/mkfield.c\<close>, \<open>src/pack/mkvalues.c\<close>), where clauses (\<open>src/pack/mk_where.c\<close>) and
  the statements of a record mapping (\<open>src/pack/SRM.c\<close>).  A routine that appends to a buffer
  takes the text already in the buffer and gives the text with what it appends; the pointer it
  returns is the end of that.  A byte 0 that is written stays in the text, and what is appended
  behind the pointer follows it, as in the memory of the C code; whoever reads the buffer as a
  string reads up to the first one (\<open>string_in\<close>).  None is undefined behaviour: a null string read, a byte written
  before the buffer or past the end of a local array.\<close>

unbundle bit_operations_syntax

text \<open>The string routines of \<open>strproc.h\<close> used here, whose code is not in the repository.
  \<open>strtcpy s c\<close> is what is copied up to the character c and what is left from there,
  \<open>stptok s len tok\<close> the token copied to a buffer of \<open>len\<close> bytes and what is left from the
  separator on, \<open>strsubst s n r\<close> the text with its first n bytes replaced by r and the place
  after the replacement.\<close>

record sqllib = strlib +
  skipblk :: "bytes \<Rightarrow> bytes"
  TRIM :: "bytes \<Rightarrow> bytes"
  strtcpy :: "bytes \<Rightarrow> byte \<Rightarrow> bytes \<times> bytes"
  stptok :: "bytes \<Rightarrow> int \<Rightarrow> bytes \<Rightarrow> bytes \<times> bytes"
  strsubst :: "bytes \<Rightarrow> nat \<Rightarrow> bytes \<Rightarrow> bytes \<times> nat"

definition NOINS :: int where "NOINS = 2"

abbreviation (input) quote :: byte where "quote \<equiv> 0x27"
abbreviation (input) blank :: byte where "blank \<equiv> 0x20"
abbreviation (input) comma :: byte where "comma \<equiv> 0x2C"
abbreviation (input) bar :: byte where "bar \<equiv> 0x7C"

text \<open>\<open>strstr\<close> and \<open>strcasestr\<close> of the C library: the place of the first occurrence.\<close>

fun strstr :: "bytes \<Rightarrow> bytes \<Rightarrow> nat option" where
  "strstr [] pat = (if pat = [] then Some 0 else None)"
| "strstr (c # s) pat =
     (if take (length pat) (c # s) = pat then Some 0 else map_option Suc (strstr s pat))"

definition tolower :: "byte \<Rightarrow> byte" where
  "tolower c = (if 0x41 \<le> c \<and> c \<le> 0x5A then c + 0x20 else c)"

definition strcasestr :: "bytes \<Rightarrow> bytes \<Rightarrow> nat option" where
  "strcasestr s pat = strstr (map tolower s) (map tolower pat)"

definition is_timestamp :: "bytes \<Rightarrow> bool" where
  "is_timestamp format \<longleftrightarrow> strstr format (chars ''FF'') \<noteq> None"

text \<open>The step back over the last separator, \<open>*--cp=0\<close>.\<close>

definition step_back :: "bytes \<Rightarrow> bytes option" where
  "step_back out = (if out = [] then None else Some (butlast out))"

subsection \<open>Column lists\<close>

fun ext_copy :: "bytes \<Rightarrow> bytes" where
  "ext_copy [] = []"
| "ext_copy (c # src) = (if c = quote then c # c # ext_copy src else c # ext_copy src)"

text \<open>The columns that take no part in an insert or update.\<close>

definition skipped :: "T_PkgType \<Rightarrow> bool option" where
  "skipped typ =
     (if pbindtype typ AND NOINS \<noteq> 0 \<or> ptype typ = CH_CLOB then Some True
      else do { nm \<leftarrow> pname typ; Some (nm = chars ''ROWID'' \<or> take 1 nm = [blank]) })"

fun mkset_cols :: "sqllib \<Rightarrow> bytes \<Rightarrow> T_PkgType list \<Rightarrow> bytes option" where
  "mkset_cols lib cp [] = None"
| "mkset_cols lib cp (typ # ts) =
     (if ptype typ < 0 then Some cp
      else do {
        s \<leftarrow> skipped typ;
        if s then mkset_cols lib cp ts
        else do { nm \<leftarrow> pname typ; mkset_cols lib (cp @ fst (strtcpy lib nm blank) @ [comma]) ts } })"

definition mkset :: "sqllib \<Rightarrow> bytes \<Rightarrow> T_PkgType list option
    \<Rightarrow> (bytes \<times> T_PkgType list option) option" where
  "mkset lib str tp =
     (case tp of
        None \<Rightarrow> Some (str, None)
      | Some tp \<Rightarrow>
          do { tp \<leftarrow> laid_out tp; cp \<leftarrow> mkset_cols lib str tp; cp \<leftarrow> step_back cp; Some (cp, Some tp) })"

text \<open>The date columns, which are selected through \<open>TO_CHAR\<close> when they have a format.\<close>

definition is_date :: "T_PkgType \<Rightarrow> bool" where
  "is_date typ \<longleftrightarrow> ptype typ \<in> {CH_MINUTS, CH_DATE, CH_JUL, CH_TIME, CH_USEC}"

definition mk_date :: "bytes \<Rightarrow> bytes \<Rightarrow> bytes" where
  "mk_date name format =
     (let (expr, p) = (case after_last_blank name of
                         None \<Rightarrow> (name, name)
                       | Some p \<Rightarrow> (take (length name - length p - 1) name, p))
      in chars ''TO_CHAR('' @ expr @ [comma, quote] @ ext_copy format @ [quote] @ chars '') '' @ p)"

definition field :: "sqllib \<Rightarrow> T_PkgType \<Rightarrow> bytes option" where
  "field lib typ =
     do { nm \<leftarrow> pname typ;
          if is_date typ then
            (case pformat typ of
               Text_Format f \<Rightarrow> Some (mk_date (skipblk lib nm) f)
             | No_Format \<Rightarrow> Some nm
             | Struct_Format _ \<Rightarrow> None)
          else Some nm }"

definition tab_field :: "sqllib \<Rightarrow> bytes \<Rightarrow> T_PkgType \<Rightarrow> bytes option" where
  "tab_field lib tabname typ =
     do { nm \<leftarrow> pname typ;
          let plain = tabname @ [of_char (CHR ''.'')] @ nm;
          if is_date typ then
            (case pformat typ of
               Text_Format f \<Rightarrow>
                 (let (col, p) = strtcpy lib nm blank
                  in Some (chars ''TO_CHAR('' @ tabname @ [of_char (CHR ''.'')] @ col @ [comma, quote]
                       @ ext_copy f @ [quote] @ chars '') ''
                       @ (if take 1 p = [blank] then drop 1 p else nm)))
             | No_Format \<Rightarrow> Some plain
             | Struct_Format _ \<Rightarrow> None)
          else Some plain }"

fun mkfield_cols :: "(T_PkgType \<Rightarrow> bytes option) \<Rightarrow> bytes \<Rightarrow> T_PkgType list \<Rightarrow> bytes option" where
  "mkfield_cols f cp [] = None"
| "mkfield_cols f cp (typ # ts) =
     (if ptype typ < 0 then Some cp
      else if pbindtype typ AND NOSELECT \<noteq> 0 then mkfield_cols f cp ts
      else do { t \<leftarrow> f typ; mkfield_cols f (cp @ t @ [comma]) ts })"

definition mkfield :: "sqllib \<Rightarrow> bytes \<Rightarrow> T_PkgType list option \<Rightarrow> bytes option
    \<Rightarrow> (bytes \<times> T_PkgType list option) option" where
  "mkfield lib str tp tabname =
     (case tp of
        None \<Rightarrow> Some (str, None)
      | Some tp \<Rightarrow>
          do { tp \<leftarrow> laid_out tp;
               cp \<leftarrow> (case tabname of
                        None \<Rightarrow> mkfield_cols (field lib) str tp
                      | Some tab \<Rightarrow>
                          if tab = [] then mkfield_cols (field lib) str tp
                          else mkfield_cols (tab_field lib tab) str tp);
               cp \<leftarrow> step_back cp;
               Some (cp, Some tp) })"

subsection \<open>Values\<close>

text \<open>The string in a buffer.\<close>

definition string_in :: "bytes \<Rightarrow> bytes" where
  "string_in s = takeWhile (\<lambda>c. c \<noteq> 0) s"

text \<open>The loop at \<open>do_char\<close>: what it writes, \<open>ccodd\<close> (the last byte is the first of a double
  byte character) and \<open>clen\<close>.\<close>

fun do_char :: "bool \<Rightarrow> bytes \<Rightarrow> int \<Rightarrow> bytes \<times> bool \<times> int" where
  "do_char ccodd [] len = ([], ccodd, 0)"
| "do_char ccodd (c # p) len =
     (if len \<le> 0 then ([], ccodd, 0)
      else let (out, odd, clen) = do_char (\<not> ccodd \<and> c AND 0x80 \<noteq> 0) p (len - 1)
           in ((if c = quote then [c, c] else [c]) @ out, odd, clen + 1))"

definition char_value :: "T_PkgType \<Rightarrow> bytes \<Rightarrow> int \<Rightarrow> bytes" where
  "char_value typ tmp len =
     (let (out, ccodd, clen) = do_char False tmp len;
          out = (if ccodd then (if clen < plen typ - 1 then out @ [blank] else and_last out) else out)
      in [quote] @ out @ [quote])"

definition to_date :: "string \<Rightarrow> bytes \<Rightarrow> bytes \<Rightarrow> bytes" where
  "to_date f tmp format =
     chars f @ [of_char (CHR ''(''), quote] @ tmp @ [quote, comma, quote] @ ext_copy format @ [quote]
       @ chars '')''"

text \<open>\<open>mkvalue\<close> of a column; for the terminator it returns its argument, which is no place of
  the buffer (None).\<close>

definition mkvalue :: "bytes \<Rightarrow> bytes option \<Rightarrow> T_PkgType \<Rightarrow> bytes option" where
  "mkvalue vp tmp typ =
     (if ptype typ < 0 then None
      else case tmp of
        None \<Rightarrow> Some (vp @ chars ''null'')
      | Some tmp \<Rightarrow>
          if tmp = [] then Some (vp @ chars ''null'')
          else if ptype typ = CH_USEC then
            (case pformat typ of
               Text_Format f \<Rightarrow> Some (vp @ to_date ''TO_TIMESTAMP'' tmp f)
             | No_Format \<Rightarrow> Some (vp @ char_value typ tmp (int (length tmp)))
             | Struct_Format _ \<Rightarrow> None)
          else if ptype typ \<in> {CH_DATE, CH_JUL, CH_MINUTS, CH_TIME} then
            (case pformat typ of
               Text_Format f \<Rightarrow>
                 Some (vp @ to_date (if is_timestamp f then ''TO_TIMESTAMP'' else ''TO_DATE'') tmp f)
             | No_Format \<Rightarrow> Some (vp @ char_value typ tmp (int (length tmp)))
             | Struct_Format _ \<Rightarrow> None)
          else if ptype typ \<in> {CH_CJUL, CH_CTIME, CH_CMINUTS} then
            Some (vp @ char_value typ tmp (int (length tmp)))
          else if ptype typ = CH_CHAR then Some (vp @ char_value typ tmp (plen typ - 1))
          else Some (vp @ tmp))"

text \<open>\<open>tmp\<close> of \<open>mk_values\<close> holds 4096 bytes.  \<open>start\<close> is the length of the text before the
  first value.\<close>

fun mk_values_cols :: "sqllib \<Rightarrow> mem \<Rightarrow> int \<Rightarrow> nat \<Rightarrow> bytes \<Rightarrow> T_PkgType list \<Rightarrow> bytes option" where
  "mk_values_cols lib m base start vp [] = None"
| "mk_values_cols lib m base start vp (typ # ts) =
     (if ptype typ = -1 then Some vp
      else do {
        s \<leftarrow> skipped typ;
        if s then mk_values_cols lib m base start vp ts
        else do {
          tmp \<leftarrow> get_one_str (strlib.truncate lib) m base typ 0;
          if length tmp \<ge> 4096 then None
          else do {
            vp \<leftarrow> mkvalue (if length vp \<noteq> start then vp @ [comma] else vp) (Some tmp) typ;
            mk_values_cols lib m base start vp ts } } })"

definition mk_values :: "sqllib \<Rightarrow> bytes \<Rightarrow> mem \<Rightarrow> int \<Rightarrow> T_PkgType list
    \<Rightarrow> (bytes \<times> T_PkgType list) option" where
  "mk_values lib values m base tp =
     do { tp \<leftarrow> laid_out tp;
          vp \<leftarrow> mk_values_cols lib m base (length values) values tp;
          Some (vp, tp) }"

fun mkvalues_cols :: "sqllib \<Rightarrow> bytes \<Rightarrow> nat \<Rightarrow> bytes \<Rightarrow> T_PkgType list \<Rightarrow> bytes option" where
  "mkvalues_cols lib cp start vp [] = None"
| "mkvalues_cols lib cp start vp (typ # ts) =
     (if ptype typ \<le> -1 \<or> cp = [] then Some vp
      else do {
        s \<leftarrow> skipped typ;
        if s then
          (let cp = drop (stptok_pos lib cp [bar]) cp
           in mkvalues_cols lib (if take 1 cp = [bar] then drop 1 cp else cp) start vp ts)
        else
          (let (tmp1, cp) = stptok lib cp 4096 [bar];
               tmp = fst (strcpy_esc (strlib.truncate lib) tmp1 0 bar)
           in do {
                vp \<leftarrow> mkvalue (if length vp \<noteq> start then vp @ [comma] else vp) (Some tmp) typ;
                mkvalues_cols lib (drop 1 cp) start vp ts }) })"

text \<open>The text in the buffer \<open>values\<close>, and the template.  \<open>mkupdate\<close> appends by \<open>strcat\<close>, which begins
  at the first byte 0 of the buffer.\<close>

definition mkvalues :: "sqllib \<Rightarrow> bytes \<Rightarrow> bytes \<Rightarrow> T_PkgType list \<Rightarrow> (bytes \<times> T_PkgType list) option" where
  "mkvalues lib values str tp =
     (if str = [] then Some (values, tp)
      else do {
        tp \<leftarrow> laid_out tp;
        vp \<leftarrow> mkvalues_cols lib str (length values) values tp;
        Some (vp, tp) })"

definition mkupdate :: "sqllib \<Rightarrow> bytes \<Rightarrow> bytes option \<Rightarrow> T_PkgType list
    \<Rightarrow> (bytes \<times> T_PkgType list) option" where
  "mkupdate lib str data tp =
     (case data of
        None \<Rightarrow> Some (str, tp)
      | Some data \<Rightarrow>
          if data = [] then Some (str, tp)
          else do {
            tp \<leftarrow> laid_out tp;
            (cp, tp') \<leftarrow> mkset lib (str @ chars ''SET('') (Some tp);
            (vp, tp) \<leftarrow> mkvalues lib (cp @ chars '')=(SELECT '') data tp;
            Some (string_in vp @ chars '' FROM DUAL)'', tp) })"

definition mk_update :: "sqllib \<Rightarrow> bytes \<Rightarrow> mem \<Rightarrow> int \<Rightarrow> T_PkgType list
    \<Rightarrow> (bytes \<times> T_PkgType list) option" where
  "mk_update lib str m base tp =
     do {
       tp \<leftarrow> laid_out tp;
       (cp, tp') \<leftarrow> mkset lib (str @ chars ''SET('') (Some tp);
       (vp, tp) \<leftarrow> mk_values lib (cp @ chars '')=(SELECT '') m base tp;
       Some (vp @ chars '' FROM DUAL)'', tp) }"

subsection \<open>Where clauses\<close>

text \<open>\<open>mk_where\<close> over the names in \<open>keys\<close>; a \<open>stptok\<close> that stays where it is would make the
  loop endless (None).\<close>

partial_function (option) where_loop :: "sqllib \<Rightarrow> bool \<Rightarrow> bytes \<Rightarrow> bytes \<Rightarrow> bytes option" where
  "where_loop lib first p stmt =
     (if p = [] then Some stmt
      else let (pks, p) = stptok lib (skipblk lib p) 104 [comma, bar] in
        where_loop lib False (drop 1 p)
          (stmt @ chars (if first then ''WHERE $'' else '' AND $'') @ pks @ chars ''=:'' @ pks))"

definition mk_where :: "sqllib \<Rightarrow> bytes option \<Rightarrow> bytes option" where
  "mk_where lib keys =
     (case keys of None \<Rightarrow> Some [] | Some keys \<Rightarrow> where_loop lib True keys [])"

subsection \<open>Statements of a record mapping\<close>

text \<open>\<open>SRM\<close>, without the result set; \<open>rec\<close> is the address of the record.\<close>

record SRM =
  rec :: "int option"
  tp :: "T_PkgType list option"
  hint :: "bytes option"
  Aflg :: int
  pks :: "bytes option"
  tabname :: "bytes option"
  colidx :: "slot list option"
  befor :: "bytes option"

definition pre_tabname :: bytes where "pre_tabname = chars ''$DB.''"

text \<open>\<open>addown_to_name\<close>: the text it writes; \<open>DBOWN\<close> is read only where a prefix is found.\<close>

partial_function (option) addown_to_name :: "sqllib \<Rightarrow> bytes option \<Rightarrow> bytes \<Rightarrow> bytes \<Rightarrow> bytes option" where
  "addown_to_name lib DBOWN p p1 =
     (let (copied, p1) = strtcpy lib p1 (hd pre_tabname); p = p @ copied in
      if p1 \<noteq> [] \<and> take 3 (tl p1) = tl pre_tabname then
        (case DBOWN of
           None \<Rightarrow> None
         | Some own \<Rightarrow>
             (let (p, p1) = (if own \<noteq> [] then (p @ fst (strtcpy lib own 0), drop 3 p1) else (p, drop 4 p1))
              in if p1 \<noteq> [] then addown_to_name lib DBOWN p p1 else Some p))
      else if p1 \<noteq> [] then
        (if tl p1 \<noteq> [] then addown_to_name lib DBOWN (p @ [hd p1]) (tl p1) else Some (p @ [hd p1]))
      else Some p)"

text \<open>The replacement of the prefix in a text, whatever its case, as \<open>SRM_mk_select\<close> does in
  place; \<open>set_dbo\<close> is the same loop, and moves on by one byte where the owner was put.\<close>

partial_function (option) own_in_place :: "sqllib \<Rightarrow> bytes option \<Rightarrow> bytes \<Rightarrow> bytes \<Rightarrow> bytes option" where
  "own_in_place lib DBOWN done s =
     (case strcasestr s pre_tabname of
        None \<Rightarrow> Some (done @ s)
      | Some k \<Rightarrow>
          (case DBOWN of
             None \<Rightarrow> None
           | Some own \<Rightarrow>
               (let (t, n) = strsubst lib (drop k s) (if own \<noteq> [] then 3 else 4) own
                in own_in_place lib DBOWN (done @ take k s @ take n t) (drop n t))))"

partial_function (option) set_dbo :: "sqllib \<Rightarrow> bytes \<Rightarrow> bytes \<Rightarrow> bytes \<Rightarrow> bytes option" where
  "set_dbo lib own done s =
     (case strcasestr s pre_tabname of
        None \<Rightarrow> Some (done @ s)
      | Some k \<Rightarrow>
          (let (t, n) = (if own \<noteq> [] then let (t, n) = strsubst lib (drop k s) 3 own in (t, n + 1)
                         else strsubst lib (drop k s) 4 [])
           in set_dbo lib own (done @ take k s @ take n t) (drop n t)))"

text \<open>A text the code copies when its pointer is not null, with a blank after it.\<close>

definition with_blank :: "bytes option \<Rightarrow> bytes" where
  "with_blank s = (case s of None \<Rightarrow> [] | Some s \<Rightarrow> s @ [blank])"

definition toupper_at :: "bytes \<Rightarrow> nat \<Rightarrow> byte" where
  "toupper_at s i = (if i < length s then toupper (s ! i) else 0)"

text \<open>\<open>SRM_mk_select\<close>: the return value, the record and the text left in \<open>whr\<close>;
  \<open>dup_ok\<close> says whether \<open>strdup\<close> succeeds.\<close>

definition SRM_mk_select :: "sqllib \<Rightarrow> bool \<Rightarrow> SRM \<Rightarrow> bytes option \<Rightarrow> bytes \<Rightarrow> (int \<times> SRM \<times> bytes) option" where
  "SRM_mk_select lib dup_ok srm DBOWN whr =
     (if whr \<noteq> [] \<and> toupper_at whr 0 = of_char (CHR ''S'') \<and> toupper_at whr 1 = of_char (CHR ''E'')
      then Some (0, srm, whr)
      else if tp srm = None then Some (FORMATERR, srm, whr)
      else if whr \<noteq> [] \<and> \<not> dup_ok then Some (MEMERR, srm, whr)
      else do {
        let p = with_blank (befor srm) @ chars ''SELECT '' @ with_blank (hint srm);
        (p, tp') \<leftarrow> mkfield lib p (tp srm) None;
        p \<leftarrow> own_in_place lib DBOWN [] p;
        let p = p @ chars '' FROM '';
        let own = (case DBOWN of None \<Rightarrow> [] | Some own \<Rightarrow> own);
        tab \<leftarrow> tabname srm;
        p \<leftarrow> (if stptok_pos lib tab (chars '' ,.'') = length tab
             then Some (p @ (if own \<noteq> [] then own @ [of_char (CHR ''.'')] else []) @ tab)
             else addown_to_name lib DBOWN p tab);
        let p = p @ [blank];
        p \<leftarrow> (if whr \<noteq> [] then addown_to_name lib DBOWN p whr else Some p);
        Some (0, srm\<lparr>tp := tp', befor := None\<rparr>, p) })"

definition owner_dot :: "bytes option \<Rightarrow> bytes \<Rightarrow> bytes" where
  "owner_dot DBOWN tab =
     (case DBOWN of
        None \<Rightarrow> []
      | Some own \<Rightarrow> if own \<noteq> [] \<and> of_char (CHR ''.'') \<notin> set tab then own @ [of_char (CHR ''.'')] else [])"

definition SRM_mk_update :: "SRM \<Rightarrow> bytes option \<Rightarrow> (SRM \<times> bytes) option" where
  "SRM_mk_update srm DBOWN =
     do { tab \<leftarrow> tabname srm;
          Some (srm\<lparr>befor := None, hint := None\<rparr>,
            with_blank (befor srm) @ chars ''UPDATE '' @ with_blank (hint srm)
              @ owner_dot DBOWN tab @ tab @ [blank]) }"

text \<open>The columns chosen by name: \<open>p1\<close> is at a name, and the loop goes on past a separator.\<close>

partial_function (option) upd_chosen :: "sqllib \<Rightarrow> bytes \<Rightarrow> bytes \<Rightarrow> bytes option" where
  "upd_chosen lib p p1 =
     (if p1 = [] then Some p
      else let (col_name, p1) = stptok lib (skipblk lib p1) 49 [comma, bar];
               p = p @ [of_char (CHR ''$'')] @ col_name @ chars ''=:'' @ col_name @ [comma]
           in if p1 = [] then Some p else upd_chosen lib p (tl p1))"

fun upd_all :: "sqllib \<Rightarrow> bytes \<Rightarrow> T_PkgType list \<Rightarrow> bytes option" where
  "upd_all lib p [] = None"
| "upd_all lib p (typ # ts) =
     (if ptype typ < 0 then Some p
      else if ptype typ = CH_CLOB \<or> pbindtype typ AND NOINS \<noteq> 0 then upd_all lib p ts
      else do {
        nm \<leftarrow> pname typ; pn \<leftarrow> plain_name (pname typ);
        upd_all lib (p @ fst (strtcpy lib nm blank) @ chars ''=:'' @ pn @ [comma]) ts })"

definition SRM_mk_upd_col :: "sqllib \<Rightarrow> SRM \<Rightarrow> bytes option \<Rightarrow> bytes option \<Rightarrow> (SRM \<times> bytes) option" where
  "SRM_mk_upd_col lib srm DBOWN choice =
     do { (srm, p) \<leftarrow> SRM_mk_update srm DBOWN;
        let p = p @ chars ''SET '';
        p \<leftarrow> (case choice of
                Some names \<Rightarrow>
                  if names \<noteq> [] then upd_chosen lib p names else Option.bind (tp srm) (upd_all lib p)
              | None \<Rightarrow> Option.bind (tp srm) (upd_all lib p));
        Some (srm, butlast p @ [blank]) }"

definition SRM_mk_delete :: "bool \<Rightarrow> SRM \<Rightarrow> bytes option \<Rightarrow> bytes \<Rightarrow> (int \<times> SRM \<times> bytes) option" where
  "SRM_mk_delete dup_ok srm DBOWN whr =
     (if whr \<noteq> [] \<and> toupper_at whr 0 = of_char (CHR ''D'') then Some (0, srm, whr)
      else if whr \<noteq> [] \<and> \<not> dup_ok then Some (MEMERR, srm, whr)
      else do {
        let used = (hint srm \<noteq> None \<and> hint srm \<noteq> Some []);
        tab \<leftarrow> tabname srm;
        Some (0, srm\<lparr>befor := None, hint := (if used then None else hint srm)\<rparr>,
         with_blank (befor srm) @ chars ''DELETE '' @ (if used then with_blank (hint srm) else [])
           @ chars ''FROM '' @ owner_dot DBOWN tab @ tab @ [blank] @ whr) })"

section \<open>What the text says\<close>

text \<open>How SQL reads a string literal: a doubled quote is a quote, a single one ends it.  The
  result is the string and the text after it.\<close>

fun lit_body :: "bytes \<Rightarrow> (bytes \<times> bytes) option" where
  "lit_body [] = None"
| "lit_body (c # s) =
     (if c \<noteq> quote then map_option (\<lambda>(v, r). (c # v, r)) (lit_body s)
      else case s of
        [] \<Rightarrow> Some ([], [])
      | d # r \<Rightarrow> if d = quote then map_option (\<lambda>(v, r). (quote # v, r)) (lit_body r) else Some ([], s))"

definition sql_literal :: "bytes \<Rightarrow> (bytes \<times> bytes) option" where
  "sql_literal s = (case s of [] \<Rightarrow> None | c # r \<Rightarrow> if c = quote then lit_body r else None)"

lemma ext_copy_append: "ext_copy (a @ b) = ext_copy a @ ext_copy b"
  by (induction a) auto

lemma lit_body_ext: "take 1 rest \<noteq> [quote] \<Longrightarrow> lit_body (ext_copy s @ quote # rest) = Some (s, rest)"
  by (induction s) (auto split: list.split)

lemma lit_body_doubled:
  "lit_body (ext_copy s @ quote # quote # rest) = map_option (\<lambda>(v, r). (s @ quote # v, r)) (lit_body rest)"
  by (induction s) (auto simp: option.map_comp comp_def case_prod_unfold split: option.split)

lemma literal_ext: "take 1 rest \<noteq> [quote] \<Longrightarrow> sql_literal (quote # ext_copy s @ quote # rest) = Some (s, rest)"
  by (simp add: sql_literal_def lit_body_ext)

text \<open>Whether a text ends in the middle of a double byte character.\<close>

fun half :: "bool \<Rightarrow> bytes \<Rightarrow> bool" where
  "half lead [] = lead"
| "half lead (c # s) = half (\<not> lead \<and> c AND 0x80 \<noteq> 0) s"

lemma half_snoc: "half lead (s @ [c]) = (\<not> half lead s \<and> c AND 0x80 \<noteq> 0)"
  by (induction s arbitrary: lead) auto

lemma do_char_takes:
  "do_char lead p len = (ext_copy (take (nat len) p), half lead (take (nat len) p), int (length (take (nat len) p)))"
proof (induction p arbitrary: lead len)
  case (Cons c p)
  show ?case
  proof (cases "len \<le> 0")
    case False
    then have "nat len = Suc (nat (len - 1))" by simp
    then show ?thesis using False Cons [of "\<not> lead \<and> c AND 0x80 \<noteq> 0" "len - 1"] by (simp add: Let_def)
  qed simp
qed simp

text \<open>The string a character column of \<open>plen\<close> bytes keeps of a text: what fits, and a
  character cut in half is padded or turned into a seven bit one.\<close>

definition kept :: "T_PkgType \<Rightarrow> bytes \<Rightarrow> bytes" where
  "kept typ tmp =
     (let v = take (nat (plen typ - 1)) tmp in
      if half False v then
        (if int (length v) < plen typ - 1 then v @ [blank] else and_last v)
      else v)"

text \<open>Bytes bit by bit.\<close>

lemma all8: "(\<forall>n<8. P n) \<longleftrightarrow> P (0::nat) \<and> P 1 \<and> P 2 \<and> P 3 \<and> P 4 \<and> P 5 \<and> P 6 \<and> P 7"
  by (auto simp add: numeral_eq_Suc All_less_Suc)

lemma byte_eq_bits: "(c::byte) = d \<longleftrightarrow> (\<forall>n<8. bit c n = bit d n)"
  using bit_word_eqI [of c d] by auto

lemma high_bit: "(c::byte) AND 0x80 \<noteq> 0 \<longleftrightarrow> bit c 7"
  by (auto simp: byte_eq_bits all8 bit_simps)

lemma low_is_quote: "(c::byte) AND 0x80 \<noteq> 0 \<Longrightarrow> c AND 0x7F = quote \<longleftrightarrow> c = 0xA7"
  unfolding high_bit by (auto simp add: byte_eq_bits all8 bit_simps)

lemma quote_low: "(c::byte) AND 0x80 \<noteq> 0 \<Longrightarrow> c \<noteq> quote"
  by auto

lemma ext_copy_and_last:
  assumes "half False v" "last v AND 0x7F \<noteq> quote"
  shows "and_last (ext_copy v) = ext_copy (and_last v)"
proof -
  have "v \<noteq> []" using assms(1) by auto
  then obtain u c where v: "v = u @ [c]" by (cases v rule: rev_cases) auto
  have "c AND 0x80 \<noteq> 0" using assms(1) v by (simp add: half_snoc)
  then have "c \<noteq> quote" by (rule quote_low)
  then show ?thesis using assms(2) by (simp add: v and_last_def ext_copy_append)
qed

lemma char_value_kept:
  assumes "half False (take (nat (plen typ - 1)) tmp) \<longrightarrow> int (length tmp) < plen typ - 1 \<or>
      tmp ! (nat (plen typ - 1) - 1) \<noteq> 0xA7"
    and "0 \<le> plen typ - 1"
  shows "char_value typ tmp (plen typ - 1) = quote # ext_copy (kept typ tmp) @ [quote]"
proof -
  let ?v = "take (nat (plen typ - 1)) tmp"
  show ?thesis
  proof (cases "half False ?v \<and> \<not> int (length ?v) < plen typ - 1")
    case False
    then show ?thesis by (auto simp: char_value_def kept_def do_char_takes ext_copy_append Let_def)
  next
    case True
    then have len: "length ?v = nat (plen typ - 1)" "?v \<noteq> []" using assms(2) by auto
    then have l: "last ?v = tmp ! (nat (plen typ - 1) - 1)" by (simp add: last_conv_nth)
    have c: "last ?v AND 0x80 \<noteq> 0"
    proof -
      obtain u c where v: "?v = u @ [c]" using len(2) by (cases ?v rule: rev_cases) auto
      then show ?thesis using True by (simp add: half_snoc v)
    qed
    then have "last ?v AND 0x7F \<noteq> quote"
      using low_is_quote [OF c] assms(1) True l len(1) by auto
    then show ?thesis
      using True ext_copy_and_last [of ?v]
      by (simp add: char_value_def kept_def do_char_takes Let_def)
  qed
qed

lemma half_ascii: "\<forall>c\<in>set v. c AND 0x80 = 0 \<Longrightarrow> \<not> half False v"
  by (induction v) auto

lemma char_value_cut:
  assumes "plen typ = int (length v) + 2" "\<forall>c\<in>set v. c AND 0x80 = 0"
  shows "char_value typ (v @ 0xA7 # u) (plen typ - 1) = quote # ext_copy v @ [quote, quote]"
  using assms half_ascii [OF assms(2)]
  by (simp add: char_value_def do_char_takes nat_add_distrib half_snoc ext_copy_append and_last_def Let_def)

lemma low_is_0: "(c::byte) AND 0x80 \<noteq> 0 \<Longrightarrow> c AND 0x7F = 0 \<longleftrightarrow> c = 0x80"
  unfolding high_bit by (auto simp add: byte_eq_bits all8 bit_simps)

lemma string_in_end: "0 \<notin> set a \<Longrightarrow> string_in (a @ 0 # b) = a"
  unfolding string_in_def by (subst takeWhile_append2) auto

lemma set_ext_copy: "set (ext_copy s) = set s"
  by (induction s) auto

lemma kept_no_nul:
  assumes "0 \<notin> set tmp" "half False (take (nat (plen typ - 1)) tmp) \<longrightarrow>
      int (length tmp) < plen typ - 1 \<or> tmp ! (nat (plen typ - 1) - 1) \<noteq> 0x80"
  shows "0 \<notin> set (kept typ tmp)"
proof -
  let ?v = "take (nat (plen typ - 1)) tmp"
  have v: "0 \<notin> set ?v" using assms(1) by (auto dest: in_set_takeD)
  show ?thesis
  proof (cases "half False ?v \<and> \<not> int (length ?v) < plen typ - 1")
    case False
    then show ?thesis using v by (auto simp: kept_def Let_def)
  next
    case True
    then obtain u c where u: "?v = u @ [c]" by (cases ?v rule: rev_cases) auto
    have c: "c AND 0x80 \<noteq> 0" using True by (simp add: half_snoc u)
    have l: "length ?v = nat (plen typ - 1)" using True by auto
    then have "nat (plen typ - 1) = Suc (length u)" using u by simp
    then have "tmp ! (nat (plen typ - 1) - 1) = ?v ! length u" by simp
    also have "\<dots> = c" unfolding u by simp
    finally have "tmp ! (nat (plen typ - 1) - 1) = c" .
    then have "c \<noteq> 0x80" using assms(2) True by auto
    then have "c AND 0x7F \<noteq> 0" using low_is_0 [OF c] by simp
    then show ?thesis using True v by (simp add: kept_def Let_def u and_last_def)
  qed
qed

text \<open>C38: what \<open>mkvalue\<close> writes for a character column is one SQL string literal without a byte 0, so
  that the string in the buffer does not end in it, and it reads as the text of the column cut to
  its size, whatever quotes the text has and whatever statement text follows.  A double byte
  character cut by the size is padded or loses its high bit; it must not be one that becomes a
  quote (0xA7) or the end of the string (0x80).\<close>

theorem char_literal_holds_value:
  assumes "ptype typ = CH_CHAR" "1 \<le> plen typ" "tmp \<noteq> []" "0 \<notin> set tmp" "take 1 rest \<noteq> [quote]"
    "half False (take (nat (plen typ - 1)) tmp) \<longrightarrow>
       int (length tmp) < plen typ - 1 \<or> tmp ! (nat (plen typ - 1) - 1) \<notin> {0xA7, 0x80}"
  shows "\<exists>lit. mkvalue vp (Some tmp) typ = Some (vp @ lit) \<and> 0 \<notin> set lit \<and>
    sql_literal (lit @ rest) = Some (kept typ tmp, rest)"
proof -
  have "char_value typ tmp (plen typ - 1) = quote # ext_copy (kept typ tmp) @ [quote]"
    using assms(2,6) by (intro char_value_kept) auto
  moreover have "0 \<notin> set (kept typ tmp)" using assms(4,6) by (intro kept_no_nul) auto
  ultimately show ?thesis using assms literal_ext [OF assms(5), of "kept typ tmp"]
    by (simp add: mkvalue_def set_ext_copy)
qed

definition name_col :: T_PkgType where
  "name_col = PkgType CH_CHAR 6 (Some (chars ''name'')) No_Format 0 0"

theorem char_literal_holds_value_witness:
  "\<exists>lit. mkvalue [0x28] (Some (chars ''O'' @ [quote] @ chars ''Hara'')) name_col = Some ([0x28] @ lit) \<and>
    0 \<notin> set lit \<and> sql_literal (lit @ [0x29]) = Some (chars ''O'' @ [quote] @ chars ''Har'', [0x29])"
proof -
  have "kept name_col (chars ''O'' @ [quote] @ chars ''Hara'') = chars ''O'' @ [quote] @ chars ''Har''"
    by (simp add: kept_def name_col_def)
  then show ?thesis
    using char_literal_holds_value [of name_col "chars ''O'' @ [quote] @ chars ''Hara''" "[0x29]" "[0x28]"]
    by (simp add: name_col_def)
qed

text \<open>The clearing of the high bit of a cut character undoes the quoting: when a character
  column is filled by a text whose last byte kept is the first byte 0xA7 of a double byte
  character, that byte becomes a quote, the literal does not end where \<open>mkvalue\<close> ends it, and
  what follows in the statement, the next value first, is read as part of the string.\<close>

theorem cut_character_opens_literal:
  assumes "ptype typ = CH_CHAR" "plen typ = int (length v) + 2" "\<forall>c\<in>set v. c AND 0x80 = 0"
  shows "\<exists>lit. mkvalue vp (Some (v @ 0xA7 # u)) typ = Some (vp @ lit) \<and>
    (\<forall>rest. sql_literal (lit @ rest) = map_option (\<lambda>(s, r). (v @ quote # s, r)) (lit_body rest))"
  using assms char_value_cut [OF assms(2,3)] lit_body_doubled [of v]
  by (simp add: mkvalue_def sql_literal_def)

theorem cut_character_opens_literal_witness:
  "\<exists>lit. mkvalue [] (Some (chars ''1234'' @ 0xA7 # [0xC0])) name_col = Some ([] @ lit) \<and>
    (\<forall>rest. sql_literal (lit @ rest)
       = map_option (\<lambda>(s, r). (chars ''1234'' @ quote # s, r)) (lit_body rest))"
  by (rule cut_character_opens_literal) (simp_all add: name_col_def)

text \<open>The first byte 0x80 of a double byte character, cut by the size, becomes a byte 0: the string in
  the buffer ends inside the literal, and what \<open>mkvalues\<close> appends behind is not part of it.\<close>

theorem cut_character_ends_string:
  assumes "ptype typ = CH_CHAR" "plen typ = int (length v) + 2" "\<forall>c\<in>set v. c AND 0x80 = 0" "0 \<notin> set v"
  shows "\<exists>lit. mkvalue vp (Some (v @ 0x80 # u)) typ = Some (vp @ lit) \<and>
    (\<forall>rest. string_in (lit @ rest) = quote # ext_copy v \<and> sql_literal (string_in (lit @ rest)) = None)"
proof -
  have "char_value typ (v @ 0x80 # u) (plen typ - 1) = quote # ext_copy v @ [0, quote]"
    using assms(2) half_ascii [OF assms(3)]
    by (simp add: char_value_def do_char_takes nat_add_distrib half_snoc ext_copy_append and_last_def Let_def)
  moreover have "string_in (quote # ext_copy v @ 0 # w) = quote # ext_copy v" for w
    using string_in_end [of "quote # ext_copy v" w] assms(4) by (simp add: set_ext_copy)
  moreover have "lit_body (ext_copy v) = None" by (induction v) auto
  ultimately show ?thesis using assms(1) by (simp add: mkvalue_def sql_literal_def)
qed

subsection \<open>Updates\<close>

fun commas :: "bytes list \<Rightarrow> bytes" where
  "commas [] = []"
| "commas [x] = x"
| "commas (x # xs) = x @ comma # commas xs"

lemma commas_butlast: "xs \<noteq> [] \<Longrightarrow> butlast (concat (map (\<lambda>x. x @ [comma]) xs)) = commas xs"
  by (induction xs rule: commas.induct) (auto simp: butlast_append)

lemma commas_cons: "commas (x # xs) = x @ concat (map (\<lambda>y. comma # y) xs)"
  by (induction xs arbitrary: x) auto

text \<open>A template is laid out once: its first offset is then 0.\<close>

lemma laid_out_again:
  assumes "laid_out tpl = Some tpl'"
  shows "laid_out tpl' = Some tpl'"
proof -
  obtain t ts where t: "tpl = t # ts" using assms by (cases tpl) (simp_all add: laid_out_def)
  show ?thesis
  proof (cases "poffset t < 0")
    case True
    then obtain us where "tpl' = set_off (hd us) 0 # tl us"
      using assms t by (auto simp: laid_out_def set_offset.simps [of "t # ts"] split: Option.bind_splits)
    then show ?thesis by (simp add: laid_out_def)
  qed (use assms t in \<open>auto simp: laid_out_def\<close>)
qed

text \<open>A template with named columns and a terminator, and the columns an update takes.\<close>

definition well_ended :: "T_PkgType list \<Rightarrow> T_PkgType list \<Rightarrow> bool" where
  "well_ended tpl cs \<longleftrightarrow> (\<exists>t rest. tpl = cs @ t # rest \<and> ptype t = -1) \<and>
     (\<forall>c\<in>set cs. 0 \<le> ptype c \<and> pname c \<noteq> None)"

definition taken :: "T_PkgType list \<Rightarrow> T_PkgType list" where
  "taken cs = filter (\<lambda>c. skipped c = Some False) cs"

lemma well_ended_cons: "well_ended (c # tpl) (c' # cs) \<longleftrightarrow>
    c = c' \<and> 0 \<le> ptype c \<and> pname c \<noteq> None \<and> well_ended tpl cs"
  by (auto simp: well_ended_def)

lemma skipped_total: "pname c \<noteq> None \<Longrightarrow> \<exists>s. skipped c = Some s"
  by (auto simp: skipped_def)

lemma mkset_cols_text:
  "well_ended tpl cs \<Longrightarrow> mkset_cols lib cp tpl =
     Some (cp @ concat (map (\<lambda>c. fst (strtcpy lib (the (pname c)) blank) @ [comma]) (taken cs)))"
proof (induction cs arbitrary: cp tpl)
  case Nil
  then show ?case by (auto simp: well_ended_def taken_def)
next
  case (Cons c cs)
  then obtain ts where tpl: "tpl = c # ts" "well_ended ts cs" "0 \<le> ptype c" "pname c \<noteq> None"
    by (cases tpl) (auto simp: well_ended_cons, simp add: well_ended_def)
  obtain s where "skipped c = Some s" using skipped_total [OF tpl(4)] by blast
  then show ?case using tpl Cons.IH [OF tpl(2)] by (auto simp: taken_def)
qed

lemma mkvalue_append: "mkvalue vp tmp typ = map_option ((@) vp) (mkvalue [] tmp typ)"
  by (simp add: mkvalue_def split: option.split T_Format.split)

lemma mkvalue_ne: "mkvalue [] tmp typ = Some w \<Longrightarrow> w \<noteq> []"
  by (auto simp: mkvalue_def char_value_def to_date_def Let_def case_prod_unfold
      split: option.splits T_Format.splits if_splits)

lemma mk_values_cols_text:
  assumes "\<forall>c\<in>set (taken cs). \<exists>t. get_one_str (strlib.truncate lib) m base c 0 = Some t \<and>
      length t < 4096 \<and> mkvalue [] (Some t) c = Some (val c)"
  shows "well_ended tpl cs \<Longrightarrow> start \<le> length vp \<Longrightarrow> mk_values_cols lib m base start vp tpl =
     Some (vp @ (if length vp = start then commas (map val (taken cs))
                 else concat (map (\<lambda>c. comma # val c) (taken cs))))"
  using assms
proof (induction cs arbitrary: vp tpl)
  case Nil
  then show ?case by (auto simp: well_ended_def taken_def)
next
  case (Cons c cs)
  then obtain ts where tpl: "tpl = c # ts" "well_ended ts cs" "0 \<le> ptype c" "pname c \<noteq> None"
    by (cases tpl) (auto simp: well_ended_cons, simp add: well_ended_def)
  obtain s where s: "skipped c = Some s" using skipped_total [OF tpl(4)] by blast
  have sub: "\<forall>c\<in>set (taken cs). \<exists>t. get_one_str (strlib.truncate lib) m base c 0 = Some t \<and>
      length t < 4096 \<and> mkvalue [] (Some t) c = Some (val c)"
    using Cons.prems(3) by (auto simp: taken_def)
  show ?case
  proof (cases s)
    case True
    then show ?thesis using tpl s Cons.IH [OF tpl(2) Cons.prems(2) sub] by (simp add: taken_def)
  next
    case False
    then have "c \<in> set (taken (c # cs))" using s by (simp add: taken_def)
    then obtain t where t: "get_one_str (strlib.truncate lib) m base c 0 = Some t" "length t < 4096"
        "mkvalue [] (Some t) c = Some (val c)" using Cons.prems(3) by blast
    let ?vp = "if length vp \<noteq> start then vp @ [comma] else vp"
    have "mkvalue ?vp (Some t) c = Some (?vp @ val c)" using t(3) by (subst mkvalue_append) simp
    moreover have "start < length (?vp @ val c)" using mkvalue_ne [OF t(3)] Cons.prems(2) by auto
    ultimately have "mk_values_cols lib m base start vp tpl =
        Some (?vp @ val c @ concat (map (\<lambda>c. comma # val c) (taken cs)))"
      using t(1,2) tpl s False Cons.IH [OF tpl(2) _ sub, of "?vp @ val c"] by simp
    then show ?thesis using s False by (simp add: taken_def commas_cons comp_def)
  qed
qed

text \<open>\<open>mk_update\<close> writes \<open>SET(\<close>, the names of the columns that are not excluded, then
  \<open>)=(SELECT \<close>, the values of the same columns in the same order and \<open> FROM DUAL)\<close>, each list
  with a comma between two items, when the template has such a column and no value is
  longer than the local buffer.\<close>

theorem mk_update_pairs_columns:
  assumes "laid_out tpl = Some tpl'" "well_ended tpl' cs" "taken cs \<noteq> []"
    "\<forall>c\<in>set (taken cs). \<exists>t. get_one_str (strlib.truncate lib) m base c 0 = Some t \<and>
      length t < 4096 \<and> mkvalue [] (Some t) c = Some (val c)"
  shows "mk_update lib str m base tpl =
    Some (str @ chars ''SET('' @ commas (map (\<lambda>c. fst (strtcpy lib (the (pname c)) blank)) (taken cs))
      @ chars '')=(SELECT '' @ commas (map val (taken cs)) @ chars '' FROM DUAL)'', tpl')"
proof -
  let ?s = "str @ chars ''SET(''"
  let ?n = "map (\<lambda>c. fst (strtcpy lib (the (pname c)) blank)) (taken cs)"
  have "concat (map (\<lambda>x. x @ [comma]) ?n) \<noteq> []" using assms(3) by (cases "taken cs") auto
  then have "butlast (?s @ concat (map (\<lambda>x. x @ [comma]) ?n)) = ?s @ commas ?n"
    using commas_butlast [of ?n] assms(3) by (simp add: butlast_append)
  then have "mkset lib ?s (Some tpl') = Some (?s @ commas ?n, Some tpl')"
    using laid_out_again [OF assms(1)] mkset_cols_text [OF assms(2), of lib ?s]
    by (simp add: mkset_def step_back_def comp_def)
  then show ?thesis
    using assms(1) laid_out_again [OF assms(1)] mk_values_cols_text [OF assms(4,2)]
    by (simp add: mk_update_def mk_values_def)
qed


text \<open>A table of two columns, one of them read only, in a memory that holds 7 and "ab".\<close>

definition plain_lib :: sqllib where
  "plain_lib =
     \<lparr>GBK_flag = False, firstcc = (\<lambda>s i. False),
      stptok_pos = (\<lambda>s tok. length (takeWhile (\<lambda>c. c \<notin> set tok) s)), stptok_copy = (\<lambda>s n. (s, n)),
      itoStr = (\<lambda>i. [of_int (48 + i)]), lltoStr = (\<lambda>i. [of_int (48 + i)]),
      sprintf_int = (\<lambda>f i. []), sprintf_real = (\<lambda>f r. []), strto_real = (\<lambda>n s. []),
      rjultostrfmt = (\<lambda>i f. []), rminstrfmt = (\<lambda>i f. []), rminstr = (\<lambda>i. []),
      rsecstrfmt = (\<lambda>i f. []), rusecstrfmt = (\<lambda>i f. []), rstrfmttojul = (\<lambda>s f. 0), rstrjul = (\<lambda>s. 0),
      rstrminfmt = (\<lambda>s f. 0), rstrmin = (\<lambda>s. 0), rstrsecfmt = (\<lambda>s f. 0), rstrusecfmt = (\<lambda>s f. 0),
      str_at = (\<lambda>p. []),
      skipblk = dropWhile (\<lambda>c. c = blank), TRIM = (\<lambda>s. rev (dropWhile (\<lambda>c. c = blank) (rev s))),
      strtcpy = (\<lambda>s c. (takeWhile (\<lambda>d. d \<noteq> c) s, dropWhile (\<lambda>d. d \<noteq> c) s)),
      stptok = (\<lambda>s n tok. (takeWhile (\<lambda>c. c \<notin> set tok) s, dropWhile (\<lambda>c. c \<notin> set tok) s)),
      strsubst = (\<lambda>s n r. (r @ drop n s, length r))\<rparr>"

definition id_name_tpl :: "T_PkgType list" where
  "id_name_tpl = [PkgType CH_INT 4 (Some (chars ''id'')) No_Format 0 0,
     PkgType CH_CHAR 3 (Some (chars ''name n'')) No_Format 4 0,
     PkgType CH_INT 4 (Some (chars ''seq'')) No_Format 8 NOINS,
     PkgType (-1) 0 None No_Format 12 0]"

definition id_name_mem :: mem where
  "id_name_mem a = (if a = 0 then 7 else if a = 4 then of_char (CHR ''a'') else if a = 5 then quote else 0)"

definition id_name_val :: "T_PkgType \<Rightarrow> bytes" where
  "id_name_val c = (if poffset c = 0 then chars ''7'' else [quote, of_char (CHR ''a''), quote, quote, quote])"

theorem mk_update_pairs_columns_witness:
  "mk_update plain_lib [] id_name_mem 0 id_name_tpl =
    Some ([] @ chars ''SET('' @ chars ''id,name'' @ chars '')=(SELECT '' @
      (chars ''7,'' @ [quote, of_char (CHR ''a''), quote, quote, quote]) @ chars '' FROM DUAL)'', id_name_tpl)"
proof -
  let ?cs = "butlast id_name_tpl"
  have t: "taken ?cs = take 2 id_name_tpl"
    by (simp add: taken_def id_name_tpl_def skipped_def NOINS_def)
  have "laid_out id_name_tpl = Some id_name_tpl" "well_ended id_name_tpl ?cs"
    by (simp_all add: laid_out_def well_ended_def id_name_tpl_def)
  moreover have "\<forall>c\<in>set (taken ?cs). \<exists>t. get_one_str (strlib.truncate plain_lib) id_name_mem 0 c 0 = Some t \<and>
      length t < 4096 \<and> mkvalue [] (Some t) c = Some (id_name_val c)"
    unfolding t
    by (simp add: id_name_tpl_def get_one_str_def isnull_def rd_def s_val_def id_name_mem_def
        plain_lib_def strlib.truncate_def print_int_def null_int_def id_name_val_def mkvalue_def char_col_def
        esc_str_def esc_char_def char_value_def and_last_def upt_rec Let_def)
  ultimately have "mk_update plain_lib [] id_name_mem 0 id_name_tpl =
    Some ([] @ chars ''SET('' @ commas (map (\<lambda>c. fst (strtcpy plain_lib (the (pname c)) blank)) (taken ?cs))
      @ chars '')=(SELECT '' @ commas (map id_name_val (taken ?cs)) @ chars '' FROM DUAL)'', id_name_tpl)"
    by (intro mk_update_pairs_columns) (simp_all add: t, simp add: id_name_tpl_def)
  then show ?thesis
    by (simp add: t) (simp add: id_name_tpl_def plain_lib_def id_name_val_def)
qed


subsection \<open>Owners of tables\<close>

text \<open>The documented behaviour of the string routines the statements rely on.\<close>

definition copies_to :: "sqllib \<Rightarrow> bool" where
  "copies_to lib \<longleftrightarrow> (\<forall>s c. strtcpy lib s c = (takeWhile (\<lambda>d. d \<noteq> c) s, dropWhile (\<lambda>d. d \<noteq> c) s))"

definition substitutes :: "sqllib \<Rightarrow> bool" where
  "substitutes lib \<longleftrightarrow> (\<forall>s n r. n \<le> length s \<longrightarrow> strsubst lib s n r = (r @ drop n s, length r))"

definition splits_tokens :: "sqllib \<Rightarrow> bool" where
  "splits_tokens lib \<longleftrightarrow> (\<forall>s n tok. int (length (takeWhile (\<lambda>c. c \<notin> set tok) s)) < n \<longrightarrow>
     stptok lib s n tok = (takeWhile (\<lambda>c. c \<notin> set tok) s, dropWhile (\<lambda>c. c \<notin> set tok) s))"

text \<open>The text with the owner in the place of \<open>$DB\<close>, or without the prefix when there is no
  owner; m says what a prefix is.\<close>

fun put_owner :: "(bytes \<Rightarrow> bool) \<Rightarrow> bytes \<Rightarrow> bytes \<Rightarrow> bytes" where
  "put_owner m own [] = []"
| "put_owner m own (c # s) =
     (if m (take 4 (c # s)) then own @ put_owner m own (drop (if own = [] then 3 else 2) s)
      else c # put_owner m own s)"

definition exact :: "bytes \<Rightarrow> bool" where "exact t \<longleftrightarrow> t = pre_tabname"
definition caseless :: "bytes \<Rightarrow> bool" where "caseless t \<longleftrightarrow> map tolower t = map tolower pre_tabname"

lemma pre_simps: "pre_tabname = [0x24, 0x44, 0x42, 0x2E]"
  by (simp add: pre_tabname_def)

lemma length_pre: "length pre_tabname = 4"
  by (simp add: pre_simps)

lemma put_owner_skip:
  "\<forall>j<k. \<not> m (take 4 (drop j s)) \<Longrightarrow> k \<le> length s \<Longrightarrow>
     put_owner m own s = take k s @ put_owner m own (drop k s)"
proof (induction k arbitrary: s)
  case (Suc k)
  then obtain c r where s: "s = c # r" by (cases s) auto
  have "\<forall>j<k. \<not> m (take 4 (drop j r))" using Suc.prems(1) s by auto
  moreover have "\<not> m (take 4 (c # r))" using Suc.prems(1) s by auto
  ultimately show ?case using Suc.IH [of r] Suc.prems(2) s by simp
qed simp

lemma put_owner_none: "\<forall>j<length s. \<not> m (take 4 (drop j s)) \<Longrightarrow> put_owner m own s = s"
  using put_owner_skip [of "length s" m s own] by simp

lemma addown_puts_owner:
  assumes "copies_to lib" "0 \<notin> set own"
  shows "addown_to_name lib (Some own) p s = Some (p @ put_owner exact own s)"
proof (induction "length s" arbitrary: p s rule: less_induct)
  case less
  define a where "a = takeWhile (\<lambda>d. d \<noteq> 0x24) s"
  define r where "r = dropWhile (\<lambda>d. d \<noteq> 0x24) s"
  have s: "s = a @ r" by (simp add: a_def r_def)
  have cp: "strtcpy lib s (hd pre_tabname) = (a, r)" "strtcpy lib own 0 = (own, [])"
    using assms by (auto simp: copies_to_def a_def r_def pre_simps takeWhile_eq_all_conv dropWhile_eq_Nil_conv)
  have "put_owner exact own s = a @ put_owner exact own r"
  proof -
    have "\<not> exact (take 4 (drop j s))" if j: "j < length a" for j
    proof -
      have "drop j s = a ! j # drop (Suc j) s" using j s by (simp add: Cons_nth_drop_Suc [symmetric] nth_append)
      moreover have "a ! j \<noteq> 0x24" using nth_mem [OF j] by (auto simp: a_def dest: set_takeWhileD)
      ultimately show ?thesis by (simp add: exact_def pre_simps)
    qed
    then show ?thesis using put_owner_skip [of "length a" exact s own] s by simp
  qed
  note skip = this
  show ?case
  proof (cases r)
    case Nil
    then show ?thesis using cp skip by (subst addown_to_name.simps) simp
  next
    case (Cons d r')
    have "d = 0x24" using Cons r_def by (metis (mono_tags, lifting) dropWhile_eq_Cons_conv)
    note r = Cons [unfolded this]
    have len: "length r' < length s" using s r by simp
    show ?thesis
    proof (cases "take 3 r' = tl pre_tabname")
      case False
      then have "\<not> exact (take 4 r)" using r by (simp add: exact_def pre_simps)
      then have ow: "put_owner exact own r = 0x24 # put_owner exact own r'" using r by simp
      show ?thesis
        using False cp skip ow r less [OF len]
        by (subst addown_to_name.simps) (cases "r' = []"; simp add: Let_def)
    next
      case True
      then have ex: "exact (take 4 r)" using r by (simp add: exact_def pre_simps)
      have l3: "3 \<le> length r'" using True by (cases "length r' < 3") (auto simp: pre_simps)
      have d2: "drop 2 r' = r' ! 2 # drop 3 r'" using l3 by (simp add: Cons_nth_drop_Suc [symmetric] numeral_eq_Suc)
      show ?thesis
      proof (cases "own = []")
        case True
        have "put_owner exact own r = put_owner exact own (drop 3 r')" using ex r True by simp
        moreover have "addown_to_name lib (Some own) (p @ a) (drop 3 r') = Some ((p @ a) @ put_owner exact own (drop 3 r'))"
          using len by (intro less) simp
        ultimately show ?thesis
          using \<open>take 3 r' = tl pre_tabname\<close> cp skip r True
          by (subst addown_to_name.simps) (auto simp: drop_Cons' Let_def)
      next
        case False
        have "put_owner exact own r = own @ put_owner exact own (drop 2 r')" using ex r False by simp
        moreover have "addown_to_name lib (Some own) (p @ a @ own) (drop 2 r') =
            Some ((p @ a @ own) @ put_owner exact own (drop 2 r'))"
          using len by (intro less) simp
        ultimately show ?thesis
          using \<open>take 3 r' = tl pre_tabname\<close> cp skip r False d2
          by (subst addown_to_name.simps) (auto simp: drop_Cons')
      qed
    qed
  qed
qed

lemma strstr_some:
  "strstr s pat = Some k \<Longrightarrow> k \<le> length s \<and> take (length pat) (drop k s) = pat \<and>
     (\<forall>j<k. take (length pat) (drop j s) \<noteq> pat)"
proof (induction s arbitrary: k)
  case (Cons c s)
  show ?case
  proof (cases "take (length pat) (c # s) = pat")
    case False
    then obtain k' where k': "k = Suc k'" "strstr s pat = Some k'" using Cons.prems by auto
    have "take (length pat) (drop j (c # s)) \<noteq> pat" if "j < Suc k'" for j
      using that False Cons.IH [OF k'(2)] by (cases j) auto
    then show ?thesis using k' Cons.IH [OF k'(2)] by simp
  qed (use Cons.prems in auto)
qed (auto split: if_splits)

lemma strstr_none: "strstr s pat = None \<Longrightarrow> j < length s \<Longrightarrow> take (length pat) (drop j s) \<noteq> pat"
proof (induction s arbitrary: j)
  case (Cons c s)
  then show ?case by (cases j) (auto split: if_splits)
qed simp

lemma caseless_at: "caseless (take 4 (drop j s)) \<longleftrightarrow>
    take (length (map tolower pre_tabname)) (drop j (map tolower s)) = map tolower pre_tabname"
  by (simp add: caseless_def length_pre take_map drop_map)

lemma own_in_place_puts_owner:
  assumes "substitutes lib"
  shows "own_in_place lib (Some own) done s = Some (done @ put_owner caseless own s)"
proof (induction "length s" arbitrary: "done" s rule: less_induct)
  case less
  show ?case
  proof (cases "strcasestr s pre_tabname")
    case None
    then have "\<forall>j<length s. \<not> caseless (take 4 (drop j s))"
      unfolding caseless_at strcasestr_def using strstr_none by (metis length_map)
    then show ?thesis using None by (subst own_in_place.simps) (simp add: put_owner_none)
  next
    case (Some k)
    note k = strstr_some [OF Some [unfolded strcasestr_def]]
    have kl: "k \<le> length s" using k by simp
    have kc: "caseless (take 4 (drop k s))" using k unfolding caseless_at by blast
    have kn: "\<forall>j<k. \<not> caseless (take 4 (drop j s))" using k unfolding caseless_at by blast
    obtain c r where r: "drop k s = c # r" using kc by (cases "drop k s") (auto simp: caseless_def pre_simps)
    have "length (take 4 (drop k s)) = 4"
      using arg_cong [OF kc [unfolded caseless_def], of length] by (simp add: pre_simps)
    then have l: "4 \<le> length (drop k s)" by (simp add: min_def split: if_splits)
    let ?n = "if own \<noteq> [] then 3 else 4 :: nat"
    have sub: "strsubst lib (drop k s) ?n own = (own @ drop ?n (drop k s), length own)"
      using assms l by (cases "own = []") (simp_all add: substitutes_def)
    have "length (drop ?n (drop k s)) < length s" using l by auto
    note rec = less [OF this, of "done @ take k s @ own"]
    have "put_owner caseless own (drop k s) = own @ put_owner caseless own (drop ?n (drop k s))"
      using kc r by simp
    then have "put_owner caseless own s = take k s @ own @ put_owner caseless own (drop ?n (drop k s))"
      using put_owner_skip [OF kn kl] by simp
    then show ?thesis using Some sub rec
      by (subst own_in_place.simps) simp
  qed
qed


subsection \<open>Select statements\<close>

definition shown :: "T_PkgType list \<Rightarrow> T_PkgType list" where
  "shown cs = filter (\<lambda>c. pbindtype c AND NOSELECT = 0) cs"

lemma mkfield_cols_text:
  "well_ended tpl cs \<Longrightarrow> \<forall>c\<in>set (shown cs). f c = Some (fld c) \<Longrightarrow>
   mkfield_cols f cp tpl = Some (cp @ concat (map (\<lambda>c. fld c @ [comma]) (shown cs)))"
proof (induction cs arbitrary: cp tpl)
  case Nil
  then show ?case by (auto simp: well_ended_def shown_def)
next
  case (Cons c cs)
  then obtain ts where tpl: "tpl = c # ts" "well_ended ts cs" "0 \<le> ptype c"
    by (cases tpl) (auto simp: well_ended_cons, simp add: well_ended_def)
  have "\<forall>c\<in>set (shown cs). f c = Some (fld c)" using Cons.prems(2) by (simp add: shown_def)
  then show ?case using tpl Cons.prems(2) Cons.IH [OF tpl(2)] by (simp add: shown_def)
qed

lemma mkfield_text:
  assumes "laid_out tpl = Some tpl'" "well_ended tpl' cs" "shown cs \<noteq> []"
    "\<forall>c\<in>set (shown cs). field lib c = Some (fld c)"
  shows "mkfield lib p (Some tpl) None = Some (p @ commas (map fld (shown cs)), Some tpl')"
proof -
  have "concat (map (\<lambda>c. fld c @ [comma]) (shown cs)) \<noteq> []" using assms(3) by (cases "shown cs") auto
  then show ?thesis
    using assms mkfield_cols_text [OF assms(2,4)] commas_butlast [of "map fld (shown cs)"]
    by (simp add: mkfield_def step_back_def butlast_append comp_def)
qed

definition from_table :: "sqllib \<Rightarrow> bytes \<Rightarrow> bytes \<Rightarrow> bytes" where
  "from_table lib own tab =
     (if stptok_pos lib tab (chars '' ,.'') = length tab
      then (if own \<noteq> [] then own @ [of_char (CHR ''.'')] else []) @ tab else put_owner exact own tab)"


definition id_name_srm :: SRM where
  "id_name_srm = \<lparr>rec = Some 0, tp = Some id_name_tpl, hint = None, Aflg = -3, pks = None, tabname = Some (chars ''people''),
     colidx = None, befor = None\<rparr>"


subsection \<open>Where clauses\<close>

fun bindings :: "bool \<Rightarrow> bytes list \<Rightarrow> bytes" where
  "bindings first [] = []"
| "bindings first (k # ks) =
     chars (if first then ''WHERE $'' else '' AND $'') @ k @ chars ''=:'' @ k @ bindings False ks"

lemma commas_split:
  assumes "comma \<notin> set k" "bar \<notin> set k"
  shows "takeWhile (\<lambda>c. c \<notin> set [comma, bar]) (commas (k # ks)) = k"
    "dropWhile (\<lambda>c. c \<notin> set [comma, bar]) (commas (k # ks)) = (if ks = [] then [] else comma # commas ks)"
  using assms by (cases ks; auto simp: takeWhile_append dropWhile_append)+

lemma where_loop_binds:
  assumes "splits_tokens lib" "\<And>s. take 1 s \<noteq> [blank] \<Longrightarrow> skipblk lib s = s"
  shows "\<forall>k\<in>set ks. k \<noteq> [] \<and> hd k \<noteq> blank \<and> comma \<notin> set k \<and> bar \<notin> set k \<and> length k < 104 \<Longrightarrow>
    where_loop lib first (commas ks) stmt = Some (stmt @ bindings first ks)"
proof (induction ks arbitrary: first stmt)
  case Nil
  then show ?case by (subst where_loop.simps) simp
next
  case (Cons k ks)
  then have k: "k \<noteq> []" "hd k \<noteq> blank" "comma \<notin> set k" "bar \<notin> set k" "length k < 104" by auto
  have "commas (k # ks) \<noteq> [] \<and> take 1 (commas (k # ks)) \<noteq> [blank]"
    using k(1,2) by (cases ks; cases k) auto
  then have n: "skipblk lib (commas (k # ks)) = commas (k # ks)" "commas (k # ks) \<noteq> []"
    using assms(2) by auto
  have "stptok lib (commas (k # ks)) 104 [comma, bar] = (k, if ks = [] then [] else comma # commas ks)"
    using assms(1) [unfolded splits_tokens_def, rule_format, of "[comma, bar]" "commas (k # ks)" 104,
        unfolded commas_split [OF k(3,4)]] k(5)
    by simp
  then show ?case
    using Cons n by (subst where_loop.simps) (auto simp: Let_def)
qed

text \<open>\<open>mk_where\<close> binds each of the listed columns once, in order: for names without a
  separator, a leading blank or more than 103 bytes, the clause is \<open>WHERE $n=:n\<close> followed by
  \<open>AND $n=:n\<close> for each other name, and it is empty for no names.\<close>

theorem mk_where_binds_keys:
  assumes "splits_tokens lib" "\<And>s. take 1 s \<noteq> [blank] \<Longrightarrow> skipblk lib s = s"
    "\<forall>k\<in>set ks. k \<noteq> [] \<and> hd k \<noteq> blank \<and> comma \<notin> set k \<and> bar \<notin> set k \<and> length k < 104"
  shows "mk_where lib (Some (commas ks)) = Some (bindings True ks)"
  using where_loop_binds [OF assms(1,2,3), of True "[]"] by (simp add: mk_where_def)

theorem mk_where_binds_keys_witness:
  "mk_where plain_lib (Some (chars ''id,seq'')) = Some (chars ''WHERE $id=:id AND $seq=:seq'')"
proof -
  have "splits_tokens plain_lib" "\<And>s. take 1 s \<noteq> [blank] \<Longrightarrow> skipblk plain_lib s = s"
    by (auto simp: splits_tokens_def plain_lib_def dropWhile_eq_self_iff neq_Nil_conv)
  from mk_where_binds_keys [OF this, of "[chars ''id'', chars ''seq'']"] show ?thesis by simp
qed

end
