(* ===== verification/Columns.thy ===== *)
theory Columns
  imports BB_Tree SQL_Text
begin

text \<open>Choosing columns of a template: copies of the chosen ones (\<open>src/pack/patt_copy.c\<close>), the
  flags of the chosen ones (\<open>src/pack/setbind.c\<close>), all names but some (\<open>src/pack/except.c\<close>, a
  client of the balanced tree), the codes of type names (\<open>src/pack/SDBC_type.c\<close>), and the record
  mapping over a copy of a template (\<open>SRM_init\<close>, \<open>PatternFree\<close>, \<open>SRM_free\<close> of \<open>src/pack/SRM.c\<close>
  and the accessors of \<open>src/pack/SRM_utility.c\<close>).  None is a read outside the template.\<close>

subsection \<open>Copies of columns\<close>

definition tp_cp :: "T_PkgType list \<Rightarrow> nat \<Rightarrow> T_PkgType option" where
  "tp_cp src i = (if i < length src then Some (set_bind (src ! i) 0) else None)"

text \<open>\<open>sscanf(s, "%d - %d", &beg, &end)\<close> of the C library: the numbers it reads.\<close>

definition scan_d :: "bytes \<Rightarrow> (int \<times> bytes) option" where
  "scan_d s =
     (case scan_int s of
        None \<Rightarrow> None
      | Some v \<Rightarrow>
          (let s = dropWhile is_space s; s = (if take 1 s = [0x2D] \<or> take 1 s = [0x2B] then drop 1 s else s)
           in Some (v, dropWhile is_digit s)))"

definition scan_range :: "bytes \<Rightarrow> int list" where
  "scan_range s =
     (case scan_d s of
        None \<Rightarrow> []
      | Some (b, s) \<Rightarrow>
          (let s = dropWhile is_space s in
           if take 1 s = [0x2D] then
             (case scan_d (drop 1 s) of None \<Rightarrow> [b] | Some (e, _) \<Rightarrow> [b, e])
           else [b]))"

text \<open>The columns one item of the choice stands for.  A name that no column has makes
  \<open>index_col\<close> answer -1, and the code reads the element before the array.\<close>

definition item_cols :: "slot list option \<Rightarrow> int \<Rightarrow> T_PkgType list \<Rightarrow> bytes \<Rightarrow> T_PkgType list option" where
  "item_cols idxcol colnum src p =
     (if p = [] then Some []
      else if is_digit (hd p) then
        (case scan_range p of
           [] \<Rightarrow> Some []
         | b # es \<Rightarrow>
             (let e = (case es of [] \<Rightarrow> b | e # _ \<Rightarrow> if e < b then b else e)
              in if b < 0 then None else those (map (\<lambda>i. tp_cp src (nat i)) [b..e])))
      else do {
        i \<leftarrow> index_col idxcol colnum p (Some src);
        if i < 0 \<or> nat i \<ge> length src then None
        else if ptype (src ! nat i) < 0 then Some []
        else map_option (\<lambda>t. [t]) (tp_cp src (nat i)) })"

partial_function (option) patt_loop :: "sqllib \<Rightarrow> slot list option \<Rightarrow> int \<Rightarrow> T_PkgType list \<Rightarrow> T_PkgType list
    \<Rightarrow> bytes \<Rightarrow> T_PkgType list option" where
  "patt_loop lib idxcol colnum src dest cp =
     (let (buf, cp) = stptok lib (skipblk lib cp) 100 [comma, bar] in
      do { cols \<leftarrow> item_cols idxcol colnum src (TRIM lib buf);
           if cp = [] then Some (dest @ cols)
           else patt_loop lib idxcol colnum src (dest @ cols) (tl cp) })"

fun all_cols :: "T_PkgType list \<Rightarrow> T_PkgType list option" where
  "all_cols [] = None"
| "all_cols (t # ts) =
     (if ptype t \<ge> 0 then map_option (\<lambda>d. set_bind t 0 # d) (all_cols ts) else Some [set_bind t 0])"

text \<open>The number of columns, the copy and the source, which a choice lays out.\<close>

definition patt_copy_col :: "sqllib \<Rightarrow> T_PkgType list \<Rightarrow> bytes option \<Rightarrow> slot list option
    \<Rightarrow> (int \<times> T_PkgType list \<times> T_PkgType list) option" where
  "patt_copy_col lib src choice idxcol =
     (if choice = None \<or> choice = Some [] then
        do { dest \<leftarrow> all_cols src; Some (int (length dest) - 1, dest, src) }
      else do {
        (colnum, src) \<leftarrow> set_offset src;
        dest \<leftarrow> patt_loop lib idxcol colnum src [] (the choice);
        e \<leftarrow> tp_cp src (nat colnum);
        Some (int (length dest), dest @ [e], src) })"

subsection \<open>Flags of columns\<close>

fun bind_all :: "int \<Rightarrow> T_PkgType list \<Rightarrow> (int \<times> T_PkgType list) option" where
  "bind_all b [] = None"
| "bind_all b (t # ts) =
     (if ptype t > -1 then map_option (\<lambda>(i, ts). (i + 1, set_bind t b # ts)) (bind_all b ts)
      else Some (0, t # ts))"

partial_function (option) bind_loop :: "sqllib \<Rightarrow> int \<Rightarrow> int \<Rightarrow> slot list option \<Rightarrow> T_PkgType list \<Rightarrow> int
    \<Rightarrow> bytes \<Rightarrow> (int \<times> T_PkgType list) option" where
  "bind_loop lib b cols idx tpl i p =
     (if p = [] then Some (i, tpl)
      else let (buf, p) = stptok lib p 100 [comma, bar] in
        do { n \<leftarrow> index_col idx cols (TRIM lib (skipblk lib buf)) (Some tpl);
             let (i, tpl) = (if n > -1 then (i + 1, tpl[nat n := set_bind (tpl ! nat n) b]) else (i, tpl));
             bind_loop lib b cols idx tpl i (drop 1 p) })"

definition set_bindtype_idx :: "sqllib \<Rightarrow> T_PkgType list option \<Rightarrow> int \<Rightarrow> bytes option \<Rightarrow> int \<Rightarrow> slot list option
    \<Rightarrow> (int \<times> T_PkgType list option) option" where
  "set_bindtype_idx lib tpl b choice cols idx =
     (case tpl of
        None \<Rightarrow> Some (-1, None)
      | Some tpl \<Rightarrow>
          map_option (\<lambda>(i, tpl). (i, Some tpl))
            (case choice of
               None \<Rightarrow> bind_all b tpl
             | Some p \<Rightarrow> bind_loop lib b cols idx tpl 0 p))"

subsection \<open>All names but some\<close>

text \<open>The calls of \<open>strtok_r\<close> of the C library: the pieces between separators that are not
  empty.\<close>

function (sequential) strtok_all :: "(byte \<Rightarrow> bool) \<Rightarrow> bytes \<Rightarrow> bytes list" where
  "strtok_all sep [] = []"
| "strtok_all sep (c # s) =
     (if sep c then strtok_all sep s
      else takeWhile (\<lambda>d. \<not> sep d) (c # s) # strtok_all sep (dropWhile (\<lambda>d. \<not> sep d) s))"
  by pat_completeness auto
termination
  by (relation "measure (\<lambda>(sep, s). length s)") (auto simp: le_imp_less_Suc length_dropWhile_le)

definition cmp_str :: "bytes \<Rightarrow> bytes \<Rightarrow> int" where
  "cmp_str t s = lexcmp t s"

definition except_tree :: "sqllib \<Rightarrow> bool \<Rightarrow> bytes \<Rightarrow> bytes T_Tree option" where
  "except_tree lib mem except =
     fold (\<lambda>p t. do { t \<leftarrow> t; BB_Tree_Add mem cmp_str None t (TRIM lib (skipblk lib p)) })
       (strtok_all (\<lambda>c. c \<in> {comma, bar}) except) (Some NULL)"

fun kept_names :: "bytes T_Tree \<Rightarrow> T_PkgType list \<Rightarrow> (int \<times> bytes) option" where
  "kept_names t [] = None"
| "kept_names t (typ # ts) =
     (if ptype typ < 0 then Some (0, [])
      else do {
        name \<leftarrow> plain_name (pname typ);
        (num, p) \<leftarrow> kept_names t ts;
        Some (if BB_Tree_Find cmp_str t name \<noteq> NULL then (num, p) else (num + 1, name @ comma # p)) })"

text \<open>The number of names and the text in \<open>buf\<close>; \<open>mem\<close> says whether \<open>malloc\<close> succeeds in the
  tree.\<close>

definition except_col :: "sqllib \<Rightarrow> bool \<Rightarrow> T_PkgType list \<Rightarrow> bytes option \<Rightarrow> (int \<times> bytes) option" where
  "except_col lib mem tpl except =
     do { t \<leftarrow> (case except of
                 None \<Rightarrow> Some NULL
               | Some ex \<Rightarrow> if ex \<noteq> [] then except_tree lib mem ex else Some NULL);
          kept_names t tpl }"

subsection \<open>Type names\<close>

abbreviation type_entry :: "int \<Rightarrow> int \<Rightarrow> string \<Rightarrow> T_PkgType" where
  "type_entry ty ln nm \<equiv> PkgType ty ln (Some (chars nm)) No_Format 0 0"

abbreviation type_format :: "int \<Rightarrow> int \<Rightarrow> string \<Rightarrow> string \<Rightarrow> T_PkgType" where
  "type_format ty ln nm f \<equiv> PkgType ty ln (Some (chars nm)) (Text_Format (chars f)) 0 0"

text \<open>The formats \<open>YEAR_TO_DAY\<close>, \<open>YEAR_TO_MIN\<close> and \<open>YEAR_TO_SEC\<close> are declared in \<open>pack.h\<close> and
  defined in the date library.\<close>

definition SDBC_type :: "bytes \<Rightarrow> bytes \<Rightarrow> bytes \<Rightarrow> T_PkgType list" where
  "SDBC_type to_day to_min to_sec =
     [PkgType CH_BYTE (-1) (Some (chars ''CH_BYTE'')) No_Format (-1) 0,
      type_entry CH_CHAR (-1) ''CH_CHAR'', type_entry CH_DATE (-1) ''CH_DATE'',
      type_entry CH_CLOB (-1) ''CH_CLOB'', type_entry CH_STRUCT (-1) ''CH_STRUCT'',
      type_entry CH_TINY 1 ''CH_TINY'', type_entry CH_SHORT 2 ''CH_SHORT'',
      type_entry CH_INT 4 ''CH_INT'', type_entry CH_INT 4 ''CH_INT4'',
      type_entry CH_LONG 8 ''CH_LONG'', type_entry CH_DOUBLE 8 ''CH_DOUBLE'',
      type_entry CH_FLOAT 4 ''CH_FLOAT'',
      PkgType CH_JUL 4 (Some (chars ''CH_JUL'')) (Text_Format to_day) 0 0,
      PkgType CH_MINUTS 4 (Some (chars ''CH_MINUTS'')) (Text_Format to_min) 0 0,
      type_format CH_CJUL 4 ''CH_CJUL'' ''YYYYMMDD'',
      type_format CH_CMINUTS 4 ''CH_CMINUTS'' ''YYYYMMDDHH24MI'',
      type_entry CH_INT64 8 ''CH_INT64'',
      PkgType CH_TIME 8 (Some (chars ''CH_TIME'')) (Text_Format to_sec) 0 0,
      type_format CH_CTIME 8 ''CH_CTIME'' ''YYYYMMDDHH24MISS'',
      type_format CH_USEC 8 ''CH_USEC'' ''YYYY-MM-DD HH24:MI:SS.FF6'',
      type_entry CH_CNUM 35 ''CH_CNUM'',
      PkgType (-1) 0 None No_Format 0 0]"

definition mk_sdbc_type :: "bytes \<Rightarrow> bytes \<Rightarrow> bytes \<Rightarrow> bytes \<Rightarrow> int option" where
  "mk_sdbc_type to_day to_min to_sec typename =
     map_option ptype (pkg_getType typename (SDBC_type to_day to_min to_sec))"


subsection \<open>Record mappings\<close>

text \<open>\<open>patt_dup\<close>: the copy, null when \<open>malloc\<close> fails, and the template, now laid out.\<close>

definition patt_dup :: "sqllib \<Rightarrow> bool \<Rightarrow> T_PkgType list \<Rightarrow> (T_PkgType list option \<times> T_PkgType list) option" where
  "patt_dup lib mem tpl =
     do { (n, tpl) \<leftarrow> set_offset tpl;
          if \<not> mem then Some (None, tpl)
          else do { (k, new_tp, tpl) \<leftarrow> patt_copy_col lib tpl None None; Some (Some new_tp, tpl) } }"

text \<open>\<open>SRM_init\<close>; \<open>idx_ok\<close> says whether the index gets its memory.\<close>

definition SRM_init :: "sqllib \<Rightarrow> bool \<Rightarrow> bool \<Rightarrow> SRM \<Rightarrow> int option \<Rightarrow> T_PkgType list option
    \<Rightarrow> (SRM \<times> T_PkgType list option) option" where
  "SRM_init lib mem idx_ok srm record tpl =
     (let srm = srm\<lparr>rec := record, tp := None\<rparr> in
      case tpl of
        None \<Rightarrow> Some (srm, None)
      | Some tpl \<Rightarrow>
          do { (dup, tpl) \<leftarrow> patt_dup lib mem tpl;
               (case dup of
                  None \<Rightarrow> Some (srm, Some tpl)
                | Some new_tp \<Rightarrow>
                    do { (n, new_tp) \<leftarrow> set_offset new_tp;
                         (new_tp, idx) \<leftarrow> mk_col_idx new_tp;
                         let e = tpl ! nat n;
                         pk \<leftarrow> (case pformat e of
                                 No_Format \<Rightarrow> Some None
                               | Text_Format f \<Rightarrow> Some (Some f)
                               | Struct_Format _ \<Rightarrow> None);
                         Some (srm\<lparr>tp := Some new_tp, Aflg := - n,
                             colidx := (if idx_ok then Some idx else None),
                             tabname := pname e, pks := pk, befor := None, hint := None\<rparr>, Some tpl) }) })"

definition PatternFree :: "SRM \<Rightarrow> SRM" where
  "PatternFree srm =
     (if Aflg srm \<le> 0 then srm\<lparr>Aflg := 0, pks := None, tp := None\<rparr>
      else srm\<lparr>tp := None, rec := None, pks := None, Aflg := 0\<rparr>)"

definition SRM_free :: "SRM \<Rightarrow> SRM" where
  "SRM_free srm = PatternFree (srm\<lparr>colidx := None\<rparr>)"

text \<open>The accessors, over the memory m; the result of one that gives a pointer is the column or
  the address, the inner None is the null pointer.\<close>

definition SRM_getType :: "SRM \<Rightarrow> bytes \<Rightarrow> T_PkgType option option" where
  "SRM_getType srm key =
     do { i \<leftarrow> index_col (colidx srm) \<bar>Aflg srm\<bar> key (tp srm);
          if i < 0 then Some None else do { tpl \<leftarrow> tp srm; Some (Some (tpl ! nat i)) } }"

definition SRM_pkg_pack :: "strlib \<Rightarrow> mem \<Rightarrow> SRM \<Rightarrow> byte \<Rightarrow> (int + bytes) option" where
  "SRM_pkg_pack lib m srm dlimit =
     (case (tp srm, rec srm) of
        (Some tpl, Some base) \<Rightarrow> map_option Inr (pkg_pack lib m base tpl dlimit)
      | _ \<Rightarrow> Some (Inl MEMERR))"

definition SRM_pkg_dispack :: "strlib \<Rightarrow> mem \<Rightarrow> SRM \<Rightarrow> bytes \<Rightarrow> byte \<Rightarrow> (int + mem \<times> bytes) option" where
  "SRM_pkg_dispack lib m srm buf dlimit =
     (case (tp srm, rec srm) of
        (Some tpl, Some base) \<Rightarrow> map_option Inr (pkg_dispack lib m base buf tpl dlimit)
      | _ \<Rightarrow> Some (Inl MEMERR))"

definition SRM_getString :: "strlib \<Rightarrow> mem \<Rightarrow> SRM \<Rightarrow> bytes \<Rightarrow> bytes option option" where
  "SRM_getString lib m srm key =
     (case (tp srm, rec srm) of
        (Some tpl, Some base) \<Rightarrow> getitem_idx lib m base tpl key (colidx srm) \<bar>Aflg srm\<bar>
      | _ \<Rightarrow> Some None)"

definition SRM_setString :: "strlib \<Rightarrow> mem \<Rightarrow> SRM \<Rightarrow> bytes \<Rightarrow> bytes \<Rightarrow> (mem \<times> int) option" where
  "SRM_setString lib m srm buf key =
     (case (tp srm, rec srm) of
        (Some tpl, Some base) \<Rightarrow> putitem_idx lib m base buf tpl key (colidx srm) \<bar>Aflg srm\<bar>
      | _ \<Rightarrow> Some (m, MEMERR))"

definition SRM_getOne :: "strlib \<Rightarrow> mem \<Rightarrow> SRM \<Rightarrow> int \<Rightarrow> (int + bytes) option" where
  "SRM_getOne lib m srm idx =
     (if idx < 0 \<or> idx \<ge> \<bar>Aflg srm\<bar> then Some (Inl (-1))
      else do { base \<leftarrow> rec srm; tpl \<leftarrow> tp srm;
                map_option Inr (get_one_str lib m base (tpl ! nat idx) 0) })"

definition SRM_putOne :: "strlib \<Rightarrow> mem \<Rightarrow> SRM \<Rightarrow> bytes \<Rightarrow> int \<Rightarrow> (mem \<times> int) option" where
  "SRM_putOne lib m srm buf idx =
     (case (tp srm, rec srm) of
        (Some tpl, Some base) \<Rightarrow>
          if idx < 0 \<or> idx \<ge> \<bar>Aflg srm\<bar> then Some (m, -1)
          else put_str_one lib m base buf (tpl ! nat idx) 0
      | _ \<Rightarrow> Some (m, MEMERR))"

definition SRM_getP_by_index :: "SRM \<Rightarrow> int \<Rightarrow> int option" where
  "SRM_getP_by_index srm idx =
     (case (tp srm, rec srm) of
        (Some tpl, Some base) \<Rightarrow>
          if idx < 0 \<or> idx \<ge> \<bar>Aflg srm\<bar> then None else Some (base + poffset (tpl ! nat idx))
      | _ \<Rightarrow> None)"

definition SRM_getP_by_key :: "SRM \<Rightarrow> bytes \<Rightarrow> int option option" where
  "SRM_getP_by_key srm key =
     (case (tp srm, rec srm) of
        (Some tpl, Some base) \<Rightarrow>
          do { n \<leftarrow> index_col (colidx srm) \<bar>Aflg srm\<bar> key (Some tpl);
               Some (if n < 0 then None else Some (base + poffset (tpl ! nat n))) }
      | _ \<Rightarrow> Some None)"

section \<open>Properties\<close>

subsection \<open>Names left out\<close>

interpretation str_cmp: rec_comparator cmp_str "\<lambda>x. x"
  by unfold_locales (simp_all add: cmp_str_def lexcmp_less lexcmp_greater)

lemma names_tree:
  "\<exists>t. fold (\<lambda>p t. do { t \<leftarrow> t; BB_Tree_Add True cmp_str None t (f p) }) ps (Some t0) = Some t \<and>
     set (inorder t) = f ` set ps \<union> set (inorder t0) \<and> depths_ok t \<and> sorted_by (\<lambda>x. x) (inorder t)"
  if "depths_ok t0" "sorted_by (\<lambda>x. x) (inorder t0)"
  using that
proof (induction ps arbitrary: t0)
  case (Cons p ps)
  obtain t1 where t1: "BB_Tree_Add True cmp_str None t0 (f p) = Some t1" "depths_ok t1"
      "inorder t1 = put (\<lambda>x. x) (dup_of None) (f p) (inorder t0)"
    using str_cmp.Add_inorder [OF Cons.prems] by blast
  have keep: "\<And>y. dup_of None y (f p) = y" by (simp add: dup_of_def)
  have s1: "sorted_by (\<lambda>x. x) (inorder t1)"
    unfolding t1(3) using Cons.prems(2) by (intro sorted_put) (simp_all add: keep)
  have "set (inorder t1) = insert (f p) (set (inorder t0))"
    using set_put_keys [of "\<lambda>x. x" "dup_of None" "f p" "inorder t0"] keep t1(3) by simp
  then show ?case using Cons.IH [OF t1(2) s1] t1(1) by auto
qed simp

lemma found_name:
  "sorted_by (\<lambda>x. x) (inorder t) \<Longrightarrow> BB_Tree_Find cmp_str t name \<noteq> NULL \<longleftrightarrow> name \<in> set (inorder t)"
  using str_cmp.Find_find [of t name] by (cases "BB_Tree_Find cmp_str t name")
    (auto simp: find_None_iff find_Some_iff dest!: sym [of _ "find _ _"])

lemma kept_names_text:
  "sorted_by (\<lambda>x. x) (inorder t) \<Longrightarrow> \<forall>c\<in>set cols. ptype c \<ge> 0 \<Longrightarrow> ptype e < 0 \<Longrightarrow>
   map (\<lambda>c. plain_name (pname c)) cols = map Some names \<Longrightarrow>
   kept_names t (cols @ e # rest) =
     (let kept = filter (\<lambda>n. n \<notin> set (inorder t)) names
      in Some (int (length kept), concat (map (\<lambda>n. n @ [comma]) kept)))"
proof (induction cols arbitrary: names)
  case (Cons c cols)
  then obtain n ns where n: "names = n # ns" by (cases names) auto
  then show ?case using Cons found_name [OF Cons.prems(1), of n] by (simp add: Let_def)
qed simp

text \<open>\<open>except_col\<close> writes the plain names of the columns that are not among the names to leave
  out, in the order of the template, each followed by a comma, and returns how many they are;
  the names left out, in any order and with any repetition, go through the balanced tree.\<close>

theorem except_col_lists_the_rest:
  assumes "\<forall>c\<in>set cols. ptype c \<ge> 0" "ptype e < 0"
    "map (\<lambda>c. plain_name (pname c)) cols = map Some names"
  shows "except_col lib True (cols @ e # rest) (Some ex) =
    (let out = (\<lambda>p. TRIM lib (skipblk lib p)) ` set (strtok_all (\<lambda>c. c \<in> {comma, bar}) ex);
         kept = filter (\<lambda>n. n \<notin> out) names
     in Some (int (length kept), concat (map (\<lambda>n. n @ [comma]) kept)))"
proof -
  let ?f = "\<lambda>p. TRIM lib (skipblk lib p)"
  have "depths_ok NULL" "sorted_by (\<lambda>x. x) (inorder (NULL :: bytes T_Tree))" by simp_all
  from names_tree [OF this, of ?f "strtok_all (\<lambda>c. c \<in> {comma, bar}) ex"]
  obtain t where t: "except_tree lib True ex = Some t" "sorted_by (\<lambda>x. x) (inorder t)"
      "set (inorder t) = ?f ` set (strtok_all (\<lambda>c. c \<in> {comma, bar}) ex)"
    by (auto simp: except_tree_def)
  show ?thesis
  proof (cases "ex = []")
    case True
    have "sorted_by (\<lambda>x. x) (inorder (NULL :: bytes T_Tree))" by simp
    from kept_names_text [OF this assms, of rest] show ?thesis
      using True by (simp add: except_col_def)
  next
    case False
    then show ?thesis
      using t(1) kept_names_text [OF t(2) assms, of rest] unfolding t(3) by (simp add: except_col_def)
  qed
qed

theorem except_col_lists_the_rest_witness:
  "except_col plain_lib True id_name_tpl (Some (chars ''seq, zip|n'')) = Some (1, chars ''id,'')"
proof -
  have t: "id_name_tpl = butlast id_name_tpl @ last id_name_tpl # []" by (simp add: id_name_tpl_def)
  have "strtok_all (\<lambda>c. c \<in> {comma, bar}) (chars ''seq, zip|n'') = [chars ''seq'', chars '' zip'', chars ''n'']"
    by simp
  then show ?thesis
    using except_col_lists_the_rest [of "butlast id_name_tpl" "last id_name_tpl"
        "[chars ''id'', chars ''n'', chars ''seq'']" plain_lib "[]" "chars ''seq, zip|n''"]
    unfolding t [symmetric]
    by (simp add: plain_name_def) (simp add: id_name_tpl_def plain_lib_def plain_name_def)
qed

subsection \<open>Copies\<close>

text \<open>A template with n columns, their plain names, and its terminator.\<close>

definition named_cols :: "T_PkgType list \<Rightarrow> T_PkgType \<Rightarrow> bytes list \<Rightarrow> bool" where
  "named_cols cols e names \<longleftrightarrow> cols \<noteq> [] \<and> (\<forall>c\<in>set cols. ptype c \<ge> 0) \<and> ptype e = -1 \<and>
     map (\<lambda>c. plain_name (pname c)) cols = map Some names"

lemma set_offset_placed_once:
  assumes "set_offset tpl = Some (n, ts)"
  shows "poffset (hd ts) > -1" "ts \<noteq> []"
proof -
  obtain t us where t: "tpl = t # us" using assms by (cases tpl) (simp_all add: set_offset.simps)
  then have "poffset (hd ts) > -1 \<and> ts \<noteq> []"
    using assms by (auto simp: set_offset.simps [of "t # us"] split: if_splits Option.bind_splits)
  then show "poffset (hd ts) > -1" "ts \<noteq> []" by auto
qed

lemma set_offset_again:
  "ts \<noteq> [] \<Longrightarrow> poffset (hd ts) > -1 \<Longrightarrow> cnt_type ts = Some n \<Longrightarrow> set_offset ts = Some (n, ts)"
  by (cases ts) (simp_all add: set_offset.simps)

lemma cnt_type_cols:
  "\<forall>c\<in>set cols. ptype c \<ge> 0 \<Longrightarrow> ptype e < 0 \<Longrightarrow> cnt_type (cols @ e # rest) = Some (int (length cols))"
  by (induction cols) (auto simp: cnt_type.simps)

lemma all_cols_copy:
  "\<forall>c\<in>set cols. ptype c \<ge> 0 \<Longrightarrow> ptype e < 0 \<Longrightarrow>
   all_cols (cols @ e # rest) = Some (map (\<lambda>c. set_bind c 0) cols @ [set_bind e 0])"
  by (induction cols) auto

lemma col_search_range: "col_search names key < int (length names) \<and> -1 \<le> col_search names key"
  by (auto simp: col_search_def find_Some_iff split: option.split)

text \<open>\<open>SRM_init\<close> gives the mapping a copy of the template it lays out, with the flags of
  every column cleared and an index of the copy's names; then for every key, whether or not the
  index got its memory, \<open>SRM_getType\<close> gives the first column whose plain name is the key, and
  \<open>SRM_getP_by_key\<close> the address of that column in the record, or the null pointer for a name no
  column has.\<close>

theorem SRM_init_finds_columns:
  assumes "set_offset tpl = Some (int (length cols), cols @ e # rest)" "named_cols cols e names"
    "\<And>f. pformat e \<noteq> Struct_Format f"
  shows "\<exists>srm'. SRM_init lib True idx_ok srm (Some base) (Some tpl) = Some (srm', Some (cols @ e # rest)) \<and>
    tp srm' = Some (map (\<lambda>c. set_bind c 0) cols @ [set_bind e 0]) \<and>
    (\<forall>key. SRM_getType srm' key = Some
        (if key \<in> set names then Some (set_bind (cols ! nat (col_search names key)) 0) else None) \<and>
      SRM_getP_by_key srm' key = Some
        (if key \<in> set names then Some (base + poffset (cols ! nat (col_search names key))) else None))"
proof -
  let ?cp = "map (\<lambda>c. set_bind c 0) cols @ [set_bind e 0]"
  let ?ccols = "map (\<lambda>c. set_bind c 0) cols"
  have c: "cols \<noteq> []" "\<forall>c\<in>set cols. ptype c \<ge> 0" "ptype e = -1"
    "map (\<lambda>c. plain_name (pname c)) cols = map Some names"
    using assms(2) by (auto simp: named_cols_def)
  have len: "length names = length cols" using c(4) by (metis length_map)
  have off: "poffset (hd ?cp) > -1"
    using set_offset_placed_once [OF assms(1)] c(1) by (cases cols) auto
  have cn: "cnt_type ?cp = Some (int (length cols))"
    using cnt_type_cols [of ?ccols "set_bind e 0" "[]"] c(2,3) by simp
  have so: "set_offset ?cp = Some (int (length cols), ?cp)"
    using off cn by (intro set_offset_again) auto
  have cc: "?ccols \<noteq> []" "\<forall>c\<in>set ?ccols. ptype c \<ge> 0" "ptype (set_bind e 0) = -1"
    "map (\<lambda>c. plain_name (pname c)) ?ccols = map Some names" "length ?ccols = length cols"
    using c by (simp_all add: comp_def)
  obtain colp where idx: "mk_col_idx ?cp = Some (?cp, colp)"
      "\<And>key. index_col (Some colp) (int (length cols)) key (Some ?cp) = Some (col_search names key)"
    using index_col_with [of ?cp ?ccols "set_bind e 0" "[]", unfolded cc(5), OF so cc(1-4)] by auto
  have plain: "index_col None (int (length cols)) key (Some ?cp) = Some (col_search names key)" for key
    using index_col_without [OF cc(2-4), where rest = "[]"] by auto
  have dup: "patt_dup lib True tpl = Some (Some ?cp, cols @ e # rest)"
    using assms(1) all_cols_copy [OF c(2), of e rest] c(3) by (simp add: patt_dup_def patt_copy_col_def)
  define pk where "pk = (case pformat e of Text_Format f \<Rightarrow> Some f | _ \<Rightarrow> None)"
  define srm' where "srm' = srm\<lparr>rec := Some base, tp := Some ?cp, Aflg := - int (length cols),
      colidx := (if idx_ok then Some colp else None), tabname := pname e, pks := pk, befor := None, hint := None\<rparr>"
  have init: "SRM_init lib True idx_ok srm (Some base) (Some tpl) = Some (srm', Some (cols @ e # rest))"
  proof (cases "pformat e")
    case (Struct_Format f)
    then show ?thesis using assms(3) by blast
  qed (use dup so idx(1) in \<open>simp_all add: SRM_init_def srm'_def pk_def Let_def\<close>)
  have ix: "index_col (colidx srm') \<bar>Aflg srm'\<bar> key (tp srm') = Some (col_search names key)" for key
    using idx(2) plain by (simp add: srm'_def)
  have found: "0 \<le> col_search names key \<and> nat (col_search names key) < length cols" if "key \<in> set names" for key
    using that len by (auto simp: col_search_def find_None_iff find_Some_iff in_set_conv_nth split: option.split)
  have none: "col_search names key = -1" if "key \<notin> set names" for key
    using that by (auto simp: col_search_def find_Some_iff split: option.split)
  have "SRM_getType srm' key = Some
        (if key \<in> set names then Some (set_bind (cols ! nat (col_search names key)) 0) else None) \<and>
      SRM_getP_by_key srm' key = Some
        (if key \<in> set names then Some (base + poffset (cols ! nat (col_search names key))) else None)" for key
  proof (cases "key \<in> set names")
    case True
    then show ?thesis
      using ix [of key] found [OF True] by (simp add: SRM_getType_def SRM_getP_by_key_def srm'_def nth_append)
  next
    case False
    then show ?thesis
      using ix [of key] none [OF False] by (simp add: SRM_getType_def SRM_getP_by_key_def srm'_def)
  qed
  then show ?thesis using init by (intro exI [of _ srm']) (simp add: srm'_def)
qed

theorem SRM_init_finds_columns_witness:
  "\<exists>srm'. SRM_init plain_lib True False id_name_srm (Some 100) (Some id_name_tpl) = Some (srm', Some id_name_tpl) \<and>
    SRM_getP_by_key srm' (chars ''n'') = Some (Some 104) \<and> SRM_getP_by_key srm' (chars ''zip'') = Some None"
proof -
  let ?n = "[chars ''id'', chars ''n'', chars ''seq'']"
  have t: "id_name_tpl = butlast id_name_tpl @ last id_name_tpl # []" by (simp add: id_name_tpl_def)
  have so: "set_offset id_name_tpl = Some (int (length (butlast id_name_tpl)), butlast id_name_tpl @ last id_name_tpl # [])"
    unfolding t [symmetric] by (simp add: set_offset.simps id_name_tpl_def cnt_type.simps)
  have nc: "named_cols (butlast id_name_tpl) (last id_name_tpl) ?n"
    by (simp add: named_cols_def id_name_tpl_def plain_name_def)
  have nf: "\<And>f. pformat (last id_name_tpl) \<noteq> Struct_Format f" by (simp add: id_name_tpl_def)
  have cs: "col_search ?n (chars ''n'') = 1" by (simp add: col_search_def upt_rec)
  obtain srm' where s: "SRM_init plain_lib True False id_name_srm (Some 100) (Some id_name_tpl) = Some (srm', Some id_name_tpl)"
      "\<And>key. SRM_getP_by_key srm' key = Some (if key \<in> set ?n
         then Some (100 + poffset (butlast id_name_tpl ! nat (col_search ?n key))) else None)"
    using SRM_init_finds_columns [OF so nc nf, of plain_lib False id_name_srm 100]
    unfolding t [symmetric] by blast
  have "poffset (butlast id_name_tpl ! 1) = 4" by (simp add: id_name_tpl_def)
  then show ?thesis using s(1) s(2) [of "chars ''n''"] s(2) [of "chars ''zip''"] cs by auto
qed

text \<open>The loop of \<open>patt_copy_col\<close> over names.\<close>

definition is_name :: "bytes \<Rightarrow> bool" where
  "is_name k \<longleftrightarrow> k \<noteq> [] \<and> hd k \<noteq> blank \<and> last k \<noteq> blank \<and> \<not> is_digit (hd k) \<and>
     comma \<notin> set k \<and> bar \<notin> set k \<and> length k < 100"

definition trims :: "sqllib \<Rightarrow> bool" where
  "trims lib \<longleftrightarrow> (\<forall>s. take 1 s \<noteq> [blank] \<longrightarrow> skipblk lib s = s) \<and>
     (\<forall>s. s = [] \<or> last s \<noteq> blank \<longrightarrow> TRIM lib s = s)"

definition chosen :: "T_PkgType list \<Rightarrow> bytes list \<Rightarrow> bytes list \<Rightarrow> T_PkgType list" where
  "chosen cols names ks = map (\<lambda>k. set_bind (cols ! nat (col_search names k)) 0) ks"

lemma patt_loop_names:
  assumes lib: "splits_tokens lib" "trims lib" and nc: "named_cols cols e names"
    and ix: "\<And>key. index_col idx (int (length cols)) key (Some (cols @ e # rest)) = Some (col_search names key)"
  shows "\<forall>k\<in>set ks. is_name k \<Longrightarrow> ks \<noteq> [] \<Longrightarrow>
    patt_loop lib idx (int (length cols)) (cols @ e # rest) dest (commas ks) =
      (if set ks \<subseteq> set names then Some (dest @ chosen cols names ks) else None)"
proof (induction ks arbitrary: dest)
  case (Cons k ks)
  then have k: "k \<noteq> []" "hd k \<noteq> blank" "last k \<noteq> blank" "\<not> is_digit (hd k)" "comma \<notin> set k"
    "bar \<notin> set k" "length k < 100" by (auto simp: is_name_def)
  have nd: "commas (k # ks) \<noteq> [] \<and> take 1 (commas (k # ks)) \<noteq> [blank]"
    using k(1,2) by (cases ks; cases k) auto
  have sk: "skipblk lib (commas (k # ks)) = commas (k # ks)" using lib(2) nd by (simp add: trims_def)
  have tm: "TRIM lib k = k" using lib(2) k(3) by (simp add: trims_def)
  have tok: "stptok lib (commas (k # ks)) 100 [comma, bar] = (k, if ks = [] then [] else comma # commas ks)"
    using lib(1) [unfolded splits_tokens_def, rule_format, of "[comma, bar]" "commas (k # ks)" 100,
        unfolded commas_split [OF k(5,6)]] k(7)
    by simp
  have len: "length names = length cols" using nc by (metis named_cols_def length_map)
  have item: "item_cols idx (int (length cols)) (cols @ e # rest) k =
      (if k \<in> set names then Some [set_bind (cols ! nat (col_search names k)) 0] else None)"
  proof (cases "k \<in> set names")
    case True
    then have f: "0 \<le> col_search names k" "nat (col_search names k) < length cols"
      using len by (auto simp: col_search_def find_None_iff find_Some_iff in_set_conv_nth split: option.split)
    then have "\<not> ptype (cols ! nat (col_search names k)) < 0"
      using nc by (metis named_cols_def nth_mem linorder_not_less)
    then show ?thesis using True f k ix [of k] by (simp add: item_cols_def tp_cp_def nth_append)
  next
    case False
    then have "col_search names k = -1" by (auto simp: col_search_def find_Some_iff split: option.split)
    then show ?thesis using False k ix [of k] by (simp add: item_cols_def)
  qed
  show ?case
    using Cons item sk tm tok by (subst patt_loop.simps) (auto simp: chosen_def)
qed simp

text \<open>\<open>patt_copy_col\<close> with a list of names copies the first column of each name, in the order
  of the list, with its flags cleared, and then the terminator, and returns their number, with
  an index and without; but when a name of the list is no column, \<open>index_col\<close> answers -1 and the
  routine reads the element before the template.\<close>

theorem patt_copy_col_by_name:
  assumes "splits_tokens lib" "trims lib" "named_cols cols e names"
    and "set_offset tpl = Some (int (length cols), cols @ e # rest)"
    and "idx = None \<or> (\<exists>colp. idx = Some colp \<and> mk_col_idx tpl = Some (cols @ e # rest, colp))"
    and "ks \<noteq> []" "\<forall>k\<in>set ks. is_name k"
  shows "patt_copy_col lib tpl (Some (commas ks)) idx =
    (if set ks \<subseteq> set names
     then Some (int (length ks), chosen cols names ks @ [set_bind e 0], cols @ e # rest) else None)"
proof -
  have nc: "cols \<noteq> []" "\<forall>c\<in>set cols. ptype c \<ge> 0" "ptype e = -1"
    "map (\<lambda>c. plain_name (pname c)) cols = map Some names"
    using assms(3) by (auto simp: named_cols_def)
  have ix: "index_col idx (int (length cols)) key (Some (cols @ e # rest)) = Some (col_search names key)" for key
    using assms(5) index_col_with [OF assms(4) nc] index_col_without [OF nc(2-4)] by auto
  have "commas ks \<noteq> []"
    using assms(6,7) by (cases ks; cases "tl ks") (auto simp: is_name_def)
  then show ?thesis
    using assms(4) patt_loop_names [OF assms(1-3) ix assms(7,6), of "[]"]
    by (simp add: patt_copy_col_def tp_cp_def nth_append chosen_def)
qed

theorem patt_copy_col_by_name_witness:
  "patt_copy_col plain_lib id_name_tpl (Some (chars ''seq,id'')) None =
     Some (2, [set_bind (id_name_tpl ! 2) 0, set_bind (id_name_tpl ! 0) 0, set_bind (id_name_tpl ! 3) 0], id_name_tpl) \<and>
   patt_copy_col plain_lib id_name_tpl (Some (chars ''zip'')) None = None"
proof -
  let ?n = "[chars ''id'', chars ''n'', chars ''seq'']"
  have t: "id_name_tpl = butlast id_name_tpl @ last id_name_tpl # []" by (simp add: id_name_tpl_def)
  have so: "set_offset id_name_tpl = Some (int (length (butlast id_name_tpl)), butlast id_name_tpl @ last id_name_tpl # [])"
    unfolding t [symmetric] by (simp add: set_offset.simps id_name_tpl_def cnt_type.simps)
  have nc: "named_cols (butlast id_name_tpl) (last id_name_tpl) ?n"
    by (simp add: named_cols_def id_name_tpl_def plain_name_def)
  have tr: "TRIM plain_lib s = s" if "s = [] \<or> last s \<noteq> blank" for s
    using that by (cases s rule: rev_cases) (auto simp: plain_lib_def)
  have sk: "skipblk plain_lib s = s" if "take 1 s \<noteq> [blank]" for s
    using that by (cases s) (auto simp: plain_lib_def)
  have lib: "splits_tokens plain_lib" "trims plain_lib"
    using tr sk by (simp_all add: splits_tokens_def trims_def) (simp add: plain_lib_def)
  have nm: "is_name (chars ''seq'')" "is_name (chars ''id'')" "is_name (chars ''zip'')"
    by (simp_all add: is_name_def is_digit_def)
  have cs: "col_search ?n (chars ''seq'') = 2" "col_search ?n (chars ''id'') = 0"
    by (simp_all add: col_search_def upt_rec)
  have e: "commas [chars ''seq'', chars ''id''] = chars ''seq,id''" "commas [chars ''zip''] = chars ''zip''"
    by simp_all
  note p = patt_copy_col_by_name [OF lib nc so disjI1 [OF refl], unfolded t [symmetric]]
  show ?thesis
    using p [of "[chars ''seq'', chars ''id'']"] p [of "[chars ''zip'']"] nm cs
    unfolding e by (simp add: chosen_def) (simp add: id_name_tpl_def)
qed

end
