(* ===== verification/A64.thy ===== *)
theory A64
  imports Bignum "HOL-Library.Signed_Division"
begin

unbundle bit_operations_syntax

text \<open>The printable forms of numbers and byte strings: \<open>src/crypto/a64n.c\<close>.  Strings are
  byte lists; where the C code reads a string the list is its bytes without the terminator,
  and a read behind the terminator is \<open>None\<close>.  \<open>strrevers\<close>, which is not in the
  repository, is a parameter.\<close>

section \<open>Digits\<close>

definition tab64 :: bytes where
  "tab64 = map of_char ''0123456789ABCDEFGHIJKLMNOPQRSTUVWXYZabcdefghijklmnopqrstuvwxyz_~@''"

definition n64a :: "u_int \<Rightarrow> byte" where
  "n64a n = tab64 ! unat (n AND 63)"

text \<open>\<open>strchr\<close> finds the terminator too.\<close>

fun strchr_idx :: "bytes \<Rightarrow> byte \<Rightarrow> int \<Rightarrow> int" where
  "strchr_idx [] c i = -1"
| "strchr_idx (x # xs) c i = (if x = c then i else strchr_idx xs c (i + 1))"

definition a64n :: "byte \<Rightarrow> int" where
  "a64n a = strchr_idx (tab64 @ [0]) a 0"

section \<open>Numbers in base 64\<close>

partial_function (option) n64a_loop :: "nat \<Rightarrow> u_int list \<Rightarrow> bytes \<Rightarrow> bytes option" where
  "n64a_loop n numtmp p =
     (if n_iszero n numtmp then Some p
      else let (numtmp, tmp) = rshift n numtmp 6 in n64a_loop n numtmp (p @ [n64a tmp]))"

definition str_n64a :: "(bytes \<Rightarrow> bytes) \<Rightarrow> nat \<Rightarrow> u_int list \<Rightarrow> bytes option" where
  "str_n64a strrevers n num = do { str \<leftarrow> n64a_loop n (take n num) []; Some (strrevers str) }"

text \<open>The result is the position the C code returns, as the rest of the string there, and the
  number.\<close>

fun a64n_loop :: "nat \<Rightarrow> bytes \<Rightarrow> u_int list \<Rightarrow> bytes \<times> u_int list" where
  "a64n_loop n [] num = ([], num)"
| "a64n_loop n (c # p) num =
     (let tmp = a64n c in
      if tmp < 0 then (c # p, num)
      else let (num, over) = lshift n num 6 in
        if over \<noteq> 0
        then let num = fst (rshift n num 6)
             in (c # p, num[n - 1 := num ! (n - 1) OR push_bit (32 - 6) over])
        else a64n_loop n p (num[0 := num ! 0 OR of_int tmp]))"

definition str_a64n :: "int \<Rightarrow> bytes \<Rightarrow> u_int list \<Rightarrow> bytes \<times> u_int list" where
  "str_a64n n str num =
     (if n \<le> 0 then (str, num) else a64n_loop (nat n) str (n_zero (nat n)))"

section \<open>Numbers as bytes, high byte first\<close>

definition load_word :: "bytes \<Rightarrow> u_int" where
  "load_word bs = fold (\<lambda>b up. push_bit 8 up + (ucast b AND 255)) bs 0"

definition byte2n :: "nat \<Rightarrow> bytes \<Rightarrow> u_int list" where
  "byte2n n bytestr = rev (map (\<lambda>i. load_word (take 4 (drop (4 * i) bytestr))) [0..<n])"

definition word_byte :: "u_int \<Rightarrow> nat \<Rightarrow> byte" where
  "word_byte up j = ucast (drop_bit (j * 8) up AND 255)"

definition n2byte :: "nat \<Rightarrow> u_int list \<Rightarrow> bytes" where
  "n2byte n num = concat (map (\<lambda>i. map (word_byte (num ! (n - 1 - i))) [3, 2, 1, 0]) [0..<n])"

section \<open>Numbers in base 10\<close>

definition d_to_b_step :: "nat \<Rightarrow> byte \<Rightarrow> u_int list \<Rightarrow> u_int list" where
  "d_to_b_step n p dp =
     (let tmp = mul1 n dp 10; dp = numcpy n dp tmp;
          num = (n_zero n)[0 := of_int ((sint p - 48) smod 10)]
      in fst (addm n dp num))"

definition d_to_b :: "nat \<Rightarrow> bytes \<Rightarrow> u_int list" where
  "d_to_b n cp = fold (d_to_b_step n) cp (n_zero n)"

partial_function (option) b_to_d_loop ::
    "nat \<Rightarrow> u_int list \<Rightarrow> u_int list \<Rightarrow> bytes \<Rightarrow> bytes option" where
  "b_to_d_loop n ip0 ip1 cp =
     (if numcmp n ip0 (n_zero n) = 0 then Some cp
      else let (ip1, num) = div1 n ip0 10 ip1 in b_to_d_loop n ip1 ip0 (cp @ [ucast (num + 48)]))"

definition b_to_d :: "(bytes \<Rightarrow> bytes) \<Rightarrow> nat \<Rightarrow> u_int list \<Rightarrow> u_int list \<Rightarrow> bytes option" where
  "b_to_d strrevers n pb rem =
     do { cp \<leftarrow> b_to_d_loop n (take n pb) rem [];
          Some (strrevers (if cp = [] then [48] else cp)) }"

section \<open>Byte strings in base 64\<close>

definition load3 :: "byte \<Rightarrow> byte \<Rightarrow> byte \<Rightarrow> u_int" where
  "load3 a b c =
     (let l = ucast a AND 255; l = push_bit 8 l; l = l OR (ucast b AND 255);
          l = push_bit 8 l in l OR (ucast c AND 255))"

definition put4 :: "u_int \<Rightarrow> bytes" where
  "put4 l = [n64a (drop_bit 18 l AND 63), n64a (drop_bit 12 l AND 63), n64a (drop_bit 6 l AND 63),
             n64a (l AND 63)]"

fun byte_a64 :: "bytes \<Rightarrow> bytes" where
  "byte_a64 (a # b # c # bp) = put4 (load3 a b c) @ byte_a64 bp"
| "byte_a64 [a, b] =
     (let l = ucast a AND 255; l = push_bit 8 l; l = l OR (ucast b AND 255); l = push_bit 2 l
      in [n64a (drop_bit 12 l AND 63), n64a (drop_bit 6 l AND 63), n64a (l AND 63), tab64 ! 64])"
| "byte_a64 [a] =
     (let l = ucast a AND 255; l = push_bit 4 l
      in [n64a (drop_bit 6 l AND 63), n64a (l AND 63), tab64 ! 64, tab64 ! 64])"
| "byte_a64 [] = []"

text \<open>\<open>p\<close> is the string from the read position on, its terminator included; \<open>k\<close> counts the
  characters left by the loop counter.  The result is the output, the last group and the
  position.\<close>

definition getc :: "bytes \<Rightarrow> (byte \<times> bytes) option" where
  "getc p = (case p of [] \<Rightarrow> None | c # p \<Rightarrow> Some (c, p))"

fun a64_loop :: "nat \<Rightarrow> bytes \<Rightarrow> u_int \<Rightarrow> bytes \<Rightarrow> (bytes \<times> u_int \<times> bytes) option" where
  "a64_loop k p l bp =
     (if k = 0 then Some (bp, l, p)
      else do {
        (c, p) \<leftarrow> getc p;
        let l = of_int (a64n c);
        let l = push_bit 6 l;
        (c, p) \<leftarrow> getc p;
        let l = l OR of_int (a64n c);
        (c, p') \<leftarrow> getc p;
        if c = tab64 ! 64 then Some (bp, l, p)
        else do {
          let l = push_bit 6 l;
          let l = l OR of_int (a64n c);
          let p = p';
          (c, p') \<leftarrow> getc p;
          if c = tab64 ! 64 then Some (bp, l, p)
          else do {
            let l = push_bit 6 l;
            let l = l OR of_int (a64n c);
            a64_loop (k - 4) p' l
              (bp @ [ucast (drop_bit 16 l), ucast (drop_bit 8 l AND 255), ucast (l AND 255)]) } } })"

declare a64_loop.simps [simp del]

definition a64_byte :: "bytes \<Rightarrow> bytes option" where
  "a64_byte str =
     do {
       (bp, l, p) \<leftarrow> a64_loop (length str) (str @ [0]) 0 [];
       (if p = [] then None
        else if length p - 1 = 1
        then let l = drop_bit 2 l in Some (bp @ [ucast (drop_bit 8 l AND 255), ucast (l AND 255)])
        else if length p - 1 = 2 then let l = drop_bit 4 l in Some (bp @ [ucast (l AND 255)])
        else Some bp) }"


section \<open>Byte strings\<close>

lemma tab64_bytes: "tab64 = [48,49,50,51,52,53,54,55,56,57,65,66,67,68,69,70,71,72,73,74,75,76,77,78,79,80,
  81,82,83,84,85,86,87,88,89,90,97,98,99,100,101,102,103,104,105,106,107,108,109,110,111,112,113,114,
  115,116,117,118,119,120,121,122,95,126,64]"
  by (simp add: tab64_def of_char_def)

lemma digit_values: "map a64n (take 64 tab64) = map int [0..<64]"
  by (simp add: tab64_bytes a64n_def upt_rec)

lemma tab64_chars: "\<forall>c\<in>set (take 64 tab64). c \<noteq> 0 \<and> c \<noteq> tab64 ! 64"
  by (simp add: tab64_bytes)

lemma length_tab64: "length tab64 = 65"
  by (simp add: tab64_bytes)

lemma digit_index: "unat ((n :: u_int) AND 63) < 64"
proof -
  have "n AND 63 \<le> 63" by (rule word_and_le1)
  then show ?thesis by (simp add: word_le_nat_alt)
qed

lemma a64n_n64a [simp]: "a64n (n64a n) = uint (n AND 63)"
proof -
  let ?i = "unat (n AND 63)"
  have "map a64n (take 64 tab64) ! ?i = map int [0..<64] ! ?i" unfolding digit_values ..
  then show ?thesis using digit_index [of n] by (simp add: n64a_def length_tab64)
qed

lemma n64a_char [simp]: "n64a n \<noteq> 0" "n64a n \<noteq> tab64 ! 64"
proof -
  have "n64a n \<in> set (take 64 tab64)" using digit_index [of n]
    by (auto simp: n64a_def in_set_conv_nth length_tab64 intro!: exI [of _ "unat (n AND 63)"])
  then show "n64a n \<noteq> 0" "n64a n \<noteq> tab64 ! 64" using tab64_chars by auto
qed

lemma getc_Cons [simp]: "getc (c # p) = Some (c, p)"
  by (simp add: getc_def)

lemma bit_masks: "(63 :: u_int) = mask 6" "(0xFFFFFF :: u_int) = mask 24" "(255 :: u_int) = mask 8"
  by (simp_all add: mask_eq_exp_minus_1)

lemma from_bit: "k \<le> n \<and> bit l (k + (n - k)) \<and> Q \<longleftrightarrow> k \<le> n \<and> bit l n \<and> Q"
  by auto

lemma regroup:
  fixes l :: u_int
  shows "push_bit 6 (push_bit 6 (push_bit 6 (drop_bit 18 l AND 63) OR (drop_bit 12 l AND 63)) OR
     (drop_bit 6 l AND 63)) OR (l AND 63) = l AND 0xFFFFFF"
  unfolding bit_masks by (rule bit_word_eqI) (simp add: bit_simps from_bit, auto)

lemma regroup2:
  fixes l :: u_int
  shows "drop_bit 2 (push_bit 6 (push_bit 6 (drop_bit 12 l AND 63) OR (drop_bit 6 l AND 63)) OR (l AND 63)) =
    drop_bit 2 l AND 0xFFFF"
proof -
  have m: "(0xFFFF :: u_int) = mask 16" by (simp add: mask_eq_exp_minus_1)
  show ?thesis
  proof (rule bit_word_eqI)
    fix n :: nat
    show "bit (drop_bit 2 (push_bit 6 (push_bit 6 (drop_bit 12 l AND 63) OR (drop_bit 6 l AND 63)) OR (l AND 63))) n =
        bit (drop_bit 2 l AND 0xFFFF) n"
    proof (cases "n < 10")
      case False
      then obtain k where "n = 10 + k" by (metis le_add_diff_inverse not_less)
      then show ?thesis unfolding bit_masks m by (simp add: bit_simps from_bit) auto
    qed (unfold bit_masks m, simp add: bit_simps from_bit, auto)
  qed
qed

lemma regroup1:
  fixes l :: u_int
  shows "drop_bit 4 (push_bit 6 (drop_bit 6 l AND 63) OR (l AND 63)) = drop_bit 4 l AND 255"
  unfolding bit_masks by (rule bit_word_eqI) (simp add: bit_simps from_bit, auto)

lemma load3_bytes:
  "ucast (drop_bit 16 (load3 a b c AND 0xFFFFFF)) = a"
  "ucast (drop_bit 8 (load3 a b c AND 0xFFFFFF) AND 255) = b"
  "ucast ((load3 a b c AND 0xFFFFFF) AND 255) = c"
  unfolding load3_def Let_def bit_masks
  by (rule bit_word_eqI; simp add: bit_simps from_bit; auto simp: bit_simps)+


lemma pair_bytes:
  fixes a b :: byte
  defines "l \<equiv> drop_bit 2 (push_bit 2 (push_bit 8 (ucast a AND 255) OR (ucast b AND 255)) :: u_int) AND 0xFFFF"
  shows "ucast (drop_bit 8 l AND 255) = a" "ucast (l AND 255) = b"
proof -
  have m: "(0xFFFF :: u_int) = mask 16" by (simp add: mask_eq_exp_minus_1)
  show "ucast (drop_bit 8 l AND 255) = a" "ucast (l AND 255) = b"
    unfolding l_def bit_masks m
    by (rule bit_word_eqI; simp add: bit_simps from_bit; auto simp: bit_simps)+
qed

lemma last_byte:
  fixes a :: byte
  shows "ucast ((drop_bit 4 (push_bit 4 (ucast a AND 255) :: u_int) AND 255) AND 255) = a"
  unfolding bit_masks by (rule bit_word_eqI; simp add: bit_simps from_bit; auto simp: bit_simps)

lemma byte_a64_nonzero: "\<forall>c\<in>set (byte_a64 bs). c \<noteq> 0"
  by (induction bs rule: byte_a64.induct)
    (auto simp: put4_def Let_def, simp_all add: tab64_bytes)

lemma length_byte_a64: "length (byte_a64 bs) = 4 * ((length bs + 2) div 3)"
proof (induction bs rule: byte_a64.induct)
  case (1 a b c bs)
  have "(length (a # b # c # bs) + 2) div 3 = Suc ((length bs + 2) div 3)" by simp
  then show ?case using 1 by (simp add: put4_def)
qed (simp_all add: Let_def)

lemma a64_loop_four:
  assumes "c3 \<noteq> tab64 ! 64" "c4 \<noteq> tab64 ! 64" "4 \<le> k"
  shows "a64_loop k (c1 # c2 # c3 # c4 # p) l0 bp =
    (let l = push_bit 6 (push_bit 6 (push_bit 6 (of_int (a64n c1)) OR of_int (a64n c2)) OR
               of_int (a64n c3)) OR of_int (a64n c4)
     in a64_loop (k - 4) p l
          (bp @ [ucast (drop_bit 16 l), ucast (drop_bit 8 l AND 255), ucast (l AND 255)]))"
  using assms by (subst a64_loop.simps) (simp add: Let_def)

lemma a64_loop_three:
  assumes "c3 \<noteq> tab64 ! 64" "0 < k"
  shows "a64_loop k (c1 # c2 # c3 # tab64 ! 64 # p) l0 bp =
    Some (bp, push_bit 6 (push_bit 6 (of_int (a64n c1)) OR of_int (a64n c2)) OR of_int (a64n c3), tab64 ! 64 # p)"
  using assms by (subst a64_loop.simps) (simp add: Let_def)

lemma a64_loop_two:
  assumes "0 < k"
  shows "a64_loop k (c1 # c2 # tab64 ! 64 # p) l0 bp =
    Some (bp, push_bit 6 (of_int (a64n c1)) OR of_int (a64n c2), tab64 ! 64 # p)"
  using assms by (subst a64_loop.simps) (simp add: Let_def)

lemma digit_word: "of_int (a64n (n64a (l AND 63))) = l AND 63"
  by (simp add: and.assoc)

lemma a64_loop_group:
  assumes "4 \<le> k"
  shows "a64_loop k (put4 l @ p) l0 bp =
    a64_loop (k - 4) p (l AND 0xFFFFFF) (bp @ [ucast (drop_bit 16 (l AND 0xFFFFFF)),
      ucast (drop_bit 8 (l AND 0xFFFFFF) AND 255), ucast ((l AND 0xFFFFFF) AND 255)])"
  unfolding put4_def append.simps a64_loop_four [OF n64a_char(2) n64a_char(2) assms] digit_word regroup
  by (simp only: Let_def)

definition a64_end :: "bytes \<times> u_int \<times> bytes \<Rightarrow> bytes option" where
  "a64_end = (\<lambda>(bp, l, p).
     if p = [] then None
     else if length p - 1 = 1
     then let l = drop_bit 2 l in Some (bp @ [ucast (drop_bit 8 l AND 255), ucast (l AND 255)])
     else if length p - 1 = 2 then let l = drop_bit 4 l in Some (bp @ [ucast (l AND 255)])
     else Some bp)"

lemma a64_end_two:
  "a64_end (bp, l, [c, 0]) =
     Some (bp @ [ucast (drop_bit 8 (drop_bit 2 l) AND 255), ucast (drop_bit 2 l AND 255)])"
  by (simp add: a64_end_def Let_def)

lemma a64_end_one: "a64_end (bp, l, [c, d, 0]) = Some (bp @ [ucast (drop_bit 4 l AND 255)])"
  by (simp add: a64_end_def Let_def)

lemma a64_loop_byte_a64:
  "Option.bind (a64_loop (length (byte_a64 bs)) (byte_a64 bs @ [0]) l bp) a64_end = Some (bp @ bs)"
proof (induction bs arbitrary: l bp rule: byte_a64.induct)
  case (1 a b c bs)
  have len: "length (put4 x @ xs) = 4 + length xs" for x xs by (simp add: put4_def)
  show ?case using 1 [of "load3 a b c AND 0xFFFFFF" "bp @ [a, b, c]"]
    by (simp only: byte_a64.simps len append_assoc a64_loop_group [OF le_add1] load3_bytes
      add_diff_cancel_left' append.simps)
next
  case (2 a b)
  have "0 < length (byte_a64 [a, b])" by (simp add: Let_def)
  then show ?case unfolding byte_a64.simps Let_def append.simps
    by (simp only: a64_loop_three [OF n64a_char(2)] digit_word bind.simps a64_end_two regroup2 pair_bytes)
next
  case (3 a)
  have "0 < length (byte_a64 [a])" by (simp add: Let_def)
  then show ?case unfolding byte_a64.simps Let_def append.simps
    by (simp only: a64_loop_two digit_word bind.simps a64_end_one regroup1 last_byte)
next
  case 4
  then show ?case by (subst a64_loop.simps) (simp add: a64_end_def)
qed

lemma a64_byte_byte_a64: "a64_byte (byte_a64 bs) = Some bs"
  using a64_loop_byte_a64 [of bs 0 "[]"] by (simp add: a64_byte_def a64_end_def)

section \<open>Positional notation\<close>

fun digits :: "nat \<Rightarrow> nat \<Rightarrow> nat list" where
  "digits b v = (if v = 0 \<or> b < 2 then [] else v mod b # digits b (v div b))"

declare digits.simps [simp del]

lemma digits_0 [simp]: "digits b 0 = []"
  by (simp add: digits.simps)

lemma digits_pos: "0 < v \<Longrightarrow> 1 < b \<Longrightarrow> digits b v = v mod b # digits b (v div b)"
  by (simp add: digits.simps)

definition undigits :: "nat \<Rightarrow> nat list \<Rightarrow> nat \<Rightarrow> nat" where
  "undigits b ds v = fold (\<lambda>d v. b * v + d) ds v"

lemma undigits_simps [simp]:
  "undigits b [] v = v" "undigits b (d # ds) v = undigits b ds (b * v + d)"
  "undigits b (ds @ es) v = undigits b es (undigits b ds v)"
  by (simp_all add: undigits_def)

lemma undigits_digits: "1 < b \<Longrightarrow> undigits b (rev (digits b v)) 0 = v"
  by (induction b v rule: digits.induct) (subst digits.simps, auto)

lemma digits_less: "d \<in> set (digits b v) \<Longrightarrow> d < b"
proof (induction b v rule: digits.induct)
  case (1 b v)
  then show ?case by (cases "v = 0 \<or> b < 2") (auto simp: digits.simps [of b v])
qed

lemma undigits_mono: "0 < b \<Longrightarrow> v \<le> undigits b ds v"
proof (induction ds arbitrary: v)
  case (Cons d ds)
  have "v \<le> b * v + d" using Cons.prems by (simp add: trans_le_add1)
  also have "\<dots> \<le> undigits b ds (b * v + d)" using Cons by simp
  finally show ?case by simp
qed simp

lemma low_word_mod:
  assumes "ws \<noteq> []"
  shows "unat (ws ! 0) mod 64 = val ws mod 64"
proof (cases ws)
  case (Cons w us)
  have "64 dvd B * val us" by (rule dvd_mult2) (simp add: B_def)
  then have "(unat w + B * val us) mod 64 = unat w mod 64" by (metis add_0_right dvd_imp_mod_0 mod_add_right_eq)
  then show ?thesis using Cons by simp
qed (use assms in simp)

definition digit64 :: "nat \<Rightarrow> byte" where
  "digit64 d = n64a (of_nat d)"

lemma n64a_unat: "n64a w = digit64 (unat w mod 64)"
proof -
  have "unat (take_bit 6 w) = unat w mod 64"
    using unsigned_take_bit_eq [of 6 w, where 'a = nat] by (simp add: take_bit_eq_mod)
  then have "of_nat (unat (take_bit 6 w)) = (of_nat (unat w mod 64) :: u_int)" by simp
  then have "take_bit 6 w = of_nat (unat w mod 64)" by simp
  then have "w AND 63 = of_nat (unat w mod 64) AND 63"
    unfolding bit_masks take_bit_eq_mask [symmetric] by (metis take_bit_take_bit min.idem)
  then show ?thesis by (simp add: digit64_def n64a_def)
qed

lemma unat_digit: "d < 64 \<Longrightarrow> unat (of_nat d :: u_int) = d"
  by (simp add: unsigned_of_nat take_bit_eq_mod)

lemma take_digit:
  assumes "d < 64"
  shows "take_bit 6 (of_nat d :: u_int) = of_nat d"
proof -
  have "unat (take_bit 6 (of_nat d :: u_int)) = take_bit 6 (unat (of_nat d :: u_int))"
    by (rule unsigned_take_bit_eq)
  also have "\<dots> = unat (of_nat d :: u_int)" unfolding unat_digit [OF assms] using assms
    by (simp add: take_bit_nat_eq_self)
  finally show ?thesis by (rule unsigned_word_eqI)
qed

lemma a64n_digit64: "d < 64 \<Longrightarrow> a64n (digit64 d) = int d"
proof -
  assume d: "d < 64"
  have "of_nat d AND (63 :: u_int) = of_nat d"
    unfolding bit_masks take_bit_eq_mask [symmetric] by (rule take_digit [OF d])
  then have "a64n (digit64 d) = uint (of_nat d :: u_int)" unfolding digit64_def a64n_n64a by simp
  also have "\<dots> = int (unat (of_nat d :: u_int))" by (rule uint_nat)
  finally show ?thesis unfolding unat_digit [OF d] .
qed

lemma n64a_loop_digits:
  "length num = n \<Longrightarrow> n64a_loop n num p = Some (p @ map digit64 (digits 64 (val num)))"
proof (induction "val num" arbitrary: num p rule: less_induct)
  case less
  have iz: "n_iszero n num \<longleftrightarrow> val num = 0" using n_iszero_spec [of n num] less.prems by simp
  show ?case
  proof (cases "val num = 0")
    case True
    then show ?thesis using iz by (subst n64a_loop.simps) simp
  next
    case False
    obtain m r where m: "rshift n num 6 = (m, r)" by fastforce
    have v: "length m = n" "val m = val num div 64"
      using rshift_spec [of 6 num n] less.prems m by auto
    have ne: "num \<noteq> []" using False by auto
    have "r = drop_bit 26 (push_bit 26 (num ! 0))" using m by (simp add: rshift_def)
    then have "r = num ! 0 AND 63" unfolding bit_masks
      by (intro bit_word_eqI) (auto simp: bit_simps)
    then have "n64a r = n64a (num ! 0)" by (simp add: n64a_def and.assoc)
    then have d: "n64a r = digit64 (val num mod 64)" using low_word_mod [OF ne] by (simp add: n64a_unat)
    have "n64a_loop n m (p @ [n64a r]) = Some ((p @ [n64a r]) @ map digit64 (digits 64 (val m)))"
      using less.hyps [of m] v False by simp
    then show ?thesis using iz False m d v
      by (subst n64a_loop.simps) (simp add: digits_pos)
  qed
qed

lemma or_low_digit:
  assumes "unat (w :: u_int) mod 64 = 0" "d < 64"
  shows "unat (w OR of_nat d) = unat w + d"
proof -
  have "unat (take_bit 6 w) = 0" using assms(1) unsigned_take_bit_eq [of 6 w, where 'a = nat]
    by (simp add: take_bit_eq_mod)
  then have "take_bit 6 w = 0" by (simp only: unsigned_eq_0_iff)
  then have m: "w AND mask 6 = 0" by (simp only: take_bit_eq_mask)
  have "of_nat d AND mask 6 = (of_nat d :: u_int)"
    using take_digit [OF assms(2)] by (simp only: take_bit_eq_mask)
  then have "w AND of_nat d = w AND (of_nat d AND mask 6)" by (simp only:)
  also have "\<dots> = (w AND mask 6) AND of_nat d" by (simp only: ac_simps)
  also have "\<dots> = 0" by (simp only: m and_zero_eq zero_and_eq)
  finally have "w AND of_nat d = 0" .
  then have e: "w OR of_nat d = w + of_nat d" using word_plus_and_or [of w "of_nat d"] by simp
  obtain q where q: "unat w = 64 * q" using assms(1) by auto
  then have "64 * q < 4294967296" using unat_B [of w] by (simp add: B_def)
  then have "unat w + d < 2 ^ 32" using assms(2) q by simp
  then show ?thesis unfolding e unat_word_ariths unat_digit [OF assms(2)] by simp
qed

lemma lshift_fits:
  assumes "length num = n" "0 < n" "64 * val num < B ^ n" "lshift n num 6 = (m, over)"
  shows "length m = n \<and> val m = 64 * val num \<and> over = 0"
proof -
  have l: "length m = n" "val m + unat over * B ^ n = val num * 64"
    using lshift_spec [of 6 num n] assms by auto
  have "unat over = 0"
  proof (rule ccontr)
    assume "unat over \<noteq> 0"
    then have "1 * B ^ n \<le> unat over * B ^ n" by (intro mult_le_mono1) simp
    then show False using l(2) assms(3) by linarith
  qed
  then show ?thesis using l by (simp add: unsigned_eq_0_iff)
qed

lemma a64n_loop_digits:
  assumes "0 < n"
  shows "length num = n \<Longrightarrow> \<forall>d\<in>set ds. d < 64 \<Longrightarrow> undigits 64 ds (val num) < B ^ n \<Longrightarrow>
    \<exists>m. a64n_loop n (map digit64 ds) num = ([], m) \<and> length m = n \<and> val m = undigits 64 ds (val num)"
proof (induction ds arbitrary: num)
  case (Cons d ds)
  obtain m over where m: "lshift n num 6 = (m, over)" by fastforce
  have "64 * val num + d < B ^ n"
    using undigits_mono [of 64 "64 * val num + d" ds] Cons.prems(3) by simp
  then have s: "length m = n" "val m = 64 * val num" "over = 0"
    using lshift_fits [OF Cons.prems(1) assms _ m] by auto
  have ne: "m \<noteq> []" using s(1) assms by auto
  let ?m = "m[0 := m ! 0 OR of_nat d]"
  have "unat (m ! 0) mod 64 = 0" using low_word_mod [OF ne] s(2) by simp
  from or_low_digit [OF this, of d] Cons.prems(2)
  have "unat (m ! 0 OR of_nat d) = unat (m ! 0) + d" by simp
  then have v: "val ?m = 64 * val num + d"
    using val_update [of 0 m "m ! 0 OR of_nat d"] s ne by (simp add: assms)
  then obtain m' where "a64n_loop n (map digit64 ds) ?m = ([], m')" "length m' = n"
      "val m' = undigits 64 ds (val ?m)"
    using Cons.IH [of ?m] s(1) Cons.prems(2,3) by auto
  then show ?case using m s(3) v a64n_digit64 [of d] Cons.prems(2) by simp
qed simp

lemma str_number_round_trip:
  assumes "length num = n" "0 < n" "\<And>s. strrevers s = rev s"
  shows "\<exists>s. str_n64a strrevers n num = Some s \<and> str_a64n (int n) s num0 = ([], num)"
proof -
  let ?ds = "rev (digits 64 (val num))"
  have s: "str_n64a strrevers n num = Some (map digit64 ?ds)"
    using n64a_loop_digits [OF assms(1), of "[]"] assms(1,3) by (simp add: str_n64a_def rev_map)
  have u: "undigits 64 ?ds 0 = val num" by (rule undigits_digits) simp
  obtain m where "a64n_loop n (map digit64 ?ds) (n_zero n) = ([], m)" "length m = n" "val m = val num"
    using a64n_loop_digits [OF assms(2), of "n_zero n" ?ds] u val_less [of num] assms(1)
    by (auto dest: digits_less)
  then show ?thesis using s assms val_inj [of m num] by (simp add: str_a64n_def)
qed

lemma str_a64n_stops:
  assumes "length num = n" "0 < n" "0 \<le> a64n c" "B ^ n \<le> 64 * val num"
  shows "a64n_loop n (c # p) num = (c # p, num)"
proof -
  obtain m over where m: "lshift n num 6 = (m, over)" by fastforce
  have l: "length m = n" "val m + unat over * B ^ n = val num * 64"
    using lshift_spec [of 6 num n] assms m by auto
  have "val m < B ^ n" using val_less [of m] l(1) by simp
  then have ov: "over \<noteq> 0" using l(2) assms(4) by auto
  let ?r = "fst (rshift n m 6)"
  have r: "length ?r = n" "val ?r = val m div 64" using rshift_spec [of 6 m n] l(1) by auto
  obtain k where k: "n = Suc k" using assms(2) by (cases n) auto
  have Bn: "B ^ n = 64 * (67108864 * B ^ k)" by (simp add: k B_def)
  have o64: "unat over < 64"
  proof (rule ccontr)
    assume "\<not> unat over < 64"
    then have "64 * B ^ n \<le> unat over * B ^ n" by (intro mult_le_mono1) simp
    then show False using l(2) val_less [of num] unfolding assms(1) by linarith
  qed
  have v: "val num = val m div 64 + unat over * (67108864 * B ^ k)"
  proof -
    have "val num = (val m + 64 * (unat over * (67108864 * B ^ k))) div 64"
      using l(2) unfolding Bn by (simp add: ac_simps)
    then show ?thesis by simp
  qed
  have "unat (?r ! k) * B ^ k \<le> val ?r" using val_take_Suc [of k ?r] r(1) k by simp
  also have "val ?r < 67108864 * B ^ k"
  proof -
    have "val m < 64 * (67108864 * B ^ k)" using \<open>val m < B ^ n\<close> unfolding Bn .
    then show ?thesis unfolding r(2) by (simp add: less_mult_imp_div_less mult.commute)
  qed
  finally have top: "unat (?r ! k) < 2 ^ 26" by simp
  have pu: "unat (push_bit 26 over) = unat over * 2 ^ 26"
    unfolding unsigned_push_bit_eq using o64 by (simp add: take_bit_eq_mod push_bit_eq_mult)
  have "take_bit 26 (unat (?r ! k)) = unat (?r ! k)" using top by (simp add: take_bit_nat_eq_self)
  then have "unat (take_bit 26 (?r ! k)) = unat (?r ! k)" unfolding unsigned_take_bit_eq .
  then have "take_bit 26 (?r ! k) = ?r ! k" by (rule unsigned_word_eqI)
  then have "?r ! k AND push_bit 26 over = take_bit 26 (?r ! k) AND push_bit 26 over" by simp
  also have "\<dots> = 0" by (rule bit_word_eqI) (auto simp: bit_simps)
  finally have e: "?r ! k OR push_bit 26 over = ?r ! k + push_bit 26 over"
    using word_plus_and_or [of "?r ! k" "push_bit 26 over"] by simp
  have "unat (?r ! k OR push_bit 26 over) = unat (?r ! k) + unat over * 2 ^ 26"
    unfolding e unat_word_ariths pu using top o64 by simp
  then have "val (?r[k := ?r ! k OR push_bit 26 over]) = val ?r + unat over * 2 ^ 26 * B ^ k"
    using val_update [of k ?r "?r ! k OR push_bit 26 over"] r(1) k by (simp add: distrib_right)
  then have "val (?r[k := ?r ! k OR push_bit 26 over]) = val num" using v r(2) by simp
  then have "?r[k := ?r ! k OR push_bit 26 over] = num" using r(1) assms(1) by (intro val_inj) auto
  then show ?thesis using m ov assms(3) k by simp
qed

section \<open>Decimal numbers\<close>

definition digit10 :: "nat \<Rightarrow> byte" where
  "digit10 d = of_nat (d + 48)"

lemma b_to_d_loop_digits:
  "length ip0 = n \<Longrightarrow> length ip1 = n \<Longrightarrow>
     b_to_d_loop n ip0 ip1 cp = Some (cp @ map digit10 (digits 10 (val ip0)))"
proof (induction "val ip0" arbitrary: ip0 ip1 cp rule: less_induct)
  case less
  have z: "numcmp n ip0 (n_zero n) = 0 \<longleftrightarrow> val ip0 = 0"
    using numcmp_spec [of n ip0 "n_zero n"] less.prems by simp
  show ?case
  proof (cases "val ip0 = 0")
    case True
    then show ?thesis using z by (subst b_to_d_loop.simps) simp
  next
    case False
    obtain q r where q: "div1 n ip0 10 ip1 = (q, r)" by fastforce
    have "div1_loop n ip0 10 ip1 0 = (q, r)" using q by (simp add: div1_def)
    from div1_loop_spec [OF _ _ _ _ this] have len: "length q = n" using less.prems by simp
    have v: "val q = val ip0 div 10" "unat r = val ip0 mod 10"
      using div1_spec [of 10 n ip0 ip1 q r] q less.prems len by simp_all
    have "unat r < 10" using v(2) by simp
    then have "unat (r + 48) = unat r + 48" by (simp add: unat_word_ariths)
    then have "digit10 (unat r) = of_nat (unat (r + 48))" by (simp add: digit10_def)
    also have "\<dots> = ucast (r + 48)" by (rule of_nat_unat)
    finally have "digit10 (unat r) = ucast (r + 48)" .
    then have d: "ucast (r + 48) = digit10 (val ip0 mod 10)" using v(2) by simp
    have "b_to_d_loop n q ip0 (cp @ [ucast (r + 48)]) =
        Some ((cp @ [ucast (r + 48)]) @ map digit10 (digits 10 (val q)))"
      using less.hyps [of q ip0] v False less.prems len by simp
    then show ?thesis using z False q d v
      by (subst b_to_d_loop.simps) (simp add: digits_pos)
  qed
qed

lemma digit10_value: "d < 10 \<Longrightarrow> of_int ((sint (digit10 d) - 48) smod 10) = (of_nat d :: u_int)"
proof -
  have "\<forall>d\<in>set [0..<10]. of_int ((sint (digit10 d) - 48) smod 10) = (of_nat d :: u_int)" by code_simp
  then show "d < 10 \<Longrightarrow> ?thesis" by simp
qed

lemma d_to_b_step_digit:
  assumes "length dp = n" "0 < n" "d < 10" "10 * val dp + d < B ^ n"
  shows "length (d_to_b_step n (digit10 d) dp) = n \<and> val (d_to_b_step n (digit10 d) dp) = 10 * val dp + d"
proof -
  let ?t = "mul1 n dp 10" let ?dp = "numcpy n dp ?t" let ?num = "(n_zero n)[0 := of_nat d]"
  have t: "length ?t = n + 1" "val ?t = val dp * 10" using mul1_spec [of n dp 10] assms(1) by auto
  have dp: "?dp = take n ?t" using assms(1) by (simp add: numcpy_def)
  have "val ?t = val (take n ?t) + B ^ n * val (drop n ?t)" using t(1) by (intro val_split) simp
  moreover have "val (drop n ?t) = 0" unfolding val_drop t(2) using assms(4) by simp
  ultimately have v: "val ?dp = 10 * val dp" using dp t(2) by simp
  have num: "length ?num = n" "val ?num = d"
    using val_update [of 0 "n_zero n" "of_nat d"] assms(2,3)
    by (simp_all add: n_zero_def unsigned_of_nat take_bit_eq_mod)
  obtain s c where s: "addm n ?dp ?num = (s, c)" by fastforce
  have a: "length s = n" "val s + unat c * B ^ n = val ?dp + val ?num"
    using addm_spec [OF s] dp t(1) num(1) by (auto simp: val_whole)
  have "unat c = 0"
  proof (rule ccontr)
    assume "unat c \<noteq> 0"
    then have "1 * B ^ n \<le> unat c * B ^ n" by (intro mult_le_mono1) simp
    then show False using a(2) v num(2) assms(4) by linarith
  qed
  then show ?thesis using a v num(2) s
    by (simp add: d_to_b_step_def Let_def digit10_value [OF assms(3)])
qed

lemma d_to_b_digits:
  assumes "0 < n"
  shows "length dp = n \<Longrightarrow> \<forall>d\<in>set ds. d < 10 \<Longrightarrow> undigits 10 ds (val dp) < B ^ n \<Longrightarrow>
    length (fold (d_to_b_step n) (map digit10 ds) dp) = n \<and>
    val (fold (d_to_b_step n) (map digit10 ds) dp) = undigits 10 ds (val dp)"
proof (induction ds arbitrary: dp)
  case (Cons d ds)
  have "10 * val dp + d < B ^ n"
    using undigits_mono [of 10 "10 * val dp + d" ds] Cons.prems(3) by simp
  then show ?case using d_to_b_step_digit [of dp n d] Cons assms by simp
qed simp

lemma decimal_round_trip:
  assumes "length num = n" "0 < n" "length rem = n" "\<And>s. strrevers s = rev s"
  shows "\<exists>s. b_to_d strrevers n num rem = Some s \<and> d_to_b n s = num"
proof -
  let ?ds = "if val num = 0 then [0] else rev (digits 10 (val num))"
  have ne: "digits 10 (val num) = [] \<longleftrightarrow> val num = 0" by (cases "val num = 0") (auto simp: digits_pos)
  have s: "b_to_d strrevers n num rem = Some (map digit10 ?ds)"
    using b_to_d_loop_digits [of num n rem "[]"] assms ne
    by (simp add: b_to_d_def rev_map digit10_def)
  have u: "undigits 10 ?ds 0 = val num" using undigits_digits [of 10 "val num"] by simp
  have "\<forall>d\<in>set ?ds. d < 10" by (auto dest: digits_less)
  then have "length (d_to_b n (map digit10 ?ds)) = n" "val (d_to_b n (map digit10 ?ds)) = val num"
    using d_to_b_digits [OF assms(2), of "n_zero n" ?ds] u val_less [of num] assms(1)
    unfolding d_to_b_def by auto
  then show ?thesis using s val_inj [of _ num] assms(1) by blast
qed

section \<open>Words\<close>

lemma append_byte: "push_bit 8 up + (x AND 255) = push_bit 8 up OR (x AND 255 :: u_int)"
proof -
  have "push_bit 8 up AND (x AND 255) = 0" unfolding bit_masks
    by (rule bit_word_eqI) (auto simp: bit_simps)
  then show ?thesis using word_plus_and_or [of "push_bit 8 up" "x AND 255"] by simp
qed

lemma load_word_or: "load_word [a, b, c, d] =
    push_bit 24 (ucast a) OR push_bit 16 (ucast b) OR push_bit 8 (ucast c) OR ucast d"
  unfolding load_word_def fold.simps comp_apply id_apply append_byte
  unfolding bit_masks by (rule bit_word_eqI) (auto simp: bit_simps dest: bit_imp_le_length)

lemma load_word_bytes: "load_word (map (word_byte w) [3, 2, 1, 0]) = w"
proof (rule bit_word_eqI)
  fix n :: nat
  consider "n < 8" | k where "k < 8" "n = 8 + k" | k where "k < 8" "n = 16 + k"
    | k where "k < 8" "n = 24 + k" | "32 \<le> n"
    by (cases "n < 8"; cases "n < 16"; cases "n < 24"; cases "n < 32")
      (auto simp: not_less dest!: le_Suc_ex)
  then show "bit (load_word (map (word_byte w) [3, 2, 1, 0])) n = bit w n"
    unfolding list.map load_word_or word_byte_def bit_masks
    by cases (simp_all add: bit_simps, auto dest: bit_imp_le_length)
qed

lemma word_byte_load:
  "map (word_byte (load_word [a, b, c, d])) [3, 2, 1, 0] = [a, b, c, d]"
  unfolding load_word_or word_byte_def bit_masks
  by (simp, intro conjI; rule bit_word_eqI; simp add: bit_simps from_bit; auto simp: bit_simps dest: bit_imp_le_length)


lemma length_n2byte: "length (n2byte n num) = 4 * n"
  by (simp add: n2byte_def length_concat comp_def sum_list_triv)

lemma n2byte_Suc:
  "n2byte (Suc n) num = map (word_byte (num ! n)) [3, 2, 1, 0] @ n2byte n num"
proof -
  have "[0..<Suc n] = 0 # map Suc [0..<n]" by (simp add: map_Suc_upt upt_conv_Cons del: upt_Suc)
  then show ?thesis by (simp add: n2byte_def comp_def del: upt_Suc)
qed

lemma byte2n_Suc:
  "byte2n (Suc n) s = byte2n n (drop 4 s) @ [load_word (take 4 s)]"
proof -
  have "[0..<Suc n] = 0 # map Suc [0..<n]" by (simp add: map_Suc_upt upt_conv_Cons del: upt_Suc)
  then show ?thesis by (simp add: byte2n_def comp_def ac_simps del: upt_Suc)
qed

lemma byte2n_n2byte: "length num = n \<Longrightarrow> byte2n n (n2byte n num @ rest) = num"
proof (induction n arbitrary: num)
  case (Suc n)
  then obtain ws w where num: "num = ws @ [w]" "length ws = n"
    by (metis length_Suc_conv_rev)
  have "n2byte n num = n2byte n ws" unfolding n2byte_def num
    by (intro arg_cong [where f = concat] map_cong refl) (auto simp: nth_append num(2))
  then have "byte2n n (n2byte n num @ rest) = ws" using Suc.IH [of ws] num by simp
  moreover have "load_word (map (word_byte w) [3, 2, 1, 0]) = w" by (rule load_word_bytes)
  ultimately show ?case using num unfolding n2byte_Suc byte2n_Suc by (simp add: nth_append)
qed (simp add: byte2n_def)

lemma length_byte2n [simp]: "length (byte2n n s) = n"
  by (simp add: byte2n_def)

lemma n2byte_byte2n: "4 * n \<le> length s \<Longrightarrow> n2byte n (byte2n n s) = take (4 * n) s"
proof (induction n arbitrary: s)
  case (Suc n)
  then obtain a b c d t where s: "s = a # b # c # d # t"
    by (cases s; cases "tl s"; cases "tl (tl s)"; cases "tl (tl (tl s))") auto
  have "n2byte n (byte2n n t @ [w]) = n2byte n (byte2n n t)" for w unfolding n2byte_def
    by (intro arg_cong [where f = concat] map_cong refl) (auto simp: nth_append)
  moreover have "4 + 4 * n = Suc (Suc (Suc (Suc (4 * n))))" by simp
  then have "take (4 + 4 * n) s = a # b # c # d # take (4 * n) t" unfolding s by (simp only: take_Suc_Cons)
  ultimately show ?case using Suc.IH [of t] Suc.prems word_byte_load [of a b c d]
    unfolding n2byte_Suc byte2n_Suc by (simp add: s nth_append)
qed (simp add: n2byte_def)

section \<open>Properties\<close>

text \<open>A byte string of any length survives \<open>byte_a64\<close> and \<open>a64_byte\<close>, whose text has four
  characters for every three bytes or part of them and contains no terminator, and an n-word
  number survives \<open>n2byte\<close> and \<open>byte2n\<close>, as 4n bytes do the other way round.\<close>

theorem byte_strings_round_trip:
  assumes "length num = n" "length s = 4 * n"
  shows "a64_byte (byte_a64 bs) = Some bs \<and> length (byte_a64 bs) = 4 * ((length bs + 2) div 3) \<and>
    0 \<notin> set (byte_a64 bs) \<and> byte2n n (n2byte n num) = num \<and> n2byte n (byte2n n s) = s"
  using byte2n_n2byte [of num n "[]"] n2byte_byte2n [of n s] assms a64_byte_byte_a64 [of bs]
    length_byte_a64 [of bs] byte_a64_nonzero [of bs] by auto

theorem byte_strings_round_trip_witness:
  "a64_byte (byte_a64 [1, 2, 3, 4]) = Some [1, 2, 3, 4] \<and> byte2n 2 (n2byte 2 [5, 6]) = [5, 6]"
  using byte_strings_round_trip [of "[5, 6]" 2 "[0, 1, 2, 3, 4, 5, 6, 7]" "[1, 2, 3, 4]"] by simp

text \<open>Every n-word number survives its text in base 64, \<open>str_n64a\<close> read by \<open>str_a64n\<close>,
  which reads the whole text, and its decimal text, \<open>b_to_d\<close> read by \<open>d_to_b\<close>; both
  conversions of the number end.  A base 64 digit that would push bits out of the n words
  is not read: \<open>str_a64n\<close> stops at it with the number as it was.\<close>

theorem number_texts_round_trip:
  assumes "length num = n" "0 < n" "length rem = n" "\<And>s. strrevers s = rev s"
  shows "(\<exists>s. str_n64a strrevers n num = Some s \<and> str_a64n (int n) s num0 = ([], num)) \<and>
    (\<exists>s. b_to_d strrevers n num rem = Some s \<and> d_to_b n s = num) \<and>
    (0 \<le> a64n c \<longrightarrow> B ^ n \<le> 64 * val num \<longrightarrow> a64n_loop n (c # p) num = (c # p, num))"
  using str_number_round_trip [OF assms(1,2,4), of num0] decimal_round_trip [OF assms]
    str_a64n_stops [OF assms(1,2)] by blast

theorem number_texts_round_trip_witness:
  "(\<exists>s. str_n64a rev 1 [4000000000] = Some s \<and> str_a64n 1 s [7] = ([], [4000000000])) \<and>
   a64n_loop 1 [48] [4000000000] = ([48], [4000000000])"
  using number_texts_round_trip [of "[4000000000]" 1 "[0]" rev "[7]" 48 "[]"]
  by (auto simp: B_def a64n_def tab64_bytes)

end
