(* ===== verification/Key_Exchange.thy ===== *)
theory Key_Exchange
  imports A64 Enigma
begin

unbundle bit_operations_syntax

text \<open>The negotiation of the session key: \<open>get_clikey\<close> of the client
  (\<open>src/sccli/get_clikey.c\<close>), \<open>mk_clikey\<close> and \<open>clikey\<close> of the server
  (\<open>src/scsrv/clikey.c\<close>) and \<open>prikey128\<close> (\<open>src/crypto/prikey128.c\<close>).  A Diffie-Hellman
  exchange over the 128-bit prime field gives both sides a secret; the server sends the
  session key under a cipher keyed by it.  Memory is little-endian, as on the x86 the build
  is for.  \<open>DES_fcrypt\<close>, vendored from OpenSSL, is a parameter.  What the C functions read
  from the clock, the process and their uninitialised stack variables is a record.\<close>

section \<open>The machine\<close>

record host =
  clock :: "64 word"
  clikey_clock :: "64 word"
  pid :: u_int
  family :: "u_int list"
  stack_num :: "u_int list"
  stack_key :: "u_int list"
  stack_cli :: bytes
  stack_t :: ENIGMA2
  stack_t2 :: ENIGMA2

definition key_modulus :: "u_int list" where
  "key_modulus = [0xFFFFFF61, 0xFFFFFFFF, 0xFFFFFFFF, 0xFFFFFFFF]"

definition le_bytes4 :: "u_int \<Rightarrow> bytes" where
  "le_bytes4 w = map (\<lambda>j. ucast (drop_bit (8 * j) w)) [0, 1, 2, 3]"

definition le_load :: "bytes \<Rightarrow> u_int" where
  "le_load bs = foldr (\<lambda>b w. ucast b OR push_bit 8 w) (take 4 bs) 0"

section \<open>A cipher key from a number\<close>

fun shift_out :: "nat \<Rightarrow> nat \<Rightarrow> nat \<Rightarrow> u_int list \<Rightarrow> bytes \<times> u_int list" where
  "shift_out 0 n i up = ([], up)"
| "shift_out (Suc k) n i up =
     (let (up, r) = rshift n up i; (rs, up) = shift_out k n i up in (ucast r # rs, up))"

definition prikey128 :: "(bytes \<Rightarrow> bytes \<Rightarrow> bytes) \<Rightarrow> u_int list \<Rightarrow> u_int list \<Rightarrow> bytes" where
  "prikey128 DES_fcrypt ind fam =
     (let (ind, s0) = rshift 4 ind 7;
          salt0 = (if (ucast s0 :: byte) = 0 then 0x41 else ucast s0);
          (ind, s1) = rshift 4 ind 7;
          salt1 = (if (ucast s1 :: byte) = 0 then 0x41 else ucast s1);
          (ind, b) = rshift 4 ind 5;
          (ind, c) = rshift 4 ind 5;
          d = map (\<lambda>i. fam ! ((unat b + i) mod 32)) [0, 1, 2];
          d = (if c \<noteq> 0 then fst (rshift 3 d (unat c)) else d);
          (key, d) = shift_out 8 3 6 d;
          keybuf = DES_fcrypt (map (\<lambda>k. k + 0x21) key) [salt0, salt1];
          (end13, ind) = shift_out 13 4 8 ind
      in take 13 keybuf @ end13 @ [0])"

section \<open>The client\<close>

text \<open>The first part, up to the message of 26 bytes: the exponent and the message.\<close>

definition client_request :: "host \<Rightarrow> (u_int list \<times> bytes) option" where
  "client_request h =
     (let tim = clock h;
          x0 = 0x0FFFFFFF AND ucast tim;
          x1 = 0xFFFFFFFF AND ucast (drop_bit 32 tim);
          x3 = 0x7FFFFFFF AND family h ! unat (31 AND x0);
          x = [x0, x1, pid h, x3];
          a2 = (ucast x3 XOR drop_bit 31 tim) AND 0x1F;
          b1 = (ucast x3 XOR drop_bit 36 tim) AND 0x1F;
          kw = family h ! unat b1;
          i = family h ! unat a2;
          i = (if i = 0 then 65537 else i);
          ax = (n_zero 4)[0 := i, 1 := kw]
      in do {
        ay \<leftarrow> e_m 4 ax x key_modulus (stack_num h);
        let cmd = byte_a64 (n2byte 4 ay @ [ucast a2 AND 255, ucast b1 AND 255]);
        let crc = gencrc (take 24 cmd);
        Some (x, cmd @ [ucast (drop_bit 8 crc), ucast crc]) })"

text \<open>\<open>exchange\<close> is the network: it takes the message and gives what \<open>RecvNet\<close> returns and
  the bytes received.  A text that ends in the middle of a group is \<open>None\<close>: the C code reads
  on behind it.\<close>

definition get_clikey ::
    "(bytes \<Rightarrow> bytes \<Rightarrow> bytes) \<Rightarrow> (bytes \<Rightarrow> int \<times> bytes) \<Rightarrow> host \<Rightarrow> ENIGMA2 \<Rightarrow> (int \<times> ENIGMA2) option" where
  "get_clikey DES_fcrypt exchange h conn_t =
     do {
       (x, cmd) \<leftarrow> client_request h;
       let (i, cmd) = exchange cmd;
       if i \<noteq> 68 then Some (SYSERR, conn_t)
       else do {
         keybuf \<leftarrow> a64_byte (takeWhile (\<lambda>c. c \<noteq> 0) (take 68 cmd));
         if length keybuf \<noteq> 50 then Some (LENGERR, conn_t)
         else do {
           let crymode = keybuf ! 49;
           if crymode AND 3 \<noteq> 0 then do {
             let ay = byte2n 4 keybuf;
             ax \<leftarrow> e_m 4 ay x key_modulus (n_zero 4);
             let cmd = prikey128 DES_fcrypt ax (family h);
             t \<leftarrow> enigma2_init (stack_t h) cmd 0;
             let key = enigma2_decrypt t (take 32 (drop 16 keybuf));
             conn_t \<leftarrow> enigma2_init conn_t key 32;
             Some (sint crymode, conn_t) }
           else Some (sint crymode, conn_t) } } }"

section \<open>The server\<close>

definition clikey :: "host \<Rightarrow> bytes \<Rightarrow> bytes option" where
  "clikey h keybuf =
     (let key = stack_key h;
          key = key[0 := key ! 0 XOR ucast (clikey_clock h)];
          key = key[1 := key ! 1 XOR ucast (drop_bit 32 (clikey_clock h))];
          key = key[2 := key ! 2 XOR pid h];
          key = key[3 := family h ! unat (key ! 1 AND 0x1F)];
          key = key[4 := key ! 4 XOR le_load keybuf];
          key = key[5 := key ! 5 XOR le_load (drop 4 keybuf)];
          key = key[6 := key ! 6 XOR le_load (drop 8 keybuf)];
          key = key[7 := ssh_crc32 (concat (map le_bytes4 key))];
          mem = concat (map le_bytes4 key)
      in do { t \<leftarrow> enigma2_init (stack_t2 h) mem 32; Some (enigma2_encrypt t mem) })"

definition keybuf_size :: nat where "keybuf_size = 56"

definition goodbye :: bytes where
  "goodbye = map of_char (''Goodbye!'' @ [CHR 10]) @ replicate 58 32 @ [10]"

text \<open>The branch that negotiates: from the client's 18 bytes at the head of \<open>cli_k\<close> to the
  48 bytes of the answer there and the cipher of the session.\<close>

definition deal_key ::
    "(bytes \<Rightarrow> bytes \<Rightarrow> bytes) \<Rightarrow> host \<Rightarrow> bytes \<Rightarrow> ENIGMA2 \<Rightarrow> (bytes \<times> ENIGMA2) option" where
  "deal_key DES_fcrypt h cli_k tc =
     (let y = stack_num h;
          y = y[0 := y ! 0 XOR ucast (clock h)];
          y = y[1 := y ! 1 XOR ucast (drop_bit 32 (clock h))];
          y = y[2 := y ! 2 XOR pid h];
          y = y[3 := 0x7FFFFFFF AND family h ! unat (31 AND y ! 0)];
          ax = byte2n 4 cli_k
      in do {
        ay \<leftarrow> e_m 4 ax y key_modulus (n_zero 4);
        let keybuf = prikey128 DES_fcrypt ay (family h);
        t \<leftarrow> enigma2_init (stack_t h) keybuf 0;
        let kw = family h ! unat (31 AND cli_k ! 17);
        let i = family h ! unat (31 AND cli_k ! 16);
        let i = (if i = 0 then 65537 else i);
        let cli_k = take 16 cli_k @ n2byte 4 ax @ drop 32 cli_k;
        let ax = (n_zero 4)[0 := i, 1 := kw];
        ay \<leftarrow> e_m 4 ax y key_modulus ay;
        let cli_k = n2byte 4 ay @ drop 16 cli_k;
        key \<leftarrow> clikey h (drop 16 cli_k);
        tc \<leftarrow> enigma2_init tc key 32;
        let key = enigma2_encrypt t key;
        Some (take 16 cli_k @ key @ drop 48 cli_k, tc) })"

text \<open>\<open>env\<close> is the number the environment variable CRYPTFLG starts with, if it is set to one;
  \<open>len\<close> and \<open>buf\<close> are the result of \<open>RecvNet\<close> and the bytes received.  \<open>room\<close> is the size of
  the array \<open>keybuf\<close>, 56 in the code: an answer that with its terminator is longer is written
  past it, and the result is None.  Otherwise it is the return value, the cipher of the
  session and the bytes sent.\<close>

definition mk_clikey ::
    "(bytes \<Rightarrow> bytes \<Rightarrow> bytes) \<Rightarrow> nat \<Rightarrow> int option \<Rightarrow> int \<times> bytes \<Rightarrow> host \<Rightarrow> ENIGMA2 \<Rightarrow> (int \<times> ENIGMA2 \<times> bytes) option" where
  "mk_clikey DES_fcrypt room env recvd h tc =
     (let crymode = (case env of None \<Rightarrow> 15 | Some v \<Rightarrow> of_int v AND 0xF) :: byte;
          (len, buf) = recvd in
      if len \<noteq> 26 then Some (if len = SYSERR then SYSERR else FORMATERR, tc, [])
      else if take 11 buf = map of_char ''hello world'' then Some (FORMATERR, tc, goodbye)
      else if gencrc (take 24 buf) \<noteq> (push_bit 8 (ucast (buf ! 24)) OR ucast (buf ! 25))
      then Some (FORMATERR, tc, [])
      else do {
        bs \<leftarrow> a64_byte (takeWhile (\<lambda>c. c \<noteq> 0) (take 24 buf));
        let cli_k = bs @ drop (length bs) (stack_cli h);
        if length bs \<noteq> 18 then Some (LENGERR, tc, [])
        else do {
          (cli_k, tc) \<leftarrow> (if crymode AND 3 \<noteq> 0 then deal_key DES_fcrypt h cli_k tc
            else Some (cli_k[48 := 0], tc));
          let cli_k = cli_k[49 := crymode];
          let keybuf = byte_a64 (take 50 cli_k);
          if room < length keybuf + 1 then None else Some (uint crymode, tc, keybuf) } })"

section \<open>The field and the secret\<close>

lemma key_modulus_val: "val key_modulus = 2 ^ 128 - 159"
  by (simp add: key_modulus_def B_def)

lemma key_modulus_ok: "modulus 4 key_modulus" "1 < val key_modulus"
  by (simp_all add: modulus_def key_modulus_val) (simp_all add: key_modulus_def)

lemma e_m_key:
  assumes "length a = 4" "length z = 4" "length ret = 4" "val a < val key_modulus"
  shows "\<exists>r. e_m 4 a z key_modulus ret = Some r \<and> length r = 4 \<and>
    val r = val a ^ val z mod val key_modulus \<and> val r < val key_modulus"
  using e_m_spec [OF key_modulus_ok(1) assms key_modulus_ok(2)] key_modulus_ok(2) by auto

text \<open>The base of the powers, named by the two last bytes of the message.\<close>

definition dh_base :: "u_int list \<Rightarrow> byte \<Rightarrow> byte \<Rightarrow> u_int list" where
  "dh_base fam a b =
     (let i = fam ! unat (31 AND a)
      in (n_zero 4)[0 := if i = 0 then 65537 else i, 1 := fam ! unat (31 AND b)])"

lemma dh_base_ok: "length (dh_base fam a b) = 4" "val (dh_base fam a b) < val key_modulus"
proof -
  show "length (dh_base fam a b) = 4" by (simp add: dh_base_def Let_def)
  have "n_zero 4 = [0, 0, 0, 0]" by (simp add: n_zero_def numeral_eq_Suc)
  then obtain i k where e: "dh_base fam a b = [i, k, 0, 0]" by (auto simp: dh_base_def Let_def)
  have "unat i < B" "unat k < B" by simp_all
  then have "unat i + B * unat k < 2 ^ 32 + 2 ^ 32 * 2 ^ 32" unfolding B_def
    by (intro add_less_le_mono mult_le_mono2 less_imp_le_nat) simp_all
  then show "val (dh_base fam a b) < val key_modulus" by (simp add: e key_modulus_val)
qed

lemma secret_agreed:
  assumes "val p = val g ^ val x mod val m" "val q = val g ^ val y mod val m"
    "length s = length t" "val s = val p ^ val y mod val m" "val t = val q ^ val x mod val m"
  shows "s = t"
proof -
  have "val s = (val g ^ val x) ^ val y mod val m" unfolding assms(4,1) by (rule power_mod)
  also have "\<dots> = (val g ^ val y) ^ val x mod val m" by (simp only: power_mult [symmetric] mult.commute)
  also have "\<dots> = val t" unfolding assms(5,2) by (rule power_mod [symmetric])
  finally show ?thesis using assms(3) by (intro val_inj)
qed

section \<open>The messages\<close>

lemma byte_a64_chars: "set (byte_a64 bs) \<subseteq> set tab64"
proof -
  have d: "n64a w \<in> set tab64" for w
    using digit_index [of w] by (auto simp: n64a_def length_tab64 intro!: nth_mem)
  have p: "tab64 ! 64 \<in> set tab64" by (simp add: length_tab64)
  show ?thesis
    by (induction bs rule: byte_a64.induct) (auto simp: put4_def Let_def d p simp del: n64a_char)
qed

lemma byte_a64_text: "takeWhile (\<lambda>c. c \<noteq> 0) (byte_a64 bs) = byte_a64 bs"
  using byte_a64_nonzero [of bs] by (simp add: takeWhile_eq_all_conv)

lemma byte_a64_not_hello: "take 11 (byte_a64 bs) \<noteq> map of_char ''hello world''"
proof
  assume "take 11 (byte_a64 bs) = map of_char ''hello world''"
  then have "of_char (CHR '' '') \<in> set (take 11 (byte_a64 bs))" by simp
  then have "of_char (CHR '' '') \<in> set tab64" using byte_a64_chars [of bs] by (auto dest: in_set_takeD)
  then show False by (simp add: tab64_bytes of_char_def)
qed

lemma crc_bytes_read: "push_bit 8 (ucast (ucast (drop_bit 8 c) :: byte)) OR ucast (ucast c :: byte) = (c :: 16 word)"
  by (rule bit_word_eqI) (auto simp: bit_simps from_bit)

lemma low5: "unat ((w :: 64 word) AND 0x1F) = unat (31 AND (ucast (w AND 0x1F) AND 255 :: byte))"
proof -
  have m: "(0x1F :: 64 word) = mask 5" "(31 :: byte) = mask 5" "(255 :: byte) = mask 8"
    by (simp_all add: mask_eq_exp_minus_1)
  have "w AND 0x1F = ucast (31 AND (ucast (w AND 0x1F) AND 255 :: byte))"
    unfolding m by (rule bit_word_eqI) (auto simp: bit_simps)
  then have "unat (w AND 0x1F) = unat (ucast (31 AND (ucast (w AND 0x1F) AND 255 :: byte)) :: 64 word)"
    by simp
  also have "\<dots> = unat (31 AND (ucast (w AND 0x1F) AND 255 :: byte))"
    by (simp add: unsigned_ucast_eq take_bit_nat_eq_self_iff) (rule less_trans [OF unsigned_less], simp)
  finally show ?thesis .
qed

lemma client_request_ok:
  assumes "length (stack_num h) = 4"
  shows "\<exists>x ay a b. client_request h = Some (x, byte_a64 (n2byte 4 ay @ [a, b]) @
      (let crc = gencrc (byte_a64 (n2byte 4 ay @ [a, b])) in [ucast (drop_bit 8 crc), ucast crc])) \<and>
    length x = 4 \<and> length ay = 4 \<and> val ay = val (dh_base (family h) a b) ^ val x mod val key_modulus \<and>
    val ay < val key_modulus"
proof -
  define x0 :: u_int where "x0 = 0x0FFFFFFF AND ucast (clock h)"
  define x3 where "x3 = 0x7FFFFFFF AND family h ! unat (31 AND x0)"
  define x where "x = [x0, 0xFFFFFFFF AND ucast (drop_bit 32 (clock h)), pid h, x3]"
  define a2 where "a2 = (ucast x3 XOR drop_bit 31 (clock h)) AND 0x1F"
  define b1 where "b1 = (ucast x3 XOR drop_bit 36 (clock h)) AND 0x1F"
  define a b :: byte where "a = ucast a2 AND 255" and "b = ucast b1 AND 255"
  have i: "unat a2 = unat (31 AND a)" "unat b1 = unat (31 AND b)"
    unfolding a_def b_def a2_def b1_def by (rule low5)+
  have base: "(n_zero 4)[0 := if family h ! unat a2 = 0 then 65537 else family h ! unat a2,
      1 := family h ! unat b1] = dh_base (family h) a b"
    by (simp add: dh_base_def i)
  have lx: "length x = 4" by (simp add: x_def)
  obtain ay where ay: "e_m 4 (dh_base (family h) a b) x key_modulus (stack_num h) = Some ay" "length ay = 4"
      "val ay = val (dh_base (family h) a b) ^ val x mod val key_modulus" "val ay < val key_modulus"
    using e_m_key [OF dh_base_ok(1) lx assms dh_base_ok(2)] by blast
  have len: "length (byte_a64 (n2byte 4 ay @ [a, b])) = 24"
    by (simp add: length_byte_a64 length_n2byte)
  have "client_request h = Some (x, byte_a64 (n2byte 4 ay @ [a, b]) @
      (let crc = gencrc (byte_a64 (n2byte 4 ay @ [a, b])) in [ucast (drop_bit 8 crc), ucast crc]))"
    unfolding client_request_def Let_def x0_def [symmetric] x3_def [symmetric] x_def [symmetric]
      a2_def [symmetric] b1_def [symmetric] base a_def [symmetric] b_def [symmetric]
    using ay(1) len by simp
  then show ?thesis using lx ay by blast
qed

section \<open>The exchange\<close>

definition blank2 :: "ENIGMA2 \<Rightarrow> bool" where
  "blank2 e \<longleftrightarrow> length (rot2 (e2_t e)) = 256 \<and> length (rot2 (e2_r e)) = 256"

lemma cipher_ok:
  assumes "key_of k n \<noteq> []" "blank2 e"
  shows "\<exists>c. enigma2_init e k n = Some c \<and> blank2 c \<and> wheels (e2_t c) \<and> wheels (e2_r c)"
  using enigma2_init_ok [of k n e] assms by (auto simp: blank2_def)

lemma cipher_unique:
  "key_of k n \<noteq> [] \<Longrightarrow> blank2 e \<Longrightarrow> blank2 e' \<Longrightarrow>
     enigma2_init e k n = Some c \<Longrightarrow> enigma2_init e' k n = Some c' \<Longrightarrow> c' = c"
  unfolding blank2_def using enigma2_init_unique by blast

lemma length_enigma2_encrypt: "length (enigma2_encrypt e s) = length s"
proof (cases "s = []")
  case False
  then have "unat (e2_crc e) mod length s < length s" by simp
  then show ?thesis by (simp add: enigma2_encrypt_def Let_def)
qed (simp add: enigma2_encrypt_def)

definition des_text :: "(bytes \<Rightarrow> bytes \<Rightarrow> bytes) \<Rightarrow> bool" where
  "des_text des \<longleftrightarrow> (\<forall>k s. length (des k s) = 13 \<and> hd (des k s) \<noteq> 0)"

lemma prikey128_key: "des_text des \<Longrightarrow> key_of (prikey128 des ind fam) 0 \<noteq> []"
proof -
  assume d: "des_text des"
  have "\<exists>k sl r. prikey128 des ind fam = take 13 (des k sl) @ r"
    unfolding prikey128_def Let_def by (auto split: prod.splits)
  then obtain k sl r where p: "prikey128 des ind fam = take 13 (des k sl) @ r" by blast
  obtain c cs where "des k sl = c # cs" "c \<noteq> 0" using d unfolding des_text_def
    by (metis length_0_conv list.collapse zero_neq_numeral)
  then show ?thesis by (simp add: key_of_def p)
qed

lemma clikey_ok:
  assumes "length (stack_key h) = 8" "blank2 (stack_t2 h)"
  shows "\<exists>k. clikey h s = Some k \<and> length k = 32"
proof -
  have len: "length (concat (map le_bytes4 ws)) = 4 * length ws" for ws
    by (induction ws) (simp_all add: le_bytes4_def)
  have "\<exists>key. length key = 8 \<and> clikey h s = do { t \<leftarrow> enigma2_init (stack_t2 h) (concat (map le_bytes4 key)) 32;
      Some (enigma2_encrypt t (concat (map le_bytes4 key))) }"
    unfolding clikey_def Let_def by (rule exI, rule conjI [rotated], rule refl, simp add: assms(1))
  then obtain key where key: "length key = 8" "clikey h s = do {
      t \<leftarrow> enigma2_init (stack_t2 h) (concat (map le_bytes4 key)) 32;
      Some (enigma2_encrypt t (concat (map le_bytes4 key))) }" by blast
  have "key_of (concat (map le_bytes4 key)) 32 \<noteq> []" using len [of key] key(1)
    by (metis key_of_def length_0_conv list.size(3) mult_is_0 nat_numeral not_numeral_le_zero take_eq_Nil zero_neq_numeral)
  then show ?thesis using cipher_ok [OF _ assms(2)] key len [of key]
    by (force simp: length_enigma2_encrypt)
qed

definition ready :: "host \<Rightarrow> bool" where
  "ready h \<longleftrightarrow> length (stack_num h) = 4 \<and> length (stack_key h) = 8 \<and> length (stack_cli h) = 52 \<and>
     blank2 (stack_t h) \<and> blank2 (stack_t2 h)"

definition crymode_of :: "int option \<Rightarrow> byte" where
  "crymode_of env = (case env of None \<Rightarrow> 15 | Some v \<Rightarrow> of_int v AND 0xF)"

definition crc_tail :: "bytes \<Rightarrow> bytes" where
  "crc_tail s = (let crc = gencrc s in [ucast (drop_bit 8 crc), ucast crc])"

lemma deal_key_ok:
  assumes "ready s" "blank2 tc" "des_text des" "length c = 52" "byte2n 4 c = ay" "val ay < val key_modulus"
  shows "\<exists>y q sec t k tc'. deal_key des s c tc = Some (n2byte 4 q @ enigma2_encrypt t k @ drop 48 c, tc') \<and>
    length y = 4 \<and> length q = 4 \<and> val q < val key_modulus \<and>
    val q = val (dh_base (family s) (c ! 16) (c ! 17)) ^ val y mod val key_modulus \<and>
    length sec = 4 \<and> val sec = val ay ^ val y mod val key_modulus \<and>
    enigma2_init (stack_t s) (prikey128 des sec (family s)) 0 = Some t \<and> length k = 32 \<and>
    enigma2_init tc k 32 = Some tc'"
proof -
  have r: "length (stack_num s) = 4" "length (stack_key s) = 8" "blank2 (stack_t s)" "blank2 (stack_t2 s)"
    using assms(1) by (simp_all add: ready_def)
  define y where "y = (let y = stack_num s;
            y = y[0 := y ! 0 XOR ucast (clock s)];
            y = y[1 := y ! 1 XOR ucast (drop_bit 32 (clock s))];
            y = y[2 := y ! 2 XOR pid s]
         in y[3 := 0x7FFFFFFF AND family s ! unat (31 AND y ! 0)])"
  have ly: "length y = 4" using r(1) by (simp add: y_def Let_def)
  have la: "length ay = 4" using assms(5) by auto
  obtain sec where sec: "e_m 4 ay y key_modulus (n_zero 4) = Some sec" "length sec = 4"
      "val sec = val ay ^ val y mod val key_modulus"
    using e_m_key [OF la ly _ assms(6), of "n_zero 4"] by auto
  obtain t where t: "enigma2_init (stack_t s) (prikey128 des sec (family s)) 0 = Some t"
    using cipher_ok [OF prikey128_key [OF assms(3)] r(3)] by blast
  let ?g = "dh_base (family s) (c ! 16) (c ! 17)"
  obtain q where q: "e_m 4 ?g y key_modulus sec = Some q" "length q = 4"
      "val q = val ?g ^ val y mod val key_modulus" "val q < val key_modulus"
    using e_m_key [OF dh_base_ok(1) ly sec(2) dh_base_ok(2)] by blast
  let ?k0 = "n2byte 4 ay @ drop 32 c"
  obtain k where k: "clikey s ?k0 = Some k" "length k = 32" using clikey_ok [OF r(2,4)] by blast
  obtain tc' where tc: "enigma2_init tc k 32 = Some tc'"
    using cipher_ok [of k 32 tc] assms(2) k(2) by (force simp: key_of_def)
  have l: "length (n2byte 4 w) = 16" for w by (simp add: length_n2byte)
  have base: "(n_zero 4)[0 := if family s ! unat (31 AND c ! 16) = 0 then 65537 else family s ! unat (31 AND c ! 16),
      1 := family s ! unat (31 AND c ! 17)] = ?g" by (simp add: dh_base_def Let_def)
  have d: "drop 16 (n2byte 4 q @ drop 16 (take 16 c @ n2byte 4 ay @ drop 32 c)) = ?k0"
    "take 16 (n2byte 4 q @ x) = n2byte 4 q"
    "drop 48 (n2byte 4 q @ drop 16 (take 16 c @ n2byte 4 ay @ drop 32 c)) = drop 48 c" for x
    using assms(4) by (simp_all add: l min_def)
  have "deal_key des s c tc = Some (n2byte 4 q @ enigma2_encrypt t k @ drop 48 c, tc')"
    unfolding deal_key_def Let_def y_def [unfolded Let_def, symmetric] assms(5) base
    by (simp only: sec(1) t q(1) d k(1) tc bind.simps)
  then show ?thesis using ly q sec t k(2) tc by blast
qed

lemma mk_clikey_answers:
  assumes "ready s" "blank2 tc" "des_text des" "crymode_of env AND 3 \<noteq> 0"
    "length ay = 4" "val ay < val key_modulus"
  shows "\<exists>y q sec t k z tc'. (\<forall>room. mk_clikey des room env (26, byte_a64 (n2byte 4 ay @ [a, b]) @
        crc_tail (byte_a64 (n2byte 4 ay @ [a, b]))) s tc = (if room < 69 then None else
      Some (uint (crymode_of env), tc', byte_a64 (n2byte 4 q @ enigma2_encrypt t k @ [z, crymode_of env])))) \<and>
    length y = 4 \<and> length q = 4 \<and> val q < val key_modulus \<and>
    val q = val (dh_base (family s) a b) ^ val y mod val key_modulus \<and>
    length sec = 4 \<and> val sec = val ay ^ val y mod val key_modulus \<and>
    enigma2_init (stack_t s) (prikey128 des sec (family s)) 0 = Some t \<and> length k = 32 \<and>
    enigma2_init tc k 32 = Some tc'"
proof -
  define m where "m = n2byte 4 ay @ [a, b]"
  define c where "c = m @ drop 18 (stack_cli s)"
  have l: "length m = 18" "length (byte_a64 m) = 24" "length (n2byte 4 ay) = 16" "length c = 52"
    using assms(1) by (simp_all add: m_def c_def length_byte_a64 length_n2byte ready_def)
  have c: "byte2n 4 c = ay" "c ! 16 = a" "c ! 17 = b"
    using byte2n_n2byte [OF assms(5)] l(3) by (simp_all add: c_def m_def nth_append)
  obtain y q sec t k tc' where d: "deal_key des s c tc = Some (n2byte 4 q @ enigma2_encrypt t k @ drop 48 c, tc')"
    "length y = 4" "length q = 4" "val q < val key_modulus"
    "val q = val (dh_base (family s) a b) ^ val y mod val key_modulus"
    "length sec = 4" "val sec = val ay ^ val y mod val key_modulus"
    "enigma2_init (stack_t s) (prikey128 des sec (family s)) 0 = Some t" "length k = 32"
    "enigma2_init tc k 32 = Some tc'"
    using deal_key_ok [OF assms(1,2,3) l(4) c(1) assms(6)] unfolding c by blast
  let ?buf = "byte_a64 m @ crc_tail (byte_a64 m)"
  have tx: "take 24 ?buf = byte_a64 m" "take 11 ?buf = take 11 (byte_a64 m)" using l(2) by simp_all
  have crc: "(push_bit 8 (ucast (?buf ! 24)) OR ucast (?buf ! 25)) = gencrc (byte_a64 m)"
    using l(2) crc_bytes_read by (simp add: nth_append crc_tail_def Let_def)
  let ?k = "n2byte 4 q @ enigma2_encrypt t k @ drop 48 c"
  obtain z w rest where z: "drop 48 c = z # w # rest" "length rest = 2"
    using l(4) by (cases "drop 48 c"; cases "tl (drop 48 c)"; force dest: arg_cong [where f = length])
  have k: "take 50 (?k[49 := v]) = n2byte 4 q @ enigma2_encrypt t k @ [z, v]" for v
    using d(9) by (simp add: z length_n2byte length_enigma2_encrypt list_update_append)
  have n: "length (byte_a64 (n2byte 4 q @ enigma2_encrypt t k @ [z, crymode_of env])) = 68"
    using d(9) by (simp add: length_byte_a64 length_n2byte length_enigma2_encrypt)
  have "mk_clikey des room env (26, ?buf) s tc = (if room < 69 then None else Some (uint (crymode_of env), tc',
      byte_a64 (n2byte 4 q @ enigma2_encrypt t k @ [z, crymode_of env])))" for room
    unfolding mk_clikey_def Let_def prod.case crymode_of_def [symmetric] tx crc byte_a64_text
      a64_byte_byte_a64 bind.simps l(1) c_def [symmetric]
    using byte_a64_not_hello [of m] by (simp add: assms(4) d(1) k n)
  then show ?thesis using d unfolding m_def by blast
qed

lemma crymode_signed: "sint (crymode_of env) = uint (crymode_of env)"
proof -
  have "crymode_of env AND 15 = crymode_of env"
    by (cases env) (simp_all add: crymode_of_def and.assoc)
  moreover have "crymode_of env AND 15 \<le> 15" by (rule word_and_le1)
  ultimately have u: "uint (crymode_of env) \<le> 15" by (simp add: word_le_def)
  have "- (2 ^ 7) \<le> uint (crymode_of env)" by (rule order_trans [of _ 0]) simp_all
  then show ?thesis using u unfolding sint_uint by (intro signed_take_bit_int_eq_self) simp_all
qed

lemma get_clikey_reads:
  assumes "client_request c = Some (x, cmd)" "exchange cmd = (68, byte_a64 (n2byte 4 q @ w @ [z, cr]))"
    "length q = 4" "length w = 32" "cr AND 3 \<noteq> 0" "e_m 4 q x key_modulus (n_zero 4) = Some sec"
    "enigma2_init (stack_t c) (prikey128 des sec (family c)) 0 = Some t"
    "enigma2_init t0 (enigma2_decrypt t w) 32 = Some e"
  shows "get_clikey des exchange c t0 = Some (sint cr, e)"
proof -
  define m where "m = n2byte 4 q @ w @ [z, cr]"
  have m: "length m = 50" "m ! 49 = cr" "byte2n 4 m = q" "take 32 (drop 16 m) = w"
    using assms(3,4) byte2n_n2byte [OF assms(3)] by (simp_all add: m_def length_n2byte nth_append)
  have l: "take 68 (byte_a64 m) = byte_a64 m" using m(1) by (simp add: length_byte_a64)
  have e: "exchange cmd = (68, byte_a64 m)" using assms(2) by (simp add: m_def)
  show ?thesis unfolding get_clikey_def assms(1) bind.simps prod.case Let_def e l byte_a64_text a64_byte_byte_a64
    by (simp add: m assms(5-8))
qed

lemma deal_key_length:
  assumes "ready h" "length c = 52" "deal_key des h c tc = Some (c', tc')"
  shows "length c' = 52"
proof -
  have r: "length (stack_key h) = 8" "blank2 (stack_t2 h)" using assms(1) by (simp_all add: ready_def)
  have k: "length k = 32" if "clikey h s = Some k" for s k using clikey_ok [OF r, of s] that by auto
  show ?thesis using assms(2,3) unfolding deal_key_def Let_def
    by (auto simp: bind_eq_Some_conv length_n2byte length_enigma2_encrypt dest!: k)
qed

definition sample_host :: "64 word \<Rightarrow> host" where
  "sample_host time = \<lparr>clock = time, clikey_clock = time + 5, pid = 4711, family = replicate 32 7,
     stack_num = [1, 2, 3, 4], stack_key = replicate 8 9, stack_cli = replicate 52 1,
     stack_t = \<lparr>e2_t = blank_wheels, e2_r = blank_wheels, e2_crc = 0\<rparr>,
     stack_t2 = \<lparr>e2_t = blank_wheels, e2_r = blank_wheels, e2_crc = 1\<rparr>\<rparr>"

section \<open>Properties\<close>

text \<open>C13: The negotiation of the session key: when both sides hold the same family of numbers, the
  client's message passes every test of the server, whatever their clocks and uninitialised
  variables hold.  The server then writes an answer of 68 characters and its terminator to an
  array of 56 bytes: what the code does next is undefined.  With any array the answer fits in, of 69
  bytes or more, the server accepts, the answer has the 68 characters the client waits for, both
  sides end with the same mode and the same cipher, and that cipher deciphers what it enciphers.\<close>

theorem session_key_agreed:
  assumes "ready c" "ready s" "blank2 t0" "blank2 tc" "family c = family s" "des_text des"
    "crymode_of env AND 3 \<noteq> 0"
  shows "\<exists>x cmd cr e reply. client_request c = Some (x, cmd) \<and> length cmd = 26 \<and>
    mk_clikey des keybuf_size env (26, cmd) s tc = None \<and>
    (\<forall>room\<ge>69. mk_clikey des room env (26, cmd) s tc = Some (cr, e, reply)) \<and> length reply = 68 \<and>
    get_clikey des (\<lambda>m. if m = cmd then (68, reply) else (SYSERR, [])) c t0 = Some (cr, e) \<and>
    (\<forall>msg. enigma2_decrypt e (enigma2_encrypt e msg) = msg)"
proof -
  have rc: "length (stack_num c) = 4" "blank2 (stack_t c)" "blank2 (stack_t s)"
    using assms(1,2) by (simp_all add: ready_def)
  obtain x ay a b where c: "client_request c = Some (x, byte_a64 (n2byte 4 ay @ [a, b]) @
      crc_tail (byte_a64 (n2byte 4 ay @ [a, b])))" "length x = 4" "length ay = 4"
      "val ay = val (dh_base (family c) a b) ^ val x mod val key_modulus" "val ay < val key_modulus"
    using client_request_ok [OF rc(1)] unfolding crc_tail_def by blast
  define cmd where "cmd = byte_a64 (n2byte 4 ay @ [a, b]) @ crc_tail (byte_a64 (n2byte 4 ay @ [a, b]))"
  obtain y q sec t k z tc' where s: "\<forall>room. mk_clikey des room env (26, cmd) s tc = (if room < 69 then None else
      Some (uint (crymode_of env), tc', byte_a64 (n2byte 4 q @ enigma2_encrypt t k @ [z, crymode_of env])))"
    "length y = 4" "length q = 4" "val q < val key_modulus"
    "val q = val (dh_base (family s) a b) ^ val y mod val key_modulus"
    "length sec = 4" "val sec = val ay ^ val y mod val key_modulus"
    "enigma2_init (stack_t s) (prikey128 des sec (family s)) 0 = Some t" "length k = 32"
    "enigma2_init tc k 32 = Some tc'"
    using mk_clikey_answers [OF assms(2,4,6,7) c(3,5), of a b] unfolding cmd_def [symmetric] by blast
  obtain sec' where sec': "e_m 4 q x key_modulus (n_zero 4) = Some sec'" "length sec' = 4"
      "val sec' = val q ^ val x mod val key_modulus"
    using e_m_key [OF s(3) c(2) _ s(4), of "n_zero 4"] by auto
  have "sec = sec'"
    using secret_agreed [OF c(4) s(5) [folded assms(5)] _ s(7) sec'(3)] s(6) sec'(2) by simp
  obtain t' where t': "enigma2_init (stack_t c) (prikey128 des sec (family c)) 0 = Some t'"
    using cipher_ok [OF prikey128_key [OF assms(6)] rc(2)] by blast
  have "t' = t"
    using cipher_unique [OF prikey128_key [OF assms(6)] rc(3,2) s(8)] t' assms(5) by simp
  have tw: "wheels (e2_t t)" "wheels (e2_r t)"
    using cipher_ok [OF prikey128_key [OF assms(6), of sec "family s"] rc(3)] s(8) by auto
  have k: "key_of k 32 \<noteq> []" using s(9) by (auto simp: key_of_def)
  obtain e where e: "enigma2_init t0 k 32 = Some e" using cipher_ok [OF k assms(3)] by blast
  have "e = tc'" by (rule cipher_unique [OF k assms(4,3) s(10) e])
  moreover have "get_clikey des (\<lambda>m. if m = cmd then (68, byte_a64 (n2byte 4 q @ enigma2_encrypt t k @ [z, crymode_of env]))
      else (SYSERR, [])) c t0 = Some (sint (crymode_of env), e)"
    using c(1) s(3,9) assms(7) sec'(1) t' e enigma2_inverse [OF tw] \<open>sec = sec'\<close> \<open>t' = t\<close>
    by (intro get_clikey_reads [where sec = sec and t = t and w = "enigma2_encrypt t k" and z = z]) (auto simp: cmd_def length_enigma2_encrypt)
  moreover have "length (byte_a64 (n2byte 4 q @ enigma2_encrypt t k @ [z, crymode_of env])) = 68"
    using s(9) by (simp add: length_byte_a64 length_n2byte length_enigma2_encrypt)
  moreover have "length cmd = 26"
    by (simp add: cmd_def crc_tail_def Let_def length_byte_a64 length_n2byte)
  moreover have "enigma2_decrypt tc' (enigma2_encrypt tc' msg) = msg" for msg
    using cipher_ok [OF k assms(4)] s(10) by (intro enigma2_inverse) auto
  moreover have "mk_clikey des keybuf_size env (26, cmd) s tc = None"
      "\<forall>room\<ge>69. mk_clikey des room env (26, cmd) s tc =
        Some (uint (crymode_of env), tc', byte_a64 (n2byte 4 q @ enigma2_encrypt t k @ [z, crymode_of env]))"
    using s(1) by (simp_all add: keybuf_size_def)
  ultimately show ?thesis using c(1) unfolding crymode_signed cmd_def [symmetric] by metis
qed

theorem session_key_agreed_witness:
  "\<exists>x cmd cr e reply. client_request (sample_host 1000000) = Some (x, cmd) \<and>
     mk_clikey (\<lambda>_ _. replicate 13 65) 69 (Some 3) (26, cmd) (sample_host 1000321)
       \<lparr>e2_t = blank_wheels, e2_r = blank_wheels, e2_crc = 2\<rparr> = Some (cr, e, reply) \<and>
     mk_clikey (\<lambda>_ _. replicate 13 65) keybuf_size (Some 3) (26, cmd) (sample_host 1000321)
       \<lparr>e2_t = blank_wheels, e2_r = blank_wheels, e2_crc = 2\<rparr> = None \<and>
     get_clikey (\<lambda>_ _. replicate 13 65) (\<lambda>m. if m = cmd then (68, reply) else (SYSERR, [])) (sample_host 1000000)
       \<lparr>e2_t = blank_wheels, e2_r = blank_wheels, e2_crc = 3\<rparr> = Some (cr, e)"
proof -
  have r: "ready (sample_host t)" "family (sample_host t) = replicate 32 7" for t
    by (simp_all add: ready_def sample_host_def blank2_def)
  have "blank2 \<lparr>e2_t = blank_wheels, e2_r = blank_wheels, e2_crc = n\<rparr>" for n by (simp add: blank2_def)
  then show ?thesis
    using session_key_agreed [OF r(1) r(1), of "\<lparr>e2_t = blank_wheels, e2_r = blank_wheels, e2_crc = 3\<rparr>"
        "\<lparr>e2_t = blank_wheels, e2_r = blank_wheels, e2_crc = 2\<rparr>" 1000000 1000321 "\<lambda>_ _. replicate 13 65" "Some 3"]
    by (simp add: r(2) des_text_def crymode_of_def) (metis order_refl)
qed

text \<open>The same of every client: an answer by which \<open>mk_clikey\<close> accepts it has 68 characters, and
  there is one only in an array at least 13 bytes longer than \<open>keybuf\<close>; with that array the
  server accepts no client.\<close>

theorem server_answer_overruns_keybuf:
  assumes "ready h" "mk_clikey des room env recvd h tc = Some (cr, e, reply)" "0 \<le> cr"
  shows "length reply = 68 \<and> keybuf_size + 13 \<le> room"
proof -
  obtain len buf where recvd: "recvd = (len, buf)" by fastforce
  obtain bs where bs: "a64_byte (takeWhile (\<lambda>c. c \<noteq> 0) (take 24 buf)) = Some bs" "length bs = 18"
    using assms(2,3) unfolding mk_clikey_def recvd Let_def
    by (auto simp: error_codes bind_eq_Some_conv split: if_splits)
  define c where "c = bs @ drop 18 (stack_cli h)"
  have c: "length c = 52" using assms(1) bs(2) by (simp add: c_def ready_def)
  have "\<exists>c'. length c' = 52 \<and> reply = byte_a64 (take 50 (c'[49 := crymode_of env])) \<and> length reply < room"
  proof (cases "crymode_of env AND 3 = 0")
    case True
    then show ?thesis using assms(2,3) c
      unfolding mk_clikey_def recvd Let_def crymode_of_def [symmetric]
      by (auto simp: error_codes bs c_def [symmetric] split: if_splits intro!: exI [of _ "c[48 := 0]"])
  next
    case False
    then show ?thesis using assms(2,3)
      unfolding mk_clikey_def recvd Let_def crymode_of_def [symmetric]
      by (auto simp: error_codes bind_eq_Some_conv bs c_def [symmetric] split: if_splits
          dest: deal_key_length [OF assms(1) c])
  qed
  then show ?thesis by (auto simp: length_byte_a64 keybuf_size_def)
qed

theorem server_answer_overruns_keybuf_witness:
  "\<exists>e reply. mk_clikey (\<lambda>_ _. replicate 13 65) 100 None
     (26, byte_a64 (n2byte 4 [1, 0, 0, 0] @ [2, 3]) @ crc_tail (byte_a64 (n2byte 4 [1, 0, 0, 0] @ [2, 3])))
     (sample_host 1000321) \<lparr>e2_t = blank_wheels, e2_r = blank_wheels, e2_crc = 2\<rparr> = Some (15, e, reply) \<and>
     length reply = 68 \<and> keybuf_size + 13 \<le> (100 :: nat)"
proof -
  have h: "ready (sample_host 1000321)" "blank2 \<lparr>e2_t = blank_wheels, e2_r = blank_wheels, e2_crc = 2\<rparr>"
    by (simp_all add: ready_def sample_host_def blank2_def)
  have c: "crymode_of None = 15" by (simp add: crymode_of_def)
  have v: "val [1, 0, 0, 0] < val key_modulus" by (simp add: key_modulus_val)
  obtain e reply where m: "mk_clikey (\<lambda>_ _. replicate 13 65) 100 None
     (26, byte_a64 (n2byte 4 [1, 0, 0, 0] @ [2, 3]) @ crc_tail (byte_a64 (n2byte 4 [1, 0, 0, 0] @ [2, 3])))
     (sample_host 1000321) \<lparr>e2_t = blank_wheels, e2_r = blank_wheels, e2_crc = 2\<rparr> = Some (15, e, reply)"
    using mk_clikey_answers [OF h _ _ _ v, of "\<lambda>_ _. replicate 13 65" None 2 3]
    by (auto simp: des_text_def c)
  show ?thesis using m server_answer_overruns_keybuf [OF h(1) m] by auto
qed

end
