(* ===== verification/Ring.thy ===== *)
theory Ring
  imports Sdbc_Prelude
begin

text \<open>Queues kept as rings of indices: each queued element holds the index of the next one
  and the queue is a pointer to its last element, whose next is the first.  The connection
  pool (\<open>scpool.c\<close>) keeps its free connections so, the thread pool (\<open>tpool.c\<close>) its free
  and its ready tasks.  \<open>nx\<close> gives the next index of an element, or nothing for one that is
  not queued.\<close>

fun linked :: "(nat \<Rightarrow> nat option) \<Rightarrow> nat option \<Rightarrow> nat list \<Rightarrow> nat option \<Rightarrow> bool" where
  "linked nx p [] q \<longleftrightarrow> p = q"
| "linked nx p (x # xs) q \<longleftrightarrow> p = Some x \<and> linked nx (nx x) xs q"

definition ring :: "(nat \<Rightarrow> nat option) \<Rightarrow> nat option \<Rightarrow> nat list \<Rightarrow> bool" where
  "ring nx q xs \<longleftrightarrow> distinct xs \<and>
     (case q of None \<Rightarrow> xs = [] | Some t \<Rightarrow> xs \<noteq> [] \<and> last xs = t \<and> linked nx (nx t) xs (nx t))"

lemma linked_append [simp]: "linked nx p (xs @ ys) q \<longleftrightarrow> (\<exists>r. linked nx p xs r \<and> linked nx r ys q)"
  by (induction xs arbitrary: p) auto

lemma linked_upd [ring_simps]: "i \<notin> set xs \<Longrightarrow> linked (nx(i := y)) p xs q = linked nx p xs q"
  by (induction xs arbitrary: p) auto

lemma ring_empty [simp]: "ring nx None xs \<longleftrightarrow> xs = []" "ring nx q [] \<longleftrightarrow> q = None"
  by (auto simp: ring_def split: option.splits)

lemma ring_last: "ring nx (Some t) xs \<longleftrightarrow>
    (\<exists>ys. xs = ys @ [t] \<and> t \<notin> set ys \<and> distinct ys \<and> linked nx (nx t) ys (Some t))"
  by (cases xs rule: rev_cases) (auto simp: ring_def)

lemma ring_frame [ring_simps]: "i \<notin> set xs \<Longrightarrow> ring (nx(i := y)) q xs = ring nx q xs"
  by (cases q) (auto simp: ring_last ring_simps)

lemma linked_cong: "(\<And>i. i \<in> set xs \<Longrightarrow> nx i = nx' i) \<Longrightarrow> linked nx p xs q = linked nx' p xs q"
  by (induction xs arbitrary: p) auto

lemma ring_cong: "(\<And>i. i \<in> set xs \<Longrightarrow> nx i = nx' i) \<Longrightarrow> ring nx q xs = ring nx' q xs"
  using linked_cong [of xs nx nx'] by (cases "xs = []") (auto simp: ring_def split: option.splits)

lemma ring_distinct: "ring nx q xs \<Longrightarrow> distinct xs"
  by (simp add: ring_def)

lemma ring_linked: "ring nx q xs \<Longrightarrow> i \<in> set xs \<Longrightarrow> \<exists>j\<in>set xs. nx i = Some j"
proof -
  have c: "linked nx p ys r \<Longrightarrow> i \<in> set ys \<Longrightarrow> nx i = r \<or> (\<exists>j\<in>set ys. nx i = Some j)" for p ys r
    by (induction ys arbitrary: p) (auto, (metis linked.simps list.exhaust list.set_intros(1))+)
  assume r: "ring nx q xs" "i \<in> set xs"
  then obtain t ys where t: "q = Some t" "xs = ys @ [t]" "linked nx (nx t) ys (Some t)"
    by (cases q) (auto simp: ring_last)
  have n: "nx t = Some (hd xs)" using t(2,3) by (cases ys) auto
  have "xs \<noteq> []" using t(2) by simp
  then have h: "hd xs \<in> set xs" by simp
  show ?thesis
  proof (cases "i = t")
    case False
    then have "i \<in> set ys" using r(2) t(2) by simp
    then show ?thesis using c [OF t(3)] t(2) by auto
  qed (use n h in simp)
qed

lemma ring_head: "ring nx (Some t) (x # xs) \<Longrightarrow> nx t = Some x"
  by (auto simp: ring_def)

lemma ring_pop_one: "ring nx (Some t) [x] \<Longrightarrow> t = x \<and> nx t = Some t"
  by (auto simp: ring_def)

lemma ring_pop:
  assumes "ring nx (Some t) (x # xs)" "xs \<noteq> []"
  shows "x \<noteq> t \<and> x \<notin> set xs \<and> ring (nx(t := nx x)) (Some t) xs"
proof -
  obtain ys where ys: "x # xs = ys @ [t]" "t \<notin> set ys" "distinct ys" "linked nx (nx t) ys (Some t)"
    using assms(1) by (auto simp: ring_last)
  obtain zs where zs: "ys = x # zs" "xs = zs @ [t]" using ys(1) assms(2) by (cases ys) auto
  then show ?thesis using ys by (auto simp: ring_last ring_simps)
qed

lemma ring_grow:
  assumes "ring nx (Some t) xs" "i \<notin> set xs"
  shows "ring (nx(i := nx t, t := Some i)) (Some t) (i # xs) \<and>
    ring (nx(i := nx t, t := Some i)) (Some i) (xs @ [i])"
proof -
  obtain ys where ys: "xs = ys @ [t]" "t \<notin> set ys" "distinct ys" "linked nx (nx t) ys (Some t)"
    using assms(1) by (auto simp: ring_last)
  have "i \<noteq> t" "i \<notin> set ys" using assms(2) ys(1) by auto
  then show ?thesis using ys by (auto simp: ring_last ring_simps)
qed

lemma ring_single: "ring (nx(i := Some i)) (Some i) [i]"
  by (simp add: ring_last)

section \<open>A pool of numbered slots\<close>

text \<open>The contract of a free list: what its clients rely on, whatever the order in which it
  hands out the slots.  \<open>rep s xs\<close> says that the slots xs are free in s, in that order.\<close>

locale slot_pool =
  fixes rep :: "'s \<Rightarrow> nat list \<Rightarrow> bool"
    and slots :: "'s \<Rightarrow> nat"
    and get :: "'s \<Rightarrow> (nat \<times> 's) option"
    and put :: "nat \<Rightarrow> 's \<Rightarrow> 's"
  assumes rep_slots: "rep s xs \<Longrightarrow> distinct xs \<and> set xs \<subseteq> {..<slots s}"
    and get_none: "rep s [] \<Longrightarrow> get s = None"
    and get_head: "rep s (x # xs) \<Longrightarrow> \<exists>s'. get s = Some (x, s') \<and> rep s' xs \<and> slots s' = slots s"
    and put_new: "rep s xs \<Longrightarrow> i < slots s \<Longrightarrow> i \<notin> set xs \<Longrightarrow>
      \<exists>ys. rep (put i s) ys \<and> (ys = xs @ [i] \<or> ys = i # xs) \<and> slots (put i s) = slots s"
    and put_again: "rep s xs \<Longrightarrow> i \<in> set xs \<Longrightarrow> put i s = s"
begin

text \<open>Taking n slots in a row.\<close>

fun takes :: "nat \<Rightarrow> 's \<Rightarrow> (nat list \<times> 's) option" where
  "takes 0 s = Some ([], s)"
| "takes (Suc n) s = do { (x, s) \<leftarrow> get s; (xs, s) \<leftarrow> takes n s; Some (x # xs, s) }"

lemma takes_front:
  "rep s xs \<Longrightarrow> n \<le> length xs \<Longrightarrow> \<exists>s'. takes n s = Some (take n xs, s') \<and> rep s' (drop n xs) \<and> slots s' = slots s"
proof (induction n arbitrary: s xs)
  case (Suc n)
  then obtain y ys where xs: "xs = y # ys" by (cases xs) auto
  obtain s1 where s1: "get s = Some (y, s1)" "rep s1 ys" "slots s1 = slots s"
    using get_head Suc.prems(1) xs by blast
  then show ?case using Suc.IH [OF s1(2)] Suc.prems(2) xs by auto
qed simp

lemma takes_too_many: "rep s xs \<Longrightarrow> length xs < n \<Longrightarrow> takes n s = None"
proof (induction n arbitrary: s xs)
  case (Suc n)
  show ?case
  proof (cases xs)
    case Nil
    then show ?thesis using get_none Suc.prems(1) by simp
  next
    case (Cons y ys)
    then show ?thesis using get_head [of s y ys] Suc by auto
  qed
qed simp

lemma takes_distinct: "rep s xs \<Longrightarrow> takes n s = Some (ys, s') \<Longrightarrow> distinct ys \<and> set ys \<subseteq> {..<slots s}"
  using takes_front [of s xs n] takes_too_many [of s xs n] rep_slots [of s xs]
  by (cases "n \<le> length xs") (auto dest: in_set_takeD)

text \<open>Any sequence of taking and giving back keeps the slots apart: the free ones and the
  ones in use make up the pool.\<close>

definition parted :: "'s \<Rightarrow> nat set \<Rightarrow> bool" where
  "parted s used \<longleftrightarrow> (\<exists>xs. rep s xs \<and> set xs \<inter> used = {} \<and> set xs \<union> used = {..<slots s})"

lemma parted_get: "parted s used \<Longrightarrow> get s = Some (x, s') \<Longrightarrow> x \<notin> used \<and> x < slots s \<and> parted s' (insert x used)"
proof -
  assume p: "parted s used" "get s = Some (x, s')"
  then obtain xs where xs: "rep s xs" "set xs \<inter> used = {}" "set xs \<union> used = {..<slots s}"
    by (auto simp: parted_def)
  then obtain ys where ys: "xs = x # ys" "rep s' ys" "slots s' = slots s"
    using p(2) get_none [of s] get_head [of s] by (cases xs) force+
  then show ?thesis using xs rep_slots [OF xs(1)] unfolding parted_def by (auto intro!: exI [of _ ys])
qed

lemma parted_put: "parted s used \<Longrightarrow> x \<in> used \<Longrightarrow> parted (put x s) (used - {x})"
proof -
  assume p: "parted s used" "x \<in> used"
  then obtain xs where xs: "rep s xs" "set xs \<inter> used = {}" "set xs \<union> used = {..<slots s}"
    by (auto simp: parted_def)
  then have "x < slots s" "x \<notin> set xs" using p(2) by auto
  from put_new [OF xs(1) this] obtain ys where "rep (put x s) ys" "set ys = insert x (set xs)"
      "slots (put x s) = slots s" by auto
  then show ?thesis using xs p(2) unfolding parted_def by (auto intro!: exI [of _ ys])
qed

lemma parted_empty: "parted s used \<Longrightarrow> get s = None \<longleftrightarrow> used = {..<slots s}"
proof -
  assume "parted s used"
  then obtain xs where xs: "rep s xs" "set xs \<inter> used = {}" "set xs \<union> used = {..<slots s}"
    by (auto simp: parted_def)
  show ?thesis
  proof (cases xs)
    case Nil
    then show ?thesis using xs get_none by simp
  next
    case (Cons y ys)
    then obtain s' where "get s = Some (y, s')" using get_head xs(1) by blast
    moreover have "y \<notin> used" "y < slots s" using xs Cons by auto
    ultimately show ?thesis by auto
  qed
qed

end

section \<open>Queues that share their elements\<close>

text \<open>The contract of a family of queues over numbered elements, each of which is in one queue at
  most: \<open>holds s f\<close> says that queue q has the elements f q in s.\<close>

locale queue_family =
  fixes holds :: "'s \<Rightarrow> ('q \<Rightarrow> nat list) \<Rightarrow> bool"
    and member :: "'s \<Rightarrow> nat \<Rightarrow> bool"
    and enq :: "'q \<Rightarrow> nat \<Rightarrow> 's \<Rightarrow> 's"
    and deq :: "'q \<Rightarrow> 's \<Rightarrow> (nat \<times> 's) option"
  assumes apart: "holds s f \<Longrightarrow> distinct (f q) \<and> (q \<noteq> q' \<longrightarrow> set (f q) \<inter> set (f q') = {})"
    and enq_new: "holds s f \<Longrightarrow> member s i \<Longrightarrow> \<forall>q. i \<notin> set (f q) \<Longrightarrow>
      holds (enq q i s) (f(q := f q @ [i])) \<and> member (enq q i s) = member s"
    and enq_other: "holds s f \<Longrightarrow> \<not> member s i \<or> (\<exists>q. i \<in> set (f q)) \<Longrightarrow> enq q' i s = s"
    and deq_none: "holds s f \<Longrightarrow> f q = [] \<Longrightarrow> deq q s = None"
    and deq_head: "holds s f \<Longrightarrow> f q = x # xs \<Longrightarrow>
      \<exists>s'. deq q s = Some (x, s') \<and> holds s' (f(q := xs)) \<and> member s' = member s"
begin

fun drain :: "nat \<Rightarrow> 'q \<Rightarrow> 's \<Rightarrow> (nat list \<times> 's) option" where
  "drain 0 q s = Some ([], s)"
| "drain (Suc n) q s = do { (x, s) \<leftarrow> deq q s; (xs, s) \<leftarrow> drain n q s; Some (x # xs, s) }"

lemma drain_front:
  "holds s f \<Longrightarrow> n \<le> length (f q) \<Longrightarrow> \<exists>s'. drain n q s = Some (take n (f q), s') \<and> holds s' (f(q := drop n (f q)))"
proof (induction n arbitrary: s f)
  case (Suc n)
  then obtain x xs where x: "f q = x # xs" by (cases "f q") auto
  then obtain s1 where s1: "deq q s = Some (x, s1)" "holds s1 (f(q := xs))"
    using deq_head [OF Suc.prems(1)] by blast
  then show ?case using Suc.IH [OF s1(2)] Suc.prems(2) x by (auto simp: fun_upd_def cong: if_cong)
qed simp

text \<open>Elements added together leave the queue behind those that were there, in their order.\<close>

lemma add_all:
  "holds s f \<Longrightarrow> distinct is \<Longrightarrow> \<forall>i\<in>set is. member s i \<and> (\<forall>q. i \<notin> set (f q)) \<Longrightarrow>
     holds (fold (enq q) is s) (f(q := f q @ is))"
proof (induction "is" arbitrary: s f)
  case (Cons i "is")
  have h: "holds (enq q i s) (f(q := f q @ [i]))" "member (enq q i s) = member s"
    using enq_new [OF Cons.prems(1), of i q] Cons.prems(3) by auto
  have "holds (fold (enq q) is (enq q i s)) ((f(q := f q @ [i]))(q := (f(q := f q @ [i])) q @ is))"
    by (rule Cons.IH [OF h(1)]) (use Cons.prems(2,3) h(2) in auto)
  then show ?case by (simp add: fun_upd_def cong: if_cong)
qed simp

lemma fifo:
  assumes "holds s f" "distinct is" "\<forall>i\<in>set is. member s i \<and> (\<forall>q. i \<notin> set (f q))"
  shows "\<exists>s'. drain (length (f q) + length is) q (fold (enq q) is s) = Some (f q @ is, s') \<and> holds s' (f(q := []))"
  using drain_front [OF add_all [OF assms, of q], of "length (f q) + length is" q] by simp

end

end
