(* ===== verification/SCPool.thy ===== *)
theory SCPool
  imports Ring A64 Hash_Index
begin

unbundle bit_operations_syntax

text \<open>The pool of connections to the servers: \<open>src/sccli/scpool.c\<close>, with \<open>Net_Connect\<close> and
  \<open>disconnect\<close> (\<open>netconnect.c\<close>), the connection part of \<open>net_pkg.c\<close> and the bookkeeping of
  \<open>init_svc_no\<close> and \<open>free_srv_list\<close> (\<open>getsvc.c\<close>).  A pool of index n is a list of paths, one
  per server; a path keeps its connections in an array and the free ones of them in a ring
  through the field \<open>next\<close>.  What the network answers is a record; names, addresses and log
  messages are left out.\<close>

section \<open>The state\<close>

text \<open>\<open>Var_set\<close>, \<open>freevar_set\<close> and \<open>svc_set\<close> say that the pointers \<open>Conn.Var\<close>,
  \<open>Conn.freevar\<close> and \<open>cli.svc_tbl\<close> are not null.\<close>

record resource =
  rnext :: int
  path_no :: int
  Socket :: int
  pos :: u_int
  ctimeout :: int
  Errno :: int
  ctx_id :: u_int
  Var_set :: bool
  freevar_set :: bool
  svc_set :: bool
  has_timeout_deal :: bool
  timestamp :: int

record path_lnk =
  resource_num :: int
  svc_tbl :: svc_table
  DBLABEL :: bytes
  lnk :: "resource list"
  free_q :: int
  weight :: int

abbreviation upd_lnk :: "nat \<Rightarrow> (resource \<Rightarrow> resource) \<Rightarrow> path_lnk \<Rightarrow> path_lnk" where
  "upd_lnk i f pl \<equiv> pl\<lparr>lnk := (lnk pl)[i := f (lnk pl ! i)]\<rparr>"

section \<open>Connecting\<close>

definition ECONNREFUSED :: int where "ECONNREFUSED = 111"
definition EHOSTUNREACH :: int where "EHOSTUNREACH = 113"

text \<open>What the network does for one connection: \<open>opens k\<close> is the descriptor and \<open>errno\<close> of
  the k-th \<open>tcpopen\<close>, \<open>key_ret\<close> the result and \<open>errno\<close> of \<open>get_clikey\<close>, \<open>login k\<close> the answer
  to the k-th login: the result of \<open>RecvPack\<close>, ERRNO1, ERRNO2 and the DBLABEL in it.  The
  fields of the service list are the results of \<open>SendPack\<close>, \<open>RecvPack\<close>, ERRNO1, ERRNO2,
  the services received and whether \<open>malloc\<close> succeeds.\<close>

record net_env =
  conn_repeat :: int
  tcp_timeout :: "int option"
  opens :: "nat \<Rightarrow> int \<times> int"
  key_ret :: "int \<times> int"
  login_text :: bytes
  login :: "nat \<Rightarrow> int \<times> int \<times> int \<times> bytes"
  svc_send :: int
  svc_recv :: int
  svc_errs :: "int \<times> int"
  services :: "srv_list list"
  svc_malloc :: bool

definition initconnect :: "resource \<Rightarrow> resource" where
  "initconnect rs = rs\<lparr>Var_set := False, freevar_set := False, Socket := -1, ctimeout := 0\<rparr>"

text \<open>The loop of \<open>Net_Connect\<close>: the descriptor, or the error it returns at once.\<close>

function open_loop :: "net_env \<Rightarrow> nat \<Rightarrow> int + int \<times> int" where
  "open_loop e n =
     (let (socket_no, i) = opens e n in
      if socket_no \<ge> 0 then Inr (socket_no, i)
      else if i \<noteq> ECONNREFUSED \<and> i \<noteq> EHOSTUNREACH
      then Inl (if i > 0 then - i else if i = 0 then -1 else i)
      else if int n \<ge> conn_repeat e then Inr (socket_no, i)
      else open_loop e (n + 1))"
  by pat_completeness auto
termination by (relation "measure (\<lambda>(e, n). nat (conn_repeat e - int n))") auto

declare open_loop.simps [simp del]

definition Net_Connect :: "net_env \<Rightarrow> resource \<Rightarrow> int \<times> resource" where
  "Net_Connect e rs =
     (let rs = initconnect rs;
          rs = rs\<lparr>Var_set := True\<rparr>;
          rs = (case tcp_timeout e of None \<Rightarrow> rs | Some t \<Rightarrow> rs\<lparr>ctimeout := t\<rparr>)
      in case open_loop e 0 of
           Inl r \<Rightarrow> (r, rs\<lparr>Socket := -1\<rparr>)
         | Inr (socket_no, err) \<Rightarrow>
             let rs = rs\<lparr>Socket := socket_no\<rparr> in
             if socket_no < 0 then (socket_no, rs)
             else if fst (key_ret e) \<ge> 0 then (0, rs)
             else (snd (key_ret e), rs))"

definition freeconnect :: "resource \<Rightarrow> svc_table \<Rightarrow> resource \<times> svc_table" where
  "freeconnect rs t =
     (let rs = rs\<lparr>Socket := -1\<rparr>;
          (rs, t) = (if Var_set rs \<and> freevar_set rs \<and> svc_set rs
                     then let (p, t) = free_srv_list (Some t) in (rs\<lparr>svc_set := p \<noteq> None\<rparr>, the t)
                     else (rs, t))
      in (rs\<lparr>Var_set := False\<rparr>, t))"

definition disconnect :: "nat \<Rightarrow> path_lnk \<Rightarrow> path_lnk" where
  "disconnect i pl =
     (let (rs, t) = freeconnect (lnk pl ! i) (svc_tbl pl)
      in pl\<lparr>lnk := (lnk pl)[i := rs], svc_tbl := t\<rparr>)"

text \<open>The table of services as \<open>init_svc_no\<close> leaves it.\<close>

definition init_svc_no :: "net_env \<Rightarrow> resource \<Rightarrow> svc_table \<Rightarrow> int \<times> resource \<times> svc_table" where
  "init_svc_no e rs t =
     (if \<not> Var_set rs \<or> \<not> svc_set rs then (-1, rs, t)
      else let t = t\<lparr>srv_hash := None, srvlist := None\<rparr> in
      if svc_send e < 0 then (svc_send e, rs, t\<lparr>srvn := 0, usage := -1\<rparr>)
      else if svc_recv e < 0 then (svc_recv e, rs, t\<lparr>srvn := 0, usage := -1\<rparr>)
      else if fst (svc_errs e) \<noteq> 0 \<and> snd (svc_errs e) \<noteq> 0 then (-2, rs, t)
      else let t = t\<lparr>usage := 0, srvn := int (length (services e))\<rparr> in
        if \<not> svc_malloc e
        then (-1, rs\<lparr>svc_set := False\<rparr>, t\<lparr>srvlist := None, srvn := 0, usage := -1\<rparr>)
        else (0, rs\<lparr>freevar_set := True\<rparr>,
              t\<lparr>srvlist := Some (services e), srv_hash := mk_srv_hash (services e)\<rparr>))"

text \<open>The login, repeated while the server has forgotten the context: the result of the last
  answer, with the texts written to the buffer so far and the resource.  \<open>p\<close> is never set
  back to the start of the buffer; a text past the end of its 200 bytes is None.\<close>

partial_function (option) login_loop ::
    "net_env \<Rightarrow> bool \<Rightarrow> nat \<Rightarrow> bytes \<Rightarrow> resource \<Rightarrow> (int \<times> bytes \<times> bytes \<times> resource) option" where
  "login_loop e ctx_flg k buf rs =
     (let buf = buf @ login_text e;
          (ret, ERRNO1, ERRNO2, label) = login e k
      in if length buf \<ge> 200 then None
         else if ret \<noteq> 0 then Some (-2, label, buf, rs)
         else if ERRNO1 \<noteq> 0 \<or> ERRNO2 \<noteq> 0 then
           if ctx_flg \<and> ERRNO1 = -197 then login_loop e ctx_flg (k + 1) buf (rs\<lparr>ctx_id := 0\<rparr>)
           else Some (-3, label, buf, rs)
         else Some (0, label, buf, rs))"

text \<open>\<open>sc_connect\<close> on the connection i of a path.  \<open>None\<close> stands for a login text that overruns its
  buffer, or a wait that only another thread ends, the loop \<open>while(pl->svc_tbl.srvn<0)\<close>.\<close>

definition load_services :: "net_env \<Rightarrow> nat \<Rightarrow> path_lnk \<Rightarrow> int \<times> path_lnk" where
  "load_services e i pl =
     (let (ret, rs, t) = init_svc_no e (lnk pl ! i) ((svc_tbl pl)\<lparr>srvn := -1\<rparr>);
          pl = pl\<lparr>lnk := (lnk pl)[i := rs], svc_tbl := t\<rparr>
      in if ret \<noteq> 0 then (-4, disconnect i (upd_lnk i (\<lambda>rs. rs\<lparr>Errno := -1\<rparr>) pl))
         else (0, upd_lnk i (\<lambda>rs. rs\<lparr>Errno := 0\<rparr>) pl))"

definition join_services :: "net_env \<Rightarrow> nat \<Rightarrow> path_lnk \<Rightarrow> (int \<times> path_lnk) option" where
  "join_services e i pl =
     (let pl = upd_lnk i (\<lambda>rs. rs\<lparr>svc_set := True\<rparr>) pl in
      if srvn (svc_tbl pl) = 0 then Some (load_services e i pl)
      else if srvn (svc_tbl pl) < 0 then None
      else Some (0, upd_lnk i (\<lambda>rs. rs\<lparr>freevar_set := True, Errno := 0\<rparr>)
                      (pl\<lparr>svc_tbl := (svc_tbl pl)\<lparr>usage := usage (svc_tbl pl) + 1\<rparr>\<rparr>)))"

definition log_in :: "bool \<Rightarrow> net_env \<Rightarrow> path_lnk \<Rightarrow> nat \<Rightarrow> (int \<times> path_lnk) option" where
  "log_in ctx_flg e pl i =
     do {
       (ret, label, buf, rs) \<leftarrow> login_loop e ctx_flg 0 [] (lnk pl ! i);
       let pl = upd_lnk i (\<lambda>_. rs) pl;
       if ret \<noteq> 0 then Some (ret, upd_lnk i (\<lambda>rs. rs\<lparr>Errno := -1\<rparr>) (disconnect i pl))
       else
         let pl = (if \<not> ctx_flg \<and> DBLABEL pl = [] then pl\<lparr>DBLABEL := label\<rparr> else pl);
             pl = (if ctx_flg \<and> label \<noteq> []
                   then upd_lnk i (\<lambda>rs. rs\<lparr>ctx_id := snd (str_a64n 1 label [ctx_id rs]) ! 0\<rparr>) pl else pl)
         in join_services e i pl }"

definition sc_connect :: "bool \<Rightarrow> net_env \<Rightarrow> path_lnk \<Rightarrow> nat \<Rightarrow> (int \<times> path_lnk) option" where
  "sc_connect ctx_flg e pl i =
     (let (ret, rs) = Net_Connect e (lnk pl ! i); pl = upd_lnk i (\<lambda>_. rs) pl in
      if ret \<noteq> 0 then Some (-1, upd_lnk i (\<lambda>rs. rs\<lparr>Errno := snd (key_ret e)\<rparr>) pl)
      else let pl = upd_lnk i (\<lambda>rs. rs\<lparr>ctimeout := (case tcp_timeout e of None \<Rightarrow> 0
                   | Some t \<Rightarrow> if 60 * t \<ge> 120 then 60 * t - 60 else 60 * t)\<rparr>) pl
           in log_in ctx_flg e pl i)"

section \<open>The ring of free connections\<close>

definition get_lnk_no :: "path_lnk \<Rightarrow> int \<times> path_lnk" where
  "get_lnk_no pl =
     (if free_q pl < 0 then (-1, pl)
      else let ip = free_q pl;
               i = rnext (lnk pl ! nat ip);
               np = rnext (lnk pl ! nat i);
               pl = (if i = ip then pl\<lparr>free_q := -1\<rparr> else upd_lnk (nat ip) (\<lambda>rs. rs\<lparr>rnext := np\<rparr>) pl);
               pl = upd_lnk (nat i) (\<lambda>rs. rs\<lparr>rnext := -1\<rparr>) pl;
               pl = (if weight pl > 0 then pl\<lparr>weight := weight pl - 1\<rparr> else pl)
           in (i, pl))"

definition add_lnk :: "nat \<Rightarrow> path_lnk \<Rightarrow> path_lnk" where
  "add_lnk i pl =
     (if rnext (lnk pl ! i) \<ge> 0 then pl
      else let np = free_q pl;
               pl = (if np < 0
                     then upd_lnk i (\<lambda>rs. rs\<lparr>rnext := int i\<rparr>) (pl\<lparr>free_q := int i\<rparr>)
                     else let pl = upd_lnk i (\<lambda>rs. rs\<lparr>rnext := rnext (lnk pl ! nat np)\<rparr>) pl;
                              pl = upd_lnk (nat np) (\<lambda>rs. rs\<lparr>rnext := int i\<rparr>) pl
                          in if Socket (lnk pl ! i) < 0 then pl\<lparr>free_q := int i\<rparr> else pl)
           in if weight pl \<ge> 0 then pl\<lparr>weight := weight pl + 1\<rparr> else pl)"

text \<open>\<open>resource_init\<close>: the path number pn of a server with \<open>NUM\<close> configured connections.\<close>

definition new_resource :: "int \<Rightarrow> int \<Rightarrow> int \<Rightarrow> nat \<Rightarrow> resource" where
  "new_resource num pn now i =
     initconnect \<lparr>rnext = (if int i < num - 1 then int i + 1 else 0), path_no = pn, Socket = 0,
       pos = (of_nat i AND 0xFFFF) OR push_bit 16 (of_int pn), ctimeout = 0, Errno = -1, ctx_id = 0,
       Var_set = False, freevar_set = False, svc_set = False, has_timeout_deal = False, timestamp = now\<rparr>"

definition resource_init :: "int \<Rightarrow> int \<Rightarrow> int \<Rightarrow> svc_table \<Rightarrow> path_lnk" where
  "resource_init NUM pn now t =
     (let num = (if NUM > 0 then NUM else 1)
      in \<lparr>resource_num = num, svc_tbl = t\<lparr>srvn := 0\<rparr>, DBLABEL = [],
          lnk = map (new_resource num pn now) [0..<nat num], free_q = num - 1, weight = num\<rparr>)"

section \<open>Taking a connection\<close>

text \<open>What \<open>get_SC_resource\<close> returns: NULL, -1 or a connection of the path.\<close>

datatype got = NULL | Bad | Got nat

definition took :: "int \<Rightarrow> nat \<Rightarrow> path_lnk \<Rightarrow> path_lnk" where
  "took now i pl = upd_lnk i (\<lambda>rs. rs\<lparr>rnext := -1, timestamp := now\<rparr>) pl"

definition connect_failed :: "nat \<Rightarrow> path_lnk \<Rightarrow> path_lnk" where
  "connect_failed i pl = (add_lnk i (upd_lnk i (\<lambda>rs. rs\<lparr>Errno := -1\<rparr>) pl))\<lparr>weight := -1\<rparr>"

definition connect_done :: "path_lnk \<Rightarrow> path_lnk" where
  "connect_done pl =
     (if weight pl < 0
      then pl\<lparr>weight := fold (\<lambda>rs w. if rnext rs \<ge> 0 then w + 1 else w) (take (nat (resource_num pl)) (lnk pl)) 0\<rparr>
      else pl)"

definition handed :: "nat \<Rightarrow> path_lnk \<Rightarrow> path_lnk" where
  "handed i pl = upd_lnk i (\<lambda>rs. rs\<lparr>Errno := 0\<rparr>) pl"

text \<open>The operations take \<open>sc_connect\<close> as an argument, with the state w of the world it reads
  its answers from.  \<open>None\<close> is a wait for another thread.\<close>

type_synonym 'w connector = "'w \<Rightarrow> path_lnk \<Rightarrow> nat \<Rightarrow> (int \<times> path_lnk \<times> 'w) option"

definition get_SC_resource ::
    "'w connector \<Rightarrow> int \<Rightarrow> bool \<Rightarrow> path_lnk \<Rightarrow> 'w \<Rightarrow> (got \<times> path_lnk \<times> 'w) option" where
  "get_SC_resource connect now flg pl w =
     (if lnk pl = [] then Some (NULL, pl, w)
      else let (i, pl) = get_lnk_no pl in
        if i < 0 then (if flg then Some (NULL, pl, w) else None)
        else let i = nat i; pl = took now i pl in
          if Socket (lnk pl ! i) < 0 \<or> Errno (lnk pl ! i) < 0
          then do {
            (ret, pl, w) \<leftarrow> connect w pl i;
            if ret \<noteq> 0 then Some (Bad, connect_failed i pl, w)
            else Some (Got i, handed i (connect_done pl), w) }
          else Some (Got i, handed i pl, w))"

definition get_path_resource ::
    "'w connector \<Rightarrow> int \<Rightarrow> path_lnk list list \<Rightarrow> int \<Rightarrow> int \<Rightarrow> bool \<Rightarrow> 'w \<Rightarrow> (got \<times> path_lnk list list \<times> 'w) option" where
  "get_path_resource connect now scpool poolno pn flg w =
     (if poolno < 0 \<or> poolno \<ge> int (length scpool) then Some (NULL, scpool, w)
      else let paths = scpool ! nat poolno in
        if pn < 0 \<or> pn \<ge> int (length paths) then Some (NULL, scpool, w)
        else do {
          (r, pl, w) \<leftarrow> get_SC_resource connect now flg (paths ! nat pn) w;
          Some (r, scpool[nat poolno := paths[nat pn := pl]], w) })"

section \<open>Balancing the load\<close>

text \<open>The path of greatest weight: \<open>w=pl->weight<<9; w/=pl->resource_num\<close> in 32 bits.\<close>

definition load_of :: "path_lnk \<Rightarrow> int" where
  "load_of pl = sint (push_bit 9 (of_int (weight pl)) :: 32 word) sdiv resource_num pl"

fun heaviest :: "int \<Rightarrow> path_lnk list \<Rightarrow> int \<times> int \<Rightarrow> int \<times> int" where
  "heaviest i [] (max_weight, n) = (max_weight, n)"
| "heaviest i (pl # pls) (max_weight, n) =
     (if weight pl > 0
      then let w = load_of pl in heaviest (i + 1) pls (if w > max_weight then (w, i) else (max_weight, n))
      else heaviest (i + 1) pls (max_weight, n))"

text \<open>The pass over the paths that have failed: the path and connection that recovered, or
  nothing, and whether all paths are bad.\<close>

function retry_bad ::
    "'w connector \<Rightarrow> int \<Rightarrow> nat \<Rightarrow> path_lnk list \<Rightarrow> bool \<Rightarrow> 'w \<Rightarrow> ((nat \<times> nat) option \<times> path_lnk list \<times> bool \<times> 'w) option" where
  "retry_bad connect now m paths bad w =
     (if m \<ge> length paths then Some (None, paths, bad, w)
      else if weight (paths ! m) \<ge> 0 then retry_bad connect now (m + 1) paths False w
      else (case get_SC_resource connect now True (paths ! m) w of
              None \<Rightarrow> None
            | Some (Got i, pl, w) \<Rightarrow> Some (Some (m, i), paths[m := pl], bad, w)
            | Some (r, pl, w) \<Rightarrow> retry_bad connect now (m + 1) (paths[m := pl]) bad w))"
  by pat_completeness auto
termination by (relation "measure (\<lambda>(c, now, m, paths, bad, w). length paths - m)") auto

declare retry_bad.simps [simp del]

datatype chosen = No | Broken | Link nat nat

text \<open>\<open>wait\<close> is \<open>pthread_cond_timedwait\<close>: whether it timed out, and what the other threads did
  meanwhile.\<close>

partial_function (option) weight_loop ::
    "'w connector \<Rightarrow> ('w \<Rightarrow> path_lnk list \<Rightarrow> bool \<times> path_lnk list \<times> 'w) \<Rightarrow> int \<Rightarrow> int \<Rightarrow> int
      \<Rightarrow> path_lnk list \<Rightarrow> 'w \<Rightarrow> (chosen \<times> path_lnk list \<times> 'w) option" where
  "weight_loop connect wait now flg repeat paths w =
     (let (max_weight, n) = heaviest 0 paths (-1, -1) in
      if n \<ge> 0 then do {
        (r, pl, w) \<leftarrow> get_SC_resource connect now True (paths ! nat n) w;
        let paths = paths[nat n := pl];
        (case r of
           Got i \<Rightarrow> Some (Link (nat n) i, paths, w)
         | _ \<Rightarrow> weight_loop connect wait now flg repeat paths w) }
      else do {
        (r, paths, bad, w) \<leftarrow> retry_bad connect now 0 paths True w;
        (case r of
           Some (m, i) \<Rightarrow> Some (Link m i, paths, w)
         | None \<Rightarrow>
             if flg = 0 then Some (No, paths, w)
             else if bad \<or> repeat = 0 then Some (if bad then Broken else No, paths, w)
             else let (timedout, paths, w) = wait w paths
                  in weight_loop connect wait now flg (if timedout then repeat - 1 else repeat) paths w) })"

definition get_SC_by_weight ::
    "'w connector \<Rightarrow> ('w \<Rightarrow> path_lnk list \<Rightarrow> bool \<times> path_lnk list \<times> 'w) \<Rightarrow> int \<Rightarrow> path_lnk list list
      \<Rightarrow> int \<Rightarrow> int \<Rightarrow> 'w \<Rightarrow> (chosen \<times> path_lnk list list \<times> 'w) option" where
  "get_SC_by_weight connect wait now scpool poolno flg w =
     (if poolno < 0 \<or> poolno \<ge> int (length scpool) then Some (No, scpool, w)
      else do {
        (r, paths, w) \<leftarrow> weight_loop connect wait now flg flg (scpool ! nat poolno) w;
        Some (r, scpool[nat poolno := paths], w) })"

text \<open>\<open>get_SC_connect\<close>: with flg -1 a broken pool is NULL too.\<close>

definition get_SC_connect ::
    "'w connector \<Rightarrow> ('w \<Rightarrow> path_lnk list \<Rightarrow> bool \<times> path_lnk list \<times> 'w) \<Rightarrow> int \<Rightarrow> path_lnk list list
      \<Rightarrow> int \<Rightarrow> int \<Rightarrow> 'w \<Rightarrow> (chosen \<times> path_lnk list list \<times> 'w) option" where
  "get_SC_connect connect wait now scpool poolno flg w =
     do { (r, scpool, w) \<leftarrow> get_SC_by_weight connect wait now scpool poolno flg w;
          (case r of
             Link m i \<Rightarrow> Some (r, scpool, w)
           | _ \<Rightarrow> Some (if flg = -1 then No else r, scpool, w)) }"

section \<open>Giving a connection back\<close>

text \<open>A connection is the place of its resource: path and index.  \<open>lnk_no\<close> searches it in the
  path pn and corrects its \<open>pos\<close>.\<close>

definition lnk_no :: "nat \<Rightarrow> path_lnk \<Rightarrow> nat \<times> nat \<Rightarrow> u_int \<Rightarrow> int \<times> path_lnk" where
  "lnk_no pn pl conn cpos =
     (let e = uint (cpos AND 0xFFFF) in
      if e < resource_num pl \<and> conn = (pn, nat e) then (e, pl)
      else case find (\<lambda>i. conn = (pn, i)) [0..<nat (resource_num pl)] of
             Some i \<Rightarrow> (int i, upd_lnk i (\<lambda>rs. rs\<lparr>pos := push_bit 16 (of_int (path_no rs)) OR (of_nat i AND 0xFFFF)\<rparr>) pl)
           | None \<Rightarrow> (-1, pl))"

definition release_lnk :: "int \<Rightarrow> nat \<Rightarrow> path_lnk \<Rightarrow> path_lnk" where
  "release_lnk now i pl =
     (let pl = upd_lnk i (\<lambda>rs. rs\<lparr>timestamp := now\<rparr>) pl;
          pl = (if Errno (lnk pl ! i) = -1 then disconnect i pl else pl)
      in add_lnk i pl)"

text \<open>\<open>None\<close> is the write through the null pointer \<open>Conn.Var\<close> of a connection never opened.\<close>

definition release_SC_connect ::
    "int \<Rightarrow> (nat \<times> nat) option \<Rightarrow> path_lnk list list \<Rightarrow> int \<Rightarrow> path_lnk list list option" where
  "release_SC_connect now conn scpool n =
     (if n < 0 \<or> n \<ge> int (length scpool) then Some scpool
      else case conn of
        None \<Rightarrow> Some scpool
      | Some (cp, ci) \<Rightarrow>
          let paths = scpool ! nat n;
              rs = lnk (paths ! cp) ! ci;
              i = unat (drop_bit 16 (pos rs))
          in if i \<ge> length paths then Some scpool
             else let (k, pl) = lnk_no i (paths ! i) (cp, ci) (pos rs) in
               if k < 0 then Some (scpool[nat n := paths[i := pl]])
               else if \<not> Var_set rs then None
               else Some (scpool[nat n := paths[i := handed (nat k) (release_lnk now (nat k) pl)]]))"

section \<open>Watching the pool\<close>

text \<open>\<open>deal\<close> is the callback \<open>timeout_deal\<close> of a resource in use.\<close>

definition check_lnk :: "(nat \<Rightarrow> path_lnk \<Rightarrow> path_lnk) \<Rightarrow> int \<Rightarrow> nat \<Rightarrow> path_lnk \<Rightarrow> path_lnk" where
  "check_lnk deal now i pl =
     (let rs = lnk pl ! i in
      if rnext rs \<ge> 0
      then (if Socket rs > -1 \<and> now - timestamp rs > 299000000 then disconnect i pl else pl)
      else let k = of_int ((now - timestamp rs) sdiv 1000000) :: 32 word
           in if has_timeout_deal rs \<and> ctimeout rs > 0 \<and> uint k > ctimeout rs then deal i pl else pl)"

definition check_path :: "(nat \<Rightarrow> path_lnk \<Rightarrow> path_lnk) \<Rightarrow> int \<Rightarrow> path_lnk \<Rightarrow> path_lnk" where
  "check_path deal now pl =
     (if lnk pl = [] then pl else fold (check_lnk deal now) [0..<nat (resource_num pl)] pl)"

definition scpool_check ::
    "(nat \<Rightarrow> path_lnk \<Rightarrow> path_lnk) \<Rightarrow> int \<Rightarrow> path_lnk list list \<Rightarrow> path_lnk list list" where
  "scpool_check deal now scpool = map (map (check_path deal now)) scpool"

section \<open>Looking up a pool\<close>

definition get_scpool_no :: "int list \<Rightarrow> int \<Rightarrow> int" where
  "get_scpool_no d_nodes d_node =
     (case find (\<lambda>n. d_nodes ! n = d_node) [0..<length d_nodes] of Some n \<Rightarrow> int n | None \<Rightarrow> -1)"

definition getPathNum :: "path_lnk list list \<Rightarrow> int \<Rightarrow> int" where
  "getPathNum scpool poolno =
     (if poolno < 0 \<or> poolno \<ge> int (length scpool) then -1 else int (length (scpool ! nat poolno)))"

definition get_total_conn_num :: "path_lnk list list \<Rightarrow> int \<Rightarrow> int" where
  "get_total_conn_num scpool poolno =
     (if poolno < 0 \<or> poolno \<ge> int (length scpool) then -1
      else fold (\<lambda>pl total. total + resource_num pl) (scpool ! nat poolno) 0)"

section \<open>The ring as a list\<close>

definition nx_of :: "resource list \<Rightarrow> nat \<Rightarrow> nat option" where
  "nx_of l i = (if i < length l \<and> rnext (l ! i) \<ge> 0 then Some (nat (rnext (l ! i))) else None)"

definition tail_of :: "path_lnk \<Rightarrow> nat option" where
  "tail_of pl = (if free_q pl < 0 then None else Some (nat (free_q pl)))"

text \<open>The free connections of a path are xs, in the order in which they will be taken; all
  others are marked with a negative next; the weight is their number unless it is -1.\<close>

definition free_list :: "path_lnk \<Rightarrow> nat list \<Rightarrow> bool" where
  "free_list pl xs \<longleftrightarrow> ring (nx_of (lnk pl)) (tail_of pl) xs \<and> (\<forall>j. j \<in> set xs \<longleftrightarrow> j < length (lnk pl) \<and> rnext (lnk pl ! j) \<ge> 0) \<and>
     (weight pl = -1 \<or> weight pl = int (length xs)) \<and> resource_num pl = int (length (lnk pl))"

lemma nx_of_upd [ring_simps]:
  "i < length l \<Longrightarrow> nx_of (l[i := r]) = (nx_of l)(i := if rnext r \<ge> 0 then Some (nat (rnext r)) else None)"
  by (auto simp: nx_of_def fun_eq_iff nth_list_update)

lemma tail_of_fields [ring_simps]:
  "tail_of (pl\<lparr>weight := w\<rparr>) = tail_of pl" "tail_of (pl\<lparr>lnk := l\<rparr>) = tail_of pl"
  "tail_of (pl\<lparr>free_q := q\<rparr>) = (if q < 0 then None else Some (nat q))"
  by (simp_all add: tail_of_def)

lemma free_list_nil: "free_list pl [] \<Longrightarrow> get_lnk_no pl = (-1, pl)"
  by (auto simp: free_list_def get_lnk_no_def tail_of_def split: if_splits)

lemma free_list_get:
  assumes "free_list pl (x # xs)"
  shows "\<exists>pl'. get_lnk_no pl = (int x, pl') \<and> free_list pl' xs \<and> length (lnk pl') = length (lnk pl)"
proof -
  have f: "ring (nx_of (lnk pl)) (tail_of pl) (x # xs)" "\<And>j. j \<in> set (x # xs) \<longleftrightarrow> j < length (lnk pl) \<and> rnext (lnk pl ! j) \<ge> 0"
      "weight pl = -1 \<or> weight pl = int (length (x # xs))" "resource_num pl = int (length (lnk pl))"
    using assms by (simp_all add: free_list_def)
  obtain t where t: "tail_of pl = Some t" using f(1) by (cases "tail_of pl") auto
  then have q: "free_q pl = int t" by (auto simp: tail_of_def split: if_splits)
  have nt: "nx_of (lnk pl) t = Some x" using ring_head f(1) t by simp
  then have tl: "t < length (lnk pl)" "rnext (lnk pl ! t) = int x" by (auto simp: nx_of_def split: if_splits)
  have x: "x < length (lnk pl)" "rnext (lnk pl ! x) \<ge> 0" using f(2) [of x] by auto
  have d: "distinct (x # xs)" using ring_distinct f(1) .
  show ?thesis
  proof (cases "xs = []")
    case True
    then have "t = x" using ring_pop_one f(1) t by auto
    let ?pl = "upd_lnk x (\<lambda>rs. rs\<lparr>rnext := -1\<rparr>) (pl\<lparr>free_q := -1\<rparr>)"
    let ?pl' = "if weight pl > 0 then ?pl\<lparr>weight := weight pl - 1\<rparr> else ?pl"
    have g: "get_lnk_no pl = (int x, ?pl')" using q tl \<open>t = x\<close> by (simp add: get_lnk_no_def Let_def)
    have only: "j < length (lnk pl) \<and> rnext (lnk pl ! j) \<ge> 0 \<longleftrightarrow> j = x" for j
      using f(2) [of j] True by simp
    have "j < length (lnk ?pl') \<Longrightarrow> rnext (lnk ?pl' ! j) < 0" for j
      using only [of j] by (auto simp: nth_list_update split: if_splits)
    then have "free_list ?pl' []" using f(3,4) True
      by (auto simp: free_list_def ring_simps not_le)
    then show ?thesis using g True by auto
  next
    case False
    note r = ring_pop [OF f(1) [unfolded t] False]
    let ?pl = "upd_lnk x (\<lambda>rs. rs\<lparr>rnext := -1\<rparr>) (upd_lnk t (\<lambda>rs. rs\<lparr>rnext := rnext (lnk pl ! x)\<rparr>) pl)"
    let ?pl' = "if weight ?pl > 0 then ?pl\<lparr>weight := weight ?pl - 1\<rparr> else ?pl"
    have g: "get_lnk_no pl = (int x, ?pl')" using q tl r
      by (simp add: get_lnk_no_def Let_def)
    have "nx_of (lnk ?pl') = ((nx_of (lnk pl))(t := nx_of (lnk pl) x))(x := None)"
      using tl x by (simp add: ring_simps nx_of_def fun_eq_iff nth_list_update)
    then have rr: "ring (nx_of (lnk ?pl')) (Some t) xs" using r by (simp add: ring_simps)
    have tl2: "tail_of ?pl' = Some t" using t by (simp add: ring_simps)
    have "ring (nx_of (lnk ?pl')) (tail_of ?pl') xs" unfolding tl2 by (rule rr)
    moreover have "j \<in> set xs \<longleftrightarrow> j < length (lnk ?pl') \<and> rnext (lnk ?pl' ! j) \<ge> 0" for j
    proof -
      have l: "lnk ?pl' = (lnk pl)[t := (lnk pl ! t)\<lparr>rnext := rnext (lnk pl ! x)\<rparr>,
          x := (lnk pl ! x)\<lparr>rnext := -1\<rparr>]" using r by simp
      show ?thesis
      proof (cases "j = x")
        case True
        then show ?thesis unfolding l using d x(1) by simp
      next
        case False
        then show ?thesis unfolding l using f(2) [of j] f(2) [of t] tl x
          by (cases "j = t") simp_all
      qed
    qed
    moreover have "weight ?pl' = -1 \<or> weight ?pl' = int (length xs)" using f(3) by auto
    moreover have "resource_num ?pl' = int (length (lnk ?pl'))" using f(4) by simp
    ultimately have "free_list ?pl' xs" unfolding free_list_def by blast
    then show ?thesis using g by auto
  qed
qed

lemma add_lnk_again: "rnext (lnk pl ! i) \<ge> 0 \<Longrightarrow> add_lnk i pl = pl"
  by (simp add: add_lnk_def)

lemma free_list_put:
  assumes "free_list pl xs" "i < length (lnk pl)" "i \<notin> set xs"
  shows "\<exists>ys. free_list (add_lnk i pl) ys \<and> (ys = xs @ [i] \<or> ys = i # xs) \<and>
    length (lnk (add_lnk i pl)) = length (lnk pl)"
proof -
  have f: "ring (nx_of (lnk pl)) (tail_of pl) xs" "\<And>j. j \<in> set xs \<longleftrightarrow> j < length (lnk pl) \<and> rnext (lnk pl ! j) \<ge> 0"
      "weight pl = -1 \<or> weight pl = int (length xs)" "resource_num pl = int (length (lnk pl))"
    using assms by (simp_all add: free_list_def)
  have n: "\<not> rnext (lnk pl ! i) \<ge> 0" using f(2) assms by auto
  show ?thesis
  proof (cases "tail_of pl")
    case None
    then have xs: "xs = []" "free_q pl < 0" using f(1) by (auto simp: tail_of_def split: if_splits)
    let ?pl = "upd_lnk i (\<lambda>rs. rs\<lparr>rnext := int i\<rparr>) (pl\<lparr>free_q := int i\<rparr>)"
    let ?pl' = "if weight pl \<ge> 0 then ?pl\<lparr>weight := weight pl + 1\<rparr> else ?pl"
    have a: "add_lnk i pl = ?pl'" using n xs by (simp add: add_lnk_def Let_def)
    have "free_list ?pl' [i]" using assms(2) n f(2-4) xs
      by (auto simp: free_list_def ring_simps ring_single nth_list_update)
    then show ?thesis unfolding a using xs by auto
  next
    case (Some t)
    have q: "free_q pl = int t" using Some by (auto simp: tail_of_def split: if_splits)
    have "xs \<noteq> []" using f(1) Some by auto
    then have "t \<in> set xs" using f(1) Some by (auto simp: ring_def)
    then have t: "t < length (lnk pl)" "rnext (lnk pl ! t) \<ge> 0" "i \<noteq> t" using f(2) assms(3) by auto
    let ?pl = "upd_lnk t (\<lambda>rs. rs\<lparr>rnext := int i\<rparr>) (upd_lnk i (\<lambda>rs. rs\<lparr>rnext := rnext (lnk pl ! t)\<rparr>) pl)"
    let ?bad = "Socket (lnk pl ! i) < 0"
    let ?ys = "if ?bad then xs @ [i] else i # xs"
    let ?pl' = "(if ?bad then ?pl\<lparr>free_q := int i\<rparr> else ?pl)"
    let ?pl'' = "if weight pl \<ge> 0 then ?pl'\<lparr>weight := weight pl + 1\<rparr> else ?pl'"
    have a: "add_lnk i pl = ?pl''" using n q t assms(2) by (simp add: add_lnk_def Let_def)
    have nx: "nx_of (lnk ?pl'') = (nx_of (lnk pl))(i := nx_of (lnk pl) t, t := Some i)"
      using t assms(2) by (simp add: ring_simps nx_of_def fun_eq_iff nth_list_update)
    have tl: "tail_of ?pl'' = Some (if ?bad then i else t)" using Some by (simp add: ring_simps)
    have "ring (nx_of (lnk ?pl'')) (tail_of ?pl'') ?ys" unfolding nx tl
      using ring_grow [OF f(1) [unfolded Some] assms(3)] by simp
    moreover have "j \<in> set ?ys \<longleftrightarrow> j < length (lnk ?pl'') \<and> rnext (lnk ?pl'' ! j) \<ge> 0" for j
    proof -
      have l: "lnk ?pl'' = (lnk pl)[i := (lnk pl ! i)\<lparr>rnext := rnext (lnk pl ! t)\<rparr>,
          t := (lnk pl ! t)\<lparr>rnext := int i\<rparr>]" using t(3) by simp
      show ?thesis
      proof (cases "j = i")
        case True
        then show ?thesis unfolding l using t assms(2) by simp
      next
        case False
        then show ?thesis unfolding l using f(2) [of j] f(2) [of t] t
          by (cases "j = t") simp_all
      qed
    qed
    moreover have "weight ?pl'' = -1 \<or> weight ?pl'' = int (length ?ys)" using f(3) by auto
    moreover have "resource_num ?pl'' = int (length (lnk ?pl''))" using f(4) by simp
    ultimately have "free_list ?pl'' ?ys" unfolding free_list_def by blast
    then show ?thesis unfolding a by (intro exI [of _ ?ys]) simp
  qed
qed

definition take_lnk :: "path_lnk \<Rightarrow> (nat \<times> path_lnk) option" where
  "take_lnk pl = (case get_lnk_no pl of (i, pl) \<Rightarrow> if i < 0 then None else Some (nat i, pl))"

interpretation conns: slot_pool free_list "\<lambda>pl. length (lnk pl)" take_lnk add_lnk
proof
  fix pl xs x i
  show "free_list pl xs \<Longrightarrow> distinct xs \<and> set xs \<subseteq> {..<length (lnk pl)}"
    by (auto simp: free_list_def dest: ring_distinct)
  show "free_list pl [] \<Longrightarrow> take_lnk pl = None" by (simp add: take_lnk_def free_list_nil)
  show "free_list pl (x # xs) \<Longrightarrow> \<exists>s'. take_lnk pl = Some (x, s') \<and> free_list s' xs \<and> length (lnk s') = length (lnk pl)"
    using free_list_get [of pl x xs] by (auto simp: take_lnk_def)
  show "free_list pl xs \<Longrightarrow> i < length (lnk pl) \<Longrightarrow> i \<notin> set xs \<Longrightarrow> \<exists>ys. free_list (add_lnk i pl) ys \<and>
      (ys = xs @ [i] \<or> ys = i # xs) \<and> length (lnk (add_lnk i pl)) = length (lnk pl)"
    by (rule free_list_put)
  show "free_list pl xs \<Longrightarrow> i \<in> set xs \<Longrightarrow> add_lnk i pl = pl"
    by (auto simp: free_list_def add_lnk_again)
qed

section \<open>What leaves the ring alone\<close>

definition same_ring :: "path_lnk \<Rightarrow> path_lnk \<Rightarrow> bool" where
  "same_ring pl pl' \<longleftrightarrow> free_q pl' = free_q pl \<and> weight pl' = weight pl \<and>
     resource_num pl' = resource_num pl \<and> map rnext (lnk pl') = map rnext (lnk pl)"

lemma same_ring_refl [simp]: "same_ring pl pl"
  by (simp add: same_ring_def)

lemma same_ring_trans [trans]: "same_ring a b \<Longrightarrow> same_ring b c \<Longrightarrow> same_ring a c"
  by (simp add: same_ring_def)

lemma same_ring_length: "same_ring pl pl' \<Longrightarrow> length (lnk pl') = length (lnk pl)"
  unfolding same_ring_def by (metis length_map)

lemma same_ring_rnext: "same_ring pl pl' \<Longrightarrow> i < length (lnk pl) \<Longrightarrow> rnext (lnk pl' ! i) = rnext (lnk pl ! i)"
  unfolding same_ring_def by (metis length_map nth_map)

lemma same_ring_free: "same_ring pl pl' \<Longrightarrow> free_list pl' xs = free_list pl xs"
proof -
  assume s: "same_ring pl pl'"
  note l = same_ring_length [OF s] and r = same_ring_rnext [OF s]
  have "nx_of (lnk pl') = nx_of (lnk pl)" using l r by (auto simp: nx_of_def fun_eq_iff)
  moreover have "tail_of pl' = tail_of pl" using s by (simp add: tail_of_def same_ring_def)
  moreover have "(j < length (lnk pl') \<and> rnext (lnk pl' ! j) \<ge> 0) = (j < length (lnk pl) \<and> rnext (lnk pl ! j) \<ge> 0)" for j
    using l r [of j] by auto
  ultimately show ?thesis using s l by (simp add: free_list_def same_ring_def)
qed

lemma map_rnext_upd: "rnext r = rnext (l ! i) \<Longrightarrow> map rnext (l[i := r]) = map rnext l"
  by (cases "i < length l") (auto simp: map_update intro!: nth_equalityI simp: nth_list_update)

lemma same_ring_upd [ring_simps]:
  "rnext r = rnext (lnk pl ! i) \<Longrightarrow> same_ring pl (pl\<lparr>lnk := (lnk pl)[i := r]\<rparr>)"
  "rnext r = rnext (lnk pl ! i) \<Longrightarrow> same_ring pl (pl\<lparr>lnk := (lnk pl)[i := r], svc_tbl := t\<rparr>)"
  "rnext r = rnext (lnk pl ! i) \<Longrightarrow> same_ring pl (pl\<lparr>lnk := (lnk pl)[i := r], svc_tbl := t, DBLABEL := d\<rparr>)"
  "same_ring pl (pl\<lparr>svc_tbl := t\<rparr>)" "same_ring pl (pl\<lparr>DBLABEL := d\<rparr>)"
  by (simp_all add: same_ring_def map_rnext_upd)

lemma same_ring_if: "same_ring pl a \<Longrightarrow> same_ring pl b \<Longrightarrow> same_ring pl (if c then a else b)"
  by simp

lemma freeconnect_rnext: "rnext (fst (freeconnect rs t)) = rnext rs"
  by (simp add: freeconnect_def Let_def split: prod.splits)

lemma disconnect_ring [ring_simps]: "same_ring pl (disconnect i pl)"
  using freeconnect_rnext [of "lnk pl ! i" "svc_tbl pl"]
  by (auto simp: disconnect_def split: prod.splits intro: same_ring_upd)

lemma Net_Connect_rnext: "rnext (snd (Net_Connect e rs)) = rnext rs"
  by (auto simp: Net_Connect_def initconnect_def Let_def split: sum.splits option.splits prod.splits)

lemma init_svc_no_rnext: "init_svc_no e rs t = (ret, rs', t') \<Longrightarrow> rnext rs' = rnext rs"
  by (auto simp: init_svc_no_def Let_def split: if_splits)

lemma load_services_ring: "same_ring pl (snd (load_services e i pl))"
proof -
  obtain ret rs t where r: "init_svc_no e (lnk pl ! i) ((svc_tbl pl)\<lparr>srvn := -1\<rparr>) = (ret, rs, t)"
    by (metis prod_cases3)
  let ?pl = "pl\<lparr>lnk := (lnk pl)[i := rs], svc_tbl := t\<rparr>"
  have a: "same_ring pl ?pl" using init_svc_no_rnext [OF r] by (rule same_ring_upd)
  have u: "same_ring ?pl (upd_lnk i (\<lambda>rs. rs\<lparr>Errno := n\<rparr>) ?pl)" for n by (rule same_ring_upd) simp
  show ?thesis unfolding load_services_def r
    using same_ring_trans [OF a u [of 0]] same_ring_trans [OF same_ring_trans [OF a u [of "-1"]] disconnect_ring]
    by (simp add: Let_def)
qed

lemma login_loop_rnext:
  assumes "login_loop e c k buf rs = Some (ret, label, buf', rs')"
  shows "rnext rs' = rnext rs"
proof -
  have "case x of (_, _, _, rs') \<Rightarrow> rnext rs' = rnext rs" if "login_loop e c k buf rs = Some x" for x
    by (rule login_loop.raw_induct [OF _ that])
      (fastforce simp: Let_def split: prod.splits if_splits)
  from this [OF assms] show ?thesis by simp
qed

lemma same_ring_fun: "same_ring pl0 pl \<Longrightarrow> (\<And>r. rnext (f r) = rnext r) \<Longrightarrow> same_ring pl0 (upd_lnk i f pl)"
  using same_ring_trans same_ring_upd(1) by blast

lemma join_services_ring: "join_services e i pl = Some (ret, pl') \<Longrightarrow> same_ring pl pl'"
proof -
  assume j: "join_services e i pl = Some (ret, pl')"
  let ?p = "upd_lnk i (\<lambda>rs. rs\<lparr>svc_set := True\<rparr>) pl"
  let ?q = "?p\<lparr>svc_tbl := (svc_tbl ?p)\<lparr>usage := usage (svc_tbl ?p) + 1\<rparr>\<rparr>"
  have p: "same_ring pl ?p" by (rule same_ring_fun) simp_all
  have "same_ring pl (upd_lnk i (\<lambda>rs. rs\<lparr>freevar_set := True, Errno := 0\<rparr>) ?q)"
    by (rule same_ring_fun [OF same_ring_trans [OF p same_ring_upd(4)]]) simp
  moreover have "same_ring pl (snd (load_services e i ?p))"
    by (rule same_ring_trans [OF p load_services_ring])
  ultimately show ?thesis using j unfolding join_services_def Let_def
    by (metis option.discI option.inject snd_conv)
qed

lemma log_in_ring: "log_in ctx_flg e pl i = Some (ret, pl') \<Longrightarrow> same_ring pl pl'"
proof -
  assume a: "log_in ctx_flg e pl i = Some (ret, pl')"
  then obtain r label buf rs where l: "login_loop e ctx_flg 0 [] (lnk pl ! i) = Some (r, label, buf, rs)"
    by (auto simp: log_in_def split: bind_splits)
  define p where "p = upd_lnk i (\<lambda>_. rs) pl"
  have p: "same_ring pl p" unfolding p_def by (rule same_ring_upd(1)) (rule login_loop_rnext [OF l])
  have "same_ring pl (upd_lnk i (\<lambda>rs. rs\<lparr>Errno := -1\<rparr>) (disconnect i p))"
    by (rule same_ring_fun [OF same_ring_trans [OF p disconnect_ring]]) simp
  moreover define q where "q = (if \<not> ctx_flg \<and> DBLABEL p = [] then p\<lparr>DBLABEL := label\<rparr> else p)"
  have q: "same_ring pl q" unfolding q_def using p same_ring_trans [OF p same_ring_upd(5)] by simp
  moreover define q' where "q' = (if ctx_flg \<and> label \<noteq> []
      then upd_lnk i (\<lambda>rs. rs\<lparr>ctx_id := snd (str_a64n 1 label [ctx_id rs]) ! 0\<rparr>) q else q)"
  have q': "same_ring pl q'" unfolding q'_def using q by (intro same_ring_if same_ring_fun) simp_all
  have j: "same_ring pl pl'" if "join_services e i q' = Some (ret, pl')"
    using same_ring_trans [OF q' join_services_ring [OF that]] .
  ultimately show ?thesis using a j unfolding log_in_def l bind.simps prod.case Let_def p_def [symmetric]
      q_def [symmetric] q'_def [symmetric]
    by (metis option.inject prod.inject)
qed

lemma sc_connect_ring:
  assumes "sc_connect ctx_flg e pl i = Some (ret, pl')"
  shows "same_ring pl pl'"
proof -
  obtain r0 rs0 where n: "Net_Connect e (lnk pl ! i) = (r0, rs0)" by fastforce
  define p where "p = upd_lnk i (\<lambda>_. rs0) pl"
  have p: "same_ring pl p" unfolding p_def
    using Net_Connect_rnext [of e "lnk pl ! i"] n by (intro same_ring_upd(1)) simp
  define q where "q = upd_lnk i (\<lambda>rs. rs\<lparr>ctimeout := (case tcp_timeout e of None \<Rightarrow> 0
                   | Some t \<Rightarrow> if 60 * t \<ge> 120 then 60 * t - 60 else 60 * t)\<rparr>) p"
  have q: "same_ring pl q" unfolding q_def by (rule same_ring_fun [OF p]) simp
  have f: "same_ring pl (upd_lnk i (\<lambda>rs. rs\<lparr>Errno := n\<rparr>) p)" for n by (rule same_ring_fun [OF p]) simp
  show ?thesis using assms f same_ring_trans [OF q log_in_ring]
    unfolding sc_connect_def n prod.case Let_def p_def [symmetric] q_def [symmetric]
    by (auto split: if_splits)
qed

section \<open>Runs of the pool\<close>

lemma add_lnk_length: "length (lnk (add_lnk i pl)) = length (lnk pl)"
  by (simp add: add_lnk_def Let_def)

lemma recount: "fold (\<lambda>rs w. if rnext rs \<ge> 0 then w + 1 else w) l (w :: int) =
    w + int (length (filter (\<lambda>rs. rnext rs \<ge> 0) l))"
  by (induction l arbitrary: w) auto

lemma free_list_count:
  assumes "free_list pl xs"
  shows "length (filter (\<lambda>rs. rnext rs \<ge> 0) (lnk pl)) = length xs"
proof -
  have "{i. i < length (lnk pl) \<and> rnext (lnk pl ! i) \<ge> 0} = set xs"
    using assms by (auto simp: free_list_def)
  then show ?thesis using assms
    by (simp add: length_filter_conv_card free_list_def ring_def distinct_card)
qed

lemma weight_set_free:
  "free_list pl xs \<Longrightarrow> w = -1 \<or> w = int (length xs) \<Longrightarrow> free_list (pl\<lparr>weight := w\<rparr>) xs"
  unfolding free_list_def ring_simps by simp

lemma connect_done_free:
  assumes "free_list pl xs"
  shows "free_list (connect_done pl) xs"
proof (cases "weight pl < 0")
  case True
  have "take (nat (resource_num pl)) (lnk pl) = lnk pl" using assms by (simp add: free_list_def)
  then have "connect_done pl = pl\<lparr>weight := int (length xs)\<rparr>" using True free_list_count [OF assms]
    by (simp only: connect_done_def recount if_True) simp
  then show ?thesis using weight_set_free [OF assms] by simp
qed (use assms in \<open>simp add: connect_done_def\<close>)

lemmas weight_off_free = weight_set_free [OF _ disjI1 [OF refl]]

text \<open>One path shared by threads: \<open>busy\<close> are the connections handed to callers, \<open>linking\<close>
  those in \<open>sc_connect\<close>, outside the lock.  A step is one critical section of \<open>scpool.c\<close> or
  the work of a thread on a connection it holds.  Clearing \<open>Errno\<close> after a release happens
  outside the lock, at any later time.\<close>

record run =
  rpl :: path_lnk
  busy :: "nat set"
  linking :: "nat set"

inductive pstep :: "run \<Rightarrow> run \<Rightarrow> bool" where
  take: "get_lnk_no (rpl s) = (i, pl) \<Longrightarrow> 0 \<le> i \<Longrightarrow>
    pstep s (s\<lparr>rpl := took now (nat i) pl, linking := insert (nat i) (linking s)\<rparr>)"
| work: "i \<in> busy s \<union> linking s \<Longrightarrow> rnext r = rnext (lnk (rpl s) ! i) \<Longrightarrow>
    pstep s (s\<lparr>rpl := (rpl s)\<lparr>lnk := (lnk (rpl s))[i := r], svc_tbl := t, DBLABEL := d\<rparr>\<rparr>)"
| fail: "i \<in> linking s \<Longrightarrow>
    pstep s (s\<lparr>rpl := connect_failed i (rpl s), linking := linking s - {i}\<rparr>)"
| ready: "i \<in> linking s \<Longrightarrow> pl = rpl s \<or> pl = connect_done (rpl s) \<Longrightarrow>
    pstep s (s\<lparr>rpl := handed i pl, busy := insert i (busy s), linking := linking s - {i}\<rparr>)"
| release: "i \<in> busy s \<Longrightarrow>
    pstep s (s\<lparr>rpl := release_lnk now i (rpl s), busy := busy s - {i}\<rparr>)"
| clear: "pstep s (s\<lparr>rpl := handed i (rpl s)\<rparr>)"
| check: "pstep s (s\<lparr>rpl := check_lnk (\<lambda>_ pl. pl) now i (rpl s)\<rparr>)"

definition start :: "int \<Rightarrow> int \<Rightarrow> int \<Rightarrow> svc_table \<Rightarrow> run" where
  "start NUM pn now t = \<lparr>rpl = resource_init NUM pn now t, busy = {}, linking = {}\<rparr>"

definition run_ok :: "nat \<Rightarrow> run \<Rightarrow> bool" where
  "run_ok n s \<longleftrightarrow> length (lnk (rpl s)) = n \<and> conns.parted (rpl s) (busy s \<union> linking s) \<and> busy s \<inter> linking s = {}"

lemma parted_same: "same_ring pl pl' \<Longrightarrow> conns.parted pl' used = conns.parted pl used"
  by (simp add: conns.parted_def same_ring_free same_ring_length)

lemma parted_map:
  "(\<And>xs. free_list pl xs \<Longrightarrow> free_list pl' xs) \<Longrightarrow> length (lnk pl') = length (lnk pl) \<Longrightarrow>
     conns.parted pl used \<Longrightarrow> conns.parted pl' used"
  by (auto simp: conns.parted_def)

lemma handed_ring: "same_ring pl (handed i pl)"
  unfolding handed_def by (rule same_ring_fun) simp_all

lemma check_lnk_ring: "same_ring pl (check_lnk (\<lambda>_ pl. pl) now i pl)"
  by (simp add: check_lnk_def Let_def disconnect_ring)

lemma release_lnk_add: "\<exists>pl'. release_lnk now i pl = add_lnk i pl' \<and> same_ring pl pl'"
proof -
  have t: "same_ring pl (upd_lnk i (\<lambda>rs. rs\<lparr>timestamp := now\<rparr>) pl)" by (rule same_ring_fun) simp_all
  show ?thesis using t same_ring_trans [OF t disconnect_ring] unfolding release_lnk_def Let_def by auto
qed

lemma took_ring:
  "rnext (lnk pl ! i) = -1 \<Longrightarrow> same_ring pl (took now i pl)"
  unfolding took_def by (rule same_ring_upd(1)) simp

lemma taken_unlinked: "get_lnk_no pl = (i, pl') \<Longrightarrow> 0 \<le> i \<Longrightarrow> nat i < length (lnk pl) \<Longrightarrow> rnext (lnk pl' ! nat i) = -1"
  by (auto simp: get_lnk_no_def Let_def split: if_splits)

lemma connect_done_length: "length (lnk (connect_done pl)) = length (lnk pl)"
  by (simp add: connect_done_def)

lemma run_step:
  assumes "pstep s s'" "run_ok n s"
  shows "run_ok n s'"
  using assms
proof cases
  case (take i pl now)
  then have g: "take_lnk (rpl s) = Some (nat i, pl)" by (simp add: take_lnk_def)
  have p: "nat i \<notin> busy s \<union> linking s" "nat i < length (lnk (rpl s))"
      "conns.parted pl (insert (nat i) (busy s \<union> linking s))"
    using conns.parted_get [OF _ g] assms(2) by (auto simp: run_ok_def)
  have l: "length (lnk pl) = length (lnk (rpl s))"
    using take(2) by (auto simp: get_lnk_no_def Let_def split: if_splits)
  have r: "same_ring pl (took now (nat i) pl)"
    by (rule took_ring) (rule taken_unlinked [OF take(2,3) p(2)])
  show ?thesis using assms(2) p l take(1) by (auto simp: run_ok_def parted_same [OF r] same_ring_length [OF r])
next
  case (work i r t d)
  have "same_ring (rpl s) (rpl s')" unfolding work(1) using work(3) by (simp add: same_ring_upd)
  then show ?thesis using assms(2) work(1) by (simp add: run_ok_def parted_same same_ring_length)
next
  case (fail i)
  let ?p = "upd_lnk i (\<lambda>rs. rs\<lparr>Errno := -1\<rparr>) (rpl s)"
  have e: "same_ring (rpl s) ?p" by (rule same_ring_fun) simp_all
  have "conns.parted (add_lnk i ?p) (busy s \<union> linking s - {i})"
    using assms(2) fail(2) parted_same [OF e] by (intro conns.parted_put) (auto simp: run_ok_def)
  then have "conns.parted (connect_failed i (rpl s)) (busy s \<union> linking s - {i})"
    unfolding connect_failed_def by (rule parted_map [rotated 2]) (auto simp: weight_off_free)
  moreover have "busy s \<union> linking s - {i} = busy s \<union> (linking s - {i})" using assms(2) fail(2) by (auto simp: run_ok_def)
  ultimately show ?thesis using assms(2) fail(1) by (auto simp: run_ok_def connect_failed_def add_lnk_length)
next
  case (ready i pl)
  have "conns.parted pl (busy s \<union> linking s)" "length (lnk pl) = n"
    using assms(2) ready(3) connect_done_free
    by (auto simp: run_ok_def connect_done_length elim!: parted_map [rotated 2])
  moreover have "insert i (busy s) \<union> (linking s - {i}) = busy s \<union> linking s" using ready(2) by auto
  ultimately show ?thesis using assms(2) ready(1)
    by (auto simp: run_ok_def parted_same [OF handed_ring] same_ring_length [OF handed_ring])
next
  case (release i now)
  obtain p where p: "release_lnk now i (rpl s) = add_lnk i p" "same_ring (rpl s) p"
    using release_lnk_add by blast
  have "conns.parted (add_lnk i p) (busy s \<union> linking s - {i})"
    using assms(2) release(2) parted_same [OF p(2)] by (intro conns.parted_put) (auto simp: run_ok_def)
  moreover have "busy s \<union> linking s - {i} = busy s - {i} \<union> linking s" using assms(2) release(2) by (auto simp: run_ok_def)
  ultimately show ?thesis using assms(2) release(1) p same_ring_length [OF p(2)]
    by (auto simp: run_ok_def add_lnk_length)
next
  case (clear i)
  then show ?thesis using assms(2) by (simp add: run_ok_def parted_same [OF handed_ring] same_ring_length [OF handed_ring])
next
  case (check now i)
  then show ?thesis using assms(2) by (simp add: run_ok_def parted_same [OF check_lnk_ring] same_ring_length [OF check_lnk_ring])
qed

lemma init_chain:
  "a < n \<Longrightarrow> (\<And>i. i < n \<Longrightarrow> nx i = Some (if Suc i < n then Suc i else 0)) \<Longrightarrow> linked nx (Some a) [a..<n] (Some 0)"
proof (induction "n - a" arbitrary: a)
  case (Suc k)
  show ?case
  proof (cases "Suc a < n")
    case True
    then have "linked nx (Some (Suc a)) [Suc a..<n] (Some 0)" using Suc by simp
    then show ?thesis using True Suc.prems by (simp add: upt_conv_Cons)
  next
    case False
    then have "[a..<n] = [a]" using Suc.prems(1) by (simp add: upt_conv_Cons)
    then show ?thesis using False Suc.prems by simp
  qed
qed simp

lemma resource_init_free:
  "free_list (resource_init NUM pn now t) [0..<nat (if NUM > 0 then NUM else 1)]"
proof -
  define n where "n = nat (if NUM > 0 then NUM else 1)"
  have n: "0 < n" "int n = (if NUM > 0 then NUM else 1)" by (auto simp: n_def)
  let ?pl = "resource_init NUM pn now t"
  have l: "lnk ?pl = map (new_resource (int n) pn now) [0..<n]" "free_q ?pl = int n - 1"
      "weight ?pl = int n" "resource_num ?pl = int n"
    using n(2) by (simp_all add: resource_init_def Let_def n_def)
  have r: "rnext (lnk ?pl ! i) = (if Suc i < n then int (Suc i) else 0)" if "i < n" for i
    using that unfolding l by (simp add: new_resource_def initconnect_def)
  have nx: "nx_of (lnk ?pl) i = Some (if Suc i < n then Suc i else 0)" if "i < n" for i
    using that r [OF that] by (auto simp: nx_of_def l(1) nat_add_distrib)
  have tl: "tail_of ?pl = Some (n - 1)" using n(1) by (simp add: tail_of_def l nat_diff_distrib)
  have "nx_of (lnk ?pl) (n - 1) = Some 0" using nx [of "n - 1"] n(1) by simp
  then have "ring (nx_of (lnk ?pl)) (tail_of ?pl) [0..<n]" unfolding tl
    using init_chain [of 0 n "nx_of (lnk ?pl)"] nx n(1) by (simp add: ring_def)
  moreover have "j \<in> set [0..<n] \<longleftrightarrow> j < length (lnk ?pl) \<and> rnext (lnk ?pl ! j) \<ge> 0" for j
  proof (cases "j < n")
    case True
    then show ?thesis using r [OF True] by (simp add: l(1))
  qed (simp add: l(1))
  ultimately show ?thesis unfolding free_list_def n_def [symmetric] using l by simp
qed

lemma start_ok: "run_ok (nat (if NUM > 0 then NUM else 1)) (start NUM pn now t)"
proof -
  note f = resource_init_free [of NUM pn now t]
  have l: "length (lnk (resource_init NUM pn now t)) = nat (if NUM > 0 then NUM else 1)"
    by (simp add: resource_init_def Let_def)
  then show ?thesis using f
    by (auto simp: run_ok_def start_def conns.parted_def intro!: exI [of _ "[0..<nat (if NUM > 0 then NUM else 1)]"])
qed

lemma runs_ok: "pstep\<^sup>*\<^sup>* (start NUM pn now t) s \<Longrightarrow> run_ok (nat (if NUM > 0 then NUM else 1)) s"
  by (induction rule: rtranclp_induct) (auto simp: start_ok intro: run_step)

section \<open>Properties\<close>

text \<open>C9: Whatever the threads that share a path do, in any order - taking, connecting with any
  outcome, working, releasing, checking - every connection is either free or held by exactly
  one of them, the free ones form one ring with no duplicates, the weight is their number or
  -1 after a failure, and the next connection handed out is one that nobody holds; the path
  is never out of connections while not all of them are held.\<close>

theorem connections_never_shared:
  assumes "pstep\<^sup>*\<^sup>* (start NUM pn now t) s"
  shows "(\<exists>xs. ring (nx_of (lnk (rpl s))) (tail_of (rpl s)) xs \<and> distinct xs \<and>
      set xs \<inter> (busy s \<union> linking s) = {} \<and> busy s \<inter> linking s = {} \<and>
      set xs \<union> busy s \<union> linking s = {..<nat (if NUM > 0 then NUM else 1)} \<and>
      (weight (rpl s) = -1 \<or> weight (rpl s) = int (length xs))) \<and>
    (case get_lnk_no (rpl s) of (i, pl) \<Rightarrow>
       if i < 0 then busy s \<union> linking s = {..<nat (if NUM > 0 then NUM else 1)}
       else nat i \<notin> busy s \<union> linking s \<and> nat i < nat (if NUM > 0 then NUM else 1))"
proof -
  let ?n = "nat (if NUM > 0 then NUM else 1)"
  have r: "length (lnk (rpl s)) = ?n" "conns.parted (rpl s) (busy s \<union> linking s)" "busy s \<inter> linking s = {}"
    using runs_ok [OF assms] by (simp_all add: run_ok_def)
  obtain xs where xs: "free_list (rpl s) xs" "set xs \<inter> (busy s \<union> linking s) = {}"
      "set xs \<union> (busy s \<union> linking s) = {..<?n}"
    using r(2) unfolding conns.parted_def r(1) by blast
  have f: "ring (nx_of (lnk (rpl s))) (tail_of (rpl s)) xs" "weight (rpl s) = -1 \<or> weight (rpl s) = int (length xs)"
    using xs(1) unfolding free_list_def by blast+
  have u: "set xs \<union> busy s \<union> linking s = {..<?n}" using xs(3) by (simp only: Un_assoc)
  have p1: "\<exists>xs. ring (nx_of (lnk (rpl s))) (tail_of (rpl s)) xs \<and> distinct xs \<and>
      set xs \<inter> (busy s \<union> linking s) = {} \<and> busy s \<inter> linking s = {} \<and>
      set xs \<union> busy s \<union> linking s = {..<?n} \<and>
      (weight (rpl s) = -1 \<or> weight (rpl s) = int (length xs))"
    by (intro exI [of _ xs] conjI f ring_distinct [OF f(1)] xs(2) r(3) u)
  obtain i pl where g: "get_lnk_no (rpl s) = (i, pl)" by fastforce
  have "take_lnk (rpl s) = (if i < 0 then None else Some (nat i, pl))" by (simp add: take_lnk_def g)
  then have "if i < 0 then busy s \<union> linking s = {..<?n} else nat i \<notin> busy s \<union> linking s \<and> nat i < ?n"
    using conns.parted_empty [OF r(2)] conns.parted_get [OF r(2)] unfolding r(1) by (auto split: if_splits)
  then show ?thesis using p1 unfolding g by simp
qed

theorem connections_never_shared_witness:
  "case get_lnk_no (rpl ((start 2 0 0 \<lparr>srvn = 0, srv_hash = None, srvlist = None, usage = 0\<rparr>)
      \<lparr>rpl := took 9 0 (snd (get_lnk_no (resource_init 2 0 0 \<lparr>srvn = 0, srv_hash = None, srvlist = None, usage = 0\<rparr>))),
       linking := {0}\<rparr>)) of (i, pl) \<Rightarrow> i < 0 \<or> nat i \<noteq> 0"
proof -
  let ?t = "\<lparr>srvn = 0, srv_hash = None, srvlist = None, usage = 0\<rparr>"
  have g: "fst (get_lnk_no (resource_init 2 0 0 ?t)) = 0"
    by (simp add: get_lnk_no_def resource_init_def new_resource_def initconnect_def Let_def upt_rec)
  have "pstep (start 2 0 0 ?t) ((start 2 0 0 ?t)\<lparr>rpl := took 9 (nat 0) (snd (get_lnk_no (resource_init 2 0 0 ?t))),
      linking := insert (nat 0) (linking (start 2 0 0 ?t))\<rparr>)"
    using g by (intro pstep.take) (auto simp: start_def prod_eq_iff)
  then have "pstep\<^sup>*\<^sup>* (start 2 0 0 ?t) ((start 2 0 0 ?t)\<lparr>rpl := took 9 0 (snd (get_lnk_no (resource_init 2 0 0 ?t))),
      linking := {0}\<rparr>)" by (simp add: start_def)
  from connections_never_shared [OF this] show ?thesis by (auto split: prod.splits if_splits)
qed

section \<open>A pool whose servers answer\<close>

text \<open>The connector of a forwarder: \<open>sc_connect\<close> without contexts, on the answers of the
  network in turn.  The servers answer when a refused list of services comes without one of its two
  errors; and the login text fits in its buffer.\<close>

definition midsc :: "(nat \<Rightarrow> net_env) \<Rightarrow> nat connector" where
  "midsc env w pl i = (case sc_connect False (env w) pl i of None \<Rightarrow> None | Some (r, pl) \<Rightarrow> Some (r, pl, Suc w))"

definition answering :: "net_env \<Rightarrow> bool" where
  "answering e \<longleftrightarrow> (fst (svc_errs e) = 0 \<or> snd (svc_errs e) = 0) \<and> length (login_text e) < 200"

lemma disconnect_srvn: "0 \<le> srvn (svc_tbl pl) \<Longrightarrow> 0 \<le> srvn (svc_tbl (disconnect i pl))"
  by (auto simp: disconnect_def freeconnect_def free_srv_list_def Let_def split: prod.splits if_splits)

lemma login_loop_plain:
  "length (b @ login_text e) < 200 \<Longrightarrow> \<exists>ret label buf. login_loop e False k b rs = Some (ret, label, buf, rs)"
  by (subst login_loop.simps) (auto simp: Let_def split: prod.splits)

lemma load_services_srvn:
  assumes "answering e" "Var_set (lnk pl ! i)" "svc_set (lnk pl ! i)"
  shows "0 \<le> srvn (svc_tbl (snd (load_services e i pl)))"
proof -
  obtain ret rs t where r: "init_svc_no e (lnk pl ! i) ((svc_tbl pl)\<lparr>srvn := -1\<rparr>) = (ret, rs, t)"
    by (metis prod_cases3)
  have "0 \<le> srvn t" using r assms by (auto simp: init_svc_no_def answering_def Let_def split: if_splits)
  then show ?thesis unfolding load_services_def r
    by (auto simp: Let_def intro!: disconnect_srvn)
qed

lemma Net_Connect_Var: "Net_Connect e rs = (0, rs') \<Longrightarrow> Var_set rs'"
  by (auto simp: Net_Connect_def initconnect_def Let_def split: sum.splits option.splits prod.splits if_splits)

lemma join_services_answers:
  assumes "answering e" "i < length (lnk pl)" "Var_set (lnk pl ! i)" "0 \<le> srvn (svc_tbl pl)"
  shows "\<exists>ret pl'. join_services e i pl = Some (ret, pl') \<and> 0 \<le> srvn (svc_tbl pl')"
proof -
  let ?p = "upd_lnk i (\<lambda>rs. rs\<lparr>svc_set := True\<rparr>) pl"
  have "0 \<le> srvn (svc_tbl (snd (load_services e i ?p)))"
    using assms by (intro load_services_srvn) auto
  then show ?thesis using assms(4) by (cases "load_services e i ?p") (auto simp: join_services_def Let_def)
qed

lemma log_in_answers:
  assumes "answering e" "i < length (lnk pl)" "Var_set (lnk pl ! i)" "0 \<le> srvn (svc_tbl pl)"
  shows "\<exists>ret pl'. log_in False e pl i = Some (ret, pl') \<and> 0 \<le> srvn (svc_tbl pl')"
proof -
  obtain ret label buf where l: "login_loop e False 0 [] (lnk pl ! i) = Some (ret, label, buf, lnk pl ! i)"
    using login_loop_plain [of "[]" e 0 "lnk pl ! i"] assms(1) unfolding answering_def by auto
  let ?p = "upd_lnk i (\<lambda>_. lnk pl ! i) pl"
  have j: "\<exists>r p'. join_services e i (if DBLABEL ?p = [] then ?p\<lparr>DBLABEL := label\<rparr> else ?p) = Some (r, p') \<and> 0 \<le> srvn (svc_tbl p')"
    by (rule join_services_answers) (use assms in auto)
  show ?thesis using j assms(4) disconnect_srvn [of ?p i]
    by (auto simp: log_in_def l Let_def)
qed

lemma sc_connect_answers:
  assumes "answering e" "i < length (lnk pl)" "0 \<le> srvn (svc_tbl pl)"
  shows "\<exists>ret pl'. sc_connect False e pl i = Some (ret, pl') \<and> 0 \<le> srvn (svc_tbl pl')"
proof -
  obtain r rs where n: "Net_Connect e (lnk pl ! i) = (r, rs)" by fastforce
  show ?thesis
  proof (cases "r = 0")
    case False
    then show ?thesis using assms(3) by (simp add: sc_connect_def n Let_def)
  next
    case True
    then have "Var_set rs" using Net_Connect_Var n by simp
    then show ?thesis unfolding sc_connect_def n prod.case Let_def using True assms
      by (simp, intro log_in_answers) auto
  qed
qed

section \<open>One attempt\<close>

definition live :: "path_lnk \<Rightarrow> bool" where
  "live pl \<longleftrightarrow> (\<exists>xs. free_list pl xs) \<and> lnk pl \<noteq> [] \<and> 0 \<le> srvn (svc_tbl pl) \<and> resource_num pl < 2 ^ 22"

lemma live_same: "same_ring pl pl' \<Longrightarrow> 0 \<le> srvn (svc_tbl pl') \<Longrightarrow> live pl \<Longrightarrow> live pl'"
  using same_ring_free [of pl pl'] same_ring_length [of pl pl'] by (auto simp: live_def same_ring_def)

lemma live_free: "live pl \<Longrightarrow> 0 < weight pl \<Longrightarrow> \<exists>x xs. free_list pl (x # xs)"
proof -
  assume l: "live pl" "0 < weight pl"
  then obtain xs where xs: "free_list pl xs" by (auto simp: live_def)
  then have "xs \<noteq> []" using l(2) by (auto simp: free_list_def)
  then show ?thesis using xs by (cases xs) auto
qed

lemma get_lnk_no_other: "get_lnk_no pl = (i, pl') \<Longrightarrow> svc_tbl pl' = svc_tbl pl \<and> resource_num pl' = resource_num pl \<and>
    length (lnk pl') = length (lnk pl)"
  by (auto simp: get_lnk_no_def Let_def split: if_splits)

lemma add_lnk_other: "svc_tbl (add_lnk i pl) = svc_tbl pl \<and> resource_num (add_lnk i pl) = resource_num pl"
  by (simp add: add_lnk_def Let_def)

lemma connect_failed_live:
  assumes "live pl" "i < length (lnk pl)" "rnext (lnk pl ! i) = -1"
  shows "live (connect_failed i pl) \<and> weight (connect_failed i pl) = -1 \<and>
    (\<exists>ys. free_list (connect_failed i pl) ys \<and> i \<in> set ys)"
proof -
  let ?p = "upd_lnk i (\<lambda>rs. rs\<lparr>Errno := -1\<rparr>) pl"
  have e: "same_ring pl ?p" by (rule same_ring_fun) simp_all
  obtain xs where xs: "free_list ?p xs" using assms(1) same_ring_free [OF e] by (auto simp: live_def)
  have "i \<notin> set xs" using xs assms(2,3) by (simp add: free_list_def)
  then obtain ys where ys: "free_list (add_lnk i ?p) ys" "ys = xs @ [i] \<or> ys = i # xs"
      "length (lnk (add_lnk i ?p)) = length (lnk ?p)"
    using free_list_put [OF xs, of i] assms(2) by auto
  have f: "free_list (connect_failed i pl) ys" unfolding connect_failed_def by (rule weight_off_free [OF ys(1)])
  moreover have "lnk (connect_failed i pl) \<noteq> []" using ys(3) assms(2) by (auto simp: connect_failed_def)
  ultimately show ?thesis using assms(1) ys(2) add_lnk_other [of i ?p]
    by (auto simp: live_def connect_failed_def)
qed

lemma connect_done_other: "lnk (connect_done pl) = lnk pl" "svc_tbl (connect_done pl) = svc_tbl pl"
  "resource_num (connect_done pl) = resource_num pl"
  by (simp_all add: connect_done_def)

lemma get_SC_resource_step:
  assumes "\<And>k. answering (env k)" "live pl"
  shows "\<exists>r pl' w'. get_SC_resource (midsc env) now True pl w = Some (r, pl', w') \<and> live pl' \<and>
    (case r of Got i \<Rightarrow> i < length (lnk pl') \<and> rnext (lnk pl' ! i) = -1 | Bad \<Rightarrow> weight pl' = -1 | NULL \<Rightarrow> free_list pl [] \<and> pl' = pl)"
proof -
  obtain xs where xs: "free_list pl xs" using assms(2) by (auto simp: live_def)
  have ne: "lnk pl \<noteq> []" using assms(2) by (simp add: live_def)
  show ?thesis
  proof (cases xs)
    case Nil
    then show ?thesis using xs ne assms(2) free_list_nil [of pl] by (auto simp: get_SC_resource_def)
  next
    case (Cons x ys)
    obtain p where p: "get_lnk_no pl = (int x, p)" "free_list p ys" "length (lnk p) = length (lnk pl)"
      using free_list_get xs Cons by blast
    have x: "x < length (lnk pl)" using xs Cons by (simp add: free_list_def) (metis)
    have rn: "rnext (lnk p ! x) = -1" using taken_unlinked [OF p(1)] x by simp
    define q where "q = took now x p"
    have q: "same_ring p q" unfolding q_def by (rule took_ring [OF rn])
    have lq: "live q" "x < length (lnk q)" "rnext (lnk q ! x) = -1"
    proof -
      have "live p" using p ne assms(2) get_lnk_no_other [OF p(1)] by (auto simp: live_def)
      then show "live q" using q by (intro live_same [OF q]) (auto simp: live_def q_def took_def)
      show "x < length (lnk q)" using same_ring_length [OF q] p(3) x by simp
      show "rnext (lnk q ! x) = -1" using same_ring_rnext [OF q] p(3) x rn by simp
    qed
    have start: "get_SC_resource (midsc env) now True pl w =
        (if Socket (lnk q ! x) < 0 \<or> Errno (lnk q ! x) < 0
          then do {
            (ret, pl, w) \<leftarrow> midsc env w q x;
            if ret \<noteq> 0 then Some (Bad, connect_failed x pl, w)
            else Some (Got x, handed x (connect_done pl), w) }
          else Some (Got x, handed x q, w))"
      using p(1) ne by (simp add: get_SC_resource_def q_def Let_def)
    have hand: "live (handed x p') \<and> x < length (lnk (handed x p')) \<and> rnext (lnk (handed x p') ! x) = -1"
      if "live p'" "x < length (lnk p')" "rnext (lnk p' ! x) = -1" for p'
      using that live_same [OF handed_ring, of x p'] same_ring_length [OF handed_ring, of x p']
        same_ring_rnext [OF handed_ring, of x p' x] by (auto simp: handed_def live_def)
    show ?thesis
    proof (cases "Socket (lnk q ! x) < 0 \<or> Errno (lnk q ! x) < 0")
      case False
      then show ?thesis using start hand [OF lq] by simp
    next
      case True
      obtain ret c where c: "sc_connect False (env w) q x = Some (ret, c)" "0 \<le> srvn (svc_tbl c)"
        using sc_connect_answers [OF assms(1) [of w] lq(2)] lq(1) unfolding live_def by blast
      note s = sc_connect_ring [OF c(1)]
      have lc: "live c" "x < length (lnk c)" "rnext (lnk c ! x) = -1"
        using live_same [OF s c(2) lq(1)] same_ring_length [OF s] same_ring_rnext [OF s lq(2)] lq(2,3) by auto
      have ld: "live (connect_done c)" "lnk (connect_done c) = lnk c"
        using lc(1) connect_done_other [of c] unfolding live_def by (metis connect_done_free)+
      show ?thesis using start True c(1) hand [OF ld(1)] ld(2) lc connect_failed_live [OF lc]
        by (cases "ret = 0") (auto simp: midsc_def)
    qed
  qed
qed

section \<open>The search for the lightest load\<close>

lemma load_of_nonneg: "live pl \<Longrightarrow> 0 < weight pl \<Longrightarrow> 0 \<le> load_of pl \<and> load_of pl = weight pl * 512 div resource_num pl"
proof -
  assume l: "live pl" "0 < weight pl"
  then obtain xs where xs: "free_list pl xs" by (auto simp: live_def)
  have "distinct xs" "set xs \<subseteq> {..<length (lnk pl)}" using conns.rep_slots [OF xs] by auto
  then have "length xs \<le> length (lnk pl)" by (metis card_lessThan card_mono distinct_card finite_lessThan)
  moreover have "weight pl = int (length xs)" "resource_num pl = int (length (lnk pl))"
    using xs l(2) by (auto simp: free_list_def)
  ultimately have b: "weight pl \<le> resource_num pl" "resource_num pl < 2 ^ 22" "0 < resource_num pl"
    using l by (auto simp: live_def)
  have "sint (push_bit 9 (of_int (weight pl)) :: 32 word) = weight pl * 512"
  proof -
    have e: "push_bit 9 (of_int (weight pl)) = (of_int (weight pl * 512) :: 32 word)"
      by (simp add: push_bit_eq_mult)
    show ?thesis unfolding e sint_sbintrunc' using b l(2)
      by (intro signed_take_bit_int_eq_self) simp_all
  qed
  then show ?thesis using b l(2) by (simp add: load_of_def signed_divide_int_def pos_imp_zdiv_nonneg_iff)
qed

lemma heaviest_spec:
  "heaviest i pls (mw, n) = (mw', n') \<Longrightarrow>
     mw \<le> mw' \<and> (\<forall>pl\<in>set pls. 0 < weight pl \<longrightarrow> load_of pl \<le> mw') \<and>
     ((mw', n') = (mw, n) \<or> (\<exists>k<length pls. n' = i + int k \<and> 0 < weight (pls ! k) \<and> mw' = load_of (pls ! k)))"
proof (induction pls arbitrary: i mw n)
  case (Cons pl pls)
  show ?case
  proof (cases "0 < weight pl \<and> load_of pl > mw")
    case True
    then have "heaviest (i + 1) pls (load_of pl, i) = (mw', n')" using Cons.prems by (simp add: Let_def)
    note h = Cons.IH [OF this]
    from h have "(mw', n') = (load_of pl, i) \<or>
        (\<exists>k<length pls. n' = i + 1 + int k \<and> 0 < weight (pls ! k) \<and> mw' = load_of (pls ! k))" by blast
    then have "\<exists>k<length (pl # pls). n' = i + int k \<and> 0 < weight ((pl # pls) ! k) \<and> mw' = load_of ((pl # pls) ! k)"
    proof
      assume "(mw', n') = (load_of pl, i)"
      then show ?thesis using True by (intro exI [of _ 0]) simp
    next
      assume "\<exists>k<length pls. n' = i + 1 + int k \<and> 0 < weight (pls ! k) \<and> mw' = load_of (pls ! k)"
      then obtain k where "k < length pls" "n' = i + 1 + int k" "0 < weight (pls ! k)" "mw' = load_of (pls ! k)" by blast
      then show ?thesis by (intro exI [of _ "Suc k"]) simp
    qed
    then show ?thesis using h True by auto
  next
    case False
    then have "heaviest (i + 1) pls (mw, n) = (mw', n')" using Cons.prems by (auto simp: Let_def split: if_splits)
    note h = Cons.IH [OF this]
    from h have "(mw', n') = (mw, n) \<or>
        (\<exists>k<length pls. n' = i + 1 + int k \<and> 0 < weight (pls ! k) \<and> mw' = load_of (pls ! k))" by blast
    then have "(mw', n') = (mw, n) \<or> (\<exists>k<length (pl # pls). n' = i + int k \<and> 0 < weight ((pl # pls) ! k) \<and>
        mw' = load_of ((pl # pls) ! k))"
    proof
      assume "\<exists>k<length pls. n' = i + 1 + int k \<and> 0 < weight (pls ! k) \<and> mw' = load_of (pls ! k)"
      then obtain k where "k < length pls" "n' = i + 1 + int k" "0 < weight (pls ! k)" "mw' = load_of (pls ! k)" by blast
      then show ?thesis by (intro disjI2 exI [of _ "Suc k"]) simp
    qed simp
    then show ?thesis using h False by auto
  qed
qed simp

lemma heaviest_top:
  assumes "heaviest 0 pls (-1, -1) = (mw, n)" "\<forall>pl\<in>set pls. live pl"
  shows "if n < 0 then \<forall>pl\<in>set pls. weight pl \<le> 0
    else nat n < length pls \<and> 0 < weight (pls ! nat n) \<and>
      (\<forall>pl\<in>set pls. 0 < weight pl \<longrightarrow> load_of pl \<le> load_of (pls ! nat n))"
  using heaviest_spec [OF assms(1)] load_of_nonneg assms(2) by (fastforce simp: not_le)

lemma retry_bad_ends:
  assumes "\<And>k. answering (env k)"
  shows "\<forall>pl\<in>set paths. live pl \<and> weight pl \<le> 0 \<Longrightarrow> \<exists>r paths' bad' w'.
    retry_bad (midsc env) now m paths bad w = Some (r, paths', bad', w') \<and> length paths' = length paths \<and>
    (\<forall>pl\<in>set paths'. live pl) \<and>
    (case r of None \<Rightarrow> \<forall>pl\<in>set paths'. weight pl \<le> 0
     | Some (k, i) \<Rightarrow> k < length paths' \<and> i < length (lnk (paths' ! k)) \<and> rnext (lnk (paths' ! k) ! i) = -1)"
proof (induction "length paths - m" arbitrary: m paths bad w)
  case 0
  then show ?case by (subst retry_bad.simps) simp
next
  case (Suc d)
  then have m: "m < length paths" by simp
  then have lm: "live (paths ! m)" using Suc.prems by simp
  show ?case
  proof (cases "weight (paths ! m) \<ge> 0")
    case True
    have "d = length paths - (m + 1)" using Suc.hyps(2) by simp
    from Suc.hyps(1) [OF this Suc.prems, of False w] m True show ?thesis by (subst retry_bad.simps) simp
  next
    case False
    obtain r pl w' where g: "get_SC_resource (midsc env) now True (paths ! m) w = Some (r, pl, w')" "live pl"
      "case r of Got i \<Rightarrow> i < length (lnk pl) \<and> rnext (lnk pl ! i) = -1 | Bad \<Rightarrow> weight pl = -1
         | NULL \<Rightarrow> free_list (paths ! m) [] \<and> pl = paths ! m"
      using get_SC_resource_step [where env = env and now = now and w = w, OF assms lm] by blast
    have up: "live p" if "p \<in> set (paths[m := pl])" for p
      using that g(2) Suc.prems set_update_subset_insert [of paths m pl] by blast
    show ?thesis
    proof (cases "\<exists>i. r = Got i")
      case True
      then obtain i where "r = Got i" by blast
      then show ?thesis using m False g up by (subst retry_bad.simps) auto
    next
      case nogot: False
      then have "weight pl \<le> 0" using g(3) Suc.prems m by (cases r) auto
      then have all: "\<forall>p\<in>set (paths[m := pl]). live p \<and> weight p \<le> 0"
        using up Suc.prems set_update_subset_insert [of paths m pl] by blast
      have d: "d = length (paths[m := pl]) - (m + 1)" using Suc.hyps(2) by simp
      have "retry_bad (midsc env) now m paths bad w = retry_bad (midsc env) now (m + 1) (paths[m := pl]) bad w'"
        using m False g(1) nogot by (subst retry_bad.simps) (cases r; simp)
      then show ?thesis using Suc.hyps(1) [OF d all, of bad w'] by simp
    qed
  qed
qed

lemma get_SC_resource_world:
  "get_SC_resource (midsc env) now flg pl w = Some (r, pl', w') \<Longrightarrow> w' \<in> {w, Suc w}"
  by (auto simp: get_SC_resource_def midsc_def Let_def bind_eq_Some_conv split: prod.splits if_splits option.splits)

lemma retry_bad_world:
  fixes sig :: "nat \<Rightarrow> nat"
  assumes "\<And>w. sig (Suc w) \<le> sig w"
  shows "retry_bad (midsc env) now m paths bad w = Some (r, paths', bad', w') \<Longrightarrow> sig w' \<le> sig w"
proof (induction "length paths - m" arbitrary: m paths bad w)
  case 0
  then show ?case by (subst (asm) retry_bad.simps) simp
next
  case (Suc d)
  have m: "m < length paths" using Suc.hyps(2) by simp
  show ?case
  proof (cases "weight (paths ! m) \<ge> 0")
    case True
    then have "retry_bad (midsc env) now (m + 1) paths False w = Some (r, paths', bad', w')"
      using Suc.prems m by (subst (asm) retry_bad.simps) simp
    then show ?thesis using Suc.hyps(2) by (intro Suc.hyps(1)) simp_all
  next
    case False
    obtain r1 pl w1 where g: "get_SC_resource (midsc env) now True (paths ! m) w = Some (r1, pl, w1)"
      using Suc.prems m False by (subst (asm) retry_bad.simps) (auto split: option.splits)
    have w1: "sig w1 \<le> sig w" using get_SC_resource_world [OF g] assms [of w] by auto
    have "w' = w1 \<or> retry_bad (midsc env) now (m + 1) (paths[m := pl]) bad w1 = Some (r, paths', bad', w')"
      using Suc.prems m False g by (subst (asm) retry_bad.simps) (cases r1; simp)
    then show ?thesis
      using Suc.hyps(1) [of "paths[m := pl]" "m + 1" bad w1] Suc.hyps(2) w1 by force
  qed
qed

lemma filter_drops_one:
  "k < length xs \<Longrightarrow> P (xs ! k) \<Longrightarrow> \<not> P y \<Longrightarrow> length (filter P (xs[k := y])) < length (filter P xs)"
proof (induction xs arbitrary: k)
  case (Cons x xs)
  then show ?case by (cases k) auto
qed simp

text \<open>Each round takes a path out of the running, spends a repeat, or is woken by one of the signals
  that are left: \<open>sig w\<close> bounds the waits that from the state w on end by a signal.\<close>

lemma weight_loop_ends:
  fixes sig :: "nat \<Rightarrow> nat"
  assumes "\<And>k. answering (env k)"
    "\<And>w ps. \<forall>pl\<in>set ps. live pl \<Longrightarrow> (case wait w ps of (timedout, ps', w') \<Rightarrow>
       (\<forall>pl\<in>set ps'. live pl) \<and> sig w' + (if timedout then 0 else 1) \<le> sig w)"
    "\<And>w. sig (Suc w) \<le> sig w"
  shows "\<forall>pl\<in>set paths. live pl \<Longrightarrow> 0 \<le> repeat \<Longrightarrow> \<exists>r paths' w'.
    weight_loop (midsc env) wait now flg repeat paths w = Some (r, paths', w') \<and> (\<forall>pl\<in>set paths'. live pl) \<and>
    (case r of Link k i \<Rightarrow> k < length paths' \<and> i < length (lnk (paths' ! k)) \<and> rnext (lnk (paths' ! k) ! i) = -1
     | _ \<Rightarrow> \<forall>pl\<in>set paths'. weight pl \<le> 0)"
proof (induction "(sig w + nat repeat, length (filter (\<lambda>pl. 0 < weight pl) paths))"
    arbitrary: repeat paths w rule: wf_induct_rule [OF wf_lex_prod [OF wf_less_than wf_less_than]])
  case (1 repeat paths w)
  note IH = 1(1) and ps = 1(2) and rp = 1(3)
  obtain mw n where h: "heaviest 0 paths (-1, -1) = (mw, n)" by fastforce
  note top = heaviest_top [OF h ps]
  show ?case
  proof (cases "n \<ge> 0")
    case True
    let ?k = "nat n" and ?pl = "paths ! nat n"
    have k: "?k < length paths" "0 < weight ?pl" "live ?pl" using top True ps by auto
    obtain r pl w' where g: "get_SC_resource (midsc env) now True ?pl w = Some (r, pl, w')" "live pl"
      "case r of Got i \<Rightarrow> i < length (lnk pl) \<and> rnext (lnk pl ! i) = -1 | Bad \<Rightarrow> weight pl = -1
         | NULL \<Rightarrow> free_list ?pl [] \<and> pl = ?pl"
      using get_SC_resource_step [where env = env and now = now and w = w, OF assms(1) k(3)] by blast
    let ?ps = "paths[?k := pl]"
    have up: "\<forall>p\<in>set ?ps. live p" using g(2) ps set_update_subset_insert [of paths ?k pl] by blast
    show ?thesis
    proof (cases "\<exists>i. r = Got i")
      case True
      then obtain i where "r = Got i" by blast
      then show ?thesis using h \<open>n \<ge> 0\<close> g up k(1) by (subst weight_loop.simps) (simp add: Let_def)
    next
      case nogot: False
      have "r \<noteq> NULL"
      proof
        assume "r = NULL"
        then have "free_list ?pl []" using g(3) by simp
        then show False using k(2) by (simp add: free_list_def)
      qed
      then have bad: "r = Bad" "weight pl = -1" using nogot g(3) by (cases r; simp)+
      have "length (filter (\<lambda>pl. 0 < weight pl) ?ps) < length (filter (\<lambda>pl. 0 < weight pl) paths)"
        by (rule filter_drops_one [where P = "\<lambda>pl. 0 < weight pl", OF k(1,2)]) (simp add: bad(2))
      moreover have "sig w' \<le> sig w" using get_SC_resource_world [OF g(1)] assms(3) [of w] by auto
      ultimately have "((sig w' + nat repeat, length (filter (\<lambda>pl. 0 < weight pl) ?ps)),
          sig w + nat repeat, length (filter (\<lambda>pl. 0 < weight pl) paths)) \<in> less_than <*lex*> less_than" by auto
      note ih = IH [OF this up rp]
      have "weight_loop (midsc env) wait now flg repeat paths w = weight_loop (midsc env) wait now flg repeat ?ps w'"
        using h True g(1) bad(1) by (subst weight_loop.simps) (simp add: Let_def)
      then show ?thesis using ih by simp
    qed
  next
    case False
    then have low: "\<forall>pl\<in>set paths. live pl \<and> weight pl \<le> 0" using top ps by simp
    obtain r paths' bad w' where b: "retry_bad (midsc env) now 0 paths True w = Some (r, paths', bad, w')"
      "\<forall>pl\<in>set paths'. live pl"
      "case r of None \<Rightarrow> \<forall>pl\<in>set paths'. weight pl \<le> 0
       | Some (k, i) \<Rightarrow> k < length paths' \<and> i < length (lnk (paths' ! k)) \<and> rnext (lnk (paths' ! k) ! i) = -1"
      using retry_bad_ends [where env = env and now = now and w = w and m = 0 and bad = True, OF assms(1) low] by blast
    have step: "weight_loop (midsc env) wait now flg repeat paths w =
        (case r of
           Some (m, i) \<Rightarrow> Some (Link m i, paths', w')
         | None \<Rightarrow>
             if flg = 0 then Some (No, paths', w')
             else if bad \<or> repeat = 0 then Some (if bad then Broken else No, paths', w')
             else let (timedout, paths, w) = wait w' paths'
                  in weight_loop (midsc env) wait now flg (if timedout then repeat - 1 else repeat) paths w)"
      using h False b(1) by (subst weight_loop.simps) (simp add: Let_def)
    show ?thesis
    proof (cases "r = None \<and> flg \<noteq> 0 \<and> \<not> bad \<and> repeat \<noteq> 0")
      case True
      obtain to ps' w2 where w2: "wait w' paths' = (to, ps', w2)" by (metis prod_cases3)
      let ?rp = "if to then repeat - 1 else repeat"
      have t: "\<forall>pl\<in>set ps'. live pl" "sig w2 + (if to then 0 else 1) \<le> sig w'" using assms(2) [OF b(2), of w'] w2 by auto
      have "sig w' \<le> sig w" by (rule retry_bad_world [where sig = sig, OF assms(3) b(1)])
      then have "sig w2 + nat ?rp < sig w + nat repeat" using t(2) True rp by (auto split: if_splits)
      then have "((sig w2 + nat ?rp, length (filter (\<lambda>pl. 0 < weight pl) ps')),
          sig w + nat repeat, length (filter (\<lambda>pl. 0 < weight pl) paths)) \<in> less_than <*lex*> less_than"
        by simp
      note ih = IH [OF this t(1)]
      have "0 \<le> ?rp" using True rp by simp
      then show ?thesis unfolding step using True w2 ih by simp
    next
      case False
      then show ?thesis unfolding step using b(2,3)
        by (cases r; cases "flg = 0"; cases bad) (auto split: prod.splits)
    qed
  qed
qed

lemma resource_init_live: "NUM < 2 ^ 22 \<Longrightarrow> live (resource_init NUM pn now t)"
  using resource_init_free [of NUM pn now t] by (auto simp: live_def resource_init_def Let_def)

definition no_table :: svc_table where
  "no_table = \<lparr>srvn = 0, srv_hash = None, srvlist = None, usage = 0\<rparr>"

definition refusing :: net_env where
  "refusing = \<lparr>conn_repeat = 0, tcp_timeout = None, opens = (\<lambda>_. (-1, ECONNREFUSED)), key_ret = (0, 0),
     login_text = [], login = (\<lambda>_. (0, 0, 0, [])), svc_send = 0, svc_recv = 0, svc_errs = (0, 0),
     services = [], svc_malloc = True\<rparr>"

text \<open>A negative flag waits for ever: while every path is busy and every wait times out, the search
  never returns.\<close>

lemma negative_flag_waits:
  fixes connect :: "'w connector"
  assumes "\<forall>pl\<in>set paths. weight pl = 0" "paths \<noteq> []" "\<And>w ps. \<exists>w'. wait w ps = (True, ps, w')" "repeat < 0" "flg \<noteq> 0"
  shows "weight_loop connect wait now flg repeat paths w = None"
proof -
  have n: "heaviest i ps (a, b) = (a, b)" if "\<forall>pl\<in>set ps. weight pl = 0" for i ps a b
    using that by (induction ps arbitrary: i) simp_all
  have r: "retry_bad connect now m paths bad w = Some (None, paths, if m < length paths then False else bad, w)" for m bad w
    using assms(1)
    by (induction "length paths - m" arbitrary: m bad) (subst retry_bad.simps, force)+
  have "\<not> (c = connect \<and> wt = wait \<and> nw = now \<and> f = flg \<and> rp < 0 \<and> ps = paths)"
    if "weight_loop c wt nw f rp ps v = Some x" for c :: "'w connector" and wt nw f rp ps v and x :: "chosen \<times> path_lnk list \<times> 'w"
    apply (rule weight_loop.raw_induct [OF _ that])
    subgoal premises prems for loop c wt nw f rp ps v x
    proof
      assume a: "c = connect \<and> wt = wait \<and> nw = now \<and> f = flg \<and> rp < 0 \<and> ps = paths"
      obtain w' where "wait v paths = (True, paths, w')" using assms(3) by blast
      then have "loop connect wait now flg (rp - 1) paths w' = Some x"
        using prems(2) a n [OF assms(1)] r assms(2,5) by simp
      then show False using prems(1) a by fastforce
    qed
    done
  then show ?thesis using assms(4) by (cases "weight_loop connect wait now flg repeat paths w") blast+
qed



section \<open>Failures\<close>

definition login_granted :: "net_env \<Rightarrow> bool" where
  "login_granted e \<longleftrightarrow> length (login_text e) < 200 \<and> 0 \<le> fst (opens e 0) \<and> 0 \<le> fst (key_ret e) \<and>
     (case login e 0 of (ret, e1, e2, _) \<Rightarrow> ret = 0 \<and> e1 = 0 \<and> e2 = 0)"

lemma sc_connect_granted:
  assumes "login_granted e" "i < length (lnk pl)"
  shows "\<exists>p. sc_connect c e pl i = join_services e i p \<and> svc_tbl p = svc_tbl pl \<and> length (lnk p) = length (lnk pl) \<and>
    Var_set (lnk p ! i) \<and> \<not> freevar_set (lnk p ! i)"
proof -
  obtain fd err where o: "opens e 0 = (fd, err)" "0 \<le> fd" using assms(1) by (cases "opens e 0") (auto simp: login_granted_def)
  then have ol: "open_loop e 0 = Inr (fd, err)" by (subst open_loop.simps) simp
  define rs where "rs = snd (Net_Connect e (lnk pl ! i))"
  have n: "Net_Connect e (lnk pl ! i) = (0, rs)" "Var_set rs" "\<not> freevar_set rs"
    using assms(1) ol o by (auto simp: Net_Connect_def rs_def Let_def login_granted_def initconnect_def split: option.splits)
  define p where "p = upd_lnk i (\<lambda>rs. rs\<lparr>ctimeout := (case tcp_timeout e of None \<Rightarrow> 0
                   | Some t \<Rightarrow> if 60 * t \<ge> 120 then 60 * t - 60 else 60 * t)\<rparr>) (upd_lnk i (\<lambda>_. rs) pl)"
  have p: "length (lnk p) = length (lnk pl)" "svc_tbl p = svc_tbl pl" "Var_set (lnk p ! i)" "\<not> freevar_set (lnk p ! i)"
    using n assms(2) by (simp_all add: p_def)
  have s: "sc_connect c e pl i = log_in c e p i" using n(1) by (simp add: sc_connect_def Let_def p_def)
  obtain label where "login e 0 = (0, 0, 0, label)" using assms(1)
    by (auto simp: login_granted_def split: prod.splits)
  then have l: "login_loop e c 0 [] (lnk p ! i) = Some (0, label, login_text e, lnk p ! i)"
    using assms(1) by (subst login_loop.simps) (simp add: login_granted_def)
  define p1 where "p1 = upd_lnk i (\<lambda>_. lnk p ! i) p"
  define p2 where "p2 = (if \<not> c \<and> DBLABEL p1 = [] then p1\<lparr>DBLABEL := label\<rparr> else p1)"
  define p3 where "p3 = (if c \<and> label \<noteq> []
      then upd_lnk i (\<lambda>rs. rs\<lparr>ctx_id := snd (str_a64n 1 label [ctx_id rs]) ! 0\<rparr>) p2 else p2)"
  have "log_in c e p i = join_services e i p3"
    by (simp add: log_in_def l Let_def p1_def p2_def p3_def)
  moreover have "svc_tbl p3 = svc_tbl pl \<and> length (lnk p3) = length (lnk pl) \<and> Var_set (lnk p3 ! i) \<and>
      \<not> freevar_set (lnk p3 ! i)"
    using p assms(2) by (simp add: p1_def p2_def p3_def)
  ultimately show ?thesis unfolding s by blast
qed

text \<open>When the server answers the request for its services with two error codes,
  \<open>init_svc_no\<close> returns without resetting the count that \<open>sc_connect\<close> set to -1.  The
  connection fails, and every later one over the same path, however well it logs in, waits
  for ever for the count to become 0 or positive.\<close>

theorem refused_services_block_the_path:
  assumes "login_granted e" "login_granted e'" "i < length (lnk pl)" "j < length (lnk pl)"
    "srvn (svc_tbl pl) = 0" "0 \<le> svc_send e" "0 \<le> svc_recv e" "fst (svc_errs e) \<noteq> 0" "snd (svc_errs e) \<noteq> 0"
  shows "\<exists>pl'. sc_connect c e pl i = Some (-4, pl') \<and> srvn (svc_tbl pl') = -1 \<and> sc_connect c e' pl' j = None"
proof -
  obtain p where p: "sc_connect c e pl i = join_services e i p" "svc_tbl p = svc_tbl pl" "length (lnk p) = length (lnk pl)"
      "Var_set (lnk p ! i)" "\<not> freevar_set (lnk p ! i)"
    using sc_connect_granted [OF assms(1,3)] by blast
  let ?q = "upd_lnk i (\<lambda>rs. rs\<lparr>svc_set := True\<rparr>) p"
  obtain pl' where q: "load_services e i ?q = (-4, pl')" "srvn (svc_tbl pl') = -1" "length (lnk pl') = length (lnk pl)"
    using assms p by (simp add: load_services_def init_svc_no_def Let_def disconnect_def freeconnect_def)
  obtain p' where p': "sc_connect c e' pl' j = join_services e' j p'" "svc_tbl p' = svc_tbl pl'"
    using sc_connect_granted [OF assms(2), of j pl'] assms(4) q(3) by auto
  show ?thesis using p(1,2) q p' assms(5) by (simp add: join_services_def Let_def)
qed

theorem refused_services_block_the_path_witness:
  "\<exists>pl'. sc_connect False (refusing\<lparr>opens := \<lambda>_. (7, 0), svc_errs := (-1, 3)\<rparr>) (resource_init 2 0 0 no_table) 0 = Some (-4, pl') \<and>
     sc_connect False (refusing\<lparr>opens := \<lambda>_. (8, 0)\<rparr>) pl' 1 = None"
  using refused_services_block_the_path [of "refusing\<lparr>opens := \<lambda>_. (7, 0), svc_errs := (-1, 3)\<rparr>"
      "refusing\<lparr>opens := \<lambda>_. (8, 0)\<rparr>" 0 "resource_init 2 0 0 no_table" 1 False]
  by (auto simp: login_granted_def refusing_def resource_init_def no_table_def)

lemma upd_field: "f r = f (l ! k) \<Longrightarrow> f (l[k := r] ! j) = f (l ! j)"
  by (cases "k < length l") (auto simp: nth_list_update list_update_beyond not_less)

lemma ring_fields:
  assumes "\<And>r n. f (r\<lparr>rnext := n\<rparr>) = f r"
  shows get_lnk_no_field: "f (lnk (snd (get_lnk_no pl)) ! j) = f (lnk pl ! j)"
    and add_lnk_field: "f (lnk (add_lnk i pl) ! j) = f (lnk pl ! j)"
  by (simp_all add: get_lnk_no_def add_lnk_def Let_def upd_field [where f = f] assms)

text \<open>When the key negotiation fails, \<open>Net_Connect\<close> closes the socket but leaves its number
  in the connection: the connection goes back to the ring with a descriptor that is no longer
  its own, and once it has been idle long enough \<open>scpool_check\<close> closes it as if it were open.\<close>

theorem failed_key_leaves_the_descriptor:
  assumes "free_list pl (i # xs)" "Socket (lnk pl ! i) < 0" "0 \<le> fst (opens (env w) 0)"
    "fst (key_ret (env w)) < 0" "snd (key_ret (env w)) \<noteq> 0" "now + 299000000 < later"
  shows "\<exists>pl' w'. get_SC_resource (midsc env) now flg pl w = Some (Bad, pl', w') \<and> weight pl' = -1 \<and>
    0 \<le> rnext (lnk pl' ! i) \<and> Socket (lnk pl' ! i) = fst (opens (env w) 0) \<and>
    check_lnk deal later i pl' = disconnect i pl'"
proof -
  obtain p where p: "get_lnk_no pl = (int i, p)" "free_list p xs" "length (lnk p) = length (lnk pl)"
    using free_list_get assms(1) by blast
  have i: "i < length (lnk pl)" using assms(1) by (simp add: free_list_def) (metis)
  have same: "Socket (lnk p ! k) = Socket (lnk pl ! k)" for k
    using get_lnk_no_field [of Socket pl k] p(1) by simp
  have rn: "rnext (lnk p ! i) = -1" using taken_unlinked [OF p(1)] i by simp
  obtain fd err where o: "opens (env w) 0 = (fd, err)" "0 \<le> fd" using assms(3) by (cases "opens (env w) 0") auto
  then have ol: "open_loop (env w) 0 = Inr (fd, err)" by (subst open_loop.simps) simp
  define q where "q = took now i p"
  have q: "i < length (lnk q)" "Socket (lnk q ! i) < 0" "rnext (lnk q ! i) = -1" "timestamp (lnk q ! i) = now"
    using i p(3) same [of i] assms(2) by (simp_all add: q_def took_def)
  obtain rs where rs: "Net_Connect (env w) (lnk q ! i) = (snd (key_ret (env w)), rs)" "Socket rs = fd"
      "timestamp rs = now" "rnext rs = -1"
    using ol o assms(4) q by (auto simp: Net_Connect_def Let_def initconnect_def split: option.splits)
  define f where "f = upd_lnk i (\<lambda>rs. rs\<lparr>Errno := -1\<rparr>) (upd_lnk i (\<lambda>rs. rs\<lparr>Errno := snd (key_ret (env w))\<rparr>) (upd_lnk i (\<lambda>_. rs) q))"
  have "sc_connect False (env w) q i = Some (-1, upd_lnk i (\<lambda>rs. rs\<lparr>Errno := snd (key_ret (env w))\<rparr>) (upd_lnk i (\<lambda>_. rs) q))"
    using rs(1) assms(5) by (simp add: sc_connect_def Let_def)
  then have g: "get_SC_resource (midsc env) now flg pl w = Some (Bad, (add_lnk i f)\<lparr>weight := -1\<rparr>, Suc w)"
    using p(1) i q(2) by (auto simp: get_SC_resource_def Let_def q_def [symmetric] midsc_def connect_failed_def f_def)
  have f: "i < length (lnk f)" "Socket (lnk f ! i) = fd" "timestamp (lnk f ! i) = now" "rnext (lnk f ! i) = -1"
    using q(1) rs by (simp_all add: f_def)
  have "same_ring q (upd_lnk i (\<lambda>_. rs) q)" using rs(4) q(3) by (intro same_ring_upd(1)) simp
  then have "same_ring q (upd_lnk i (\<lambda>rs. rs\<lparr>Errno := snd (key_ret (env w))\<rparr>) (upd_lnk i (\<lambda>_. rs) q))"
    by (rule same_ring_fun) simp
  then have "same_ring q f" unfolding f_def by (rule same_ring_fun) simp
  moreover have "same_ring p q" unfolding q_def by (rule took_ring [OF rn])
  ultimately have "free_list f xs" using p(2) same_ring_free by metis
  moreover have "i \<notin> set xs" using conns.rep_slots [OF assms(1)] by simp
  ultimately obtain ys where ys: "free_list (add_lnk i f) ys" "ys = xs @ [i] \<or> ys = i # xs"
    using free_list_put f(1) by blast
  from ys(2) have "i \<in> set ys" by auto
  then have r: "0 \<le> rnext (lnk (add_lnk i f) ! i)" using ys(1) unfolding free_list_def by blast
  have s: "Socket (lnk (add_lnk i f) ! i) = fd" "timestamp (lnk (add_lnk i f) ! i) = now"
    using f add_lnk_field [of Socket] add_lnk_field [of timestamp] by simp_all
  show ?thesis using g r s o assms(6) by (auto simp: check_lnk_def Let_def)
qed

theorem failed_key_leaves_the_descriptor_witness:
  "\<exists>pl' w'. get_SC_resource (midsc (\<lambda>_. refusing\<lparr>opens := \<lambda>_. (7, 0), key_ret := (-1, 104)\<rparr>)) 10 True
     (resource_init 1 0 0 no_table) 0 = Some (Bad, pl', w') \<and> Socket (lnk pl' ! 0) = 7"
  using failed_key_leaves_the_descriptor [of "resource_init 1 0 0 no_table" 0 "[]"
      "\<lambda>_. refusing\<lparr>opens := \<lambda>_. (7, 0), key_ret := (-1, 104)\<rparr>" 0 10 400000000 True "\<lambda>_ pl. pl"]
    resource_init_free [of 1 0 0 no_table]
  by (auto simp: resource_init_def new_resource_def initconnect_def refusing_def)

end
