(* ===== verification/TPool.thy ===== *)
theory TPool
  imports Ring "HOL-Library.Signed_Division" "HOL-Library.Word"
begin

text \<open>The thread pool server: \<open>src/scsrv/tpool.c\<close>.  Each client has a task control block; a
  block is in one queue at most - the free ones, the ones ready for a worker thread, or the
  ones that wait for a connection of a database pool (\<open>mod_sc.c\<close>) - or waits for an event of
  its descriptor, or is worked on by a thread.\<close>

section \<open>The state\<close>

text \<open>\<open>Waiting n\<close> is \<open>wpool.QP[n].queue\<close>.  Functions are numbered: \<open>only_do\<close> and \<open>call_back\<close>
  hold the number of one, or nothing for a null pointer.  \<open>fiber\<close> says that the stack of \<open>uc\<close>
  has a size.  The block's own number \<open>sv.TCB_no\<close> is its place in the pool.\<close>

datatype queue = Ready | Free | Waiting nat

record TCB =
  tnext :: "nat option"
  events :: int
  fd :: int
  Socket :: int
  ctimeout :: int
  CryptFlg :: int
  only_do :: "nat option"
  call_back :: "nat option"
  AIO_flg :: int
  fiber :: bool
  timestamp :: int
  timeout :: int
  status :: int

record server =
  max_client :: int
  pool :: "TCB list"
  queues :: "queue \<Rightarrow> nat option"
  svc_num :: int

abbreviation upd_task :: "nat \<Rightarrow> (TCB \<Rightarrow> TCB) \<Rightarrow> server \<Rightarrow> server" where
  "upd_task i f s \<equiv> s\<lparr>pool := (pool s)[i := f (pool s ! i)]\<rparr>"

definition in_range :: "int \<Rightarrow> server \<Rightarrow> bool" where
  "in_range n s \<longleftrightarrow> 0 \<le> n \<and> n < max_client s"

section \<open>Queues of tasks\<close>

definition TCB_add :: "queue \<Rightarrow> int \<Rightarrow> server \<Rightarrow> int \<times> server" where
  "TCB_add q TCBno s =
     (if \<not> in_range TCBno s then (-1, s)
      else let i = nat TCBno in
        if tnext (pool s ! i) \<noteq> None then (-2, s)
        else let s = (case queues s q of
                 None \<Rightarrow> upd_task i (\<lambda>t. t\<lparr>tnext := Some i\<rparr>) s
               | Some rp \<Rightarrow> upd_task rp (\<lambda>t. t\<lparr>tnext := Some i\<rparr>)
                   (upd_task i (\<lambda>t. t\<lparr>tnext := tnext (pool s ! rp)\<rparr>) s))
          in (0, s\<lparr>queues := (queues s)(q := Some i)\<rparr>))"

text \<open>Both functions take the head of the queue; the caller of \<open>TCB_get\<close> gets its number.\<close>

definition unlink :: "queue \<Rightarrow> nat \<Rightarrow> nat \<Rightarrow> server \<Rightarrow> server" where
  "unlink q rp i s =
     (let s = (if tnext (pool s ! i) = Some i then s\<lparr>queues := (queues s)(q := None)\<rparr>
               else upd_task rp (\<lambda>t. t\<lparr>tnext := tnext (pool s ! i)\<rparr>) s)
      in upd_task i (\<lambda>t. t\<lparr>tnext := None\<rparr>) s)"

definition TCB_get :: "queue \<Rightarrow> server \<Rightarrow> int \<times> server" where
  "TCB_get q s =
     (case queues s q of None \<Rightarrow> (-1, s)
      | Some rp \<Rightarrow> let i = the (tnext (pool s ! rp)) in
          if tnext (pool s ! i) = None then (-2, s) else (int i, unlink q rp i s))"

definition rdy_get :: "server \<Rightarrow> nat option \<times> server" where
  "rdy_get s =
     (case queues s Ready of None \<Rightarrow> (None, s)
      | Some rp \<Rightarrow> (case tnext (pool s ! rp) of
            None \<Rightarrow> (Some rp, s\<lparr>queues := (queues s)(Ready := None)\<rparr>)
          | Some i \<Rightarrow> (Some i, unlink Ready rp i s)))"

section \<open>Callbacks and events\<close>

text \<open>\<open>None\<close> is the value \<open>(sdbcfunc)-1\<close>.  The guards of the first three functions let the
  number \<open>max_client\<close> through; the pool has a block there, which is in no queue.\<close>

definition set_callback :: "int \<Rightarrow> nat option \<Rightarrow> int \<Rightarrow> server \<Rightarrow> nat option option \<times> server" where
  "set_callback TCBno callback tmo s =
     (if TCBno < 0 \<or> TCBno > max_client s then (None, s)
      else (Some (call_back (pool s ! nat TCBno)),
            upd_task (nat TCBno) (\<lambda>t. t\<lparr>timeout := tmo, call_back := callback\<rparr>) s))"

definition get_TCB_connect :: "int \<Rightarrow> server \<Rightarrow> nat option" where
  "get_TCB_connect TCBno s = (if TCBno < 0 \<or> TCBno > max_client s then None else Some (nat TCBno))"

definition get_TCB_ctx :: "int \<Rightarrow> server \<Rightarrow> nat option" where
  "get_TCB_ctx TCBno s = (if TCBno < 0 \<or> TCBno > max_client s then None else Some (nat TCBno))"

definition unset_callback :: "int \<Rightarrow> server \<Rightarrow> nat option \<times> server" where
  "unset_callback TCBno s =
     (if \<not> in_range TCBno s then (None, s)
      else (call_back (pool s ! nat TCBno),
            upd_task (nat TCBno) (\<lambda>t. t\<lparr>call_back := None, timeout := ctimeout t\<rparr>) s))"

definition get_callback :: "int \<Rightarrow> server \<Rightarrow> nat option" where
  "get_callback TCBno s = (if \<not> in_range TCBno s then None else call_back (pool s ! nat TCBno))"

definition get_TCB :: "int \<Rightarrow> server \<Rightarrow> nat option" where
  "get_TCB TCBno s = (if \<not> in_range TCBno s then None else Some (nat TCBno))"

definition getNetHead :: "int \<Rightarrow> server \<Rightarrow> nat option" where
  "getNetHead TCBno s = (if \<not> in_range TCBno s then None else Some (nat TCBno))"

definition get_SRV_Var :: "int \<Rightarrow> server \<Rightarrow> nat option" where
  "get_SRV_Var TCBno s = (if \<not> in_range TCBno s then None else Some (nat TCBno))"

definition get_event_fd :: "int \<Rightarrow> server \<Rightarrow> int" where
  "get_event_fd TCBno s = (if \<not> in_range TCBno s then -1 else fd (pool s ! nat TCBno))"

definition get_event_status :: "int \<Rightarrow> server \<Rightarrow> int" where
  "get_event_status TCBno s = (if \<not> in_range TCBno s then -1 else events (pool s ! nat TCBno))"

definition get_TCB_status :: "int \<Rightarrow> server \<Rightarrow> int" where
  "get_TCB_status TCBno s = (if \<not> in_range TCBno s then -1 else status (pool s ! nat TCBno))"

text \<open>\<open>epoll_ctl\<close> is a function of the operation, the descriptor and the direction to its result
  and \<open>errno\<close>; err is the \<open>errno\<close> before.\<close>

type_synonym epoll = "int \<Rightarrow> int \<Rightarrow> bool \<Rightarrow> int \<times> int"

definition EPOLL_CTL_ADD :: int where "EPOLL_CTL_ADD = 1"
definition EPOLL_CTL_DEL :: int where "EPOLL_CTL_DEL = 2"
definition EPOLL_CTL_MOD :: int where "EPOLL_CTL_MOD = 3"
definition ENOENT :: int where "ENOENT = 2"
definition EEXIST :: int where "EEXIST = 17"
definition EPOLLIN :: int where "EPOLLIN = 1"

definition do_epoll :: "epoll \<Rightarrow> int \<Rightarrow> nat \<Rightarrow> int \<Rightarrow> bool \<Rightarrow> server \<Rightarrow> int \<times> int \<times> server" where
  "do_epoll ep err i op out s =
     (let t = pool s ! i in
      if fd t < 0 then (FORMATERR, err, s)
      else if tnext t \<noteq> None then (-1, err, s)
      else let s = upd_task i (\<lambda>t. t\<lparr>events := 0\<rparr>) s;
               (ret, err) = (if op \<noteq> 0 then ep op (fd t) out
                 else let (ret, err) = ep EPOLL_CTL_MOD (fd t) out in
                   if ret < 0 \<and> err = ENOENT then ep EPOLL_CTL_ADD (fd t) out else (ret, err))
           in (ret, err, if ret \<ge> 0 \<and> op = EPOLL_CTL_DEL then upd_task i (\<lambda>t. t\<lparr>fd := -1\<rparr>) s else s))"

definition set_event :: "epoll \<Rightarrow> int \<Rightarrow> int \<Rightarrow> int \<Rightarrow> int \<Rightarrow> nat option \<Rightarrow> int \<Rightarrow> server \<Rightarrow> int \<times> server" where
  "set_event ep err now TCBno efd callback tmo s =
     (if \<not> in_range TCBno s then (-1, s)
      else let i = nat TCBno;
               s = upd_task i (\<lambda>t. t\<lparr>fd := efd, call_back := callback, timestamp := now, timeout := tmo\<rparr>) s;
               (ret, err, s) = do_epoll ep err i 0 False s
           in (ret, s))"

definition clr_event :: "epoll \<Rightarrow> int \<Rightarrow> int \<Rightarrow> server \<Rightarrow> int \<times> server" where
  "clr_event ep err TCBno s =
     (if \<not> in_range TCBno s then (-1, s)
      else let i = nat TCBno; t = pool s ! i in
        if fd t = Socket t then (-2, upd_task i (\<lambda>t. t\<lparr>call_back := None, status := 1\<rparr>) s)
        else let s = upd_task i (\<lambda>t. t\<lparr>call_back := None\<rparr>) s;
                 (ret, err, s) = do_epoll ep err i EPOLL_CTL_DEL False s
             in (0, upd_task i (\<lambda>t. t\<lparr>fd := Socket t, timeout := ctimeout t\<rparr>) s))"

text \<open>\<open>freeconnect\<close> (\<open>net_pkg.c\<close>) on the fields of this model.\<close>

definition freeconnect :: "TCB \<Rightarrow> TCB" where
  "freeconnect t = t\<lparr>Socket := -1\<rparr>"

definition client_del :: "nat \<Rightarrow> server \<Rightarrow> server" where
  "client_del i s =
     snd (TCB_add Free (int i)
       (upd_task i (\<lambda>t. (freeconnect (t\<lparr>fd := -1, AIO_flg := 0, status := -1\<rparr>))\<lparr>events := 0, timeout := 0\<rparr>) s))"

section \<open>One event of a task\<close>

text \<open>What \<open>do_work\<close> calls, by the place it calls it from, and its record of calls: the results of the key
  negotiation and of the functions, and \<open>Marked\<close> where a function has itself changed the status of
  the task, which \<open>clr_event\<close> does: it marks the task as logged in.\<close>

datatype handler = Echo | Function nat | Get_srvname | Only nat | Callback nat | Init nat

datatype act = Key int | Called handler int | Marked

text \<open>The world of one event: \<open>epoll_ctl\<close> and \<open>errno\<close>, the results of \<open>mk_clikey\<close> and
  \<open>RecvPack\<close>, the protocol number received, the functions called, which see the whole server
  and may use its operations, and the time.\<close>

record event_env =
  ep :: epoll
  err0 :: int
  mk_ret :: int
  recv_ret :: int
  PROTO_NUM :: int
  call :: "handler \<Rightarrow> nat \<Rightarrow> server \<Rightarrow> int \<times> server"
  clock :: int

definition called :: "event_env \<Rightarrow> handler \<Rightarrow> nat \<Rightarrow> server \<Rightarrow> act list \<times> int \<times> server" where
  "called e h i s =
     (let (ret, s') = call e h i s
      in ((if status (pool s' ! i) = status (pool s ! i) then [] else [Marked]) @ [Called h ret], ret, s'))"

definition negotiate :: "event_env \<Rightarrow> nat \<Rightarrow> server \<Rightarrow> act list \<times> int \<times> server" where
  "negotiate e i s =
     (let init = only_do (pool s ! i);
          s = upd_task i (\<lambda>t. t\<lparr>only_do := None\<rparr>) s
      in if mk_ret e < 0 then ([Key (mk_ret e)], -1, s)
         else let s = upd_task i (\<lambda>t. t\<lparr>CryptFlg := mk_ret e, status := 0\<rparr>) s;
                  (acts, s) = (case init of None \<Rightarrow> ([], s)
                    | Some f \<Rightarrow> let (acts, ret, s) = called e (Init f) i s in (acts, s))
              in (Key (mk_ret e) # acts, 0, upd_task i (\<lambda>t. t\<lparr>timeout := 60\<rparr>) s))"

definition logged_in :: "int \<Rightarrow> TCB \<Rightarrow> TCB" where
  "logged_in ret t = (let t = t\<lparr>status := ret\<rparr> in if ret = 1 then t\<lparr>timeout := ctimeout t\<rparr> else t)"

definition serve :: "event_env \<Rightarrow> nat \<Rightarrow> server \<Rightarrow> act list \<times> int \<times> server" where
  "serve e i s =
     (let t = pool s ! i; p = PROTO_NUM e in
      if p = 1 then called e Echo i s
      else if status t = 0 then
        if p = 0 then
          let (acts, ret, s) = called e (Function 0) i s in
          (acts, ret, if ret \<ge> 0 then upd_task i (logged_in ret) s else s)
        else ([], -1, s)
      else case only_do t of
        Some f \<Rightarrow> called e (Only f) i s
      | None \<Rightarrow>
          if p = 0 then called e Get_srvname i s
          else if p > svc_num s then ([], -1, s)
          else called e (Function (nat p)) i s)"

definition receive :: "event_env \<Rightarrow> nat \<Rightarrow> server \<Rightarrow> act list \<times> int \<times> server" where
  "receive e i s =
     (if recv_ret e \<noteq> 0 then ([], -1, s)
      else let s = upd_task i (\<lambda>t. t\<lparr>timestamp := clock e\<rparr>) s in
        if PROTO_NUM e = 65535 then ([], -1, s)
        else let (acts, ret, s) = serve e i s in
          (acts, ret, if ret = 0 then upd_task i (\<lambda>t. t\<lparr>timeout := ctimeout t\<rparr>) s else s))"

definition user_event :: "event_env \<Rightarrow> nat \<Rightarrow> nat \<Rightarrow> server \<Rightarrow> act list \<times> int \<times> server" where
  "user_event e f i s =
     (let s = upd_task i (\<lambda>t. t\<lparr>timestamp := clock e\<rparr>) s;
          (acts, ret, s) = called e (Callback f) i s
      in (acts, ret, if status (pool s ! i) = 0 then upd_task i (\<lambda>t. t\<lparr>status := ret\<rparr>) s else s))"

text \<open>After the event the descriptor waits for the next one, or the client is deleted.\<close>

definition settle :: "event_env \<Rightarrow> int \<Rightarrow> int \<Rightarrow> nat \<Rightarrow> server \<Rightarrow> server" where
  "settle e tmo ret i s =
     (let s = (if timeout (pool s ! i) = 0 then upd_task i (\<lambda>t. t\<lparr>timeout := tmo\<rparr>) s else s);
          s = (if ret = -1
               then let (r, err, s) = do_epoll (ep e) (err0 e) i EPOLL_CTL_DEL False s
                    in upd_task i (\<lambda>t. t\<lparr>status := -2\<rparr>) s
               else if ret = THREAD_ESCAPE then s
               else let (r, err, s) = do_epoll (ep e) (err0 e) i EPOLL_CTL_MOD False s
                    in if r \<noteq> 0 \<and> err \<noteq> EEXIST then upd_task i (\<lambda>t. t\<lparr>status := -2\<rparr>) s else s);
          s = (if status (pool s ! i) = -2 then client_del i s else s)
      in upd_task i (\<lambda>t. t\<lparr>timestamp := clock e\<rparr>) s)"

definition do_work :: "event_env \<Rightarrow> nat \<Rightarrow> server \<Rightarrow> act list \<times> server" where
  "do_work e i s =
     (let tmo = timeout (pool s ! i);
          s = upd_task i (\<lambda>t. t\<lparr>timeout := 0\<rparr>) s;
          (acts, ret, s) = (case call_back (pool s ! i) of
             Some f \<Rightarrow> user_event e f i s
           | None \<Rightarrow> if status (pool s ! i) = -1 then negotiate e i s else receive e i s)
      in (acts, settle e tmo ret i s))"

section \<open>The worker threads\<close>

text \<open>One turn of \<open>thread_work\<close>, with the event \<open>epoll_wait\<close> has for a thread that finds no
  ready task and need not wait for one: a task is armed again, dropped because its last event
  is not dealt with, resumed in its fiber, or worked on.\<close>

datatype turn = Rearmed nat | Dropped nat | Resumed nat | Worked nat "act list"

definition run_task :: "event_env \<Rightarrow> nat \<Rightarrow> server \<Rightarrow> turn \<times> server" where
  "run_task e i s =
     (if AIO_flg (pool s ! i) \<noteq> 0 then (Resumed i, s)
      else let (acts, s) = do_work e i s in (Worked i acts, s))"

definition thread_work :: "event_env \<Rightarrow> nat \<times> int \<Rightarrow> server \<Rightarrow> turn \<times> server" where
  "thread_work e ev s =
     (case rdy_get s of
        (Some i, s) \<Rightarrow>
          if AIO_flg (pool s ! i) = 0 \<and> call_back (pool s ! i) = None
          then let s = upd_task i (\<lambda>t. t\<lparr>fd := Socket t\<rparr>) s
               in (Rearmed i, if fd (pool s ! i) \<ge> 0 then snd (snd (do_epoll (ep e) (err0 e) i 0 False s)) else s)
          else run_task e i s
      | (None, s) \<Rightarrow>
          let (i, evs) = ev in
          if events (pool s ! i) \<noteq> 0 then (Dropped i, s)
          else run_task e i (upd_task i (\<lambda>t. t\<lparr>events := evs\<rparr>) s))"

text \<open>\<open>do_event\<close> in the fiber of a task, up to the switch to the thread - with the fields to
  restore - and after it.\<close>

definition do_event_start ::
    "epoll \<Rightarrow> int \<Rightarrow> int \<Rightarrow> nat \<Rightarrow> int \<Rightarrow> int \<Rightarrow> int \<Rightarrow> server \<Rightarrow> (int + int \<times> int) \<times> server" where
  "do_event_start e err now i sock flg tmo s =
     (if \<not> fiber (pool s ! i) then (Inl MEMERR, s)
      else let save_fd = fd (pool s ! i);
               save_timeo = (if tmo > 0 then timeout (pool s ! i) else -1);
               s = (if tmo > 0 then upd_task i (\<lambda>t. t\<lparr>timeout := tmo\<rparr>) s else s);
               s = upd_task i (\<lambda>t. t\<lparr>AIO_flg := flg + 1, fd := sock, timestamp := now\<rparr>) s;
               (ret, err, s) = do_epoll e err i 0 (flg \<noteq> 0) s;
               back = (\<lambda>t. let t = t\<lparr>fd := save_fd, AIO_flg := 0\<rparr> in
                 if save_timeo > -1 then t\<lparr>timeout := save_timeo\<rparr> else t)
           in if ret < 0 then (Inl FORMATERR, upd_task i back s) else (Inr (save_fd, save_timeo), s))"

definition do_event_end :: "nat \<Rightarrow> int \<Rightarrow> int \<times> int \<Rightarrow> server \<Rightarrow> int \<times> server" where
  "do_event_end i flg saved s =
     (let s = upd_task i (\<lambda>t. let t = t\<lparr>fd := fst saved, AIO_flg := 0\<rparr> in
            if snd saved > -1 then t\<lparr>timeout := snd saved\<rparr> else t) s
      in (if flg = 0 \<and> events (pool s ! i) \<noteq> EPOLLIN then TIMEOUTERR else 0, s))"

section \<open>The main thread\<close>

definition check_one :: "event_env \<Rightarrow> nat \<Rightarrow> int \<times> server \<Rightarrow> int \<times> server" where
  "check_one e i ns =
     (let (num, s) = ns; task = pool s ! i in
      if timeout task \<le> 0 \<or> fd task < 0 then (num, s)
      else let t = sint (of_int ((clock e - timestamp task) sdiv 1000000) :: 32 word) in
        if t < timeout task then (num, s)
        else if tnext task \<noteq> None then (num, s)
        else if call_back task \<noteq> None
        then (num, snd (TCB_add Ready (int i) (upd_task i (\<lambda>t. t\<lparr>events := 16\<rparr>) s)))
        else let (r, err, s) = do_epoll (ep e) (err0 e) i EPOLL_CTL_DEL False s;
                 s = upd_task i (\<lambda>t. t\<lparr>events := 16\<rparr>) s
             in if AIO_flg (pool s ! i) \<noteq> 0 then (num, snd (TCB_add Ready (int i) s))
                else (num + 1, client_del i s))"

definition check_TCB_timeout :: "event_env \<Rightarrow> server \<Rightarrow> int \<times> server" where
  "check_TCB_timeout e s = fold (check_one e) [0..<nat (max_client s)] (0, s)"

text \<open>A new client: \<open>get_task_no\<close> waits while this is \<open>None\<close>.  sock is the result of
  \<open>accept\<close>.\<close>

definition get_task_no :: "server \<Rightarrow> (nat \<times> server) option" where
  "get_task_no s = (let (i, s) = TCB_get Free s in if i < 0 then None else Some (nat i, s))"

definition new_client :: "event_env \<Rightarrow> nat option \<Rightarrow> int \<Rightarrow> nat \<Rightarrow> server \<Rightarrow> server" where
  "new_client e conn_init sock i s =
     (if sock < 0 then client_del i s
      else let s = upd_task i (\<lambda>t. t\<lparr>fd := sock, Socket := sock, timestamp := clock e, timeout := 60,
                                  status := -1, only_do := conn_init\<rparr>) s
           in snd (snd (do_epoll (ep e) (err0 e) i EPOLL_CTL_ADD False s)))"

text \<open>The tables of \<open>tpool_init\<close>: the pool has a block more than \<open>max_client\<close>, which \<open>TCB_add\<close>
  refuses.  MAXCLT is the environment variable, n the limit on descriptors, 0 or less when
  there is none, num the highest service number; junk is what the descriptors hold.\<close>

definition new_task :: "int \<Rightarrow> TCB" where
  "new_task junk = \<lparr>tnext = None, events = 0, fd = junk, Socket = -1, ctimeout = 0, CryptFlg = 15,
     only_do = None, call_back = None, AIO_flg = 0, fiber = False, timestamp = 0, timeout = 0, status = -1\<rparr>"

definition clients :: "int option \<Rightarrow> int \<Rightarrow> int" where
  "clients MAXCLT n =
     (case MAXCLT of None \<Rightarrow> 2
      | Some m \<Rightarrow> let i = sint (push_bit 3 (of_int n) :: 32 word) sdiv 10 in if n > 0 \<and> m > i then i else m)"

definition tpool_init :: "int option \<Rightarrow> int \<Rightarrow> int \<Rightarrow> (nat \<Rightarrow> int) \<Rightarrow> server" where
  "tpool_init MAXCLT n num junk =
     (let m = clients MAXCLT n;
          s = \<lparr>max_client = m, pool = map (\<lambda>i. new_task (junk i)) [0..<nat (m + 1)],
                queues = (\<lambda>_. None), svc_num = num\<rparr>
      in fold (\<lambda>i s. snd (TCB_add Free (int i) s)) [0..<nat (m + 1)] s)"

section \<open>The queues are lists\<close>

definition nx_of :: "TCB list \<Rightarrow> nat \<Rightarrow> nat option" where
  "nx_of l i = (if i < length l then tnext (l ! i) else None)"

lemma next_upd [ring_simps]: "i < length l \<Longrightarrow> nx_of (l[i := t]) = (nx_of l)(i := tnext t)"
  by (auto simp: nx_of_def fun_eq_iff nth_list_update)

definition holds :: "server \<Rightarrow> (queue \<Rightarrow> nat list) \<Rightarrow> bool" where
  "holds s f \<longleftrightarrow> (\<forall>q. ring (nx_of (pool s)) (queues s q) (f q)) \<and>
     (\<forall>q q'. q \<noteq> q' \<longrightarrow> set (f q) \<inter> set (f q') = {}) \<and>
     (\<forall>i. nx_of (pool s) i \<noteq> None \<longleftrightarrow> (\<exists>q. i \<in> set (f q))) \<and>
     (\<forall>q. \<forall>i\<in>set (f q). int i < max_client s) \<and> nat (max_client s) \<le> length (pool s)"

lemma holds_parts:
  assumes "holds s f"
  shows "ring (nx_of (pool s)) (queues s q) (f q)" "q \<noteq> q' \<Longrightarrow> set (f q) \<inter> set (f q') = {}"
    "nx_of (pool s) i \<noteq> None \<longleftrightarrow> (\<exists>q. i \<in> set (f q))" "i \<in> set (f q) \<Longrightarrow> int i < max_client s"
    "i \<in> set (f q) \<Longrightarrow> i < length (pool s)" "nat (max_client s) \<le> length (pool s)"
  using assms unfolding holds_def by (blast, blast, blast, blast, force, blast)

text \<open>Everything but the links may change freely.\<close>

lemma holds_same:
  assumes "holds s f" "\<And>i. nx_of (pool s') i = nx_of (pool s) i" "queues s' = queues s"
    "max_client s' = max_client s" "length (pool s') = length (pool s)"
  shows "holds s' f"
proof -
  have "nx_of (pool s') = nx_of (pool s)" using assms(2) by blast
  then show ?thesis using assms(1,3-5) by (simp add: holds_def)
qed

lemma holds_upd: "holds s f \<Longrightarrow> tnext (g (pool s ! i)) = tnext (pool s ! i) \<Longrightarrow> holds (upd_task i g s) f"
  by (rule holds_same; cases "i < length (pool s)") (auto simp: ring_simps nx_of_def list_update_beyond)

text \<open>One queue changes, the links of the others stay.\<close>

lemma holds_change:
  assumes "holds s f" "ring (nx_of (pool s')) p ys" "queues s' = (queues s)(q := p)"
    "max_client s' = max_client s" "length (pool s') = length (pool s)"
    "\<And>j. j \<notin> set ys \<union> set (f q) \<Longrightarrow> nx_of (pool s') j = nx_of (pool s) j"
    "\<And>j. j \<in> set (f q) - set ys \<Longrightarrow> nx_of (pool s') j = None"
    "\<And>j q'. j \<in> set ys \<Longrightarrow> j \<in> set (f q') \<Longrightarrow> q' = q" "\<And>j. j \<in> set ys \<Longrightarrow> int j < max_client s"
  shows "holds s' (f(q := ys))"
proof -
  note h = holds_parts [OF assms(1)]
  have r: "ring (nx_of (pool s')) (queues s' k) ((f(q := ys)) k)" for k
  proof (cases "k = q")
    case False
    then have "nx_of (pool s') j = nx_of (pool s) j" if "j \<in> set (f k)" for j
      using assms(6) [of j] assms(8) [of j k] h(2) [of k q] that by auto
    then show ?thesis using ring_cong h(1) [of k] assms(3) False by (metis fun_upd_other)
  qed (use assms(2,3) in simp)
  have d: "set ((f(q := ys)) k) \<inter> set ((f(q := ys)) k') = {}" if "k \<noteq> k'" for k k'
    using h(2) [OF that] assms(8) that by auto
  have n: "nx_of (pool s') i \<noteq> None \<longleftrightarrow> (\<exists>k. i \<in> set ((f(q := ys)) k))" for i
  proof (cases "i \<in> set ys")
    case True
    then show ?thesis using ring_linked [OF assms(2), of i] by (auto intro: exI [of _ q])
  next
    case False
    then have "(\<exists>k. i \<in> set ((f(q := ys)) k)) \<longleftrightarrow> (\<exists>k. k \<noteq> q \<and> i \<in> set (f k))"
      by (metis fun_upd_apply)
    moreover have "nx_of (pool s') i \<noteq> None \<longleftrightarrow> (\<exists>k. k \<noteq> q \<and> i \<in> set (f k))"
    proof (cases "i \<in> set (f q)")
      case True
      then have "i \<notin> set (f k)" if "k \<noteq> q" for k using h(2) [OF that] by blast
      then show ?thesis using assms(7) [of i] True False by auto
    next
      case out: False
      then have "(\<exists>k. k \<noteq> q \<and> i \<in> set (f k)) \<longleftrightarrow> (\<exists>k. i \<in> set (f k))" by metis
      then show ?thesis using assms(6) [of i] out False h(3) [of i] by simp
    qed
    ultimately show ?thesis by simp
  qed
  have m: "int i < max_client s'" if "i \<in> set ((f(q := ys)) k)" for i k
    using that assms(4,9) h(4) by (auto split: if_splits)
  show ?thesis unfolding holds_def using r d n m h(6) assms(4,5) by simp
qed

lemma holds_TCB_add:
  assumes "holds s f"
  shows "if \<not> in_range n s then TCB_add q n s = (-1, s)
    else if \<exists>q'. nat n \<in> set (f q') then TCB_add q n s = (-2, s)
    else \<exists>s'. TCB_add q n s = (0, s') \<and> holds s' (f(q := f q @ [nat n]))"
proof (cases "in_range n s \<and> \<not> (\<exists>q'. nat n \<in> set (f q'))")
  case False
  have "tnext (pool s ! nat n) \<noteq> None" if "in_range n s" "nat n \<in> set (f q')" for q'
    using holds_parts(3) [OF assms, of "nat n"] holds_parts(5) [OF assms that(2)] that(2)
    by (auto simp: nx_of_def)
  then show ?thesis using False by (auto simp: TCB_add_def Let_def)
next
  case True
  let ?i = "nat n" and ?nx = "nx_of (pool s)"
  have i: "in_range n s" "?i \<notin> set (f q')" for q' using True by auto
  have l: "?i < length (pool s)" "int ?i < max_client s"
    using i(1) holds_parts(6) [OF assms] by (auto simp: in_range_def)
  have t: "tnext (pool s ! ?i) = None"
    using holds_parts(3) [OF assms, of ?i] i(2) l(1) by (auto simp: nx_of_def)
  show ?thesis
  proof (cases "queues s q")
    case None
    then have e: "f q = []" using holds_parts(1) [OF assms, of q] by simp
    let ?s = "(upd_task ?i (\<lambda>t. t\<lparr>tnext := Some ?i\<rparr>) s)\<lparr>queues := (queues s)(q := Some ?i)\<rparr>"
    have "TCB_add q n s = (0, ?s)" using None i(1) t by (simp add: TCB_add_def Let_def)
    moreover have "holds ?s (f(q := [?i]))"
      by (rule holds_change [OF assms]) (use l i e in \<open>auto simp: ring_simps ring_single\<close>)
    ultimately show ?thesis using i e by simp
  next
    case (Some rp)
    have r: "ring ?nx (Some rp) (f q)" using holds_parts(1) [OF assms, of q] Some by simp
    then have rp: "rp \<in> set (f q)" by (auto simp: ring_last)
    have rl: "rp < length (pool s)" "rp \<noteq> ?i" using holds_parts(5) [OF assms rp] rp i(2) by auto
    have nr: "tnext (pool s ! rp) = ?nx rp" using rl(1) by (simp add: nx_of_def)
    let ?s = "(upd_task rp (\<lambda>t. t\<lparr>tnext := Some ?i\<rparr>) (upd_task ?i (\<lambda>t. t\<lparr>tnext := ?nx rp\<rparr>) s))
      \<lparr>queues := (queues s)(q := Some ?i)\<rparr>"
    have "TCB_add q n s = (0, ?s)" using Some i(1) t nr rl(2) by (simp add: TCB_add_def Let_def)
    moreover have "nx_of (pool ?s) = ?nx(?i := ?nx rp, rp := Some ?i)"
      using l(1) rl by (simp add: ring_simps)
    then have "holds ?s (f(q := f q @ [?i]))"
      by (intro holds_change [OF assms]) (use l i rp ring_grow [OF r i(2)] holds_parts(2,4) [OF assms] in auto)
    ultimately show ?thesis using i by simp
  qed
qed

lemma unlink_head:
  assumes "holds s f" "queues s q = Some rp" "f q = x # xs"
  shows "tnext (pool s ! rp) = Some x" "tnext (pool s ! x) \<noteq> None" "holds (unlink q rp x s) (f(q := xs))"
proof -
  let ?nx = "nx_of (pool s)"
  have r: "ring ?nx (Some rp) (x # xs)" using holds_parts(1) [OF assms(1), of q] assms(2,3) by simp
  then have m: "x \<in> set (f q)" "rp \<in> set (f q)" using assms(3) by (auto simp: ring_def)
  note l = holds_parts(5) [OF assms(1)]
  have lx: "x < length (pool s)" "rp < length (pool s)" using l [OF m(1)] l [OF m(2)] by auto
  then have nx: "?nx x = tnext (pool s ! x)" "?nx rp = tnext (pool s ! rp)" by (simp_all add: nx_of_def)
  show n: "tnext (pool s ! rp) = Some x" using ring_head [OF r] nx by simp
  show "tnext (pool s ! x) \<noteq> None" using holds_parts(3) [OF assms(1), of x] m(1) nx by auto
  show "holds (unlink q rp x s) (f(q := xs))"
  proof (cases "xs = []")
    case True
    then have o: "rp = x" "?nx x = Some x" using ring_pop_one r by auto
    show ?thesis
      by (rule holds_change [OF assms(1)])
        (use True o nx lx assms(3) in \<open>auto simp: unlink_def Let_def ring_simps\<close>)
  next
    case False
    have p: "x \<noteq> rp" "x \<notin> set xs" "ring (?nx(rp := ?nx x)) (Some rp) xs" using ring_pop [OF r False] by auto
    have "tnext (pool s ! x) \<noteq> Some x"
    proof
      assume "tnext (pool s ! x) = Some x"
      then have "ring (?nx(rp := Some x)) (Some rp) xs" using p(3) nx by simp
      from ring_head [of _ _ "hd xs" "tl xs"] this False have "x = hd xs" by fastforce
      then show False using p(2) False by simp
    qed
    then have u: "nx_of (pool (unlink q rp x s)) = ?nx(rp := ?nx x, x := None)" "queues (unlink q rp x s) = queues s"
        "max_client (unlink q rp x s) = max_client s" "length (pool (unlink q rp x s)) = length (pool s)"
      using lx nx p(1) by (simp_all add: unlink_def ring_simps)
    have d: "q' = q" if "j \<in> set xs" "j \<in> set (f q')" for j q'
      using holds_parts(2) [OF assms(1), of q' q] that assms(3) by auto
    have e: "queues s = (queues s)(q := Some rp)" using assms(2) by auto
    have "ring (?nx(rp := ?nx x, x := None)) (Some rp) xs" using p by (simp add: ring_simps)
    moreover have "int j < max_client s" if "j \<in> set xs" for j
      using holds_parts(4) [OF assms(1), of j q] that assms(3) by simp
    ultimately show ?thesis using m p(2) d e assms(3)
      by (intro holds_change [OF assms(1), where p = "Some rp"]) (simp_all add: u, auto)
  qed
qed

lemma holds_queue: "holds s f \<Longrightarrow> queues s q = None \<longleftrightarrow> f q = []"
  using holds_parts(1) [of s f q] by (cases "queues s q") auto

lemma holds_TCB_get:
  assumes "holds s f"
  shows "case f q of [] \<Rightarrow> TCB_get q s = (-1, s)
    | x # xs \<Rightarrow> \<exists>s'. TCB_get q s = (int x, s') \<and> holds s' (f(q := xs))"
proof (cases "f q")
  case Nil
  then show ?thesis using holds_queue [OF assms, of q] by (simp add: TCB_get_def)
next
  case (Cons x xs)
  then obtain rp where "queues s q = Some rp" using holds_queue [OF assms, of q] by auto
  from unlink_head [OF assms this Cons] this Cons show ?thesis by (simp add: TCB_get_def)
qed

lemma holds_rdy_get:
  assumes "holds s f"
  shows "case f Ready of [] \<Rightarrow> rdy_get s = (None, s)
    | x # xs \<Rightarrow> \<exists>s'. rdy_get s = (Some x, s') \<and> holds s' (f(Ready := xs))"
proof (cases "f Ready")
  case Nil
  then show ?thesis using holds_queue [OF assms, of Ready] by (simp add: rdy_get_def)
next
  case (Cons x xs)
  then obtain rp where "queues s Ready = Some rp" using holds_queue [OF assms, of Ready] by auto
  from unlink_head [OF assms this Cons] this Cons show ?thesis by (simp add: rdy_get_def)
qed

definition add_task :: "queue \<Rightarrow> nat \<Rightarrow> server \<Rightarrow> server" where
  "add_task q i s = snd (TCB_add q (int i) s)"

definition get_task :: "queue \<Rightarrow> server \<Rightarrow> (nat \<times> server) option" where
  "get_task q s = (let (n, s) = TCB_get q s in if n < 0 then None else Some (nat n, s))"

lemma get_task_no_Free: "get_task_no = get_task Free"
  by (simp add: fun_eq_iff get_task_no_def get_task_def)

lemma TCB_add_max: "max_client (snd (TCB_add q n s)) = max_client s"
  by (simp add: TCB_add_def Let_def split: option.splits)

lemma TCB_get_max: "max_client (snd (TCB_get q s)) = max_client s"
  by (simp add: TCB_get_def unlink_def Let_def split: option.splits)

interpretation tasks: queue_family holds "\<lambda>s i. in_range (int i) s" add_task get_task
proof
  fix s f q q' i x xs
  show "holds s f \<Longrightarrow> distinct (f q) \<and> (q \<noteq> q' \<longrightarrow> set (f q) \<inter> set (f q') = {})"
    using ring_distinct [OF holds_parts(1)] holds_parts(2) by blast
  show "holds s f \<Longrightarrow> in_range (int i) s \<Longrightarrow> \<forall>q. i \<notin> set (f q) \<Longrightarrow>
      holds (add_task q i s) (f(q := f q @ [i])) \<and> (\<lambda>j. in_range (int j) (add_task q i s)) = (\<lambda>j. in_range (int j) s)"
    using holds_TCB_add [of s f "int i" q] TCB_add_max [of q "int i" s]
    by (auto simp: add_task_def in_range_def)
  show "holds s f \<Longrightarrow> \<not> in_range (int i) s \<or> (\<exists>q. i \<in> set (f q)) \<Longrightarrow> add_task q' i s = s"
    using holds_TCB_add [of s f "int i" q'] by (auto simp: add_task_def split: if_splits)
  show "holds s f \<Longrightarrow> f q = [] \<Longrightarrow> get_task q s = None"
    using holds_TCB_get [of s f q] by (simp add: get_task_def)
  show "holds s f \<Longrightarrow> f q = x # xs \<Longrightarrow>
      \<exists>s'. get_task q s = Some (x, s') \<and> holds s' (f(q := xs)) \<and> (\<lambda>j. in_range (int j) s') = (\<lambda>j. in_range (int j) s)"
    using holds_TCB_get [of s f q] TCB_get_max [of q s] by (auto simp: get_task_def in_range_def)
qed

section \<open>What the operations do to the queues\<close>

text \<open>The steps on the queues and the blocks: all that the server, the functions it calls and
  the threads beside it do to them is made of these.\<close>

inductive api :: "server \<Rightarrow> server \<Rightarrow> bool" where
  add: "api s (snd (TCB_add q n s))"
| get: "api s (snd (TCB_get q s))"
| ready: "api s (snd (rdy_get s))"
| edit: "tnext (g (pool s ! i)) = tnext (pool s ! i) \<Longrightarrow> api s (upd_task i g s)"

lemma api_holds: "api s s' \<Longrightarrow> holds s f \<Longrightarrow> \<exists>f'. holds s' f'"
proof (induction rule: api.induct)
  case (add s q n)
  then show ?case using holds_TCB_add [OF add, of n q] by (auto split: if_splits)
next
  case (get s q)
  then show ?case using holds_TCB_get [OF get, of q] by (auto split: list.splits)
next
  case (ready s)
  then show ?case using holds_rdy_get [OF ready] by (auto split: list.splits)
next
  case (edit g s i)
  then show ?case using holds_upd by blast
qed

lemma apis_holds: "api\<^sup>*\<^sup>* s s' \<Longrightarrow> holds s f \<Longrightarrow> \<exists>f'. holds s' f'"
  by (induction rule: rtranclp_induct) (auto dest: api_holds)

definition by_api :: "event_env \<Rightarrow> bool" where
  "by_api e \<longleftrightarrow> (\<forall>h i s. api\<^sup>*\<^sup>* s (snd (call e h i s)))"

lemma apis_edit: "api\<^sup>*\<^sup>* s0 s \<Longrightarrow> (\<And>t. tnext (g t) = tnext t) \<Longrightarrow> api\<^sup>*\<^sup>* s0 (upd_task i g s)"
  by (rule rtranclp.rtrancl_into_rtrancl, assumption, rule api.edit) simp

lemma apis_add: "api\<^sup>*\<^sup>* s0 s \<Longrightarrow> api\<^sup>*\<^sup>* s0 (snd (TCB_add q n s))"
  by (rule rtranclp.rtrancl_into_rtrancl) (auto intro: api.add)

lemma apis_if: "api\<^sup>*\<^sup>* s0 a \<Longrightarrow> api\<^sup>*\<^sup>* s0 b \<Longrightarrow> api\<^sup>*\<^sup>* s0 (if c then a else b)"
  by simp

lemma do_epoll_cases:
  assumes "do_epoll p err i op out s = (r, err', s')"
  obtains "s' = s" | "s' = upd_task i (\<lambda>t. t\<lparr>events := 0\<rparr>) s"
    | "s' = upd_task i (\<lambda>t. t\<lparr>fd := -1\<rparr>) (upd_task i (\<lambda>t. t\<lparr>events := 0\<rparr>) s)"
  using assms by (auto simp: do_epoll_def Let_def split: if_splits prod.splits)

lemma apis_do_epoll: "api\<^sup>*\<^sup>* s0 s \<Longrightarrow> do_epoll p err i op out s = (r, err', s') \<Longrightarrow> api\<^sup>*\<^sup>* s0 s'"
  by (erule do_epoll_cases; hypsubst; (assumption | rule apis_edit | simp)+)

lemma apis_client_del: "api\<^sup>*\<^sup>* s0 s \<Longrightarrow> api\<^sup>*\<^sup>* s0 (client_del i s)"
  unfolding client_del_def by (rule apis_add, rule apis_edit) (simp_all add: freeconnect_def)

lemma apis_called: "by_api e \<Longrightarrow> api\<^sup>*\<^sup>* s0 s \<Longrightarrow> called e h i s = (acts, r, s') \<Longrightarrow> api\<^sup>*\<^sup>* s0 s'"
  unfolding by_api_def called_def by (auto split: prod.splits) (metis rtranclp_trans snd_conv)

lemma apis_get: "api\<^sup>*\<^sup>* s0 s \<Longrightarrow> TCB_get q s = (n, s') \<Longrightarrow> api\<^sup>*\<^sup>* s0 s'"
  by (metis api.get rtranclp.rtrancl_into_rtrancl snd_conv)

lemma apis_ready: "api\<^sup>*\<^sup>* s0 s \<Longrightarrow> rdy_get s = (n, s') \<Longrightarrow> api\<^sup>*\<^sup>* s0 s'"
  by (metis api.ready rtranclp.rtrancl_into_rtrancl snd_conv)

lemma apis_negotiate:
  assumes "by_api e" "api\<^sup>*\<^sup>* s0 s" "negotiate e i s = (acts, r, s')"
  shows "api\<^sup>*\<^sup>* s0 s'"
proof -
  let ?a = "upd_task i (\<lambda>t. t\<lparr>only_do := None\<rparr>) s"
  let ?b = "upd_task i (\<lambda>t. t\<lparr>CryptFlg := mk_ret e, status := 0\<rparr>) ?a"
  have a: "api\<^sup>*\<^sup>* s0 ?a" by (rule apis_edit [OF assms(2)]) simp
  have b: "api\<^sup>*\<^sup>* s0 ?b" by (rule apis_edit [OF a]) simp
  have c: "api\<^sup>*\<^sup>* s0 (upd_task i (\<lambda>t. t\<lparr>timeout := 60\<rparr>) x)" if "api\<^sup>*\<^sup>* s0 x" for x
    by (rule apis_edit [OF that]) simp
  show ?thesis using assms(3) a c [OF b] c [OF apis_called [OF assms(1) b]]
    by (auto simp: negotiate_def Let_def split: if_splits option.splits prod.splits)
qed

lemma apis_serve:
  assumes "by_api e" "api\<^sup>*\<^sup>* s0 s" "serve e i s = (acts, r, s')"
  shows "api\<^sup>*\<^sup>* s0 s'"
proof -
  note c = apis_called [OF assms(1,2)]
  have u: "api\<^sup>*\<^sup>* s0 (upd_task i (logged_in r) x)"
    if "api\<^sup>*\<^sup>* s0 x" for x r by (rule apis_edit [OF that]) (simp add: logged_in_def Let_def)
  obtain acts' r' s1 where f: "called e (Function 0) i s = (acts', r', s1)" by (metis prod_cases3)
  show ?thesis using assms(3) assms(2) c u [OF c [OF f]] c [OF f] f
    by (auto simp: serve_def Let_def split: if_splits option.splits)
qed

lemma apis_receive:
  assumes "by_api e" "api\<^sup>*\<^sup>* s0 s" "receive e i s = (acts, r, s')"
  shows "api\<^sup>*\<^sup>* s0 s'"
proof -
  let ?a = "upd_task i (\<lambda>t. t\<lparr>timestamp := clock e\<rparr>) s"
  have a: "api\<^sup>*\<^sup>* s0 ?a" by (rule apis_edit [OF assms(2)]) simp
  obtain acts' r' s1 where f: "serve e i ?a = (acts', r', s1)" by (metis prod_cases3)
  note b = apis_serve [OF assms(1) a f]
  have "api\<^sup>*\<^sup>* s0 (upd_task i (\<lambda>t. t\<lparr>timeout := ctimeout t\<rparr>) s1)" by (rule apis_edit [OF b]) simp
  then show ?thesis using assms(2,3) a b f by (auto simp: receive_def Let_def split: if_splits)
qed

lemma apis_user_event:
  assumes "by_api e" "api\<^sup>*\<^sup>* s0 s" "user_event e f i s = (acts, r, s')"
  shows "api\<^sup>*\<^sup>* s0 s'"
proof -
  let ?a = "upd_task i (\<lambda>t. t\<lparr>timestamp := clock e\<rparr>) s"
  have a: "api\<^sup>*\<^sup>* s0 ?a" by (rule apis_edit [OF assms(2)]) simp
  obtain acts' r' s1 where c: "called e (Callback f) i ?a = (acts', r', s1)" by (metis prod_cases3)
  note b = apis_called [OF assms(1) a c]
  have "api\<^sup>*\<^sup>* s0 (upd_task i (\<lambda>t. t\<lparr>status := r'\<rparr>) s1)" by (rule apis_edit [OF b]) simp
  then show ?thesis using assms(3) b c by (auto simp: user_event_def Let_def)
qed

lemma apis_settle:
  assumes "api\<^sup>*\<^sup>* s0 s"
  shows "api\<^sup>*\<^sup>* s0 (settle e tmo ret i s)"
proof -
  define a where "a = (if timeout (pool s ! i) = 0 then upd_task i (\<lambda>t. t\<lparr>timeout := tmo\<rparr>) s else s)"
  have a: "api\<^sup>*\<^sup>* s0 a" unfolding a_def by (rule apis_if [OF apis_edit [OF assms] assms]) simp
  have d: "api\<^sup>*\<^sup>* s0 (upd_task i (\<lambda>t. t\<lparr>status := -2\<rparr>) x)" if "api\<^sup>*\<^sup>* s0 x" for x
    by (rule apis_edit [OF that]) simp
  obtain r1 e1 s1 where s1: "do_epoll (ep e) (err0 e) i EPOLL_CTL_DEL False a = (r1, e1, s1)" by (metis prod_cases3)
  obtain r2 e2 s2 where s2: "do_epoll (ep e) (err0 e) i EPOLL_CTL_MOD False a = (r2, e2, s2)" by (metis prod_cases3)
  note b = d [OF apis_do_epoll [OF a s1]] and c = apis_do_epoll [OF a s2]
  define z where "z = (if ret = -1 then upd_task i (\<lambda>t. t\<lparr>status := -2\<rparr>) s1 else if ret = THREAD_ESCAPE then a
    else if r2 \<noteq> 0 \<and> e2 \<noteq> EEXIST then upd_task i (\<lambda>t. t\<lparr>status := -2\<rparr>) s2 else s2)"
  have z: "api\<^sup>*\<^sup>* s0 z" unfolding z_def using a b c d [OF c] by (intro apis_if)
  have "settle e tmo ret i s = upd_task i (\<lambda>t. t\<lparr>timestamp := clock e\<rparr>)
      (if status (pool z ! i) = -2 then client_del i z else z)"
    unfolding settle_def Let_def a_def [symmetric] s1 s2 prod.case z_def [symmetric] ..
  moreover have "api\<^sup>*\<^sup>* s0 (upd_task i (\<lambda>t. t\<lparr>timestamp := clock e\<rparr>)
      (if status (pool z ! i) = -2 then client_del i z else z))"
    by (rule apis_edit [OF apis_if [OF apis_client_del [OF z] z]]) simp
  ultimately show ?thesis by simp
qed

lemma apis_do_work:
  assumes "by_api e" "api\<^sup>*\<^sup>* s0 s" "do_work e i s = (acts, s')"
  shows "api\<^sup>*\<^sup>* s0 s'"
proof -
  let ?a = "upd_task i (\<lambda>t. t\<lparr>timeout := 0\<rparr>) s"
  have a: "api\<^sup>*\<^sup>* s0 ?a" by (rule apis_edit [OF assms(2)]) simp
  show ?thesis using assms(3) apis_negotiate [OF assms(1) a] apis_receive [OF assms(1) a] apis_user_event [OF assms(1) a]
    by (auto simp: do_work_def Let_def intro!: apis_settle split: option.splits if_splits prod.splits)
qed

lemma apis_run_task: "by_api e \<Longrightarrow> api\<^sup>*\<^sup>* s0 s \<Longrightarrow> run_task e i s = (t, s') \<Longrightarrow> api\<^sup>*\<^sup>* s0 s'"
  using apis_do_work by (auto simp: run_task_def split: if_splits prod.splits)

lemma apis_thread_work:
  assumes "by_api e" "thread_work e ev s = (t, s')"
  shows "api\<^sup>*\<^sup>* s s'"
proof -
  obtain n s1 where n: "rdy_get s = (n, s1)" by fastforce
  have r: "api\<^sup>*\<^sup>* s s1" by (rule apis_ready [OF rtranclp.rtrancl_refl n])
  obtain j evs where ev: "ev = (j, evs)" by fastforce
  show ?thesis
  proof (cases n)
    case None
    have "api\<^sup>*\<^sup>* s (upd_task j (\<lambda>t. t\<lparr>events := evs\<rparr>) s1)" by (rule apis_edit [OF r]) simp
    then show ?thesis using assms n None ev r apis_run_task [OF assms(1)]
      by (auto simp: thread_work_def split: if_splits)
  next
    case (Some i)
    let ?a = "upd_task i (\<lambda>t. t\<lparr>fd := Socket t\<rparr>) s1"
    have a: "api\<^sup>*\<^sup>* s ?a" by (rule apis_edit [OF r]) simp
    obtain x y s2 where d: "do_epoll (ep e) (err0 e) i 0 False ?a = (x, y, s2)" by (metis prod_cases3)
    show ?thesis using assms n Some a d apis_do_epoll [OF a d] apis_run_task [OF assms(1) r]
      by (auto simp: thread_work_def Let_def split: if_splits)
  qed
qed

lemma apis_check_one:
  assumes "api\<^sup>*\<^sup>* s0 (snd ns)"
  shows "api\<^sup>*\<^sup>* s0 (snd (check_one e i ns))"
proof -
  obtain num s where ns: "ns = (num, s)" by fastforce
  have s: "api\<^sup>*\<^sup>* s0 s" using assms ns by simp
  have v: "api\<^sup>*\<^sup>* s0 (upd_task i (\<lambda>t. t\<lparr>events := 16\<rparr>) x)" if "api\<^sup>*\<^sup>* s0 x" for x
    by (rule apis_edit [OF that]) simp
  obtain x y s2 where d: "do_epoll (ep e) (err0 e) i EPOLL_CTL_DEL False s = (x, y, s2)" by (metis prod_cases3)
  show ?thesis
    using s d apis_add [OF v [OF s]] apis_add [OF v [OF apis_do_epoll [OF s d]]]
      apis_client_del [OF v [OF apis_do_epoll [OF s d]]]
    by (auto simp: check_one_def Let_def ns)
qed

lemma apis_check: "api\<^sup>*\<^sup>* s (snd (check_TCB_timeout e s))"
proof -
  have "api\<^sup>*\<^sup>* s (snd (fold (check_one e) is ns))" if "api\<^sup>*\<^sup>* s (snd ns)" for "is" ns
    using that by (induction "is" arbitrary: ns) (simp_all add: apis_check_one)
  then show ?thesis unfolding check_TCB_timeout_def by simp
qed

lemma apis_new_client:
  assumes "get_task_no s = Some (i, s1)"
  shows "api\<^sup>*\<^sup>* s (new_client e conn_init sock i s1)"
proof -
  obtain n where "TCB_get Free s = (n, s1)"
    using assms by (auto simp: get_task_no_def split: prod.splits if_splits)
  from apis_get [OF rtranclp.rtrancl_refl this] have s: "api\<^sup>*\<^sup>* s s1" .
  let ?a = "upd_task i (\<lambda>t. t\<lparr>fd := sock, Socket := sock, timestamp := clock e, timeout := 60,
     status := -1, only_do := conn_init\<rparr>) s1"
  have a: "api\<^sup>*\<^sup>* s ?a" by (rule apis_edit [OF s]) simp
  obtain x y s2 where d: "do_epoll (ep e) (err0 e) i EPOLL_CTL_ADD False ?a = (x, y, s2)" by (metis prod_cases3)
  show ?thesis using d apis_do_epoll [OF a d] apis_client_del [OF s] by (simp add: new_client_def)
qed

section \<open>Runs of the server\<close>

text \<open>The worker threads take turns, with whatever events, answers and functions - which use
  the operations of the server - the main thread accepts clients and looks for timeouts, and
  other threads and resumed fibers use the operations.\<close>

inductive sstep :: "server \<Rightarrow> server \<Rightarrow> bool" where
  turn: "by_api e \<Longrightarrow> thread_work e ev s = (t, s') \<Longrightarrow> sstep s s'"
| timeouts: "sstep s (snd (check_TCB_timeout e s))"
| accept: "get_task_no s = Some (i, s1) \<Longrightarrow> sstep s (new_client e conn_init sock i s1)"
| others: "api s s' \<Longrightarrow> sstep s s'"

lemma sstep_apis: "sstep s s' \<Longrightarrow> api\<^sup>*\<^sup>* s s'"
  by (induction rule: sstep.induct) (blast intro: apis_thread_work apis_check apis_new_client)+

lemma run_holds: "sstep\<^sup>*\<^sup>* s s' \<Longrightarrow> holds s f \<Longrightarrow> \<exists>f'. holds s' f'"
  by (induction rule: rtranclp_induct) (auto dest: sstep_apis apis_holds)

lemma tpool_init_holds:
  assumes "0 \<le> clients MAXCLT n"
  shows "holds (tpool_init MAXCLT n num junk) (\<lambda>q. if q = Free then [0..<nat (clients MAXCLT n)] else [])"
proof -
  let ?m = "clients MAXCLT n"
  let ?s = "\<lparr>max_client = ?m, pool = map (\<lambda>i. new_task (junk i)) [0..<nat (?m + 1)], queues = (\<lambda>_. None), svc_num = num\<rparr>"
  have "holds ?s (\<lambda>_. [])" using assms by (auto simp: holds_def nx_of_def new_task_def)
  moreover have "\<forall>i\<in>set [0..<nat ?m]. in_range (int i) ?s \<and> (\<forall>q. i \<notin> set [])"
    by (auto simp: in_range_def)
  ultimately have h: "holds (fold (add_task Free) [0..<nat ?m] ?s) ((\<lambda>_. [])(Free := [0..<nat ?m]))" (is "holds ?s' _")
    using tasks.add_all [of ?s "\<lambda>_. []" "[0..<nat ?m]" Free] by simp
  have "max_client ?s' = ?m"
  proof -
    have "max_client (fold (add_task q) is s) = max_client s" for q "is" s
      by (induction "is" arbitrary: s) (simp_all add: add_task_def TCB_add_max)
    then show ?thesis by simp
  qed
  then have "add_task Free (nat ?m) ?s' = ?s'"
    using assms by (intro tasks.enq_other [OF h]) (simp add: in_range_def)
  moreover have "nat (?m + 1) = Suc (nat ?m)" using assms by simp
  ultimately have "tpool_init MAXCLT n num junk = ?s'"
    by (simp add: tpool_init_def Let_def add_task_def [abs_def])
  then show ?thesis using h by (simp add: fun_upd_def)
qed


definition idle_env :: event_env where
  "idle_env = \<lparr>ep = (\<lambda>_ _ _. (0, 0)), err0 = 0, mk_ret = 7, recv_ret = 0, PROTO_NUM = 1,
     call = (\<lambda>_ _ s. (0, s)), clock = 5\<rparr>"


section \<open>The login gate\<close>

definition keyed :: "act list \<Rightarrow> bool" where
  "keyed h \<longleftrightarrow> (\<exists>r\<ge>0. Key r \<in> set h)"

text \<open>A login that succeeds returns a positive number; a callback that finishes one, after the key
  negotiation, returns 1.\<close>

definition opened :: "act list \<Rightarrow> bool" where
  "opened h \<longleftrightarrow> (\<exists>r\<ge>1. Called (Function 0) r \<in> set h) \<or>
     (\<exists>f p q. h = p @ Called (Callback f) 1 # q \<and> keyed p)"

definition trusted :: "act list \<Rightarrow> bool" where
  "trusted h \<longleftrightarrow> Marked \<in> set h"

text \<open>Functions that change the status of a task only as \<open>clr_event\<close> does; and callbacks that, when they
  leave their task not logged in, return what line 663 expects of them, 0 or 1, or -1 for the end of
  the connection.\<close>

definition quiet :: "event_env \<Rightarrow> bool" where
  "quiet e \<longleftrightarrow> (\<forall>h i j s. (j < length (pool s) \<longrightarrow> status (pool (snd (call e h i s)) ! j) \<in> {status (pool s ! j), 1}) \<and>
     length (pool (snd (call e h i s))) = length (pool s))"

definition finishing :: "event_env \<Rightarrow> bool" where
  "finishing e \<longleftrightarrow> (\<forall>f i s. status (pool (snd (call e (Callback f) i s)) ! i) = 0 \<longrightarrow>
     fst (call e (Callback f) i s) \<in> {-1, 0, 1})"

text \<open>The steps that leave the login state of the tasks alone.\<close>

definition same_status :: "server \<Rightarrow> server \<Rightarrow> bool" where
  "same_status s s' \<longleftrightarrow> map status (pool s') = map status (pool s)"

lemma same_status_refl [simp]: "same_status s s"
  by (simp add: same_status_def)

lemma same_status_trans: "same_status a b \<Longrightarrow> same_status b c \<Longrightarrow> same_status a c"
  by (simp add: same_status_def)

lemma same_status_at:
  "same_status s s' \<Longrightarrow> length (pool s') = length (pool s) \<and> (i < length (pool s) \<longrightarrow> status (pool s' ! i) = status (pool s ! i))"
  unfolding same_status_def by (metis length_map nth_map)

lemma map_status: "status t = status (l ! i) \<Longrightarrow> map status (l[i := t]) = map status l"
  by (cases "i < length l") (metis list_update_id map_update nth_map, simp add: list_update_beyond)

lemma same_status_upd: "same_status s0 s \<Longrightarrow> (\<And>t. status (g t) = status t) \<Longrightarrow> same_status s0 (upd_task i g s)"
  by (simp add: same_status_def map_status)

lemma same_status_TCB_add: "same_status s (snd (TCB_add q n s))"
  by (simp add: TCB_add_def Let_def same_status_def map_status split: option.splits)

lemma same_status_rdy_get: "same_status s (snd (rdy_get s))"
  by (simp add: rdy_get_def unlink_def Let_def same_status_def map_status split: option.splits)

lemma same_status_do_epoll: "do_epoll p err i op out s = (r, err', s') \<Longrightarrow> same_status s s'"
  by (erule do_epoll_cases; hypsubst; (assumption | rule same_status_upd | simp)+)

text \<open>The operation of the server that changes the login state of a task: it marks it as logged in, or
  leaves it alone.\<close>

lemma clr_event_status:
  assumes "j < length (pool s)"
  shows "status (pool (snd (clr_event p err n s)) ! j) \<in> {status (pool s ! j), 1} \<and>
    length (pool (snd (clr_event p err n s))) = length (pool s)"
proof (cases "in_range n s \<and> fd (pool s ! nat n) \<noteq> Socket (pool s ! nat n)")
  case True
  let ?a = "upd_task (nat n) (\<lambda>t. t\<lparr>call_back := None\<rparr>) s"
  obtain r e' s' where d: "do_epoll p err (nat n) EPOLL_CTL_DEL False ?a = (r, e', s')" by (metis prod_cases3)
  have "same_status s ?a" by (rule same_status_upd) simp_all
  note t = same_status_trans [OF this same_status_do_epoll [OF d]]
  have "same_status s (upd_task (nat n) (\<lambda>t. t\<lparr>fd := Socket t, timeout := ctimeout t\<rparr>) s')"
    by (rule same_status_upd [OF t]) simp
  from same_status_at [OF this, of j] show ?thesis using True d assms by (simp add: clr_event_def Let_def)
next
  case False
  then show ?thesis using assms by (cases "j = nat n") (auto simp: clr_event_def Let_def)
qed

lemma status_upd [simp]: "i < length (pool s) \<Longrightarrow> pool (upd_task i g s) ! i = g (pool s ! i)"
  by simp

lemma client_del_status: "i < length (pool s) \<Longrightarrow> status (pool (client_del i s) ! i) = -1"
  using same_status_at [OF same_status_TCB_add, where i = i] by (simp add: client_del_def freeconnect_def)

lemma client_del_length: "length (pool (client_del i s)) = length (pool s)"
  by (simp add: client_del_def same_status_at [OF same_status_TCB_add])

lemma settle_status:
  assumes "i < length (pool s)"
  shows "length (pool (settle e tmo ret i s)) = length (pool s) \<and>
    status (pool (settle e tmo ret i s) ! i) \<in> {-1, status (pool s ! i)}"
proof -
  define a where "a = (if timeout (pool s ! i) = 0 then upd_task i (\<lambda>t. t\<lparr>timeout := tmo\<rparr>) s else s)"
  have a: "same_status s a" unfolding a_def using same_status_upd [OF same_status_refl] by simp
  obtain r1 e1 s1 where s1: "do_epoll (ep e) (err0 e) i EPOLL_CTL_DEL False a = (r1, e1, s1)" by (metis prod_cases3)
  obtain r2 e2 s2 where s2: "do_epoll (ep e) (err0 e) i EPOLL_CTL_MOD False a = (r2, e2, s2)" by (metis prod_cases3)
  note d = same_status_at [OF same_status_trans [OF a same_status_do_epoll [OF s1]], of i]
    same_status_at [OF same_status_trans [OF a same_status_do_epoll [OF s2]], of i] same_status_at [OF a, of i]
  define z where "z = (if ret = -1 then upd_task i (\<lambda>t. t\<lparr>status := -2\<rparr>) s1 else if ret = THREAD_ESCAPE then a
    else if r2 \<noteq> 0 \<and> e2 \<noteq> EEXIST then upd_task i (\<lambda>t. t\<lparr>status := -2\<rparr>) s2 else s2)"
  have z: "length (pool z) = length (pool s)" "status (pool z ! i) \<in> {-2, status (pool s ! i)}"
    using d assms by (auto simp: z_def)
  have "settle e tmo ret i s = upd_task i (\<lambda>t. t\<lparr>timestamp := clock e\<rparr>)
      (if status (pool z ! i) = -2 then client_del i z else z)"
    unfolding settle_def Let_def a_def [symmetric] s1 s2 prod.case z_def [symmetric] ..
  then show ?thesis using z assms client_del_status [of i z] client_del_length [of i z] by auto
qed

text \<open>What may be called after the calls h since the task had no connection: a service only after
  the key negotiation and a login, unless a function of the application has marked the task.\<close>

fun gate :: "act list \<Rightarrow> act \<Rightarrow> bool" where
  "gate h (Called (Function k) r) \<longleftrightarrow> trusted h \<or> keyed h \<and> (k \<noteq> 0 \<longrightarrow> opened h)"
| "gate h (Called Get_srvname r) \<longleftrightarrow> trusted h \<or> keyed h \<and> opened h"
| "gate h (Called (Only f) r) \<longleftrightarrow> trusted h \<or> keyed h \<and> opened h"
| "gate h (Called Echo r) \<longleftrightarrow> trusted h \<or> keyed h"
| "gate h _ \<longleftrightarrow> True"

definition tracked :: "act list \<Rightarrow> TCB \<Rightarrow> bool" where
  "tracked h t \<longleftrightarrow> trusted h \<or> (status t \<noteq> -1 \<longrightarrow> keyed h) \<and> (status t \<notin> {-1, 0} \<longrightarrow> opened h)"

lemma opened_append: "opened h \<Longrightarrow> opened (h @ acts)"
  unfolding opened_def by (metis Un_iff append_Cons append_assoc set_append)

lemma callback_opens: "keyed h \<Longrightarrow> Called (Callback f) 1 \<in> set a \<Longrightarrow> opened (h @ a)"
  unfolding opened_def by (drule split_list) (auto simp: keyed_def intro!: exI [of _ f], metis Un_iff append_assoc set_append)

lemma tracked_append: "tracked h t \<Longrightarrow> status t' = status t \<or> Marked \<in> set acts \<Longrightarrow> tracked (h @ acts) t'"
  using opened_append [of h acts] by (auto simp: tracked_def keyed_def trusted_def)

lemma called_quiet:
  assumes "quiet e" "i < length (pool s)" "called e h i s = (acts, r, s')"
  shows "set acts \<subseteq> {Marked, Called h r}" "Called h r \<in> set acts" "length (pool s') = length (pool s)"
    "status (pool s' ! i) = status (pool s ! i) \<or> Marked \<in> set acts"
  using assms by (auto simp: called_def quiet_def split: prod.splits if_splits) (metis snd_conv)+

lemma gate_acts: "set acts \<subseteq> {Marked, a} \<Longrightarrow> gate h a \<Longrightarrow> \<forall>a\<in>set acts. gate h a"
  by auto

lemma negotiate_tracked:
  assumes "quiet e" "i < length (pool s)" "status (pool s ! i) = -1" "negotiate e i s = (acts, r, s')"
  shows "length (pool s') = length (pool s) \<and> (\<forall>a\<in>set acts. gate h a) \<and> tracked (h @ acts) (pool s' ! i)"
proof (cases "mk_ret e < 0")
  case True
  then show ?thesis using assms(2-4) by (auto simp: negotiate_def Let_def tracked_def)
next
  case False
  let ?b = "upd_task i (\<lambda>t. t\<lparr>CryptFlg := mk_ret e, status := 0\<rparr>) (upd_task i (\<lambda>t. t\<lparr>only_do := None\<rparr>) s)"
  have k: "keyed (h @ Key (mk_ret e) # acts')" for acts' using False unfolding keyed_def by (intro exI [of _ "mk_ret e"]) simp
  show ?thesis
  proof (cases "only_do (pool s ! i)")
    case None
    then show ?thesis using False assms(2-4) k by (auto simp: negotiate_def Let_def tracked_def)
  next
    case (Some f)
    obtain a1 r1 s1 where c: "called e (Init f) i ?b = (a1, r1, s1)" by (metis prod_cases3)
    have "i < length (pool ?b)" using assms(2) by simp
    note q = called_quiet [OF assms(1) this c]
    have e: "acts = Key (mk_ret e) # a1" "s' = upd_task i (\<lambda>t. t\<lparr>timeout := 60\<rparr>) s1"
      using False Some assms(3,4) c by (auto simp: negotiate_def Let_def)
    have "\<forall>a\<in>set acts. gate h a" using gate_acts [OF q(1), of h] by (simp add: e(1))
    moreover have "status (pool s1 ! i) = 0 \<or> Marked \<in> set a1" using q(4) assms(2) by simp
    then have "tracked (h @ acts) (pool s' ! i)"
      using k [of a1] q(3) assms(2) by (auto simp: e tracked_def trusted_def)
    ultimately show ?thesis using q(3) e(2) by simp
  qed
qed

text \<open>A called function, or a refusal.\<close>

lemma serve_cases:
  assumes "tracked h (pool s ! i)" "status (pool s ! i) \<noteq> -1" "serve e i s = (acts, r, s')"
  obtains "acts = []" "s' = s"
    | x where "called e x i s = (acts, r, s')" "gate h (Called x r)"
    | s1 where "called e (Function 0) i s = (acts, r, s1)" "trusted h \<or> keyed h" "status (pool s ! i) = 0"
        "s' = (if r \<ge> 0 then upd_task i (logged_in r) s1 else s1)"
proof -
  have k: "trusted h \<or> keyed h" "status (pool s ! i) \<noteq> 0 \<Longrightarrow> trusted h \<or> opened h" using assms(1,2) by (auto simp: tracked_def)
  show thesis
  proof (cases "status (pool s ! i) = 0 \<and> PROTO_NUM e \<noteq> 1")
    case True
    then show thesis using assms(3) k that(1,3)
      by (auto simp: serve_def Let_def split: prod.splits if_splits)
  next
    case False
    then show thesis using assms(3) k that(1) that(2) [of Echo] that(2) [of Get_srvname]
        that(2) [of "Function (nat (PROTO_NUM e))"] that(2) [of "Only f" for f]
      by (auto simp: serve_def Let_def split: option.splits if_splits)
  qed
qed

lemma serve_tracked:
  assumes "quiet e" "i < length (pool s)" "tracked h (pool s ! i)" "status (pool s ! i) \<noteq> -1" "serve e i s = (acts, r, s')"
  shows "length (pool s') = length (pool s) \<and> (\<forall>a\<in>set acts. gate h a) \<and> tracked (h @ acts) (pool s' ! i)"
  using assms(3-5)
proof (cases rule: serve_cases)
  case 1
  then show ?thesis using assms(3) by simp
next
  case (2 x)
  note q = called_quiet [OF assms(1,2) 2(1)]
  show ?thesis using gate_acts [OF q(1) 2(2)] q(3) tracked_append [OF assms(3) q(4)] by blast
next
  case (3 s1)
  note q = called_quiet [OF assms(1,2) 3(1)]
  have g: "\<forall>a\<in>set acts. gate h a" using gate_acts [OF q(1), of h] 3(2) by simp
  have "opened (h @ acts)" if "0 \<le> r" "r \<noteq> 0"
    using that q(2) unfolding opened_def by (intro disjI1 exI [of _ r]) simp
  moreover have "trusted (h @ acts) \<or> keyed (h @ acts)" using 3(2) by (auto simp: keyed_def trusted_def)
  ultimately have "tracked (h @ acts) (logged_in r t)" if "0 \<le> r" for t
    using that by (auto simp: tracked_def logged_in_def Let_def)
  then show ?thesis using g 3(4) q(3) assms(2) tracked_append [OF assms(3) q(4)] by simp
qed

lemma receive_tracked:
  assumes "quiet e" "i < length (pool s)" "tracked h (pool s ! i)" "status (pool s ! i) \<noteq> -1" "receive e i s = (acts, r, s')"
  shows "length (pool s') = length (pool s) \<and> (\<forall>a\<in>set acts. gate h a) \<and> tracked (h @ acts) (pool s' ! i)"
proof -
  let ?a = "upd_task i (\<lambda>t. t\<lparr>timestamp := clock e\<rparr>) s"
  have a: "i < length (pool ?a)" "tracked h (pool ?a ! i)" "status (pool ?a ! i) \<noteq> -1"
    using assms(2-4) by (auto simp: tracked_def)
  obtain a1 r1 s1 where v: "serve e i ?a = (a1, r1, s1)" by (metis prod_cases3)
  note g = serve_tracked [OF assms(1) a v]
  have "tracked (h @ a1) ((pool s1 ! i)\<lparr>timeout := x\<rparr>)" for x using g by (simp add: tracked_def)
  then show ?thesis using assms(2,3,5) v g a(2) by (auto simp: receive_def Let_def split: if_splits)
qed

lemma user_event_tracked:
  assumes "quiet e" "finishing e" "i < length (pool s)" "tracked h (pool s ! i)" "user_event e f i s = (acts, r, s')"
  shows "length (pool s') = length (pool s) \<and> (\<forall>a\<in>set acts. gate h a) \<and> tracked (h @ acts) (pool s' ! i)"
proof -
  let ?a = "upd_task i (\<lambda>t. t\<lparr>timestamp := clock e\<rparr>) s"
  obtain a1 r1 s1 where c: "called e (Callback f) i ?a = (a1, r1, s1)" by (metis prod_cases3)
  have "i < length (pool ?a)" using assms(3) by simp
  note q = called_quiet [OF assms(1) this c]
  have st: "status (pool s1 ! i) = status (pool s ! i) \<or> Marked \<in> set a1" "length (pool s1) = length (pool s)"
    using q(3,4) assms(3) by auto
  have e: "acts = a1" "s' = (if status (pool s1 ! i) = 0 then upd_task i (\<lambda>t. t\<lparr>status := r1\<rparr>) s1 else s1)"
    using assms(5) c by (auto simp: user_event_def Let_def)
  have g: "\<forall>a\<in>set acts. gate h a" using gate_acts [OF q(1), of h] e(1) by simp
  have "tracked (h @ acts) (pool s' ! i)"
  proof (cases "status (pool s1 ! i) = 0")
    case False
    then show ?thesis using tracked_append [OF assms(4) st(1)] e by simp
  next
    case True
    have "call e (Callback f) i ?a = (r1, s1)" using c by (auto simp: called_def split: prod.splits)
    then have "r1 \<in> {-1, 0, 1}" using assms(2) True by (metis finishing_def fst_conv snd_conv)
    moreover have "trusted (h @ a1) \<or> keyed h" using st True assms(4) by (auto simp: tracked_def trusted_def)
    moreover have "tracked (h @ a1) (pool s1 ! i)" by (rule tracked_append [OF assms(4) st(1)])
    moreover have "opened (h @ a1)" if "keyed h" "r1 = 1" using callback_opens that q(2) by blast
    ultimately show ?thesis using True e st(2) assms(3) by (auto simp: tracked_def)
  qed
  then show ?thesis using g e(2) st(2) by simp
qed

lemma do_work_tracked:
  assumes "quiet e" "finishing e" "i < length (pool s)" "tracked h (pool s ! i)" "do_work e i s = (acts, s')"
  shows "length (pool s') = length (pool s) \<and> (\<forall>a\<in>set acts. gate h a) \<and>
    (status (pool s' ! i) = -1 \<or> tracked (h @ acts) (pool s' ! i))"
proof -
  let ?a = "upd_task i (\<lambda>t. t\<lparr>timeout := 0\<rparr>) s"
  have a: "i < length (pool ?a)" "tracked h (pool ?a ! i)" using assms(3,4) by (auto simp: tracked_def)
  have la: "length (pool ?a) = length (pool s)" by simp
  obtain acts1 r s1 where B: "(case call_back (pool ?a ! i) of Some f \<Rightarrow> user_event e f i ?a
      | None \<Rightarrow> if status (pool ?a ! i) = -1 then negotiate e i ?a else receive e i ?a) = (acts1, r, s1)"
    by (metis prod_cases3)
  have b: "acts1 = acts" "s' = settle e (timeout (pool s ! i)) r i s1"
    using assms(5) unfolding do_work_def Let_def B by simp_all
  have g: "length (pool s1) = length (pool s) \<and> (\<forall>a\<in>set acts. gate h a) \<and> tracked (h @ acts) (pool s1 ! i)"
  proof (cases "call_back (pool ?a ! i)")
    case None
    show ?thesis
    proof (cases "status (pool ?a ! i) = -1")
      case True
      then have "negotiate e i ?a = (acts, r, s1)" using B b(1) None by (simp only: option.case if_True simp_thms)
      from negotiate_tracked [OF assms(1) a(1) True this] show ?thesis unfolding la by blast
    next
      case False
      then have "receive e i ?a = (acts, r, s1)" using B b(1) None by (simp only: option.case if_False)
      from receive_tracked [OF assms(1) a False this] show ?thesis unfolding la .
    qed
  next
    case (Some f)
    then have "user_event e f i ?a = (acts, r, s1)" using B b(1) by (simp only: option.case)
    from user_event_tracked [OF assms(1,2) a this] show ?thesis unfolding la .
  qed
  then have l: "i < length (pool s1)" using assms(3) by simp
  have "tracked (h @ acts) (pool s1 ! i) \<Longrightarrow> status t = status (pool s1 ! i) \<Longrightarrow> tracked (h @ acts) t" for t
    by (simp add: tracked_def)
  then show ?thesis using g settle_status [OF l, of e "timeout (pool s ! i)" r] b(2) by auto
qed

text \<open>The history of the task i since it last had no connection: the calls of the turns that
  worked on it, the marks other threads and functions put on it by \<open>clr_event\<close>, whatever happens in
  between that leaves its status alone.\<close>

inductive session :: "nat \<Rightarrow> act list \<Rightarrow> server \<Rightarrow> bool" for i where
  start: "i < length (pool s) \<Longrightarrow> status (pool s ! i) = -1 \<Longrightarrow> session i [] s"
| work: "session i h s \<Longrightarrow> quiet e \<Longrightarrow> finishing e \<Longrightarrow> thread_work e ev s = (Worked i acts, s') \<Longrightarrow>
    session i (if status (pool s' ! i) = -1 then [] else h @ acts) s'"
| other: "session i h s \<Longrightarrow> length (pool s') = length (pool s) \<Longrightarrow>
    status (pool s' ! i) = status (pool s ! i) \<Longrightarrow> session i h s'"
| marked: "session i h s \<Longrightarrow> length (pool s') = length (pool s) \<Longrightarrow> status (pool s' ! i) = 1 \<Longrightarrow>
    session i (h @ [Marked]) s'"

lemma thread_work_worked:
  assumes "thread_work e ev s = (Worked i acts, s')"
  obtains s1 where "same_status s s1" "do_work e i s1 = (acts, s')"
proof -
  obtain n s1 where n: "rdy_get s = (n, s1)" by fastforce
  have r: "same_status s s1" using same_status_rdy_get [of s] n by simp
  have e: "same_status s (upd_task j (\<lambda>t. t\<lparr>events := x\<rparr>) s1)" for j x
    using same_status_upd [OF r, of "\<lambda>t. t\<lparr>events := x\<rparr>"] by simp
  show thesis using assms n r e that
    by (auto simp: thread_work_def run_task_def Let_def split: option.splits prod.splits if_splits)
qed

lemma session_tracked: "session i h s \<Longrightarrow> i < length (pool s) \<and> tracked h (pool s ! i)"
proof (induction rule: session.induct)
  case (start s)
  then show ?case by (simp add: tracked_def)
next
  case (work h s e ev acts s')
  obtain s1 where s1: "same_status s s1" "do_work e i s1 = (acts, s')"
    using thread_work_worked [OF work.hyps(4)] .
  then have "tracked h (pool s1 ! i)" "i < length (pool s1)"
    using work.IH same_status_at [OF s1(1), of i] by (auto simp: tracked_def)
  from do_work_tracked [OF work.hyps(2,3) this(2,1) s1(2)] this(2) show ?case by (auto simp: tracked_def)
next
  case (other h s s')
  then show ?case by (simp add: tracked_def)
next
  case (marked h s s')
  then show ?case by (simp add: tracked_def trusted_def)
qed

text \<open>C11: A client is served in order: whatever the threads of the server do, in every turn that
  works on a task, a service or the list of services, or the function a connection is bound
  to, is called only when the key negotiation with this client has succeeded and its login has
  returned a positive number, or a callback that finishes it 1; the login and the echo only
  after the key negotiation.  The one way around is the application's own: a function that has
  called \<open>clr_event\<close> for the descriptor of the client has marked it as logged in.  The functions
  are assumed to change the status of a task in no other way, and callbacks to return 0, 1 or
  -1 as long as the client is not logged in.\<close>

theorem no_service_before_login:
  assumes "session i h s" "quiet e" "finishing e" "thread_work e ev s = (Worked i acts, s')"
  shows "\<forall>a\<in>set acts. gate h a"
proof -
  obtain s1 where s1: "same_status s s1" "do_work e i s1 = (acts, s')"
    using thread_work_worked [OF assms(4)] .
  then have "tracked h (pool s1 ! i)" "i < length (pool s1)"
    using session_tracked [OF assms(1)] same_status_at [OF s1(1), of i] by (auto simp: tracked_def)
  from do_work_tracked [OF assms(2,3) this(2,1) s1(2)] show ?thesis by blast
qed

text \<open>A client that has negotiated its key, logs in with the protocol number 0 and then calls the
  service 5.\<close>

definition login_env :: event_env where
  "login_env = idle_env\<lparr>PROTO_NUM := 0, call := (\<lambda>h i s. (1, s))\<rparr>"

definition call_env :: event_env where
  "call_env = idle_env\<lparr>PROTO_NUM := 5\<rparr>"

definition one_client :: server where
  "one_client = new_client idle_env None 9 0 (snd (TCB_get Free (tpool_init (Some 3) 0 7 (\<lambda>_. 0))))"

theorem no_service_before_login_witness:
  "\<exists>s s' acts. session 0 [Key 7, Called (Function 0) 1] s \<and> thread_work call_env (0, 1) s = (Worked 0 acts, s') \<and>
     acts = [Called (Function 5) 0] \<and> (\<forall>a\<in>set acts. gate [Key 7, Called (Function 0) 1] a)"
proof -
  let ?s1 = "snd (thread_work idle_env (0, 1) one_client)" and ?w = "\<lambda>e. thread_work e (0, 1)"
  let ?s2 = "snd (?w login_env ?s1)"
  have q: "quiet idle_env" "finishing idle_env" "quiet login_env" "finishing login_env" "quiet call_env" "finishing call_env"
    by (simp_all add: quiet_def finishing_def idle_env_def login_env_def call_env_def)
  have "length (pool one_client) = 4" "status (pool one_client ! 0) = -1" by code_simp+
  then have "session 0 [] one_client" by (intro session.start) simp_all
  moreover have "fst (?w idle_env one_client) = Worked 0 [Key 7]" "status (pool ?s1 ! 0) = 0"
      "fst (?w login_env ?s1) = Worked 0 [Called (Function 0) 1]" "status (pool ?s2 ! 0) = 1"
      "fst (?w call_env ?s2) = Worked 0 [Called (Function 5) 0]"
    by code_simp+
  ultimately have "session 0 [Key 7, Called (Function 0) 1] ?s2"
      "?w call_env ?s2 = (Worked 0 [Called (Function 5) 0], snd (?w call_env ?s2))"
    using session.work [of 0 "[]" one_client idle_env "(0, 1)" "[Key 7]" ?s1]
      session.work [of 0 "[Key 7]" ?s1 login_env "(0, 1)" "[Called (Function 0) 1]" ?s2] q
    by (simp_all add: prod_eq_iff)
  then show ?thesis using no_service_before_login [OF _ q(5,6)] by blast
qed

text \<open>A callback that returns \<open>THREAD_ESCAPE\<close> while its client is not logged in opens the gate: in the
  next turn a service is called, without a login.\<close>

definition escape_env :: event_env where
  "escape_env = idle_env\<lparr>call := (\<lambda>h i s. (THREAD_ESCAPE, snd (unset_callback (int i) s)))\<rparr>"

theorem escape_opens_gate:
  "\<exists>s s' s''. status (pool s ! 0) = 0 \<and> thread_work escape_env (0, 1) s = (Worked 0 [Called (Callback 3) THREAD_ESCAPE], s') \<and>
     status (pool s' ! 0) = THREAD_ESCAPE \<and>
     thread_work call_env (0, 1) (snd (set_event (ep idle_env) 0 5 0 9 None 60 s')) = (Worked 0 [Called (Function 5) 0], s'')"
proof -
  let ?s1 = "snd (set_callback 0 (Some 3) 60 (snd (thread_work idle_env (0, 1) one_client)))"
  let ?w = "\<lambda>e. thread_work e (0, 1)"
  let ?s2 = "snd (?w escape_env ?s1)"
  let ?s3 = "snd (set_event (ep idle_env) 0 5 0 9 None 60 ?s2)"
  have "status (pool ?s1 ! 0) = 0" "fst (?w escape_env ?s1) = Worked 0 [Called (Callback 3) THREAD_ESCAPE]"
      "status (pool ?s2 ! 0) = THREAD_ESCAPE" "fst (?w call_env ?s3) = Worked 0 [Called (Function 5) 0]"
    by code_simp+
  then show ?thesis by (metis prod.collapse)
qed

end
