(* ===== verification/Mod_SC.thy ===== *)
theory Mod_SC
  imports SCPool TPool
begin

text \<open>Tasks that wait for a connection: \<open>src/scsrv/mod_sc.c\<close>, which joins the thread pool server
  (\<open>TPool\<close>) and the pool of connections (\<open>SCPool\<close>).  A task that finds no free connection is
  queued at the pool, whose own thread waits for connections and makes the tasks ready one after
  the other.\<close>

text \<open>\<open>tids\<close> are the fields \<open>tid\<close> of \<open>wpool.QP\<close>, no element before \<open>wpool_init\<close>; the queues of
  \<open>wpool\<close> are the queues \<open>Waiting n\<close> of the server.\<close>

record mod_state =
  srv :: server
  pools :: "path_lnk list list"
  tids :: "int list"

text \<open>The world of a call: \<open>sc_connect\<close> and the wait for a connection as in \<open>SCPool\<close>, the time,
  the binding of a connection to the application of a task (\<open>bind_sc\<close> and \<open>unbind_sc\<close>, written
  by the application), \<open>idle\<close>, the wait of a pool's thread on its condition: the result of
  \<open>pthread_cond_timedwait\<close> and what the other threads did, whether \<open>malloc\<close> succeeds, the
  handle of a new thread, and which connections are still being opened by another task
  (\<open>only_do\<close> is 1).\<close>

record 'w mod_env =
  connect :: "'w connector"
  conn_wait :: "'w \<Rightarrow> path_lnk list \<Rightarrow> bool \<times> path_lnk list \<times> 'w"
  now :: int
  bind_sc :: "int \<Rightarrow> (nat \<times> nat) option \<Rightarrow> 'w \<Rightarrow> int \<times> 'w"
  unbind_sc :: "int \<Rightarrow> 'w \<Rightarrow> 'w"
  idle :: "'w \<Rightarrow> mod_state \<Rightarrow> int \<times> mod_state \<times> 'w"
  qp_malloc :: bool
  new_tid :: int
  half_open :: "nat \<times> nat \<Rightarrow> 'w \<Rightarrow> bool"
  set_only_do :: "nat \<times> nat \<Rightarrow> nat option \<Rightarrow> 'w \<Rightarrow> 'w"

section \<open>The thread of a pool\<close>

definition wpool_init :: "'w mod_env \<Rightarrow> int \<Rightarrow> mod_state \<Rightarrow> mod_state" where
  "wpool_init E num st =
     (if tids st \<noteq> [] then st else if \<not> qp_malloc E then st else st\<lparr>tids := replicate (nat num) 0\<rparr>)"

definition wpool_free :: "mod_state \<Rightarrow> mod_state" where
  "wpool_free st = st\<lparr>tids := []\<rparr>"

definition sc_conn :: "'w mod_env \<Rightarrow> int \<Rightarrow> int \<Rightarrow> mod_state \<Rightarrow> 'w \<Rightarrow> (chosen \<times> mod_state \<times> 'w) option" where
  "sc_conn E poolno flg st w =
     do { (r, pls, w) \<leftarrow> get_SC_connect (connect E) (conn_wait E) (now E) (pools st) poolno flg w;
          Some (r, st\<lparr>pools := pls\<rparr>, w) }"

definition release_sc :: "'w mod_env \<Rightarrow> (nat \<times> nat) option \<Rightarrow> int \<Rightarrow> mod_state \<Rightarrow> mod_state option" where
  "release_sc E conn poolno st =
     do { pls \<leftarrow> release_SC_connect (now E) conn (pools st) poolno; Some (st\<lparr>pools := pls\<rparr>) }"

text \<open>One task TCBno taken from the queue of the pool: it gets a connection, or the null pointer
  when the pool is broken (\<open>clr_q\<close>, and then without asking until the queue was empty), is bound
  to it and made ready.\<close>

definition serve_waiting :: "'w mod_env \<Rightarrow> int \<Rightarrow> bool \<Rightarrow> int \<Rightarrow> mod_state \<Rightarrow> 'w
    \<Rightarrow> (bool \<times> mod_state \<times> 'w) option" where
  "serve_waiting E poolno clr_q TCBno st w =
     do {
       (conn, clr_q, st, w) \<leftarrow>
         (if clr_q then Some (None, clr_q, st, w)
          else do { (r, st, w) \<leftarrow> sc_conn E poolno 5 st w;
                    Some (case r of Link m i \<Rightarrow> (Some (m, i), clr_q, st, w)
                          | Broken \<Rightarrow> (None, True, st, w) | No \<Rightarrow> (None, clr_q, st, w)) });
       let (ret, w) = bind_sc E TCBno conn w;
       (conn, st) \<leftarrow>
         (if ret < 0 \<and> conn \<noteq> None then do { st \<leftarrow> release_sc E conn poolno st; Some (None, st) }
          else Some (conn, st));
       let (ret, s) = TCB_add Ready TCBno (srv st);
       let st = st\<lparr>srv := s\<rparr>;
       if ret = -2 then do { st \<leftarrow> release_sc E conn poolno st; Some (clr_q, st, unbind_sc E TCBno w) }
       else Some (clr_q, st, w) }"

text \<open>The thread of a pool, to its end, when no task came within five minutes; \<open>None\<close> is a wait
  for ever.\<close>

partial_function (option) wait_sc :: "'w mod_env \<Rightarrow> nat \<Rightarrow> bool \<Rightarrow> mod_state \<Rightarrow> 'w \<Rightarrow> (mod_state \<times> 'w) option" where
  "wait_sc E poolno clr_q st w =
     (let (TCBno, s) = TCB_get (Waiting poolno) (srv st); st = st\<lparr>srv := s\<rparr> in
      if TCBno < 0 then
        let (ret, st, w) = idle E w st in
        if ret \<noteq> 0 then Some (st\<lparr>tids := (tids st)[poolno := 0]\<rparr>, w) else wait_sc E poolno False st w
      else do {
        (clr_q, st, w) \<leftarrow> serve_waiting E (int poolno) clr_q TCBno st w;
        wait_sc E poolno clr_q st w })"

section \<open>A task asks for a connection\<close>

text \<open>\<open>scpool_MGR\<close>: the result, the connection stored through \<open>connp\<close>, and whether a thread was
  started.\<close>

definition enqueue :: "'w mod_env \<Rightarrow> int \<Rightarrow> int \<Rightarrow> mod_state \<Rightarrow> bool \<times> mod_state" where
  "enqueue E TCBno poolno st =
     (let p = nat poolno;
          st = st\<lparr>srv := snd (TCB_add (Waiting p) TCBno (srv st))\<rparr>;
          tid = (if tids st ! p = 0 then TCBno + 1 else tids st ! p)
      in if tid = TCBno + 1 then (True, st\<lparr>tids := (tids st)[p := new_tid E]\<rparr>)
         else (False, st\<lparr>tids := (tids st)[p := tid]\<rparr>))"

definition scpool_MGR :: "'w mod_env \<Rightarrow> int \<Rightarrow> int \<Rightarrow> nat option \<Rightarrow> mod_state \<Rightarrow> 'w
    \<Rightarrow> (int \<times> (nat \<times> nat) option \<times> bool \<times> mod_state \<times> 'w) option" where
  "scpool_MGR E TCBno poolno callback st w =
     (if TCBno < 0 then Some (-1, None, False, st, w)
      else do {
        (r, st, w) \<leftarrow> sc_conn E poolno 0 st w;
        (case r of
           Broken \<Rightarrow> Some (-1, None, False, st, w)
         | Link m i \<Rightarrow>
             if half_open E (m, i) w then
               Some (1, Some (m, i), False, st\<lparr>srv := snd (TCB_add Ready TCBno (srv st))\<rparr>,
                 set_only_do E (m, i) callback w)
             else Some (0, Some (m, i), False, st, w)
         | No \<Rightarrow>
             let st = st\<lparr>srv := snd (set_callback TCBno callback 120 (srv st))\<rparr>;
                 st = (if tids st = [] then wpool_init E (int (length (pools st))) st else st)
             in if poolno < 0 \<or> poolno \<ge> int (length (tids st)) then Some (-1, None, False, st, w)
                else let (started, st) = enqueue E TCBno poolno st in Some (1, None, started, st, w)) })"

section \<open>Properties\<close>

subsection \<open>The thread of a pool\<close>

text \<open>What the pool of connections and the application promise the thread of pool \<open>poolno\<close>: as
  long as \<open>Inv\<close> holds every request for a connection is answered, a connection handed out can
  be given back, and binding one keeps \<open>Inv\<close>.\<close>

definition answers :: "'w mod_env \<Rightarrow> int \<Rightarrow> (path_lnk list list \<Rightarrow> 'w \<Rightarrow> bool) \<Rightarrow> bool" where
  "answers E poolno Inv \<longleftrightarrow> (\<forall>pls w. Inv pls w \<longrightarrow>
     (\<exists>r pls' w'. get_SC_connect (connect E) (conn_wait E) (now E) pls poolno 5 w = Some (r, pls', w') \<and>
        Inv pls' w' \<and> (\<forall>m i w2. r = Link m i \<longrightarrow> Inv pls' w2 \<longrightarrow>
          (\<exists>pls2. release_SC_connect (now E) (Some (m, i)) pls' poolno = Some pls2 \<and> Inv pls2 w2))) \<and>
     (\<forall>n c. Inv pls (snd (bind_sc E n c w))))"

lemma holds_in_range: "TPool.holds s f \<Longrightarrow> x \<in> set (f q) \<Longrightarrow> in_range (int x) s"
  using holds_parts(4) by (simp add: in_range_def)

lemma in_range_get: "in_range n (snd (TCB_get q s)) = in_range n s"
  by (simp add: in_range_def TCB_get_max)

lemma serve_waiting_readies:
  assumes h: "TPool.holds (srv st) f" and i: "in_range (int i) (srv st)" "\<forall>q. i \<notin> set (f q)"
    and a: "answers E poolno Inv" "Inv (pools st) w"
  shows "\<exists>clr st' w'. serve_waiting E poolno clr_q (int i) st w = Some (clr, st', w') \<and>
    TPool.holds (srv st') (f(Ready := f Ready @ [i])) \<and> Inv (pools st') w' \<and> tids st' = tids st"
proof -
  obtain s' where s': "TCB_add Ready (int i) (srv st) = (0, s')" "TPool.holds s' (f(Ready := f Ready @ [i]))"
    using holds_TCB_add [OF h, of "int i" Ready] i by auto
  have bind: "Inv pls (snd (bind_sc E n c w))" if "Inv pls w" for pls n c w
    using a(1) that by (simp add: answers_def)
  show ?thesis
  proof (cases clr_q)
    case True
    then show ?thesis
      using s' bind [OF a(2), of "int i" None] by (auto simp: serve_waiting_def case_prod_unfold Let_def)
  next
    case False
    obtain r pls' w' where g: "get_SC_connect (connect E) (conn_wait E) (now E) (pools st) poolno 5 w = Some (r, pls', w')"
        "Inv pls' w'" "\<And>m i w2. r = Link m i \<Longrightarrow> Inv pls' w2 \<Longrightarrow>
          \<exists>pls2. release_SC_connect (now E) (Some (m, i)) pls' poolno = Some pls2 \<and> Inv pls2 w2"
      using a unfolding answers_def by metis
    show ?thesis
    proof (cases r)
      case (Link m j)
      let ?b = "bind_sc E (int i) (Some (m, j)) w'"
      note iv = bind [OF g(2), of "int i" "Some (m, j)"]
      obtain pls2 where p2: "release_SC_connect (now E) (Some (m, j)) pls' poolno = Some pls2" "Inv pls2 (snd ?b)"
        using g(3) [OF Link iv] by blast
      show ?thesis
        using False Link g(1) s' iv p2
        by (cases "fst ?b < 0")
          (auto simp: serve_waiting_def sc_conn_def release_sc_def case_prod_unfold Let_def)
    qed (use False g(1) s' bind [OF g(2), of "int i" None] in
        \<open>auto simp: serve_waiting_def sc_conn_def case_prod_unfold Let_def\<close>)
  qed
qed

text \<open>C40: when the pool of connections answers every request, the thread of a pool that has no
  new task to wait for ends, and by then every task that waited in the queue of the pool, in the
  order of arrival, is behind the tasks that were ready, whether it got a connection or the null
  pointer of a broken pool; all other queues are as they were, and the next task finds that
  the pool has no thread.\<close>

theorem wait_sc_readies_every_task:
  assumes "TPool.holds (srv st) f" "answers E (int p) Inv" "Inv (pools st) w"
    "\<And>w st. idle E w st = (110, st, w)"
  shows "\<exists>st' w'. wait_sc E p clr_q st w = Some (st', w') \<and> tids st' = (tids st)[p := 0] \<and>
    TPool.holds (srv st') (f(Waiting p := [], Ready := f Ready @ f (Waiting p)))"
  using assms(1,3)
proof (induction "f (Waiting p)" arbitrary: st f w clr_q)
  case Nil
  have "f(Waiting p := [], Ready := f Ready @ f (Waiting p)) = f" using Nil(1) by (auto simp: fun_eq_iff)
  moreover have "TCB_get (Waiting p) (srv st) = (-1, srv st)"
    using holds_TCB_get [OF Nil(2), of "Waiting p"] Nil(1) by (simp add: Nil(1) [symmetric])
  ultimately show ?case using Nil(2) assms(4) by (subst wait_sc.simps) simp
next
  case (Cons x xs)
  obtain s1 where s1: "TCB_get (Waiting p) (srv st) = (int x, s1)" "TPool.holds s1 (f(Waiting p := xs))"
    using holds_TCB_get [OF Cons.prems(1), of "Waiting p", folded Cons.hyps(2)] by auto
  let ?f = "f(Waiting p := xs)" and ?st = "st\<lparr>srv := s1\<rparr>"
  have d: "distinct (f (Waiting p))" "\<And>q. q \<noteq> Waiting p \<Longrightarrow> set (f (Waiting p)) \<inter> set (f q) = {}"
    using tasks.apart [OF Cons.prems(1)] by blast+
  then have out: "\<forall>q. x \<notin> set (?f q)" using Cons.hyps(2) [symmetric] by auto
  have "x \<in> set (f (Waiting p))" using Cons.hyps(2) [symmetric] by simp
  then have "in_range (int x) s1"
    using holds_in_range [OF Cons.prems(1)] in_range_get [of "int x" "Waiting p" "srv st"] s1(1) by simp
  then obtain clr st' w' where sv: "serve_waiting E (int p) clr_q (int x) ?st w = Some (clr, st', w')"
      "TPool.holds (srv st') (?f(Ready := ?f Ready @ [x]))" "Inv (pools st') w'" "tids st' = tids st"
    using serve_waiting_readies [of ?st ?f x E "int p" Inv w clr_q] s1(2) out assms(2) Cons.prems(2) by auto
  have "xs = (?f(Ready := ?f Ready @ [x])) (Waiting p)" by simp
  from Cons.hyps(1) [OF this sv(2,3), of clr]
  obtain st2 w2 where r: "wait_sc E p clr st' w' = Some (st2, w2)" "tids st2 = (tids st)[p := 0]"
      "TPool.holds (srv st2) (f(Waiting p := [], Ready := f Ready @ x # xs))"
    using sv(4) by (auto simp: fun_upd_def cong: if_cong)
  have "f(Waiting p := [], Ready := f Ready @ x # xs) = f(Waiting p := [], Ready := f Ready @ f (Waiting p))"
    by (simp only: Cons.hyps(2) [symmetric])
  then show ?case using r s1(1) sv(1) by (subst wait_sc.simps) simp
qed

text \<open>A pool without paths, whose every request is answered with the null pointer.\<close>

definition no_paths :: "unit mod_env" where
  "no_paths = \<lparr>connect = (\<lambda>w pl i. None), conn_wait = (\<lambda>w pls. (True, pls, w)), now = 0,
     bind_sc = (\<lambda>n c w. (0, w)), unbind_sc = (\<lambda>n w. w), idle = (\<lambda>w st. (110, st, w)),
     qp_malloc = True, new_tid = 77, half_open = (\<lambda>c w. False), set_only_do = (\<lambda>c f w. w)\<rparr>"

lemma no_paths_answers: "answers no_paths 0 (\<lambda>pls w. pls = [])"
  by (auto simp: answers_def no_paths_def get_SC_connect_def get_SC_by_weight_def)

definition two_waiting :: mod_state where
  "two_waiting = \<lparr>srv = \<lparr>max_client = 2, pool = [(new_task 0)\<lparr>tnext := Some 1\<rparr>, (new_task 0)\<lparr>tnext := Some 0\<rparr>],
     queues = (\<lambda>_. None)(Waiting 0 := Some 0), svc_num = 3\<rparr>, pools = [], tids = [77]\<rparr>"

lemma two_waiting_holds: "TPool.holds (srv two_waiting) ((\<lambda>_. [])(Waiting 0 := [1, 0]))"
  by (auto simp: TPool.holds_def two_waiting_def new_task_def TPool.nx_of_def ring_def nth_Cons' split: if_splits)

theorem wait_sc_readies_every_task_witness:
  "\<exists>st'. wait_sc no_paths 0 False two_waiting () = Some (st', ()) \<and> tids st' = [0] \<and>
     TPool.holds (srv st') ((\<lambda>_. [])(Ready := [1, 0]))"
proof -
  have i: "\<And>w st. idle no_paths w st = (110, st, w)" "(\<lambda>pls (w::unit). pls = []) (pools two_waiting) ()"
    by (simp_all add: no_paths_def two_waiting_def)
  have f: "((\<lambda>_. [])(Waiting 0 := [1, 0])) (Waiting 0 := [], Ready := [1, 0]) = (\<lambda>_. [])(Ready := [1, 0::nat])"
    by (auto simp: fun_eq_iff)
  have a: "answers no_paths (int 0) (\<lambda>pls w. pls = [])" using no_paths_answers by simp
  show ?thesis
    using wait_sc_readies_every_task [OF two_waiting_holds, where p = 0 and Inv = "\<lambda>pls w. pls = []" and w = "()" and E = no_paths, OF a i(2) i(1), of False]
      f by (auto simp: two_waiting_def)
qed

subsection \<open>A task asks for a connection\<close>

lemma kept_callback: "call_back t = call_back (l ! k) \<Longrightarrow> call_back (l[k := t] ! j) = call_back (l ! j)"
  by (cases "k < length l"; cases "j = k") (simp_all add: list_update_beyond)

lemma TCB_add_callback: "call_back (pool (snd (TCB_add q n s)) ! j) = call_back (pool s ! j)"
  by (simp add: TCB_add_def kept_callback Let_def split: option.split)

lemma do_epoll_callback: "call_back (pool (snd (snd (do_epoll epf err k op out s))) ! j) = call_back (pool s ! j)"
  by (simp add: do_epoll_def kept_callback case_prod_unfold Let_def)

lemma client_del_callback: "call_back (pool (client_del k s) ! j) = call_back (pool s ! j)"
  by (simp add: client_del_def TCB_add_callback kept_callback TPool.freeconnect_def)

lemma settle_callback: "call_back (pool (settle e tmo ret k s) ! j) = call_back (pool s ! j)"
  by (simp add: settle_def kept_callback client_del_callback do_epoll_callback case_prod_unfold Let_def)

lemma new_client_callback: "call_back (pool (new_client e conn_init sock k s) ! j) = call_back (pool s ! j)"
  by (simp add: new_client_def client_del_callback do_epoll_callback kept_callback Let_def)

text \<open>\<open>scpool_MGR\<close> for a task that is in no queue: it gives the free connection; makes the task
  ready when the connection is still being opened; refuses a broken pool; and when there is no
  free connection it sets the callback and puts the task behind those that wait for the pool,
  with a thread at work for it, or refuses a pool that does not exist, and then the callback
  stays set.\<close>

theorem scpool_MGR_outcomes:
  assumes "TPool.holds (srv st) f" "in_range (int i) (srv st)" "\<forall>q. i \<notin> set (f q)"
    "sc_conn E poolno 0 st w = Some (r, st1, w1)" "tids st1 \<noteq> []" "\<forall>t\<in>set (tids st1). t \<noteq> int i + 1" "new_tid E \<noteq> 0"
  shows "\<exists>ret conn started st' w'. scpool_MGR E (int i) poolno callback st w = Some (ret, conn, started, st', w') \<and>
    (case r of
       Link m j \<Rightarrow> conn = Some (m, j) \<and> \<not> started \<and>
         (if half_open E (m, j) w1 then ret = 1 \<and> TPool.holds (srv st') (f(Ready := f Ready @ [i]))
          else ret = 0 \<and> srv st' = srv st)
     | Broken \<Rightarrow> ret = -1 \<and> conn = None \<and> \<not> started \<and> srv st' = srv st
     | No \<Rightarrow> conn = None \<and> call_back (pool (srv st') ! i) = callback \<and>
         (if 0 \<le> poolno \<and> poolno < int (length (tids st1))
          then ret = 1 \<and> TPool.holds (srv st') (f(Waiting (nat poolno) := f (Waiting (nat poolno)) @ [i])) \<and>
            tids st' ! nat poolno \<noteq> 0 \<and> (started \<longleftrightarrow> tids st1 ! nat poolno = 0)
          else ret = -1 \<and> \<not> started \<and> TPool.holds (srv st') f))"
proof -
  have s1: "srv st1 = srv st" using assms(4) by (auto simp: sc_conn_def split: Option.bind_splits)
  have il: "i < length (pool (srv st))"
    using holds_parts(6) [OF assms(1)] assms(2) by (simp add: in_range_def)
  show ?thesis
  proof (cases r)
    case (Link m j)
    obtain s' where "TCB_add Ready (int i) (srv st) = (0, s')" "TPool.holds s' (f(Ready := f Ready @ [i]))"
      using holds_TCB_add [OF assms(1), of "int i" Ready] assms(2,3) by auto
    then show ?thesis using Link assms(4) s1 by (auto simp: scpool_MGR_def)
  next
    case Broken
    then show ?thesis using assms(4) s1 by (auto simp: scpool_MGR_def)
  next
    case No
    define s2 where "s2 = snd (set_callback (int i) callback 120 (srv st))"
    have s2: "s2 = upd_task i (\<lambda>t. t\<lparr>timeout := 120, call_back := callback\<rparr>) (srv st)"
      using assms(2) by (simp add: s2_def set_callback_def in_range_def)
    have h2: "TPool.holds s2 f" unfolding s2 by (rule holds_upd [OF assms(1)]) simp
    have cb: "call_back (pool s2 ! i) = callback" using il by (simp add: s2)
    have il2: "in_range (int i) s2" "i < length (pool s2)" using assms(2) il by (simp_all add: s2 in_range_def)
    show ?thesis
    proof (cases "0 \<le> poolno \<and> poolno < int (length (tids st1))")
      case False
      then show ?thesis
        using No assms(4,5) s1 h2 cb by (auto simp: scpool_MGR_def s2_def [symmetric] Let_def)
    next
      case True
      let ?p = "nat poolno"
      obtain s3 where s3: "TCB_add (Waiting ?p) (int i) s2 = (0, s3)"
          "TPool.holds s3 (f(Waiting ?p := f (Waiting ?p) @ [i]))"
        using holds_TCB_add [OF h2, of "int i" "Waiting ?p"] il2(1) assms(3) by auto
      have cb3: "call_back (pool s3 ! i) = callback"
        using TCB_add_callback [of "Waiting ?p" "int i" s2 i] s3(1) cb by simp
      have t: "tids st1 ! ?p \<noteq> int i + 1" using assms(6) True by (simp add: nat_less_iff)
      show ?thesis
        using No True assms(4,5,7) s1 s3 cb3 t
        by (cases "tids st1 ! ?p = 0")
          (auto simp: scpool_MGR_def s2_def [symmetric] enqueue_def Let_def nat_less_iff)
    qed
  qed
qed

definition one_task :: mod_state where
  "one_task = \<lparr>srv = \<lparr>max_client = 2, pool = [new_task 0, new_task 0], queues = (\<lambda>_. None), svc_num = 3\<rparr>,
     pools = [[]], tids = [0]\<rparr>"

lemma one_task_holds: "TPool.holds (srv one_task) (\<lambda>_. [])"
  by (auto simp: TPool.holds_def one_task_def new_task_def TPool.nx_of_def nth_Cons' split: if_splits)

theorem scpool_MGR_outcomes_witness:
  "\<exists>st' w'. scpool_MGR no_paths 1 0 (Some 4) one_task () = Some (1, None, True, st', w') \<and>
     call_back (pool (srv st') ! 1) = Some 4 \<and>
     TPool.holds (srv st') ((\<lambda>_. [])(Waiting 0 := [1]))"
proof -
  have g: "sc_conn no_paths 0 0 one_task () = Some (No, one_task, ())"
    by (simp add: sc_conn_def get_SC_connect_def get_SC_by_weight_def one_task_def no_paths_def)
      (subst weight_loop.simps, simp add: retry_bad.simps)
  have c: "in_range (int 1) (srv one_task)" "\<forall>q. 1 \<notin> set ((\<lambda>_. []) q)" "tids one_task \<noteq> []"
    "\<forall>t\<in>set (tids one_task). t \<noteq> int 1 + 1" "new_tid no_paths \<noteq> 0"
    by (simp_all add: in_range_def one_task_def no_paths_def)
  show ?thesis
    using scpool_MGR_outcomes [OF one_task_holds c(1,2) g c(3-5), of "Some 4"]
    by (auto simp: one_task_def)
qed

subsection \<open>A pool that does not exist\<close>

text \<open>The number -1, which \<open>get_scpool_no\<close> gives for an unknown node.\<close>

lemma no_pool: "\<exists>st'. scpool_MGR E (int i) (-1) callback st w = Some (-1, None, False, st', w) \<and>
    srv st' = snd (set_callback (int i) callback 120 (srv st))"
  by (simp add: scpool_MGR_def sc_conn_def get_SC_connect_def get_SC_by_weight_def wpool_init_def Let_def)

text \<open>When a service asks for a connection of the pool of an unknown node, \<open>scpool_MGR\<close> refuses
  after it has set the callback, the client is deleted, and its block keeps the callback.  The
  next client that gets the block has its first event handled by that callback, before any
  negotiation of a key and any login, whatever the client sends.\<close>

theorem refused_pool_skips_negotiation:
  assumes "call_back (pool s ! i) = None" "status (pool s ! i) = 1" "TPool.only_do (pool s ! i) = None"
    "i < length (pool s)" "int i < max_client s" "recv_ret e = 0" "1 < PROTO_NUM e" "PROTO_NUM e \<le> svc_num s"
    "PROTO_NUM e \<noteq> 65535"
    "\<And>s. call e (Function (nat (PROTO_NUM e))) i s =
       (case scpool_MGR E (int i) (-1) (Some cb) (st\<lparr>srv := s\<rparr>) w of
          Some (ret, conn, started, st', w') \<Rightarrow> (ret, srv st') | None \<Rightarrow> (0, s))"
  shows "fst (do_work e i s) = [Called (Function (nat (PROTO_NUM e))) (-1)] \<and>
    call_back (pool (snd (do_work e i s)) ! i) = Some cb \<and>
    (\<forall>s2 e2 conn_init sock e3. call_back (pool s2 ! i) = call_back (pool (snd (do_work e i s)) ! i) \<longrightarrow>
      (\<exists>ret. filter (\<lambda>a. a \<noteq> Marked) (fst (do_work e3 i (new_client e2 conn_init sock i s2))) = [Called (Callback cb) ret]))"
proof -
  have call: "call e (Function (nat (PROTO_NUM e))) i s = (-1, snd (set_callback (int i) (Some cb) 120 s))" for s
    using no_pool [of E i "Some cb" "st\<lparr>srv := s\<rparr>" w] unfolding assms(10) by auto
  have set: "call_back (pool (snd (set_callback (int i) (Some cb) 120 s')) ! i) = Some cb"
    if "max_client s' = max_client s" "length (pool s') = length (pool s)" for s'
    using that assms(4,5) by (simp add: set_callback_def)
  have p: "PROTO_NUM e \<noteq> 1" "PROTO_NUM e \<noteq> 0" "\<not> PROTO_NUM e > svc_num s" using assms(7,8) by auto
  have st: "status (pool (snd (set_callback (int i) (Some cb) 120 s')) ! i) = status (pool s' ! i)" for s'
    by (cases "i < length (pool s')") (simp_all add: set_callback_def list_update_beyond)
  have w: "do_work e i s = ([Called (Function (nat (PROTO_NUM e))) (-1)],
      settle e (timeout (pool s ! i)) (-1) i (snd (set_callback (int i) (Some cb) 120
        (upd_task i (\<lambda>t. t\<lparr>TPool.timestamp := clock e\<rparr>) (upd_task i (\<lambda>t. t\<lparr>timeout := 0\<rparr>) s)))))"
    using assms(1-6,9) p call
    by (simp add: do_work_def receive_def serve_def called_def st)
  then have cb: "call_back (pool (snd (do_work e i s)) ! i) = Some cb"
    using set by (simp add: settle_callback)
  have "\<exists>ret. filter (\<lambda>a. a \<noteq> Marked) (fst (do_work e3 i (new_client e2 conn_init sock i s2))) = [Called (Callback cb) ret]"
    if "call_back (pool s2 ! i) = Some cb" for s2 e2 conn_init sock e3
  proof -
    have "call_back (pool (upd_task i (\<lambda>t. t\<lparr>timeout := 0\<rparr>) (new_client e2 conn_init sock i s2)) ! i) = Some cb"
      using that by (simp add: kept_callback new_client_callback)
    then show ?thesis by (simp add: do_work_def user_event_def called_def case_prod_unfold Let_def)
  qed
  then show ?thesis using w cb by simp
qed

definition asks_pool :: event_env where
  "asks_pool = idle_env\<lparr>PROTO_NUM := 2, call := (\<lambda>h i s.
     case scpool_MGR no_paths (int i) (-1) (Some 9) (one_task\<lparr>srv := s\<rparr>) () of
       Some (ret, conn, started, st', w') \<Rightarrow> (ret, srv st') | None \<Rightarrow> (0, s))\<rparr>"

definition logged_in_server :: server where
  "logged_in_server = \<lparr>max_client = 2, pool = [(new_task 5)\<lparr>status := 1\<rparr>, new_task 0], queues = (\<lambda>_. None), svc_num = 3\<rparr>"

theorem refused_pool_skips_negotiation_witness:
  "\<exists>ret. filter (\<lambda>a. a \<noteq> Marked)
       (fst (do_work idle_env 0 (new_client idle_env None 8 0 (snd (do_work asks_pool 0 logged_in_server))))) = [Called (Callback 9) ret]"
proof -
  have c: "call_back (pool logged_in_server ! 0) = None" "status (pool logged_in_server ! 0) = 1"
    "TPool.only_do (pool logged_in_server ! 0) = None" "0 < length (pool logged_in_server)"
    "int 0 < max_client logged_in_server" "recv_ret asks_pool = 0" "1 < PROTO_NUM asks_pool"
    "PROTO_NUM asks_pool \<le> svc_num logged_in_server" "PROTO_NUM asks_pool \<noteq> 65535"
    by (simp_all add: logged_in_server_def new_task_def asks_pool_def idle_env_def)
  show ?thesis
    using refused_pool_skips_negotiation [OF c, of no_paths 9 one_task "()"]
    by (simp add: asks_pool_def)
qed

end
