(* ===== verification/NetPkg.thy ===== *)
theory NetPkg
  imports A64 Enigma
begin

unbundle bit_operations_syntax

text \<open>Packets over a connection: \<open>src/socket/net_pkg.c\<close> and the loops over partial reads and
  writes of \<open>src/socket/AIO_tcp.c\<close>.  A packet is a header of nine integers, sent in network
  order and with a checksum in the upper half of the first, and a body, compressed and
  enciphered as the flags of the connection say.  QuickLZ, kept in the repository as a vendored
  file, is a parameter.\<close>

section \<open>Sockets\<close>

text \<open>What the operating system does in a world of type \<open>'s\<close>: \<open>rd w n\<close> is a \<open>read\<close> of at most n
  bytes, with no bytes for a result of 0 or less, \<open>wr\<close> a \<open>write\<close>, \<open>yl\<close> the switch to another
  task (with the direction and the timeout), \<open>errno\<close> the variable; \<open>nonblocking\<close> says that
  \<open>yield\<close> is set and \<open>fcntl\<close> succeeds.\<close>

record 's net =
  rd :: "'s \<Rightarrow> nat \<Rightarrow> bytes \<times> 's"
  wr :: "'s \<Rightarrow> bytes \<Rightarrow> int \<times> 's"
  yl :: "'s \<Rightarrow> bool \<Rightarrow> int \<Rightarrow> int \<times> 's"
  errno :: "'s \<Rightarrow> int"
  nonblocking :: bool

definition EAGAIN :: int where "EAGAIN = 11"

definition count :: "bytes \<Rightarrow> int" where
  "count buf = (if buf = [] then -1 else int (length buf))"

text \<open>\<open>None\<close> is a loop that does not end.\<close>

partial_function (option) recv_loop ::
    "'s net \<Rightarrow> int \<Rightarrow> int \<Rightarrow> bool \<Rightarrow> nat \<Rightarrow> bytes \<Rightarrow> 's \<Rightarrow> (int \<times> bytes \<times> 's) option" where
  "recv_loop N n tmo async repeat buf w =
     (if int (length buf) \<ge> n then Some (count buf, buf, w)
      else let (br, w) = rd N w (nat n - length buf) in
        if br \<noteq> [] then recv_loop N n tmo async 0 (buf @ br) w
        else if \<not> async \<and> errno N w = EAGAIN then Some (TIMEOUTERR, buf, w)
        else if errno N w \<noteq> 0 \<and> errno N w \<noteq> EAGAIN then Some (count buf, buf, w)
        else if async then
          (if repeat > 3 then Some (- errno N w, buf, w)
           else let (i, w) = yl N w False tmo in
             if i < 0 then
               if i = TIMEOUTERR then Some (i, buf, w) else recv_loop N n tmo False (repeat + 1) buf w
             else recv_loop N n tmo async (repeat + 1) buf w)
        else recv_loop N n tmo async repeat buf w)"

definition RecvNet :: "'s net \<Rightarrow> int \<Rightarrow> int \<Rightarrow> int \<Rightarrow> 's \<Rightarrow> (int \<times> bytes \<times> 's) option" where
  "RecvNet N socket n timeout w =
     (if socket < 0 then Some (SYSERR, [], w)
      else recv_loop N n timeout (nonblocking N) 0 [] w)"

text \<open>\<open>sent\<close> are the bytes written so far, buf the rest.\<close>

partial_function (option) send_loop ::
    "'s net \<Rightarrow> nat \<Rightarrow> bool \<Rightarrow> bytes \<Rightarrow> bytes \<Rightarrow> 's \<Rightarrow> (int \<times> bytes \<times> 's) option" where
  "send_loop N SendSize async sent buf w =
     (if buf = [] then Some (count sent, sent, w)
      else let sz = (if length buf < SendSize then length buf else SendSize);
               (bw, w) = wr N w (take sz buf);
               (sent, buf) = (if bw > 0 then (sent @ take (nat bw) buf, drop (nat bw) buf) else (sent, buf))
           in if bw < 0 \<and> errno N w \<noteq> EAGAIN then Some (count sent, sent, w)
              else if bw < int sz \<and> async
              then let (i, w) = yl N w True 0 in send_loop N SendSize (\<not> i < 0) sent buf w
              else send_loop N SendSize async sent buf w)"

definition SendNet :: "'s net \<Rightarrow> int \<Rightarrow> bytes \<Rightarrow> int \<Rightarrow> 's \<Rightarrow> (int \<times> bytes \<times> 's) option" where
  "SendNet N socket buf MTU w =
     (if socket < 0 then Some (SYSERR, [], w)
      else send_loop N (if MTU > 500 then nat MTU else length buf) (nonblocking N) [] buf w)"

section \<open>The header\<close>

definition HEADPACKLENGTH :: nat where "HEADPACKLENGTH = 36"
definition PARANUM :: nat where "PARANUM = 9"

text \<open>The macros of \<open>sc.h\<close> name the places of the header; \<open>para_int\<close> reads one as an \<open>int\<close>.\<close>

definition PROTO_NUM :: nat where "PROTO_NUM = 0"
definition PKG_LEN :: nat where "PKG_LEN = 4"
definition T_LEN :: nat where "T_LEN = 5"
definition PKG_CRC :: nat where "PKG_CRC = 8"

lemmas head_places = PROTO_NUM_def PKG_LEN_def T_LEN_def PKG_CRC_def

record T_NetHead =
  para :: "u_int list"
  data :: "bytes option"

definition para_int :: "T_NetHead \<Rightarrow> nat \<Rightarrow> int" where
  "para_int h k = sint (para h ! k)"

definition chknum :: "u_int list \<Rightarrow> u_int \<Rightarrow> u_int \<times> u_int list" where
  "chknum ps init =
     (let old = ps ! 0;
          ps = ps[0 := old AND 0xFFFF];
          sum = fold (\<lambda>i sum. sum + ps ! i) [0..<PARANUM] init
      in (old, ps[0 := ps ! 0 OR push_bit 16 sum]))"

definition htonl :: "u_int \<Rightarrow> bytes" where
  "htonl w = map (word_byte w) [3, 2, 1, 0]"

definition NetHeadPack :: "u_int list \<Rightarrow> u_int \<Rightarrow> bytes \<times> u_int list" where
  "NetHeadPack ps init =
     (let (old, ps) = chknum ps init in (concat (map (\<lambda>i. htonl (ps ! i)) [0..<PARANUM]), ps))"

definition NetHeadDispack :: "bytes \<Rightarrow> u_int \<Rightarrow> int \<times> u_int list" where
  "NetHeadDispack buf init =
     (let ps = map (\<lambda>i. load_word (take 4 (drop (4 * i) buf))) [0..<PARANUM];
          (old, ps) = chknum ps init
      in if old \<noteq> ps ! 0 then (FORMATERR, ps) else (0, ps[0 := ps ! 0 AND 0xFFFF]))"

section \<open>Connections\<close>

definition DO_CRYPT :: u_int where "DO_CRYPT = 3"
definition CHECK_CRC :: u_int where "CHECK_CRC = 4"
definition DO_ZIP :: u_int where "DO_ZIP = 8"
definition UNDO_ZIP :: u_int where "UNDO_ZIP = 0x80000000"
definition SDBC_BLKSZ :: int where "SDBC_BLKSZ = 65536"
definition INTNULL :: int where "INTNULL = - (2 ^ 31)"

text \<open>\<open>family29\<close> is \<open>family[29]\<close>; of the buffers only their sizes and whether they are there
  matter between two packets.\<close>

record T_Connect =
  Socket :: int
  CryptFlg :: u_int
  cipher :: ENIGMA2
  family29 :: u_int
  MTU :: int
  timeout :: int
  SendLen :: int
  SendBuffer :: bool
  RecvLen :: int
  RecvBuffer :: bool

definition flag :: "T_Connect \<Rightarrow> u_int \<Rightarrow> bool" where
  "flag c f \<longleftrightarrow> CryptFlg c AND f \<noteq> 0"

definition pack_encode :: "T_Connect \<Rightarrow> bytes \<Rightarrow> bytes" where
  "pack_encode c s =
     (let m = CryptFlg c AND DO_CRYPT in
      if m = 1 then enigma (e2_t (cipher c)) s
      else if m = 2 then enigma_encrypt (e2_r (cipher c)) s
      else if m = 3 then enigma2_encrypt (cipher c) s
      else s)"

definition pack_decode :: "T_Connect \<Rightarrow> bytes \<Rightarrow> bytes" where
  "pack_decode c s =
     (let m = CryptFlg c AND DO_CRYPT in
      if m = 1 then enigma (e2_t (cipher c)) s
      else if m = 2 then enigma_decrypt (e2_r (cipher c)) s
      else if m = 3 then enigma2_decrypt (cipher c) s
      else s)"

section \<open>Sending\<close>

text \<open>\<open>quick_send_pkg\<close> sends the body that stands in the buffer behind the place of the header.\<close>

definition quick_send_pkg ::
    "'s net \<Rightarrow> T_Connect \<Rightarrow> T_NetHead \<Rightarrow> bytes \<Rightarrow> 's \<Rightarrow> (int \<times> bytes \<times> T_NetHead \<times> T_Connect \<times> 's) option" where
  "quick_send_pkg N c h body w =
     (let body = take (nat (para_int h T_LEN)) body;
          (body, h) = (if para h ! PKG_LEN \<noteq> 0
            then let body = pack_encode c body in (body, h\<lparr>para := (para h)[PKG_CRC := ssh_crc32 body]\<rparr>)
            else (body, h));
          (head, ps) = NetHeadPack (para h) (family29 c);
          h = h\<lparr>para := ps\<rparr>;
          head = (if flag c DO_CRYPT then enigma2_encrypt (cipher c) head else head)
      in do {
        (i, sent, w) \<leftarrow> SendNet N (Socket c) (head @ body) (MTU c) w;
        let c = (if SendLen c > 32768 then c\<lparr>SendBuffer := False, SendLen := 0\<rparr> else c);
        Some (if i < int HEADPACKLENGTH + para_int h T_LEN then if i < 0 then SYSERR else LENGERR else 0,
              sent, h, c, w) })"

record zipper =
  qlz_compress :: "bytes \<Rightarrow> bytes"
  qlz_size_decompressed :: "bytes \<Rightarrow> nat"
  qlz_decompress :: "bytes \<Rightarrow> bytes"

text \<open>\<open>malloc n\<close> says whether \<open>malloc\<close> or \<open>realloc\<close> gives n bytes.\<close>

definition send_buffer :: "(int \<Rightarrow> bool) \<Rightarrow> int \<Rightarrow> T_Connect \<Rightarrow> T_Connect" where
  "send_buffer malloc len c =
     (let i = SendLen c - len in
      if i < 100 + int HEADPACKLENGTH \<or> i > SDBC_BLKSZ
      then let n = len + 400 + int HEADPACKLENGTH in c\<lparr>SendLen := n, SendBuffer := malloc n\<rparr>
      else c)"

definition send_body :: "zipper \<Rightarrow> T_Connect \<Rightarrow> int \<Rightarrow> T_NetHead \<Rightarrow> bytes \<times> T_NetHead" where
  "send_body Z c len h =
     (if para h ! PKG_LEN = 0 then ([], h\<lparr>para := (para h)[T_LEN := 0]\<rparr>)
      else if CryptFlg c AND (DO_ZIP OR UNDO_ZIP) = DO_ZIP
      then let z = qlz_compress Z (take (nat (para_int h PKG_LEN)) (the (data h)))
           in (z, h\<lparr>para := (para h)[T_LEN := of_nat (length z)]\<rparr>)
      else (take (nat len) (the (data h)),
            if flag c UNDO_ZIP then h else h\<lparr>para := (para h)[T_LEN := para h ! PKG_LEN]\<rparr>))"

definition SendPack ::
    "'s net \<Rightarrow> zipper \<Rightarrow> (int \<Rightarrow> bool) \<Rightarrow> T_Connect \<Rightarrow> T_NetHead \<Rightarrow> 's
      \<Rightarrow> (int \<times> bytes \<times> T_NetHead \<times> T_Connect \<times> 's) option" where
  "SendPack N Z malloc c h w =
     (let c = (if RecvLen c > 65536 then c\<lparr>RecvBuffer := False, RecvLen := 0\<rparr> else c);
          len = (if flag c UNDO_ZIP then para_int h T_LEN else para_int h PKG_LEN);
          c = send_buffer malloc len c
      in if \<not> SendBuffer c then Some (MEMERR, [], h, c\<lparr>SendLen := 0\<rparr>, w)
         else let (body, h) = send_body Z c len h in
           if Socket c < 0 then Some (INTNULL, [], h, c, w)
           else quick_send_pkg N c h body w)"

section \<open>Receiving\<close>

text \<open>A result, or an access outside the receive buffer.\<close>

datatype 'a access = Ok 'a | Overrun

definition recv_buffer :: "(int \<Rightarrow> bool) \<Rightarrow> int \<Rightarrow> T_Connect \<Rightarrow> T_Connect" where
  "recv_buffer malloc i c =
     (let n = RecvLen c - i in
      if \<not> RecvBuffer c \<or> n < 0 \<or> n > 32768
      then if malloc i then c\<lparr>RecvBuffer := True, RecvLen := i\<rparr> else c\<lparr>RecvBuffer := False, RecvLen := 0\<rparr>
      else c)"

text \<open>The size the buffer must have, in 32 bits, and where the body is read to.\<close>

definition buffer_size :: "T_Connect \<Rightarrow> T_NetHead \<Rightarrow> int" where
  "buffer_size c h =
     (let P = para h ! PKG_LEN; T = para h ! T_LEN in
      if flag c UNDO_ZIP then sint (T + 1)
      else if sint T < sint P then sint (P + 1 + (T + 1)) else sint (P + 1))"

definition body_place :: "T_Connect \<Rightarrow> T_NetHead \<Rightarrow> int" where
  "body_place c h =
     (if \<not> flag c UNDO_ZIP \<and> para h ! T_LEN \<noteq> para h ! PKG_LEN then para_int h PKG_LEN + 1 else 0)"

text \<open>The body once it is received: its checksum, cipher and compression.\<close>

definition open_body :: "zipper \<Rightarrow> T_Connect \<Rightarrow> T_NetHead \<Rightarrow> bytes \<Rightarrow> int \<times> bytes" where
  "open_body Z c h body =
     (if flag c CHECK_CRC \<and> ssh_crc32 body \<noteq> para h ! PKG_CRC then (CRCERR, body)
      else let body = pack_decode c body in
        if body_place c h \<noteq> 0 then
          if para_int h T_LEN < 9 \<or> para_int h PKG_LEN \<noteq> int (qlz_size_decompressed Z body) then (FORMATERR, body)
          else let out = qlz_decompress Z body in
            if int (length out) \<noteq> para_int h PKG_LEN then (LENGERR, out) else (0, out)
        else (0, body))"

definition RecvPack ::
    "'s net \<Rightarrow> zipper \<Rightarrow> (int \<Rightarrow> bool) \<Rightarrow> T_Connect \<Rightarrow> 's
      \<Rightarrow> ((int \<times> T_NetHead \<times> T_Connect) access \<times> 's) option" where
  "RecvPack N Z malloc c w =
     (let h = \<lparr>para = replicate PARANUM 0, data = None\<rparr> in
      do {
        (i, head, w) \<leftarrow> RecvNet N (Socket c) (int HEADPACKLENGTH) (timeout c) w;
        if i < int HEADPACKLENGTH then Some (Ok (if i = TIMEOUTERR then i else LENGERR, h, c), w)
        else let head = (if flag c DO_CRYPT then enigma2_decrypt (cipher c) head else head);
                 (r, ps) = NetHeadDispack head (family29 c);
                 h = h\<lparr>para := ps\<rparr>
          in if r \<noteq> 0 then Some (Ok (FORMATERR, h, c), w)
          else if para h ! T_LEN = 0 then Some (Ok (0, h, c), w)
          else let c = recv_buffer malloc (buffer_size c h) c; z = body_place c h; T = para_int h T_LEN in
            if \<not> RecvBuffer c then Some (Ok (MEMERR, h, c), w)
            else if z < 0 \<or> z + max T 1 > RecvLen c then Some (Overrun, w)
            else do {
              (i, body, w) \<leftarrow> RecvNet N (Socket c) T 5 w;
              if i \<noteq> T then
                if i = TIMEOUTERR then Some (Ok (i, h, c), w)
                else Some (Ok (if i < 0 then SYSERR else LENGERR, h, c\<lparr>RecvBuffer := False, RecvLen := 0\<rparr>), w)
              else if T < 0 then Some (Overrun, w)
              else let (r, out) = open_body Z c h body; P = para_int h PKG_LEN in
                if r \<noteq> 0 then Some (Ok (r, h, c), w)
                else if P < 0 \<or> P \<ge> RecvLen c then Some (Overrun, w)
                else Some (Ok (0, h\<lparr>data := Some (out[nat P := 0])\<rparr>, c), w) } })"

section \<open>The header survives\<close>

lemma low_half: "(x AND 0xFFFF OR push_bit 16 y) AND 0xFFFF = (x AND 0xFFFF :: u_int)"
proof -
  have m: "(0xFFFF :: u_int) = mask 16" by (simp add: mask_eq_exp_minus_1)
  show ?thesis unfolding m by (rule bit_word_eqI) (auto simp: bit_simps)
qed

lemma chknum_again:
  assumes "ps \<noteq> []" "chknum ps init = (old, ps')"
  shows "chknum ps' init = (ps' ! 0, ps')" "ps'[0 := ps' ! 0 AND 0xFFFF] = ps[0 := ps ! 0 AND 0xFFFF]"
    "length ps' = length ps"
proof -
  define qs where "qs = ps[0 := ps ! 0 AND 0xFFFF]"
  define sum where "sum = fold (\<lambda>i sum. sum + qs ! i) [0..<PARANUM] init"
  have ps': "ps' = qs[0 := qs ! 0 OR push_bit 16 sum]"
    using assms(2) unfolding chknum_def Let_def qs_def [symmetric] sum_def [symmetric] by simp
  have q0: "qs ! 0 = ps ! 0 AND 0xFFFF" "qs \<noteq> []" using assms(1) by (auto simp: qs_def)
  then have m: "ps'[0 := ps' ! 0 AND 0xFFFF] = qs"
    unfolding ps' by (simp add: low_half) (metis list_update_id q0(1))
  then show "ps'[0 := ps' ! 0 AND 0xFFFF] = ps[0 := ps ! 0 AND 0xFFFF]" by (simp add: qs_def)
  show "chknum ps' init = (ps' ! 0, ps')"
    unfolding chknum_def Let_def m sum_def [symmetric] ps' [symmetric] ..
  show "length ps' = length ps" by (simp add: ps' qs_def)
qed

lemma nth_block: "(\<And>x. length (f x) = 4) \<Longrightarrow> i < length xs \<Longrightarrow> take 4 (drop (4 * i) (concat (map f xs))) = f (xs ! i)"
proof (induction xs arbitrary: i)
  case (Cons x xs)
  then show ?case by (cases i) auto
qed simp

lemma length_htonl: "length (htonl w) = 4"
  by (simp add: htonl_def)

lemma load_htonl: "load_word (htonl w) = w"
  unfolding htonl_def by (rule load_word_bytes)

lemma head_round_trip:
  assumes "length ps = PARANUM" "NetHeadPack ps init = (head, ps')"
  shows "NetHeadDispack head init = (0, ps[0 := ps ! 0 AND 0xFFFF])" "length head = HEADPACKLENGTH"
    "ps'[0 := ps' ! 0 AND 0xFFFF] = ps[0 := ps ! 0 AND 0xFFFF]" "length ps' = PARANUM"
proof -
  have ne: "ps \<noteq> []" using assms(1) by (auto simp: PARANUM_def)
  obtain old where c: "chknum ps init = (old, ps')" "head = concat (map (\<lambda>i. htonl (ps' ! i)) [0..<PARANUM])"
    using assms(2) by (auto simp: NetHeadPack_def split: prod.splits)
  note a = chknum_again [OF ne c(1)]
  have "map (\<lambda>i. load_word (take 4 (drop (4 * i) head))) [0..<PARANUM] = map (\<lambda>i. ps' ! i) [0..<PARANUM]"
    unfolding c(2) by (rule map_cong [OF refl]) (simp add: nth_block length_htonl load_htonl)
  also have "\<dots> = ps'" using a(3) assms(1) map_nth [of ps'] by simp
  finally show "NetHeadDispack head init = (0, ps[0 := ps ! 0 AND 0xFFFF])"
    unfolding NetHeadDispack_def Let_def by (simp only: a(1) prod.case) (simp add: a(2))
  show "length head = HEADPACKLENGTH"
    unfolding c(2) by (simp add: length_concat comp_def length_htonl sum_list_triv PARANUM_def HEADPACKLENGTH_def)
  show "ps'[0 := ps' ! 0 AND 0xFFFF] = ps[0 := ps ! 0 AND 0xFFFF]" "length ps' = PARANUM"
    using a assms(1) by simp_all
qed

section \<open>The stream arrives\<close>

text \<open>A reader that delivers the bytes bs, in pieces of any size.\<close>

inductive delivers :: "'s net \<Rightarrow> 's \<Rightarrow> bytes \<Rightarrow> bool" for N where
  nothing: "delivers N w []"
| piece: "(\<And>n. 0 < n \<Longrightarrow> \<exists>p ps w'. rd N w n = (p, w') \<and> p \<noteq> [] \<and> length p \<le> n \<and> bs = p @ ps \<and> delivers N w' ps) \<Longrightarrow>
    delivers N w bs"

lemma recv_loop_delivers:
  assumes "delivers N w bs" "0 \<le> n" "nat n \<le> length buf + length bs" "length buf \<le> nat n"
  shows "\<exists>w'. recv_loop N n tmo async r buf w = Some (count (buf @ take (nat n - length buf) bs),
      buf @ take (nat n - length buf) bs, w') \<and> delivers N w' (drop (nat n - length buf) bs)"
  using assms
proof (induction arbitrary: buf r rule: delivers.induct)
  case (nothing w)
  then show ?case by (subst recv_loop.simps) (auto intro: delivers.nothing)
next
  case (piece w bs)
  show ?case
  proof (cases "nat n \<le> length buf")
    case True
    have "delivers N w bs" by (rule delivers.piece) (use piece.IH in blast)
    then show ?thesis using piece.prems True by (subst recv_loop.simps) simp
  next
    case False
    then obtain p ps w1 where p: "rd N w (nat n - length buf) = (p, w1)" "p \<noteq> []" "length p \<le> nat n - length buf"
        "bs = p @ ps" "delivers N w1 ps" and ih: "\<And>buf r. 0 \<le> n \<Longrightarrow> nat n \<le> length buf + length ps \<Longrightarrow> length buf \<le> nat n \<Longrightarrow>
          \<exists>w'. recv_loop N n tmo async r buf w1 = Some (count (buf @ take (nat n - length buf) ps),
            buf @ take (nat n - length buf) ps, w') \<and> delivers N w' (drop (nat n - length buf) ps)"
      using piece.IH [of "nat n - length buf"] by fastforce
    have s: "recv_loop N n tmo async r buf w = recv_loop N n tmo async 0 (buf @ p) w1"
      by (subst recv_loop.simps) (use False p piece.prems(1) in \<open>simp add: Let_def nat_le_iff\<close>)
    show ?thesis unfolding s using ih [of "buf @ p" 0] p piece.prems by simp
  qed
qed

lemma RecvNet_delivers:
  assumes "delivers N w bs" "0 \<le> socket" "0 < n" "nat n \<le> length bs"
  shows "\<exists>w'. RecvNet N socket n tmo w = Some (n, take (nat n) bs, w') \<and> delivers N w' (drop (nat n) bs)"
proof -
  have "take (nat n) bs \<noteq> []" using assms(3,4) by auto
  then show ?thesis
    using recv_loop_delivers [OF assms(1), of n "[]" tmo "nonblocking N" 0] assms(2-4)
    by (simp add: RecvNet_def count_def min_absorb2)
qed

text \<open>A writer that takes at least one byte of what it is given, and no more than that.\<close>

definition accepts :: "'s net \<Rightarrow> bool" where
  "accepts N \<longleftrightarrow> (\<forall>w b. b \<noteq> [] \<longrightarrow> 0 < fst (wr N w b) \<and> fst (wr N w b) \<le> int (length b))"

lemma send_loop_all:
  assumes "accepts N" "0 < sz"
  shows "\<exists>w'. send_loop N sz async sent buf w = Some (count (sent @ buf), sent @ buf, w')"
proof (induction buf arbitrary: async sent w rule: length_induct)
  case (1 buf)
  show ?case
  proof (cases "buf = []")
    case True
    then show ?thesis by (subst send_loop.simps) simp
  next
    case False
    define k where "k = (if length buf < sz then length buf else sz)"
    obtain bw w1 where wr: "wr N w (take k buf) = (bw, w1)" by fastforce
    have k: "0 < k" "take k buf \<noteq> []" using False assms(2) by (auto simp: k_def)
    then have bw: "0 < bw" "bw \<le> int k" "int (length (take k buf)) = int k"
      using assms(1) wr unfolding accepts_def by (metis fst_conv length_take min.cobounded2 of_nat_le_iff order_trans, metis fst_conv length_take min.cobounded2 of_nat_le_iff order_trans, simp add: k_def)
    have sh: "length (drop (nat bw) buf) < length buf" using bw(1) False by simp
    have ih: "\<exists>w'. send_loop N sz a (sent @ take (nat bw) buf) (drop (nat bw) buf) w2 = Some (count (sent @ buf), sent @ buf, w')" for a w2
      using 1 [rule_format, OF sh, of a "sent @ take (nat bw) buf" w2] by simp
    show ?thesis
      using False wr bw(1) ih by (subst send_loop.simps) (auto simp: Let_def k_def [symmetric] split: prod.splits)
  qed
qed

lemma SendNet_all:
  assumes "accepts N" "0 \<le> socket" "buf \<noteq> []"
  shows "\<exists>w'. SendNet N socket buf m w = Some (int (length buf), buf, w')"
  using send_loop_all [OF assms(1), of "if m > 500 then nat m else length buf" "nonblocking N" "[]" buf w] assms(2,3)
  by (auto simp: SendNet_def count_def)

section \<open>The body survives\<close>

definition wheeled :: "T_Connect \<Rightarrow> bool" where
  "wheeled c \<longleftrightarrow> wheels (e2_t (cipher c)) \<and> wheels (e2_r (cipher c))"

lemma pack_decode_encode: "wheeled c \<Longrightarrow> pack_decode c (pack_encode c s) = s"
  by (simp add: pack_decode_def pack_encode_def Let_def wheeled_def wheels.enigma_inverse wheels.decrypt_encrypt enigma2_inverse)

lemma enigma2_encrypt_length: "length (enigma2_encrypt e s) = length s"
proof (cases "s = []")
  case False
  then have "unat (e2_crc e) mod length s < length s" by simp
  then show ?thesis by (simp add: enigma2_encrypt_def Let_def)
qed (simp add: enigma2_encrypt_def)

lemma pack_encode_length: "length (pack_encode c s) = length s"
  by (simp add: pack_encode_def Let_def enigma2_encrypt_length)

lemma small_int: "n < 2 ^ 31 \<Longrightarrow> sint (of_nat n :: u_int) = int n"
  by (simp add: signed_of_nat signed_take_bit_int_eq_self)

text \<open>What the sender relies on from the compressor: an output that is not shorter is the input,
  and a shorter one can be undone and is not tiny.\<close>

definition zips :: "zipper \<Rightarrow> bytes \<Rightarrow> bool" where
  "zips Z bs \<longleftrightarrow> (let z = qlz_compress Z bs in length z \<le> length bs \<and>
     (if length z = length bs then z = bs
      else 9 \<le> length z \<and> qlz_size_decompressed Z z = length bs \<and> qlz_decompress Z z = bs))"

definition head_ok :: "T_NetHead \<Rightarrow> bytes \<Rightarrow> bool" where
  "head_ok h bs \<longleftrightarrow> length (para h) = PARANUM \<and> data h = Some bs \<and> length bs < 2 ^ 29 \<and>
     para h ! PKG_LEN = of_nat (length bs)"

lemma send_body_ok:
  assumes "head_ok h bs" "\<not> flag c UNDO_ZIP" "zips Z bs"
  obtains body h1 where "send_body Z c (int (length bs)) h = (body, h1)" "length body \<le> length bs"
    "h1 = h\<lparr>para := (para h)[T_LEN := of_nat (length body)]\<rparr>"
    "body = bs \<or> 9 \<le> length body \<and> length body < length bs \<and>
       qlz_size_decompressed Z body = length bs \<and> qlz_decompress Z body = bs"
proof -
  have P: "para_int h PKG_LEN = int (length bs)" "para h ! PKG_LEN = of_nat (length bs)" "data h = Some bs"
    using assms(1) small_int [of "length bs"] by (auto simp: head_ok_def para_int_def)
  have z: "(of_nat (length bs) :: u_int) = 0 \<longleftrightarrow> bs = []"
    using P(1) by (auto simp: para_int_def P(2))
  consider "bs = []" | "bs \<noteq> []" "CryptFlg c AND (DO_ZIP OR UNDO_ZIP) = DO_ZIP"
    | "bs \<noteq> []" "CryptFlg c AND (DO_ZIP OR UNDO_ZIP) \<noteq> DO_ZIP" by blast
  then show thesis
  proof cases
    case 1
    then have "send_body Z c (int (length bs)) h = ([], h\<lparr>para := (para h)[T_LEN := of_nat (length ([] :: bytes))]\<rparr>)"
      using P(2) by (simp add: send_body_def)
    then show thesis by (rule that) (simp_all add: 1)
  next
    case 2
    let ?z = "qlz_compress Z bs"
    have "send_body Z c (int (length bs)) h = (?z, h\<lparr>para := (para h)[T_LEN := of_nat (length ?z)]\<rparr>)"
      using 2 P z by (simp add: send_body_def Let_def)
    then show thesis using assms(3) unfolding zips_def Let_def by (intro that) (auto split: if_splits)
  next
    case 3
    have "send_body Z c (int (length bs)) h = (bs, h\<lparr>para := (para h)[T_LEN := of_nat (length bs)]\<rparr>)"
      using 3 P z assms(2) by (simp add: send_body_def)
    then show thesis by (rule that) simp_all
  qed
qed

text \<open>What a sender of the body \<open>body\<close> puts on the wire, and the header it leaves.\<close>

definition wire_head :: "T_Connect \<Rightarrow> T_NetHead \<Rightarrow> bytes \<Rightarrow> u_int list" where
  "wire_head c h body = (let ps = (para h)[T_LEN := of_nat (length body)] in
     if body = [] then ps else ps[PKG_CRC := ssh_crc32 (pack_encode c body)])"

definition wire :: "T_Connect \<Rightarrow> T_NetHead \<Rightarrow> bytes \<Rightarrow> bytes" where
  "wire c h body =
     (let head = fst (NetHeadPack (wire_head c h body) (family29 c))
      in (if flag c DO_CRYPT then enigma2_encrypt (cipher c) head else head) @
         (if body = [] then [] else pack_encode c body))"

lemma SendPack_wire:
  assumes "head_ok h bs" "\<not> flag c UNDO_ZIP" "zips Z bs" "accepts N" "0 \<le> Socket c"
    "SendBuffer c \<or> SendLen c = 0" "\<forall>n. malloc n"
  obtains body c' h' w' where "SendPack N Z malloc c h w = Some (0, wire c h body, h', c', w')"
    "para h' = snd (NetHeadPack (wire_head c h body) (family29 c))" "length body \<le> length bs" "(body = []) = (bs = [])"
    "length (wire c h body) = HEADPACKLENGTH + length body"
    "body = bs \<or> 9 \<le> length body \<and> length body < length bs \<and>
       qlz_size_decompressed Z body = length bs \<and> qlz_decompress Z body = bs"
proof -
  define c1 where "c1 = (if RecvLen c > 65536 then c\<lparr>RecvBuffer := False, RecvLen := 0\<rparr> else c)"
  have P: "para_int h PKG_LEN = int (length bs)" "length (para h) = PARANUM" "length bs < 2 ^ 29"
      "para h ! PKG_LEN = of_nat (length bs)"
    using assms(1) small_int [of "length bs"] by (auto simp: head_ok_def para_int_def)
  define c2 where "c2 = send_buffer malloc (int (length bs)) c1"
  have c2: "SendBuffer c2" "Socket c2 = Socket c" "CryptFlg c2 = CryptFlg c" "cipher c2 = cipher c" "family29 c2 = family29 c"
    using assms(6,7) by (auto simp: c2_def c1_def send_buffer_def Let_def HEADPACKLENGTH_def)
  have f: "flag c2 = flag c" "flag c1 = flag c" "pack_encode c2 = pack_encode c"
    by (simp_all add: fun_eq_iff flag_def c1_def pack_encode_def c2 cong: if_cong)
  obtain body h1 where b: "send_body Z c2 (int (length bs)) h = (body, h1)" "length body \<le> length bs"
      "h1 = h\<lparr>para := (para h)[T_LEN := of_nat (length body)]\<rparr>"
      "body = bs \<or> 9 \<le> length body \<and> length body < length bs \<and>
         qlz_size_decompressed Z body = length bs \<and> qlz_decompress Z body = bs"
    using send_body_ok [OF assms(1) _ assms(3), of c2] assms(2) f(1) by metis
  have T: "para_int h1 T_LEN = int (length body)"
    using b(2,3) P(2,3) small_int [of "length body"] by (simp add: para_int_def head_places PARANUM_def)
  have e: "(body = []) = (bs = [])" using b(4) by auto
  have pk: "para h1 ! PKG_LEN = of_nat (length bs)" using b(3) P(4) by (simp add: head_places)
  have nz: "(of_nat (length bs) :: u_int) = 0 \<longleftrightarrow> bs = []" using P(1) unfolding para_int_def P(4) by auto
  obtain head ps where hp: "NetHeadPack (wire_head c h body) (family29 c) = (head, ps)" by fastforce
  have lw: "length (wire_head c h body) = PARANUM" using P(2) by (simp add: wire_head_def Let_def)
  have lh: "length head = HEADPACKLENGTH" using head_round_trip(2) [OF lw hp] .
  have lwire: "length (wire c h body) = HEADPACKLENGTH + length body"
    using lh by (simp add: wire_def hp enigma2_encrypt_length pack_encode_length)
  then have ne: "wire c h body \<noteq> []" by (auto simp: HEADPACKLENGTH_def)
  obtain w1 where sn: "SendNet N (Socket c2) (wire c h body) (MTU c2) w = Some (int (length (wire c h body)), wire c h body, w1)"
    using SendNet_all [OF assms(4) _ ne] assms(5) c2(2) by metis
  have hd: "(if flag c2 DO_CRYPT then enigma2_encrypt (cipher c2) head else head) @
      (if body = [] then [] else pack_encode c body) = wire c h body"
    by (simp add: wire_def hp f(1) c2(4))
  have "wire_head c h body ! T_LEN = of_nat (length body)"
    using P(2) by (simp add: wire_head_def Let_def head_places PARANUM_def)
  moreover have "ps[0 := ps ! 0 AND 0xFFFF] ! T_LEN = (wire_head c h body)[0 := wire_head c h body ! 0 AND 0xFFFF] ! T_LEN"
    using head_round_trip(3) [OF lw hp] by simp
  ultimately have psT: "sint (ps ! T_LEN) = int (length body)"
    using small_int [of "length body"] b(2) P(3) by (simp add: head_places)
  have "\<exists>h' c' w'. quick_send_pkg N c2 h1 body w = Some (0, wire c h body, h', c', w') \<and> para h' = ps"
  proof (cases "bs = []")
    case True
    then have w: "para h1 = wire_head c h body" "body = []" using e b(3) by (simp_all add: wire_head_def)
    show ?thesis using True T psT pk nz hp c2(5) sn hd w lwire unfolding quick_send_pkg_def
      by (auto simp: Let_def para_int_def)
  next
    case False
    then have w: "(para h1)[PKG_CRC := ssh_crc32 (pack_encode c body)] = wire_head c h body"
      using e b(3) by (simp add: wire_head_def Let_def)
    show ?thesis using False T psT pk nz hp c2(5) sn hd w lwire e f(3) unfolding quick_send_pkg_def
      by (auto simp: Let_def para_int_def)
  qed
  then obtain h' c' w' where q: "quick_send_pkg N c2 h1 body w = Some (0, wire c h body, h', c', w')" "para h' = ps" by blast
  have "SendPack N Z malloc c h w = Some (0, wire c h body, h', c', w')"
    unfolding SendPack_def Let_def c1_def [symmetric] f(2) using assms(2,5) c2(1,2) b(1) q(1)
    by (simp add: P(1) c2_def [symmetric])
  then show thesis using that q(2) b(2,4) e lwire hp by simp
qed

definition peers :: "T_Connect \<Rightarrow> T_Connect \<Rightarrow> bool" where
  "peers c d \<longleftrightarrow> CryptFlg d = CryptFlg c \<and> cipher d = cipher c \<and> family29 d = family29 c"

lemma recv_buffer_ok:
  assumes "\<forall>n. malloc n"
  shows "RecvBuffer (recv_buffer malloc i d) \<and> i \<le> RecvLen (recv_buffer malloc i d) \<and>
    CryptFlg (recv_buffer malloc i d) = CryptFlg d \<and> cipher (recv_buffer malloc i d) = cipher d \<and>
    Socket (recv_buffer malloc i d) = Socket d"
  using assms by (simp add: recv_buffer_def Let_def)

lemma RecvPack_wire:
  assumes "head_ok h bs" "\<not> flag c UNDO_ZIP" "wheeled c" "peers c d" "0 \<le> Socket d" "\<forall>n. malloc n"
    "length body \<le> length bs" "(body = []) = (bs = [])" "length (wire c h body) = HEADPACKLENGTH + length body"
    "body = bs \<or> 9 \<le> length body \<and> length body < length bs \<and>
       qlz_size_decompressed Z body = length bs \<and> qlz_decompress Z body = bs"
    "delivers M v (wire c h body @ rest)"
  shows "\<exists>d' v'. RecvPack M Z malloc d v = Some (Ok (0, \<lparr>para = (wire_head c h body)[0 := wire_head c h body ! 0 AND 0xFFFF],
      data = (if bs = [] then None else Some bs)\<rparr>, d'), v') \<and> delivers M v' rest"
proof -
  have P: "para h ! PKG_LEN = of_nat (length bs)" "length (para h) = PARANUM" "length bs < 2 ^ 29"
    using assms(1) by (auto simp: head_ok_def)
  obtain head ps where hp: "NetHeadPack (wire_head c h body) (family29 c) = (head, ps)" by fastforce
  have lw: "length (wire_head c h body) = PARANUM" using P(2) by (simp add: wire_head_def Let_def)
  note hr = head_round_trip [OF lw hp]
  define hb where "hb = (if flag c DO_CRYPT then enigma2_encrypt (cipher c) head else head)"
  define qs where "qs = (wire_head c h body)[0 := wire_head c h body ! 0 AND 0xFFFF]"
  have lh: "length hb = HEADPACKLENGTH" using hr(2) by (simp add: hb_def enigma2_encrypt_length)
  have pr: "flag d = flag c" "cipher d = cipher c" "family29 d = family29 c" "pack_decode d = pack_decode c"
    using assms(4) by (auto simp: peers_def flag_def fun_eq_iff pack_decode_def cong: if_cong)
  have dh: "(if flag d DO_CRYPT then enigma2_decrypt (cipher d) hb else hb) = head"
    using assms(3) by (simp add: pr hb_def wheeled_def enigma2_inverse)
  have wr: "wire c h body = hb @ (if body = [] then [] else pack_encode c body)"
    by (simp add: wire_def hp hb_def)
  obtain v1 where r1: "RecvNet M (Socket d) (int HEADPACKLENGTH) (timeout d) v = Some (int HEADPACKLENGTH, hb, v1)"
      "delivers M v1 ((if body = [] then [] else pack_encode c body) @ rest)"
    using RecvNet_delivers [OF assms(11,5), of "int HEADPACKLENGTH" "timeout d"] lh
    by (auto simp: wr HEADPACKLENGTH_def)
  have disp: "NetHeadDispack head (family29 d) = (0, qs)" using hr(1) by (simp add: pr qs_def)
  have q: "qs ! T_LEN = of_nat (length body)" "qs ! PKG_LEN = of_nat (length bs)"
    using P(1,2) by (auto simp: qs_def wire_head_def Let_def head_places PARANUM_def)
  have si: "sint (of_nat (length body) :: u_int) = int (length body)" "sint (of_nat (length bs) :: u_int) = int (length bs)"
    using small_int P(3) assms(7) by simp_all
  have nz: "(of_nat (length body) :: u_int) = 0 \<longleftrightarrow> body = []" using si(1) by auto
  let ?h = "\<lparr>para = qs, data = None\<rparr>"
  show ?thesis
  proof (cases "bs = []")
    case True
    then have "RecvPack M Z malloc d v = Some (Ok (0, ?h, d), v1)"
      using r1(1) disp q(1) assms(8) by (simp add: RecvPack_def Let_def dh)
    then show ?thesis using True r1(2) assms(8) by (simp add: qs_def)
  next
    case False
    define d1 where "d1 = recv_buffer malloc (buffer_size d ?h) d"
    have d1: "RecvBuffer d1" "buffer_size d ?h \<le> RecvLen d1" "Socket d1 = Socket d" "flag d1 = flag c" "pack_decode d1 = pack_decode c"
      using recv_buffer_ok [of malloc "buffer_size d ?h" d] assms(6) pr
      by (auto simp: d1_def flag_def fun_eq_iff pack_decode_def pr(2) cong: if_cong)
    have T: "para_int ?h T_LEN = int (length body)" "para_int ?h PKG_LEN = int (length bs)" "0 < length body"
      using q si False assms(8) by (simp_all add: para_int_def)
    have sz: "sint (of_nat (length bs) + 1 :: u_int) = int (length bs) + 1"
        "sint (of_nat (length bs) + 1 + (of_nat (length body) + 1) :: u_int) = int (length bs) + int (length body) + 2"
      using small_int [of "length bs + 1"] small_int [of "length bs + length body + 2"] P(3) assms(7)
      by (simp_all add: ac_simps)
    have w: "of_nat (length body) = (of_nat (length bs) :: u_int) \<longleftrightarrow> length body = length bs"
      using si by (metis of_nat_eq_iff)
    have bz: "body_place d1 ?h = (if length body = length bs then 0 else int (length bs) + 1)"
        "buffer_size d ?h = (if length body = length bs then int (length bs) + 1 else int (length bs) + int (length body) + 2)"
      using assms(2,7) q w T(1,2) sz si d1(4) pr(1)
      by (auto simp: body_place_def buffer_size_def Let_def)
    then have fit: "0 \<le> body_place d1 ?h" "body_place d1 ?h + max (int (length body)) 1 \<le> RecvLen d1"
        "int (length bs) < RecvLen d1"
      using d1(2) T(3) by (auto split: if_splits)
    obtain v2 where r2: "RecvNet M (Socket d1) (int (length body)) 5 v1 = Some (int (length body), pack_encode c body, v2)"
        "delivers M v2 rest"
      using RecvNet_delivers [OF r1(2), of "Socket d1" "int (length body)" 5] assms(5,8) d1(3) T(3)
      by (auto simp: pack_encode_length)
    have crc: "para ?h ! PKG_CRC = ssh_crc32 (pack_encode c body)"
      using T(3) P(2) by (auto simp: qs_def wire_head_def Let_def head_places PARANUM_def)
    have op: "open_body Z d1 ?h (pack_encode c body) = (0, bs)"
    proof -
      have c: "\<not> (flag d1 CHECK_CRC \<and> ssh_crc32 (pack_encode c body) \<noteq> para ?h ! PKG_CRC)" using crc by simp
      have d: "pack_decode d1 (pack_encode c body) = body" using d1(5) pack_decode_encode [OF assms(3)] by simp
      show ?thesis
      proof (cases "length body = length bs")
        case True
        then have "body = bs" "body_place d1 ?h = 0" using assms(10) bz(1) by auto
        then show ?thesis unfolding open_body_def Let_def d if_not_P [OF c] by simp
      next
        case False
        then have z: "9 \<le> length body" "qlz_size_decompressed Z body = length bs" "qlz_decompress Z body = bs"
            "body_place d1 ?h \<noteq> 0" using assms(10) bz(1) by auto
        then show ?thesis unfolding open_body_def Let_def d if_not_P [OF c] using T by simp
      qed
    qed
    have "RecvPack M Z malloc d v = Some (Ok (0, \<lparr>para = qs, data = Some bs\<rparr>, d1), v2)"
      using r1(1) disp nz T r2(1) d1(1) fit op q(1)
      by (simp add: RecvPack_def Let_def dh d1_def [symmetric] list_update_beyond)
    then show ?thesis using r2(2) False by (simp add: qs_def)
  qed
qed

text \<open>C10: A packet survives the way from \<open>SendPack\<close> to \<open>RecvPack\<close>: however the writes are cut
  short and whatever pieces the stream arrives in, the receiver gets the header the sender
  gave, with the transmitted length, the checksum and the lower half of the protocol number in
  their places, and the data; what follows in the stream stays there for the next packet.
  This holds for every mode of the ciphers the key negotiation sets up and every buffer state,
  with and without the compressor.\<close>

theorem packet_round_trip:
  assumes "enigma2_init t0 bin_key len = Some (cipher c)" "key_of bin_key len \<noteq> []"
    "length (rot2 (e2_t t0)) = 256" "length (rot2 (e2_r t0)) = 256" "peers c d" "\<not> flag c UNDO_ZIP"
    "0 \<le> Socket c" "0 \<le> Socket d" "SendBuffer c \<or> SendLen c = 0" "\<forall>n. malloc n"
    "head_ok h bs" "zips Z bs" "accepts N"
  shows "\<exists>sent h' c' w'. SendPack N Z malloc c h w = Some (0, sent, h', c', w') \<and>
    (\<forall>(M :: 'm net) v rest. delivers M v (sent @ rest) \<longrightarrow>
      (\<exists>h'' d' v'. RecvPack M Z malloc d v = Some (Ok (0, h'', d'), v') \<and> delivers M v' rest \<and>
         data h'' = (if bs = [] then None else Some bs) \<and>
         (\<forall>k<PARANUM. k \<noteq> T_LEN \<and> k \<noteq> PKG_CRC \<longrightarrow>
            para h'' ! k = (if k = PROTO_NUM then para h ! k AND 0xFFFF else para h ! k))))"
proof -
  have wh: "wheeled c" using enigma2_init_ok [OF assms(2-4)] assms(1) by (auto simp: wheeled_def)
  obtain body c' h' w' where s: "SendPack N Z malloc c h w = Some (0, wire c h body, h', c', w')"
      "para h' = snd (NetHeadPack (wire_head c h body) (family29 c))" "length body \<le> length bs" "(body = []) = (bs = [])"
      "length (wire c h body) = HEADPACKLENGTH + length body"
      "body = bs \<or> 9 \<le> length body \<and> length body < length bs \<and>
         qlz_size_decompressed Z body = length bs \<and> qlz_decompress Z body = bs"
    by (rule SendPack_wire [OF assms(11,6,12,13,7,9,10)])
  let ?ps = "(wire_head c h body)[0 := wire_head c h body ! 0 AND 0xFFFF]"
  have "?ps ! k = (if k = PROTO_NUM then para h ! k AND 0xFFFF else para h ! k)"
    if "k < PARANUM" "k \<noteq> T_LEN" "k \<noteq> PKG_CRC" for k
    using that assms(11) by (auto simp: wire_head_def Let_def head_ok_def head_places PARANUM_def nth_list_update)
  then have "\<exists>h'' d' v'. RecvPack M Z malloc d v = Some (Ok (0, h'', d'), v') \<and> delivers M v' rest \<and>
      data h'' = (if bs = [] then None else Some bs) \<and> (\<forall>k<PARANUM. k \<noteq> T_LEN \<and> k \<noteq> PKG_CRC \<longrightarrow>
        para h'' ! k = (if k = PROTO_NUM then para h ! k AND 0xFFFF else para h ! k))"
    if "delivers M v (wire c h body @ rest)" for M :: "'m net" and v rest
    using RecvPack_wire [OF assms(11,6) wh assms(5,8,10) s(3-6) that] by fastforce
  then show ?thesis using s(1) by blast
qed

text \<open>A stream in a list of bytes, read and written one byte at a time, and a compressor that
  never gains.\<close>

definition pipe :: "bytes net" where
  "pipe = \<lparr>rd = (\<lambda>w n. (take 1 w, drop 1 w)), wr = (\<lambda>w b. (1, w)), yl = (\<lambda>w _ _. (0, w)),
     errno = (\<lambda>_. 0), nonblocking = True\<rparr>"

definition store :: zipper where
  "store = \<lparr>qlz_compress = id, qlz_size_decompressed = length, qlz_decompress = id\<rparr>"

lemma pipe_delivers: "delivers pipe bs bs"
proof (induction bs)
  case (Cons b bs)
  then show ?case by (intro delivers.piece) (auto simp: pipe_def Suc_le_eq)
qed (rule delivers.nothing)

theorem packet_round_trip_witness:
  "\<exists>c sent h'' d' v'. flag c DO_CRYPT \<and>
     RecvPack pipe store (\<lambda>_. True) c (sent @ [7]) = Some (Ok (0, h'', d'), v') \<and> data h'' = Some [65, 66] \<and>
     delivers pipe v' [7]"
proof -
  let ?t = "\<lparr>e2_t = blank_wheels, e2_r = blank_wheels, e2_crc = 0\<rparr>"
  have k: "key_of [65, 66] 2 \<noteq> []" and b: "length (rot2 blank_wheels) = 256" by (simp_all add: key_of_def blank_wheels_def)
  obtain K where K: "enigma2_init ?t [65, 66] 2 = Some K" using enigma2_init_ok [OF k, of ?t] b by auto
  let ?c = "\<lparr>Socket = 3, CryptFlg = 15, cipher = K, family29 = 5, MTU = 0, timeout = 0, SendLen = 0, SendBuffer = False,
    RecvLen = 0, RecvBuffer = False\<rparr>"
  let ?h = "\<lparr>para = [2, 0, 0, 0, 2, 0, 0, 0, 0], data = Some [65, 66]\<rparr>"
  have f: "peers ?c ?c" "\<not> flag ?c UNDO_ZIP" "flag ?c DO_CRYPT" "0 \<le> Socket ?c" "SendBuffer ?c \<or> SendLen ?c = 0"
    by (simp_all add: peers_def flag_def UNDO_ZIP_def DO_CRYPT_def)
  have h: "head_ok ?h [65, 66]" by (simp add: head_ok_def PARANUM_def PKG_LEN_def)
  have z: "zips store [65, 66]" by (simp add: zips_def store_def)
  have a: "accepts pipe" by (simp add: accepts_def pipe_def Suc_le_eq)
  have K': "enigma2_init ?t [65, 66] 2 = Some (cipher ?c)" and t: "length (rot2 (e2_t ?t)) = 256" "length (rot2 (e2_r ?t)) = 256"
    using K b by simp_all
  obtain sent where s: "\<And>M v rest. delivers (M :: bytes net) v (sent @ rest) \<Longrightarrow>
      \<exists>h'' d' v'. RecvPack M store (\<lambda>_. True) ?c v = Some (Ok (0, h'', d'), v') \<and> delivers M v' rest \<and>
         data h'' = (if [65, 66 :: byte] = [] then None else Some [65, 66])"
    using packet_round_trip [where 'm = bytes, OF K' k t f(1,2,4,4,5) _ h z a, of "\<lambda>_. True" "[]"] by blast
  from s [OF pipe_delivers] f(3) show ?thesis by (simp only: list.simps if_False) blast
qed

text \<open>The length of the body is not compared with the length of the data before the body is
  read: any packet that announces a body longer than its data, and no forwarding, makes a
  receiver without a buffer write past the one it allocates, whatever follows in the stream.\<close>

theorem long_body_overruns_buffer:
  assumes "wheels (e2_t (cipher d))" "wheels (e2_r (cipher d))" "length ps = PARANUM" "\<not> flag d UNDO_ZIP"
    "0 \<le> Socket d" "\<not> RecvBuffer d" "\<forall>n. malloc n" "0 \<le> sint (ps ! PKG_LEN)" "sint (ps ! PKG_LEN) < sint (ps ! T_LEN)"
    "head = fst (NetHeadPack ps (family29 d))"
    "delivers M v ((if flag d DO_CRYPT then enigma2_encrypt (cipher d) head else head) @ rest)"
  shows "\<exists>v'. RecvPack M Z malloc d v = Some (Overrun, v')"
proof -
  define hb where "hb = (if flag d DO_CRYPT then enigma2_encrypt (cipher d) head else head)"
  obtain ps' where hp: "NetHeadPack ps (family29 d) = (head, ps')" using assms(10) by (metis surjective_pairing)
  note hr = head_round_trip [OF assms(3) hp]
  let ?qs = "ps[0 := ps ! 0 AND 0xFFFF]"
  let ?h = "\<lparr>para = ?qs, data = None\<rparr>"
  have dh: "(if flag d DO_CRYPT then enigma2_decrypt (cipher d) hb else hb) = head"
    using enigma2_inverse [OF assms(1,2)] by (simp add: hb_def)
  have lh: "length hb = HEADPACKLENGTH" using hr(2) by (simp add: hb_def enigma2_encrypt_length)
  obtain v1 where r1: "RecvNet M (Socket d) (int HEADPACKLENGTH) (timeout d) v = Some (int HEADPACKLENGTH, hb, v1)"
    using RecvNet_delivers [OF assms(11) [folded hb_def] assms(5), of "int HEADPACKLENGTH" "timeout d"] lh
    by (auto simp: HEADPACKLENGTH_def)
  have q: "?qs ! T_LEN = ps ! T_LEN" "?qs ! PKG_LEN = ps ! PKG_LEN" by (simp_all add: head_places)
  have ne: "ps ! T_LEN \<noteq> 0" "ps ! T_LEN \<noteq> ps ! PKG_LEN" using assms(8,9) by auto
  have lt: "sint (ps ! T_LEN) < 2 ^ 31" using sint_lt [of "ps ! T_LEN"] by simp
  have s1: "sint (ps ! PKG_LEN + 1) = sint (ps ! PKG_LEN) + 1"
    using assms(8,9) lt by (simp add: sint_word_ariths signed_take_bit_int_eq_self)
  have "buffer_size d ?h = sint (ps ! PKG_LEN) + 1" "body_place c ?h = sint (ps ! PKG_LEN) + 1" if "CryptFlg c = CryptFlg d" for c
    using assms(4,9) ne that s1 unfolding buffer_size_def body_place_def flag_def para_int_def T_Connect.simps
    by (simp_all add: q Let_def)
  moreover define d1 where "d1 = recv_buffer malloc (buffer_size d ?h) d"
  moreover have "RecvBuffer d1" "RecvLen d1 = buffer_size d ?h" "CryptFlg d1 = CryptFlg d"
    using assms(6,7) by (simp_all add: d1_def recv_buffer_def Let_def)
  ultimately show ?thesis using r1 hr(1) dh ne assms(8,9)
    by (simp add: RecvPack_def Let_def q para_int_def d1_def [symmetric])
qed

theorem long_body_overruns_buffer_witness:
  "\<exists>d stream v'. flag d DO_CRYPT \<and> RecvPack pipe store (\<lambda>_. True) d stream = Some (Overrun, v')"
proof -
  let ?t = "\<lparr>e2_t = blank_wheels, e2_r = blank_wheels, e2_crc = 0\<rparr>"
  have k: "key_of [65, 66] 2 \<noteq> []" and b: "length (rot2 blank_wheels) = 256" by (simp_all add: key_of_def blank_wheels_def)
  obtain K :: ENIGMA2 where K: "wheels (e2_t K)" "wheels (e2_r K)" using enigma2_init_ok [OF k, of ?t] b by auto
  let ?d = "\<lparr>Socket = 3, CryptFlg = 15, cipher = K, family29 = 5, MTU = 0, timeout = 0, SendLen = 0, SendBuffer = False,
    RecvLen = 0, RecvBuffer = False\<rparr>"
  let ?ps = "[2, 0, 0, 0, 1, 5, 0, 0, 0] :: u_int list"
  let ?hd = "fst (NetHeadPack ?ps 5)"
  have f: "flag ?d DO_CRYPT" "\<not> flag ?d UNDO_ZIP" by (simp_all add: flag_def UNDO_ZIP_def DO_CRYPT_def)
  have "\<exists>v'. RecvPack pipe store (\<lambda>_. True) ?d (enigma2_encrypt K ?hd @ []) = Some (Overrun, v')"
    by (rule long_body_overruns_buffer [where d = ?d and ps = ?ps and head = ?hd and rest = "[]"]) (use K f pipe_delivers in \<open>simp_all add: PARANUM_def head_places\<close>)
  then show ?thesis using f(1) by blast
qed

text \<open>A read at the end of the stream leaves \<open>errno\<close> alone: while it is 0 a blocking \<open>RecvNet\<close> that
  still wants bytes reads for ever.\<close>

lemma RecvNet_spins:
  assumes "\<And>w n. rd N w n = ([], w)" "errno N w = 0" "\<not> nonblocking N" "0 \<le> socket" "0 < n"
  shows "RecvNet N socket n tmo w = None"
proof -
  have "\<not> (M = N \<and> m = n \<and> v = w \<and> buf = [] \<and> \<not> async)" if "recv_loop M m t async r buf v = Some x" for M m t async r buf v x
    by (rule recv_loop.raw_induct [OF _ that]) (use assms in \<open>auto simp: Let_def EAGAIN_def split: if_splits; metis\<close>)
  then have "recv_loop N n tmo False 0 [] w = None" by (cases "recv_loop N n tmo False 0 [] w") blast+
  then show ?thesis using assms(3,4) by (simp add: RecvNet_def)
qed

end
