(* ===== verification/Rpc.thy ===== *)
theory Rpc
  imports Sdbc_Prelude
begin

text \<open>What a function of the client or of the server sees of its connection: the packets it
  receives and sends through \<open>RecvPack\<close> and \<open>SendPack\<close> (the theory \<open>NetPkg\<close> is about those), the
  constants of \<open>sc.h\<close>, and the small functions every service uses: \<open>PutEvent.c\<close>,
  \<open>return_error.c\<close>, \<open>echo.c\<close> and \<open>EventCatch\<close> of \<open>client.c\<close>.\<close>

section \<open>Packets\<close>

text \<open>The header of \<open>sc.h\<close> as far as services read and set it: \<open>T_LEN\<close> and \<open>PKG_CRC\<close> are set by
  \<open>SendPack\<close>.  The numbers are the C values of type \<open>int\<close>; \<open>None\<close> is a null pointer, and a body
  received is followed by a null byte.\<close>

record T_NetHead =
  PROTO_NUM :: int
  ERRNO1 :: int
  ERRNO2 :: int
  PKG_REC_NUM :: int
  PKG_LEN :: int
  O_NODE :: int
  D_NODE :: int
  data :: "bytes option"

definition PACK_CONTINUE :: int where "PACK_CONTINUE = - (2 ^ 31)"
definition PACK_NOANSER :: int where "PACK_NOANSER = - (2 ^ 31) + 1"
definition PACK_STATUS :: int where "PACK_STATUS = - (2 ^ 31) + 2"
definition NOTLOGIN :: int where "NOTLOGIN = -6"
definition SDBC_BLKSZ :: nat where "SDBC_BLKSZ = 65536"
definition EINVAL :: int where "EINVAL = 22"

lemmas pack_marks = PACK_CONTINUE_def PACK_NOANSER_def PACK_STATUS_def

text \<open>One end of a connection: the number of packets received so far and the packets handed to
  \<open>SendPack\<close>, in order.\<close>

record link =
  received :: nat
  sent :: "T_NetHead list"

text \<open>The world of one end: what the k-th \<open>RecvPack\<close> and the k-th \<open>SendPack\<close> return, the event
  procedure of the connection (none for a null pointer), which may use the connection itself,
  and the address of this end.\<close>

record 'l peer =
  recv :: "nat \<Rightarrow> int \<times> T_NetHead"
  send :: "nat \<Rightarrow> int"
  Event_proc :: "(int \<Rightarrow> 'l link_scheme \<Rightarrow> int \<times> 'l link_scheme) option"
  LocalAddr :: int

definition RecvPack :: "'l peer \<Rightarrow> 'l link_scheme \<Rightarrow> int \<times> T_NetHead \<times> 'l link_scheme" where
  "RecvPack P l = (let (ret, h) = recv P (received l) in (ret, h, l\<lparr>received := received l + 1\<rparr>))"

definition SendPack :: "'l peer \<Rightarrow> T_NetHead \<Rightarrow> 'l link_scheme \<Rightarrow> int \<times> 'l link_scheme" where
  "SendPack P h l = (send P (length (sent l)), l\<lparr>sent := sent l @ [h]\<rparr>)"

text \<open>A string as the body of a packet: its length goes to \<open>PKG_LEN\<close>.\<close>

definition body :: "bytes \<Rightarrow> T_NetHead \<Rightarrow> T_NetHead" where
  "body s h = h\<lparr>data := Some s, PKG_LEN := int (length s)\<rparr>"

section \<open>Events\<close>

definition PutEvent :: "'l peer \<Rightarrow> int \<Rightarrow> 'l link_scheme \<Rightarrow> int \<times> 'l link_scheme" where
  "PutEvent P Evtno l = (case Event_proc P of None \<Rightarrow> (0, l) | Some f \<Rightarrow> f Evtno l)"

text \<open>\<open>EventCatch\<close> also puts the receive buffer aside while the procedure runs, so that packets it
  receives do not overwrite the answer; here the answer is a value.\<close>

definition EventCatch :: "'l peer \<Rightarrow> int \<Rightarrow> 'l link_scheme \<Rightarrow> int \<times> 'l link_scheme" where
  "EventCatch P Evtno l =
     (case Event_proc P of
        None \<Rightarrow> (0, l)
      | Some f \<Rightarrow> if Evtno = 0 then (0, l) else f Evtno l)"

section \<open>Answers\<close>

definition return_error :: "'l peer \<Rightarrow> (int \<Rightarrow> int) \<Rightarrow> T_NetHead \<Rightarrow> bytes option \<Rightarrow> 'l link_scheme
    \<Rightarrow> int \<times> T_NetHead \<times> 'l link_scheme" where
  "return_error P ntohl h msg l =
     (let h = h\<lparr>data := msg, PKG_REC_NUM := 0,
            PKG_LEN := (case msg of None \<Rightarrow> 0 | Some s \<Rightarrow> int (length s))\<rparr>;
          (ev, l) = PutEvent P (PROTO_NUM h mod 65536) l;
          h = h\<lparr>PROTO_NUM := ev, O_NODE := ntohl (LocalAddr P)\<rparr>;
          (ret, l) = SendPack P h l
      in (0, h\<lparr>ERRNO1 := ret\<rparr>, l))"

text \<open>\<open>reversln\<close> exchanges characters from both ends towards the middle; a line feed at the end
  stays there.  On the empty string it reads the byte before it (\<open>None\<close>).\<close>

function swap_loop :: "nat \<Rightarrow> nat \<Rightarrow> bytes \<Rightarrow> bytes" where
  "swap_loop p p1 s =
     (if p1 > p then swap_loop (p + 1) (p1 - 1) (s[p := s ! p1, p1 := s ! p]) else s)"
  by pat_completeness auto
termination by (relation "measure (\<lambda>(p, p1, s). p1 - p)") auto

declare swap_loop.simps [simp del]

definition reversln :: "bytes \<Rightarrow> bytes option" where
  "reversln str =
     (if str = [] then None
      else let p1 = length str - 1 in
        Some (swap_loop 0 (if str ! p1 = 0x0A then p1 - 1 else p1) str))"

text \<open>The body of a packet as \<open>reversln\<close> sees it: up to the first null byte.\<close>

definition c_text :: "bytes \<Rightarrow> bytes" where
  "c_text s = takeWhile (\<lambda>c. c \<noteq> 0) s"

definition Echo :: "'l peer \<Rightarrow> T_NetHead \<Rightarrow> 'l link_scheme \<Rightarrow> (int \<times> T_NetHead \<times> 'l link_scheme) option" where
  "Echo P h l =
     (if ERRNO2 h = PACK_NOANSER \<or> ERRNO2 h = PACK_CONTINUE then Some (0, h, l)
      else do {
        h \<leftarrow> (if PKG_LEN h > 0
             then do { s \<leftarrow> data h; r \<leftarrow> reversln (c_text s);
                       Some (h\<lparr>data := Some (r @ drop (length r) s)\<rparr>) }
             else Some h);
        let (ev, l) = PutEvent P (PROTO_NUM h) l;
            h = h\<lparr>PROTO_NUM := ev, ERRNO1 := 0, ERRNO2 := 0, PKG_REC_NUM := 0, O_NODE := LocalAddr P\<rparr>;
            (ret, l) = SendPack P h l
        in Some (0, h, l) })"

text \<open>The exchange reverses what is between the two places.\<close>

lemma swap_loop_rev:
  assumes "p1 < length s" "p \<le> p1 + 1"
  shows "swap_loop p p1 s = take p s @ rev (drop p (take (p1 + 1) s)) @ drop (p1 + 1) s"
  using assms
proof (induction p p1 s rule: swap_loop.induct)
  case (1 p p1 s)
  show ?case
  proof (cases "p < p1")
    case True
    let ?s = "s[p := s ! p1, p1 := s ! p]"
    have "swap_loop p p1 s = swap_loop (p + 1) (p1 - 1) ?s"
      using True by (subst swap_loop.simps) simp
    also have "\<dots> = take (p + 1) ?s @ rev (drop (p + 1) (take (p1 - 1 + 1) ?s)) @ drop (p1 - 1 + 1) ?s"
      using 1 True by simp
    also have "\<dots> = take p s @ rev (drop p (take (p1 + 1) s)) @ drop (p1 + 1) s"
    proof -
      have a: "take (p + 1) ?s = take p s @ [s ! p1]"
        using True 1(2) by (simp add: take_Suc_conv_app_nth)
      have b: "drop (p + 1) (take (p1 - 1 + 1) ?s) = drop (p + 1) (take p1 s)"
        using True by (simp add: take_update_swap drop_update_cancel list_update_beyond)
      have c: "drop (p1 - 1 + 1) ?s = s ! p # drop (p1 + 1) s"
        using True 1(2) by (simp add: Cons_nth_drop_Suc [symmetric] drop_update_cancel)
      have d: "drop p (take (p1 + 1) s) = s ! p # drop (p + 1) (take p1 s) @ [s ! p1]"
        using True 1(2) by (simp add: take_Suc_conv_app_nth Cons_nth_drop_Suc [symmetric])
      show ?thesis unfolding a b c d by simp
    qed
    finally show ?thesis .
  next
    case False
    then have "p = p1 \<or> p = p1 + 1" using 1(3) by linarith
    moreover have "drop p1 (take (p1 + 1) s) = [s ! p1]"
      using 1(2) by (simp add: take_Suc_conv_app_nth)
    ultimately show ?thesis using False 1(2)
      by (subst swap_loop.simps) (auto simp: Cons_nth_drop_Suc append_take_drop_id)
  qed
qed

lemma reversln_line: "s \<noteq> [] \<Longrightarrow> 0x0A \<noteq> last s \<Longrightarrow> reversln s = Some (rev s)"
  by (simp add: reversln_def swap_loop_rev last_conv_nth)

lemma reversln_line_feed: "s \<noteq> [] \<Longrightarrow> reversln (s @ [0x0A]) = Some (rev s @ [0x0A])"
  by (simp add: reversln_def nth_append swap_loop_rev)

section \<open>Sessions\<close>

text \<open>An end of a connection at its start, and one that receives the given packets.\<close>

definition at_start :: "'l link_scheme \<Rightarrow> bool" where
  "at_start l \<longleftrightarrow> received l = 0 \<and> sent l = []"

definition hearing :: "'l peer \<Rightarrow> T_NetHead list \<Rightarrow> 'l peer" where
  "hearing P hs = P\<lparr>recv := \<lambda>k. (0, hs ! k)\<rparr>"

text \<open>Sending succeeds and there are no events.\<close>

definition quiet :: "'l peer \<Rightarrow> bool" where
  "quiet P \<longleftrightarrow> (\<forall>k. send P k = 0) \<and> Event_proc P = None"

lemma hearing_simps [simp]: "recv (hearing P hs) k = (0, hs ! k)" "send (hearing P hs) = send P"
    "Event_proc (hearing P hs) = Event_proc P" "LocalAddr (hearing P hs) = LocalAddr P"
  by (simp_all add: hearing_def)

lemma quiet_simps: "quiet P \<Longrightarrow> send P k = 0" "quiet P \<Longrightarrow> PutEvent P e l = (0, l)"
    "quiet P \<Longrightarrow> EventCatch P e l = (0, l)" "quiet P \<Longrightarrow> Event_proc P = None"
  by (simp_all add: quiet_def PutEvent_def EventCatch_def)

lemma quiet_hearing [simp]: "quiet (hearing P hs) = quiet P"
  by (simp add: quiet_def)

end
