(* ===== verification/Servers.thy ===== *)
theory Servers
  imports Rpc Pack_Round_Trip
begin

text \<open>The two servers that give every connection a thread (\<open>src/scsrv/TPC_srv.c\<close>) or a process
  (\<open>src/scsrv/PPC_srv.c\<close>) of its own, with \<open>get_srvname.c\<close> and the other end of it, the reading
  of the table of services in \<open>src/sccli/getsvc.c\<close>.  A turn of a server deals with one packet;
  the services are functions of the application.  Listening, accepting and starting threads are
  not modelled.\<close>

section \<open>The state of a connection\<close>

text \<open>What the functions of the application see and change: \<open>only_do\<close> holds the number of a
  function.  The flag \<open>logined\<close> is a local variable of the server.\<close>

record session = link +
  only_do :: "nat option"
  timeout :: int
  o_timeout :: int

datatype handler = Init nat | Login | Srvname | Echoed | Only nat | Service nat

datatype outcome = Goes_on | Ends int

text \<open>The application: what its functions do, and the names of the table \<open>Function\<close> up to its
  end, an entry whose function is null.  A call of a null function or outside the table is
  \<open>None\<close>.\<close>

record 'm app =
  call :: "handler \<Rightarrow> T_NetHead \<Rightarrow> 'm session_scheme \<Rightarrow> int \<times> T_NetHead \<times> 'm session_scheme"
  names :: "bytes list"

definition funcaddr :: "'m app \<Rightarrow> int \<Rightarrow> handler option" where
  "funcaddr A n =
     (if 0 \<le> n \<and> n < int (length (names A))
      then Some (if n = 0 then Login else Service (nat n)) else None)"

section \<open>The table of services\<close>

definition srv_entry :: "nat \<Rightarrow> bytes \<Rightarrow> bytes" where
  "srv_entry i name = decimal (int i) @ 0x7C # name @ [0x7C]"

definition srv_text :: "bytes list \<Rightarrow> bytes" where
  "srv_text nms = concat (map (\<lambda>i. srv_entry i (nms ! i)) [1..<length nms])"

definition get_srvname :: "'l peer \<Rightarrow> bytes list option \<Rightarrow> T_NetHead \<Rightarrow> 'l link_scheme
    \<Rightarrow> (int \<times> T_NetHead \<times> 'l link_scheme) option" where
  "get_srvname P SRVFUNC h l =
     (case SRVFUNC of
        None \<Rightarrow>
          let h = body (chars ''SRVFUNC is empty!'')
                    (h\<lparr>ERRNO1 := -1, ERRNO2 := -1, O_NODE := LocalAddr P, PKG_REC_NUM := 0\<rparr>);
              (ret, l) = SendPack P h l
          in Some (ret, h, l)
      | Some nms \<Rightarrow>
          if length nms \<le> 1 then None
          else let h = body (srv_text nms) (h\<lparr>ERRNO1 := 0, ERRNO2 := 0, O_NODE := LocalAddr P,
                           PKG_REC_NUM := int (length nms) - 1\<rparr>);
                   (ret, l) = SendPack P h l
               in Some (0, h, l))"

text \<open>The client's table: \<open>slist_tpl\<close> and the loop of \<open>init_svc_no\<close> that fills \<open>srvlist\<close>, whose
  elements have 56 bytes.\<close>

definition slist_tpl :: "T_PkgType list" where
  "slist_tpl = [PkgType CH_INT 4 None No_Format (-1) 0, PkgType CH_CHAR 49 None No_Format 0 0,
                PkgType (-1) 0 None No_Format 0 0]"

definition srv_row :: "mem \<Rightarrow> int \<Rightarrow> srv_list option" where
  "srv_row m p = map_option (\<lambda>s. \<lparr>srv_no = s_val (rd m p 4), srv_name = s\<rparr>) (char_col m (p + 4) 49)"

fun read_services :: "strlib \<Rightarrow> mem \<Rightarrow> int \<Rightarrow> bytes \<Rightarrow> T_PkgType list \<Rightarrow> nat \<Rightarrow> mem option" where
  "read_services lib m lp p tpl 0 = Some m"
| "read_services lib m lp p tpl (Suc n) =
     (if p = [] then Some m
      else do { tpl \<leftarrow> laid_out tpl; (m, p) \<leftarrow> pkg_dispack lib m lp p tpl 0x7C;
                read_services lib m (lp + 56) p tpl n })"

section \<open>A thread per connection\<close>

definition tpc_login :: "'m app \<Rightarrow> T_NetHead \<Rightarrow> 'm session_scheme
    \<Rightarrow> ((handler \<times> int) list \<times> outcome \<times> int \<times> 'm session_scheme) option" where
  "tpc_login A h s =
     do { f \<leftarrow> funcaddr A 0;
          let (ret, h, s) = call A f h s;
              s = (if ret = 1 then s\<lparr>o_timeout := timeout s\<rparr> else s)
          in Some ([(f, ret)], if ret = -1 then Ends 0 else Goes_on, ret, s) }"

definition tpc_service :: "'m app \<Rightarrow> T_NetHead \<Rightarrow> int \<Rightarrow> 'm session_scheme
    \<Rightarrow> ((handler \<times> int) list \<times> outcome \<times> int \<times> 'm session_scheme) option" where
  "tpc_service A h logined s =
     (if logined = 0 then Some ([], Ends 0, logined, s)
      else if PROTO_NUM h > int (length (names A)) then Some ([], Ends 0, logined, s)
      else do { f \<leftarrow> funcaddr A (PROTO_NUM h);
                let (ret, h, s) = call A f h s
                in Some ([(f, ret)], if ret = -1 then Ends 0 else Goes_on, logined, s) })"

definition tpc_turn :: "'m session_ext peer \<Rightarrow> 'm app \<Rightarrow> int \<Rightarrow> 'm session_scheme
    \<Rightarrow> ((handler \<times> int) list \<times> outcome \<times> int \<times> 'm session_scheme) option" where
  "tpc_turn P A logined s =
     (let (ret, h, s) = RecvPack P s in
      if ret < 0 then Some ([], Ends 0, logined, s)
      else if PROTO_NUM h = 1 then
        do { (ret, h, s) \<leftarrow> Echo P h s; Some ([(Echoed, ret)], Goes_on, logined, s) }
      else if PROTO_NUM h = 65535 then Some ([], Ends 0, logined, s)
      else if PROTO_NUM h = 0 then
        if logined = 0 then tpc_login A h s
        else do { (ret, h, s) \<leftarrow> get_srvname P (Some (names A)) h s;
                  Some ([(Srvname, ret)], Goes_on, logined, s) }
      else (case only_do s of
          Some f \<Rightarrow> let (ret, h, s) = call A (Only f) h s in Some ([(Only f, ret)], Goes_on, logined, s)
        | None \<Rightarrow> tpc_service A h logined s))"

text \<open>The start of \<open>thread_work\<close>: key is the result of \<open>mk_clikey\<close>; the main thread passes the
  function \<open>conn_init\<close> in \<open>only_do\<close>.\<close>

definition tpc_start :: "'m app \<Rightarrow> int \<Rightarrow> T_NetHead \<Rightarrow> 'm session_scheme
    \<Rightarrow> (handler \<times> int) list \<times> outcome \<times> 'm session_scheme" where
  "tpc_start A key h s =
     (let init = only_do s; s = s\<lparr>only_do := None\<rparr> in
      if key < 0 then ([], Ends 0, s)
      else case init of None \<Rightarrow> ([], Goes_on, s)
        | Some f \<Rightarrow> let (ret, h, s) = call A (Init f) h s in ([(Init f, ret)], Goes_on, s))"

partial_function (option) tpc_loop :: "'m session_ext peer \<Rightarrow> 'm app \<Rightarrow> (handler \<times> int) list \<Rightarrow> int
    \<Rightarrow> 'm session_scheme \<Rightarrow> ((handler \<times> int) list \<times> 'm session_scheme) option" where
  "tpc_loop P A done logined s =
     do { (acts, out, logined, s) \<leftarrow> tpc_turn P A logined s;
          if out = Goes_on then tpc_loop P A (done @ acts) logined s else Some (done @ acts, s) }"

definition thread_work :: "'m session_ext peer \<Rightarrow> 'm app \<Rightarrow> int \<Rightarrow> T_NetHead \<Rightarrow> 'm session_scheme
    \<Rightarrow> ((handler \<times> int) list \<times> 'm session_scheme) option" where
  "thread_work P A key h s =
     (let (acts, out, s) = tpc_start A key h s
      in if out = Goes_on then tpc_loop P A acts 0 s else Some (acts, s))"

section \<open>A process per connection\<close>

text \<open>\<open>func0\<close> is what \<open>Function[0]\<close> holds: the login, later \<open>get_srvname\<close>, which finds the same
  table in \<open>SRVFUNC\<close>.\<close>

definition ppc_call :: "'m session_ext peer \<Rightarrow> 'm app \<Rightarrow> handler \<Rightarrow> int \<Rightarrow> T_NetHead \<Rightarrow> 'm session_scheme
    \<Rightarrow> (handler \<times> int \<times> 'm session_scheme) option" where
  "ppc_call P A func0 n h s =
     do { f \<leftarrow> funcaddr A n;
          if n = 0 \<and> func0 = Srvname
          then do { (ret, h, s) \<leftarrow> get_srvname P (Some (names A)) h s; Some (Srvname, ret, s) }
          else let (ret, h, s) = call A f h s in Some (f, ret, s) }"

definition not_login :: "T_NetHead \<Rightarrow> T_NetHead" where
  "not_login h = h\<lparr>data := Some (chars ''Not Login!''), ERRNO1 := NOTLOGIN, PKG_LEN := 11\<rparr>"

definition ppc_turn :: "'m session_ext peer \<Rightarrow> 'm app \<Rightarrow> handler \<Rightarrow> int \<Rightarrow> 'm session_scheme
    \<Rightarrow> ((handler \<times> int) list \<times> outcome \<times> handler \<times> int \<times> 'm session_scheme) option" where
  "ppc_turn P A func0 logined s =
     (let (cc, h, s) = RecvPack P s in
      if cc < 0 then Some ([], Ends cc, func0, logined, s)
      else if PROTO_NUM h = 1 then
        do { (f, ret, s) \<leftarrow> ppc_call P A func0 1 h s; Some ([(f, ret)], Goes_on, func0, logined, s) }
      else if PROTO_NUM h = 65535 then Some ([], Ends 0, func0, logined, s)
      else if logined = 0 then
        if PROTO_NUM h = 0 then
          do { (f, ret, s) \<leftarrow> ppc_call P A func0 0 h s;
               Some (if ret = -1 then ([(f, ret)], Ends 0, func0, ret, s)
                     else ([(f, ret)], Goes_on, if only_do s = None then Srvname else func0, ret, s)) }
        else let (ret, s) = SendPack P (not_login h) s in Some ([], Goes_on, func0, logined, s)
      else case only_do s of
          Some f \<Rightarrow> let (cc, h, s) = call A (Only f) h s
                    in Some ([(Only f, cc)], if cc = -1 then Ends cc else Goes_on, func0, logined, s)
        | None \<Rightarrow>
            do { (f, cc, s) \<leftarrow> ppc_call P A func0 (PROTO_NUM h) h s;
                 Some ([(f, cc)], if cc = -1 then Ends 0 else Goes_on, func0, logined, s) })"

partial_function (option) ppc_loop :: "'m session_ext peer \<Rightarrow> 'm app \<Rightarrow> (handler \<times> int) list \<Rightarrow> handler
    \<Rightarrow> int \<Rightarrow> 'm session_scheme \<Rightarrow> (int \<times> (handler \<times> int) list \<times> 'm session_scheme) option" where
  "ppc_loop P A done func0 logined s =
     do { (acts, out, func0, logined, s) \<leftarrow> ppc_turn P A func0 logined s;
          (case out of Goes_on \<Rightarrow> ppc_loop P A (done @ acts) func0 logined s
             | Ends r \<Rightarrow> Some (r, done @ acts, s)) }"

definition PPC_srv :: "'m session_ext peer \<Rightarrow> 'm app \<Rightarrow> nat option \<Rightarrow> int \<Rightarrow> T_NetHead \<Rightarrow> 'm session_scheme
    \<Rightarrow> (int \<times> (handler \<times> int) list \<times> 'm session_scheme) option" where
  "PPC_srv P A NetInit key h s =
     (if key < 0 then Some (-1, [], s)
      else let (acts, s) = (case NetInit of None \<Rightarrow> ([], s)
             | Some f \<Rightarrow> let (ret, h, s) = call A (Init f) h s in ([(Init f, ret)], s))
           in ppc_loop P A acts Login 0 s)"

section \<open>Logging in to a thread\<close>

text \<open>What a connection of \<open>TPC_srv\<close> can come to: the calls made so far, the login flag and the
  state.\<close>

inductive tpc_run :: "'m session_ext peer \<Rightarrow> 'm app \<Rightarrow> int \<Rightarrow> T_NetHead \<Rightarrow> 'm session_scheme
    \<Rightarrow> (handler \<times> int) list \<Rightarrow> int \<Rightarrow> 'm session_scheme \<Rightarrow> bool" for P A key h s0 where
  start: "tpc_start A key h s0 = (acts, Goes_on, s) \<Longrightarrow> tpc_run P A key h s0 acts 0 s"
| turn: "tpc_run P A key h s0 acts logined s \<Longrightarrow>
    tpc_turn P A logined s = Some (more_acts, Goes_on, logined', s') \<Longrightarrow>
    tpc_run P A key h s0 (acts @ more_acts) logined' s'"

lemma funcaddr_Some: "funcaddr A n = Some f \<longleftrightarrow>
    0 \<le> n \<and> n < int (length (names A)) \<and> f = (if n = 0 then Login else Service (nat n))"
  by (auto simp: funcaddr_def)

lemma tpc_service_calls:
  assumes "tpc_service A h logined s = Some (acts, out, logined', s')" "PROTO_NUM h \<noteq> 0"
  shows "logined' = logined"
    and "(f, ret) \<in> set acts \<Longrightarrow> logined \<noteq> 0 \<and> 0 < PROTO_NUM h \<and> f = Service (nat (PROTO_NUM h)) \<and>
      PROTO_NUM h < int (length (names A))"
  using assms by (auto simp: tpc_service_def funcaddr_Some Let_def split: if_splits bind_splits prod.splits)

lemma tpc_login_calls:
  assumes "tpc_login A h s = Some (acts, out, logined', s')"
  shows "acts = [(Login, logined')]" "out = Goes_on \<Longrightarrow> logined' \<noteq> -1"
  using assms by (auto simp: tpc_login_def funcaddr_Some Let_def split: if_splits bind_splits prod.splits)

text \<open>The kinds of turn.\<close>

lemma tpc_turn_calls:
  assumes "tpc_turn P A logined s = Some (acts, out, logined', s')"
  shows "logined' = logined \<and> (\<forall>ret. (Login, ret) \<notin> set acts) \<and>
      (\<forall>n ret. (Service n, ret) \<in> set acts \<longrightarrow> logined \<noteq> 0 \<and> 2 \<le> n \<and> n < length (names A)) \<or>
    logined = 0 \<and> acts = [(Login, logined')] \<and> (out = Goes_on \<longrightarrow> logined' \<noteq> -1)"
proof -
  obtain ret h t where r: "RecvPack P s = (ret, h, t)" by (cases "RecvPack P s")
  note eq = assms [unfolded tpc_turn_def r Let_def prod.case]
  consider "ret < 0" | "\<not> ret < 0" "PROTO_NUM h = 1" | "\<not> ret < 0" "PROTO_NUM h = 65535"
    | "\<not> ret < 0" "PROTO_NUM h = 0" "logined = 0" | "\<not> ret < 0" "PROTO_NUM h = 0" "logined \<noteq> 0"
    | f where "\<not> ret < 0" "PROTO_NUM h \<notin> {0, 1, 65535}" "only_do t = Some f"
    | "\<not> ret < 0" "PROTO_NUM h \<notin> {0, 1, 65535}" "only_do t = None"
    by (cases "only_do t") blast+
  then show ?thesis
  proof cases
    case 4
    then have "tpc_login A h t = Some (acts, out, logined', s')" using eq by simp
    then show ?thesis using tpc_login_calls 4(3) by metis
  next
    case 7
    then have e: "tpc_service A h logined t = Some (acts, out, logined', s')" using eq by simp
    have p: "PROTO_NUM h \<noteq> 0" "PROTO_NUM h \<noteq> 1" using 7(2) by auto
    note c = tpc_service_calls [OF e p(1)]
    have "logined \<noteq> 0 \<and> 2 \<le> n \<and> n < length (names A)" if "(Service n, ret) \<in> set acts" for n ret
      using c(2) [OF that] p(2) by auto
    moreover have "(Login, ret) \<notin> set acts" for ret using c(2) [of Login ret] by auto
    ultimately show ?thesis using c(1) by blast
  qed (use eq in \<open>auto split: bind_splits prod.splits\<close>)
qed

lemma tpc_run_login:
  assumes "tpc_run P A key h s0 acts logined s"
  shows "logined \<noteq> 0 \<longrightarrow> (Login, logined) \<in> set acts \<and> logined \<noteq> -1"
  using assms
proof (induction rule: tpc_run.induct)
  case (turn acts logined s more_acts logined' s')
  then show ?case using tpc_turn_calls [OF turn.hyps(2)] by auto
qed simp

text \<open>C22: A server that gives every connection a thread calls a service function, which has then a
  number from 2 and is in the table, only for a client whose login call before returned
  something other than 0 and -1.\<close>

theorem tpc_serves_after_login:
  assumes "tpc_run P A key h s0 acts logined s"
    and "tpc_turn P A logined s = Some (more_acts, out, logined', s')"
    and "(Service n, r) \<in> set more_acts"
  shows "2 \<le> n \<and> n < length (names A) \<and> (\<exists>ret. ret \<noteq> 0 \<and> ret \<noteq> -1 \<and> (Login, ret) \<in> set acts)"
proof -
  have "logined \<noteq> 0 \<and> 2 \<le> n \<and> n < length (names A)"
    using tpc_turn_calls [OF assms(2)] assms(3) by auto
  then show ?thesis using tpc_run_login [OF assms(1)] by blast
qed

text \<open>A client that has logged in and asks for the number right behind the last service makes
  \<open>TPC_srv\<close> call the null function that ends the table; only larger numbers are refused.\<close>

theorem tpc_number_behind_table:
  assumes "logined \<noteq> 0" "RecvPack P s = (0, h, t)" "only_do t = None"
    and "PROTO_NUM h = int (length (names A))" "2 \<le> length (names A)" "length (names A) < 65535"
  shows "tpc_turn P A logined s = None"
  using assms by (auto simp: tpc_turn_def tpc_service_def funcaddr_def)

section \<open>Logging in to a process\<close>

inductive ppc_run :: "'m session_ext peer \<Rightarrow> 'm app \<Rightarrow> handler \<Rightarrow> int \<Rightarrow> 'm session_scheme
    \<Rightarrow> (handler \<times> int) list \<Rightarrow> handler \<Rightarrow> int \<Rightarrow> 'm session_scheme \<Rightarrow> bool" for P A func00 logined0 s0 where
  start: "ppc_run P A func00 logined0 s0 [] func00 logined0 s0"
| turn: "ppc_run P A func00 logined0 s0 acts func0 logined s \<Longrightarrow>
    ppc_turn P A func0 logined s = Some (more_acts, Goes_on, func0', logined', s') \<Longrightarrow>
    ppc_run P A func00 logined0 s0 (acts @ more_acts) func0' logined' s'"

lemma ppc_call_srvname:
  "ppc_call P A Srvname 0 h s = Some (f, ret, s') \<Longrightarrow> f = Srvname \<and> ret = 0"
  by (auto simp: ppc_call_def get_srvname_def Let_def split: bind_splits if_splits prod.splits)

lemma ppc_call_one: "ppc_call P A func0 1 h s = Some (f, ret, s') \<Longrightarrow> f = Service 1"
  by (auto simp: ppc_call_def funcaddr_Some Let_def split: bind_splits prod.splits)

lemma ppc_turn_stuck:
  assumes "ppc_turn P A Srvname 0 s = Some (acts, Goes_on, func0', logined', s')"
  shows "func0' = Srvname \<and> logined' = 0 \<and> fst ` set acts \<subseteq> {Srvname, Service 1}"
proof -
  obtain ret h t where r: "RecvPack P s = (ret, h, t)" by (cases "RecvPack P s")
  note eq = assms [unfolded ppc_turn_def r Let_def prod.case]
  show ?thesis using eq ppc_call_srvname [of P A h t] ppc_call_one [of P A Srvname h t]
    by (auto split: bind_splits prod.splits if_splits)
qed

text \<open>A login that \<open>PPC_srv\<close> answers with 0 can not be repeated: \<open>Function[0]\<close> is \<open>get_srvname\<close>
  from then on, whose result 0 is taken for another failed login, so the client is never logged
  in and no service but \<open>Function[1]\<close> is called for it.\<close>

theorem ppc_failed_login_is_final:
  assumes "ppc_turn P A Login 0 s0 = Some ([(Login, 0)], Goes_on, func0, 0, s)" "only_do s = None"
    and "ppc_run P A func0 0 s acts func0' logined s'"
  shows "logined = 0 \<and> func0' = Srvname \<and> fst ` set acts \<subseteq> {Srvname, Service 1}"
proof -
  obtain ret h t where r: "RecvPack P s0 = (ret, h, t)" by (cases "RecvPack P s0")
  have f: "func0 = Srvname"
    using assms(1,2) ppc_call_one [of P A Login h t]
    by (auto simp: ppc_turn_def r Let_def split: bind_splits prod.splits if_splits)
  show ?thesis using assms(3) unfolding f
  proof (induction rule: ppc_run.induct)
    case (turn acts func0 logined s more_acts func0' logined' s')
    then show ?case using ppc_turn_stuck [of P A s more_acts func0' logined' s'] by auto
  qed simp
qed

section \<open>The numbers of the services\<close>

definition plain_service :: "bytes \<Rightarrow> bool" where
  "plain_service s \<longleftrightarrow> ascii s \<and> length s < 49 \<and> set s \<inter> {0, 0x0A, 0x5C, 0x7C} = {}"

abbreviation "slist_tpl' \<equiv> [PkgType CH_INT 4 None No_Format 0 0, PkgType CH_CHAR 49 None No_Format 4 0,
  PkgType (-1) 0 None No_Format 56 4]"

lemma laid_slist: "laid_out slist_tpl = Some slist_tpl'" "laid_out slist_tpl' = Some slist_tpl'"
  by code_simp (simp add: laid_out_def)

lemma plain_esc: "plain_service s \<Longrightarrow> concat (map (esc1 0x7C) s) = s"
  by (induction s) (auto simp: plain_service_def esc1_def ESC_CHAR_def ascii_def)

lemma takeWhile_bar: "0x7C \<notin> set s \<Longrightarrow> takeWhile (\<lambda>c. c \<noteq> 0x7C) (s @ 0x7C # r) = s"
  by (subst takeWhile_append2) auto

lemma ascii_append [simp]: "ascii (s @ r) \<longleftrightarrow> ascii s \<and> ascii r" "ascii (c # r) \<longleftrightarrow> c < 0x80 \<and> ascii r"
  "ascii []"
  by (auto simp: ascii_def)

lemma at_bar:
  assumes "strproc_ok lib" "ascii (s @ 0x7C # r)" "0x7C \<notin> set s"
  shows "stptok_pos lib (s @ 0x7C # r) [0x7C] = length s"
  using assms takeWhile_bar [of s r] by (simp add: strproc_ok_def)

text \<open>One row of the table.\<close>

lemma dispack_row:
  assumes "strproc_ok lib" "plain_service name" "ascii rest"
  shows "pkg_dispack lib m p (srv_entry i name @ rest) slist_tpl' 0x7C =
    Some (wr (wr m p (le_put 4 (int i))) (p + 4) (name @ [0]), rest)"
proof -
  let ?e = "srv_entry i name @ rest" and ?n = "name @ 0x7C # rest"
  have e: "?e = decimal (int i) @ 0x7C # ?n" by (simp add: srv_entry_def)
  have name: "ascii name" "0x7C \<notin> set name" "length name < 49" using assms(2) by (auto simp: plain_service_def)
  have dec: "ascii (decimal (int i))" "0x7C \<notin> set (decimal (int i))" "decimal (int i) \<noteq> []"
    using decimal_chars bar_delimiter by auto
  have p1: "stptok_pos lib ?e [0x7C] = length (decimal (int i))"
    unfolding e by (rule at_bar) (use assms name dec in simp_all)
  have p2: "stptok_pos lib ?n [0x7C] = length name"
    by (rule at_bar) (use assms name in simp_all)
  obtain r where c1: "put_str_one lib m p (decimal (int i)) (PkgType CH_INT 4 None No_Format 0 0) 0x7C =
      Some (wr m p (le_put 4 (int i)), r)"
    using put_int [of "PkgType CH_INT 4 None No_Format 0 0" lib m p False "int i" "0x7C"]
    by (auto simp: int_col_def width_def)
  have c2: "put_str_one lib m' p name (PkgType CH_CHAR 49 None No_Format 4 0) 0x7C =
      Some (wr m' (p + 4) (name @ [0]), 1)" for m'
    using put_text [of lib "PkgType CH_CHAR 49 None No_Format 4 0" name "0x7C" m' p] assms name bar_delimiter
      plain_esc [OF assms(2)] by (simp add: text_col_def)
  show ?thesis
    using c1 c2 p1 [unfolded e] p2 dec(3) unfolding e
    by (simp add: pkg_dispack.simps laid_slist dispack_cols.simps [of _ _ _ _ "_ # _"] NOSELECT_def nth_append)
qed

lemma char_col_cong: "(\<And>a. p \<le> a \<Longrightarrow> a < p + len \<Longrightarrow> m' a = m a) \<Longrightarrow> 0 < len \<Longrightarrow>
    char_col m' p len = char_col m p len"
  by (auto simp: char_col_def rd_def intro!: arg_cong [where f = "takeWhile _"])

lemma srv_row_cong:
  assumes "\<And>a. p \<le> a \<Longrightarrow> a < p + 56 \<Longrightarrow> m' a = m a"
  shows "srv_row m' p = srv_row m p"
proof -
  have "rd m' p 4 = rd m p 4" using assms by (simp add: rd_def)
  moreover have "char_col m' (p + 4) 49 = char_col m (p + 4) 49" using assms by (intro char_col_cong) auto
  ultimately show ?thesis by (simp add: srv_row_def)
qed

lemma le_val_le_put: "le_val (le_put n v) = v mod 256 ^ n"
proof (induction n arbitrary: v)
  case (Suc n)
  have "uint (of_int v :: byte) = v mod 256" by (simp add: uint_word_of_int)
  then show ?case using Suc [of "v div 256"] by (simp add: zmod_zmult2_eq)
qed simp

lemma s_val_le_put: "0 \<le> v \<Longrightarrow> v < 2 ^ 31 \<Longrightarrow> s_val (le_put 4 v) = v"
  by (simp add: s_val_def le_val_le_put Let_def)

lemma srv_row_written:
  assumes "plain_service name" "i < 2 ^ 31"
  shows "srv_row (wr (wr m p (le_put 4 (int i))) (p + 4) (name @ [0])) p =
    Some \<lparr>srv_no = int i, srv_name = name\<rparr>"
proof -
  let ?m = "wr (wr m p (le_put 4 (int i))) (p + 4) (name @ [0])"
  have "rd ?m p 4 = rd (wr m p (le_put 4 (int i))) p (length (le_put 4 (int i)))"
    by (auto simp: rd_def wr_other)
  then have "s_val (rd ?m p 4) = int i" using assms(2) by (simp only: rd_wr_same) (simp add: s_val_le_put)
  moreover have "rd ?m (p + 4) (length name + 1) = name @ [0]"
    using rd_wr_same [of _ "p + 4" "name @ [0]"] by simp
  then have "char_col ?m (p + 4) 49 = Some name"
    by (intro char_col_wr) (use assms(1) in \<open>auto simp: plain_service_def\<close>)
  ultimately show ?thesis by (simp add: srv_row_def)
qed

lemma srv_entry_ascii: "plain_service name \<Longrightarrow> ascii (srv_entry i name)"
  using decimal_chars(2) by (simp add: srv_entry_def plain_service_def)

lemma read_services_rows:
  assumes "strproc_ok lib"
  shows "(\<forall>(i, name)\<in>set xs. plain_service name \<and> i < 2 ^ 31) \<Longrightarrow> tpl \<in> {slist_tpl, slist_tpl'} \<Longrightarrow>
    length xs \<le> n \<Longrightarrow>
    \<exists>m'. read_services lib m lp (concat (map (\<lambda>(i, name). srv_entry i name) xs)) tpl n = Some m' \<and>
      (\<forall>a<lp. m' a = m a) \<and>
      (\<forall>j<length xs. srv_row m' (lp + 56 * int j) = Some \<lparr>srv_no = int (fst (xs ! j)), srv_name = snd (xs ! j)\<rparr>)"
proof (induction xs arbitrary: m lp tpl n)
  case Nil
  then show ?case by (cases n) auto
next
  case (Cons x xs)
  obtain i name where x: "x = (i, name)" by fastforce
  let ?rest = "concat (map (\<lambda>(i, name). srv_entry i name) xs)"
  let ?m = "wr (wr m lp (le_put 4 (int i))) (lp + 4) (name @ [0])"
  obtain k where n: "n = Suc k" "length xs \<le> k" using Cons.prems(3) by (cases n) auto
  have name: "plain_service name" "i < 2 ^ 31" using Cons.prems(1) x by auto
  have rest: "ascii ?rest" using Cons.prems(1) srv_entry_ascii by (auto simp: ascii_def)
  obtain m' where m': "read_services lib ?m (lp + 56) ?rest slist_tpl' k = Some m'"
      "\<And>a. a < lp + 56 \<Longrightarrow> m' a = ?m a"
      "\<And>j. j < length xs \<Longrightarrow> srv_row m' (lp + 56 + 56 * int j) =
        Some \<lparr>srv_no = int (fst (xs ! j)), srv_name = snd (xs ! j)\<rparr>"
    using Cons.IH [of slist_tpl' k ?m "lp + 56"] Cons.prems(1) n(2) by auto
  have row: "srv_row m' lp = Some \<lparr>srv_no = int i, srv_name = name\<rparr>"
    using srv_row_cong [of lp m' ?m] m'(2) srv_row_written [OF name] by simp
  have rows: "srv_row m' (lp + 56 * int j) =
      Some \<lparr>srv_no = int (fst ((x # xs) ! j)), srv_name = snd ((x # xs) ! j)\<rparr>" if "j < length (x # xs)" for j
    using that row m'(3) [of "j - 1"] x by (cases j) (auto simp: algebra_simps)
  have "length name < 49" using name(1) by (simp add: plain_service_def)
  then have below: "\<forall>a<lp. m' a = m a" using m'(2) by (auto simp: wr_other)
  have ne: "srv_entry i name \<noteq> []" by (simp add: srv_entry_def)
  have "laid_out tpl = Some slist_tpl'" using Cons.prems(2) laid_slist by auto
  then have "read_services lib m lp (srv_entry i name @ ?rest) tpl n = Some m'"
    using ne dispack_row [OF assms name(1) rest, of m lp i] m'(1) unfolding n by simp
  then show ?case using below rows x by (intro exI [of _ m']) auto
qed

lemma find_position:
  assumes "distinct (tl nms)" "1 \<le> j" "j < length nms"
  shows "find (\<lambda>i. nms ! i = nms ! j) [1..<length nms] = Some j"
proof (cases "find (\<lambda>i. nms ! i = nms ! j) [1..<length nms]")
  case None
  then show ?thesis using assms by (auto simp: find_None_iff)
next
  case (Some i)
  then have i: "1 \<le> i" "i < length nms" "nms ! i = nms ! j"
    by (auto simp: find_Some_iff nth_upt)
  then have "tl nms ! (i - 1) = tl nms ! (j - 1)" using assms by (simp add: nth_tl)
  then have "i - 1 = j - 1" using assms i by (simp add: nth_eq_iff_index_eq)
  then show ?thesis using Some i assms by simp
qed

lemma srv_text_rows:
  "srv_text nms = concat (map (\<lambda>(i, name). srv_entry i name) (map (\<lambda>i. (i, nms ! i)) [1..<length nms]))"
  by (simp add: srv_text_def comp_def)

lemma services_lookup:
  assumes "2 \<le> length nms" "distinct (tl nms)"
    and "rows = map (\<lambda>i. \<lparr>srv_no = int i, srv_name = nms ! i\<rparr>) [1..<length nms]"
  shows "\<exists>T. mk_srv_hash rows = Some T \<and>
    (\<forall>key. get_srv_no (Some \<lparr>srvn = int (length rows), srv_hash = Some T, srvlist = Some rows, usage = 0\<rparr>) key =
      Some (case find (\<lambda>i. nms ! i = key) [1..<length nms] of None \<Rightarrow> 1 | Some i \<Rightarrow> int i))"
proof -
  have ne: "rows \<noteq> []" using assms(1,3) by auto
  obtain T where T: "mk_srv_hash rows = Some T" using get_srv_no_correct [OF ne] by blast
  have "get_srv_no (Some \<lparr>srvn = int (length rows), srv_hash = Some T, srvlist = Some rows, usage = 0\<rparr>) key =
      Some (case find (\<lambda>i. nms ! i = key) [1..<length nms] of None \<Rightarrow> 1 | Some i \<Rightarrow> int i)" for key
  proof -
    obtain r where r: "get_srv_no (Some \<lparr>srvn = int (length rows), srv_hash = Some T, srvlist = Some rows,
          usage = 0\<rparr>) key = Some r"
        "if key \<in> srv_name ` set rows then \<exists>s\<in>set rows. srv_name s = key \<and> srv_no s = r else r = 1"
      using get_srv_no_correct [OF ne, of 0 key] T by auto
    show ?thesis
    proof (cases "key \<in> srv_name ` set rows")
      case True
      then obtain j where "1 \<le> j" "j < length nms" "nms ! j = key" "r = int j"
        using r(2) assms(3) by auto
      then show ?thesis using r(1) find_position [OF assms(2), of j] by simp
    next
      case False
      then have "find (\<lambda>i. nms ! i = key) [1..<length nms] = None"
        using assms(3) by (auto simp: find_None_iff image_image)
      then show ?thesis using r False by simp
    qed
  qed
  then show ?thesis using T by blast
qed

text \<open>C21: A client that fetched the table of a server calls every service by the number it has in
  the server's table \<open>Function\<close>, and asks \<open>Echo\<close>, number 1, for a name the server does not have:
  the text of \<open>get_srvname\<close>, read by \<open>init_svc_no\<close> and indexed by \<open>mk_srv_hash\<close>, answers
  \<open>get_srv_no\<close> so.\<close>

theorem service_numbers_agree:
  assumes "strproc_ok lib" "2 \<le> length nms" "length nms < 2 ^ 31" "distinct (tl nms)"
    and "\<forall>name\<in>set (tl nms). plain_service name"
    and "get_srvname P (Some nms) h l = Some (r, h', l')"
  shows "\<exists>txt n m rows T. data h' = Some txt \<and> PKG_REC_NUM h' = int n \<and>
    read_services lib m0 lp txt slist_tpl n = Some m \<and>
    map (\<lambda>i. srv_row m (lp + 56 * int i)) [0..<n] = map Some rows \<and> mk_srv_hash rows = Some T \<and>
    (\<forall>key. get_srv_no (Some \<lparr>srvn = int n, srv_hash = Some T, srvlist = Some rows, usage = 0\<rparr>) key =
      Some (case find (\<lambda>i. nms ! i = key) [1..<length nms] of None \<Rightarrow> 1 | Some i \<Rightarrow> int i))"
proof -
  let ?n = "length nms - 1" and ?xs = "map (\<lambda>i. (i, nms ! i)) [1..<length nms]"
  let ?rows = "map (\<lambda>i. \<lparr>srv_no = int i, srv_name = nms ! i\<rparr>) [1..<length nms]"
  have h': "data h' = Some (srv_text nms)" "PKG_REC_NUM h' = int ?n"
    using assms(2,6) by (auto simp: get_srvname_def body_def SendPack_def Let_def of_nat_diff)
  have "plain_service (nms ! i)" if "1 \<le> i" "i < length nms" for i
  proof -
    have "tl nms ! (i - 1) = nms ! i" "i - 1 < length (tl nms)" using that by (simp_all add: nth_tl)
    then show ?thesis using assms(5) nth_mem by metis
  qed
  then have "\<forall>(i, name)\<in>set ?xs. plain_service name \<and> i < 2 ^ 31" using assms(3) by auto
  then obtain m where m: "read_services lib m0 lp (srv_text nms) slist_tpl ?n = Some m"
      "\<And>j. j < ?n \<Longrightarrow> srv_row m (lp + 56 * int j) =
        Some \<lparr>srv_no = int (fst (?xs ! j)), srv_name = snd (?xs ! j)\<rparr>"
    using read_services_rows [OF assms(1), of ?xs slist_tpl ?n m0 lp] unfolding srv_text_rows by auto
  have "map (\<lambda>i. srv_row m (lp + 56 * int i)) [0..<?n] = map Some ?rows"
    using m(2) by (intro nth_equalityI) (auto simp: nth_upt)
  moreover obtain T where "mk_srv_hash ?rows = Some T"
      "\<forall>key. get_srv_no (Some \<lparr>srvn = int ?n, srv_hash = Some T, srvlist = Some ?rows, usage = 0\<rparr>) key =
        Some (case find (\<lambda>i. nms ! i = key) [1..<length nms] of None \<Rightarrow> 1 | Some i \<Rightarrow> int i)"
    using services_lookup [OF assms(2,4) refl] by auto
  ultimately show ?thesis using h' m(1) by blast
qed

section \<open>Instances\<close>

definition blank :: T_NetHead where
  "blank = \<lparr>PROTO_NUM = 0, ERRNO1 = 0, ERRNO2 = 0, PKG_REC_NUM = 0, PKG_LEN = 0, O_NODE = 0, D_NODE = 0,
    data = None\<rparr>"

text \<open>A client that logs in first and then calls service 2 for ever.\<close>

definition caller :: "unit session_ext peer" where
  "caller = \<lparr>recv = \<lambda>k. (0, if k = 0 then blank else blank\<lparr>PROTO_NUM := 2\<rparr>), send = \<lambda>k. 0,
    Event_proc = None, LocalAddr = 0\<rparr>"

definition fresh :: session where
  "fresh = \<lparr>received = 0, sent = [], only_do = None, timeout = 0, o_timeout = 0\<rparr>"

text \<open>An application with services 0, 1 and 2 whose login answers r.\<close>

definition small_app :: "int \<Rightarrow> unit app" where
  "small_app r = \<lparr>call = \<lambda>f h s. (if f = Login then r else 0, h, s), names = [[], [97], [98]]\<rparr>"

lemmas instances = caller_def fresh_def small_app_def blank_def

theorem tpc_serves_after_login_witness:
  "2 \<le> (2::nat) \<and> 2 < length (names (small_app 1)) \<and>
    (\<exists>ret. ret \<noteq> 0 \<and> ret \<noteq> -1 \<and> (Login, ret) \<in> set [(Login, 1::int)])"
proof -
  have r0: "tpc_run caller (small_app 1) 0 blank fresh [] 0 fresh"
    by (rule tpc_run.start) (simp add: tpc_start_def fresh_def)
  have "tpc_turn caller (small_app 1) 0 fresh = Some ([(Login, 1)], Goes_on, 1, fresh\<lparr>received := 1\<rparr>)"
    by (simp add: tpc_turn_def tpc_login_def funcaddr_def RecvPack_def instances)
  then have r1: "tpc_run caller (small_app 1) 0 blank fresh [(Login, 1)] 1 (fresh\<lparr>received := 1\<rparr>)"
    using tpc_run.turn [OF r0] by simp
  have "tpc_turn caller (small_app 1) 1 (fresh\<lparr>received := 1\<rparr>) =
      Some ([(Service 2, 0)], Goes_on, 1, fresh\<lparr>received := 2\<rparr>)"
    by (simp add: tpc_turn_def tpc_service_def funcaddr_def RecvPack_def instances)
  then show ?thesis using tpc_serves_after_login [OF r1, of _ _ _ _ 2 0] by simp
qed

theorem tpc_number_behind_table_witness:
  "tpc_turn (caller\<lparr>recv := \<lambda>k. (0, blank\<lparr>PROTO_NUM := 3\<rparr>)\<rparr>) (small_app 1) 1 fresh = None"
proof (rule tpc_number_behind_table)
  show "RecvPack (caller\<lparr>recv := \<lambda>k. (0, blank\<lparr>PROTO_NUM := 3\<rparr>)\<rparr>) fresh =
      (0, blank\<lparr>PROTO_NUM := 3\<rparr>, fresh\<lparr>received := 1\<rparr>)"
    by (simp add: RecvPack_def instances)
qed (simp_all add: instances)

text \<open>A client that tries to log in again and again.\<close>

definition stubborn :: "unit session_ext peer" where
  "stubborn = caller\<lparr>recv := \<lambda>k. (0, blank)\<rparr>"

theorem ppc_failed_login_is_final_witness:
  "(0::int) = 0 \<and> Srvname = Srvname \<and> fst ` set [(Srvname, 0::int)] \<subseteq> {Srvname, Service 1}"
proof (rule ppc_failed_login_is_final)
  let ?h = "body (srv_text [[], [97], [98]]) (blank\<lparr>PKG_REC_NUM := 2\<rparr>)"
  let ?s = "fresh\<lparr>received := 1\<rparr>" and ?t = "fresh\<lparr>received := 2, sent := [?h]\<rparr>"
  show "ppc_turn stubborn (small_app 0) Login 0 fresh = Some ([(Login, 0)], Goes_on, Srvname, 0, ?s)"
    by (simp add: ppc_turn_def ppc_call_def funcaddr_def RecvPack_def stubborn_def instances)
  show "only_do ?s = None" by (simp add: fresh_def)
  have "ppc_turn stubborn (small_app 0) Srvname 0 ?s = Some ([(Srvname, 0)], Goes_on, Srvname, 0, ?t)"
    by (simp add: ppc_turn_def ppc_call_def funcaddr_def RecvPack_def SendPack_def get_srvname_def body_def
        stubborn_def instances Let_def)
  then show "ppc_run stubborn (small_app 0) Srvname 0 ?s [(Srvname, 0)] Srvname 0 ?t"
    using ppc_run.turn [OF ppc_run.start] by fastforce
qed

theorem service_numbers_agree_witness:
  "\<exists>txt n m rows T. Some txt = Some (srv_text [[], [97], [98]]) \<and> (2::int) = int n \<and>
    read_services plain_lib (\<lambda>_. 0) 0 txt slist_tpl n = Some m \<and>
    map (\<lambda>i. srv_row m (0 + 56 * int i)) [0..<n] = map Some rows \<and> mk_srv_hash rows = Some T \<and>
    (\<forall>key. get_srv_no (Some \<lparr>srvn = int n, srv_hash = Some T, srvlist = Some rows, usage = 0\<rparr>) key =
      Some (case find (\<lambda>i. [[], [97], [98]] ! i = key) [1..<length [[], [97], [98]]] of None \<Rightarrow> 1 | Some i \<Rightarrow> int i))"
proof -
  let ?h = "body (srv_text [[], [97], [98]]) (blank\<lparr>PKG_REC_NUM := 2\<rparr>)"
  have g: "get_srvname caller (Some [[], [97], [98]]) blank fresh = Some (0, ?h, fresh\<lparr>sent := [?h]\<rparr>)"
    by (simp add: get_srvname_def SendPack_def body_def instances Let_def)
  have p: "\<forall>name\<in>set (tl [[], [97], [98]]). plain_service name"
    by (simp add: plain_service_def ascii_def)
  show ?thesis
    using service_numbers_agree [OF plain_lib_ok _ _ _ p g, of "\<lambda>_. 0" 0] by (simp add: body_def blank_def)
qed

end
