(* ===== verification/Envcfg.thy ===== *)
theory Envcfg
  imports Sdbc_Prelude
begin

text \<open>Environment variables in configuration lines and file names: \<open>src/conf/envcfg.c\<close>.  The
  pattern of \<open>env_src\<close> is matched by functions of its own; \<open>strsubst\<close>, \<open>skipblk\<close> and \<open>TRIM\<close> of the
  string library, whose code is not in the repository, are parameters.\<close>

section \<open>References to variables\<close>

definition name_start :: "byte \<Rightarrow> bool" where
  "name_start c \<longleftrightarrow> 0x41 \<le> c \<and> c \<le> 0x5A \<or> 0x61 \<le> c \<and> c \<le> 0x7A \<or> c = 0x5F"

definition name_char :: "byte \<Rightarrow> bool" where
  "name_char c \<longleftrightarrow> name_start c \<or> 0x30 \<le> c \<and> c \<le> 0x39"

text \<open>\<open>env_src\<close> at the start of a text: a dollar, perhaps an opening brace or parenthesis, a
  name, perhaps a closing one of either kind.  The name and the length of the whole.\<close>

definition open_mark :: "bytes \<Rightarrow> nat" where
  "open_mark s = (case s of c # _ \<Rightarrow> if c = 0x7B \<or> c = 0x28 then 1 else 0 | [] \<Rightarrow> 0)"

definition close_mark :: "bytes \<Rightarrow> nat" where
  "close_mark s = (case s of c # _ \<Rightarrow> if c = 0x7D \<or> c = 0x29 then 1 else 0 | [] \<Rightarrow> 0)"

definition env_ref :: "bytes \<Rightarrow> (bytes \<times> nat) option" where
  "env_ref s =
     (case s of
        [] \<Rightarrow> None
      | c # r \<Rightarrow>
          let o1 = open_mark r; name = takeWhile name_char (drop o1 r); n = length name in
          if c = 0x24 \<and> name \<noteq> [] \<and> name_start (hd name)
          then Some (name, 1 + o1 + n + close_mark (drop (o1 + n) r)) else None)"

text \<open>\<open>regexec\<close>: the leftmost match, with its place.\<close>

fun regexec :: "bytes \<Rightarrow> (nat \<times> bytes \<times> nat) option" where
  "regexec [] = None"
| "regexec (c # s) =
     (case env_ref (c # s) of
        Some (name, n) \<Rightarrow> Some (0, name, n)
      | None \<Rightarrow> map_option (\<lambda>(so, name, n). (so + 1, name, n)) (regexec s))"

section \<open>Substitution\<close>

text \<open>\<open>strsubst s n r\<close> replaces the first n bytes of s by r: the new text, and how far behind its
  start the pointer returned is.\<close>

record envlib =
  strsubst :: "bytes \<Rightarrow> nat \<Rightarrow> bytes \<Rightarrow> bytes \<times> nat"
  getenv :: "bytes \<Rightarrow> bytes option"
  skipblk :: "bytes \<Rightarrow> nat"
  TRIM :: "bytes \<Rightarrow> bytes"

text \<open>The loop of \<open>substitute_env\<close>: \<open>pre\<close> is the line before \<open>p\<close>.  The name goes to \<open>env[256]\<close>; a
  longer one overruns it (\<open>None\<close>), and \<open>None\<close> is also a loop that does not end.\<close>

partial_function (option) subst_loop :: "envlib \<Rightarrow> bytes \<Rightarrow> bytes \<Rightarrow> bytes option" where
  "subst_loop E pre p =
     (case regexec p of
        None \<Rightarrow> Some (pre @ p)
      | Some (so, name, n) \<Rightarrow>
          if length name > 255 then None
          else let envp = (case getenv E name of None \<Rightarrow> [0x2E] | Some v \<Rightarrow> v);
                   (t, k) = strsubst E (drop so p) n envp
               in subst_loop E (pre @ take so p @ take k t) (drop k t))"

definition substitute_env :: "envlib \<Rightarrow> bytes \<Rightarrow> bytes option" where
  "substitute_env E line = subst_loop E [] line"

section \<open>Configuration files\<close>

text \<open>One line of the file after \<open>fgets\<close>, in \<open>envcfg\<close> and in \<open>strcfg\<close>: the string given to
  \<open>putenv\<close>, or nothing for an empty line and a comment.\<close>

definition cfg_line :: "envlib \<Rightarrow> bytes \<Rightarrow> bytes option option" where
  "cfg_line E buffer =
     (let buffer = fst (strsubst E buffer (skipblk E buffer) []) in
      case buffer of [] \<Rightarrow> Some None
      | c # _ \<Rightarrow> if c = 0x23 then Some None else map_option Some (substitute_env E buffer))"

definition strcfg :: "envlib \<Rightarrow> bytes \<Rightarrow> (int \<times> bytes option) option" where
  "strcfg E buffer =
     do { b \<leftarrow> cfg_line E buffer; Some (case b of None \<Rightarrow> (1, None) | Some v \<Rightarrow> (0, Some v)) }"

text \<open>The loop of \<open>envcfg\<close> over what \<open>fgets\<close> returns, each piece with the flag \<open>feof\<close> after it:
  the end of the file leaves the loop before the piece is looked at.\<close>

fun envcfg_loop :: "envlib \<Rightarrow> (bytes \<times> bool) list \<Rightarrow> bytes list option" where
  "envcfg_loop E [] = Some []"
| "envcfg_loop E ((buffer, feof) # rest) =
     (if feof then Some []
      else do { b \<leftarrow> cfg_line E (TRIM E buffer); vs \<leftarrow> envcfg_loop E rest;
                Some (case b of None \<Rightarrow> vs | Some v \<Rightarrow> v # vs) })"

text \<open>\<open>envcfg\<close> on a file that can be opened, or not with that \<open>errno\<close>; the flag \<open>GBK_flag\<close> that it
  sets afterwards is left out.  \<open>fgets\<close> with a buffer of n + 1 bytes: the piece read and the rest; at the end of the file
  without a line feed the flag is set.\<close>

definition fgets :: "nat \<Rightarrow> bytes \<Rightarrow> bytes \<times> bool \<times> bytes" where
  "fgets n s =
     (let line = takeWhile (\<lambda>c. c \<noteq> 0x0A) s; k = length line in
      if n \<le> k then (take n s, False, drop n s)
      else if k < length s then (take (k + 1) s, False, drop (k + 1) s)
      else (s, True, []))"

lemma fgets_shorter: "fgets (Suc n) s = (b, False, r) \<Longrightarrow> length r < length s"
  using length_takeWhile_le [of "\<lambda>c. c \<noteq> 0x0A" s]
  by (cases s) (auto simp: fgets_def Let_def split: if_splits)

lemma fgets_shortens: "0 < n \<Longrightarrow> fgets n s = (b, False, r) \<Longrightarrow> length r < length s"
  using fgets_shorter [of "n - 1"] by simp

lemma fgets_eof: "fgets n s = (b, True, r) \<Longrightarrow> b = s \<and> r = []"
  by (auto simp: fgets_def Let_def split: if_splits)

function file_pieces :: "bytes \<Rightarrow> (bytes \<times> bool) list" where
  "file_pieces s = (case fgets 1023 s of (b, feof, r) \<Rightarrow> (b, feof) # (if feof then [] else file_pieces r))"
  by pat_completeness auto
termination
  by (relation "measure length") (auto dest: fgets_shorter [of 1022, simplified] simp: eq_commute [of "(_, _, _)"])

definition envcfg :: "envlib \<Rightarrow> bytes option \<Rightarrow> int \<Rightarrow> (int \<times> bytes list) option" where
  "envcfg E file errno =
     (case file of None \<Rightarrow> Some (errno, [])
      | Some s \<Rightarrow> map_option (\<lambda>vs. (0, vs)) (envcfg_loop E (file_pieces s)))"

declare file_pieces.simps [simp del]

section \<open>What the substitution does\<close>

text \<open>\<open>strsubst\<close> as the callers use it: the replacement in the place of the bytes, the pointer
  behind it.\<close>

definition strsubst_ok :: "envlib \<Rightarrow> bool" where
  "strsubst_ok E \<longleftrightarrow> (\<forall>s n r. strsubst E s n r = (r @ drop n s, length r))"

lemma env_ref_length: "env_ref s = Some (name, n) \<Longrightarrow> 0 < n \<and> n \<le> length s"
proof -
  assume a: "env_ref s = Some (name, n)"
  then obtain c r where s: "s = c # r" by (cases s) (auto simp: env_ref_def)
  let ?o = "open_mark r"
  have "name = takeWhile name_char (drop ?o r)" "n = 1 + ?o + length name + close_mark (drop (?o + length name) r)"
    using a by (auto simp: env_ref_def s Let_def split: if_splits)
  moreover have "name \<noteq> []" using a by (auto simp: env_ref_def s Let_def split: if_splits)
  moreover have "?o \<le> length r" by (simp add: open_mark_def split: list.split)
  then have "?o + length (takeWhile name_char (drop ?o r)) \<le> length r"
    using length_takeWhile_le [of name_char "drop ?o r"] by simp
  moreover have "close_mark t \<le> length t" for t by (simp add: close_mark_def split: list.split)
  ultimately show ?thesis unfolding s
    by simp (metis add_le_cancel_left le_add_diff_inverse length_drop)
qed

text \<open>The reference: every reference to a variable replaced by its value, or by a dot, and every
  other character kept; values are not looked at again.\<close>

function expand :: "(bytes \<Rightarrow> bytes option) \<Rightarrow> bytes \<Rightarrow> bytes" where
  "expand g [] = []"
| "expand g (c # s) =
     (case env_ref (c # s) of
        Some (name, n) \<Rightarrow> (case g name of None \<Rightarrow> [0x2E] | Some v \<Rightarrow> v) @ expand g (drop n (c # s))
      | None \<Rightarrow> c # expand g s)"
  by pat_completeness auto
termination by (relation "measure (length \<circ> snd)") (auto dest: env_ref_length)

declare expand.simps(2) [simp del]

fun short_names :: "bytes \<Rightarrow> bool" where
  "short_names [] \<longleftrightarrow> True"
| "short_names (c # s) \<longleftrightarrow> (\<forall>name n. env_ref (c # s) = Some (name, n) \<longrightarrow> length name \<le> 255) \<and> short_names s"

lemma short_names_drop: "short_names s \<Longrightarrow> short_names (drop n s)"
  by (induction s arbitrary: n) (auto simp: drop_Cons split: nat.split)

lemma regexec_None: "regexec s = None \<Longrightarrow> expand g s = s"
  by (induction s) (auto simp: expand.simps(2) split: option.splits)

lemma regexec_Some:
  "regexec s = Some (so, name, n) \<Longrightarrow>
    so < length s \<and> env_ref (drop so s) = Some (name, n) \<and>
    expand g s = take so s @ (case g name of None \<Rightarrow> [0x2E] | Some v \<Rightarrow> v) @ expand g (drop n (drop so s))"
proof (induction s arbitrary: so)
  case (Cons c s)
  show ?case
  proof (cases "env_ref (c # s)")
    case None
    then obtain k where "so = k + 1" "regexec s = Some (k, name, n)" using Cons.prems by auto
    then show ?thesis using None Cons.IH [of k] by (simp add: expand.simps(2))
  qed (use Cons.prems in \<open>auto simp: expand.simps(2)\<close>)
qed simp

lemma subst_loop_expand:
  assumes "strsubst_ok E"
  shows "short_names p \<Longrightarrow> subst_loop E pre p = Some (pre @ expand (getenv E) p)"
proof (induction p arbitrary: pre rule: length_induct)
  case (1 p)
  show ?case
  proof (cases "regexec p")
    case None
    then show ?thesis using regexec_None by (simp add: subst_loop.simps)
  next
    case (Some m)
    obtain so name n where m: "m = (so, name, n)" by (cases m)
    let ?v = "case getenv E name of None \<Rightarrow> [0x2E] | Some v \<Rightarrow> v" and ?r = "drop n (drop so p)"
    note r = regexec_Some [OF Some [unfolded m], of "getenv E"]
    have n: "0 < n" using env_ref_length r by blast
    have "length name \<le> 255"
      using short_names_drop [OF 1(2), of so] r by (cases "drop so p") auto
    then have "subst_loop E pre p = subst_loop E (pre @ take so p @ ?v) ?r"
      using assms Some m by (subst subst_loop.simps) (simp add: strsubst_ok_def)
    also have "\<dots> = Some ((pre @ take so p @ ?v) @ expand (getenv E) ?r)"
      using n r short_names_drop [OF 1(2), of "n + so"] by (intro 1(1) [rule_format]) auto
    finally show ?thesis using r by simp
  qed
qed

text \<open>C23: \<open>substitute_env\<close> ends, and replaces every reference to a variable by its value, a variable
  that is not set by a dot, keeping all other characters; it does not look for references in a
  value.\<close>

theorem substitute_env_expands:
  assumes "strsubst_ok E" "short_names line"
  shows "substitute_env E line = Some (expand (getenv E) line)"
  using subst_loop_expand [OF assms, of "[]"] by (simp add: substitute_env_def)

text \<open>\<open>HOME\<close> is \<open>/h\<close>; nothing else is set.\<close>

definition home_env :: envlib where
  "home_env = \<lparr>strsubst = \<lambda>s n r. (r @ drop n s, length r),
    getenv = \<lambda>v. if v = [0x48, 0x4F, 0x4D, 0x45] then Some [0x2F, 0x68] else None,
    skipblk = \<lambda>s. 0, TRIM = id\<rparr>"

theorem substitute_env_expands_witness:
  "substitute_env home_env [0x24, 0x7B, 0x48, 0x4F, 0x4D, 0x45, 0x7D, 0x2F, 0x24, 0x41] =
    Some [0x2F, 0x68, 0x2F, 0x2E]"
proof -
  have "expand (getenv home_env) [0x24, 0x7B, 0x48, 0x4F, 0x4D, 0x45, 0x7D, 0x2F, 0x24, 0x41] =
      [0x2F, 0x68, 0x2F, 0x2E]"
    by code_simp
  moreover have "short_names [0x24, 0x7B, 0x48, 0x4F, 0x4D, 0x45, 0x7D, 0x2F, 0x24, 0x41]"
    by (simp add: env_ref_def open_mark_def name_char_def name_start_def)
  ultimately show ?thesis
    using substitute_env_expands [of home_env] by (simp add: strsubst_ok_def home_env_def)
qed

text \<open>The last line of a file that does not end with a line feed is lost.\<close>

lemma envcfg_last_line:
  assumes "0x0A \<notin> set s" "length s < 1023"
  shows "envcfg E (Some s) errno = Some (0, [])"
proof -
  have "takeWhile (\<lambda>c. c \<noteq> 0x0A) s = s" using assms(1) by (auto simp: takeWhile_eq_all_conv)
  then have "length (takeWhile (\<lambda>c. c \<noteq> 0x0A) s) = length s" by (rule arg_cong)
  then have "file_pieces s = [(s, True)]"
    using assms(2) by (subst file_pieces.simps) (simp add: fgets_def Let_def)
  then show ?thesis by (simp add: envcfg_def)
qed

end
