(* ===== verification/Remote_Server.thy ===== *)
theory Remote_Server
  imports Rpc Envcfg Pack
begin

text \<open>The services for files and commands: \<open>src/scsrv/rexec.c\<close> and \<open>src/scsrv/chkexec.c\<close>.  Each
  takes the packet of the request and leaves its answers in the link; its result is \<open>None\<close>
  where it follows a null pointer, overruns an array or does not end.\<close>

section \<open>Files\<close>

text \<open>The operating system.  \<open>fstat\<close> gives whether a file is a regular one and its size; \<open>io k\<close> is
  the result of the k-th \<open>AIO_read\<close> or \<open>AIO_write\<close> of a transfer and \<open>io_err k\<close> the \<open>errno\<close> it
  leaves.\<close>

datatype open_mode = Read | Append_trunc | Create_trunc | Create_public

record os =
  fopen :: "open_mode \<Rightarrow> bytes \<Rightarrow> int"
  open_err :: "open_mode \<Rightarrow> bytes \<Rightarrow> int"
  fstat :: "int \<Rightarrow> (bool \<times> int) option"
  content :: "bytes \<Rightarrow> bytes"
  io :: "nat \<Rightarrow> int"
  io_err :: "nat \<Rightarrow> int"
  valloc :: bool

text \<open>The value of a C \<open>int\<close> that an integer of more bits is assigned to.\<close>

definition to_int :: "int \<Rightarrow> int" where
  "to_int n = sint (of_int n :: 32 word)"

lemma to_int_small: "- (2 ^ 31) \<le> n \<Longrightarrow> n < 2 ^ 31 \<Longrightarrow> to_int n = n"
  by (simp add: to_int_def signed_of_int signed_take_bit_int_eq_self)

text \<open>Both functions for the size of a file return \<open>st_size\<close> as an \<open>int\<close>.\<close>

definition GetFileSize :: "os \<Rightarrow> int \<Rightarrow> int" where
  "GetFileSize W fd =
     (if fd = 0 then -1
      else case fstat W fd of None \<Rightarrow> -1 | Some (reg, sz) \<Rightarrow> if \<not> reg then -2 else to_int sz)"

text \<open>The k-th read of a transfer: its result, the bytes, and what is left of the file.  Not more
  than a block is asked for and not more than there is can be read.\<close>

definition AIO_read :: "os \<Rightarrow> nat \<Rightarrow> bytes \<Rightarrow> int \<times> bytes \<times> bytes" where
  "AIO_read W k rest =
     (if io W k < 0 then (io W k, [], rest)
      else let n = min (nat (io W k)) (min SDBC_BLKSZ (length rest))
           in (int n, take n rest, drop n rest))"

definition AIO_write :: "os \<Rightarrow> nat \<Rightarrow> bytes \<Rightarrow> bytes \<Rightarrow> int \<times> bytes" where
  "AIO_write W k s file =
     (if io W k < 0 then (io W k, file)
      else let n = min (nat (io W k)) (length s) in (int n, file @ take n s))"

section \<open>Getting a file\<close>

text \<open>\<open>answer\<close> is what the last answer of every service sets beside its error numbers.\<close>

definition answer :: "'l peer \<Rightarrow> int \<Rightarrow> T_NetHead \<Rightarrow> 'l link_scheme \<Rightarrow> T_NetHead \<times> 'l link_scheme" where
  "answer P Event_no h l =
     (let (ev, l) = PutEvent P Event_no l
      in (h\<lparr>PROTO_NUM := ev, PKG_REC_NUM := 0, D_NODE := 0, O_NODE := LocalAddr P\<rparr>, l))"

definition GetFile_errret :: "'l peer \<Rightarrow> int \<Rightarrow> int \<Rightarrow> T_NetHead \<Rightarrow> 'l link_scheme
    \<Rightarrow> int \<times> T_NetHead \<times> 'l link_scheme" where
  "GetFile_errret P Event_no err h l =
     (let (h, l) = answer P Event_no (h\<lparr>ERRNO1 := err\<rparr>) l;
          h = h\<lparr>ERRNO2 := -1, PKG_LEN := 0, data := None\<rparr>;
          (i, l) = SendPack P h l
      in (0, h, l))"

text \<open>The loop over the blocks: whether a packet could not be sent, and the last packet.\<close>

function get_loop :: "'l peer \<Rightarrow> os \<Rightarrow> nat \<Rightarrow> bytes \<Rightarrow> T_NetHead \<Rightarrow> 'l link_scheme
    \<Rightarrow> bool \<times> T_NetHead \<times> 'l link_scheme" where
  "get_loop P W k rest h l =
     (case AIO_read W k rest of (r_len, buffer, rest') \<Rightarrow>
        if r_len \<le> 0 then (False, h, l)
        else let h = h\<lparr>PROTO_NUM := 0, PKG_LEN := r_len, data := Some buffer, ERRNO2 := PACK_CONTINUE\<rparr>;
                 (i, l) = SendPack P h l
             in if i \<noteq> 0 then (True, h, l)
                else if r_len = int SDBC_BLKSZ then get_loop P W (k + 1) rest' h l else (False, h, l))"
  by pat_completeness auto
termination
  by (relation "measure (\<lambda>(P, W, k, rest, h, l). length rest)")
    (auto simp: AIO_read_def Let_def SDBC_BLKSZ_def split: if_splits)

declare get_loop.simps [simp del]

definition GetFile :: "strlib \<Rightarrow> envlib \<Rightarrow> os \<Rightarrow> 'l peer \<Rightarrow> T_NetHead \<Rightarrow> 'l link_scheme
    \<Rightarrow> (int \<times> T_NetHead \<times> 'l link_scheme) option" where
  "GetFile lib E W P h l =
     do { s \<leftarrow> data h;
          fname \<leftarrow> substitute_env E (fst (stptok_copy lib s 1024));
          let Event_no = PROTO_NUM h; seekflag = PKG_REC_NUM h; fd = fopen W Read fname
          in Some (
            if fd < 0 then GetFile_errret P Event_no (open_err W Read fname) h l
            else
              let sz = GetFileSize W fd;
                  h = h\<lparr>PKG_LEN := 0, ERRNO2 := (if sz > 0 then PACK_CONTINUE else 0),
                        ERRNO1 := (if sz > 0 then 0 else EINVAL)\<rparr>;
                  (h, l) = answer P Event_no h l;
                  h = h\<lparr>PKG_REC_NUM := sz\<rparr>;
                  (i, l) = SendPack P h l
              in if i \<noteq> 0 \<or> sz \<le> 0 then (0, h, l)
                 else if \<not> valloc W then GetFile_errret P Event_no MEMERR h l
                 else
                   let h = h\<lparr>PKG_REC_NUM := 0, ERRNO1 := 0\<rparr>;
                       (failed, h, l) = get_loop P W 0 (drop (nat seekflag) (content W fname)) h l
                   in if failed then (0, h, l)
                      else let (ev, l) = PutEvent P Event_no l;
                               h = h\<lparr>PROTO_NUM := ev, ERRNO2 := 0, data := None, PKG_LEN := 0\<rparr>;
                               (i, l) = SendPack P h l
                           in (0, h, l)) }"

section \<open>Putting a file\<close>

definition PutFile_errret :: "'l peer \<Rightarrow> int \<Rightarrow> int \<Rightarrow> T_NetHead \<Rightarrow> 'l link_scheme
    \<Rightarrow> int \<times> T_NetHead \<times> 'l link_scheme" where
  "PutFile_errret P Event_no err h l =
     (let (h, l) = answer P Event_no (h\<lparr>ERRNO1 := err\<rparr>) l;
          h = h\<lparr>ERRNO2 := PACK_NOANSER, PKG_LEN := 0, data := None\<rparr>;
          (i, l) = SendPack P h l
      in (0, h, l))"

text \<open>The name of the file: a leading \<open>$/\<close>, \<open>$@\<close> or \<open>@/\<close> stands for a directory.\<close>

definition put_name :: "envlib \<Rightarrow> bytes \<Rightarrow> bytes" where
  "put_name E buffer =
     (let subst = (\<lambda>k n r s. take k s @ fst (strsubst E (drop k s) n (chars r)));
          buffer = (case buffer of
              c # d # _ \<Rightarrow> if c \<noteq> 0x24 then buffer
                else if d = 0x2F then subst 1 0 ''RECVDIR'' buffer
                else if d = 0x40 then subst 1 1 ''HOME'' buffer else buffer
            | _ \<Rightarrow> buffer)
      in if take 2 buffer = [0x40, 0x2F] then subst 0 1 ''$HOME'' buffer else buffer)"

text \<open>Opening it; both ways cut the file.\<close>

definition put_open :: "os \<Rightarrow> bool \<Rightarrow> bytes \<Rightarrow> int \<times> int" where
  "put_open W breakflag name =
     (let m = (if breakflag
               then if fopen W Append_trunc name = 0 then Create_trunc else Append_trunc
               else Create_public)
      in (fopen W m name, open_err W m name))"

text \<open>The loop that receives the blocks: the result of the last \<open>RecvPack\<close>, the error of the
  first write that failed, the file, the last packet.\<close>

partial_function (option) put_loop :: "'l peer \<Rightarrow> os \<Rightarrow> nat \<Rightarrow> int \<Rightarrow> bytes \<Rightarrow> 'l link_scheme
    \<Rightarrow> (int \<times> int \<times> bytes \<times> T_NetHead \<times> 'l link_scheme) option" where
  "put_loop P W k flg file l =
     (case RecvPack P l of (i, h, l) \<Rightarrow>
        if i \<noteq> 0 then Some (i, flg, file, h, l)
        else do {
          (k, flg, file, h) \<leftarrow> (if PKG_LEN h \<noteq> 0 \<and> flg = 0
             then do { s \<leftarrow> data h;
                       let (i, file) = AIO_write W k s file
                       in Some (if i < 0 then (k + 1, io_err W k, file, h\<lparr>ERRNO1 := io_err W k\<rparr>)
                                else (k + 1, flg, file, h)) }
             else Some (k, flg, file, h));
          if ERRNO2 h = PACK_CONTINUE then put_loop P W k flg file l else Some (0, flg, file, h, l) })"

definition PutFile :: "strlib \<Rightarrow> envlib \<Rightarrow> os \<Rightarrow> 'l peer \<Rightarrow> T_NetHead \<Rightarrow> 'l link_scheme
    \<Rightarrow> (int \<times> bytes option \<times> T_NetHead \<times> 'l link_scheme) option" where
  "PutFile lib E W P h l =
     (let Event_no = PROTO_NUM h; breakflag = PKG_REC_NUM h \<noteq> 0 in
      if PKG_LEN h = 0 then Some (let (r, h, l) = PutFile_errret P Event_no EINVAL h l in (r, None, h, l))
      else do {
        s \<leftarrow> data h;
        name \<leftarrow> substitute_env E (put_name E (fst (stptok_copy lib s (int SDBC_BLKSZ))));
        let (fd, err) = put_open W breakflag name
        in if fd < 0 then Some (let (r, h, l) = PutFile_errret P Event_no err h l in (r, None, h, l))
           else do {
             let (h, l) = answer P Event_no (h\<lparr>ERRNO1 := 0, ERRNO2 := 0, data := None, PKG_LEN := 0\<rparr>) l;
                 h = h\<lparr>PKG_REC_NUM := (if breakflag then GetFileSize W fd else 0)\<rparr>;
                 (i, l) = SendPack P h l
             in do {
               (i, flg, file, h, l) \<leftarrow> put_loop P W 0 0 [] l;
               Some (
                 if i \<noteq> 0 then let (r, h, l) = PutFile_errret P Event_no PACK_NOANSER h l in (r, Some file, h, l)
                 else if flg \<noteq> 0 then let (r, h, l) = PutFile_errret P Event_no flg h l in (r, Some file, h, l)
                 else let (ev, l) = PutEvent P Event_no l;
                          h = h\<lparr>PROTO_NUM := ev, O_NODE := LocalAddr P, D_NODE := 0, PKG_LEN := 0,
                                data := None, ERRNO2 := 0, ERRNO1 := 0\<rparr>;
                          (i, l) = SendPack P h l
                      in (0, Some file, h, l)) } } })"

section \<open>Directory and environment\<close>

definition Pwd :: "bytes \<Rightarrow> int \<Rightarrow> 'l peer \<Rightarrow> T_NetHead \<Rightarrow> 'l link_scheme \<Rightarrow> int \<times> T_NetHead \<times> 'l link_scheme" where
  "Pwd cwd errno P h l =
     (let (h, l) = answer P (PROTO_NUM h) h l;
          h = body cwd (h\<lparr>ERRNO2 := 0, ERRNO1 := errno\<rparr>);
          (i, l) = SendPack P h l
      in (if i \<noteq> 0 then 1 else 0, h, l))"

text \<open>\<open>chdir\<close> is a function of the directory to its result and \<open>errno\<close>.  The last character of
  the body is looked at before the length is.\<close>

definition ChDir :: "envlib \<Rightarrow> (bytes \<Rightarrow> int \<times> int) \<Rightarrow> 'l peer \<Rightarrow> T_NetHead \<Rightarrow> 'l link_scheme
    \<Rightarrow> (int \<times> T_NetHead \<times> 'l link_scheme) option" where
  "ChDir E chdir P h l =
     do { s \<leftarrow> data h;
          let n = nat (PKG_LEN h);
          if PKG_LEN h \<le> 0 \<or> length s < n then None
          else do {
            dir \<leftarrow> substitute_env E (c_text (if s ! (n - 1) = 0x7C then take (n - 1) s else s));
            let (i, errno) = chdir dir;
                (ev, l) = PutEvent P (PROTO_NUM h) l;
                h = h\<lparr>ERRNO1 := i, PKG_LEN := 0, ERRNO2 := errno, PROTO_NUM := ev, O_NODE := LocalAddr P,
                      D_NODE := 0\<rparr>;
                (i, l) = SendPack P h l
            in Some (i, h, l) } }"

text \<open>\<open>PutEnv\<close> also gives the string it has put into the environment.  The bar is looked for at
  the last place but one of the body.\<close>

definition PutEnv :: "envlib \<Rightarrow> 'l peer \<Rightarrow> T_NetHead \<Rightarrow> 'l link_scheme
    \<Rightarrow> (int \<times> bytes option \<times> T_NetHead \<times> 'l link_scheme) option" where
  "PutEnv E P h l =
     (if PKG_LEN h \<le> 0 then
        Some (let (h, l) = answer P (PROTO_NUM h) h l;
                  h = h\<lparr>PKG_LEN := 0, ERRNO2 := -1\<rparr>;
                  (i, l) = SendPack P h l
              in (1, None, h, l))
      else do {
        s \<leftarrow> data h;
        let n = nat (PKG_LEN h);
        if n < 2 \<or> length s < n then None
        else do {
          let s = c_text (if s ! (n - 2) = 0x7C then take (n - 2) s else s);
          (ret, v) \<leftarrow> strcfg E s;
          let b = (case v of None \<Rightarrow> fst (strsubst E s (skipblk E s) []) | Some v \<Rightarrow> v);
              (ev, l) = PutEvent P (PROTO_NUM h) l;
              h = body b (h\<lparr>PROTO_NUM := ev, ERRNO1 := 0, ERRNO2 := 0\<rparr>);
              h = h\<lparr>O_NODE := LocalAddr P, D_NODE := 0\<rparr>;
              (i, l) = SendPack P h l
          in Some (i, v, h, l) } })"

end
