(* ===== verification/Remote_Client.thy ===== *)
theory Remote_Client
  imports Rpc Hash_Index Remote_Server
begin

text \<open>The client's side of the file, command and directory services: \<open>src/sccli/client.c\<close>.\<close>

section \<open>The client\<close>

text \<open>The fields of \<open>T_CLI_Var\<close> that a call changes, \<open>conn.status\<close>, and the calls made of the
  progress function \<open>Msg\<close>.\<close>

record client = link +
  Errno :: int
  NativeError :: int
  ErrMsg :: bytes
  status :: "32 word"
  progress :: "(int \<times> int) list"

text \<open>What a call finds in \<open>T_CLI_Var\<close>; \<open>None\<close> in its place is the null pointer \<open>conn.Var\<close>.\<close>

record cli_var =
  ctx_id :: int
  svc_tbl :: "svc_table option"

text \<open>The header of a request as its caller fills it in, \<open>PKG_LEN\<close> and the data each for itself.\<close>

definition request :: "int \<Rightarrow> int \<Rightarrow> int \<Rightarrow> int \<Rightarrow> bytes option \<Rightarrow> T_NetHead" where
  "request proto err1 onode len d =
     \<lparr>PROTO_NUM = proto, ERRNO1 = err1, ERRNO2 = 0, PKG_REC_NUM = 0,
      PKG_LEN = len, O_NODE = onode, D_NODE = 0, data = d\<rparr>"

text \<open>The number of a service, or nothing when the server has none of that name, which
  \<open>get_srv_no\<close> answers with 1.\<close>

definition service :: "cli_var \<Rightarrow> string \<Rightarrow> int option option" where
  "service v name = do { n \<leftarrow> get_srv_no (svc_tbl v) (map of_char name); Some (if n = 1 then None else Some n) }"

section \<open>Commands\<close>

text \<open>\<open>input\<close> gives the texts it writes into the buffer before it ends, \<open>output\<close> is given texts.\<close>

fun input_loop :: "'l peer \<Rightarrow> bytes list \<Rightarrow> T_NetHead \<Rightarrow> 'l link_scheme \<Rightarrow> int \<times> T_NetHead \<times> 'l link_scheme" where
  "input_loop P [] h l = (0, h, l)"
| "input_loop P (s # ss) h l =
     (let h = body s (h\<lparr>PROTO_NUM := 1, ERRNO1 := 0, ERRNO2 := PACK_CONTINUE\<rparr>);
          (i, l) = SendPack P h l
      in if i \<noteq> 0 then (i, h, l) else input_loop P ss h l)"

definition put_out :: "bool \<Rightarrow> T_NetHead \<Rightarrow> bytes list \<Rightarrow> bytes list option" where
  "put_out output h outs =
     (if PKG_LEN h \<noteq> 0 \<and> output then map_option (\<lambda>s. outs @ [c_text s]) (data h) else Some outs)"

partial_function (option) rexec_loop :: "'l peer \<Rightarrow> bool \<Rightarrow> bytes list \<Rightarrow> T_NetHead \<Rightarrow> 'l link_scheme
    \<Rightarrow> (int \<times> bytes list \<times> 'l link_scheme) option" where
  "rexec_loop P output outs h l =
     (if ERRNO2 h \<noteq> PACK_CONTINUE then Some (0, outs, snd (EventCatch P (PROTO_NUM h) l))
      else case RecvPack P l of (i, h, l) \<Rightarrow>
        if i \<noteq> 0 then Some (i, outs, l)
        else if ERRNO1 h \<noteq> 0 then Some (ERRNO1 h, outs, snd (EventCatch P (PROTO_NUM h) l))
        else do { outs \<leftarrow> put_out output h outs; rexec_loop P output outs h l })"

definition rexec_input :: "'l peer \<Rightarrow> bytes list \<Rightarrow> 'l link_scheme \<Rightarrow> int \<times> 'l link_scheme" where
  "rexec_input P inp l =
     (case RecvPack P l of (i, h, l) \<Rightarrow>
        if i \<noteq> 0 then (i, l)
        else if ERRNO1 h \<noteq> 0 then (ERRNO1 h, snd (EventCatch P (PROTO_NUM h) l))
        else case input_loop P inp h l of (i, h', l) \<Rightarrow>
          if i \<noteq> 0 then (i, l)
          else let h' = h'\<lparr>ERRNO1 := 0, ERRNO2 := PACK_NOANSER, PKG_LEN := 0\<rparr>;
                   (i, l) = SendPack P h' l
               in (i, snd (EventCatch P (PROTO_NUM h) l)))"

definition rexec_output :: "'l peer \<Rightarrow> bool \<Rightarrow> 'l link_scheme \<Rightarrow> (int \<times> bytes list \<times> 'l link_scheme) option" where
  "rexec_output P output l =
     (case RecvPack P l of (i, h, l) \<Rightarrow>
        if i \<noteq> 0 then Some (i, [], l)
        else if ERRNO1 h \<noteq> 0 then Some (ERRNO1 h, [], snd (EventCatch P (PROTO_NUM h) l))
        else do { outs \<leftarrow> put_out output h []; rexec_loop P output outs h l })"

definition N_Rexec :: "'l peer \<Rightarrow> (int \<Rightarrow> int) \<Rightarrow> cli_var \<Rightarrow> bytes \<Rightarrow> bytes list option \<Rightarrow> bool
    \<Rightarrow> 'l link_scheme \<Rightarrow> (int \<times> bytes list \<times> 'l link_scheme) option" where
  "N_Rexec P htonl v cmd input output l =
     do { n \<leftarrow> service v ''Rexec'';
          (case n of None \<Rightarrow> Some (FORMATERR, [], l)
           | Some n \<Rightarrow>
             if input \<noteq> None \<and> output then Some (EINVAL, [], l)
             else let h = (request n ((if input \<noteq> None then 1 else 0) + (if output then 2 else 0))
                             (htonl (LocalAddr P)) (int (length cmd)) (Some cmd))\<lparr>ERRNO2 := 1\<rparr>;
                      (i, l) = SendPack P h l
                  in if i \<noteq> 0 then Some (i, [], l)
                     else case input of
                         Some inp \<Rightarrow> let (i, l) = rexec_input P inp l in Some (i, [], l)
                       | None \<Rightarrow> rexec_output P output l) }"

section \<open>Files\<close>

definition N_Get_File_Size :: "os \<Rightarrow> int \<Rightarrow> int" where
  "N_Get_File_Size W fd = (if fd = 0 then -1 else case fstat W fd of None \<Rightarrow> -1 | Some (reg, sz) \<Rightarrow> to_int sz)"

text \<open>\<open>Msg\<close> takes the two numbers, which are unsigned long, as \<open>int\<close>.\<close>

definition tell :: "bool \<Rightarrow> int \<Rightarrow> int \<Rightarrow> 'c client_scheme \<Rightarrow> 'c client_scheme" where
  "tell Msg sz count l = (if Msg then l\<lparr>progress := progress l @ [(to_int sz, to_int count)]\<rparr> else l)"

function send_file :: "'c client_ext peer \<Rightarrow> os \<Rightarrow> bool \<Rightarrow> int \<Rightarrow> nat \<Rightarrow> bytes \<Rightarrow> int \<Rightarrow> T_NetHead \<Rightarrow> 'c client_scheme
    \<Rightarrow> int \<times> T_NetHead \<times> 'c client_scheme" where
  "send_file P W Msg sz k rest count h l =
     (case AIO_read W k rest of (r_len, buffer, rest') \<Rightarrow>
        if r_len \<le> 0 then (0, h, l)
        else let h = h\<lparr>PKG_LEN := r_len, data := Some buffer\<rparr>;
                 (i, l) = SendPack P h l
             in if i \<noteq> 0 then (i, h, l)
                else let count = count + r_len; l = tell Msg sz count l in
                  if r_len = int SDBC_BLKSZ then send_file P W Msg sz (k + 1) rest' count h l else (0, h, l))"
  by pat_completeness auto
termination
  by (relation "measure (\<lambda>(P, W, Msg, sz, k, rest, count, h, l). length rest)")
    (auto simp: AIO_read_def Let_def SDBC_BLKSZ_def split: if_splits)

declare send_file.simps [simp del]

definition N_Put_File_Msg :: "'c client_ext peer \<Rightarrow> os \<Rightarrow> cli_var option \<Rightarrow> bytes \<Rightarrow> bytes \<Rightarrow> bool
    \<Rightarrow> 'c client_scheme \<Rightarrow> (int \<times> 'c client_scheme) option" where
  "N_Put_File_Msg P W clip local_file remote_file Msg l =
     (case clip of None \<Rightarrow> Some (FORMATERR, l)
      | Some v \<Rightarrow> do {
          n \<leftarrow> service v ''PutFile'';
          (case n of None \<Rightarrow> Some (FORMATERR, l)
           | Some n \<Rightarrow> Some (
             let fd = fopen W Read local_file in
             if fd < 0 then (open_err W Read local_file, l)
             else
               let sz = N_Get_File_Size W fd;
                   (i, l) = SendPack P (request n 0 (ctx_id v) (int (length remote_file)) (Some remote_file)) l
               in if i \<noteq> 0 then (-1, l\<lparr>Errno := -1\<rparr>)
                  else case RecvPack P l of (i, h, l) \<Rightarrow>
                    if i \<noteq> 0 then (-1, l\<lparr>Errno := -1\<rparr>)
                    else if ERRNO1 h \<noteq> 0 then (ERRNO1 h, snd (EventCatch P (PROTO_NUM h) l))
                    else
                      let h = h\<lparr>PROTO_NUM := 1, ERRNO2 := PACK_CONTINUE, PKG_REC_NUM := 0, ERRNO1 := 0,
                                O_NODE := ctx_id v, D_NODE := 0\<rparr>;
                          (i, h, l) = send_file P W Msg sz 0 (content W local_file) 0 h l
                      in if i \<noteq> 0 then (i, l\<lparr>Errno := -1\<rparr>)
                         else
                           let h = h\<lparr>PKG_LEN := 0, data := None, ERRNO2 := 0, ERRNO1 := 0\<rparr>;
                               (i, l) = SendPack P h l
                           in if i \<noteq> 0 then (i, l\<lparr>Errno := -1\<rparr>)
                              else case RecvPack P l of (i, h, l) \<Rightarrow>
                                if i \<noteq> 0 then (i, l\<lparr>Errno := -1\<rparr>)
                                else (ERRNO1 h, snd (EventCatch P (PROTO_NUM h) l)))) })"

text \<open>One packet of \<open>N_Get_File_Msg\<close>: the end of the call, or the size, the number of the next
  write, the file, the count and the link.\<close>

definition take_block :: "'c client_ext peer \<Rightarrow> os \<Rightarrow> bool \<Rightarrow> int \<Rightarrow> nat \<Rightarrow> bytes \<Rightarrow> int \<Rightarrow> T_NetHead
    \<Rightarrow> 'c client_scheme
    \<Rightarrow> ((int \<times> bytes \<times> 'c client_scheme) + (int \<times> nat \<times> bytes \<times> int \<times> 'c client_scheme)) option" where
  "take_block P W Msg sz k file count h l =
     (if PKG_REC_NUM h > 0 then Some (Inr (PKG_REC_NUM h, k, file, count, l))
      else if PKG_LEN h = 0 then Some (Inr (sz, k, file, count, l))
      else do {
        s \<leftarrow> data h;
        let count = count + PKG_LEN h; (i, file) = AIO_write W k s file
        in Some (
          if i \<noteq> PKG_LEN h
          then Inl (io_err W k, file, (snd (EventCatch P (PROTO_NUM h) l))\<lparr>Errno := -1\<rparr>)
          else Inr (sz, k + 1, file, count, tell Msg sz count l)) })"

partial_function (option) receive_file :: "'c client_ext peer \<Rightarrow> os \<Rightarrow> bool \<Rightarrow> int \<Rightarrow> nat \<Rightarrow> bytes \<Rightarrow> int
    \<Rightarrow> 'c client_scheme \<Rightarrow> (int \<times> bytes \<times> 'c client_scheme) option" where
  "receive_file P W Msg sz k file count l =
     (case RecvPack P l of (i, h, l) \<Rightarrow>
        if i \<noteq> 0 then Some (i, file, l\<lparr>Errno := -1\<rparr>)
        else do {
          r \<leftarrow> take_block P W Msg sz k file count h l;
          (case r of
             Inl r \<Rightarrow> Some r
           | Inr (sz, k, file, count, l) \<Rightarrow>
               if ERRNO2 h = PACK_CONTINUE then receive_file P W Msg sz k file count l
               else Some (ERRNO1 h, file, snd (EventCatch P (PROTO_NUM h) l))) })"

text \<open>The second component is the local file, none when it was not opened.\<close>

definition N_Get_File_Msg :: "'c client_ext peer \<Rightarrow> os \<Rightarrow> cli_var option \<Rightarrow> bytes \<Rightarrow> bytes \<Rightarrow> bool
    \<Rightarrow> 'c client_scheme \<Rightarrow> (int \<times> bytes option \<times> 'c client_scheme) option" where
  "N_Get_File_Msg P W clip local_file remote_file Msg l =
     (case clip of None \<Rightarrow> Some (FORMATERR, None, l)
      | Some v \<Rightarrow> do {
          n \<leftarrow> service v ''GetFile'';
          (case n of None \<Rightarrow> Some (FORMATERR, None, l)
           | Some n \<Rightarrow>
             if fopen W Create_trunc local_file < 0 then Some (-1, None, l)
             else let (i, l) = SendPack P (request n 0 (ctx_id v) (int (length remote_file)) (Some remote_file)) l
                  in if i \<noteq> 0 then Some (i, Some [], l\<lparr>Errno := -1\<rparr>)
                     else map_option (\<lambda>(r, file, l). (r, Some file, l)) (receive_file P W Msg 0 0 [] 0 l)) })"

definition N_Put_File where
  "N_Put_File P W clip local_file remote_file = N_Put_File_Msg P W clip local_file remote_file False"

definition N_Get_File where
  "N_Get_File P W clip local_file remote_file = N_Get_File_Msg P W clip local_file remote_file False"

section \<open>Directory and environment\<close>

text \<open>One request and its answer, as \<open>N_PWD\<close>, \<open>N_ChDir\<close> and \<open>N_PutEnv\<close> have it.\<close>

definition ask :: "'c client_ext peer \<Rightarrow> cli_var option \<Rightarrow> string \<Rightarrow> int \<Rightarrow> int \<Rightarrow> bytes option \<Rightarrow> 'c client_scheme
    \<Rightarrow> (int \<times> T_NetHead option \<times> 'c client_scheme) option" where
  "ask P clip name err1 len d l =
     (case clip of None \<Rightarrow> Some (FORMATERR, None, l)
      | Some v \<Rightarrow> do {
          n \<leftarrow> service v name;
          (case n of None \<Rightarrow> Some (FORMATERR, None, l)
           | Some n \<Rightarrow> Some (
             let (i, l) = SendPack P (request n err1 (ctx_id v) len d) l in
             if i \<noteq> 0 then (-1, None, l\<lparr>Errno := -1\<rparr>)
             else case RecvPack P l of (i, h, l) \<Rightarrow>
               if i \<noteq> 0 then (-1, None, l\<lparr>Errno := -1\<rparr>)
               else (ERRNO1 h, Some h, snd (EventCatch P (PROTO_NUM h) l)))) })"

text \<open>\<open>N_PWD\<close> also gives what it copies to \<open>pwd_buf\<close>, whatever the size of that is.\<close>

definition N_PWD :: "'c client_ext peer \<Rightarrow> cli_var option \<Rightarrow> 'c client_scheme
    \<Rightarrow> (int \<times> bytes option \<times> 'c client_scheme) option" where
  "N_PWD P clip l =
     do { (r, h, l) \<leftarrow> ask P clip ''Pwd'' 0 0 None l;
          (case h of None \<Rightarrow> Some (r, None, l)
           | Some h \<Rightarrow> if r \<noteq> 0 \<or> PKG_LEN h = 0 then Some (r, None, l)
               else do { s \<leftarrow> data h; Some (0, Some (c_text s), l) }) }"

definition N_ChDir :: "'c client_ext peer \<Rightarrow> cli_var option \<Rightarrow> bytes \<Rightarrow> 'c client_scheme
    \<Rightarrow> (int \<times> 'c client_scheme) option" where
  "N_ChDir P clip dir l = map_option (\<lambda>(r, h, l). (r, l)) (ask P clip ''ChDir'' 0 (int (length dir)) (Some dir) l)"

definition N_PutEnv :: "'c client_ext peer \<Rightarrow> cli_var option \<Rightarrow> bytes \<Rightarrow> 'c client_scheme
    \<Rightarrow> (int \<times> 'c client_scheme) option" where
  "N_PutEnv P clip env l = map_option (\<lambda>(r, h, l). (r, l)) (ask P clip ''PutEnv'' 2 (int (length env)) (Some env) l)"

section \<open>A connection\<close>

definition calm :: "'l peer" where
  "calm = \<lparr>recv = \<lambda>k. (0, request 0 0 0 0 None), send = \<lambda>k. 0, Event_proc = None, LocalAddr = 0\<rparr>"

definition new_client :: client where
  "new_client = \<lparr>received = 0, sent = [], Errno = 0, NativeError = 0, ErrMsg = [], status = 0, progress = []\<rparr>"

definition svc_list :: "(int \<times> string) list \<Rightarrow> srv_list list" where
  "svc_list L = map (\<lambda>(n, s). \<lparr>srv_no = n, srv_name = chars s\<rparr>) L"

definition svc_var :: "(int \<times> string) list \<Rightarrow> cli_var" where
  "svc_var L = \<lparr>ctx_id = 0, svc_tbl = Some \<lparr>srvn = int (length (svc_list L)), srv_hash = mk_srv_hash (svc_list L),
     srvlist = Some (svc_list L), usage = 0\<rparr>\<rparr>"

lemma listed_service:
  assumes "(n, name) \<in> set L" "\<forall>(m, t)\<in>set L. chars t = chars name \<longrightarrow> m = n" "n \<noteq> 1"
  shows "service (svc_var L) name = Some (Some n)"
proof -
  have "svc_list L \<noteq> []" using assms(1) by (auto simp: svc_list_def)
  moreover have "chars name \<in> srv_name ` set (svc_list L)"
    using assms(1) by (force simp: svc_list_def)
  moreover have "srv_no s = n" if "s \<in> set (svc_list L)" "srv_name s = chars name" for s
    using that assms(2) by (auto simp: svc_list_def)
  ultimately have "get_srv_no (svc_tbl (svc_var L)) (chars name) = Some n"
    using get_srv_no_correct [of "svc_list L" 0 "chars name"] by (auto simp: svc_var_def)
  then show ?thesis using assms(3) by (simp add: service_def)
qed

end
