(* ===== verification/File_Transfer.thy ===== *)
theory File_Transfer
  imports Remote_Client Pack_Round_Trip
begin

text \<open>Client and server of a file transfer together: each receives what the other sends.\<close>

section \<open>Blocks\<close>

text \<open>The pieces a loop of reads gets from a file: it stops at an error, at the end, and at a
  piece that is not a whole block.\<close>

function reads :: "os \<Rightarrow> nat \<Rightarrow> bytes \<Rightarrow> bytes list" where
  "reads W k rest =
     (case AIO_read W k rest of (r_len, b, rest') \<Rightarrow>
        if r_len \<le> 0 then [] else b # (if r_len = int SDBC_BLKSZ then reads W (k + 1) rest' else []))"
  by pat_completeness auto
termination
  by (relation "measure (\<lambda>(W, k, rest). length rest)")
    (auto simp: AIO_read_def Let_def SDBC_BLKSZ_def split: if_splits)

declare reads.simps [simp del]

text \<open>Every read and write up to the n-th is done in full.\<close>

definition full_to :: "os \<Rightarrow> nat \<Rightarrow> bool" where
  "full_to W n \<longleftrightarrow> (\<forall>k<n. int SDBC_BLKSZ \<le> io W k)"

definition full :: "os \<Rightarrow> bool" where
  "full W \<longleftrightarrow> (\<forall>k. int SDBC_BLKSZ \<le> io W k)"

lemma blksz: "0 < SDBC_BLKSZ" "int SDBC_BLKSZ \<noteq> 0" by (simp_all add: SDBC_BLKSZ_def)

lemma AIO_read_full:
  assumes "int SDBC_BLKSZ \<le> io W k"
  shows "AIO_read W k rest = (int (min SDBC_BLKSZ (length rest)), take SDBC_BLKSZ rest, drop SDBC_BLKSZ rest)"
proof -
  have "SDBC_BLKSZ \<le> nat (io W k)" "\<not> io W k < 0" using assms by linarith+
  then show ?thesis by (simp add: AIO_read_def Let_def min_def)
qed

lemma AIO_read_piece: "AIO_read W k rest = (r, b, rest') \<Longrightarrow> 0 < r \<Longrightarrow> r = int (length b) \<and> length b \<le> SDBC_BLKSZ"
  by (auto simp: AIO_read_def Let_def split: if_splits)

lemma AIO_write_full: "int SDBC_BLKSZ \<le> io W k \<Longrightarrow> length s \<le> SDBC_BLKSZ \<Longrightarrow>
    AIO_write W k s file = (int (length s), file @ s)"
  by (auto simp: AIO_write_def Let_def min_def)

lemma reads_sizes: "b \<in> set (reads W k rest) \<Longrightarrow> b \<noteq> [] \<and> length b \<le> SDBC_BLKSZ"
proof (induction W k rest rule: reads.induct)
  case (1 W k rest)
  obtain r c rest' where r: "AIO_read W k rest = (r, c, rest')" by (cases "AIO_read W k rest")
  note p = AIO_read_piece [OF r]
  show ?case
  proof (cases "r \<le> 0")
    case True
    then show ?thesis using 1(2) r by (subst (asm) reads.simps) simp
  next
    case False
    then have "c \<noteq> []" "length c \<le> SDBC_BLKSZ" using p by auto
    moreover have "b = c \<or> r = int SDBC_BLKSZ \<and> b \<in> set (reads W (k + 1) rest')"
      using 1(2) r False by (subst (asm) reads.simps) (auto split: if_splits)
    ultimately show ?thesis using 1(1) [OF r [symmetric] refl False] by auto
  qed
qed

lemma reads_full_step:
  assumes "int SDBC_BLKSZ \<le> io W k"
  shows "concat (reads W k rest) = take SDBC_BLKSZ rest @ concat (if rest = [] then [] else reads W (k + 1) (drop SDBC_BLKSZ rest))"
proof (cases "length rest < SDBC_BLKSZ")
  case True
  moreover have "reads W (k + 1) [] = []"
    by (subst reads.simps) (auto simp: AIO_read_def split: prod.split)
  ultimately show ?thesis using blksz by (subst reads.simps) (auto simp: AIO_read_full [OF assms])
next
  case False
  then have "min SDBC_BLKSZ (length rest) = SDBC_BLKSZ" "rest \<noteq> []" using blksz by auto
  then show ?thesis using blksz by (subst reads.simps) (simp add: AIO_read_full [OF assms])
qed

lemma reads_full: "full W \<Longrightarrow> concat (reads W k rest) = rest"
proof (induction rest arbitrary: k rule: length_induct)
  case (1 rest)
  have "concat (if rest = [] then [] else reads W (k + 1) (drop SDBC_BLKSZ rest)) = drop SDBC_BLKSZ rest"
    using 1(1) [rule_format, of "drop SDBC_BLKSZ rest"] 1(2) blksz(1) by simp
  then show ?case using reads_full_step [of W k rest] 1(2) by (simp add: full_def)
qed

lemma reads_error:
  assumes "io W n < 0"
  shows "full_to W n \<Longrightarrow> k \<le> n \<Longrightarrow> concat (reads W k rest) = take ((n - k) * SDBC_BLKSZ) rest"
proof (induction "n - k" arbitrary: k rest)
  case 0
  then show ?case using assms by (subst reads.simps) (simp add: AIO_read_def)
next
  case (Suc j)
  have k: "int SDBC_BLKSZ \<le> io W k" "k + 1 \<le> n" "n - k = Suc (n - (k + 1))"
    using Suc(2,3) by (simp_all add: full_to_def)
  have "concat (reads W (k + 1) (drop SDBC_BLKSZ rest)) = take ((n - (k + 1)) * SDBC_BLKSZ) (drop SDBC_BLKSZ rest)"
    using Suc(1) [of "k + 1"] Suc(2,3) k(2) by simp
  then show ?case using reads_full_step [OF k(1), of rest] unfolding k(3)
    by (simp add: take_add)
qed

section \<open>The loops\<close>

text \<open>Headers that differ only in what describes the body.\<close>

definition with_block :: "T_NetHead \<Rightarrow> bytes \<Rightarrow> T_NetHead" where
  "with_block h b = h\<lparr>PKG_LEN := int (length b), data := Some b\<rparr>"

definition same_but_body :: "T_NetHead \<Rightarrow> T_NetHead \<Rightarrow> bool" where
  "same_but_body h h' \<longleftrightarrow> (\<forall>n d. h'\<lparr>PKG_LEN := n, data := d\<rparr> = h\<lparr>PKG_LEN := n, data := d\<rparr>)"

lemma same_but_body_simps [simp]: "same_but_body h h" "same_but_body h (with_block h b)"
  "same_but_body (with_block h b) h' = same_but_body h h'"
  by (auto simp: same_but_body_def with_block_def)

lemma with_block_again [simp]: "with_block (with_block h b) c = with_block h c"
  by (simp add: with_block_def)

lemma tell_link [simp]: "sent (tell Msg sz n l) = sent l" "received (tell Msg sz n l) = received l"
    "Errno (tell Msg sz n l) = Errno l"
  by (simp_all add: tell_def)

lemma send_file_blocks:
  assumes "\<And>k. send P k = 0"
  shows "\<exists>h' l'. send_file P W Msg sz k rest count h l = (0, h', l') \<and> same_but_body h h' \<and>
    sent l' = sent l @ map (with_block h) (reads W k rest) \<and> received l' = received l \<and> Errno l' = Errno l"
proof (induction W k rest arbitrary: count h l rule: reads.induct)
  case (1 W k rest)
  obtain r b rest' where r: "AIO_read W k rest = (r, b, rest')" by (cases "AIO_read W k rest")
  let ?h = "with_block h b" and ?l = "tell Msg sz (count + r) (l\<lparr>sent := sent l @ [with_block h b]\<rparr>)"
  consider "r \<le> 0" | "0 < r" "r \<noteq> int SDBC_BLKSZ" | "0 < r" "r = int SDBC_BLKSZ" by linarith
  then show ?case
  proof cases
    case 1
    then show ?thesis using r by (subst send_file.simps, subst reads.simps) simp
  next
    case 2
    then have "h\<lparr>PKG_LEN := r, data := Some b\<rparr> = ?h" using AIO_read_piece [OF r] by (simp add: with_block_def)
    then have "send_file P W Msg sz k rest count h l = (0, ?h, ?l)"
      using r 2 assms by (subst send_file.simps) (simp add: SendPack_def Let_def)
    moreover have "reads W k rest = [b]" using r 2 by (subst reads.simps) simp
    ultimately show ?thesis by simp
  next
    case 3
    then have h: "h\<lparr>PKG_LEN := r, data := Some b\<rparr> = ?h" using AIO_read_piece [OF r] by (simp add: with_block_def)
    have "send_file P W Msg sz k rest count h l = send_file P W Msg sz (k + 1) rest' (count + r) ?h ?l"
      using r 3 assms h by (subst send_file.simps) (simp add: SendPack_def Let_def)
    moreover have "reads W k rest = b # reads W (k + 1) rest'" using r 3 by (subst reads.simps) simp
    moreover have "\<not> r \<le> 0" using 3 by simp
    note IH = 1 [OF r [symmetric] refl this 3(2), of "count + r" ?h ?l]
    ultimately show ?thesis using IH by (auto simp: comp_def)
  qed
qed

text \<open>The blocks the server sends have their own mark and number.\<close>

definition get_block :: "T_NetHead \<Rightarrow> bytes \<Rightarrow> T_NetHead" where
  "get_block h b = (with_block h b)\<lparr>PROTO_NUM := 0, ERRNO2 := PACK_CONTINUE\<rparr>"

lemma get_loop_blocks:
  assumes "\<And>k. send P k = 0"
  shows "\<exists>h' l'. get_loop P W k rest h l = (False, h', l') \<and> PKG_REC_NUM h' = PKG_REC_NUM h \<and> ERRNO1 h' = ERRNO1 h \<and>
    sent l' = sent l @ map (get_block h) (reads W k rest) \<and> received l' = received l"
proof (induction W k rest arbitrary: h l rule: reads.induct)
  case (1 W k rest)
  obtain r b rest' where r: "AIO_read W k rest = (r, b, rest')" by (cases "AIO_read W k rest")
  let ?h = "get_block h b" and ?l = "l\<lparr>sent := sent l @ [get_block h b]\<rparr>"
  have again: "get_block ?h = get_block h" by (simp add: get_block_def with_block_def fun_eq_iff)
  consider "r \<le> 0" | "0 < r" "r \<noteq> int SDBC_BLKSZ" | "0 < r" "r = int SDBC_BLKSZ" by linarith
  then show ?case
  proof cases
    case 1
    then show ?thesis using r by (subst get_loop.simps, subst reads.simps) simp
  next
    case 2
    then have "h\<lparr>PROTO_NUM := 0, PKG_LEN := r, data := Some b, ERRNO2 := PACK_CONTINUE\<rparr> = ?h"
      using AIO_read_piece [OF r] by (simp add: get_block_def with_block_def)
    then have "get_loop P W k rest h l = (False, ?h, ?l)"
      using r 2 assms by (subst get_loop.simps) (simp add: SendPack_def Let_def)
    moreover have "reads W k rest = [b]" using r 2 by (subst reads.simps) simp
    ultimately show ?thesis by (simp add: get_block_def with_block_def)
  next
    case 3
    then have h: "h\<lparr>PROTO_NUM := 0, PKG_LEN := r, data := Some b, ERRNO2 := PACK_CONTINUE\<rparr> = ?h"
      using AIO_read_piece [OF r] by (simp add: get_block_def with_block_def)
    have "get_loop P W k rest h l = get_loop P W (k + 1) rest' ?h ?l"
      using r 3 assms h by (subst get_loop.simps) (simp add: SendPack_def Let_def)
    moreover have "reads W k rest = b # reads W (k + 1) rest'" using r 3 by (subst reads.simps) simp
    moreover have "\<not> r \<le> 0" using 3 by simp
    note IH = 1 [OF r [symmetric] refl this 3(2), of ?h ?l]
    ultimately show ?thesis using IH again by (auto simp: get_block_def with_block_def)
  qed
qed

lemma put_loop_blocks:
  assumes "full W"
  shows "(\<And>j. j < length bs \<Longrightarrow> recv P (received l + j) = (0, with_block h (bs ! j))) \<Longrightarrow>
    recv P (received l + length bs) = (0, fin) \<Longrightarrow> ERRNO2 h = PACK_CONTINUE \<Longrightarrow>
    PKG_LEN fin = 0 \<Longrightarrow> ERRNO2 fin \<noteq> PACK_CONTINUE \<Longrightarrow> (\<And>b. b \<in> set bs \<Longrightarrow> b \<noteq> [] \<and> length b \<le> SDBC_BLKSZ) \<Longrightarrow>
    put_loop P W k 0 file l = Some (0, 0, file @ concat bs, fin, l\<lparr>received := received l + length bs + 1\<rparr>)"
proof (induction bs arbitrary: k "file" l)
  case Nil
  then show ?case by (subst put_loop.simps) (simp add: RecvPack_def)
next
  case (Cons b bs)
  let ?l = "l\<lparr>received := received l + 1\<rparr>"
  have b: "b \<noteq> []" "length b \<le> SDBC_BLKSZ" using Cons.prems(6) by auto
  have "RecvPack P l = (0, with_block h b, ?l)" using Cons.prems(1) [of 0] by (simp add: RecvPack_def)
  then have "put_loop P W k 0 file l = put_loop P W (k + 1) 0 (file @ b) ?l"
    using AIO_write_full [OF _ b(2)] assms b(1) Cons.prems(3)
    by (subst put_loop.simps) (simp add: with_block_def full_def Let_def)
  also have "\<dots> = Some (0, 0, (file @ b) @ concat bs, fin, ?l\<lparr>received := received ?l + length bs + 1\<rparr>)"
  proof (rule Cons.IH)
    show "recv P (received ?l + j) = (0, with_block h (bs ! j))" if "j < length bs" for j
      using Cons.prems(1) [of "Suc j"] that by simp
    show "recv P (received ?l + length bs) = (0, fin)" using Cons.prems(2) by simp
  qed (use Cons.prems in auto)
  finally show ?case by simp
qed

lemma receive_file_blocks:
  assumes "full W" "Event_proc P = None"
  shows "(\<And>j. j < length bs \<Longrightarrow> recv P (received l + j) = (0, get_block h (bs ! j))) \<Longrightarrow>
    recv P (received l + length bs) = (0, fin) \<Longrightarrow> PKG_REC_NUM h = 0 \<Longrightarrow> PKG_REC_NUM fin = 0 \<Longrightarrow>
    PKG_LEN fin = 0 \<Longrightarrow> ERRNO2 fin \<noteq> PACK_CONTINUE \<Longrightarrow> (\<And>b. b \<in> set bs \<Longrightarrow> b \<noteq> [] \<and> length b \<le> SDBC_BLKSZ) \<Longrightarrow>
    \<exists>l'. receive_file P W Msg sz k file count l = Some (ERRNO1 fin, file @ concat bs, l') \<and> sent l' = sent l \<and>
      Errno l' = Errno l"
proof (induction bs arbitrary: k "file" count l)
  case Nil
  then show ?case using assms(2)
    by (subst receive_file.simps) (simp add: RecvPack_def take_block_def EventCatch_def)
next
  case (Cons b bs)
  let ?l = "tell Msg sz (count + int (length b)) (l\<lparr>received := received l + 1\<rparr>)"
  have b: "b \<noteq> []" "length b \<le> SDBC_BLKSZ" using Cons.prems(7) by auto
  have "RecvPack P l = (0, get_block h b, l\<lparr>received := received l + 1\<rparr>)"
    using Cons.prems(1) [of 0] by (simp add: RecvPack_def)
  moreover have "take_block P W Msg sz k file count (get_block h b) (l\<lparr>received := received l + 1\<rparr>) =
      Some (Inr (sz, k + 1, file @ b, count + int (length b), ?l))"
    using AIO_write_full [OF _ b(2)] assms(1) b(1) Cons.prems(3)
    by (simp add: take_block_def get_block_def with_block_def full_def Let_def)
  ultimately have "receive_file P W Msg sz k file count l =
      receive_file P W Msg sz (k + 1) (file @ b) (count + int (length b)) ?l"
    by (subst receive_file.simps) (simp add: get_block_def)
  moreover have "\<exists>l'. receive_file P W Msg sz (k + 1) (file @ b) (count + int (length b)) ?l =
      Some (ERRNO1 fin, (file @ b) @ concat bs, l') \<and> sent l' = sent ?l \<and> Errno l' = Errno ?l"
  proof (rule Cons.IH)
    show "recv P (received ?l + j) = (0, get_block h (bs ! j))" if "j < length bs" for j
      using Cons.prems(1) [of "Suc j"] that by simp
    show "recv P (received ?l + length bs) = (0, fin)" using Cons.prems(2) by simp
  qed (use Cons.prems in auto)
  ultimately show ?case by simp
qed

section \<open>Transfers\<close>

text \<open>The answers of \<open>PutFile\<close> and the packets of \<open>N_Put_File\<close>.\<close>

definition put_ready :: "int \<Rightarrow> T_NetHead \<Rightarrow> T_NetHead" where
  "put_ready addr h = h\<lparr>PROTO_NUM := 0, ERRNO1 := 0, ERRNO2 := 0, PKG_REC_NUM := 0, PKG_LEN := 0,
     O_NODE := addr, D_NODE := 0, data := None\<rparr>"

definition put_block :: "int \<Rightarrow> T_NetHead \<Rightarrow> T_NetHead" where
  "put_block ctx h = h\<lparr>PROTO_NUM := 1, ERRNO2 := PACK_CONTINUE, PKG_REC_NUM := 0, ERRNO1 := 0,
     O_NODE := ctx, D_NODE := 0\<rparr>"

definition put_end :: "T_NetHead \<Rightarrow> T_NetHead" where
  "put_end h = h\<lparr>PKG_LEN := 0, data := None, ERRNO2 := 0, ERRNO1 := 0\<rparr>"

lemma client_puts:
  assumes "quiet C" "at_start c0" "service v ''PutFile'' = Some (Some n)" "0 \<le> fopen W Read from_file"
    and "ERRNO1 h = 0" "ERRNO1 e = 0"
  shows "\<exists>c. N_Put_File_Msg (hearing C [h, e]) W (Some v) from_file to_file Msg c0 = Some (0, c) \<and>
    Errno c = Errno c0 \<and>
    sent c = request n 0 (ctx_id v) (int (length to_file)) (Some to_file) #
      map (with_block (put_block (ctx_id v) h)) (reads W 0 (content W from_file)) @
      [put_end (put_block (ctx_id v) h)]"
proof -
  let ?P = "hearing C [h, e]" and ?h = "put_block (ctx_id v) h" and ?sz = "N_Get_File_Size W (fopen W Read from_file)"
  let ?l = "c0\<lparr>sent := [request n 0 (ctx_id v) (int (length to_file)) (Some to_file)], received := 1\<rparr>"
  obtain h' l' where s: "send_file ?P W Msg ?sz 0 (content W from_file) 0 ?h ?l = (0, h', l')"
      "same_but_body ?h h'" "received l' = 1" "Errno l' = Errno c0"
      "sent l' = request n 0 (ctx_id v) (int (length to_file)) (Some to_file) # map (with_block ?h) (reads W 0 (content W from_file))"
    using send_file_blocks [of ?P W Msg ?sz 0 "content W from_file" 0 ?h ?l] assms(1)
    by (auto simp: quiet_simps)
  have "h'\<lparr>PKG_LEN := 0, data := None, ERRNO2 := 0, ERRNO1 := 0\<rparr> = put_end ?h"
    using s(2) by (simp add: same_but_body_def put_end_def)
  then show ?thesis
    using assms s by (simp add: N_Put_File_Msg_def SendPack_def RecvPack_def quiet_simps at_start_def put_block_def Let_def)
qed

lemma server_puts:
  assumes "quiet S" "at_start s0" "full W" "to_file \<noteq> []"
    and "substitute_env E (put_name E (fst (stptok_copy lib to_file (int SDBC_BLKSZ)))) = Some name"
    and "0 \<le> fst (put_open W False name)" "\<And>b. b \<in> set bs \<Longrightarrow> b \<noteq> [] \<and> length b \<le> SDBC_BLKSZ"
    and "ERRNO2 h = PACK_CONTINUE"
  shows "\<exists>h' s. PutFile lib E W (hearing S (map (with_block h) bs @ [put_end h])) (request n 0 ctx (int (length to_file)) (Some to_file)) s0 =
      Some (0, Some (concat bs), h', s) \<and> ERRNO1 h' = 0 \<and>
    sent s = [put_ready (LocalAddr S) (request n 0 ctx (int (length to_file)) (Some to_file)), h']"
proof -
  let ?P = "hearing S (map (with_block h) bs @ [put_end h])"
  let ?l = "s0\<lparr>sent := [put_ready (LocalAddr S) (request n 0 ctx (int (length to_file)) (Some to_file))]\<rparr>"
  have "put_loop ?P W 0 0 [] ?l = Some (0, 0, [] @ concat bs, put_end h, ?l\<lparr>received := received ?l + length bs + 1\<rparr>)"
    by (rule put_loop_blocks)
      (use assms in \<open>auto simp: at_start_def nth_append put_end_def PACK_CONTINUE_def\<close>)
  then show ?thesis
    using assms
    by (cases "put_open W False name")
      (simp add: PutFile_def request_def answer_def SendPack_def quiet_simps at_start_def put_ready_def Let_def)
qed

text \<open>C24: A file that the client can read, and the server can open, arrives whole: the packets
  \<open>N_Put_File_Msg\<close> and \<open>PutFile\<close> send each other make both calls end, the client's with 0, and the
  file written by the server is the client's.\<close>

theorem put_file_transfers:
  assumes "quiet C" "quiet S" "at_start c0" "at_start s0" "full WC" "full WS"
    and "service v ''PutFile'' = Some (Some n)" "0 \<le> fopen WC Read from_file" "to_file \<noteq> []"
    and "substitute_env E (put_name E (fst (stptok_copy lib to_file (int SDBC_BLKSZ)))) = Some name"
    and "0 \<le> fst (put_open WS False name)"
  shows "\<exists>c s h. N_Put_File_Msg (hearing C (sent s)) WC (Some v) from_file to_file Msg c0 = Some (0, c) \<and>
    PutFile lib E WS (hearing S (tl (sent c))) (hd (sent c)) s0 = Some (0, Some (content WC from_file), h, s) \<and>
    Errno c = Errno c0"
proof -
  let ?q = "request n 0 (ctx_id v) (int (length to_file)) (Some to_file)" and ?bs = "reads WC 0 (content WC from_file)"
  let ?b = "put_block (ctx_id v) (put_ready (LocalAddr S) ?q)"
  obtain h s where s: "PutFile lib E WS (hearing S (map (with_block ?b) ?bs @ [put_end ?b])) ?q s0 =
      Some (0, Some (concat ?bs), h, s)" "ERRNO1 h = 0" "sent s = [put_ready (LocalAddr S) ?q, h]"
    using server_puts [OF assms(2,4,6,9,10,11), of ?bs ?b n "ctx_id v"] reads_sizes
    by (auto simp: put_block_def)
  obtain c where "N_Put_File_Msg (hearing C (sent s)) WC (Some v) from_file to_file Msg c0 = Some (0, c)"
      "Errno c = Errno c0" "sent c = ?q # map (with_block ?b) ?bs @ [put_end ?b]"
    using client_puts [OF assms(1,3,7,8), of "put_ready (LocalAddr S) ?q" h to_file Msg] s(2,3)
    by (auto simp: put_ready_def)
  then show ?thesis using s(1) reads_full [OF assms(5), of 0 "content WC from_file"]
    by (intro exI [of _ c] exI [of _ s] exI [of _ h]) simp
qed

text \<open>The packets of \<open>GetFile\<close> and the client that takes them.\<close>

lemma server_gets:
  assumes "quiet S" "at_start s0" "valloc W"
    and "substitute_env E (fst (stptok_copy lib from_file 1024)) = Some name" "0 \<le> fopen W Read name"
    and "0 < GetFileSize W (fopen W Read name)"
  shows "\<exists>h0 h1 h2 s. GetFile lib E W S (request n 0 ctx (int (length from_file)) (Some from_file)) s0 = Some (0, h2, s) \<and>
    sent s = h0 # map (get_block h1) (reads W 0 (content W name)) @ [h2] \<and>
    0 < PKG_REC_NUM h0 \<and> ERRNO2 h0 = PACK_CONTINUE \<and> PKG_REC_NUM h1 = 0 \<and>
    PKG_REC_NUM h2 = 0 \<and> PKG_LEN h2 = 0 \<and> ERRNO2 h2 = 0 \<and> ERRNO1 h2 = 0"
proof -
  let ?fd = "fopen W Read name"
  let ?h0 = "(request n 0 ctx (int (length from_file)) (Some from_file))\<lparr>PKG_LEN := 0, ERRNO2 := PACK_CONTINUE, ERRNO1 := 0, PROTO_NUM := 0,
    PKG_REC_NUM := GetFileSize W ?fd, D_NODE := 0, O_NODE := LocalAddr S\<rparr>"
  let ?h1 = "?h0\<lparr>PKG_REC_NUM := 0\<rparr>"
  obtain h l where g: "get_loop S W 0 (content W name) ?h1 (s0\<lparr>sent := [?h0]\<rparr>) = (False, h, l)"
      "PKG_REC_NUM h = 0" "ERRNO1 h = 0" "sent l = ?h0 # map (get_block ?h1) (reads W 0 (content W name))"
    using get_loop_blocks [of S W 0 "content W name" ?h1 "s0\<lparr>sent := [?h0]\<rparr>"] assms(1) by (auto simp: quiet_simps)
  show ?thesis
    by (intro exI [of _ ?h0] exI [of _ ?h1] exI [of _ "h\<lparr>PROTO_NUM := 0, ERRNO2 := 0, data := None, PKG_LEN := 0\<rparr>"]
          exI [of _ "l\<lparr>sent := sent l @ [h\<lparr>PROTO_NUM := 0, ERRNO2 := 0, data := None, PKG_LEN := 0\<rparr>]\<rparr>"])
      (use assms g in \<open>simp add: GetFile_def answer_def SendPack_def quiet_simps at_start_def request_def Let_def\<close>)
qed

lemma client_gets:
  assumes "quiet C" "at_start c0" "full W" "service v ''GetFile'' = Some (Some n)"
    and "0 \<le> fopen W Create_trunc to_file" "0 < PKG_REC_NUM h0" "ERRNO2 h0 = PACK_CONTINUE" "PKG_REC_NUM h1 = 0"
    and "PKG_REC_NUM h2 = 0" "PKG_LEN h2 = 0" "ERRNO2 h2 = 0" "ERRNO1 h2 = 0"
    and "\<And>b. b \<in> set bs \<Longrightarrow> b \<noteq> [] \<and> length b \<le> SDBC_BLKSZ"
  shows "\<exists>c. N_Get_File_Msg (hearing C (h0 # map (get_block h1) bs @ [h2])) W (Some v) to_file from_file Msg c0 =
      Some (0, Some (concat bs), c) \<and> Errno c = Errno c0 \<and> sent c = [request n 0 (ctx_id v) (int (length from_file)) (Some from_file)]"
proof -
  let ?P = "hearing C (h0 # map (get_block h1) bs @ [h2])"
  let ?c = "c0\<lparr>sent := [request n 0 (ctx_id v) (int (length from_file)) (Some from_file)]\<rparr>"
  obtain l' where l': "receive_file ?P W Msg (PKG_REC_NUM h0) 0 [] 0 (?c\<lparr>received := 1\<rparr>) =
      Some (ERRNO1 h2, [] @ concat bs, l')" "sent l' = sent ?c" "Errno l' = Errno ?c"
    using receive_file_blocks [of W ?P bs "?c\<lparr>received := 1\<rparr>" h1 h2 Msg "PKG_REC_NUM h0" 0 "[]" 0] assms
    by (auto simp: quiet_simps nth_append PACK_CONTINUE_def)
  have "RecvPack ?P ?c = (0, h0, ?c\<lparr>received := 1\<rparr>)"
    using assms(2) by (simp add: RecvPack_def at_start_def)
  then have "receive_file ?P W Msg 0 0 [] 0 ?c = Some (0, concat bs, l')"
    using l' assms by (subst receive_file.simps) (simp add: take_block_def)
  then show ?thesis using assms l'
    by (simp add: N_Get_File_Msg_def SendPack_def quiet_simps at_start_def)
qed

text \<open>Both together: the client gets what the server's reads gave, and is told that all went well.\<close>

lemma get_file_session:
  assumes "quiet C" "quiet S" "at_start c0" "at_start s0" "full WC" "valloc WS"
    and "service v ''GetFile'' = Some (Some n)" "0 \<le> fopen WC Create_trunc to_file"
    and "substitute_env E (fst (stptok_copy lib from_file 1024)) = Some name" "0 \<le> fopen WS Read name"
    and "0 < GetFileSize WS (fopen WS Read name)"
  shows "\<exists>c s h. N_Get_File_Msg (hearing C (sent s)) WC (Some v) to_file from_file Msg c0 =
      Some (0, Some (concat (reads WS 0 (content WS name))), c) \<and>
    GetFile lib E WS S (hd (sent c)) s0 = Some (0, h, s) \<and> Errno c = Errno c0"
proof -
  obtain h0 h1 h2 s where s: "GetFile lib E WS S (request n 0 (ctx_id v) (int (length from_file)) (Some from_file)) s0 = Some (0, h2, s)"
      "sent s = h0 # map (get_block h1) (reads WS 0 (content WS name)) @ [h2]"
      "0 < PKG_REC_NUM h0" "ERRNO2 h0 = PACK_CONTINUE" "PKG_REC_NUM h1 = 0"
      "PKG_REC_NUM h2 = 0" "PKG_LEN h2 = 0" "ERRNO2 h2 = 0" "ERRNO1 h2 = 0"
    using server_gets [OF assms(2,4,6,9,10,11)] by blast
  obtain c where "N_Get_File_Msg (hearing C (sent s)) WC (Some v) to_file from_file Msg c0 =
      Some (0, Some (concat (reads WS 0 (content WS name))), c)" "Errno c = Errno c0"
      "sent c = [request n 0 (ctx_id v) (int (length from_file)) (Some from_file)]"
    using client_gets [OF assms(1,3,5,7,8) s(3-9), of "reads WS 0 (content WS name)" from_file Msg] reads_sizes
    unfolding s(2) by blast
  then show ?thesis using s(1) by (intro exI [of _ c] exI [of _ s] exI [of _ h2]) simp
qed

text \<open>C25: A file that can be read by the server and written by the client, and whose size, cut to an
  \<open>int\<close> as \<open>GetFileSize\<close> does, is positive, arrives whole through \<open>GetFile\<close> and \<open>N_Get_File_Msg\<close>, and both
  calls end with 0.\<close>

theorem get_file_transfers:
  assumes "quiet C" "quiet S" "at_start c0" "at_start s0" "full WC" "full WS" "valloc WS"
    and "service v ''GetFile'' = Some (Some n)" "0 \<le> fopen WC Create_trunc to_file"
    and "substitute_env E (fst (stptok_copy lib from_file 1024)) = Some name" "0 \<le> fopen WS Read name"
    and "0 < GetFileSize WS (fopen WS Read name)"
  shows "\<exists>c s h. N_Get_File_Msg (hearing C (sent s)) WC (Some v) to_file from_file Msg c0 =
      Some (0, Some (content WS name), c) \<and>
    GetFile lib E WS S (hd (sent c)) s0 = Some (0, h, s) \<and> Errno c = Errno c0"
  using get_file_session [OF assms(1-5,7-12)] reads_full [OF assms(6), of 0 "content WS name"] by simp

text \<open>A file of 2 to 4 gigabytes has a negative size as an \<open>int\<close>: it is refused with \<open>EINVAL\<close>.\<close>

theorem large_file_is_refused:
  assumes "quiet S" "at_start s0"
    and "substitute_env E (fst (stptok_copy lib from_file 1024)) = Some name" "0 < fopen W Read name"
    and "fstat W (fopen W Read name) = Some (True, sz)" "2 ^ 31 \<le> sz" "sz < 2 ^ 32"
  shows "\<exists>h s. GetFile lib E W S (request n 0 ctx (int (length from_file)) (Some from_file)) s0 = Some (0, h, s) \<and>
    sent s = [h] \<and> ERRNO1 h = EINVAL \<and> ERRNO2 h = 0 \<and> data h = Some from_file"
proof -
  have "(of_int sz :: 32 word) = of_int (sz - 2 ^ 32)" by simp
  then have "to_int sz = to_int (sz - 2 ^ 32)" by (simp only: to_int_def)
  also have "\<dots> = sz - 2 ^ 32" using assms(6,7) by (intro to_int_small) auto
  finally have "GetFileSize W (fopen W Read name) < 0" using assms(4-7) by (simp add: GetFileSize_def)
  then show ?thesis using assms(1-4)
    by (simp add: GetFile_def answer_def SendPack_def quiet_simps at_start_def request_def Let_def)
qed

text \<open>When a read of the server fails, \<open>N_Get_File_Msg\<close> still returns 0, the value of a transfer
  that went well, and leaves the blocks read before as the file.\<close>

theorem get_file_hides_read_error:
  assumes "quiet C" "quiet S" "at_start c0" "at_start s0" "full WC" "full_to WS k" "io WS k < 0" "valloc WS"
    and "service v ''GetFile'' = Some (Some n)" "0 \<le> fopen WC Create_trunc to_file"
    and "substitute_env E (fst (stptok_copy lib from_file 1024)) = Some name" "0 \<le> fopen WS Read name"
    and "0 < GetFileSize WS (fopen WS Read name)"
  shows "\<exists>c s h. N_Get_File_Msg (hearing C (sent s)) WC (Some v) to_file from_file Msg c0 =
      Some (0, Some (take (k * SDBC_BLKSZ) (content WS name)), c) \<and>
    GetFile lib E WS S (hd (sent c)) s0 = Some (0, h, s) \<and> Errno c = Errno c0"
  using get_file_session [OF assms(1-5,8-13)] reads_error [OF assms(7,6), of 0 "content WS name"] by simp

section \<open>Instances\<close>

definition new_link :: link where
  "new_link = \<lparr>received = 0, sent = []\<rparr>"

definition two_services :: cli_var where
  "two_services = (let l = [\<lparr>srv_no = 2, srv_name = chars ''PutFile''\<rparr>, \<lparr>srv_no = 3, srv_name = chars ''GetFile''\<rparr>]
     in \<lparr>ctx_id = 0, svc_tbl = Some \<lparr>srvn = 2, srv_hash = mk_srv_hash l, srvlist = Some l, usage = 0\<rparr>\<rparr>)"

text \<open>A file of 70000 bytes, read in full or with the given results.\<close>

definition big_file :: "(nat \<Rightarrow> int) \<Rightarrow> os" where
  "big_file r = \<lparr>fopen = \<lambda>m name. 3, open_err = \<lambda>m name. 0, fstat = \<lambda>fd. Some (True, 70000),
     content = \<lambda>name. replicate 70000 7, io = r, io_err = \<lambda>k. 0, valloc = True\<rparr>"

lemma instance_facts:
  "quiet calm" "at_start new_client" "at_start new_link"
  "service two_services ''PutFile'' = Some (Some 2)" "service two_services ''GetFile'' = Some (Some 3)"
  "full (big_file (\<lambda>k. 65536))" "full_to (big_file (\<lambda>k. if k = 0 then 65536 else -1)) (Suc 0)"
  "fopen (big_file r) m name = 3" "GetFileSize (big_file r) 3 = 70000" "valloc (big_file r)"
  "content (big_file r) name = replicate 70000 7"
proof -
  show "service two_services ''PutFile'' = Some (Some 2)" "service two_services ''GetFile'' = Some (Some 3)"
    by (code_simp, simp add: slot_search.simps)+
qed (simp_all add: quiet_def calm_def at_start_def new_client_def new_link_def full_def full_to_def big_file_def
      SDBC_BLKSZ_def GetFileSize_def to_int_small)

lemma plain_file_name: "substitute_env home_env [97] = Some [97]" "put_name home_env [97] = [97]"
    "fst (stptok_copy plain_lib [97] n) = [97]"
  by (simp_all add: substitute_env_def subst_loop.simps env_ref_def put_name_def plain_lib_def)

lemma bad_read: "io (big_file r) k = r k"
  by (simp add: big_file_def)

theorem put_file_transfers_witness:
  "\<exists>c s h. N_Put_File_Msg (hearing calm (sent s)) (big_file (\<lambda>k. 65536)) (Some two_services) [98] [97] True new_client =
      Some (0, c) \<and>
    PutFile plain_lib home_env (big_file (\<lambda>k. 65536)) (hearing calm (tl (sent c))) (hd (sent c)) new_link =
      Some (0, Some (replicate 70000 7), h, s) \<and> Errno c = Errno new_client"
  using put_file_transfers [of calm calm new_client new_link "big_file (\<lambda>k. 65536)" "big_file (\<lambda>k. 65536)" two_services 2
      "[98]" "[97]" home_env plain_lib "[97]" True]
  by (simp add: instance_facts plain_file_name put_open_def)

theorem get_file_transfers_witness:
  "\<exists>c s h. N_Get_File_Msg (hearing calm (sent s)) (big_file (\<lambda>k. 65536)) (Some two_services) [98] [97] True new_client =
      Some (0, Some (replicate 70000 7), c) \<and>
    GetFile plain_lib home_env (big_file (\<lambda>k. 65536)) calm (hd (sent c)) new_link = Some (0, h, s) \<and>
    Errno c = Errno new_client"
  using get_file_transfers [of calm calm new_client new_link "big_file (\<lambda>k. 65536)" "big_file (\<lambda>k. 65536)" two_services 3
      "[98]" home_env plain_lib "[97]" "[97]" True]
  by (simp add: instance_facts plain_file_name)

theorem get_file_hides_read_error_witness:
  "\<exists>c s h. N_Get_File_Msg (hearing calm (sent s)) (big_file (\<lambda>k. 65536)) (Some two_services) [98] [97] True new_client =
      Some (0, Some (take (1 * SDBC_BLKSZ) (replicate 70000 7)), c) \<and>
    GetFile plain_lib home_env (big_file (\<lambda>k. if k = 0 then 65536 else -1)) calm (hd (sent c)) new_link = Some (0, h, s) \<and>
    Errno c = Errno new_client"
  using get_file_hides_read_error [of calm calm new_client new_link "big_file (\<lambda>k. 65536)"
      "big_file (\<lambda>k. if k = 0 then 65536 else -1)" 1 two_services 3 "[98]" home_env plain_lib "[97]" "[97]" True]
  by (simp add: instance_facts plain_file_name bad_read)

end
