(* ===== verification/Commands.thy ===== *)
theory Commands
  imports Rpc Envcfg Pack_Round_Trip
begin

text \<open>Remote commands: \<open>Rexec\<close> of \<open>src/scsrv/rexec.c\<close> and the check of the command in
  \<open>src/scsrv/chkexec.c\<close>, whose regular expressions are lists of items here.\<close>

section \<open>The black list\<close>

datatype item = One "byte \<Rightarrow> bool" | Star "byte \<Rightarrow> bool"

fun match_items :: "item list \<Rightarrow> bytes \<Rightarrow> bool" where
  "match_items [] s = True"
| "match_items (One p # ps) [] = False"
| "match_items (One p # ps) (c # s) = (p c \<and> match_items ps s)"
| "match_items (Star p # ps) [] = match_items ps []"
| "match_items (Star p # ps) (c # s) = (match_items ps (c # s) \<or> p c \<and> match_items (Star p # ps) s)"

fun match_anywhere :: "item list \<Rightarrow> bytes \<Rightarrow> bool" where
  "match_anywhere ps [] = match_items ps []"
| "match_anywhere ps (c # s) = (match_items ps (c # s) \<or> match_anywhere ps s)"

definition blank_tab :: "byte \<Rightarrow> bool" where
  "blank_tab c \<longleftrightarrow> c = 0x20 \<or> c = 9"

definition lit :: "string \<Rightarrow> item list" where
  "lit s = map (\<lambda>c. One (\<lambda>b. b = of_char c)) s"

text \<open>Each with whether it is anchored at the start.\<close>

definition black :: "(bool \<times> item list) list" where
  "black =
     [(False, One blank_tab # lit ''rm'' @ [One blank_tab]),
      (False, One blank_tab # lit ''unlink'' @ [One blank_tab]),
      (False, lit ''kill'' @ [One blank_tab]),
      (False, lit ''cat'' @ Star blank_tab # lit ''>''),
      (True, Star blank_tab # lit ''>''),
      (False, One blank_tab # lit ''/etc/''),
      (False, lit ''passwd''),
      (False, lit ''password''),
      (False, lit ''.log'')]"

definition black_match :: "bool \<times> item list \<Rightarrow> bytes \<Rightarrow> bool" where
  "black_match b s = (if fst b then match_items (snd b) s else match_anywhere (snd b) s)"

text \<open>\<open>chkexec\<close>: its result, and the string, whose last character is cut when it is a bar.\<close>

definition cut_bar :: "bytes \<Rightarrow> bytes" where
  "cut_bar s = (if last s = 0x7C then butlast s else s)"

definition chkexec :: "bytes option \<Rightarrow> int" where
  "chkexec str =
     (case str of None \<Rightarrow> -9999
      | Some s \<Rightarrow> if s = [] then -9999
          else case find (\<lambda>i. black_match (black ! i) (cut_bar s)) [0..<length black] of
                 None \<Rightarrow> 0 | Some i \<Rightarrow> int i + 1)"

section \<open>Running a command\<close>

text \<open>The operating system: the status of a command under \<open>system\<close> and \<open>pclose\<close>, whether a pipe
  can be opened, and the text the command writes, which has no null byte.\<close>

record proc =
  system :: "bytes \<Rightarrow> int"
  popen :: "bytes \<Rightarrow> bool"
  popen_errno :: int
  pclose :: "bytes \<Rightarrow> int"
  out_text :: "bytes \<Rightarrow> bytes"

definition rexec_answer :: "'l peer \<Rightarrow> int \<Rightarrow> int \<Rightarrow> T_NetHead \<Rightarrow> 'l link_scheme
    \<Rightarrow> int \<times> T_NetHead \<times> 'l link_scheme" where
  "rexec_answer P Event_no err h l =
     (let (ev, l) = PutEvent P Event_no l;
          h = h\<lparr>ERRNO1 := err, PROTO_NUM := ev, PKG_REC_NUM := 0, D_NODE := 0, O_NODE := LocalAddr P, ERRNO2 := 0\<rparr>;
          (i, l) = SendPack P h l
      in (i, h, l))"

text \<open>What the client sends goes to the command.\<close>

partial_function (option) feed_loop :: "'l peer \<Rightarrow> bytes \<Rightarrow> 'l link_scheme
    \<Rightarrow> (int \<times> bytes \<times> T_NetHead \<times> 'l link_scheme) option" where
  "feed_loop P fed l =
     (case RecvPack P l of (i, h, l) \<Rightarrow>
        if i \<noteq> 0 then Some (i, fed, h, l)
        else do {
          fed \<leftarrow> (if PKG_LEN h \<noteq> 0 then map_option (\<lambda>s. fed @ c_text s) (data h) else Some fed);
          if ERRNO2 h = PACK_CONTINUE then feed_loop P fed l else Some (0, fed, h, l) })"

text \<open>The text of the command is read by lines until the buffer is nearly full.\<close>

lemma fill_decreases:
  assumes "length b < SDBC_BLKSZ - 100" "(line, False, r) = fgets (SDBC_BLKSZ - 1 - length b) rest"
  shows "length r < length rest"
  using fgets_shortens [of "SDBC_BLKSZ - 1 - length b" rest line r] assms by (simp add: SDBC_BLKSZ_def)

function fill :: "bytes \<Rightarrow> bytes \<Rightarrow> bytes \<times> bool \<times> bytes" where
  "fill b rest =
     (if length b < SDBC_BLKSZ - 100 then
        case fgets (SDBC_BLKSZ - 1 - length b) rest of (line, eof, r) \<Rightarrow>
          if eof then (b @ line, True, r) else fill (b @ line) r
      else (b, False, rest))"
  by pat_completeness auto
termination
  by (relation "measure (\<lambda>(b, rest). length rest)")
    (auto intro: fill_decreases)

declare fill.simps [simp del]

lemma fill_shortens: "fill b rest = (b', eof, r) \<Longrightarrow> length r \<le> length rest \<and>
    (\<not> eof \<longrightarrow> length b < SDBC_BLKSZ - 100 \<longrightarrow> length r < length rest)"
proof (induction b rest rule: fill.induct)
  case (1 b rest)
  show ?case
  proof (cases "length b < SDBC_BLKSZ - 100")
    case True
    obtain line e r1 where f: "fgets (SDBC_BLKSZ - 1 - length b) rest = (line, e, r1)"
      using prod_cases3 by blast
    have shorter: "\<not> e \<Longrightarrow> length r1 < length rest"
      using fgets_shortens [of "SDBC_BLKSZ - 1 - length b" rest line r1] f True by (simp add: SDBC_BLKSZ_def)
    show ?thesis
    proof (cases e)
      case True
      then show ?thesis using 1(2) f \<open>length b < _\<close> fgets_eof [of "SDBC_BLKSZ - 1 - length b" rest line r1]
        by (subst (asm) fill.simps) simp
    next
      case False
      then have "fill (b @ line) r1 = (b', eof, r)"
        using 1(2) f True by (subst (asm) fill.simps) simp
      then show ?thesis using 1(1) [OF True f [symmetric] refl False] shorter [OF False] by simp
    qed
  next
    case False
    then show ?thesis using 1(2) by (subst (asm) fill.simps) simp
  qed
qed

function out_loop :: "'l peer \<Rightarrow> bytes \<Rightarrow> T_NetHead \<Rightarrow> 'l link_scheme \<Rightarrow> int \<times> T_NetHead \<times> 'l link_scheme" where
  "out_loop P rest h l =
     (case fill [] rest of (buffer, eof, rest') \<Rightarrow>
        let h = body buffer (h\<lparr>PROTO_NUM := 0\<rparr>);
            (i, l) = SendPack P h l
        in if i \<noteq> 0 then (i, h, l) else if eof then (0, h, l) else out_loop P rest' h l)"
  by pat_completeness auto
termination
  by (relation "measure (\<lambda>(P, rest, h, l). length rest)")
    (auto simp: SDBC_BLKSZ_def dest!: fill_shortens sym [of "(_, _, _)"])

declare out_loop.simps [simp del]

text \<open>The command that is run, what it is fed with, and the result of \<open>Rexec\<close>.\<close>

definition refusal :: "bytes \<Rightarrow> int \<Rightarrow> bytes" where
  "refusal cmd i = chars ''rexec '' @ take 520 (cut_bar cmd) @ chars '' permisson denied '' @ decimal i"

definition no_body :: "T_NetHead \<Rightarrow> T_NetHead" where
  "no_body h = h\<lparr>data := None, PKG_LEN := 0\<rparr>"

definition Rexec :: "proc \<Rightarrow> 'l peer \<Rightarrow> T_NetHead \<Rightarrow> 'l link_scheme
    \<Rightarrow> (int \<times> bytes option \<times> bytes \<times> T_NetHead \<times> 'l link_scheme) option" where
  "Rexec W P h l =
     (let Event_no = PROTO_NUM h; io_flag = ERRNO1 h in
      if PKG_LEN h = 0 then
        Some (let (i, h, l) = rexec_answer P Event_no EINVAL h l in (0, None, [], h, l))
      else do {
        s \<leftarrow> data h;
        let i = chkexec (Some (c_text s)); cmd = cut_bar (c_text s)
        in if i \<noteq> 0 then
             Some (let (r, h, l) = rexec_answer P Event_no i (body (refusal (c_text s) i) h) l
                   in (0, None, [], h, l))
           else if io_flag = 0 then
             Some (let (r, h, l) = rexec_answer P Event_no (system W cmd div 256) (no_body h) l
                   in (0, Some cmd, [], h, l))
           else if io_flag \<noteq> 1 \<and> io_flag \<noteq> 2 then
             Some (let (r, h, l) = rexec_answer P Event_no FORMATERR (no_body h) l in (1, None, [], h, l))
           else if \<not> popen W cmd then
             Some (let (r, h, l) = rexec_answer P Event_no (popen_errno W) (no_body h) l in (0, None, [], h, l))
           else if io_flag = 1 then do {
             let (i, h, l) = rexec_answer P Event_no 0 (no_body h) l
             in do { (i, fed, h, l) \<leftarrow> feed_loop P [] l;
                     Some (if i \<noteq> 0 then 1 else 0, Some cmd, fed, h, l) } }
           else
             Some (let h = h\<lparr>ERRNO2 := PACK_CONTINUE, ERRNO1 := 0, PKG_REC_NUM := 0, D_NODE := 0,
                             O_NODE := LocalAddr P\<rparr>;
                       (i, h, l) = out_loop P (out_text W cmd) h l
                   in if i \<noteq> 0 then (1, Some cmd, [], h, l)
                      else let (ev, l) = PutEvent P Event_no l;
                               h = no_body (h\<lparr>PROTO_NUM := ev, ERRNO1 := pclose W cmd div 256, ERRNO2 := 0\<rparr>);
                               (i, l) = SendPack P h l
                           in (i, Some cmd, [], h, l)) })"

section \<open>What the check lets through\<close>

text \<open>The check refuses a command that deletes files only behind a blank: \<open>rm -rf /\<close> as the first
  word of the command passes, and \<open>Rexec\<close> runs it.\<close>

theorem chkexec_passes_leading_rm:
  assumes "PKG_LEN h \<noteq> 0" "data h = Some (chars ''rm -rf /'')" "ERRNO1 h = 0"
  shows "\<exists>h' l'. Rexec W P h l = Some (0, Some (chars ''rm -rf /''), [], h', l')"
proof -
  have "chkexec (Some (chars ''rm -rf /'')) = 0" "cut_bar (chars ''rm -rf /'') = chars ''rm -rf /''"
    "c_text (chars ''rm -rf /'') = chars ''rm -rf /''"
    by code_simp+
  then show ?thesis using assms by (auto simp: Rexec_def Let_def split: prod.splits)
qed

end
