(* ===== verification/Command_Session.thy ===== *)
theory Command_Session
  imports File_Transfer Commands
begin

text \<open>\<open>N_Rexec\<close> and \<open>Rexec\<close> together: what a command writes reaches the client.\<close>

section \<open>The pieces of the text\<close>

lemma fgets_parts: "fgets n s = (b, eof, r) \<Longrightarrow> b @ r = s"
  by (auto simp: fgets_def Let_def split: if_splits)

lemma fill_parts: "fill b rest = (b', eof, r) \<Longrightarrow> b' @ r = b @ rest"
proof (induction b rest rule: fill.induct)
  case (1 b rest)
  show ?case
  proof (cases "length b < SDBC_BLKSZ - 100")
    case True
    obtain line e r1 where f: "fgets (SDBC_BLKSZ - 1 - length b) rest = (line, e, r1)"
      using prod_cases3 by blast
    note parts = fgets_parts [OF f]
    show ?thesis
    proof (cases e)
      case True
      then show ?thesis using 1(2) f \<open>length b < _\<close> parts by (subst (asm) fill.simps) auto
    next
      case False
      then have "fill (b @ line) r1 = (b', eof, r)"
        using 1(2) f True by (subst (asm) fill.simps) simp
      then show ?thesis using 1(1) [OF True f [symmetric] refl False] parts by auto
    qed
  next
    case False
    then show ?thesis using 1(2) by (subst (asm) fill.simps) simp
  qed
qed

lemma fill_eof: "fill b rest = (b', True, r) \<Longrightarrow> r = []"
proof (induction b rest rule: fill.induct)
  case (1 b rest)
  obtain line e r1 where f: "fgets (SDBC_BLKSZ - 1 - length b) rest = (line, e, r1)"
    using prod_cases3 by blast
  show ?case
  proof (cases "length b < SDBC_BLKSZ - 100 \<and> \<not> e")
    case True
    then have "fill (b @ line) r1 = (b', True, r)"
      using 1(2) f by (subst (asm) fill.simps) simp
    then show ?thesis using 1(1) [OF _ f [symmetric] refl] True by simp
  next
    case False
    then show ?thesis using 1(2) f fgets_eof [of "SDBC_BLKSZ - 1 - length b" rest line r1]
      by (subst (asm) fill.simps) (auto split: if_splits)
  qed
qed

function fills :: "bytes \<Rightarrow> bytes list" where
  "fills rest = (case fill [] rest of (b, eof, r) \<Rightarrow> b # (if eof then [] else fills r))"
  by pat_completeness auto
termination
  by (relation "measure length") (auto simp: SDBC_BLKSZ_def dest!: fill_shortens sym [of "(_, _, _)"])

declare fills.simps [simp del]

lemma concat_fills: "concat (fills rest) = rest"
proof (induction rest rule: fills.induct)
  case (1 rest)
  obtain b eof r where f: "fill [] rest = (b, eof, r)" using prod_cases3 by blast
  then show ?case
    using 1 [OF f [symmetric] refl] fill_parts [OF f] fill_eof [of "[]" rest b r]
    by (subst fills.simps) auto
qed

section \<open>The session\<close>

definition out_block :: "T_NetHead \<Rightarrow> bytes \<Rightarrow> T_NetHead" where
  "out_block h b = body b (h\<lparr>PROTO_NUM := 0\<rparr>)"

lemma out_block_again [simp]: "out_block (out_block h b) c = out_block h c"
  by (simp add: out_block_def body_def)

lemma out_loop_fills:
  assumes "\<And>k. send P k = 0"
  shows "\<exists>h' l'. out_loop P rest h l = (0, h', l') \<and> (\<exists>b. h' = out_block h b) \<and>
    sent l' = sent l @ map (out_block h) (fills rest)"
proof (induction rest arbitrary: h l rule: fills.induct)
  case (1 rest)
  obtain b eof r where f: "fill [] rest = (b, eof, r)" using prod_cases3 by blast
  let ?l = "l\<lparr>sent := sent l @ [out_block h b]\<rparr>"
  show ?case
  proof (cases eof)
    case True
    then have "out_loop P rest h l = (0, out_block h b, ?l)" "fills rest = [b]"
      using f assms by (simp_all add: out_loop.simps [of P rest] fills.simps [of rest] SendPack_def out_block_def Let_def)
    then show ?thesis by auto
  next
    case False
    then have "out_loop P rest h l = out_loop P r (out_block h b) ?l" "fills rest = b # fills r"
      using f assms by (simp_all add: out_loop.simps [of P rest] fills.simps [of rest] SendPack_def out_block_def Let_def)
    then show ?thesis using 1 [OF f [symmetric] refl False, of "out_block h b" ?l] by (auto simp: comp_def)
  qed
qed

lemma put_out_block:
  "0 \<notin> set b \<Longrightarrow> put_out True (out_block h b) outs = Some (if b = [] then outs else outs @ [b])"
proof -
  assume "0 \<notin> set b"
  then have "c_text b = b" by (auto simp: c_text_def takeWhile_eq_all_conv)
  then show ?thesis by (simp add: put_out_def out_block_def body_def)
qed

lemma rexec_loop_blocks:
  assumes "quiet P" "ERRNO2 h = PACK_CONTINUE" "ERRNO1 h = 0" "ERRNO2 fin = 0" "PKG_LEN fin = 0"
  shows "(\<And>j. j < length bs \<Longrightarrow> recv P (received l + j) = (0, out_block h (bs ! j))) \<Longrightarrow>
    recv P (received l + length bs) = (0, fin) \<Longrightarrow> (\<And>b. b \<in> set bs \<Longrightarrow> 0 \<notin> set b) \<Longrightarrow>
    \<exists>l'. rexec_loop P True outs (out_block h c) l = Some (ERRNO1 fin, outs @ filter (\<lambda>b. b \<noteq> []) bs, l') \<and>
      sent l' = sent l"
proof (induction bs arbitrary: outs c l)
  case Nil
  have m: "ERRNO2 (out_block h c) = PACK_CONTINUE" using assms(2) by (simp add: out_block_def body_def)
  have fin: "rexec_loop P True outs fin t = Some (0, outs, t)" for t
    using assms(1,4) by (subst rexec_loop.simps) (simp add: PACK_CONTINUE_def quiet_simps)
  show ?case using Nil assms m fin
    by (subst rexec_loop.simps) (auto simp: RecvPack_def put_out_def quiet_simps)
next
  case (Cons b bs)
  let ?l = "l\<lparr>received := received l + 1\<rparr>"
  have m: "ERRNO2 (out_block h c) = PACK_CONTINUE" "ERRNO1 (out_block h b) = 0"
    using assms(2,3) by (simp_all add: out_block_def body_def)
  have "RecvPack P l = (0, out_block h b, ?l)" using Cons.prems(1) [of 0] by (simp add: RecvPack_def)
  then have "rexec_loop P True outs (out_block h c) l =
      rexec_loop P True (if b = [] then outs else outs @ [b]) (out_block h b) ?l"
    using m put_out_block [of b h outs] Cons.prems(3) [of b] by (subst rexec_loop.simps) simp
  moreover have "\<exists>l'. rexec_loop P True (if b = [] then outs else outs @ [b]) (out_block h b) ?l =
      Some (ERRNO1 fin, (if b = [] then outs else outs @ [b]) @ filter (\<lambda>b. b \<noteq> []) bs, l') \<and> sent l' = sent ?l"
  proof (rule Cons.IH)
    show "recv P (received ?l + j) = (0, out_block h (bs ! j))" if "j < length bs" for j
      using Cons.prems(1) [of "Suc j"] that by simp
    show "recv P (received ?l + length bs) = (0, fin)" using Cons.prems(2) by simp
  qed (use Cons.prems(3) in auto)
  ultimately show ?case by auto
qed

lemma fills_ne: "\<exists>b bs. fills rest = b # bs"
  by (subst fills.simps) (simp split: prod.split)

lemma concat_filter: "concat (filter (\<lambda>b. b \<noteq> []) bs) = concat bs"
  by (induction bs) auto

text \<open>C26: The client that asks for the output of a command that the check lets pass gets the text the
  command writes, in pieces of whole lines where they fit, and its exit status as the result; both
  calls end.\<close>

theorem rexec_output_arrives:
  assumes "quiet C" "quiet S" "at_start c0" "at_start s0"
    and "service v ''Rexec'' = Some (Some n)" "cmd \<noteq> []" "0 \<notin> set cmd" "chkexec (Some cmd) = 0"
    and "popen W (cut_bar cmd)" "0 \<notin> set (out_text W (cut_bar cmd))"
  shows "\<exists>outs c h s. N_Rexec (hearing C (sent s)) htonl v cmd None True c0 =
      Some (pclose W (cut_bar cmd) div 256, outs, c) \<and> concat outs = out_text W (cut_bar cmd) \<and>
    Rexec W S (hd (sent c)) s0 = Some (0, Some (cut_bar cmd), [], h, s)"
proof -
  let ?q = "(request n 2 (htonl (LocalAddr C)) (int (length cmd)) (Some cmd))\<lparr>ERRNO2 := 1\<rparr>" and ?t = "out_text W (cut_bar cmd)"
  let ?h = "?q\<lparr>ERRNO2 := PACK_CONTINUE, ERRNO1 := 0, PKG_REC_NUM := 0, D_NODE := 0, O_NODE := LocalAddr S\<rparr>"
  obtain h l where o: "out_loop S ?t ?h s0 = (0, h, l)" "sent l = map (out_block ?h) (fills ?t)"
    using out_loop_fills [of S ?t ?h s0] assms(2,4) by (auto simp: quiet_simps at_start_def)
  let ?f = "no_body (h\<lparr>PROTO_NUM := 0, ERRNO1 := pclose W (cut_bar cmd) div 256, ERRNO2 := 0\<rparr>)"
  let ?s = "l\<lparr>sent := sent l @ [?f]\<rparr>"
  have c: "c_text cmd = cmd" using assms(7) by (auto simp: c_text_def takeWhile_eq_all_conv)
  have server: "Rexec W S ?q s0 = Some (0, Some (cut_bar cmd), [], ?f, ?s)"
    using assms(2,6,8,9) o c by (simp add: Rexec_def request_def SendPack_def quiet_simps Let_def)
  obtain b bs where b: "fills ?t = b # bs" using fills_ne by blast
  have nul: "0 \<notin> set x" if "x \<in> set (fills ?t)" for x
    using that assms(10) concat_fills [of ?t] by (metis (no_types) concat.simps UnCI in_set_conv_decomp set_append set_concat UN_I)
  let ?P = "hearing C (sent ?s)" and ?c = "c0\<lparr>sent := [?q]\<rparr>"
  have first: "recv ?P 0 = (0, out_block ?h b)" using o(2) b by simp
  obtain l' where l': "rexec_loop ?P True (if b = [] then [] else [b]) (out_block ?h b) (?c\<lparr>received := 1\<rparr>) =
      Some (ERRNO1 ?f, (if b = [] then [] else [b]) @ filter (\<lambda>b. b \<noteq> []) bs, l')" "sent l' = [?q]"
    using rexec_loop_blocks [of ?P ?h ?f bs "?c\<lparr>received := 1\<rparr>" "if b = [] then [] else [b]" b] assms(1) o(2) b nul
    by (auto simp: no_body_def nth_append)
  have "concat ((if b = [] then [] else [b]) @ filter (\<lambda>b. b \<noteq> []) bs) = ?t"
    using concat_fills [of ?t] b by (cases "b = []") (simp_all add: concat_filter)
  moreover have "N_Rexec ?P htonl v cmd None True c0 =
      Some (ERRNO1 ?f, (if b = [] then [] else [b]) @ filter (\<lambda>b. b \<noteq> []) bs, l')"
  proof -
    have send: "SendPack ?P ?q c0 = (0, ?c)" using assms(1,3) by (simp add: SendPack_def quiet_simps at_start_def)
    have recv: "RecvPack ?P ?c = (0, out_block ?h b, ?c\<lparr>received := 1\<rparr>)"
      using first assms(3) by (simp add: RecvPack_def at_start_def)
    have "ERRNO1 (out_block ?h b) = 0" by (simp add: out_block_def body_def)
    then have "rexec_output ?P True ?c =
        Some (ERRNO1 ?f, (if b = [] then [] else [b]) @ filter (\<lambda>b. b \<noteq> []) bs, l')"
      using recv l'(1) put_out_block [of b ?h "[]", unfolded append_Nil] nul [of b] b
      by (simp add: rexec_output_def split del: if_split)
    then show ?thesis using send assms(5) by (simp add: N_Rexec_def)
  qed
  moreover have "ERRNO1 ?f = pclose W (cut_bar cmd) div 256" by (simp add: no_body_def)
  ultimately show ?thesis using server l'(2)
    by (intro exI [of _ "(if b = [] then [] else [b]) @ filter (\<lambda>b. b \<noteq> []) bs"] exI [of _ l']
        exI [of _ ?f] exI [of _ ?s]) simp
qed

text \<open>The command \<open>ls\<close>, which writes two lines and ends with status 3.\<close>

definition ls_proc :: proc where
  "ls_proc = \<lparr>system = \<lambda>c. 0, popen = \<lambda>c. True, popen_errno = 0, pclose = \<lambda>c. 768, out_text = \<lambda>c. [97, 10, 98]\<rparr>"

definition rexec_service :: cli_var where
  "rexec_service = (let l = [\<lparr>srv_no = 2, srv_name = chars ''Rexec''\<rparr>]
     in \<lparr>ctx_id = 0, svc_tbl = Some \<lparr>srvn = 1, srv_hash = mk_srv_hash l, srvlist = Some l, usage = 0\<rparr>\<rparr>)"

theorem rexec_output_arrives_witness:
  "\<exists>outs c h s. N_Rexec (hearing calm (sent s)) id rexec_service (chars ''ls'') None True new_client = Some (3, outs, c) \<and>
    concat outs = [97, 10, 98] \<and> Rexec ls_proc calm (hd (sent c)) new_link = Some (0, Some (chars ''ls''), [], h, s)"
proof -
  have "service rexec_service ''Rexec'' = Some (Some 2)"
    by (code_simp, simp add: slot_search.simps)
  moreover have "chkexec (Some (chars ''ls'')) = 0" "cut_bar (chars ''ls'') = chars ''ls''" by code_simp+
  ultimately show ?thesis
    using rexec_output_arrives [of calm calm new_client new_link rexec_service 2 "chars ''ls''" ls_proc id]
    by (simp add: instance_facts ls_proc_def)
qed

end
