(* ===== verification/SQL_Client.thy ===== *)
theory SQL_Client
  imports Remote_Client SQL_Text
begin

text \<open>The client's side of the SQL services: \<open>src/sccli/sqlc.c\<close>.  The counter \<open>status\<close> of the
  connection, an unsigned number, says how many cursors and transactions are open; while it is
  not 0 every request carries \<open>PACK_STATUS\<close>, which keeps the server's connection to the database
  for this client.\<close>

section \<open>Requests and errors\<close>

record sql_env =
  clip :: "cli_var option"
  dnode :: "bytes option"
  slib :: sqllib

definition TRANBEGIN :: int where "TRANBEGIN = 0"

definition get_d_node :: "sql_env \<Rightarrow> int" where
  "get_d_node Q = (case dnode Q of None \<Rightarrow> 0 | Some p \<Rightarrow> if p = [] then 0 else atoi p)"

text \<open>\<open>get_srv_no\<close> on \<open>connect.Var\<close>, which may be null.\<close>

definition sql_service :: "sql_env \<Rightarrow> string \<Rightarrow> int option option" where
  "sql_service Q name = (case clip Q of None \<Rightarrow> Some None | Some v \<Rightarrow> service v name)"

definition ctx :: "sql_env \<Rightarrow> int" where
  "ctx Q = (case clip Q of None \<Rightarrow> 0 | Some v \<Rightarrow> ctx_id v)"

definition state_mark :: "'c client_scheme \<Rightarrow> int" where
  "state_mark l = (if status l > 0 then PACK_STATUS else 0)"

definition sql_request :: "sql_env \<Rightarrow> int \<Rightarrow> int \<Rightarrow> int \<Rightarrow> int \<Rightarrow> int \<Rightarrow> bytes option \<Rightarrow> T_NetHead" where
  "sql_request Q n err1 err2 num len d =
     (request n err1 (ctx Q) len d)\<lparr>D_NODE := get_d_node Q, ERRNO2 := err2, PKG_REC_NUM := num\<rparr>"

definition GetError :: "sql_env \<Rightarrow> 'c client_ext peer \<Rightarrow> T_NetHead \<Rightarrow> 'c client_scheme
    \<Rightarrow> (int \<times> 'c client_scheme) option" where
  "GetError Q P h l =
     do { m \<leftarrow> (if PKG_LEN h \<noteq> 0 then map_option (\<lambda>s. fst (stptok_copy (slib Q) (c_text s) 2048)) (data h)
               else Some []);
          let l = l\<lparr>NativeError := PKG_REC_NUM h, Errno := ERRNO2 h, ErrMsg := m\<rparr>
          in Some (- \<bar>ERRNO1 h\<bar>, snd (EventCatch P (PROTO_NUM h) l)) }"

text \<open>One request and its answer; ok says which results of \<open>SendPack\<close> and \<open>RecvPack\<close> the
  caller takes for success.\<close>

definition exchange :: "(int \<Rightarrow> bool) \<Rightarrow> 'c client_ext peer \<Rightarrow> T_NetHead \<Rightarrow> 'c client_scheme
    \<Rightarrow> (int + T_NetHead) \<times> 'c client_scheme" where
  "exchange ok P h l =
     (let (i, l) = SendPack P h l in
      if \<not> ok i then (Inl i, l)
      else case RecvPack P l of (i, h, l) \<Rightarrow> if \<not> ok i then (Inl i, l) else (Inr h, l))"

abbreviation (input) zero :: "int \<Rightarrow> bool" where "zero i \<equiv> i = 0"
abbreviation (input) not_negative :: "int \<Rightarrow> bool" where "not_negative i \<equiv> 0 \<le> i"

section \<open>Statements\<close>

definition N_SQL_EndTran :: "sql_env \<Rightarrow> 'c client_ext peer \<Rightarrow> int \<Rightarrow> 'c client_scheme
    \<Rightarrow> (int \<times> 'c client_scheme) option" where
  "N_SQL_EndTran Q P TranFlag l =
     do { n \<leftarrow> sql_service Q ''SQL_EndTran'';
          (case n of None \<Rightarrow> Some (FORMATERR, l)
           | Some n \<Rightarrow>
             let l = l\<lparr>status := (if TranFlag = TRANBEGIN then status l + 1 else status l - 1)\<rparr> in
             case exchange zero P (sql_request Q n TranFlag (state_mark l) 0 0 None) l of
               (Inl i, l) \<Rightarrow> Some (i, l)
             | (Inr h, l) \<Rightarrow> GetError Q P h (snd (EventCatch P (PROTO_NUM h) l))) }"

text \<open>\<open>N_SQL_Select\<close> and \<open>N_SQL_Fetch\<close> also give the data, none when the pointer is not set.\<close>

definition rows_answer :: "sql_env \<Rightarrow> 'c client_ext peer \<Rightarrow> T_NetHead \<Rightarrow> 'c client_scheme
    \<Rightarrow> (int \<times> bytes option option \<times> 'c client_scheme) option" where
  "rows_answer Q P h l =
     (let l = snd (EventCatch P (PROTO_NUM h) l) in
      if ERRNO1 h \<noteq> 0 then map_option (\<lambda>(r, l). (r, None, l)) (GetError Q P h l)
      else Some (PKG_REC_NUM h, Some (data h), l\<lparr>ErrMsg := [], Errno := 0, NativeError := ERRNO2 h\<rparr>))"

definition N_SQL_Select :: "sql_env \<Rightarrow> 'c client_ext peer \<Rightarrow> bytes \<Rightarrow> int \<Rightarrow> 'c client_scheme
    \<Rightarrow> (int \<times> bytes option option \<times> 'c client_scheme) option" where
  "N_SQL_Select Q P cmd num l =
     do { n \<leftarrow> sql_service Q ''SQL_Select'';
          (case n of None \<Rightarrow> Some (FORMATERR, None, l)
           | Some n \<Rightarrow>
             case exchange not_negative P (sql_request Q n 0 (state_mark l) num (int (length cmd)) (Some cmd)) l of
               (Inl i, l) \<Rightarrow> Some (i, None, l)
             | (Inr h, l) \<Rightarrow> rows_answer Q P h l) }"

definition N_SQL_Exec :: "sql_env \<Rightarrow> 'c client_ext peer \<Rightarrow> bytes \<Rightarrow> 'c client_scheme
    \<Rightarrow> (int \<times> 'c client_scheme) option" where
  "N_SQL_Exec Q P cmd l =
     do { n \<leftarrow> sql_service Q ''SQL_Exec'';
          (case n of None \<Rightarrow> Some (FORMATERR, l)
           | Some n \<Rightarrow>
             case exchange zero P (sql_request Q n 0 (state_mark l) 0 (int (length cmd)) (Some cmd)) l of
               (Inl i, l) \<Rightarrow> Some (i, l)
             | (Inr h, l) \<Rightarrow> GetError Q P h (snd (EventCatch P (PROTO_NUM h) l))) }"

section \<open>Cursors\<close>

text \<open>\<open>T_SqlDa\<close>: the memory is where \<open>sqlvar\<close>, an array of structures of 112 bytes, begins at
  the address 0.  When \<open>malloc\<close> fails the pointer is null.\<close>

record T_SqlDa =
  cursor_no :: int
  cols :: int
  sqlvar :: "mem option"

definition SqlVarType :: "T_PkgType list" where
  "SqlVarType = [PkgType CH_CHAR 49 (Some (chars ''sqlname'')) No_Format (-1) 0,
     PkgType CH_INT 4 (Some (chars ''sqltype'')) No_Format 0 0,
     PkgType CH_INT 4 (Some (chars ''sqllen'')) No_Format 0 0,
     PkgType CH_CHAR 49 (Some (chars ''sqlformat'')) No_Format 0 0,
     PkgType (-1) 0 None No_Format 0 0]"

fun read_vars :: "strlib \<Rightarrow> mem \<Rightarrow> int \<Rightarrow> bytes \<Rightarrow> T_PkgType list \<Rightarrow> nat \<Rightarrow> mem option" where
  "read_vars lib m a p tpl 0 = Some m"
| "read_vars lib m a p tpl (Suc n) =
     do { (m, p) \<leftarrow> pkg_dispack lib m a p tpl 0x7C;
          tpl \<leftarrow> (if p = [] then Some tpl else laid_out tpl);
          read_vars lib m (a + 112) p tpl n }"

definition fill_sqlda :: "sql_env \<Rightarrow> bool \<Rightarrow> mem \<Rightarrow> T_NetHead \<Rightarrow> T_SqlDa \<Rightarrow> T_SqlDa option" where
  "fill_sqlda Q malloc m0 h da =
     (let da = da\<lparr>cursor_no := ERRNO1 h, cols := PKG_REC_NUM h\<rparr> in
      if PKG_LEN h \<le> 0 \<or> \<not> malloc then Some (da\<lparr>sqlvar := None\<rparr>)
      else do { s \<leftarrow> data h;
                m \<leftarrow> read_vars (strlib.truncate (slib Q)) m0 0 (c_text s) SqlVarType (nat (PKG_REC_NUM h));
                Some (da\<lparr>sqlvar := Some m\<rparr>) })"

definition N_SQL_Prepare :: "sql_env \<Rightarrow> bool \<Rightarrow> mem \<Rightarrow> 'c client_ext peer \<Rightarrow> bytes \<Rightarrow> T_SqlDa option \<Rightarrow> 'c client_scheme
    \<Rightarrow> (int \<times> T_SqlDa option \<times> 'c client_scheme) option" where
  "N_SQL_Prepare Q malloc m0 P cmd sqlda l =
     do { n \<leftarrow> sql_service Q ''SQL_Prepare'';
          (case n of None \<Rightarrow> Some (FORMATERR, sqlda, l)
           | Some n \<Rightarrow>
             case exchange zero P (sql_request Q n 0 PACK_STATUS 0 (int (length cmd)) (Some cmd)) (l\<lparr>status := status l + 1\<rparr>) of
               (Inl i, l) \<Rightarrow> Some (i, sqlda, l\<lparr>status := status l - 1\<rparr>)
             | (Inr h, l) \<Rightarrow>
                 if ERRNO1 h < 0 then map_option (\<lambda>(r, l). (r, sqlda, l)) (GetError Q P h l)
                 else do {
                   sqlda \<leftarrow> (case sqlda of None \<Rightarrow> Some None
                     | Some da \<Rightarrow> map_option Some (fill_sqlda Q malloc m0 h da));
                   let l = l\<lparr>Errno := 0, NativeError := PKG_REC_NUM h, ErrMsg := []\<rparr>
                   in Some (ERRNO1 h, sqlda, snd (EventCatch P (PROTO_NUM h) l)) }) }"

definition N_SQL_Fetch :: "sql_env \<Rightarrow> 'c client_ext peer \<Rightarrow> int \<Rightarrow> int \<Rightarrow> 'c client_scheme
    \<Rightarrow> (int \<times> bytes option option \<times> 'c client_scheme) option" where
  "N_SQL_Fetch Q P curno recnum l =
     do { n \<leftarrow> sql_service Q ''SQL_Fetch'';
          (case n of None \<Rightarrow> Some (FORMATERR, None, l)
           | Some n \<Rightarrow>
             case exchange not_negative P (sql_request Q n curno PACK_STATUS recnum 0 None) l of
               (Inl i, l) \<Rightarrow> Some (i, None, l)
             | (Inr h, l) \<Rightarrow> rows_answer Q P h l) }"

definition N_SQL_Close_RefCursor :: "sql_env \<Rightarrow> 'c client_ext peer \<Rightarrow> int \<Rightarrow> 'c client_scheme
    \<Rightarrow> (int \<times> 'c client_scheme) option" where
  "N_SQL_Close_RefCursor Q P ref_cursor l =
     do { n \<leftarrow> sql_service Q ''SQL_Close'';
          (case n of None \<Rightarrow> Some (FORMATERR, l)
           | Some n \<Rightarrow>
             let l = l\<lparr>status := status l - 1\<rparr>;
                 h = (\<lambda>mark. (sql_request Q n ref_cursor mark 0 0 None)\<lparr>D_NODE := 0\<rparr>)
             in if ref_cursor < 0 then
                  Some (0, if status l = 0 then snd (SendPack P (h PACK_NOANSER) l) else l)
                else case exchange zero P (h (state_mark l)) l of
                    (Inl i, l) \<Rightarrow> Some (i, l)
                  | (Inr h, l) \<Rightarrow> GetError Q P h (snd (EventCatch P (PROTO_NUM h) l))) }"

definition N_SQL_Close :: "sql_env \<Rightarrow> 'c client_ext peer \<Rightarrow> T_SqlDa \<Rightarrow> 'c client_scheme
    \<Rightarrow> (int \<times> T_SqlDa \<times> 'c client_scheme) option" where
  "N_SQL_Close Q P sqlda l =
     do { (i, l) \<leftarrow> N_SQL_Close_RefCursor Q P (cursor_no sqlda) l;
          Some (i, if i \<noteq> 0 then sqlda else sqlda\<lparr>cols := 0, sqlvar := None\<rparr>, l) }"

text \<open>A statement that overruns \<open>stmt\<close>, whose size the code does not look at, is \<open>None\<close>.  The owner of the tables is \<open>clip->DBOWN\<close>.\<close>

definition N_insert_db :: "sql_env \<Rightarrow> 'c client_ext peer \<Rightarrow> bytes \<Rightarrow> bytes \<Rightarrow> mem \<Rightarrow> int \<Rightarrow> T_PkgType list
    \<Rightarrow> 'c client_scheme \<Rightarrow> (int \<times> T_PkgType list \<times> 'c client_scheme) option" where
  "N_insert_db Q P owner table m base tpl l =
     do { let p = chars ''INSERT INTO '' @ (if owner = [] then [] else owner @ chars ''.'') @ table @ chars '' ('';
          (p, tpl) \<leftarrow> mkset (slib Q) p (Some tpl);
          tpl \<leftarrow> tpl;
          (p, tpl) \<leftarrow> mk_values (slib Q) (p @ chars '') VALUES('') m base tpl;
          (if 32768 \<le> length p + 1 then None
           else do { (r, l) \<leftarrow> N_SQL_Exec Q P (string_in (p @ chars '')'')) l; Some (r, tpl, l) }) }"

text \<open>\<open>N_SQL_RPC\<close>: the result, \<open>nrets\<close> and \<open>data\<close> where they are set; nrets says whether that
  pointer is given.\<close>

definition N_SQL_RPC :: "sql_env \<Rightarrow> 'c client_ext peer \<Rightarrow> bytes \<Rightarrow> int \<Rightarrow> 'c client_scheme
    \<Rightarrow> (int \<times> (int \<times> bytes option) option \<times> 'c client_scheme) option" where
  "N_SQL_RPC Q P cmd st_lev l =
     do { n \<leftarrow> sql_service Q ''SQL_RPC'';
          (case n of None \<Rightarrow> Some (FORMATERR, None, l)
           | Some n \<Rightarrow>
             let l = l\<lparr>status := status l + of_int st_lev\<rparr> in
             case exchange zero P (sql_request Q n 0 (state_mark l) 0 (int (length cmd)) (Some cmd)) l of
               (Inl i, l) \<Rightarrow> Some (i, None, l)
             | (Inr h, l) \<Rightarrow>
                 let l = (snd (EventCatch P (PROTO_NUM h) l))\<lparr>ErrMsg := [], Errno := ERRNO1 h\<rparr> in
                 if ERRNO1 h = 0
                 then Some (0, Some (PKG_REC_NUM h, data h), l\<lparr>NativeError := PKG_REC_NUM h\<rparr>)
                 else map_option (\<lambda>(r, l). (r, Some (0, None), l)) (GetError Q P h l)) }"

section \<open>The counter of open cursors and transactions\<close>

datatype sql_call = Tran int | Exec bytes | Select bytes int | Prepare bytes "T_SqlDa option"
  | Fetch int int | CloseCursor int

primrec call :: "sql_env \<Rightarrow> bool \<Rightarrow> mem \<Rightarrow> 'c client_ext peer \<Rightarrow> sql_call \<Rightarrow> 'c client_scheme \<Rightarrow> (int \<times> 'c client_scheme) option" where
  "call Q malloc m0 P (Tran f) l = N_SQL_EndTran Q P f l"
| "call Q malloc m0 P (Exec cmd) l = N_SQL_Exec Q P cmd l"
| "call Q malloc m0 P (Select cmd n) l = map_option (\<lambda>(i, d, l). (i, l)) (N_SQL_Select Q P cmd n l)"
| "call Q malloc m0 P (Prepare cmd da) l = map_option (\<lambda>(i, d, l). (i, l)) (N_SQL_Prepare Q malloc m0 P cmd da l)"
| "call Q malloc m0 P (Fetch c n) l = map_option (\<lambda>(i, d, l). (i, l)) (N_SQL_Fetch Q P c n l)"
| "call Q malloc m0 P (CloseCursor c) l = N_SQL_Close_RefCursor Q P c l"

primrec opened :: "sql_call \<Rightarrow> int" where
  "opened (Tran f) = (if f = TRANBEGIN then 1 else -1)"
| "opened (Exec cmd) = 0"
| "opened (Select cmd n) = 0"
| "opened (Prepare cmd da) = 1"
| "opened (Fetch c n) = 0"
| "opened (CloseCursor c) = -1"

primrec calls :: "sql_env \<Rightarrow> bool \<Rightarrow> mem \<Rightarrow> 'c client_ext peer \<Rightarrow> sql_call list \<Rightarrow> 'c client_scheme \<Rightarrow> 'c client_scheme option" where
  "calls Q malloc m0 P [] l = Some l"
| "calls Q malloc m0 P (c # cs) l = do { (i, l) \<leftarrow> call Q malloc m0 P c l; calls Q malloc m0 P cs l }"

text \<open>A server that has all the services and refuses none, whose packets have data when they have a
  length and describe columns the client can read.\<close>

definition sql_services :: "sql_env \<Rightarrow> bool" where
  "sql_services Q \<longleftrightarrow> (\<forall>name \<in> {''SQL_EndTran'', ''SQL_Select'', ''SQL_Exec'', ''SQL_Prepare'', ''SQL_Fetch'', ''SQL_Close''}.
     \<exists>n. sql_service Q name = Some (Some n))"

definition readable :: "sql_env \<Rightarrow> bool \<Rightarrow> mem \<Rightarrow> T_NetHead \<Rightarrow> bool" where
  "readable Q malloc m0 h \<longleftrightarrow> (PKG_LEN h \<noteq> 0 \<longrightarrow> data h \<noteq> None) \<and> (\<forall>da. fill_sqlda Q malloc m0 h da \<noteq> None)"

definition accepting :: "sql_env \<Rightarrow> bool \<Rightarrow> mem \<Rightarrow> 'l peer \<Rightarrow> bool" where
  "accepting Q malloc m0 P \<longleftrightarrow> (\<forall>k. fst (recv P k) = 0 \<and> 0 \<le> ERRNO1 (snd (recv P k)) \<and> readable Q malloc m0 (snd (recv P k)))"

lemma sql_service_found:
  assumes "sql_services Q"
  obtains a b c d e f where "sql_service Q ''SQL_EndTran'' = Some (Some a)" "sql_service Q ''SQL_Select'' = Some (Some b)"
    "sql_service Q ''SQL_Exec'' = Some (Some c)" "sql_service Q ''SQL_Prepare'' = Some (Some d)"
    "sql_service Q ''SQL_Fetch'' = Some (Some e)" "sql_service Q ''SQL_Close'' = Some (Some f)"
  using assms by (auto simp: sql_services_def)

lemma GetError_quiet:
  assumes "quiet P" "PKG_LEN h \<noteq> 0 \<longrightarrow> data h \<noteq> None"
  shows "\<exists>l'. GetError Q P h l = Some (- \<bar>ERRNO1 h\<bar>, l') \<and> status l' = status l \<and> sent l' = sent l"
  using assms by (cases "data h") (auto simp: GetError_def quiet_simps)

lemma exchange_quiet:
  assumes "quiet P" "fst (recv P (received l)) = 0" "ok 0"
  shows "exchange ok P q l = (Inr (snd (recv P (received l))), l\<lparr>sent := sent l @ [q], received := received l + 1\<rparr>)"
  using assms by (cases "recv P (received l)") (simp add: exchange_def SendPack_def RecvPack_def quiet_simps)

lemma rows_answer_quiet:
  assumes "quiet P" "PKG_LEN h \<noteq> 0 \<longrightarrow> data h \<noteq> None"
  shows "\<exists>i d l'. rows_answer Q P h l = Some (i, d, l') \<and> status l' = status l \<and> sent l' = sent l"
  using GetError_quiet [OF assms, of Q l] assms(1) by (auto simp: rows_answer_def quiet_simps)

text \<open>What every call does when its service exists, sending and receiving go well and the answer
  can be read.\<close>

definition answered :: "'c client_ext peer \<Rightarrow> 'c client_scheme \<Rightarrow> T_NetHead \<Rightarrow> bool" where
  "answered P l h \<longleftrightarrow> quiet P \<and> recv P (received l) = (0, h) \<and> (PKG_LEN h \<noteq> 0 \<longrightarrow> data h \<noteq> None)"

lemma answered_exchange:
  assumes "answered P l h" "ok 0"
  shows "exchange ok P q l = (Inr h, l\<lparr>sent := sent l @ [q], received := received l + 1\<rparr>)"
    "exchange ok P q (l\<lparr>status := k\<rparr>) = (Inr h, l\<lparr>status := k, sent := sent l @ [q], received := received l + 1\<rparr>)"
  using assms exchange_quiet [of P l ok q] exchange_quiet [of P "l\<lparr>status := k\<rparr>" ok q] by (simp_all add: answered_def)

lemma answered_error:
  assumes "answered P l0 h"
  shows "\<exists>l'. GetError Q P h l = Some (- \<bar>ERRNO1 h\<bar>, l') \<and> status l' = status l \<and> sent l' = sent l"
    "EventCatch P e l = (0, l)"
    "\<exists>i d l'. rows_answer Q P h l = Some (i, d, l') \<and> status l' = status l \<and> sent l' = sent l"
  using assms GetError_quiet [of P h Q l] rows_answer_quiet [of P h Q l] by (simp_all add: answered_def quiet_simps)

lemmas answered_simps = answered_exchange answered_error(2)

lemma EndTran_answered:
  assumes "answered P l h" "sql_service Q ''SQL_EndTran'' = Some (Some n)"
  shows "\<exists>l'. N_SQL_EndTran Q P f l = Some (- \<bar>ERRNO1 h\<bar>, l') \<and>
    status l' = (if f = TRANBEGIN then status l + 1 else status l - 1) \<and>
    sent l' = sent l @ [sql_request Q n f (state_mark l') 0 0 None]"
  using assms answered_error(1) [OF assms(1), of Q]
  by (fastforce simp: N_SQL_EndTran_def Let_def answered_simps state_mark_def)

lemma Exec_answered:
  assumes "answered P l h" "sql_service Q ''SQL_Exec'' = Some (Some n)"
  shows "\<exists>l'. N_SQL_Exec Q P cmd l = Some (- \<bar>ERRNO1 h\<bar>, l') \<and> status l' = status l \<and>
    sent l' = sent l @ [sql_request Q n 0 (state_mark l) 0 (int (length cmd)) (Some cmd)]"
  using assms answered_error(1) [OF assms(1), of Q]
  by (fastforce simp: N_SQL_Exec_def Let_def answered_simps)

lemma Select_answered:
  assumes "answered P l h" "sql_service Q ''SQL_Select'' = Some (Some n)"
  shows "\<exists>i d l'. N_SQL_Select Q P cmd num l = Some (i, d, l') \<and> status l' = status l \<and>
    sent l' = sent l @ [sql_request Q n 0 (state_mark l) num (int (length cmd)) (Some cmd)]"
  using assms answered_error(3) [OF assms(1), of Q]
  by (fastforce simp: N_SQL_Select_def Let_def answered_simps)

lemma Fetch_answered:
  assumes "answered P l h" "sql_service Q ''SQL_Fetch'' = Some (Some n)"
  shows "\<exists>i d l'. N_SQL_Fetch Q P c num l = Some (i, d, l') \<and> status l' = status l \<and>
    sent l' = sent l @ [sql_request Q n c PACK_STATUS num 0 None]"
  using assms answered_error(3) [OF assms(1), of Q]
  by (fastforce simp: N_SQL_Fetch_def Let_def answered_simps)

lemma Prepare_answered:
  assumes "answered P l h" "sql_service Q ''SQL_Prepare'' = Some (Some n)" "0 \<le> ERRNO1 h"
    and "\<And>da. \<exists>da'. fill_sqlda Q malloc m0 h da = Some da'"
  shows "\<exists>da' l'. N_SQL_Prepare Q malloc m0 P cmd da l = Some (ERRNO1 h, da', l') \<and> status l' = status l + 1 \<and>
    sent l' = sent l @ [sql_request Q n 0 PACK_STATUS 0 (int (length cmd)) (Some cmd)]"
proof -
  have "\<exists>da'. (case da of None \<Rightarrow> Some None | Some d \<Rightarrow> map_option Some (fill_sqlda Q malloc m0 h d)) = Some da'"
    using assms(4) [of "the da"] by (cases da) auto
  then show ?thesis using assms(2,3) by (auto simp: N_SQL_Prepare_def Let_def answered_simps [OF assms(1)])
qed

lemma Prepare_refused:
  assumes "answered P l h" "sql_service Q ''SQL_Prepare'' = Some (Some n)" "ERRNO1 h < 0"
  shows "\<exists>l'. N_SQL_Prepare Q malloc m0 P cmd da l = Some (ERRNO1 h, da, l') \<and> status l' = status l + 1"
  using assms answered_error(1) [OF assms(1), of Q]
  by (fastforce simp: N_SQL_Prepare_def Let_def answered_simps)

lemma Close_answered:
  assumes "answered P l h" "sql_service Q ''SQL_Close'' = Some (Some n)"
  shows "\<exists>i l' q. N_SQL_Close_RefCursor Q P c l = Some (i, l') \<and> status l' = status l - 1"
proof (cases "c < 0")
  case True
  then show ?thesis using assms(2) by (auto simp: N_SQL_Close_RefCursor_def Let_def SendPack_def)
next
  case False
  then show ?thesis using assms answered_error(1) [OF assms(1), of Q]
    by (fastforce simp: N_SQL_Close_RefCursor_def Let_def answered_simps)
qed

lemma call_counts:
  assumes "sql_services Q" "quiet P" "accepting Q malloc m0 P"
  shows "\<exists>i l'. call Q malloc m0 P c l = Some (i, l') \<and> status l' = status l + of_int (opened c)"
proof -
  obtain n1 n2 n3 n4 n5 n6 where n: "sql_service Q ''SQL_EndTran'' = Some (Some n1)"
    "sql_service Q ''SQL_Select'' = Some (Some n2)" "sql_service Q ''SQL_Exec'' = Some (Some n3)"
    "sql_service Q ''SQL_Prepare'' = Some (Some n4)" "sql_service Q ''SQL_Fetch'' = Some (Some n5)"
    "sql_service Q ''SQL_Close'' = Some (Some n6)"
    using sql_service_found [OF assms(1)] .
  obtain h where h: "answered P l h" "0 \<le> ERRNO1 h" "\<And>da. \<exists>da'. fill_sqlda Q malloc m0 h da = Some da'"
    using assms(2,3) by (cases "recv P (received l)")
      (force simp: accepting_def readable_def answered_def dest: spec [of _ "received l"])
  show ?thesis
  proof (cases c)
    case (Tran f)
    then show ?thesis using EndTran_answered [OF h(1) n(1), of f] by auto
  next
    case (Exec cmd)
    then show ?thesis using Exec_answered [OF h(1) n(3), of cmd] by auto
  next
    case (Select cmd k)
    then show ?thesis using Select_answered [OF h(1) n(2), of cmd k] by auto
  next
    case (Prepare cmd da)
    then show ?thesis using Prepare_answered [OF h(1) n(4) h(2,3), of cmd da] by auto
  next
    case (Fetch k m)
    then show ?thesis using Fetch_answered [OF h(1) n(5), of k m] by auto
  next
    case (CloseCursor k)
    then show ?thesis using Close_answered [OF h(1) n(6), of k] by auto
  qed
qed

lemma calls_count:
  assumes "sql_services Q" "quiet P" "accepting Q malloc m0 P"
  shows "\<exists>l'. calls Q malloc m0 P cs l = Some l' \<and> status l' = status l + of_int (sum_list (map opened cs))"
proof (induction cs arbitrary: l)
  case (Cons c cs)
  obtain i l1 where "call Q malloc m0 P c l = Some (i, l1)" "status l1 = status l + of_int (opened c)"
    using call_counts [OF assms] by blast
  then show ?case using Cons [of l1] by (auto simp: algebra_simps)
qed simp

lemma state_mark_of_int:
  assumes "\<bar>k\<bar> < 2 ^ 32"
  shows "(of_int k :: 32 word) > 0 \<longleftrightarrow> k \<noteq> 0"
proof -
  have "(of_int k :: 32 word) = 0 \<longleftrightarrow> 2 ^ 32 dvd k" by (simp add: word_of_int_eq_0_iff)
  also have "\<dots> \<longleftrightarrow> k = 0" using assms zdvd_imp_le [of "2 ^ 32" "\<bar>k\<bar>"] by auto
  finally show ?thesis by (simp add: word_gt_0)
qed

text \<open>C27: A connection on which nothing is open, used with any sequence of calls the server accepts,
  keeps the server's state exactly when the transactions begun and cursors opened are not as many as those
  ended and closed: one commit or close too many pins it as one too few does, because the counter
  is unsigned.  The next statement carries \<open>PACK_STATUS\<close> then, and nothing otherwise.\<close>

theorem state_kept_unless_balanced:
  assumes "sql_services Q" "quiet P" "accepting Q malloc m0 P" "status l = 0" "length cs < 2 ^ 32"
    and "sql_service Q ''SQL_Exec'' = Some (Some n)"
  shows "\<exists>l1 i l2. calls Q malloc m0 P cs l = Some l1 \<and> N_SQL_Exec Q P cmd l1 = Some (i, l2) \<and>
    sent l2 = sent l1 @ [sql_request Q n 0 (if sum_list (map opened cs) = 0 then 0 else PACK_STATUS) 0 (int (length cmd)) (Some cmd)]"
proof -
  obtain l1 where l1: "calls Q malloc m0 P cs l = Some l1" "status l1 = of_int (sum_list (map opened cs))"
    using calls_count [OF assms(1-3), of cs l] assms(4) by auto
  obtain h where h: "answered P l1 h"
    using assms(2,3) by (cases "recv P (received l1)")
      (force simp: accepting_def readable_def answered_def dest: spec [of _ "received l1"])
  have "\<bar>sum_list (map opened cs)\<bar> \<le> int (length cs)"
  proof (induction cs)
    case (Cons c cs)
    have "\<bar>opened c\<bar> \<le> 1" by (cases c) auto
    then show ?case using Cons by auto
  qed simp
  then have "state_mark l1 = (if sum_list (map opened cs) = 0 then 0 else PACK_STATUS)"
    using state_mark_of_int [of "sum_list (map opened cs)"] assms(5) l1(2) by (simp add: state_mark_def)
  then show ?thesis using Exec_answered [OF h assms(6), of cmd] l1(1) by auto
qed

text \<open>A statement the server refuses to prepare leaves the counter raised, although there is no
  cursor to close, while a failure of the connection lowers it again.\<close>

theorem refused_prepare_stays_open:
  assumes "quiet P" "recv P (received l) = (0, h)" "PKG_LEN h \<noteq> 0 \<longrightarrow> data h \<noteq> None" "ERRNO1 h < 0"
    and "sql_service Q ''SQL_Prepare'' = Some (Some n)" "i \<noteq> 0"
  shows "(\<exists>l'. N_SQL_Prepare Q malloc m0 P cmd da l = Some (ERRNO1 h, da, l') \<and> status l' = status l + 1) \<and>
    (\<exists>l'. N_SQL_Prepare Q malloc m0 (P\<lparr>recv := \<lambda>k. (i, h)\<rparr>) cmd da l = Some (i, da, l') \<and> status l' = status l)"
proof
  show "\<exists>l'. N_SQL_Prepare Q malloc m0 P cmd da l = Some (ERRNO1 h, da, l') \<and> status l' = status l + 1"
    using Prepare_refused [of P l h Q n] assms by (simp add: answered_def)
  show "\<exists>l'. N_SQL_Prepare Q malloc m0 (P\<lparr>recv := \<lambda>k. (i, h)\<rparr>) cmd da l = Some (i, da, l') \<and> status l' = status l"
    using assms by (simp add: N_SQL_Prepare_def exchange_def SendPack_def RecvPack_def quiet_def)
qed

section \<open>Instances\<close>

definition sql_names :: "(int \<times> string) list" where
  "sql_names = [(2, ''SQL_EndTran''), (3, ''SQL_Select''), (4, ''SQL_Exec''), (5, ''SQL_Prepare''), (6, ''SQL_Fetch''),
     (7, ''SQL_Close'')]"

definition sql_server :: sql_env where
  "sql_server = \<lparr>clip = Some (svc_var sql_names), dnode = None, slib = SQL_Text.plain_lib\<rparr>"

lemma sql_names_distinct: "(n, name) \<in> set sql_names \<Longrightarrow> \<forall>(m, t)\<in>set sql_names. chars t = chars name \<longrightarrow> m = n"
  by (simp add: sql_names_def) (elim disjE; simp)

lemma sql_server_services:
  "sql_service sql_server ''SQL_EndTran'' = Some (Some 2)" "sql_service sql_server ''SQL_Select'' = Some (Some 3)"
  "sql_service sql_server ''SQL_Exec'' = Some (Some 4)" "sql_service sql_server ''SQL_Prepare'' = Some (Some 5)"
  "sql_service sql_server ''SQL_Fetch'' = Some (Some 6)" "sql_service sql_server ''SQL_Close'' = Some (Some 7)"
  by (simp_all add: sql_service_def sql_server_def)
    (rule listed_service [OF _ sql_names_distinct]; simp add: sql_names_def)+

lemma sql_server_facts: "sql_services sql_server" "quiet calm" "accepting sql_server b m calm" "Event_proc calm = None"
  "status new_client = 0"
  by (simp_all add: sql_services_def sql_server_services quiet_def calm_def accepting_def readable_def request_def
      fill_sqlda_def new_client_def)

theorem state_kept_unless_balanced_witness:
  "\<exists>l1 i l2. calls sql_server True (\<lambda>a. 0) calm [Tran 0, Exec [97], Tran 1, Tran 1] new_client = Some l1 \<and>
    N_SQL_Exec sql_server calm [98] l1 = Some (i, l2) \<and>
    sent l2 = sent l1 @ [sql_request sql_server 4 0 PACK_STATUS 0 1 (Some [98])]"
  using state_kept_unless_balanced [of sql_server calm True "\<lambda>a. 0" new_client "[Tran 0, Exec [97], Tran 1, Tran 1]" 4 "[98]"]
  by (simp add: sql_server_facts sql_server_services TRANBEGIN_def)

theorem refused_prepare_stays_open_witness:
  "\<exists>l'. N_SQL_Prepare sql_server True (\<lambda>a. 0) (calm\<lparr>recv := \<lambda>k. (0, request 0 (-942) 0 0 None)\<rparr>) [97] None new_client =
    Some (-942, None, l') \<and> status l' = status new_client + 1"
  using refused_prepare_stays_open [of "calm\<lparr>recv := \<lambda>k. (0, request 0 (-942) 0 0 None)\<rparr>" new_client "request 0 (-942) 0 0 None"
      sql_server 5 1 True "\<lambda>a. 0" "[97]" None]
  by (simp add: sql_server_services quiet_def calm_def request_def)

end
