(* ===== verification/Listing.thy ===== *)
theory Listing
  imports Remote_Client
begin

text \<open>Lists of files: the service \<open>filels\<close> (\<open>src/scsrv/filelist.c\<close>), its callers in
  \<open>src/sccli/getls.c\<close>, and the tests of \<open>src/conf/isdir.c\<close>.\<close>

unbundle bit_operations_syntax

section \<open>Kinds of files\<close>

record file_stat =
  st_mode :: "32 word"
  st_uid :: int
  st_gid :: int

text \<open>The system: the environment, \<open>stptok\<close> up to a slash and up to a blank (the token and the text
  from the delimiter on), \<open>stat\<close>, the user, and what \<open>popen\<close> of \<open>ls\<close> with a path gives, as the words
  \<open>fscanf\<close> reads, or the \<open>errno\<close> when it fails.\<close>

record ls_world =
  envl :: envlib
  slash_tok :: "bytes \<Rightarrow> bytes \<times> bytes"
  blank_tok :: "bytes \<Rightarrow> bytes \<times> bytes"
  sc_basename :: "bytes \<Rightarrow> bytes"
  stat :: "bytes \<Rightarrow> file_stat option"
  euid :: int
  egid :: int
  ls_words :: "bytes \<Rightarrow> int + bytes list"
  room :: bool

abbreviation (input) S_IFDIR :: "32 word" where "S_IFDIR \<equiv> 0x4000"
abbreviation (input) S_IFMT :: "32 word" where "S_IFMT \<equiv> 0xF000"
abbreviation (input) S_IFREG :: "32 word" where "S_IFREG \<equiv> 0x8000"
abbreviation (input) S_IRUSR :: "32 word" where "S_IRUSR \<equiv> 0x100"
abbreviation (input) S_IRGRP :: "32 word" where "S_IRGRP \<equiv> 0x20"
abbreviation (input) S_IROTH :: "32 word" where "S_IROTH \<equiv> 4"

definition isdir :: "ls_world \<Rightarrow> bytes \<Rightarrow> int" where
  "isdir W path = (case stat W path of None \<Rightarrow> -1 | Some b \<Rightarrow> if st_mode b AND S_IFDIR \<noteq> 0 then 1 else 0)"

definition isrfile :: "ls_world \<Rightarrow> bytes \<Rightarrow> int" where
  "isrfile W path =
     (case stat W path of
        None \<Rightarrow> -1
      | Some b \<Rightarrow>
          let m = st_mode b in
          if m AND S_IFMT \<noteq> S_IFREG then 0
          else if euid W = 0
            then if m AND S_IRUSR \<noteq> 0 \<or> m AND S_IRGRP \<noteq> 0 \<or> m AND S_IROTH \<noteq> 0 then 1 else 0
          else if m AND S_IROTH \<noteq> 0 then 1
          else if st_gid b = egid W \<and> m AND S_IRGRP \<noteq> 0 then 1
          else if st_uid b = euid W \<and> m AND S_IRUSR \<noteq> 0 then 1
          else 0)"

section \<open>The server\<close>

text \<open>The value that stands for the start of the path, and how many bytes of the path it stands for.\<close>

definition ls_prefix :: "ls_world \<Rightarrow> bytes \<Rightarrow> bytes option \<times> nat" where
  "ls_prefix W buff =
     (if take 2 buff = chars ''$/'' then (getenv (envl W) (chars ''SENDDIR''), 1)
      else if take 2 buff = chars ''@/'' then (getenv (envl W) (chars ''HOME''), 1)
      else if take 1 buff = chars ''$''
        then case slash_tok W (drop 1 buff) of (t, r) \<Rightarrow> (getenv (envl W) t, length buff - length r)
      else (None, 0))"

text \<open>n is the size of \<open>buff\<close>.  A slash at the end of the value is cut off in the environment itself,
  which is left out here: it would be cut off the next time too.\<close>

definition ls_path :: "ls_world \<Rightarrow> nat \<Rightarrow> bytes \<Rightarrow> bytes option" where
  "ls_path W n buff =
     (case ls_prefix W buff of (env, k) \<Rightarrow>
        if k = 0 then Some buff
        else
          let env = (case env of None \<Rightarrow> [0x2E] | Some e \<Rightarrow> if e = [] then [0x2E] else e);
              env = (if last env = 0x2F then butlast env else env);
              b = fst (strsubst (envl W) buff k env)
          in if 1000 \<le> length env \<or> n \<le> length b then None else Some b)"

text \<open>The directory the names are put behind; \<open>None\<close> when \<open>dir\<close> is overrun or empty.\<close>

definition ls_dir :: "ls_world \<Rightarrow> bytes \<Rightarrow> bytes option" where
  "ls_dir W buff =
     (let upto = rev (dropWhile (\<lambda>c. c \<noteq> 0x2F) (rev buff));
          dir = (if 0 < isdir W buff then buff else if upto = [] then [0x2E] else butlast upto)
      in if 512 \<le> length dir \<or> dir = [] then None
         else Some (if last dir = 0x2F then butlast dir else dir))"

definition send_names :: "'l peer \<Rightarrow> bytes \<Rightarrow> T_NetHead \<Rightarrow> 'l link_scheme \<Rightarrow> int \<times> T_NetHead \<times> 'l link_scheme" where
  "send_names P p h l =
     (let h = h\<lparr>PROTO_NUM := 0, data := Some p, PKG_LEN := int (length p), ERRNO2 := PACK_CONTINUE,
                O_NODE := LocalAddr P\<rparr>;
          (i, l) = SendPack P h l
      in (i, h, l))"

text \<open>p is the text in \<open>buffer\<close>.\<close>

fun ls_loop :: "ls_world \<Rightarrow> 'l peer \<Rightarrow> bytes \<Rightarrow> bytes list \<Rightarrow> bytes \<Rightarrow> T_NetHead \<Rightarrow> 'l link_scheme
    \<Rightarrow> (bytes \<times> T_NetHead \<times> 'l link_scheme) option" where
  "ls_loop W P dir [] p h l = Some (p, h, l)"
| "ls_loop W P dir (tmp # words) p h l =
     (if 1000 \<le> length tmp then None
      else if p = [] \<and> last tmp = 0x3A then Some (p, h, l)
      else
        let tmp1 = dir @ [0x2F] @ sc_basename W tmp in
        if 2000 \<le> length tmp1 then None
        else if isrfile W tmp1 \<le> 0 then ls_loop W P dir words p h l
        else if length p + length tmp1 < SDBC_BLKSZ - 2 then ls_loop W P dir words (p @ tmp1) h l
        else case send_names P p (h\<lparr>D_NODE := 0\<rparr>) l of (i, h, l) \<Rightarrow>
          if i \<noteq> 0 then Some (p, h, l) else ls_loop W P dir words (tmp1 @ [0x20]) h l)"

definition filels_errret :: "'l peer \<Rightarrow> int \<Rightarrow> T_NetHead \<Rightarrow> 'l link_scheme \<Rightarrow> int \<times> T_NetHead \<times> 'l link_scheme" where
  "filels_errret P err h l =
     (let (h, l) = answer P (PROTO_NUM h) (h\<lparr>ERRNO1 := err\<rparr>) l;
          h = h\<lparr>data := None, PKG_LEN := 0, ERRNO2 := -1\<rparr>;
          (i, l) = SendPack P h l
      in (0, h, l))"

definition filels :: "ls_world \<Rightarrow> 'l peer \<Rightarrow> T_NetHead \<Rightarrow> 'l link_scheme \<Rightarrow> (int \<times> T_NetHead \<times> 'l link_scheme) option" where
  "filels W P h l =
     (let Event_no = PROTO_NUM h in
      if PKG_LEN h = 0 then Some (filels_errret P (-1) h l)
      else if \<not> room W then Some (filels_errret P (-2) h l)
      else do {
        s \<leftarrow> data h;
        buff \<leftarrow> ls_path W (nat (PKG_LEN h + 200)) (c_text s);
        (if 1000 \<le> length buff + 3 then None
         else do {
           dir \<leftarrow> ls_dir W buff;
           (case ls_words W buff of
              Inl e \<Rightarrow> Some (filels_errret P e h l)
            | Inr words \<Rightarrow> do {
                (p, h, l) \<leftarrow> ls_loop W P dir words [] h l;
                let (i, h, l) = (if p = [] then (0, h, l) else send_names P p h l);
                    (ev, l) = PutEvent P Event_no l;
                    h = h\<lparr>PROTO_NUM := ev, data := None, PKG_LEN := 0, ERRNO2 := 0, PKG_REC_NUM := 0,
                          O_NODE := LocalAddr P, D_NODE := 0\<rparr>;
                    (i, l) = SendPack P h l
                in Some (0, h, l) }) }) })"

section \<open>The client\<close>

text \<open>\<open>s_output\<close> gives the lines it writes.  It looks for the next token before it writes the one
  it has, so the last one is not written.\<close>

partial_function (option) s_output :: "ls_world \<Rightarrow> bytes \<Rightarrow> bytes list option" where
  "s_output W str =
     (case blank_tok W str of (t, p) \<Rightarrow>
        if p = [] then Some [] else do { ls \<leftarrow> s_output W (drop 1 p); Some (t # ls) })"

partial_function (option) getls_loop :: "ls_world \<Rightarrow> 'l peer \<Rightarrow> bytes list \<Rightarrow> 'l link_scheme
    \<Rightarrow> (int \<times> bytes list \<times> 'l link_scheme) option" where
  "getls_loop W P out l =
     (case RecvPack P l of (ret, h, l) \<Rightarrow>
        if ret \<noteq> 0 \<or> ERRNO1 h \<noteq> 0 \<or> ERRNO2 h \<noteq> 0
        then if ERRNO2 h = 100 then Some (0, out, l) else Some (-1, out, l)
        else do { s \<leftarrow> data h; ls \<leftarrow> s_output W (c_text s); getls_loop W P (out @ ls) l })"

text \<open>The header is the one of the caller; \<open>Var\<close> may be null.\<close>

definition getls :: "ls_world \<Rightarrow> 'l peer \<Rightarrow> cli_var option \<Rightarrow> T_NetHead \<Rightarrow> bytes \<Rightarrow> 'l link_scheme
    \<Rightarrow> (int \<times> bytes list \<times> 'l link_scheme) option" where
  "getls W P Var h path l =
     do { n \<leftarrow> (case Var of None \<Rightarrow> Some None | Some v \<Rightarrow> service v ''filels'');
          (case n of None \<Rightarrow> Some (FORMATERR, [], l)
           | Some n \<Rightarrow>
             let h = h\<lparr>data := Some path, PKG_LEN := int (length path) + 1, ERRNO1 := 0, ERRNO2 := 0, PROTO_NUM := n\<rparr>;
                 (i, l) = SendPack P h l
             in getls_loop W P [] l) }"

text \<open>\<open>sscanf\<close> with two words: the result, \<open>sflnm\<close> and \<open>dflnm\<close>.\<close>

definition scan_words :: "bytes \<Rightarrow> bytes \<Rightarrow> bytes \<Rightarrow> int \<times> bytes \<times> bytes" where
  "scan_words buf sflnm dflnm =
     (let a = dropWhile is_space buf; w1 = takeWhile (\<lambda>c. \<not> is_space c) a;
          b = dropWhile is_space (drop (length w1) a); w2 = takeWhile (\<lambda>c. \<not> is_space c) b
      in if w1 = [] then (-1, sflnm, dflnm) else if w2 = [] then (1, w1, dflnm) else (2, w1, w2))"

text \<open>The name of the local file.  A directory gets its name from the second byte on, as \<open>ret\<close> is
  taken for the length.\<close>

definition local_name :: "ls_world \<Rightarrow> int \<Rightarrow> bytes \<Rightarrow> bytes \<Rightarrow> bytes option" where
  "local_name W ret sflnm dflnm =
     (let p = sc_basename W sflnm in
      if ret = 1 then
        let p1 = (case getenv (envl W) (chars ''RECVDIR'') of None \<Rightarrow> chars ''/tmp''
                  | Some d \<Rightarrow> if d = [] then chars ''/tmp'' else d)
        in Some (if last p1 = 0x2F then p1 @ p else p1 @ [0x2F] @ p)
      else if dflnm = [] then None
      else if last dflnm = 0x2F then Some (dflnm @ p)
      else if 0 < isdir W dflnm
        then if ret < 0 then None
             else Some (if length dflnm < nat ret then dflnm else take (nat ret) dflnm @ [0x2F] @ p)
      else Some dflnm)"

text \<open>The pieces are what \<open>fgets\<close> reads, each with \<open>feof\<close> after it; the files written are gathered.\<close>

fun s_getfile :: "ls_world \<Rightarrow> 'c client_ext peer \<Rightarrow> os \<Rightarrow> cli_var option \<Rightarrow> (bytes \<times> bool) list \<Rightarrow> bytes \<Rightarrow> bytes
    \<Rightarrow> (bytes \<times> bytes option) list \<Rightarrow> 'c client_scheme
    \<Rightarrow> (int \<times> (bytes \<times> bytes option) list \<times> 'c client_scheme) option" where
  "s_getfile W P F clip [] sflnm dflnm got l = Some (0, got, l)"
| "s_getfile W P F clip ((buf, feof) # rest) sflnm dflnm got l =
     (if feof then Some (0, got, l)
      else if take 1 buf = [0x23] then s_getfile W P F clip rest sflnm dflnm got l
      else case scan_words buf sflnm dflnm of (ret, sflnm, dflnm) \<Rightarrow> do {
        dflnm \<leftarrow> local_name W ret sflnm dflnm;
        (if 256 \<le> length sflnm \<or> 256 \<le> length dflnm then None
         else do {
           (r, file, l) \<leftarrow> N_Get_File P F clip dflnm sflnm l;
           (if r \<noteq> 0 \<and> r \<noteq> 100 then Some (r, got @ [(dflnm, file)], l)
            else s_getfile W P F clip rest sflnm dflnm (got @ [(dflnm, file)]) l) }) })"

text \<open>\<open>m_getfile\<close>: tmpfile says whether the temporary file could be made.\<close>

definition m_getfile :: "ls_world \<Rightarrow> 'c client_ext peer \<Rightarrow> os \<Rightarrow> bool \<Rightarrow> cli_var option \<Rightarrow> T_NetHead \<Rightarrow> bytes
    \<Rightarrow> 'c client_scheme \<Rightarrow> (int \<times> (bytes \<times> bytes option) list \<times> 'c client_scheme) option" where
  "m_getfile W P F tmpfile clip h path l =
     (if \<not> tmpfile then Some (-1, [], l)
      else do {
        (ret, ls, l) \<leftarrow> getls W P clip h path l;
        (if ret \<noteq> 0 then Some (ret, [], l)
         else s_getfile W P F clip (map (\<lambda>s. (s @ [0x0A], False)) ls @ [([], True)]) [] [] [] l) })"

section \<open>What is listed\<close>

text \<open>The readable regular files among the words, unless a word that ends with a colon, as in the
  message of \<open>ls\<close> for a missing file, comes before the first of them.\<close>

definition readable_files :: "ls_world \<Rightarrow> bytes \<Rightarrow> bytes list \<Rightarrow> bytes list" where
  "readable_files W dir words = filter (\<lambda>f. 0 < isrfile W f) (map (\<lambda>w. dir @ [0x2F] @ sc_basename W w) words)"

fun listed :: "ls_world \<Rightarrow> bytes \<Rightarrow> bytes list \<Rightarrow> bytes list" where
  "listed W dir [] = []"
| "listed W dir (w # words) =
     (if last w = 0x3A then []
      else if 0 < isrfile W (dir @ [0x2F] @ sc_basename W w) then readable_files W dir (w # words)
      else listed W dir words)"

text \<open>The text of the names of one packet: only the packets after the first have a blank, behind
  their first name.\<close>

definition packet_text :: "bytes list \<Rightarrow> bytes" where
  "packet_text g = hd g @ [0x20] @ concat (tl g)"

definition short_words :: "ls_world \<Rightarrow> bytes \<Rightarrow> bytes list \<Rightarrow> bool" where
  "short_words W dir words \<longleftrightarrow>
     (\<forall>w\<in>set words. length w < 1000 \<and> length dir + 1 + length (sc_basename W w) < 2000)"

definition bodies :: "'l link_scheme \<Rightarrow> bytes option list" where
  "bodies l = map data (sent l)"

lemma readable_files_simps [simp]: "readable_files W dir [] = []"
  "readable_files W dir (w # ws) =
    (let f = dir @ [0x2F] @ sc_basename W w in if 0 < isrfile W f then f # readable_files W dir ws else readable_files W dir ws)"
  by (simp_all add: readable_files_def Let_def)

lemma short_words_Cons [simp]: "short_words W dir (w # ws) \<longleftrightarrow>
    length w < 1000 \<and> length dir + 1 + length (sc_basename W w) < 2000 \<and> short_words W dir ws"
  by (auto simp: short_words_def)

lemma send_names_ok: "\<forall>k. send P k = 0 \<Longrightarrow> \<exists>h'. send_names P p h l = (0, h', l\<lparr>sent := sent l @ [h']\<rparr>) \<and>
    data h' = Some p \<and> ERRNO2 h' = PACK_CONTINUE \<and> PROTO_NUM h' = 0"
  by (simp add: send_names_def SendPack_def Let_def)

lemma ls_loop_packets:
  assumes "\<forall>k. send P k = 0"
  shows "short_words W dir words \<Longrightarrow> p \<noteq> [] \<Longrightarrow>
    \<exists>fs gs p' h' hs. ls_loop W P dir words p h l = Some (p', h', l\<lparr>sent := sent l @ hs\<rparr>) \<and>
      fs @ concat gs = readable_files W dir words \<and> [] \<notin> set gs \<and> p' \<noteq> [] \<and>
      map data hs @ [Some p'] = map Some ((p @ concat fs) # map packet_text gs) \<and>
      (\<forall>h\<in>set hs. ERRNO2 h = PACK_CONTINUE)"
proof (induction words arbitrary: p h l)
  case Nil
  show ?case by (rule exI [of _ "[]"], rule exI [of _ "[]"]) (simp add: Nil)
next
  case (Cons w ws)
  let ?f = "dir @ [0x2F] @ sc_basename W w"
  have w: "length w < 1000" "length ?f < 2000" "short_words W dir ws" using Cons.prems(1) by auto
  consider "isrfile W ?f \<le> 0" | "0 < isrfile W ?f" "length p + length ?f < SDBC_BLKSZ - 2"
    | "0 < isrfile W ?f" "\<not> length p + length ?f < SDBC_BLKSZ - 2" by linarith
  then show ?case
  proof cases
    case 1
    then show ?thesis using Cons.IH [OF w(3) Cons.prems(2), of h l] w(1,2) Cons.prems(2) by simp
  next
    case 2
    have "p @ ?f \<noteq> []" by simp
    then obtain fs gs p' h' hs where r: "ls_loop W P dir ws (p @ ?f) h l = Some (p', h', l\<lparr>sent := sent l @ hs\<rparr>)"
      "fs @ concat gs = readable_files W dir ws" "[] \<notin> set gs" "p' \<noteq> []"
      "map data hs @ [Some p'] = map Some (((p @ ?f) @ concat fs) # map packet_text gs)"
      "\<forall>h\<in>set hs. ERRNO2 h = PACK_CONTINUE"
      using Cons.IH [OF w(3), of "p @ ?f" h l] by blast
    show ?thesis
      by (rule exI [of _ "?f # fs"], rule exI [of _ gs], rule exI [of _ p'], rule exI [of _ h'], rule exI [of _ hs])
        (use 2 r w(1,2) Cons.prems(2) in \<open>simp add: Let_def\<close>)
  next
    case 3
    obtain h1 where h1: "send_names P p (h\<lparr>D_NODE := 0\<rparr>) l = (0, h1, l\<lparr>sent := sent l @ [h1]\<rparr>)" "data h1 = Some p"
        "ERRNO2 h1 = PACK_CONTINUE"
      using send_names_ok [OF assms, of p "h\<lparr>D_NODE := 0\<rparr>" l] by blast
    have "?f @ [0x20] \<noteq> []" by simp
    then obtain fs gs p' h' hs where r: "ls_loop W P dir ws (?f @ [0x20]) h1 (l\<lparr>sent := sent l @ [h1]\<rparr>) =
        Some (p', h', l\<lparr>sent := (sent l @ [h1]) @ hs\<rparr>)"
      "fs @ concat gs = readable_files W dir ws" "[] \<notin> set gs" "p' \<noteq> []"
      "map data hs @ [Some p'] = map Some (((?f @ [0x20]) @ concat fs) # map packet_text gs)"
      "\<forall>h\<in>set hs. ERRNO2 h = PACK_CONTINUE"
      using Cons.IH [OF w(3), of "?f @ [0x20]" h1 "l\<lparr>sent := sent l @ [h1]\<rparr>"] by auto
    show ?thesis
      by (rule exI [of _ "[]"], rule exI [of _ "(?f # fs) # gs"], rule exI [of _ p'], rule exI [of _ h'],
          rule exI [of _ "h1 # hs"])
        (use 3 r h1 w(1,2) Cons.prems(2) in \<open>simp add: Let_def packet_text_def\<close>)
  qed
qed

lemma ls_loop_listed:
  assumes "\<forall>k. send P k = 0" "short_words W dir words"
  shows "\<exists>fs gs p' h' hs. ls_loop W P dir words [] h l = Some (p', h', l\<lparr>sent := sent l @ hs\<rparr>) \<and>
    fs @ concat gs = listed W dir words \<and> [] \<notin> set gs \<and> (fs = [] \<longrightarrow> gs = []) \<and>
    map data hs @ (if p' = [] then [] else [Some p']) = (if fs = [] then [] else map Some (concat fs # map packet_text gs)) \<and>
    (\<forall>h\<in>set hs. ERRNO2 h = PACK_CONTINUE)"
  using assms(2)
proof (induction words)
  case Nil
  show ?case by (rule exI [of _ "[]"], rule exI [of _ "[]"]) simp
next
  case (Cons w ws)
  let ?f = "dir @ [0x2F] @ sc_basename W w"
  have w: "length w < 1000" "length ?f < 2000" "short_words W dir ws" using Cons.prems by auto
  have f: "length ?f < SDBC_BLKSZ - 2" using w(2) by (simp add: SDBC_BLKSZ_def)
  consider "last w = 0x3A" | "last w \<noteq> 0x3A" "isrfile W ?f \<le> 0" | "last w \<noteq> 0x3A" "0 < isrfile W ?f" by linarith
  then show ?case
  proof cases
    case 1
    then show ?thesis using w by (intro exI [of _ "[]"]) simp
  next
    case 2
    then show ?thesis using Cons.IH [OF w(3)] w(1,2) by simp
  next
    case 3
    obtain fs gs p' h' hs where r: "ls_loop W P dir ws ?f h l = Some (p', h', l\<lparr>sent := sent l @ hs\<rparr>)"
      "fs @ concat gs = readable_files W dir ws" "[] \<notin> set gs" "p' \<noteq> []"
      "map data hs @ [Some p'] = map Some ((?f @ concat fs) # map packet_text gs)" "\<forall>h\<in>set hs. ERRNO2 h = PACK_CONTINUE"
      using ls_loop_packets [OF assms(1) w(3), of ?f h l] by auto
    show ?thesis
      by (rule exI [of _ "?f # fs"], rule exI [of _ gs], rule exI [of _ p'], rule exI [of _ h'], rule exI [of _ hs])
        (use 3 r w f in \<open>simp add: Let_def\<close>)
  qed
qed

text \<open>A request for a list that the server can answer.\<close>

definition can_list :: "ls_world \<Rightarrow> T_NetHead \<Rightarrow> bytes \<Rightarrow> bytes list \<Rightarrow> bool" where
  "can_list W q dir words \<longleftrightarrow>
     PKG_LEN q \<noteq> 0 \<and> room W \<and>
     (\<exists>s buff. data q = Some s \<and> ls_path W (nat (PKG_LEN q + 200)) (c_text s) = Some buff \<and> length buff + 3 < 1000 \<and>
       ls_dir W buff = Some dir \<and> ls_words W buff = Inr words) \<and>
     short_words W dir words"

text \<open>\<open>filels\<close> sends the readable files of the list in their order, each behind its directory, and then
  a packet without data; inside a packet nothing stands between two names, but for a blank behind
  the first name of every packet after the first.\<close>

lemma filels_names:
  assumes "quiet P" "at_start l" "can_list W q dir words"
  shows "\<exists>fs gs h l' hs. filels W P q l = Some (0, h, l') \<and> sent l' = hs @ [h] \<and>
    fs @ concat gs = listed W dir words \<and> (fs = [] \<longrightarrow> gs = []) \<and> [] \<notin> set gs \<and>
    map data hs = (if fs = [] then [] else map Some (concat fs # map packet_text gs)) \<and>
    (\<forall>h\<in>set hs. ERRNO2 h = PACK_CONTINUE) \<and> data h = None \<and> ERRNO2 h = 0"
proof -
  obtain s buff where s: "PKG_LEN q \<noteq> 0" "room W" "data q = Some s"
      "ls_path W (nat (PKG_LEN q + 200)) (c_text s) = Some buff" "length buff + 3 < 1000"
      "ls_dir W buff = Some dir" "ls_words W buff = Inr words" "short_words W dir words"
    using assms(3) unfolding can_list_def by blast
  have send: "\<forall>k. send P k = 0" using assms(1) by (simp add: quiet_def)
  obtain fs gs p' h' hs where r: "ls_loop W P dir words [] q l = Some (p', h', l\<lparr>sent := sent l @ hs\<rparr>)"
      "fs @ concat gs = listed W dir words" "[] \<notin> set gs" "fs = [] \<longrightarrow> gs = []"
      "map data hs @ (if p' = [] then [] else [Some p']) = (if fs = [] then [] else map Some (concat fs # map packet_text gs))"
      "\<forall>h\<in>set hs. ERRNO2 h = PACK_CONTINUE"
    using ls_loop_listed [OF send s(8), of q l] by blast
  obtain h1 where h1: "send_names P p' h' (l\<lparr>sent := hs\<rparr>) = (0, h1, l\<lparr>sent := hs @ [h1]\<rparr>)"
      "data h1 = Some p'" "ERRNO2 h1 = PACK_CONTINUE"
    using send_names_ok [OF send, of p' h' "l\<lparr>sent := hs\<rparr>"] by auto
  let ?h = "\<lambda>h. h\<lparr>PROTO_NUM := 0, data := None, PKG_LEN := 0, ERRNO2 := 0, PKG_REC_NUM := 0, O_NODE := LocalAddr P, D_NODE := 0\<rparr>"
  show ?thesis
  proof (cases "p' = []")
    case True
    then have "filels W P q l = Some (0, ?h h', l\<lparr>sent := hs @ [?h h']\<rparr>)"
      using s r(1) assms(1,2) by (simp add: filels_def Let_def quiet_simps SendPack_def at_start_def)
    then show ?thesis using r True by (intro exI [of _ fs] exI [of _ gs] exI [of _ "?h h'"] exI) auto
  next
    case False
    then have "filels W P q l = Some (0, ?h h1, l\<lparr>sent := (hs @ [h1]) @ [?h h1]\<rparr>)"
      using s r(1) h1(1) assms(1,2) by (simp add: filels_def Let_def quiet_simps SendPack_def at_start_def)
    then show ?thesis using r h1 False
      by (intro exI [of _ fs] exI [of _ gs] exI [of _ "?h h1"] exI [of _ "l\<lparr>sent := (hs @ [h1]) @ [?h h1]\<rparr>"] exI [of _ "hs @ [h1]"]) auto
  qed
qed

text \<open>\<open>filels\<close> sends the readable files of the list in their order, each behind its directory, and then
  a packet without data; inside a packet nothing stands between two names, but for a blank behind
  the first name of every packet after the first.\<close>

theorem filels_sends_names:
  assumes "quiet P" "at_start l" "can_list W q dir words"
  shows "\<exists>fs gs h l'. filels W P q l = Some (0, h, l') \<and>
    fs @ concat gs = listed W dir words \<and> (fs = [] \<longrightarrow> gs = []) \<and> [] \<notin> set gs \<and>
    map data (sent l') = (if fs = [] then [] else map Some (concat fs # map packet_text gs)) @ [None]"
proof -
  obtain fs gs h l' hs where "filels W P q l = Some (0, h, l')" "sent l' = hs @ [h]"
      "fs @ concat gs = listed W dir words" "fs = [] \<longrightarrow> gs = []" "[] \<notin> set gs"
      "map data hs = (if fs = [] then [] else map Some (concat fs # map packet_text gs))" "data h = None"
    using filels_names [OF assms] by blast
  then show ?thesis by (intro exI [of _ fs] exI [of _ gs] exI [of _ h] exI [of _ l']) simp
qed

text \<open>C37: \<open>getls\<close> never gets a list from \<open>filels\<close>: every packet with names has a nonzero \<open>ERRNO2\<close>, which
  \<open>getls\<close> takes for an error, and the last packet has no text.  It returns -1 when something is listed,
  and otherwise -1 or it reads through a null pointer.\<close>

theorem getls_rejects_listing:
  assumes "quiet C" "quiet P" "at_start c0" "at_start l" "can_list W q dir words"
    and "service v ''filels'' = Some (Some n)"
  shows "\<exists>h s. filels W P q l = Some (0, h, s) \<and>
    (case getls W (hearing C (sent s)) (Some v) h0 path c0 of
       None \<Rightarrow> listed W dir words = [] | Some (r, out, l') \<Rightarrow> r = -1 \<and> out = [])"
proof -
  obtain fs gs h s hs where s: "filels W P q l = Some (0, h, s)" "sent s = hs @ [h]"
      "fs @ concat gs = listed W dir words" "fs = [] \<longrightarrow> gs = []" "[] \<notin> set gs"
      "map data hs = (if fs = [] then [] else map Some (concat fs # map packet_text gs))"
      "\<forall>h\<in>set hs. ERRNO2 h = PACK_CONTINUE" "data h = None" "ERRNO2 h = 0"
    using filels_names [OF assms(2,4,5)] by blast
  let ?c = "c0\<lparr>sent := [h0\<lparr>data := Some path, PKG_LEN := int (length path) + 1, ERRNO1 := 0, ERRNO2 := 0, PROTO_NUM := n\<rparr>]\<rparr>"
  have g: "getls W (hearing C (sent s)) (Some v) h0 path c0 = getls_loop W (hearing C (sent s)) [] ?c"
    using assms(1,3,6) by (simp add: getls_def SendPack_def at_start_def Let_def)
  have "case getls_loop W (hearing C (sent s)) [] ?c of
       None \<Rightarrow> listed W dir words = [] | Some (r, out, l') \<Rightarrow> r = -1 \<and> out = []"
  proof (cases hs)
    case Nil
    then have "listed W dir words = []" using s(3,4,6) by (auto split: if_splits)
    then show ?thesis using Nil s(2,8,9) assms(3)
      by (subst getls_loop.simps) (simp add: RecvPack_def at_start_def)
  next
    case (Cons h1 hs')
    then show ?thesis using s(2,7) assms(3)
      by (subst getls_loop.simps) (simp add: RecvPack_def at_start_def PACK_CONTINUE_def)
  qed
  then show ?thesis using s(1) g by simp
qed

section \<open>Instances\<close>

text \<open>A directory "d" with the files "a" and "b".\<close>

definition small_dir :: ls_world where
  "small_dir = \<lparr>envl = home_env, slash_tok = \<lambda>s. (takeWhile (\<lambda>c. c \<noteq> 0x2F) s, dropWhile (\<lambda>c. c \<noteq> 0x2F) s),
     blank_tok = \<lambda>s. (takeWhile (\<lambda>c. c \<noteq> 0x20) s, dropWhile (\<lambda>c. c \<noteq> 0x20) s), sc_basename = \<lambda>s. s,
     stat = \<lambda>f. if f = chars ''d'' then Some \<lparr>st_mode = 0x41ED, st_uid = 5, st_gid = 5\<rparr>
       else if f \<in> {chars ''d/a'', chars ''d/b''} then Some \<lparr>st_mode = 0x81A4, st_uid = 5, st_gid = 5\<rparr> else None,
     euid = 7, egid = 7, ls_words = \<lambda>s. Inr [chars ''a'', chars ''b'', chars ''c''], room = True\<rparr>"

definition list_request :: T_NetHead where
  "list_request = request 2 0 0 1 (Some (chars ''d''))"

lemma calm_facts: "quiet calm" "at_start new_client"
  by (simp_all add: quiet_def calm_def at_start_def new_client_def)

lemma small_dir_list: "can_list small_dir list_request (chars ''d'') [chars ''a'', chars ''b'', chars ''c'']"
  by (simp add: can_list_def small_dir_def list_request_def request_def short_words_def ls_path_def ls_prefix_def
      ls_dir_def isdir_def c_text_def)

lemma small_dir_listed: "listed small_dir (chars ''d'') [chars ''a'', chars ''b'', chars ''c''] = [chars ''d/a'', chars ''d/b'']"
  by (simp add: small_dir_def isrfile_def readable_files_def)

theorem filels_sends_names_witness:
  "\<exists>fs gs h l'. filels small_dir calm list_request new_client = Some (0, h, l') \<and>
    fs @ concat gs = [chars ''d/a'', chars ''d/b''] \<and> (fs = [] \<longrightarrow> gs = []) \<and> [] \<notin> set gs \<and>
    map data (sent l') = (if fs = [] then [] else map Some (concat fs # map packet_text gs)) @ [None]"
  using filels_sends_names [OF calm_facts small_dir_list] unfolding small_dir_listed .

theorem getls_rejects_listing_witness:
  "\<exists>h s. filels small_dir calm list_request new_client = Some (0, h, s) \<and>
    (case getls small_dir (hearing calm (sent s)) (Some (svc_var [(2, ''filels'')])) list_request (chars ''d'') new_client of
       None \<Rightarrow> [chars ''d/a'', chars ''d/b''] = [] | Some (r, out, l') \<Rightarrow> r = -1 \<and> out = [])"
proof -
  have "service (svc_var [(2, ''filels'')]) ''filels'' = Some (Some 2)"
    by (rule listed_service) simp_all
  from getls_rejects_listing [OF calm_facts(1) calm_facts(1) calm_facts(2) calm_facts(2) small_dir_list this]
  show ?thesis unfolding small_dir_listed .
qed

end
