(* ===== verification/Key_File.thy ===== *)
theory Key_File
  imports BB_Tree A64 Enigma Envcfg Pack
begin

text \<open>The table of keys and the passwords under them: \<open>src/ds/getdw.c\<close>, a dictionary of numbered
  texts read from a file into the balanced tree, and \<open>src/conf/decode.c\<close>, which looks up the key
  of a database label and deciphers passwords with it.  \<open>malloc\<close> and \<open>strdup\<close> succeed.\<close>

section \<open>Numbers\<close>

text \<open>\<open>strtoul\<close> of the C library with base 10: the value and the rest behind the digits, or 0 and
  the whole text without a digit.\<close>

definition sign_of :: "bytes \<Rightarrow> bool \<times> bytes" where
  "sign_of s = (case s of c # r \<Rightarrow> if c = 0x2D then (True, r) else if c = 0x2B then (False, r) else (False, s)
                | [] \<Rightarrow> (False, []))"

definition strtoul :: "bytes \<Rightarrow> int \<times> bytes" where
  "strtoul s =
     (let (neg, p) = sign_of (dropWhile is_space s);
          v = digits_val (takeWhile is_digit p)
      in if takeWhile is_digit p = [] then (0, s)
         else (if 2 ^ 64 \<le> v then 2 ^ 64 - 1 else if neg then (- v) mod 2 ^ 64 else v, dropWhile is_digit p))"

text \<open>What an \<open>int\<close> keeps of a number.\<close>

definition to_int :: "int \<Rightarrow> int" where
  "to_int v = sint (word_of_int v :: 32 word)"

section \<open>The dictionary\<close>

record dwnode =
  num :: int
  name :: bytes

definition dwcomp :: "dwnode \<Rightarrow> dwnode \<Rightarrow> int" where
  "dwcomp dw1 dw2 = (if num dw1 > num dw2 then 2 else if num dw1 < num dw2 then -2 else 0)"

definition getdw :: "int \<Rightarrow> dwnode T_Tree \<Rightarrow> bytes option" where
  "getdw k t = (case BB_Tree_Find dwcomp t \<lparr>num = k, name = []\<rparr> of NULL \<Rightarrow> None | Node _ _ c _ _ \<Rightarrow> Some (name c))"

text \<open>One line of the file; nothing for a comment and for a line that does not start with a number.\<close>

definition dw_line :: "envlib \<Rightarrow> bytes \<Rightarrow> dwnode option" where
  "dw_line E bb =
     (case bb of
        [] \<Rightarrow> None
      | c # _ \<Rightarrow>
          if c = 0x23 then None
          else let (n, aa) = strtoul bb in
            if aa = bb then None
            else Some \<lparr>num = to_int n, name = TRIM E (drop (skipblk E aa) aa)\<rparr>)"

fun initdw_loop :: "envlib \<Rightarrow> (bytes \<times> bool) list \<Rightarrow> dwnode T_Tree \<Rightarrow> dwnode T_Tree option" where
  "initdw_loop E [] t = Some t"
| "initdw_loop E ((bb, feof) # rest) t =
     (if feof then Some t
      else case dw_line E bb of
          None \<Rightarrow> initdw_loop E rest t
        | Some node \<Rightarrow> do { t \<leftarrow> BB_Tree_Add True dwcomp None t node; initdw_loop E rest t })"

text \<open>The file, or None when it can not be opened.\<close>

definition initdw :: "envlib \<Rightarrow> bytes option \<Rightarrow> (int \<times> dwnode T_Tree) option" where
  "initdw E file =
     (case file of None \<Rightarrow> Some (-1, NULL)
      | Some s \<Rightarrow> map_option (\<lambda>t. (0, t)) (initdw_loop E (file_pieces s) NULL))"

text \<open>\<open>freedw\<close> gives the tree afterwards and the names freed.\<close>

definition freedw :: "dwnode T_Tree \<Rightarrow> dwnode T_Tree \<times> bytes list" where
  "freedw t = BB_Tree_Free t (Some (\<lambda>n freed. freed @ [name n])) []"

section \<open>Passwords\<close>

text \<open>\<open>encryptpass\<close>, which deciphers: egm is the memory of its local variable, \<open>tmp\<close> has 41 bytes.\<close>

definition encryptpass :: "bytes \<Rightarrow> ENIGMA2 \<Rightarrow> bytes \<Rightarrow> bytes option" where
  "encryptpass keyid egm mstr =
     (if keyid = [] then Some mstr
      else do {
        tmp \<leftarrow> a64_byte mstr;
        if 40 < length tmp then None
        else do { e \<leftarrow> enigma2_init egm keyid 0; Some (takeWhile (\<lambda>c. c \<noteq> 0) (enigma2_decrypt e tmp)) } })"

text \<open>\<open>decodeprepare\<close>: the label, \<open>keyid\<close>, and whether \<open>encryptproc\<close> is \<open>encryptpass\<close>.
  A key of more than 19 characters overruns \<open>keyid\<close>.\<close>

definition not_empty :: "bytes option \<Rightarrow> bytes option" where
  "not_empty p = (if p = Some [] then None else p)"

definition decodeprepare :: "envlib \<Rightarrow> (bytes \<Rightarrow> bytes option) \<Rightarrow> bytes option \<Rightarrow> bytes \<times> bool
    \<Rightarrow> (bytes option \<times> bytes \<times> bool) option" where
  "decodeprepare E files dblabel st =
     do { (ret, dw) \<leftarrow> (case not_empty (getenv E (chars ''KEYFILE'')) of
             None \<Rightarrow> Some (-1, NULL) | Some f \<Rightarrow> initdw E (files f));
          let p = (case not_empty dblabel of Some l \<Rightarrow> Some l | None \<Rightarrow> not_empty (getenv E (chars ''DBLABEL'')))
          in case p of
            None \<Rightarrow> Some (None, st)
          | Some l \<Rightarrow>
              if ret \<noteq> 0 then Some (p, st)
              else case getdw (sint (ssh_crc32 l)) dw of
                  None \<Rightarrow> Some (p, st)
                | Some cp \<Rightarrow> if length cp < 20 then Some (p, cp, True) else None }"

section \<open>Looking up\<close>

interpretation dw_cmp: rec_comparator dwcomp num
  by unfold_locales (simp_all add: dwcomp_def)

text \<open>The lines the loop looks at: all but the last piece, which ends with the file.\<close>

definition lines_of :: "(bytes \<times> bool) list \<Rightarrow> bytes list" where
  "lines_of ps = map fst (takeWhile (\<lambda>p. \<not> snd p) ps)"

definition entries :: "envlib \<Rightarrow> bytes list \<Rightarrow> dwnode list" where
  "entries E ls = List.map_filter (dw_line E) ls"

lemma entries_simps [simp]: "entries E (lines_of []) = []" "entries E (lines_of ((bb, True) # ps)) = []"
    "entries E (lines_of ((bb, False) # ps)) =
      (case dw_line E bb of None \<Rightarrow> [] | Some n \<Rightarrow> [n]) @ entries E (lines_of ps)"
  by (simp_all add: lines_of_def entries_def map_filter_def split: option.split)

lemma find_put:
  assumes "sorted_by f ys"
  shows "find (\<lambda>y. f y = k) (put f (\<lambda>c x. c) x ys) =
    (case find (\<lambda>y. f y = k) ys of Some y \<Rightarrow> Some y | None \<Rightarrow> if f x = k then Some x else None)"
  using assms
proof (induction ys)
  case (Cons y ys)
  have "find (\<lambda>z. f z = f x) ys = None" if "f x < f y"
    using Cons.prems that by (intro find_none) (auto dest: order.strict_trans)
  then show ?case using Cons by (auto split: option.split)
qed simp

lemma initdw_loop_finds:
  assumes "depths_ok t" "sorted_by num (inorder t)"
  shows "\<exists>t'. initdw_loop E ps t = Some t' \<and> sorted_by num (inorder t') \<and>
    find (\<lambda>n. num n = k) (inorder t') =
      (case find (\<lambda>n. num n = k) (inorder t) of Some n \<Rightarrow> Some n
       | None \<Rightarrow> find (\<lambda>n. num n = k) (entries E (lines_of ps)))"
  using assms
proof (induction ps arbitrary: t)
  case (Cons p ps)
  obtain bb eof where p: "p = (bb, eof)" by (cases p)
  consider eof | "\<not> eof" "dw_line E bb = None" | n where "\<not> eof" "dw_line E bb = Some n" by auto
  then show ?case
  proof cases
    case 1
    then show ?thesis using Cons.prems by (auto simp: p split: option.split)
  next
    case 2
    then show ?thesis using Cons.IH [OF Cons.prems] unfolding p by (auto split: option.split)
  next
    case 3
    obtain t1 where t1: "BB_Tree_Add True dwcomp None t n = Some t1" "depths_ok t1"
        "inorder t1 = put num (\<lambda>c x. c) n (inorder t)"
      using dw_cmp.Add_inorder [OF Cons.prems, of None n] by (auto simp: dup_of_def)
    have "sorted_by num (inorder t1)" unfolding t1(3) by (rule sorted_put) (simp_all add: Cons.prems(2))
    from Cons.IH [OF t1(2) this] obtain t' where "initdw_loop E ps t1 = Some t'" "sorted_by num (inorder t')"
        "find (\<lambda>n. num n = k) (inorder t') =
          (case find (\<lambda>n. num n = k) (inorder t1) of Some n \<Rightarrow> Some n
           | None \<Rightarrow> find (\<lambda>n. num n = k) (entries E (lines_of ps)))" by blast
    then show ?thesis using 3 t1(1)
      by (auto simp: p t1(3) find_put [OF Cons.prems(2)] find_append split: option.split)
  qed
qed (simp split: option.split)

text \<open>The dictionary read from a file gives for every number the text of the first line with
  that number, of the lines that end with a line feed, are no comments and begin with a number.\<close>

theorem getdw_first_line:
  "\<exists>t. initdw E (Some s) = Some (0, t) \<and>
    getdw k t = map_option name (find (\<lambda>n. num n = k) (entries E (lines_of (file_pieces s))))"
proof -
  obtain t where t: "initdw_loop E (file_pieces s) NULL = Some t" "sorted_by num (inorder t)"
      "find (\<lambda>n. num n = k) (inorder t) = find (\<lambda>n. num n = k) (entries E (lines_of (file_pieces s)))"
    using initdw_loop_finds [of NULL E "file_pieces s" k] by auto
  have "getdw k t = map_option name (rec_of (BB_Tree_Find dwcomp t \<lparr>num = k, name = []\<rparr>))"
    by (simp add: getdw_def split: T_Tree.split)
  then show ?thesis using t dw_cmp.Find_find [OF t(2)] by (simp add: initdw_def)
qed

text \<open>C29: When the file of keys has a key for the label, a password enciphered by \<open>enigma2_encrypt\<close>
  under that key and written in base 64 is given back by \<open>encryptpass\<close> after \<open>decodeprepare\<close>,
  whatever was in the memory of its cipher.\<close>

theorem passwords_decode:
  assumes "getenv E (chars ''KEYFILE'') = Some f" "f \<noteq> []" "files f = Some s" "label \<noteq> []"
    and "find (\<lambda>n. num n = sint (ssh_crc32 label)) (entries E (lines_of (file_pieces s))) = Some \<lparr>num = k, name = key\<rparr>"
    and "key \<noteq> []" "length key < 20" "0 \<notin> set key" "0 \<notin> set password" "length password \<le> 40"
    and "length (rot2 (e2_t e0)) = 256" "length (rot2 (e2_r e0)) = 256"
    and "length (rot2 (e2_t e1)) = 256" "length (rot2 (e2_r e1)) = 256"
  shows "\<exists>e. enigma2_init e0 key 0 = Some e \<and>
    decodeprepare E files (Some label) ([], False) = Some (Some label, key, True) \<and>
    encryptpass key e1 (byte_a64 (enigma2_encrypt e password)) = Some password"
proof -
  have key: "key_of key 0 \<noteq> []" using assms(6,8) by (cases key) (auto simp: key_of_def)
  obtain e where e: "enigma2_init e0 key 0 = Some e" "wheels (e2_t e)" "wheels (e2_r e)"
    using enigma2_init_ok [OF key assms(11,12)] by blast
  obtain e' where e': "enigma2_init e1 key 0 = Some e'"
    using enigma2_init_ok [OF key assms(13,14)] by blast
  have same: "e' = e" by (rule enigma2_init_unique [OF key assms(11-14) e(1) e'])
  have "takeWhile (\<lambda>c. c \<noteq> 0) password = password" using assms(9) by (auto simp: takeWhile_eq_all_conv)
  moreover have "length (enigma2_encrypt e password) = length password"
    by (simp add: enigma2_encrypt_def Let_def)
  ultimately have dec: "encryptpass key e1 (byte_a64 (enigma2_encrypt e password)) = Some password"
    using assms(6,10) e' same enigma2_inverse [OF e(2,3), of password]
    by (simp add: encryptpass_def a64_byte_byte_a64)
  obtain t where t: "initdw_loop E (file_pieces s) NULL = Some t" "sorted_by num (inorder t)"
      "find (\<lambda>n. num n = sint (ssh_crc32 label)) (inorder t) = Some \<lparr>num = k, name = key\<rparr>"
    using initdw_loop_finds [of NULL E "file_pieces s" "sint (ssh_crc32 label)"] assms(5) by auto
  have "getdw (sint (ssh_crc32 label)) t = Some key"
    using dw_cmp.Find_find [OF t(2), of "\<lparr>num = sint (ssh_crc32 label), name = []\<rparr>"] t(3)
    by (cases "BB_Tree_Find dwcomp t \<lparr>num = sint (ssh_crc32 label), name = []\<rparr>") (simp_all add: getdw_def)
  then have "decodeprepare E files (Some label) ([], False) = Some (Some label, key, True)"
    using t(1) assms(1-4,7) by (simp add: decodeprepare_def not_empty_def initdw_def)
  then show ?thesis using e(1) dec by blast
qed

section \<open>Instances\<close>

definition key_env :: envlib where
  "key_env = \<lparr>strsubst = \<lambda>s n r. (r @ drop n s, length r),
    getenv = \<lambda>v. if v = chars ''KEYFILE'' then Some [0x6B] else None,
    skipblk = \<lambda>s. length (takeWhile is_space s), TRIM = \<lambda>s. takeWhile (\<lambda>c. c \<noteq> 0x0A) s\<rparr>"

text \<open>A comment and the key of the label "a".\<close>

definition key_text :: bytes where
  "key_text = chars ''#keys'' @ [0x0A] @ chars ''984961486 secret'' @ [0x0A]"

lemma key_entry: "find (\<lambda>n. num n = sint (ssh_crc32 [97])) (entries key_env (lines_of (file_pieces key_text))) =
    Some \<lparr>num = 984961486, name = chars ''secret''\<rparr>"
  by code_simp

definition blank_cipher :: ENIGMA2 where
  "blank_cipher = \<lparr>e2_t = blank_wheels, e2_r = blank_wheels, e2_crc = 0\<rparr>"

theorem passwords_decode_witness:
  "\<exists>e. enigma2_init blank_cipher (chars ''secret'') 0 = Some e \<and>
    decodeprepare key_env (\<lambda>f. Some key_text) (Some [97]) ([], False) = Some (Some [97], chars ''secret'', True) \<and>
    encryptpass (chars ''secret'') blank_cipher (byte_a64 (enigma2_encrypt e [1, 2, 3])) = Some [1, 2, 3]"
  using passwords_decode [of key_env "[0x6B]" "\<lambda>f. Some key_text" key_text "[97]" 984961486 "chars ''secret''"
      "[1, 2, 3]" blank_cipher blank_cipher, OF _ _ _ _ key_entry]
  by (simp add: key_env_def blank_cipher_def)

end
