(* ===== verification/Open_Auth.thy ===== *)
theory Open_Auth
  imports Key_File
begin

text \<open>The accounts of databases: \<open>src/conf/openauth.c\<close> looks up the section of a label in a file and takes
  the user, the password, the database and the owner from it.  The regular expressions are matched by
  functions of their own; the label is put into one of them as it is, so labels other than letters,
  digits and underscores are left out (\<open>None\<close>), and so are those of more than 144, which overrun
  \<open>dns_str\<close>.  \<open>strdel\<close>, which deletes the first character, is a
  parameter.\<close>

section \<open>Lines\<close>

definition blank_tab :: "byte \<Rightarrow> bool" where "blank_tab c \<longleftrightarrow> c = 0x20 \<or> c = 9"

text \<open>A word whatever its case at the start of a text: the rest.\<close>

fun icase :: "bytes \<Rightarrow> bytes \<Rightarrow> bytes option" where
  "icase [] s = Some s"
| "icase (w # ws) [] = None"
| "icase (w # ws) (c # s) = (if toupper w = toupper c then icase ws s else None)"

definition blanks :: "bytes \<Rightarrow> bytes" where "blanks s = dropWhile blank_tab s"

text \<open>\<open>^[ tab]*WORD[ tab]*=[ tab]*\<close>: how many bytes match.\<close>

definition match_item :: "bytes \<Rightarrow> bytes \<Rightarrow> nat option" where
  "match_item w p =
     do { r \<leftarrow> icase w (blanks p);
          r \<leftarrow> icase (chars ''='') (blanks r);
          Some (length p - length (blanks r)) }"

definition match_label :: "bytes \<Rightarrow> bytes \<Rightarrow> bool" where
  "match_label label p \<longleftrightarrow>
     (do { r \<leftarrow> icase (chars ''<'') (blanks p);
           r \<leftarrow> icase (chars ''DBLABEL'') (blanks r);
           r \<leftarrow> icase label (blanks r);
           icase (chars ''>'') (blanks r) }) \<noteq> None"

fun match_end :: "bytes \<Rightarrow> bool" where
  "match_end [] = False"
| "match_end (c # s) = (icase (chars ''<DBLABEL'') (c # s) \<noteq> None \<or> match_end s)"

definition items :: "bytes list" where
  "items = [chars ''UID'', chars ''PWD'', chars ''USERNAME'', chars ''PASSWORD'', chars ''SID'', chars ''DBOWN'']"

section \<open>The account\<close>

record account =
  DNS :: bytes
  UID :: bytes
  Pwd :: bytes
  DBOWN :: bytes

text \<open>A value that begins with an at sign is deciphered when there is a function for it.\<close>

definition plain_value :: "(bytes \<Rightarrow> bytes) \<Rightarrow> (bytes \<Rightarrow> bytes option) option \<Rightarrow> bytes \<Rightarrow> bytes option" where
  "plain_value strdel encryptproc v =
     (case encryptproc of
        None \<Rightarrow> Some v
      | Some f \<Rightarrow> if take 1 v = [0x40] then f (strdel v) else Some v)"

definition set_item :: "(bytes \<Rightarrow> bytes) \<Rightarrow> (bytes \<Rightarrow> bytes option) option \<Rightarrow> nat \<Rightarrow> bytes \<Rightarrow> account \<Rightarrow> account option" where
  "set_item strdel encryptproc i v a =
     (if i = 0 \<or> i = 2 then do { v \<leftarrow> plain_value strdel encryptproc v; Some (a\<lparr>UID := v\<rparr>) }
      else if i = 1 \<or> i = 3 then do { v \<leftarrow> plain_value strdel encryptproc v; Some (a\<lparr>Pwd := v\<rparr>) }
      else if i = 4 then Some (a\<lparr>DNS := v\<rparr>)
      else Some (a\<lparr>DBOWN := v\<rparr>))"

text \<open>All items against one line: p is \<open>buffer\<close> without its leading blanks, but the end of the match
  in p is taken for a place in \<open>buffer\<close>.\<close>

fun auth_items :: "(bytes \<Rightarrow> bytes) \<Rightarrow> (bytes \<Rightarrow> bytes option) option \<Rightarrow> bytes \<Rightarrow> bytes \<Rightarrow> (nat \<times> bytes) list
    \<Rightarrow> account \<Rightarrow> account option" where
  "auth_items strdel encryptproc buffer p [] a = Some a"
| "auth_items strdel encryptproc buffer p ((i, w) # ws) a =
     (case match_item w p of
        None \<Rightarrow> auth_items strdel encryptproc buffer p ws a
      | Some rm_eo \<Rightarrow> do {
          a \<leftarrow> set_item strdel encryptproc i (drop rm_eo buffer) a;
          auth_items strdel encryptproc buffer p ws a })"

text \<open>The lines as \<open>fgets\<close> reads them.\<close>

fun auth_loop :: "envlib \<Rightarrow> (bytes \<Rightarrow> bytes) \<Rightarrow> (bytes \<Rightarrow> bytes option) option \<Rightarrow> bytes \<Rightarrow> bytes list \<Rightarrow> bool
    \<Rightarrow> account \<Rightarrow> account option" where
  "auth_loop E strdel encryptproc label [] found a = Some a"
| "auth_loop E strdel encryptproc label (line # lines) found a =
     (let buffer = TRIM E line; p = drop (skipblk E buffer) buffer in
      if p = [] \<or> hd p = 0x23 then auth_loop E strdel encryptproc label lines found a
      else if \<not> found then auth_loop E strdel encryptproc label lines (match_label label p) a
      else if match_end p then Some a
      else do { a \<leftarrow> auth_items strdel encryptproc buffer p (List.enumerate 0 items) a;
                auth_loop E strdel encryptproc label lines found a })"

function auth_lines :: "bytes \<Rightarrow> bytes list" where
  "auth_lines s =
     (case fgets 255 s of (b, feof, r) \<Rightarrow> if feof then (if b = [] then [] else [b]) else b # auth_lines r)"
  by pat_completeness auto
termination
  by (relation "measure length") (auto dest: fgets_shorter [of 254, simplified] simp: eq_commute [of "(_, _, _)"])

declare auth_lines.simps [simp del]

text \<open>\<open>open_auth\<close>: the file's text, or the \<open>errno\<close> when it can not be opened.  \<open>DBOWN\<close> is only set where
  the pointer is given; the others are left when the arguments are refused.\<close>

definition open_auth :: "envlib \<Rightarrow> (bytes \<Rightarrow> bytes) \<Rightarrow> (bytes \<Rightarrow> bytes option) option \<Rightarrow> (bytes \<Rightarrow> int + bytes)
    \<Rightarrow> bytes option \<Rightarrow> bytes option \<Rightarrow> account \<Rightarrow> (int \<times> account) option" where
  "open_auth E strdel encryptproc files authfile label a =
     (let a = a\<lparr>DBOWN := []\<rparr> in
      case (not_empty authfile, not_empty label) of
        (Some f, Some label) \<Rightarrow>
          let a = a\<lparr>DNS := [], UID := [], Pwd := []\<rparr> in
          if \<not> list_all name_char label \<or> 144 < length label then None
          else (case files f of
              Inl e \<Rightarrow> Some (e, a)
            | Inr s \<Rightarrow> do {
                a \<leftarrow> auth_loop E strdel encryptproc label (auth_lines s) False a;
                Some (if DNS a = [] \<or> UID a = [] then -3 else 0, a) })
      | _ \<Rightarrow> Some (FORMATERR, a))"

section \<open>What is taken from the file\<close>

text \<open>The lines that are not empty and no comments, with and without their leading blanks, and those
  of the first section of the label.\<close>

definition significant :: "envlib \<Rightarrow> bytes list \<Rightarrow> (bytes \<times> bytes) list" where
  "significant E lines =
     filter (\<lambda>(b, p). p \<noteq> [] \<and> hd p \<noteq> 0x23) (map (\<lambda>l. let b = TRIM E l in (b, drop (skipblk E b) b)) lines)"

definition section_of :: "bytes \<Rightarrow> (bytes \<times> bytes) list \<Rightarrow> (bytes \<times> bytes) list" where
  "section_of label ls = takeWhile (\<lambda>(b, p). \<not> match_end p) (drop 1 (dropWhile (\<lambda>(b, p). \<not> match_label label p) ls))"

text \<open>The value the last line for one of the words gives, if any.\<close>

definition line_value :: "bytes list \<Rightarrow> bytes \<times> bytes \<Rightarrow> bytes option" where
  "line_value ws l = (case l of (b, p) \<Rightarrow>
     fold (\<lambda>w v. case match_item w p of None \<Rightarrow> v | Some n \<Rightarrow> Some (drop n b)) ws None)"

definition last_value :: "bytes list \<Rightarrow> (bytes \<times> bytes) list \<Rightarrow> bytes" where
  "last_value ws ls = fold (\<lambda>l v. case line_value ws l of None \<Rightarrow> v | Some w \<Rightarrow> w) ls []"

abbreviation (input) or_kept :: "'a option \<Rightarrow> 'a \<Rightarrow> 'a" where
  "or_kept v a \<equiv> (case v of None \<Rightarrow> a | Some w \<Rightarrow> w)"

definition set_line :: "bytes \<times> bytes \<Rightarrow> account \<Rightarrow> account" where
  "set_line l a = a\<lparr>
     UID := or_kept (line_value [chars ''UID'', chars ''USERNAME''] l) (UID a),
     Pwd := or_kept (line_value [chars ''PWD'', chars ''PASSWORD''] l) (Pwd a),
     DNS := or_kept (line_value [chars ''SID''] l) (DNS a),
     DBOWN := or_kept (line_value [chars ''DBOWN''] l) (DBOWN a)\<rparr>"

lemma auth_items_line: "auth_items strdel None b p (List.enumerate 0 items) a = Some (set_line (b, p) a)"
  by (simp add: items_def set_item_def plain_value_def set_line_def line_value_def split: option.split)

lemma auth_loop_found:
  "auth_loop E strdel None label lines True a =
    Some (fold set_line (takeWhile (\<lambda>(b, p). \<not> match_end p) (significant E lines)) a)"
  by (induction lines arbitrary: a) (auto simp: significant_def Let_def auth_items_line)

lemma auth_loop_section:
  "auth_loop E strdel None label lines False a = Some (fold set_line (section_of label (significant E lines)) a)"
proof (induction lines)
  case (Cons l ls)
  let ?b = "TRIM E l"
  let ?p = "drop (skipblk E ?b) ?b"
  consider "?p = [] \<or> hd ?p = 0x23" | "?p \<noteq> []" "hd ?p \<noteq> 0x23" "match_label label ?p"
    | "?p \<noteq> []" "hd ?p \<noteq> 0x23" "\<not> match_label label ?p" by blast
  then show ?case
  proof cases
    case 1
    then have "significant E (l # ls) = significant E ls" by (auto simp: significant_def Let_def)
    then show ?thesis using 1 Cons.IH by (simp add: Let_def)
  next
    case 2
    then show ?thesis using auth_loop_found [of E strdel label ls a]
      by (simp add: Let_def section_of_def) (simp add: significant_def Let_def)
  next
    case 3
    then show ?thesis using Cons.IH by (simp add: Let_def section_of_def) (simp add: significant_def Let_def)
  qed
qed (simp add: section_of_def significant_def)

lemma fold_set_line:
  "UID (fold set_line ls a) = fold (\<lambda>l v. or_kept (line_value [chars ''UID'', chars ''USERNAME''] l) v) ls (UID a)"
  "Pwd (fold set_line ls a) = fold (\<lambda>l v. or_kept (line_value [chars ''PWD'', chars ''PASSWORD''] l) v) ls (Pwd a)"
  "DNS (fold set_line ls a) = fold (\<lambda>l v. or_kept (line_value [chars ''SID''] l) v) ls (DNS a)"
  "DBOWN (fold set_line ls a) = fold (\<lambda>l v. or_kept (line_value [chars ''DBOWN''] l) v) ls (DBOWN a)"
  by (induction ls arbitrary: a) (simp_all add: set_line_def)

text \<open>Of a file that can be opened \<open>open_auth\<close> takes the first section of the label, and of each item
  the last line of that section; what the caller's variables held before, other sections and comments
  do not matter.  It answers -3 when the section gives no database or no user.\<close>

theorem open_auth_takes_section:
  assumes "files f = Inr s" "f \<noteq> []" "label \<noteq> []" "list_all name_char label" "length label \<le> 144"
    and ls: "ls = section_of label (significant E (auth_lines s))"
  shows "open_auth E strdel None files (Some f) (Some label) a =
    Some (if last_value [chars ''SID''] ls = [] \<or> last_value [chars ''UID'', chars ''USERNAME''] ls = [] then -3 else 0,
      a\<lparr>DNS := last_value [chars ''SID''] ls, UID := last_value [chars ''UID'', chars ''USERNAME''] ls,
        Pwd := last_value [chars ''PWD'', chars ''PASSWORD''] ls, DBOWN := last_value [chars ''DBOWN''] ls\<rparr>)"
proof -
  let ?a = "a\<lparr>DBOWN := [], DNS := [], UID := [], Pwd := []\<rparr>"
  have more: "more (fold set_line ls b) = more b" for b
    by (induction ls arbitrary: b) (simp_all add: set_line_def)
  have "fold set_line ls ?a = a\<lparr>DNS := last_value [chars ''SID''] ls, UID := last_value [chars ''UID'', chars ''USERNAME''] ls,
      Pwd := last_value [chars ''PWD'', chars ''PASSWORD''] ls, DBOWN := last_value [chars ''DBOWN''] ls\<rparr>"
    by (rule account.equality) (simp_all add: fold_set_line last_value_def more)
  then show ?thesis using assms(1-5)
    by (simp add: open_auth_def not_empty_def auth_loop_section flip: ls)
qed

text \<open>A line with k blanks in front gives a value that begins k bytes early, in the name of the item.\<close>

theorem indented_value_is_shifted:
  assumes "match_item w b = Some n" "k \<le> n"
  shows "line_value [w] (replicate k 0x20 @ b, b) = Some (drop (n - k) b)"
  using assms by (simp add: line_value_def)

section \<open>Instances\<close>

definition auth_text :: bytes where
  "auth_text = chars ''<DBLABEL other>'' @ [0x0A] @ chars ''UID=x'' @ [0x0A] @ chars ''<DBLABEL main>'' @ [0x0A] @
     chars ''#UID=y'' @ [0x0A] @ chars ''uid = scott'' @ [0x0A] @ chars ''PWD=tiger'' @ [0x0A] @ chars ''SID=db'' @ [0x0A] @
     chars ''<DBLABEL last>'' @ [0x0A]"

definition trim_env :: envlib where
  "trim_env = \<lparr>strsubst = \<lambda>s n r. (r @ drop n s, length r), getenv = \<lambda>v. None,
     skipblk = \<lambda>s. length (takeWhile is_space s), TRIM = \<lambda>s. takeWhile (\<lambda>c. c \<noteq> 0x0A) s\<rparr>"

definition no_account :: account where
  "no_account = \<lparr>DNS = [], UID = [1], Pwd = [], DBOWN = [2]\<rparr>"

lemma auth_section: "[(chars ''uid = scott'', chars ''uid = scott''), (chars ''PWD=tiger'', chars ''PWD=tiger''),
    (chars ''SID=db'', chars ''SID=db'')] = section_of (chars ''main'') (significant trim_env (auth_lines auth_text))"
  by code_simp

theorem open_auth_takes_section_witness:
  "open_auth trim_env tl None (\<lambda>f. Inr auth_text) (Some [1]) (Some (chars ''main'')) no_account =
    Some (0, \<lparr>DNS = chars ''db'', UID = chars ''scott'', Pwd = chars ''tiger'', DBOWN = []\<rparr>)"
  using open_auth_takes_section [of "\<lambda>f. Inr auth_text" "[1]" auth_text "chars ''main''", OF _ _ _ _ _ auth_section,
      of tl no_account]
  by (simp add: last_value_def line_value_def match_item_def blanks_def blank_tab_def toupper_def name_char_def
      name_start_def no_account_def)

end
