(* ===== verification/Json_Pack.thy ===== *)
theory Json_Pack
  imports Pack_Round_Trip Columns
begin

text \<open>Records as JSON objects: \<open>src/pack/json_pack.c\<close>, \<open>src/pack/SRM_json.c\<close> and \<open>src/pack/jerr.c\<close>.  The JSON
  library under \<open>src/json-c-0.9\<close> is third party code; of it the values are modelled, with the
  operations of \<open>json_object.c\<close> that the program calls.  The text of a value that is no string is a
  parameter.\<close>

unbundle bit_operations_syntax

section \<open>Values\<close>

datatype json = Jnull | Jstring bytes | Jscalar bytes | Jarray "json list" | Jobject "(bytes \<times> json) list"

type_synonym members = "(bytes \<times> json) list"

text \<open>\<open>json_object_object_add\<close> replaces a member of the same name: the new one is the last.\<close>

definition object_add :: "members \<Rightarrow> bytes \<Rightarrow> json \<Rightarrow> members" where
  "object_add ms key val = filter (\<lambda>m. fst m \<noteq> key) ms @ [(key, val)]"

text \<open>\<open>json_object_object_get\<close>: a null pointer for a missing member and for a null; on a value that is
  no object it follows a pointer that is none.\<close>

definition object_get :: "json \<Rightarrow> bytes \<Rightarrow> json option option" where
  "object_get j key =
     (case j of
        Jobject ms \<Rightarrow> Some (case map_of ms key of None \<Rightarrow> None | Some v \<Rightarrow> if v = Jnull then None else Some v)
      | _ \<Rightarrow> None)"

definition get_string :: "(json \<Rightarrow> bytes) \<Rightarrow> json \<Rightarrow> bytes" where
  "get_string text j = (case j of Jstring s \<Rightarrow> s | _ \<Rightarrow> text j)"

definition json_get_string :: "(json \<Rightarrow> bytes) \<Rightarrow> json \<Rightarrow> bytes \<Rightarrow> bytes option option" where
  "json_get_string text from key = map_option (map_option (get_string text)) (object_get from key)"

text \<open>\<open>jerr\<close>: the number as its text.\<close>

definition jerr :: "int \<Rightarrow> bytes \<Rightarrow> json" where
  "jerr jerrno errmsg =
     Jobject (object_add (object_add [] (chars ''errno'') (Jscalar (decimal jerrno))) (chars ''msg'') (Jstring errmsg))"

section \<open>From a record\<close>

text \<open>One column; numbers are printed into 50 bytes, text runs to its terminator.\<close>

definition add_field_to_object :: "strlib \<Rightarrow> mem \<Rightarrow> int \<Rightarrow> T_PkgType \<Rightarrow> members \<Rightarrow> members option" where
  "add_field_to_object lib m base typ ms =
     (let t = ptype typ AND 127 in
      if t = CH_BYTE then do {
        nm \<leftarrow> plain_name (pname typ); s \<leftarrow> get_one_str lib m base typ 0;
        if 2 * plen typ < int (length s) then None else Some (object_add ms nm (Jstring s)) }
      else if t \<in> {CH_INT, CH_LONG, CH_SHORT, CH_TINY, CH_INT64, CH_DOUBLE, CH_FLOAT} then do {
        nm \<leftarrow> plain_name (pname typ); s \<leftarrow> get_one_str lib m base typ 0;
        if 50 \<le> length s then None else Some (object_add ms nm (Jstring s)) }
      else if t = CH_CLOB then
        (let p = le_val (rd m (base + poffset typ) 8) in
         if p = 0 then Some ms
         else do { nm \<leftarrow> plain_name (pname typ); Some (object_add ms nm (Jstring (str_at lib p))) })
      else do {
        nm \<leftarrow> plain_name (pname typ); s \<leftarrow> c_str m (base + poffset typ); Some (object_add ms nm (Jstring s)) })"

text \<open>All columns, or all that are not null.\<close>

function stu_all :: "strlib \<Rightarrow> mem \<Rightarrow> int \<Rightarrow> bool \<Rightarrow> T_PkgType list \<Rightarrow> members \<Rightarrow> members option"
  and stu_cols :: "strlib \<Rightarrow> mem \<Rightarrow> int \<Rightarrow> bool \<Rightarrow> T_PkgType list \<Rightarrow> members \<Rightarrow> members option" where
  "stu_all lib m base not_null typ ms =
     (case set_offset typ of None \<Rightarrow> None | Some (colnum, tpl) \<Rightarrow> stu_cols lib m base not_null tpl ms)"
| "stu_cols lib m base not_null tpl ms =
     (case tpl of
        [] \<Rightarrow> None
      | col # ts \<Rightarrow>
          if ptype col < 0 then Some ms
          else if pbindtype col AND NOSELECT \<noteq> 0 then stu_cols lib m base not_null ts ms
          else if not_null \<and> isnull m (base + poffset col) (ptype col) then stu_cols lib m base not_null ts ms
          else if ptype col = CH_STRUCT then
            (case (pformat col, plain_name (pname col)) of
               (Struct_Format fs, Some nm) \<Rightarrow>
                 (case stu_all lib m (base + poffset col) False fs [] of
                    None \<Rightarrow> None
                  | Some sub \<Rightarrow> stu_cols lib m base not_null ts (object_add ms nm (Jobject sub)))
             | _ \<Rightarrow> None)
          else
            (case add_field_to_object lib m base col ms of
               None \<Rightarrow> None
             | Some ms \<Rightarrow> stu_cols lib m base not_null ts ms))"
  by pat_completeness auto
termination
  by (relation "measure (\<lambda>x. case x of Inl (_, _, _, _, ts, _) \<Rightarrow> 2 * size_list size ts + 1
    | Inr (_, _, _, _, ts, _) \<Rightarrow> 2 * size_list size ts)") (auto dest: set_offset_size(1) struct_size [OF sym] struct_size)

declare stu_all.simps [simp del] stu_cols.simps [simp del]

definition stu_item :: "strlib \<Rightarrow> mem \<Rightarrow> int \<Rightarrow> T_PkgType list \<Rightarrow> nat \<Rightarrow> members \<Rightarrow> members option" where
  "stu_item lib m base tpl n ms =
     (if length tpl \<le> n then None
      else let col = tpl ! n in
        if ptype col = CH_STRUCT then
          (case (pformat col, plain_name (pname col)) of
             (Struct_Format fs, Some nm) \<Rightarrow> do {
               sub \<leftarrow> stu_all lib m (base + poffset col) False fs []; Some (object_add ms nm (Jobject sub)) }
           | _ \<Rightarrow> None)
        else add_field_to_object lib m base col ms)"

fun stu_items :: "strlib \<Rightarrow> mem \<Rightarrow> int \<Rightarrow> T_PkgType list \<Rightarrow> nat list \<Rightarrow> members \<Rightarrow> members option" where
  "stu_items lib m base tpl [] ms = Some ms"
| "stu_items lib m base tpl (n # ns) ms =
     do { ms \<leftarrow> stu_item lib m base tpl n ms; stu_items lib m base tpl ns ms }"

text \<open>One item of the choice: a number, a range of numbers, or a name.\<close>

definition chosen :: "slot list option \<Rightarrow> int \<Rightarrow> T_PkgType list \<Rightarrow> bytes \<Rightarrow> nat list option" where
  "chosen idx colnum tpl p =
     (if p = [] then Some []
      else if is_digit (hd p) then
        (case scan_range p of
           [] \<Rightarrow> Some []
         | b # es \<Rightarrow> let e = (case es of [] \<Rightarrow> b | e # _ \<Rightarrow> if e < b then b else e) in Some (map nat [b..e]))
      else do { n \<leftarrow> index_col idx colnum p (Some tpl); Some (if n < 0 then [] else [nat n]) })"

partial_function (option) stu_choice :: "sqllib \<Rightarrow> mem \<Rightarrow> int \<Rightarrow> slot list option \<Rightarrow> int \<Rightarrow> T_PkgType list
    \<Rightarrow> bytes \<Rightarrow> members \<Rightarrow> members option" where
  "stu_choice lib m base idx colnum tpl cp ms =
     (let (buf, cp) = stptok lib (skipblk lib cp) 100 [comma, bar] in
      do { ns \<leftarrow> chosen idx colnum tpl (TRIM lib buf);
           ms \<leftarrow> stu_items (strlib.truncate lib) m base tpl ns ms;
           if cp = [] then Some ms else stu_choice lib m base idx colnum tpl (tl cp) ms })"

text \<open>\<open>choice\<close> is None for a null pointer; a null \<open>json\<close> is returned as it is.\<close>

definition stu_to_json :: "sqllib \<Rightarrow> members option \<Rightarrow> mem \<Rightarrow> int \<Rightarrow> T_PkgType list \<Rightarrow> bytes option \<Rightarrow> slot list option
    \<Rightarrow> members option option" where
  "stu_to_json lib json m base typ choice idx =
     (case json of
        None \<Rightarrow> Some None
      | Some ms \<Rightarrow>
          map_option Some (case choice of
             None \<Rightarrow> stu_all (strlib.truncate lib) m base False typ ms
           | Some c \<Rightarrow>
               if c = [] then stu_all (strlib.truncate lib) m base True typ ms
               else do { (colnum, tpl) \<leftarrow> set_offset typ; stu_choice lib m base idx colnum tpl c ms }))"

section \<open>To a record and to text\<close>

function json_to_struct :: "strlib \<Rightarrow> (json \<Rightarrow> bytes) \<Rightarrow> mem \<Rightarrow> int \<Rightarrow> json option \<Rightarrow> T_PkgType list \<Rightarrow> (mem \<times> int) option"
  and struct_cols :: "strlib \<Rightarrow> (json \<Rightarrow> bytes) \<Rightarrow> mem \<Rightarrow> int \<Rightarrow> json \<Rightarrow> T_PkgType list \<Rightarrow> (mem \<times> int) option" where
  "json_to_struct lib text m base json typ =
     (case json of
        None \<Rightarrow> Some (m, 0)
      | Some j \<Rightarrow> (case laid_out typ of None \<Rightarrow> None | Some tpl \<Rightarrow> struct_cols lib text m base j tpl))"
| "struct_cols lib text m base j tpl =
     (case tpl of
        [] \<Rightarrow> None
      | col # ts \<Rightarrow>
          if ptype col < 0 then Some (m, 0)
          else
            (case plain_name (pname col) of
               None \<Rightarrow> None
             | Some nm \<Rightarrow>
                 (case object_get j nm of
                    None \<Rightarrow> None
                  | Some None \<Rightarrow> struct_cols lib text m base j ts
                  | Some (Some val) \<Rightarrow>
                      if ptype col = CH_STRUCT then
                        (case pformat col of
                           Struct_Format fs \<Rightarrow>
                             (case json_to_struct lib text m (base + poffset col) (Some val) fs of
                                None \<Rightarrow> None
                              | Some (m, _) \<Rightarrow> struct_cols lib text m base j ts)
                         | _ \<Rightarrow> None)
                      else
                        (case put_str_one lib m base (get_string text val) col 0 of
                           None \<Rightarrow> None
                         | Some (m, _) \<Rightarrow> map_option (\<lambda>(m, num). (m, num + 1)) (struct_cols lib text m base j ts)))))"
  by pat_completeness auto
termination
  by (relation "measure (\<lambda>x. case x of Inl (_, _, _, _, _, ts) \<Rightarrow> 2 * size_list size ts + 1
    | Inr (_, _, _, _, _, ts) \<Rightarrow> 2 * size_list size ts)") (auto dest: laid_out_size struct_size [OF sym] struct_size)

declare json_to_struct.simps [simp del] struct_cols.simps [simp del]

text \<open>A text with the escapes of a packed record, as \<open>get_one_str\<close> writes a column of unlimited length.\<close>

definition packed_text :: "strlib \<Rightarrow> bytes \<Rightarrow> bytes" where
  "packed_text lib s = (if s = [] then [] else esc_str lib bar s)"

function json_toStr :: "strlib \<Rightarrow> (json \<Rightarrow> bytes) \<Rightarrow> json \<Rightarrow> T_PkgType list \<Rightarrow> bytes option" where
  "json_toStr lib text j [] = None"
| "json_toStr lib text j (typ # ts) =
     (if ptype typ < 0 then Some []
      else if pbindtype typ AND NOSELECT \<noteq> 0 then json_toStr lib text j ts
      else
        (case plain_name (pname typ) of
           None \<Rightarrow> None
         | Some nm \<Rightarrow>
             (case object_get j nm of
                None \<Rightarrow> None
              | Some v \<Rightarrow>
                  if ptype typ = CH_STRUCT then
                    (case v of
                       None \<Rightarrow> json_toStr lib text j ts
                     | Some val \<Rightarrow>
                         (case pformat typ of
                            Struct_Format fs \<Rightarrow>
                              (case json_toStr lib text val fs of
                                 None \<Rightarrow> None
                               | Some a \<Rightarrow> map_option (\<lambda>b. a @ b) (json_toStr lib text j ts))
                          | _ \<Rightarrow> None))
                  else
                    map_option (\<lambda>b. (case v of None \<Rightarrow> [] | Some val \<Rightarrow> packed_text lib (get_string text val)) @ bar # b)
                      (json_toStr lib text j ts))))"
  by pat_completeness auto
termination
  by (relation "measure (\<lambda>(_, _, _, ts). size_list size ts)") (auto dest: struct_size [OF sym] struct_size)

declare json_toStr.simps(2) [simp del]

definition json_to_sdbc :: "strlib \<Rightarrow> (json \<Rightarrow> bytes) \<Rightarrow> json option \<Rightarrow> bytes option" where
  "json_to_sdbc lib text json =
     (case json of
        None \<Rightarrow> Some []
      | Some (Jobject ms) \<Rightarrow>
          Some (concat (map (\<lambda>(k, v). (if v = Jnull then [] else packed_text lib (get_string text v)) @ [bar]) ms))
      | _ \<Rightarrow> None)"

section \<open>Record mappings\<close>

definition SRM_toJSON :: "sqllib \<Rightarrow> mem \<Rightarrow> SRM option \<Rightarrow> members option \<Rightarrow> bytes option \<Rightarrow> members option option" where
  "SRM_toJSON lib m srmp json choice =
     (case (srmp, json) of
        (Some srm, Some ms) \<Rightarrow>
          (case (tp srm, rec srm) of
             (Some tpl, Some base) \<Rightarrow> stu_to_json lib json m base tpl choice (colidx srm)
           | _ \<Rightarrow> Some None)
      | _ \<Rightarrow> Some None)"

definition SRM_fromJSON :: "strlib \<Rightarrow> (json \<Rightarrow> bytes) \<Rightarrow> mem \<Rightarrow> SRM option \<Rightarrow> json option \<Rightarrow> (mem \<times> int) option" where
  "SRM_fromJSON lib text m srmp json =
     (case (srmp, json) of
        (Some srm, Some j) \<Rightarrow>
          (case (tp srm, rec srm) of
             (Some tpl, Some base) \<Rightarrow> json_to_struct lib text m base json tpl
           | _ \<Rightarrow> Some (m, MEMERR))
      | _ \<Rightarrow> Some (m, -1))"

text \<open>\<open>SRM_copy\<close> over one memory; \<open>room\<close> says whether a JSON object can be made.\<close>

definition SRM_copy :: "sqllib \<Rightarrow> (json \<Rightarrow> bytes) \<Rightarrow> bool \<Rightarrow> mem \<Rightarrow> SRM option \<Rightarrow> SRM option \<Rightarrow> bytes option
    \<Rightarrow> (mem \<times> int) option" where
  "SRM_copy lib text room m desc src choice =
     (case (desc, src) of
        (Some d, Some s) \<Rightarrow>
          (case (tp s, rec s, tp d, rec d) of
             (Some stpl, Some sbase, Some dtpl, Some dbase) \<Rightarrow>
               if \<not> room then Some (m, MEMERR)
               else do {
                 ms \<leftarrow> stu_to_json lib (Some []) m sbase stpl choice (colidx s);
                 json_to_struct (strlib.truncate lib) text m dbase (map_option Jobject ms) dtpl }
           | _ \<Rightarrow> Some (m, MEMERR))
      | _ \<Rightarrow> Some (m, -1))"

section \<open>One column through JSON\<close>

text \<open>The documented behaviour of \<open>stptok\<close> without delimiters: it copies a text that fits.\<close>

definition copy_ok :: "strlib \<Rightarrow> bool" where
  "copy_ok lib \<longleftrightarrow> (\<forall>s n. int (length s) < n \<longrightarrow> fst (stptok_copy lib s n) = s)"

text \<open>A column whose text, when it holds text, ends inside the column.\<close>

definition ended :: "mem \<Rightarrow> int \<Rightarrow> T_PkgType \<Rightarrow> bool" where
  "ended m base t \<longleftrightarrow> (text_col t \<longrightarrow> (\<exists>i < nat (plen t). m (base + poffset t + int i) = 0))"

definition json_col :: "mem \<Rightarrow> int \<Rightarrow> T_PkgType \<Rightarrow> bool" where
  "json_col m base t \<longleftrightarrow> plain_type t \<and> pbindtype t = 0 \<and> ended m base t"

text \<open>The text of a column in the JSON object.\<close>

definition field :: "strlib \<Rightarrow> mem \<Rightarrow> int \<Rightarrow> T_PkgType \<Rightarrow> bytes option" where
  "field lib m base t = (if text_col t then c_str m (base + poffset t) else get_one_str lib m base t 0)"

lemma c_str_ends: "m (p + int i) = 0 \<Longrightarrow> \<exists>s. c_str m p = Some s \<and> length s \<le> i \<and> 0 \<notin> set s \<and> rd m p (length s + 1) = s @ [0]"
proof (induction i arbitrary: p)
  case 0
  then show ?case by (subst c_str.simps) (simp add: rd_def)
next
  case (Suc i)
  show ?case
  proof (cases "m p = 0")
    case True
    then show ?thesis by (subst c_str.simps) (simp add: rd_def)
  next
    case False
    obtain s where s: "c_str m (p + 1) = Some s" "length s \<le> i" "0 \<notin> set s" "rd m (p + 1) (length s + 1) = s @ [0]"
      using Suc.IH [of "p + 1"] Suc.prems by (auto simp: algebra_simps)
    have "rd m p (length (m p # s) + 1) = m p # rd m (p + 1) (length s + 1)"
      by (rule nth_equalityI) (auto simp: rd_def nth_Cons algebra_simps simp del: upt_Suc split: nat.split)
    then show ?thesis using s False by (subst c_str.simps) simp
  qed
qed

lemma ended_text:
  assumes "text_col t" "0 < plen t" "ended m base t"
  shows "\<exists>s. c_str m (base + poffset t) = Some s \<and> char_col m (base + poffset t) (plen t) = Some s \<and>
    length s < nat (plen t) \<and> 0 \<notin> set s"
proof -
  obtain i where i: "i < nat (plen t)" "m (base + poffset t + int i) = 0" using assms(1,3) by (auto simp: ended_def)
  obtain s where s: "c_str m (base + poffset t) = Some s" "length s \<le> i" "0 \<notin> set s"
      "rd m (base + poffset t) (length s + 1) = s @ [0]"
    using c_str_ends [of m "base + poffset t" i, OF i(2)] by blast
  then show ?thesis using char_col_wr [OF assms(2) _ s(3,4)] i(1) by auto
qed

lemma dec_nat_length: "n < 10 ^ k \<Longrightarrow> 0 < k \<Longrightarrow> length (dec_nat n) \<le> k"
proof (induction k arbitrary: n)
  case (Suc k)
  show ?case
  proof (cases "n < 10")
    case False
    then have k: "0 < k" using Suc.prems(1) by (cases k) auto
    have "n div 10 < 10 ^ k" using Suc.prems(1) by (simp add: less_mult_imp_div_less)
    then show ?thesis using Suc.IH [OF _ k] False by (subst dec_nat.simps) auto
  qed (subst dec_nat.simps, simp)
qed simp

lemma s_val_bound: "length bs \<le> 8 \<Longrightarrow> \<bar>s_val bs\<bar> \<le> 2 ^ 64"
proof -
  assume l: "length bs \<le> 8"
  have "0 \<le> le_val bs \<and> le_val bs < 256 ^ length bs" for bs
  proof (induction bs)
    case (Cons b bs)
    have "0 \<le> uint b" "uint b < 256" using uint_lt2p [of b] by simp_all
    then show ?case using Cons by auto
  qed simp
  then have v: "0 \<le> le_val bs" "le_val bs < 256 ^ length bs" by auto
  have e: "(256::int) ^ length bs = 2 ^ (8 * length bs)" by (simp add: power_mult)
  have "(256::int) ^ length bs \<le> 256 ^ 8" using l by (intro power_increasing) simp_all
  then show ?thesis using v unfolding s_val_def Let_def e by auto
qed

lemma decimal_length: "\<bar>v\<bar> \<le> 2 ^ 64 \<Longrightarrow> length (decimal v) < 50"
proof -
  assume v: "\<bar>v\<bar> \<le> 2 ^ 64"
  have "nat \<bar>v\<bar> < 10 ^ 20" using v by simp
  then have "length (dec_nat (nat \<bar>v\<bar>)) \<le> 20" by (rule dec_nat_length) simp
  then show ?thesis by (auto simp: decimal_def abs_if split: if_splits)
qed

lemma int_width: "int_col t \<Longrightarrow> width t \<le> 8"
  by (auto simp: int_col_def width_def)

lemma base_types: "text_col t \<Longrightarrow> ptype t AND 127 = 1" "byte_col t \<Longrightarrow> ptype t AND 127 = 0"
    "int_col t \<Longrightarrow> ptype t AND 127 = ptype t"
  by (auto simp: text_col_def byte_col_def int_col_def)

lemma add_field:
  assumes "strproc_ok lib" "json_col m base t" "plain_name (pname t) = Some nm"
  shows "\<exists>a. field lib m base t = Some a \<and>
    add_field_to_object lib m base t ms = Some (object_add ms nm (Jstring a))"
proof -
  consider "text_col t" "0 < plen t" | "int_col t" | "byte_col t" "0 \<le> plen t"
    using assms(2) by (auto simp: json_col_def plain_type_def)
  then show ?thesis
  proof cases
    case 1
    then obtain s where "c_str m (base + poffset t) = Some s"
      using ended_text [of t m base] assms(2) by (auto simp: json_col_def)
    then show ?thesis using 1 base_types(1) assms(3)
      by (simp add: field_def add_field_to_object_def)
  next
    case 2
    let ?v = "s_val (rd m (base + poffset t) (width t))"
    have "\<not> text_col t" using 2 by (auto simp: int_col_def text_col_def)
    moreover have "length (decimal ?v) < 50"
      using decimal_length [OF s_val_bound [of "rd m (base + poffset t) (width t)"]] int_width [OF 2] by simp
    moreover have "ptype t AND 127 \<in> {CH_TINY, CH_SHORT, CH_INT, CH_LONG, CH_INT64}"
      using base_types(3) [OF 2] 2 by (simp add: int_col_def)
    ultimately show ?thesis using get_int [OF assms(1) 2, of m base 0] assms(3)
      by (auto simp: field_def add_field_to_object_def)
  next
    case 3
    have "\<not> text_col t" using 3 by (auto simp: byte_col_def text_col_def)
    moreover have "get_one_str lib m base t 0 = Some (b2h (rd m (base + poffset t) (nat (plen t))))"
      using 3 by (simp add: get_one_str_def byte_col_def isnull_def Let_def)
    moreover have "length (b2h bs) = 2 * length bs" for bs by (induction bs) (simp_all add: b2h_def)
    ultimately show ?thesis using 3 base_types(2) assms(3)
      by (simp add: field_def add_field_to_object_def)
  qed
qed

lemma field_round_trip:
  assumes "strproc_ok lib" "copy_ok lib" "json_col m base t"
  shows "\<exists>a bs. field lib m base t = Some a \<and> length bs \<le> width t \<and>
    (\<forall>m0. \<exists>r. put_str_one lib m0 base a t 0 = Some (wr m0 (base + poffset t) bs, r)) \<and>
    (\<forall>m'. rd m' (base + poffset t) (length bs) = bs \<longrightarrow> col_same m m' base t)"
proof -
  let ?p = "base + poffset t"
  consider "text_col t" "0 < plen t" | "int_col t" | "byte_col t" "0 \<le> plen t"
    using assms(3) by (auto simp: json_col_def plain_type_def)
  then show ?thesis
  proof cases
    case 1
    obtain s where s: "c_str m ?p = Some s" "char_col m ?p (plen t) = Some s" "length s < nat (plen t)" "0 \<notin> set s"
      using ended_text [OF 1] assms(3) by (auto simp: json_col_def)
    have w: "width t = nat (plen t)" using 1 by (auto simp: width_def text_col_def)
    have "fst (strcpy_esc lib s (plen t) 0) = s" using assms(2) s(3) 1(2) by (simp add: strcpy_esc_def copy_ok_def)
    then have "put_str_one lib m0 base s t 0 = Some (wr m0 ?p (s @ [0]), 1)" for m0
      using 1(1) by (auto simp: put_str_one_def text_col_def Let_def)
    moreover have "col_same m m' base t" if "rd m' ?p (length (s @ [0])) = s @ [0]" for m'
      using char_col_wr [OF 1(2) s(3,4), of m' ?p] that 1 s(2) by (simp add: col_same_def)
    ultimately show ?thesis using s 1 w
      by (intro exI [of _ s] exI [of _ "s @ [0]"]) (simp add: field_def)
  next
    case 2
    let ?v = "s_val (rd m ?p (width t))"
    let ?bs = "le_put (width t) (if int_null m base t then null_int (width t) else ?v)"
    have nt: "\<not> text_col t" using 2 by (auto simp: int_col_def text_col_def)
    have bs: "?bs = rd m ?p (width t)"
      using le_put_s_val [of "rd m ?p (width t)" "width t"] by (auto simp: int_null_def)
    have "col_same m m' base t" if "rd m' ?p (length ?bs) = ?bs" for m'
      using that nt unfolding bs by (simp add: col_same_def)
    then show ?thesis using get_int [OF assms(1) 2, of m base 0] put_int [OF 2, of lib _ base "int_null m base t" ?v 0] nt
      by (intro exI [of _ "if int_null m base t then [] else decimal ?v"] exI [of _ ?bs]) (auto simp: field_def)
  next
    case 3
    have w: "width t = nat (plen t)" "\<not> text_col t" using 3 by (auto simp: width_def text_col_def byte_col_def)
    have "get_one_str lib m base t 0 = Some (b2h (rd m ?p (width t)))"
      using 3 w by (simp add: get_one_str_def byte_col_def isnull_def Let_def)
    moreover have "put_str_one lib m0 base (b2h (rd m ?p (width t))) t 0 = Some (wr m0 ?p (rd m ?p (width t)), 1)" for m0
      using 3 w byte_cpy_b2h [of "rd m ?p (width t)"] by (simp add: put_str_one_def byte_col_def Let_def)
    ultimately show ?thesis using w
      by (intro exI [of _ "b2h (rd m ?p (width t))"] exI [of _ "rd m ?p (width t)"]) (auto simp: col_same_def field_def)
  qed
qed

section \<open>Whole records through JSON\<close>

definition named :: "T_PkgType list \<Rightarrow> bytes list \<Rightarrow> bool" where
  "named cols ns \<longleftrightarrow> map (\<lambda>t. plain_name (pname t)) cols = map Some ns \<and> distinct ns"

lemma object_add_fresh: "key \<notin> fst ` set ms \<Longrightarrow> object_add ms key v = ms @ [(key, v)]"
  by (auto simp: object_add_def filter_id_conv)

lemma json_col_cases: "json_col m base t \<Longrightarrow> ptype t > -1 \<and> ptype t \<noteq> CH_STRUCT \<and> pbindtype t = 0"
  using plain_type_cases [of t] by (auto simp: json_col_def)

lemma stu_cols_members:
  assumes "strproc_ok lib" "ptype e = -1"
  shows "\<forall>t\<in>set cols. json_col m base t \<Longrightarrow> named cols ns \<Longrightarrow> fst ` set ms \<inter> set ns = {} \<Longrightarrow>
    \<exists>as. stu_cols lib m base False (cols @ e # rest) ms = Some (ms @ zip ns (map Jstring as)) \<and>
      map (field lib m base) cols = map Some as"
proof (induction cols arbitrary: ns ms)
  case Nil
  then show ?case using assms(2) by (subst stu_cols.simps) (simp add: named_def)
next
  case (Cons t ts)
  obtain nm ns' where ns: "ns = nm # ns'" "plain_name (pname t) = Some nm" "named ts ns'" "nm \<notin> set ns'"
    using Cons.prems(2) by (cases ns) (auto simp: named_def)
  have t: "json_col m base t" using Cons.prems(1) by simp
  obtain a where a: "field lib m base t = Some a"
      "add_field_to_object lib m base t ms = Some (object_add ms nm (Jstring a))"
    using add_field [OF assms(1) t ns(2)] by blast
  have fresh: "object_add ms nm (Jstring a) = ms @ [(nm, Jstring a)]"
    using Cons.prems(3) ns(1) by (intro object_add_fresh) auto
  have "fst ` set (ms @ [(nm, Jstring a)]) \<inter> set ns' = {}" using Cons.prems(3) ns(1,4) by auto
  then obtain as where as: "stu_cols lib m base False (ts @ e # rest) (ms @ [(nm, Jstring a)]) =
      Some ((ms @ [(nm, Jstring a)]) @ zip ns' (map Jstring as))" "map (field lib m base) ts = map Some as"
    using Cons.IH [OF _ ns(3)] Cons.prems(1) by (meson list.set_intros(2))
  have "stu_cols lib m base False ((t # ts) @ e # rest) ms = Some (ms @ zip ns (map Jstring (a # as)))"
    using json_col_cases [OF t] a(2) as(1) ns(1) by (subst stu_cols.simps) (simp add: fresh)
  then show ?case using a(1) as(2) by (intro exI [of _ "a # as"]) simp
qed

text \<open>A column written into a memory stays when the columns apart from it are written.\<close>

lemma kept_rd:
  assumes "\<forall>u\<in>set ts. apart t u" "length bs \<le> width t"
    and "\<And>x. (\<forall>u\<in>set ts. x < base + poffset u \<or> base + poffset u + int (width u) \<le> x) \<Longrightarrow> m' x = m1 x"
  shows "rd m' (base + poffset t) (length bs) = rd m1 (base + poffset t) (length bs)"
proof (rule nth_equalityI)
  fix i
  assume "i < length (rd m' (base + poffset t) (length bs))"
  then have i: "i < length bs" by simp
  have "m' (base + poffset t + int i) = m1 (base + poffset t + int i)"
    using assms(1,2) i by (intro assms(3)) (force simp: apart_def)
  then show "rd m' (base + poffset t) (length bs) ! i = rd m1 (base + poffset t) (length bs) ! i"
    using i by (simp add: rd_def)
qed simp

lemma struct_cols_restore:
  assumes "strproc_ok lib" "copy_ok lib" "ptype e = -1"
  shows "\<forall>t\<in>set cols. json_col m base t \<Longrightarrow> separate cols \<Longrightarrow> map (\<lambda>t. plain_name (pname t)) cols = map Some ns \<Longrightarrow>
    map (field lib m base) cols = map Some as \<Longrightarrow> \<forall>i<length ns. map_of ms (ns ! i) = Some (Jstring (as ! i)) \<Longrightarrow>
    \<exists>m'. struct_cols lib text m0 base (Jobject ms) (cols @ e # rest) = Some (m', int (length cols)) \<and>
      (\<forall>t\<in>set cols. col_same m m' base t) \<and>
      (\<forall>a. (\<forall>t\<in>set cols. a < base + poffset t \<or> base + poffset t + int (width t) \<le> a) \<longrightarrow> m' a = m0 a)"
proof (induction cols arbitrary: ns as m0)
  case Nil
  then show ?case using assms(3) by (subst struct_cols.simps) simp
next
  case (Cons t ts)
  obtain nm ns' a as' where ns: "ns = nm # ns'" "plain_name (pname t) = Some nm" "as = a # as'" "field lib m base t = Some a"
      "map (\<lambda>t. plain_name (pname t)) ts = map Some ns'" "map (field lib m base) ts = map Some as'"
    using Cons.prems(3,4) by (cases ns; cases as) auto
  have t: "json_col m base t" using Cons.prems(1) by simp
  obtain bs where bs: "length bs \<le> width t"
    "\<And>m0. \<exists>r. put_str_one lib m0 base a t 0 = Some (wr m0 (base + poffset t) bs, r)"
    "\<And>m'. rd m' (base + poffset t) (length bs) = bs \<Longrightarrow> col_same m m' base t"
    using field_round_trip [OF assms(1,2) t] ns(4) by auto
  let ?m1 = "wr m0 (base + poffset t) bs"
  have at: "\<forall>i<length ns'. map_of ms (ns' ! i) = Some (Jstring (as' ! i))"
  proof (intro allI impI)
    fix i
    assume "i < length ns'"
    then show "map_of ms (ns' ! i) = Some (Jstring (as' ! i))"
      using Cons.prems(5) [rule_format, of "Suc i"] ns(1,3) by simp
  qed
  have ts: "\<forall>t\<in>set ts. json_col m base t" "separate ts" using Cons.prems(1,2) by simp_all
  have nm: "map_of ms nm = Some (Jstring a)"
    using Cons.prems(5) [rule_format, of 0] ns(1,3) by simp
  obtain m' where m': "struct_cols lib text ?m1 base (Jobject ms) (ts @ e # rest) = Some (m', int (length ts))"
    "\<forall>u\<in>set ts. col_same m m' base u"
    "\<And>x. (\<forall>u\<in>set ts. x < base + poffset u \<or> base + poffset u + int (width u) \<le> x) \<Longrightarrow> m' x = ?m1 x"
    using Cons.IH [OF ts ns(5,6) at, of ?m1] by blast
  have "rd m' (base + poffset t) (length bs) = bs"
  proof -
    have "\<forall>u\<in>set ts. apart t u" using Cons.prems(2) by simp
    then have "rd m' (base + poffset t) (length bs) = rd ?m1 (base + poffset t) (length bs)"
      by (rule kept_rd [OF _ bs(1)]) (rule m'(3))
    then show ?thesis by (simp only: rd_wr_same)
  qed
  then have "col_same m m' base t" by (rule bs(3))
  moreover have "struct_cols lib text m0 base (Jobject ms) ((t # ts) @ e # rest) = Some (m', int (length (t # ts)))"
    using json_col_cases [OF t] bs(2) [of m0] m'(1) ns(2) nm
    by (subst struct_cols.simps) (auto simp: object_get_def get_string_def)
  moreover have "m' x = m0 x"
    if "\<forall>u\<in>set (t # ts). x < base + poffset u \<or> base + poffset u + int (width u) \<le> x" for x
    using that m'(3) [of x] bs(1) by (auto simp: wr_def)
  ultimately show ?case using m'(2) by auto
qed

lemma placed_names: "map (\<lambda>t. plain_name (pname t)) (placed k ts) = map (\<lambda>t. plain_name (pname t)) ts"
  by (rule nth_equalityI) (auto simp: placed_def)

text \<open>A template of text, integer and byte columns with names of their own, not yet laid out, and a
  record whose texts end inside their columns.\<close>

definition json_record :: "strlib \<Rightarrow> mem \<Rightarrow> int \<Rightarrow> T_PkgType list \<Rightarrow> T_PkgType list \<Rightarrow> T_PkgType list \<Rightarrow> bytes list \<Rightarrow> bool" where
  "json_record lib m base typ cols tpl ns \<longleftrightarrow>
     strproc_ok lib \<and> copy_ok lib \<and>
     (\<exists>e rest. typ = cols @ e # rest \<and> poffset (hd (cols @ [e])) < 0 \<and> ptype e = -1) \<and>
     (\<forall>t\<in>set cols. plain_type t) \<and> named cols ns \<and> laid_out typ = Some tpl \<and>
     (\<forall>t\<in>set (columns tpl). ended m base t)"

lemma json_record_laid_out:
  assumes "json_record lib m base typ cols tpl ns"
  shows "\<exists>e rest. tpl = columns tpl @ e # rest \<and> ptype e = -1 \<and> separate (columns tpl) \<and>
    (\<exists>k. set_offset typ = Some (k, tpl)) \<and> (\<forall>t\<in>set (columns tpl). json_col m base t) \<and>
    named (columns tpl) ns \<and> length (columns tpl) = length cols"
proof -
  obtain e rest where e: "typ = cols @ e # rest" "poffset (hd (cols @ [e])) < 0" "ptype e = -1"
      "\<forall>t\<in>set cols. plain_type t" "named cols ns" "laid_out typ = Some tpl" "\<forall>t\<in>set (columns tpl). ended m base t"
    using assms by (auto simp: json_record_def)
  obtain e' where e': "tpl = placed 0 cols @ e' # rest" "ptype e' = -1" "columns tpl = placed 0 cols"
      "separate (placed 0 cols)"
    using laid_out_plain [OF e(2,3,4), of rest] e(1,6) by auto
  have "set_offset typ = Some (k, tpl)" if "set_offset typ = Some (k, t')" for k t'
    using that e(1,2,6) by (cases cols) (auto simp: laid_out_def)
  moreover have "set_offset typ \<noteq> None" using e(1,2,6) by (cases cols) (auto simp: laid_out_def)
  ultimately have so: "\<exists>k.  set_offset typ = Some (k, tpl)" by force
  have "json_col m base t" if t: "t \<in> set (placed 0 cols)" for t
  proof -
    obtain u off where "u \<in> set cols" "t = set_bind (set_off u off) 0" using placed_set [OF t] by blast
    then show ?thesis using e(4,7) t e'(3) plain_type_placed by (auto simp: json_col_def)
  qed
  then show ?thesis using e' so e(5) placed_names [of 0 cols]
    by (auto simp: named_def placed_def)
qed

text \<open>C30: A record of text, integer and byte columns becomes a JSON object with one member for each
  column, in their order; from it \<open>json_to_struct\<close> restores every column in any memory, null values
  included, and counts them.\<close>

theorem json_round_trip:
  assumes "json_record (strlib.truncate lib) m base typ cols tpl ns"
  shows "\<exists>ms. stu_to_json lib (Some []) m base typ None idx = Some (Some ms) \<and> map fst ms = ns \<and>
    (\<forall>m0. \<exists>m'. json_to_struct (strlib.truncate lib) text m0 base (Some (Jobject ms)) typ = Some (m', int (length cols)) \<and>
       (\<forall>t\<in>set (columns tpl). col_same m m' base t))"
proof -
  let ?L = "strlib.truncate lib"
  have L: "strproc_ok ?L" "copy_ok ?L" "laid_out typ = Some tpl" using assms by (auto simp: json_record_def)
  obtain e rest k where e: "tpl = columns tpl @ e # rest" "ptype e = -1" "separate (columns tpl)"
      "set_offset typ = Some (k, tpl)" "\<forall>t\<in>set (columns tpl). json_col m base t" "named (columns tpl) ns"
      "length (columns tpl) = length cols"
    using json_record_laid_out [OF assms] by blast
  obtain as where as: "stu_cols ?L m base False (columns tpl @ e # rest) [] = Some ([] @ zip ns (map Jstring as))"
      "map (field ?L m base) (columns tpl) = map Some as"
    using stu_cols_members [OF L(1) e(2) e(5,6), of "[]" rest] by auto
  have len: "length ns = length cols" "length as = length cols"
    using e(6,7) as(2) by (metis named_def length_map)+
  let ?ms = "zip ns (map Jstring as)"
  have ms: "\<forall>i<length ns. map_of ?ms (ns ! i) = Some (Jstring (as ! i))"
    using e(6) len by (auto simp: named_def map_of_zip_nth)
  have "\<exists>m'. json_to_struct ?L text m0 base (Some (Jobject ?ms)) typ = Some (m', int (length cols)) \<and>
       (\<forall>t\<in>set (columns tpl). col_same m m' base t)" for m0
    using struct_cols_restore [OF L(1,2) e(2) e(5,3) _ as(2) ms, of "text" m0 rest] e(1,6,7) L(3)
    by (subst json_to_struct.simps) (auto simp: named_def)
  moreover have "stu_to_json lib (Some []) m base typ None idx = Some (Some ?ms)"
    using as(1) e(1,4) by (simp add: stu_to_json_def stu_all.simps)
  ultimately show ?thesis using len by (intro exI [of _ ?ms]) simp
qed

section \<open>The text of a JSON object\<close>

lemma packed_plain:
  assumes "strproc_ok lib" "ascii a" "\<forall>c\<in>set a. c \<noteq> ESC_CHAR \<and> c \<noteq> 0x0A \<and> c \<noteq> bar"
  shows "packed_text lib a = a"
proof -
  have "concat (map (esc1 bar) a) = a" using assms(3) by (induction a) (auto simp: esc1_def)
  then show ?thesis using esc_str_ascii [OF assms(1,2), of bar] by (simp add: packed_text_def)
qed

lemma number_chars: "c \<in> set (decimal n) \<Longrightarrow> c \<noteq> ESC_CHAR \<and> c \<noteq> 0x0A \<and> c \<noteq> bar"
    "c \<in> set (b2h bs) \<Longrightarrow> c \<noteq> ESC_CHAR \<and> c \<noteq> 0x0A \<and> c \<noteq> bar"
proof -
  have no: "\<not> is_digit ESC_CHAR" "\<not> is_digit 0x0A" "\<not> is_digit bar" "ESC_CHAR \<noteq> 0x2D"
    "\<not> (0x41 \<le> ESC_CHAR \<and> ESC_CHAR \<le> 0x46)"
    by (simp_all add: is_digit_def ESC_CHAR_def)
  show "c \<in> set (decimal n) \<Longrightarrow> c \<noteq> ESC_CHAR \<and> c \<noteq> 0x0A \<and> c \<noteq> bar"
    using no dec_nat_props by (auto simp: decimal_def split: if_splits)
  assume "c \<in> set (b2h bs)"
  then have "is_digit c \<or> 0x41 \<le> c \<and> c \<le> 0x46"
    using hex_nibble(2) [OF nibbles(1)] hex_nibble(2) [OF nibbles(2)] by (auto simp: b2h_def)
  moreover have "\<not> (0x41 \<le> (0x0A :: byte))" "\<not> (bar \<le> (0x46 :: byte))" by simp_all
  ultimately show "c \<noteq> ESC_CHAR \<and> c \<noteq> 0x0A \<and> c \<noteq> bar" using no by blast
qed

lemma field_packed:
  assumes "strproc_ok lib" "json_col m base t" "field lib m base t = Some a"
    and "text_col t \<longrightarrow> (\<forall>s. char_col m (base + poffset t) (plen t) = Some s \<longrightarrow> ascii s)"
  shows "get_one_str lib m base t bar = Some (packed_text lib a)"
proof -
  consider "text_col t" "0 < plen t" | "int_col t" | "byte_col t" "0 \<le> plen t"
    using assms(2) by (auto simp: json_col_def plain_type_def)
  then show ?thesis
  proof cases
    case 1
    then obtain s where s: "c_str m (base + poffset t) = Some s" "char_col m (base + poffset t) (plen t) = Some s"
      using ended_text [of t m base] assms(2) by (auto simp: json_col_def)
    then have a: "a = s" using assms(3) 1 by (simp add: field_def)
    have "ascii s" using assms(4) s(2) 1 by simp
    then show ?thesis using get_text [OF assms(1) 1 s(2), of bar] esc_str_ascii [OF assms(1), of s bar] a
      by (simp add: packed_text_def)
  next
    case 2
    have nt: "\<not> text_col t" using 2 by (auto simp: int_col_def text_col_def)
    have "a = (if int_null m base t then [] else decimal (s_val (rd m (base + poffset t) (width t))))"
      using assms(3) get_int [OF assms(1) 2, of m base 0] nt by (simp add: field_def)
    moreover have "packed_text lib a = a"
      using packed_plain [OF assms(1), of a] decimal_chars(2) number_chars(1) calculation
      by (auto simp: ascii_def)
    ultimately show ?thesis using get_int [OF assms(1) 2, of m base bar] by simp
  next
    case 3
    have g: "get_one_str lib m base t d = Some (b2h (rd m (base + poffset t) (nat (plen t))))" for d
      using 3 by (simp add: get_one_str_def byte_col_def isnull_def Let_def)
    then have "a = b2h (rd m (base + poffset t) (nat (plen t)))"
      using assms(3) 3 by (simp add: field_def byte_col_def text_col_def)
    then show ?thesis using g packed_plain [OF assms(1), of a] b2h_chars(1) number_chars(2) by simp
  qed
qed

lemma json_toStr_fields:
  assumes "ptype e = -1"
  shows "\<forall>t\<in>set cols. plain_type t \<and> pbindtype t AND NOSELECT = 0 \<Longrightarrow>
    map (\<lambda>t. plain_name (pname t)) cols = map Some ns \<Longrightarrow> length as = length ns \<Longrightarrow>
    \<forall>i<length ns. map_of ms (ns ! i) = Some (Jstring (as ! i)) \<Longrightarrow>
    json_toStr lib text (Jobject ms) (cols @ e # rest) = Some (concat (map (\<lambda>a. packed_text lib a @ [bar]) as))"
proof (induction cols arbitrary: ns as)
  case Nil
  then show ?case using assms by (subst append_Nil, subst json_toStr.simps(2)) simp
next
  case (Cons t ts)
  obtain nm ns' a as' where ns: "ns = nm # ns'" "plain_name (pname t) = Some nm" "as = a # as'"
      "map (\<lambda>t. plain_name (pname t)) ts = map Some ns'" "length as' = length ns'"
    using Cons.prems(2,3) by (cases ns; cases as) auto
  have at: "\<forall>i<length ns'. map_of ms (ns' ! i) = Some (Jstring (as' ! i))"
  proof (intro allI impI)
    fix i
    assume "i < length ns'"
    then show "map_of ms (ns' ! i) = Some (Jstring (as' ! i))"
      using Cons.prems(4) [rule_format, of "Suc i"] ns(1,3) by simp
  qed
  have nm: "map_of ms nm = Some (Jstring a)"
    using Cons.prems(4) [rule_format, of 0] ns(1,3) by simp
  have t: "ptype t > -1" "ptype t \<noteq> CH_STRUCT" "pbindtype t AND NOSELECT = 0"
    using Cons.prems(1) plain_type_cases [of t] by auto
  have "json_toStr lib text (Jobject ms) (ts @ e # rest) = Some (concat (map (\<lambda>a. packed_text lib a @ [bar]) as'))"
    using Cons.IH [OF _ ns(4,5) at] Cons.prems(1) by simp
  then show ?case using t nm ns(1-3)
    by (subst append_Cons, subst json_toStr.simps(2)) (simp add: object_get_def get_string_def)
qed

lemma pack_cols_fields:
  assumes "strproc_ok lib" "ptype e = -1"
  shows "\<forall>t\<in>set cols. json_col m base t \<and>
      (text_col t \<longrightarrow> (\<forall>s. char_col m (base + poffset t) (plen t) = Some s \<longrightarrow> ascii s)) \<Longrightarrow>
    map (field lib m base) cols = map Some as \<Longrightarrow>
    pack_cols lib m base (cols @ e # rest) bar = Some (concat (map (\<lambda>a. packed_text lib a @ [bar]) as))"
proof (induction cols arbitrary: as)
  case Nil
  then show ?case using assms(2) by (subst pack_cols.simps) simp
next
  case (Cons t ts)
  obtain a as' where as: "as = a # as'" "field lib m base t = Some a" "map (field lib m base) ts = map Some as'"
    using Cons.prems(2) by (cases as) auto
  have t: "json_col m base t" "text_col t \<longrightarrow> (\<forall>s. char_col m (base + poffset t) (plen t) = Some s \<longrightarrow> ascii s)"
    using Cons.prems(1) by auto
  show ?case using json_col_cases [OF t(1)] field_packed [OF assms(1) t(1) as(2) t(2)] Cons.IH [OF _ as(3)] Cons.prems(1) as(1)
    by (subst pack_cols.simps) simp
qed

text \<open>C31: For a record of ASCII texts, integers and bytes, what \<open>json_toStr\<close> makes of its JSON
  object by the template, what \<open>json_to_sdbc\<close> makes of the object alone, and what
  \<open>pkg_pack\<close> makes of the record are the same.\<close>

theorem json_text_is_packed_text:
  assumes "json_record (strlib.truncate lib) m base typ cols tpl ns"
    and "\<forall>t\<in>set cols. pbindtype t AND NOSELECT = 0"
    and "\<forall>t\<in>set (columns tpl). text_col t \<longrightarrow>
      (\<forall>s. char_col m (base + poffset t) (plen t) = Some s \<longrightarrow> ascii s)"
  shows "\<exists>ms buf. stu_to_json lib (Some []) m base typ None idx = Some (Some ms) \<and>
    json_toStr (strlib.truncate lib) text (Jobject ms) typ = Some buf \<and>
    json_to_sdbc (strlib.truncate lib) text (Some (Jobject ms)) = Some buf \<and>
    pkg_pack (strlib.truncate lib) m base typ bar = Some buf"
proof -
  let ?L = "strlib.truncate lib"
  have L: "strproc_ok ?L" "copy_ok ?L" "laid_out typ = Some tpl" "\<forall>t\<in>set cols. plain_type t" "named cols ns"
    using assms(1) by (auto simp: json_record_def)
  obtain e0 rest0 where e0: "typ = cols @ e0 # rest0" "ptype e0 = -1" using assms(1) by (auto simp: json_record_def)
  obtain e rest k where e: "tpl = columns tpl @ e # rest" "ptype e = -1" "separate (columns tpl)"
      "set_offset typ = Some (k, tpl)" "\<forall>t\<in>set (columns tpl). json_col m base t" "named (columns tpl) ns"
      "length (columns tpl) = length cols"
    using json_record_laid_out [OF assms(1)] by blast
  obtain as where as: "stu_cols ?L m base False (columns tpl @ e # rest) [] = Some ([] @ zip ns (map Jstring as))"
      "map (field ?L m base) (columns tpl) = map Some as"
    using stu_cols_members [OF L(1) e(2) e(5,6), of "[]" rest] by auto
  have len: "length ns = length cols" "length as = length cols"
    using e(6,7) as(2) by (metis named_def length_map)+
  let ?ms = "zip ns (map Jstring as)" and ?buf = "concat (map (\<lambda>a. packed_text ?L a @ [bar]) as)"
  have ms: "\<forall>i<length ns. map_of ?ms (ns ! i) = Some (Jstring (as ! i))"
    using e(6) len by (auto simp: named_def map_of_zip_nth)
  have names: "map (\<lambda>t. plain_name (pname t)) cols = map Some ns" using L(5) by (simp add: named_def)
  have "json_toStr ?L text (Jobject ?ms) typ = Some ?buf"
    unfolding e0(1) using assms(2) L(4) len
    by (intro json_toStr_fields [OF e0(2) _ names _ ms]) auto
  moreover have "map (\<lambda>(k, v). (if v = Jnull then [] else packed_text ?L (get_string text v)) @ [bar]) ?ms =
      map (\<lambda>a. packed_text ?L a @ [bar]) as"
    using len by (intro nth_equalityI) (auto simp: get_string_def)
  then have "json_to_sdbc ?L text (Some (Jobject ?ms)) = Some ?buf" by (simp add: json_to_sdbc_def)
  moreover have "pack_cols ?L m base (columns tpl @ e # rest) bar = Some ?buf"
    using e(5) assms(3) as(2) by (intro pack_cols_fields [OF L(1) e(2)]) auto
  then have "pkg_pack ?L m base typ bar = Some ?buf"
    using L(3) e(1) by (simp add: pkg_pack.simps [of ?L m base "typ"])
  moreover have "stu_to_json lib (Some []) m base typ None idx = Some (Some ?ms)"
    using as(1) e(1,4) by (simp add: stu_to_json_def stu_all.simps)
  ultimately show ?thesis by blast
qed

section \<open>Instances\<close>

definition json_lib :: sqllib where
  "json_lib = SQL_Text.plain_lib\<lparr>itoStr := decimal, lltoStr := decimal\<rparr>"

text \<open>A number and a text, 65 and "AA".\<close>

definition json_cols :: "T_PkgType list" where
  "json_cols = [PkgType CH_INT 4 (Some (chars ''id'')) No_Format (-1) 0, PkgType CH_CHAR 9 (Some (chars ''name'')) No_Format 0 0]"

definition json_typ :: "T_PkgType list" where
  "json_typ = json_cols @ [PkgType (-1) 0 None No_Format 0 0]"

definition json_tpl :: "T_PkgType list" where
  "json_tpl = [PkgType CH_INT 4 (Some (chars ''id'')) No_Format 0 0, PkgType CH_CHAR 9 (Some (chars ''name'')) No_Format 4 0,
     PkgType (-1) 0 None No_Format 16 4]"

definition json_mem :: mem where
  "json_mem = (\<lambda>a. if a \<in> {0, 4, 5} then 0x41 else 0)"

lemma json_names: "named json_cols [chars ''id'', chars ''name'']"
  by code_simp

lemma json_instance: "json_record (strlib.truncate json_lib) json_mem 0 json_typ json_cols json_tpl [chars ''id'', chars ''name'']"
proof -
  have "strproc_ok (strlib.truncate json_lib)" "copy_ok (strlib.truncate json_lib)"
    by (simp_all add: json_lib_def SQL_Text.plain_lib_def strlib.truncate_def strproc_ok_def copy_ok_def)
  moreover have "laid_out json_typ = Some json_tpl" by code_simp
  moreover have "\<forall>t\<in>set json_cols. plain_type t"
    by (simp add: json_cols_def plain_type_def text_col_def int_col_def byte_col_def width_def)
  moreover have "\<forall>t\<in>set (columns json_tpl). ended json_mem 0 t"
    by (auto simp: json_tpl_def columns_def ended_def text_col_def json_mem_def intro!: exI [of _ 2])
  moreover have "\<exists>e rest. json_typ = json_cols @ e # rest \<and> poffset (hd (json_cols @ [e])) < 0 \<and> ptype e = -1"
    by (auto simp: json_typ_def json_cols_def)
  ultimately show ?thesis using json_names by (simp add: json_record_def)
qed

lemma json_ascii: "\<forall>t\<in>set (columns json_tpl). text_col t \<longrightarrow>
    (\<forall>s. char_col json_mem (0 + poffset t) (plen t) = Some s \<longrightarrow> ascii s)"
  by (auto simp: json_tpl_def columns_def text_col_def char_col_def rd_def json_mem_def ascii_def
      dest!: set_takeWhileD split: if_splits)

theorem json_round_trip_witness:
  "\<exists>ms. stu_to_json json_lib (Some []) json_mem 0 json_typ None None = Some (Some ms) \<and>
    map fst ms = [chars ''id'', chars ''name''] \<and>
    (\<forall>m0. \<exists>m'. json_to_struct (strlib.truncate json_lib) (\<lambda>j. []) m0 0 (Some (Jobject ms)) json_typ = Some (m', 2) \<and>
       (\<forall>t\<in>set (columns json_tpl). col_same json_mem m' 0 t))"
  using json_round_trip [OF json_instance] by (simp add: json_cols_def)

theorem json_text_is_packed_text_witness:
  "\<exists>ms buf. stu_to_json json_lib (Some []) json_mem 0 json_typ None None = Some (Some ms) \<and>
    json_toStr (strlib.truncate json_lib) (\<lambda>j. []) (Jobject ms) json_typ = Some buf \<and>
    json_to_sdbc (strlib.truncate json_lib) (\<lambda>j. []) (Some (Jobject ms)) = Some buf \<and>
    pkg_pack (strlib.truncate json_lib) json_mem 0 json_typ bar = Some buf"
  by (rule json_text_is_packed_text [OF json_instance _ json_ascii]) (simp add: json_cols_def)

end
