(* ===== verification/Modules.thy ===== *)
theory Modules
  imports Key_File Json_Pack BB_Tree_Del Rpc
begin

text \<open>Modules loaded while the server runs: \<open>src/scsrv/dm_app.c\<close>, which keeps them in a balanced
  tree with the number of calls under way, and the services \<open>dmapp\<close> and \<open>dmmgr\<close> of
  \<open>src/scsrv/dmapp.c\<close>.  The threads of the server share the tree under a read-write lock; the
  last sections are about their interleavings.\<close>

section \<open>Modules\<close>

text \<open>A pointer to a function that may be null is an option.\<close>

record ('h, 'f) cmd_node =
  cmd_name :: bytes
  handle :: "'h option"
  cmd :: "'f option"
  destruct :: "'f option"
  lock :: int

text \<open>What a function of a module returns: the pointer \<open>-1\<close>, or an object or a null pointer.\<close>

datatype answer = Escape | Result "json option"

text \<open>The system: the dynamic linker (\<open>dlclose\<close> by the number of calls before), \<open>system\<close> with the
  commands run before, the text of an error number, and what a function does, with the messages it
  adds to the array of errors; the texts of JSON values and their reader.\<close>

record ('h, 'f) loader =
  menv :: envlib
  mlib :: strlib
  mtext :: "json \<Rightarrow> bytes"
  parse :: "bytes \<Rightarrow> json option"
  dlopen :: "bytes \<Rightarrow> 'h option"
  dlsym :: "'h \<Rightarrow> bytes \<Rightarrow> 'f option"
  dlclose :: "'h \<Rightarrow> nat \<Rightarrow> int"
  dlerror :: bytes
  system :: "bytes list \<Rightarrow> bytes \<Rightarrow> int"
  errno :: int
  strerror :: "int \<Rightarrow> bytes"
  call_cmd :: "'f \<Rightarrow> json option \<Rightarrow> json list \<Rightarrow> answer \<times> json list"

type_synonym ('h, 'f) cmds = "('h, 'f) cmd_node T_Tree"

definition cmd_cmp :: "('h, 'f) cmd_node \<Rightarrow> ('h, 'f) cmd_node \<Rightarrow> int" where
  "cmd_cmp sp dp = cmp_str (cmd_name sp) (cmd_name dp)"

definition new_node :: "bytes \<Rightarrow> ('h, 'f) cmd_node" where
  "new_node nm = \<lparr>cmd_name = nm, handle = None, cmd = None, destruct = None, lock = 1\<rparr>"

definition find_cmd :: "bytes \<Rightarrow> ('h, 'f) cmds \<Rightarrow> ('h, 'f) cmd_node option" where
  "find_cmd nm t = rec_of (BB_Tree_Find cmd_cmp t (new_node nm))"

text \<open>A change of the lock of a node, made under its own mutex.\<close>

definition shift_lock :: "bytes \<Rightarrow> int \<Rightarrow> ('h, 'f) cmds \<Rightarrow> ('h, 'f) cmds" where
  "shift_lock nm d = map_T_Tree (\<lambda>n. if cmd_name n = nm then n\<lparr>lock := lock n + d\<rparr> else n)"

section \<open>Calling a module\<close>

definition so_path :: "('h, 'f) loader \<Rightarrow> bytes \<Rightarrow> bytes option" where
  "so_path W nm =
     (let dir = (case getenv (menv W) (chars ''SO_USE'') of Some e \<Rightarrow> e @ chars ''/'' | None \<Rightarrow> []);
          so_name = dir @ chars ''lib'' @ nm @ chars ''.so''
      in if length so_name < 200 then Some so_name else None)"

text \<open>The node of a module that is not in the tree, if the library can be opened.  The module goes
  into the tree whether it has the function or not.\<close>

definition load_cmd :: "('h, 'f) loader \<Rightarrow> bytes \<Rightarrow> json list
    \<Rightarrow> (('h, 'f) cmd_node option \<times> json list) option" where
  "load_cmd W nm errs =
     do { so_name \<leftarrow> so_path W nm;
          (case dlopen W so_name of
             None \<Rightarrow>
               let msg = chars ''dm_app:load '' @ so_name @ chars '' err '' @ dlerror W in
               if 2048 \<le> length msg then None else Some (None, errs @ [jerr 101 msg])
           | Some h \<Rightarrow>
               let node = (new_node nm)\<lparr>handle := Some h, cmd := dlsym W h nm,
                                         destruct := dlsym W h (chars ''_'' @ nm)\<rparr>;
                   msg = chars ''cmd '' @ nm @ chars '' err '' @ dlerror W in
               (case cmd node of
                  Some f \<Rightarrow> Some (Some node, errs)
                | None \<Rightarrow> if 2048 \<le> length msg then None else Some (Some node, errs @ [jerr 102 msg]))) }"

definition add_cmd :: "('h, 'f) cmds \<Rightarrow> ('h, 'f) cmd_node \<Rightarrow> (('h, 'f) cmd_node \<times> ('h, 'f) cmds) option" where
  "add_cmd t node =
     do { t \<leftarrow> BB_Tree_Add True cmd_cmp None t node;
          n \<leftarrow> find_cmd (cmd_name node) t;
          Some (n, t) }"

text \<open>What the thread does under the read lock: the function to call, if any.\<close>

definition dm_enter :: "('h, 'f) loader \<Rightarrow> bytes \<Rightarrow> json list \<Rightarrow> ('h, 'f) cmds
    \<Rightarrow> ('f option \<times> json list \<times> ('h, 'f) cmds) option" where
  "dm_enter W nm errs t =
     (case find_cmd nm t of
        Some n \<Rightarrow> Some (cmd n, errs, shift_lock nm 1 t)
      | None \<Rightarrow> do {
          (node, errs) \<leftarrow> load_cmd W nm errs;
          (case node of
             None \<Rightarrow> Some (None, errs, t)
           | Some node \<Rightarrow> do { (n, t) \<leftarrow> add_cmd t node; Some (cmd n, errs, t) }) })"

text \<open>The messages in Chinese: that the JSON is wrong, that the old module could not be moved, that
  the new one could not be copied.\<close>

definition bad_json :: bytes where
  "bad_json = [0xE8, 0xAF, 0xB7, 0xE6, 0xB1, 0x82, 0xE7, 0x9A, 0x84, 0x4A, 0x53, 0x4F, 0x4E, 0x20,
     0xE6, 0xA0, 0xBC, 0xE5, 0xBC, 0x8F, 0xE9, 0x94, 0x99]"

definition move_failed :: bytes where
  "move_failed = [0x3A, 0xE7, 0xA7, 0xBB, 0xE5, 0x8A, 0xA8, 0xE5, 0x8E, 0x9F, 0xE6, 0xA8, 0xA1, 0xE5,
     0x9D, 0x97, 0xE5, 0xA4, 0xB1, 0xE8, 0xB4, 0xA5]"

definition copy_failed :: bytes where
  "copy_failed = [0x3A, 0xE6, 0x8B, 0xB7, 0xE8, 0xB4, 0x9D, 0xE5, 0xA4, 0xB1, 0xE8, 0xB4, 0xA5]"

definition dm_app :: "('h, 'f) loader \<Rightarrow> json \<Rightarrow> json list \<Rightarrow> ('h, 'f) cmds
    \<Rightarrow> (answer \<times> json list \<times> ('h, 'f) cmds) option" where
  "dm_app W json errs t =
     do { model_json \<leftarrow> object_get json (chars ''model'');
          (case model_json of
             None \<Rightarrow> Some (Result None, errs @ [jerr 100 bad_json], t)
           | Some m \<Rightarrow>
               let nm = fst (stptok_copy (mlib W) (get_string (mtext W) m) 128) in
               do { (cmd, errs, t) \<leftarrow> dm_enter W nm errs t;
                    (case cmd of
                       None \<Rightarrow> Some (Result None, errs, t)
                     | Some f \<Rightarrow> do {
                         param \<leftarrow> object_get json (chars ''param'');
                         let (result, errs) = call_cmd W f param errs in
                         Some (result, errs, shift_lock nm (-1) t) }) }) }"

section \<open>Replacing a module\<close>

text \<open>The files: the result, the errors and the commands run.\<close>

definition dm_files :: "('h, 'f) loader \<Rightarrow> bytes \<Rightarrow> json list \<Rightarrow> (int \<times> json list \<times> bytes list) option" where
  "dm_files W model_name errs =
     (let so = chars ''/lib'' @ model_name @ chars ''.so'';
          so_use = (case not_empty (getenv (menv W) (chars ''SO_USE'')) of None \<Rightarrow> chars ''.'' | Some e \<Rightarrow> e) @ so;
          mv = chars ''mv -f '' @ so_use @ chars '' '' @ so_use @ chars ''.bak''
      in if 128 \<le> length so_use then None
         else if system W [] mv div 256 \<noteq> 0 then Some (SYSERR, errs @ [jerr 105 (mv @ move_failed)], [mv])
         else do {
           so_lib \<leftarrow> (case not_empty (getenv (menv W) (chars ''SO_LIB'')) of
               Some e \<Rightarrow> Some (e @ so)
             | None \<Rightarrow> if 200 \<le> length (chars ''$HOME/lib'' @ so) then None
                       else substitute_env (menv W) (chars ''$HOME/lib'' @ so));
           (if 200 \<le> length so_lib then None
            else
              let cp = chars ''cp -f '' @ so_lib @ chars '' '' @ so_use;
                  back = chars ''mv -f '' @ so_use @ chars ''.bak '' @ so_use
              in if system W [mv] cp div 256 \<noteq> 0
                 then Some (SYSERR, errs @ [jerr 105 (cp @ copy_failed)], [mv, cp, back])
                 else Some (0, errs, [mv, cp])) })"

text \<open>\<open>dlclose\<close> until it does not give a positive number: how often it was called.\<close>

partial_function (option) close_loop :: "(nat \<Rightarrow> int) \<Rightarrow> nat \<Rightarrow> nat option" where
  "close_loop close k = (if close k > 0 then close_loop close (k + 1) else Some (k + 1))"

text \<open>What is done to a module that is no more in use: the call of its destructor, if it has one, the
  closing of the library, the removal of the node.  The result is the functions called and the tree;
  what a destructor does is its own, and it returns nothing.\<close>

definition drop_cmd :: "('h, 'f) loader \<Rightarrow> ('h, 'f) cmd_node \<Rightarrow> ('h, 'f) cmds \<Rightarrow> ('f list \<times> ('h, 'f) cmds) option" where
  "drop_cmd W n t =
     do { h \<leftarrow> handle n;
          let called = (case destruct n of None \<Rightarrow> [] | Some f \<Rightarrow> [f]);
          k \<leftarrow> close_loop (dlclose W h) 0;
          (t, flg) \<leftarrow> BB_Tree_Del cmd_cmp None t (Some n) (Some 0);
          Some (called, t) }"

text \<open>\<open>dmmgr_app\<close> with no other thread at work: it waits for ever for a module whose lock is not 0.  The
  result has the commands run and the destructors called.\<close>

definition dmmgr_app :: "('h, 'f) loader \<Rightarrow> bytes \<Rightarrow> json list \<Rightarrow> ('h, 'f) cmds
    \<Rightarrow> (int \<times> json list \<times> bytes list \<times> 'f list \<times> ('h, 'f) cmds) option" where
  "dmmgr_app W model_name errs t =
     do { (ret, errs, run) \<leftarrow> dm_files W model_name errs;
          (if ret \<noteq> 0 then Some (ret, errs, run, [], t)
           else if 128 \<le> length model_name then None
           else
             (case find_cmd model_name t of
                None \<Rightarrow> Some (-106, errs @ [jerr 106 (chars ''no such model['' @ model_name @ chars '']'')], run, [], t)
              | Some n \<Rightarrow>
                  if lock n > 0 then None
                  else do { (called, t) \<leftarrow> drop_cmd W n t; Some (0, errs, run, called, t) })) }"

section \<open>The services\<close>

text \<open>The connection's status goes through; the result is the return value, the header, the link, the
  status and the tree.  \<open>json_object_put\<close> of the pointer \<open>-1\<close> reads through it.\<close>

definition dmapp :: "('h, 'f) loader \<Rightarrow> 'l peer \<Rightarrow> (int \<Rightarrow> int) \<Rightarrow> T_NetHead \<Rightarrow> 'l link_scheme \<Rightarrow> ('h, 'f) cmds
    \<Rightarrow> (int \<times> T_NetHead \<times> 'l link_scheme \<times> int \<times> ('h, 'f) cmds) option" where
  "dmapp W P ntohl h l t =
     (let event = PROTO_NUM h; cont = ERRNO2 h;
          status = (if ERRNO2 h = PACK_STATUS then 1 else 0);
          no = (if status > 0 then PACK_NOANSER else -1) in
      case Option.bind (data h) (\<lambda>s. parse W (c_text s)) of
        None \<Rightarrow>
          let msg = bad_json @ chars '',PKG_LEN='' @ decimal (PKG_LEN h);
              (_, h, l) = return_error P ntohl (h\<lparr>ERRNO1 := FORMATERR, ERRNO2 := no\<rparr>)
                 (Some (mtext W (Jarray [jerr 100 msg]))) l
          in Some (0, h, l, 0, t)
      | Some json \<Rightarrow> do {
          (result, errs, t) \<leftarrow> dm_app W json [] t;
          h \<leftarrow> (case result of
              Escape \<Rightarrow> None
            | Result None \<Rightarrow> Some (h\<lparr>data := Some (mtext W (Jarray errs)), ERRNO1 := -1, ERRNO2 := no\<rparr>)
            | Result (Some (Jobject ms)) \<Rightarrow>
                Some (h\<lparr>data := Some (mtext W (Jobject (object_add ms (chars ''status'') (Jarray errs)))),
                        ERRNO1 := 0, ERRNO2 := (if status > 0 then PACK_STATUS else 0)\<rparr>)
            | _ \<Rightarrow> None);
          (if cont \<noteq> PACK_NOANSER
           then let h = h\<lparr>PKG_LEN := int (length (the (data h)))\<rparr>;
                    (ev, l) = PutEvent P event l;
                    h = h\<lparr>PROTO_NUM := ev, O_NODE := ntohl (LocalAddr P)\<rparr>;
                    (ret, l) = SendPack P h l
                in Some (ret, h, l, status, t)
           else Some (0, h, l, status, t)) })"

definition dmmgr :: "('h, 'f) loader \<Rightarrow> 'l peer \<Rightarrow> (int \<Rightarrow> int) \<Rightarrow> T_NetHead \<Rightarrow> 'l link_scheme \<Rightarrow> ('h, 'f) cmds
    \<Rightarrow> (int \<times> T_NetHead \<times> 'l link_scheme \<times> int \<times> ('h, 'f) cmds) option" where
  "dmmgr W P ntohl h l t =
     (let event = PROTO_NUM h;
          status = (if ERRNO2 h = PACK_STATUS then 1 else 0);
          no = (if status > 0 then PACK_NOANSER else -1) in
      if PKG_LEN h = 0
      then let (_, h, l) = return_error P ntohl (h\<lparr>ERRNO1 := LENGERR, ERRNO2 := no\<rparr>)
                 (Some (mtext W (Jarray [jerr 100 (chars ''data is empty!'')]))) l
           in Some (0, h, l, 0, t)
      else do {
        s \<leftarrow> data h;
        (ret, errs, run, called, t) \<leftarrow> dmmgr_app W (c_text s) [] t;
        (if ERRNO2 h = PACK_NOANSER then Some (0, h, l, status, t)
         else
           let msg = (if ret \<noteq> 0
                 then chars ''model '' @ c_text s @ chars '' unloaded errno='' @ decimal (errno W) @ chars '','' @
                        strerror W (errno W)
                 else chars ''model '' @ c_text s @ chars '' is unloaded'');
               answer = mtext W (Jarray (errs @ [jerr ret msg]));
               (ev, l) = PutEvent P event l;
               h = h\<lparr>data := Some answer, ERRNO1 := 0, ERRNO2 := 0, PKG_LEN := int (length answer),
                       PROTO_NUM := ev, O_NODE := ntohl (LocalAddr P)\<rparr>;
               (i, l) = SendPack P h l
           in if 2048 \<le> length msg then None else Some (0, h, l, status, t)) })"

section \<open>Threads\<close>

text \<open>Where a thread is: outside; under the read lock in the search for a module, behind a search that
  found nothing, or in the insertion of the node of a module; in the function of a module; or under
  the write lock, waiting for a module it is to unload.\<close>

datatype ('h, 'f) phase = Idle | Looking bytes | Looked bytes | Adding "('h, 'f) cmd_node" | Running bytes 'f
  | Stopping bytes

record ('h, 'f) dm_state =
  cmd_tree :: "('h, 'f) cmds"
  threads :: "('h, 'f) phase list"

definition at_work :: "bytes \<Rightarrow> 'f option \<Rightarrow> ('h, 'f) phase" where
  "at_work nm c = (case c of None \<Rightarrow> Idle | Some f \<Rightarrow> Running nm f)"

definition writing :: "('h, 'f) phase list \<Rightarrow> bool" where
  "writing ps = list_ex (\<lambda>p. case p of Stopping _ \<Rightarrow> True | _ \<Rightarrow> False) ps"

definition reading :: "('h, 'f) phase list \<Rightarrow> bool" where
  "reading ps = list_ex (\<lambda>p. case p of Looking _ \<Rightarrow> True | Looked _ \<Rightarrow> True | Adding _ \<Rightarrow> True | _ \<Rightarrow> False) ps"

text \<open>A thread that is changing the tree, and one that is in a function of the tree at all.\<close>

definition inserting :: "('h, 'f) phase list \<Rightarrow> bool" where
  "inserting ps = list_ex (\<lambda>p. case p of Adding _ \<Rightarrow> True | _ \<Rightarrow> False) ps"

definition in_the_tree :: "('h, 'f) phase list \<Rightarrow> bool" where
  "in_the_tree ps = list_ex (\<lambda>p. case p of Looking _ \<Rightarrow> True | Adding _ \<Rightarrow> True | _ \<Rightarrow> False) ps"

text \<open>The sections of \<open>dm_app\<close> and \<open>dmmgr_app\<close> as steps of a thread.  The read lock admits any number of
  readers, and \<open>dm_app\<close> inserts under it: an insertion that overlaps another insertion or a search is a
  data race, and what comes of it is undefined, the result None.  The lock of a node is changed under
  its own mutex and is no part of what an insertion reads or writes.\<close>

inductive dm_step :: "('h, 'f) loader \<Rightarrow> ('h, 'f) dm_state \<Rightarrow> ('h, 'f) dm_state option \<Rightarrow> bool"
  for W :: "('h, 'f) loader" where
  enter: "i < length ps \<Longrightarrow> ps ! i = Idle \<Longrightarrow> \<not> writing ps \<Longrightarrow> \<not> inserting ps \<Longrightarrow>
     dm_step W \<lparr>cmd_tree = t, threads = ps\<rparr> (Some \<lparr>cmd_tree = t, threads = ps[i := Looking nm]\<rparr>)"
| search_race: "i < length ps \<Longrightarrow> ps ! i = Idle \<Longrightarrow> \<not> writing ps \<Longrightarrow> inserting ps \<Longrightarrow>
     dm_step W \<lparr>cmd_tree = t, threads = ps\<rparr> None"
| found: "i < length ps \<Longrightarrow> ps ! i = Looking nm \<Longrightarrow> find_cmd nm t = Some n \<Longrightarrow>
     dm_step W \<lparr>cmd_tree = t, threads = ps\<rparr>
       (Some \<lparr>cmd_tree = shift_lock nm 1 t, threads = ps[i := at_work nm (cmd n)]\<rparr>)"
| missed: "i < length ps \<Longrightarrow> ps ! i = Looking nm \<Longrightarrow> find_cmd nm t = None \<Longrightarrow>
     dm_step W \<lparr>cmd_tree = t, threads = ps\<rparr> (Some \<lparr>cmd_tree = t, threads = ps[i := Looked nm]\<rparr>)"
| refused: "i < length ps \<Longrightarrow> ps ! i = Looked nm \<Longrightarrow> load_cmd W nm errs = Some (None, errs') \<Longrightarrow>
     dm_step W \<lparr>cmd_tree = t, threads = ps\<rparr> (Some \<lparr>cmd_tree = t, threads = ps[i := Idle]\<rparr>)"
| loaded: "i < length ps \<Longrightarrow> ps ! i = Looked nm \<Longrightarrow> load_cmd W nm errs = Some (Some node, errs') \<Longrightarrow>
     \<not> in_the_tree ps \<Longrightarrow>
     dm_step W \<lparr>cmd_tree = t, threads = ps\<rparr> (Some \<lparr>cmd_tree = t, threads = ps[i := Adding node]\<rparr>)"
| insert_race: "i < length ps \<Longrightarrow> ps ! i = Looked nm \<Longrightarrow> load_cmd W nm errs = Some (Some node, errs') \<Longrightarrow>
     in_the_tree ps \<Longrightarrow> dm_step W \<lparr>cmd_tree = t, threads = ps\<rparr> None"
| added: "i < length ps \<Longrightarrow> ps ! i = Adding node \<Longrightarrow> add_cmd t node = Some (n, t') \<Longrightarrow>
     dm_step W \<lparr>cmd_tree = t, threads = ps\<rparr>
       (Some \<lparr>cmd_tree = t', threads = ps[i := at_work (cmd_name node) (cmd n)]\<rparr>)"
| left: "i < length ps \<Longrightarrow> ps ! i = Running nm f \<Longrightarrow>
     dm_step W \<lparr>cmd_tree = t, threads = ps\<rparr> (Some \<lparr>cmd_tree = shift_lock nm (-1) t, threads = ps[i := Idle]\<rparr>)"
| stop: "i < length ps \<Longrightarrow> ps ! i = Idle \<Longrightarrow> \<not> writing ps \<Longrightarrow> \<not> reading ps \<Longrightarrow> find_cmd nm t = Some n \<Longrightarrow>
     dm_step W \<lparr>cmd_tree = t, threads = ps\<rparr> (Some \<lparr>cmd_tree = t, threads = ps[i := Stopping nm]\<rparr>)"
| unloaded: "i < length ps \<Longrightarrow> ps ! i = Stopping nm \<Longrightarrow> find_cmd nm t = Some n \<Longrightarrow> lock n \<le> 0 \<Longrightarrow>
     drop_cmd W n t = Some (called, t') \<Longrightarrow>
     dm_step W \<lparr>cmd_tree = t, threads = ps\<rparr> (Some \<lparr>cmd_tree = t', threads = ps[i := Idle]\<rparr>)"

abbreviation dm_next :: "('h, 'f) loader \<Rightarrow> ('h, 'f) dm_state \<Rightarrow> ('h, 'f) dm_state \<Rightarrow> bool" where
  "dm_next W s s' \<equiv> dm_step W s (Some s')"

text \<open>No two threads are about to load the same module; and the runs in which this never happens, as
  far as they go without a race.\<close>

definition looked :: "('h, 'f) phase \<Rightarrow> bytes option" where
  "looked p = (case p of Looked nm \<Rightarrow> Some nm | Adding n \<Rightarrow> Some (cmd_name n) | _ \<Rightarrow> None)"

definition one_loader :: "('h, 'f) dm_state \<Rightarrow> bool" where
  "one_loader s = (let ps = threads s in
     \<forall>i<length ps. \<forall>j<length ps. i \<noteq> j \<and> looked (ps ! i) \<noteq> None \<longrightarrow> looked (ps ! i) \<noteq> looked (ps ! j))"

inductive one_loader_run :: "('h, 'f) loader \<Rightarrow> ('h, 'f) dm_state \<Rightarrow> bool" for W :: "('h, 'f) loader" where
  start: "one_loader_run W \<lparr>cmd_tree = NULL, threads = replicate n Idle\<rparr>"
| go: "one_loader_run W s \<Longrightarrow> dm_next W s s' \<Longrightarrow> one_loader s' \<Longrightarrow> one_loader_run W s'"

section \<open>A module in use is not unloaded\<close>

interpretation cmd_cmp: rec_comparator cmd_cmp cmd_name
  by unfold_locales (simp_all add: cmd_cmp_def str_cmp.cmp_sign)

definition cmds_ok :: "('h, 'f) cmds \<Rightarrow> bool" where
  "cmds_ok t \<longleftrightarrow> depths_ok t \<and> sorted_by cmd_name (inorder t)"

lemma cmds_ok_NULL [simp]: "cmds_ok NULL"
  by (simp add: cmds_ok_def)

lemma find_sorted:
  "sorted_by f xs \<Longrightarrow> x \<in> set xs \<Longrightarrow> find (\<lambda>y. f y = f x) xs = Some x"
  by (induction xs) (auto simp: sorted_by_simps)

lemma find_cmd_find: "cmds_ok t \<Longrightarrow> find_cmd nm t = find (\<lambda>n. cmd_name n = nm) (inorder t)"
  by (simp add: find_cmd_def cmds_ok_def cmd_cmp.Find_find new_node_def)

lemma find_cmd_Some: "cmds_ok t \<Longrightarrow> find_cmd nm t = Some n \<Longrightarrow> n \<in> set (inorder t) \<and> cmd_name n = nm"
  by (auto simp: find_cmd_find find_Some_iff)

lemma find_cmd_None: "cmds_ok t \<Longrightarrow> find_cmd nm t = None \<longleftrightarrow> nm \<notin> cmd_name ` set (inorder t)"
  by (auto simp: find_cmd_find find_None_iff)

lemma inorder_map: "inorder (map_T_Tree f t) = map f (inorder t)"
  by (induction t) auto

lemma depth_map [simp]: "depth_of (map_T_Tree f t) = depth_of t"
  by (cases t) auto

lemma height_map [simp]: "height (map_T_Tree f t) = height t"
  by (induction t) auto

lemma depths_map: "depths_ok (map_T_Tree f t) = depths_ok t"
  by (induction t) auto

lemma shift_lock_inorder:
  "inorder (shift_lock nm d t) = map (\<lambda>n. if cmd_name n = nm then n\<lparr>lock := lock n + d\<rparr> else n) (inorder t)"
  by (simp add: shift_lock_def inorder_map)

lemma shift_lock_depths: "depths_ok (shift_lock nm d t) = depths_ok t"
  by (simp add: shift_lock_def depths_map)

lemma shift_lock_names: "map cmd_name (inorder (shift_lock nm d t)) = map cmd_name (inorder t)"
  by (simp add: shift_lock_inorder)

lemma shift_lock_ok: "cmds_ok t \<Longrightarrow> cmds_ok (shift_lock nm d t)"
  unfolding cmds_ok_def shift_lock_depths shift_lock_names .

text \<open>An insertion of a module that is not there, and a removal.\<close>

lemma set_put_new: "f x \<notin> f ` set xs \<Longrightarrow> set (put f dup x xs) = insert x (set xs)"
  by (induction xs) auto

lemma set_del_key: "sorted_by f xs \<Longrightarrow> set (del_key f k xs) = {y \<in> set xs. f y \<noteq> k}"
  by (induction xs) (auto simp: sorted_by_simps)

lemma add_cmd_new:
  assumes "cmds_ok t" "cmd_name node \<notin> cmd_name ` set (inorder t)" "add_cmd t node = Some (n, t')"
  shows "n = node \<and> cmds_ok t' \<and> set (inorder t') = insert node (set (inorder t))"
proof -
  obtain t1 where t1: "BB_Tree_Add True cmd_cmp None t node = Some t1" "depths_ok t1"
      "inorder t1 = put cmd_name (dup_of None) node (inorder t)"
    using cmd_cmp.Add_inorder assms(1) by (metis cmds_ok_def)
  have ok: "cmds_ok t1" "set (inorder t1) = insert node (set (inorder t))"
    using assms(1,2) t1(2) sorted_put [of cmd_name "dup_of None" node "inorder t"]
      set_put_new [of cmd_name node "inorder t"]
    by (auto simp: cmds_ok_def t1(3) dup_of_def)
  then have "find_cmd (cmd_name node) t1 = Some node"
    using find_sorted [of cmd_name "inorder t1" node] by (simp add: find_cmd_find) (simp add: cmds_ok_def)
  then show ?thesis using assms(3) ok t1(1) by (auto simp: add_cmd_def)
qed

lemma find_cmd_NULL: "find_cmd nm NULL = None"
  by (simp add: find_cmd_def)

lemma find_cmd_single: "find_cmd (cmd_name b) (Node 0 NULL b NULL 0) = Some b"
  by (simp add: find_cmd_find cmds_ok_def)

lemma add_cmd_NULL: "add_cmd NULL b = Some (b, Node 0 NULL b NULL 0)"
  by (simp add: add_cmd_def find_cmd_single)

lemma drop_cmd_ok:
  assumes "cmds_ok t" "n \<in> set (inorder t)" "drop_cmd W n t = Some (called, t')"
  shows "cmds_ok t' \<and> set (inorder t') = {m \<in> set (inorder t). cmd_name m \<noteq> cmd_name n}"
proof -
  obtain t1 k where "BB_Tree_Del cmd_cmp None t (Some n) (Some 0) = Some (t1, Some k)" "depths_ok t1"
      "inorder t1 = del_key cmd_name (cmd_name n) (inorder t)"
    using cmd_cmp.Del_ok [of t None n 0] assms(1,2) find_sorted [of cmd_name "inorder t" n]
    by (auto simp: cmds_ok_def del_done_def del_vetoed_def)
  then show ?thesis
    using assms(1,3) by (auto simp: drop_cmd_def cmds_ok_def sorted_del_key set_del_key bind_eq_Some_conv)
qed

text \<open>How many threads are in the functions of a module, and what holds of every state: the tree is in
  order, a thread that is about to load a module would not find it, every thread in a function has
  its module in the tree, and the lock of a module is at least the number of threads in it.\<close>

definition runs :: "bytes \<Rightarrow> ('h, 'f) phase \<Rightarrow> bool" where
  "runs nm p = (case p of Running m f \<Rightarrow> m = nm | _ \<Rightarrow> False)"

definition users :: "bytes \<Rightarrow> ('h, 'f) phase list \<Rightarrow> int" where
  "users nm ps = int (length (filter (runs nm) ps))"

definition modules :: "('h, 'f) cmds \<Rightarrow> (bytes \<times> 'f option) set" where
  "modules t = (\<lambda>n. (cmd_name n, cmd n)) ` set (inorder t)"

definition in_tree :: "('h, 'f) cmds \<Rightarrow> ('h, 'f) phase \<Rightarrow> bool" where
  "in_tree t p = (case p of
     Looked nm \<Rightarrow> nm \<notin> fst ` modules t
   | Adding node \<Rightarrow> cmd_name node \<notin> fst ` modules t \<and> lock node = 1
   | Running nm f \<Rightarrow> (nm, Some f) \<in> modules t
   | _ \<Rightarrow> True)"

definition locks_cover :: "(bytes \<Rightarrow> int) \<Rightarrow> ('h, 'f) cmds \<Rightarrow> bool" where
  "locks_cover u t \<longleftrightarrow> (\<forall>n\<in>set (inorder t). u (cmd_name n) \<le> lock n)"

definition locks_ok :: "('h, 'f) dm_state \<Rightarrow> bool" where
  "locks_ok s \<longleftrightarrow> cmds_ok (cmd_tree s) \<and> list_all (in_tree (cmd_tree s)) (threads s) \<and>
     locks_cover (\<lambda>nm. users nm (threads s)) (cmd_tree s) \<and> one_loader s"

lemma phase_simps [simp]: "runs nm Idle = False" "runs nm (Looked m) = False" "runs nm (Stopping m) = False"
  "runs nm (Looking m) = False" "runs nm (Adding n) = False" "in_tree t (Looking m)"
  "in_tree t (Adding n) = (cmd_name n \<notin> fst ` modules t \<and> lock n = 1)"
  "runs nm (Running m f) = (m = nm)" "in_tree t Idle" "in_tree t (Stopping m)"
  "in_tree t (Looked m) = (m \<notin> fst ` modules t)" "in_tree t (Running m f) = ((m, Some f) \<in> modules t)"
  "runs nm (at_work m c) = (m = nm \<and> c \<noteq> None)"
  "(m, c) \<in> modules t \<Longrightarrow> in_tree t (at_work m c)"
  by (auto simp: runs_def in_tree_def at_work_def split: option.split)

lemma length_filter_update:
  "i < length ps \<Longrightarrow> int (length (filter P (ps[i := p]))) =
     int (length (filter P ps)) - (if P (ps ! i) then 1 else 0) + (if P p then 1 else 0)"
proof -
  assume i: "i < length ps"
  then have "ps = take i ps @ ps ! i # drop (Suc i) ps" by (rule id_take_nth_drop)
  then have "length (filter P ps) = length (filter P (take i ps @ ps ! i # drop (Suc i) ps))" by (rule arg_cong)
  then show ?thesis using i by (simp add: upd_conv_take_nth_drop)
qed

lemma users_update:
  "i < length ps \<Longrightarrow> users nm (ps[i := p]) =
     users nm ps - (if runs nm (ps ! i) then 1 else 0) + (if runs nm p then 1 else 0)"
  by (simp add: users_def length_filter_update)

lemma all_update: "list_all P ps \<Longrightarrow> P p \<Longrightarrow> list_all P (ps[i := p])"
  by (auto simp: list_all_iff dest!: subsetD [OF set_update_subset_insert])

lemma module_names: "fst ` modules t = cmd_name ` set (inorder t)"
  by (simp add: modules_def image_image)

lemma module_found: "cmds_ok t \<Longrightarrow> find_cmd nm t = Some n \<Longrightarrow> (nm, cmd n) \<in> modules t"
  by (auto simp: modules_def dest: find_cmd_Some)

lemma modules_without:
  "set (inorder t') = {c \<in> set (inorder t). cmd_name c \<noteq> nm} \<Longrightarrow> modules t' = {c \<in> modules t. fst c \<noteq> nm}"
  unfolding modules_def by force

lemma no_users: "list_all (in_tree t) ps \<Longrightarrow> nm \<notin> fst ` modules t \<Longrightarrow> users nm ps = 0"
  by (force simp: users_def list_all_iff filter_empty_conv runs_def split: phase.splits)

lemma shifted_modules: "modules (shift_lock nm d t) = modules t"
  unfolding modules_def shift_lock_inorder set_map image_image by (rule image_cong) auto

lemma in_shifted: "in_tree (shift_lock nm d t) = in_tree t"
  by (auto simp: in_tree_def fun_eq_iff shifted_modules split: phase.split)

lemma locks_shifted:
  "locks_cover u (shift_lock nm d t) \<longleftrightarrow> locks_cover (\<lambda>m. u m - (if m = nm then d else 0)) t"
  unfolding locks_cover_def shift_lock_inorder set_map ball_simps(9) by (rule ball_cong) auto

lemma locks_cover_mono: "locks_cover u t \<Longrightarrow> (\<And>m. v m \<le> u m) \<Longrightarrow> locks_cover v t"
  unfolding locks_cover_def by (meson order_trans)

lemma locks_ok_step:
  assumes "dm_next W s s'" "locks_ok s" "one_loader s'"
  shows "locks_ok s'"
  using assms
proof cases
  case (enter i ps t nm)
  then show ?thesis using assms(2,3)
    by (auto simp: locks_ok_def users_update all_update)
next
  case (found i ps nm t n)
  then show ?thesis using assms(2,3) module_found [of t nm n]
    by (auto simp: locks_ok_def shift_lock_ok in_shifted locks_shifted users_update all_update elim: locks_cover_mono)
next
  case (missed i ps nm t)
  then show ?thesis using assms(2,3)
    by (auto simp: locks_ok_def users_update all_update find_cmd_None module_names)
next
  case (refused i ps nm errs errs' t)
  then show ?thesis using assms(2,3)
    by (auto simp: locks_ok_def users_update all_update)
next
  case (loaded i ps nm errs node errs' t)
  have "nm \<notin> fst ` modules t" using assms(2) loaded by (metis (no_types, lifting) dm_state.select_convs list_all_length locks_ok_def phase_simps(11))
  moreover have "cmd_name node = nm" "lock node = 1"
    using loaded(5) by (auto simp: load_cmd_def new_node_def Let_def bind_eq_Some_conv split: option.splits if_splits)
  ultimately show ?thesis using assms(2,3) loaded
    by (auto simp: locks_ok_def users_update all_update)
next
  case (added i ps node t n t')
  let ?nm = "cmd_name node"
  have ok: "cmds_ok t" "list_all (in_tree t) ps" "locks_cover (\<lambda>nm. users nm ps) t" "one_loader s"
    using assms(2) added by (auto simp: locks_ok_def)
  have "in_tree t (Adding node)" using ok(2) added(3,4) by (metis list_all_length)
  then have new: "?nm \<notin> fst ` modules t" and node: "lock node = 1" by simp_all
  then have n: "n = node" "cmds_ok t'" "set (inorder t') = insert node (set (inorder t))"
    using add_cmd_new [OF ok(1) _ added(5)] new by (auto simp: module_names)
  have m: "modules t' = insert (?nm, cmd node) (modules t)" by (simp add: modules_def n)
  have "list_all (in_tree t') (ps[i := Idle])"
    unfolding list_all_length
  proof (intro allI impI)
    fix j assume j: "j < length (ps[i := Idle])"
    show "in_tree t' (ps[i := Idle] ! j)"
    proof (cases "i = j")
      case False
      have "looked (ps ! i) = Some ?nm" using added(4) by (simp add: looked_def)
      then have "looked (ps ! j) \<noteq> Some ?nm" "in_tree t (ps ! j)"
        using False j ok(2) added(3) ok(4) [unfolded added(1) one_loader_def Let_def, rule_format, of i j]
        by (auto simp: list_all_length)
      then show ?thesis using False by (auto simp: in_tree_def m looked_def split: phase.splits)
    qed (use j in simp)
  qed
  then have "list_all (in_tree t') (ps[i := at_work ?nm (cmd n)])"
    using all_update [of "in_tree t'" "ps[i := Idle]" "at_work ?nm (cmd n)" i] by (simp add: m n)
  moreover have "locks_cover (\<lambda>m. users m ps + (if m = ?nm then 1 else 0)) t'"
    using ok(3) no_users [OF ok(2) new] new by (auto simp: locks_cover_def n node module_names dest: image_eqI [OF sym])
  ultimately show ?thesis using added assms(3) n(2)
    by (auto simp: locks_ok_def users_update elim!: locks_cover_mono)
next
  case (left i ps nm f t)
  then show ?thesis using assms(2,3)
    by (auto simp: locks_ok_def shift_lock_ok in_shifted locks_shifted users_update all_update elim: locks_cover_mono)
next
  case (stop i ps t nm n)
  then show ?thesis using assms(2,3)
    by (auto simp: locks_ok_def users_update all_update)
next
  case (unloaded i ps nm t n called t')
  have ok: "cmds_ok t" "list_all (in_tree t) ps" "locks_cover (\<lambda>nm. users nm ps) t"
    using assms(2) unloaded by (auto simp: locks_ok_def)
  have n: "n \<in> set (inorder t)" "cmd_name n = nm" using find_cmd_Some [OF ok(1) unloaded(5)] by auto
  note t' = drop_cmd_ok [OF ok(1) n(1) unloaded(7)]
  have "users (cmd_name n) ps \<le> lock n" using ok(3) n(1) by (simp add: locks_cover_def)
  then have none: "users nm ps \<le> 0" using unloaded(6) n(2) by simp
  then have idle: "\<not> runs nm p" if "p \<in> set ps" for p
    using that by (auto simp: users_def filter_empty_conv)
  have S: "set (inorder t') = {c \<in> set (inorder t). cmd_name c \<noteq> nm}" using t' n(2) by simp
  have m: "modules t' = {c \<in> modules t. fst c \<noteq> nm}"
    by (rule modules_without [OF S])
  have "in_tree t' p" if "p \<in> set ps" for p
  proof -
    have "in_tree t p" using ok(2) that by (simp add: list_all_iff)
    then show ?thesis using idle [OF that] by (cases p) (auto simp: m)
  qed
  then have "list_all (in_tree t') ps" by (simp add: list_all_iff)
  moreover have "locks_cover (\<lambda>nm. users nm ps) t'" using ok(3) t' by (auto simp: locks_cover_def)
  ultimately show ?thesis using unloaded assms(3) t'
    by (auto simp: locks_ok_def users_update all_update)
qed

lemma locks_ok_run: "one_loader_run W s \<Longrightarrow> locks_ok s"
proof (induction rule: one_loader_run.induct)
  case (start n)
  show ?case
    by (auto simp: locks_ok_def locks_cover_def list_all_length one_loader_def looked_def)
next
  case (go s s')
  then show ?case using locks_ok_step by blast
qed

text \<open>C32: In every run in which no two threads are about to load the same module, and as far as it goes
  without a data race - an insertion, which the code makes under the read lock, that overlaps another
  insertion or a search - the module of every function that a thread executes is in the tree, with a
  lock that is at least the number of threads in it: the step that unloads a module can not be taken
  for it.\<close>

theorem no_unload_in_use:
  assumes "one_loader_run W s" "i < length (threads s)" "threads s ! i = Running nm f"
  shows "\<exists>n. find_cmd nm (cmd_tree s) = Some n \<and> cmd n = Some f \<and> 0 < lock n \<and>
    users nm (threads s) \<le> lock n"
proof -
  have ok: "cmds_ok (cmd_tree s)" "in_tree (cmd_tree s) (Running nm f)"
      "locks_cover (\<lambda>nm. users nm (threads s)) (cmd_tree s)"
    using locks_ok_run [OF assms(1)] assms(2,3) unfolding locks_ok_def by (metis list_all_length)+
  then obtain n where n: "n \<in> set (inorder (cmd_tree s))" "cmd_name n = nm" "cmd n = Some f"
    by (auto simp: modules_def)
  have "find_cmd nm (cmd_tree s) = Some n"
    using find_sorted [of cmd_name _ n] ok(1) n by (simp add: find_cmd_find) (simp add: cmds_ok_def)
  moreover have "users nm (threads s) \<le> lock n" using ok(3) n by (auto simp: locks_cover_def)
  moreover have "0 < users nm (threads s)"
    using assms(2,3) by (simp add: users_def) (metis filter_empty_conv nth_mem phase_simps(8))
  ultimately show ?thesis using n(3) by auto
qed


text \<open>The race needs no more than two threads that load different modules: nothing keeps the second one
  from inserting its module while the first one does.\<close>

theorem insertions_race:
  assumes "load_cmd W nm errs = Some (Some a, errs')" "load_cmd W nm2 errs = Some (Some b, errs2)"
  shows "(dm_next W)\<^sup>*\<^sup>* \<lparr>cmd_tree = NULL, threads = [Idle, Idle]\<rparr> \<lparr>cmd_tree = NULL, threads = [Adding a, Looked nm2]\<rparr>"
    and "dm_step W \<lparr>cmd_tree = NULL, threads = [Adding a, Looked nm2]\<rparr> None"
proof -
  note defs = writing_def reading_def inserting_def in_the_tree_def
  let ?go = "\<lambda>ps ps'. dm_next W \<lparr>cmd_tree = NULL, threads = ps\<rparr> \<lparr>cmd_tree = NULL, threads = ps'\<rparr>"
  have "?go [Idle, Idle] [Looking nm, Idle]"
    using enter [of 0 "[Idle, Idle]" W NULL nm] by (simp add: defs)
  moreover have "?go [Looking nm, Idle] [Looking nm, Looking nm2]"
    using enter [of 1 "[Looking nm, Idle]" W NULL nm2] by (simp add: defs)
  moreover have "?go [Looking nm, Looking nm2] [Looked nm, Looking nm2]"
    using missed [of 0 "[Looking nm, Looking nm2]" nm NULL W] by (simp add: find_cmd_NULL)
  moreover have "?go [Looked nm, Looking nm2] [Looked nm, Looked nm2]"
    using missed [of 1 "[Looked nm, Looking nm2]" nm2 NULL W] by (simp add: find_cmd_NULL)
  moreover have "?go [Looked nm, Looked nm2] [Adding a, Looked nm2]"
    using loaded [of 0 "[Looked nm, Looked nm2]" nm W, OF _ _ assms(1)] by (simp add: defs)
  ultimately show "(dm_next W)\<^sup>*\<^sup>* \<lparr>cmd_tree = NULL, threads = [Idle, Idle]\<rparr> \<lparr>cmd_tree = NULL, threads = [Adding a, Looked nm2]\<rparr>"
    by (meson converse_rtranclp_into_rtranclp rtranclp.rtrancl_refl)
  show "dm_step W \<lparr>cmd_tree = NULL, threads = [Adding a, Looked nm2]\<rparr> None"
    using insert_race [of 1 "[Adding a, Looked nm2]" nm2 W, OF _ _ assms(2)] by (simp add: defs)
qed

text \<open>The steps are those of \<open>dm_app\<close>: what a thread does under the read lock when no other one is in the
  tree.\<close>

theorem dm_enter_steps:
  assumes "dm_enter W nm errs t = Some (c, errs', t')" "i < length ps" "ps ! i = Idle"
    and "\<not> writing ps" "\<not> in_the_tree ps"
  shows "(dm_next W)\<^sup>*\<^sup>* \<lparr>cmd_tree = t, threads = ps\<rparr> \<lparr>cmd_tree = t', threads = ps[i := at_work nm c]\<rparr>"
proof -
  have ins: "\<not> inserting ps" using assms(5) by (auto simp: inserting_def in_the_tree_def list_ex_iff split: phase.splits)
  note e = enter [OF assms(2-4) ins, of W t nm]
  show ?thesis
  proof (cases "find_cmd nm t")
    case (Some n)
    then show ?thesis using e found [of i "ps[i := Looking nm]" nm t n W] assms(1,2)
      by (auto simp: dm_enter_def intro: converse_rtranclp_into_rtranclp)
  next
    case None
    have m: "dm_next W \<lparr>cmd_tree = t, threads = ps[i := Looking nm]\<rparr> \<lparr>cmd_tree = t, threads = ps[i := Looked nm]\<rparr>"
      using missed [of i "ps[i := Looking nm]" nm t W] None assms(2) by simp
    have "\<not> in_the_tree (ps[i := Looked nm])"
      using assms(5) set_update_subset_insert [of ps i "Looked nm"] by (auto simp: in_the_tree_def list_ex_iff)
    obtain node e where l: "load_cmd W nm errs = Some (node, e)"
        "(case node of None \<Rightarrow> Some (None, e, t)
          | Some b \<Rightarrow> do { (n, t) \<leftarrow> add_cmd t b; Some (cmd n, e, t) }) = Some (c, errs', t')"
      using assms(1) None by (auto simp: dm_enter_def bind_eq_Some_conv)
    have "(dm_next W)\<^sup>*\<^sup>* \<lparr>cmd_tree = t, threads = ps[i := Looked nm]\<rparr> \<lparr>cmd_tree = t', threads = ps[i := at_work nm c]\<rparr>"
    proof (cases node)
      case None
      then show ?thesis using refused [of i "ps[i := Looked nm]" nm W errs e t] l assms(2) by (auto simp: at_work_def)
    next
      case (Some b)
      then obtain n where n: "add_cmd t b = Some (n, t')" "c = cmd n" using l(2) by (auto simp: bind_eq_Some_conv)
      have "cmd_name b = nm"
        using l(1) Some by (auto simp: load_cmd_def new_node_def Let_def bind_eq_Some_conv split: option.splits if_splits)
      then show ?thesis
        using loaded [of i "ps[i := Looked nm]" nm W errs b e t] added [of i "ps[i := Adding b]" b t n t' W]
          \<open>\<not> in_the_tree (ps[i := Looked nm])\<close> l(1) Some assms(2) n
        by (auto intro: converse_rtranclp_into_rtranclp)
    qed
    with e m show ?thesis by (meson converse_rtranclp_into_rtranclp)
  qed
qed

text \<open>A library without the function goes into the tree with the lock 1, which no call lowers: a
  replacement of the module never ends.\<close>

theorem module_without_function_stays:
  assumes "dm_enter W nm errs NULL = Some (None, errs', t)" "t \<noteq> NULL"
    and "dm_files W nm es = Some (0, es', run)" "length nm < 128"
  shows "dmmgr_app W nm es t = None"
proof -
  obtain node e where l: "load_cmd W nm errs = Some (Some node, e)" "t = Node 0 NULL node NULL 0"
    using assms(1,2) by (auto simp: dm_enter_def find_cmd_NULL bind_eq_Some_conv add_cmd_NULL split: option.splits)
  have n: "cmd_name node = nm" "lock node = 1"
    using l(1) by (auto simp: load_cmd_def new_node_def Let_def bind_eq_Some_conv split: option.splits if_splits)
  have "find_cmd nm t = Some node" unfolding l(2) n(1) [symmetric] by (rule find_cmd_single)
  then show ?thesis using assms(3,4) n by (simp add: dmmgr_app_def)
qed

text \<open>A module that asks for the thread to be left to it, by the pointer \<open>-1\<close>, makes \<open>dmapp\<close> release
  that pointer.\<close>

theorem escape_is_undefined:
  assumes "data h = Some s" "parse W (c_text s) = Some json" "dm_app W json [] t = Some (Escape, errs, t')"
  shows "dmapp W P ntohl h l t = None"
  using assms by (simp add: dmapp_def)

section \<open>Witnesses\<close>

definition small_loader :: "(nat, nat) loader" where
  "small_loader = \<lparr>menv = key_env, mlib = strlib.truncate json_lib, mtext = \<lambda>_. [], parse = \<lambda>_. None,
     dlopen = \<lambda>_. Some 0, dlsym = \<lambda>_ _. Some 0, dlclose = \<lambda>_ _. 0, dlerror = [], system = \<lambda>_ _. 0,
     errno = 0, strerror = \<lambda>_. [], call_cmd = \<lambda>_ _ errs. (Result None, errs)\<rparr>"

definition small_node :: "(nat, nat) cmd_node" where
  "small_node = \<lparr>cmd_name = [97], handle = Some 0, cmd = Some 0, destruct = Some 0, lock = 1\<rparr>"

lemma small_load: "load_cmd small_loader [97] [] = Some (Some small_node, [])"
  by code_simp

lemma small_add: "add_cmd NULL small_node = Some (small_node, Node 0 NULL small_node NULL 0)"
  by code_simp

lemma small_run: "one_loader_run small_loader \<lparr>cmd_tree = Node 0 NULL small_node NULL 0, threads = [Running [97] 0]\<rparr>"
proof -
  note defs = one_loader_def writing_def inserting_def in_the_tree_def
  have "one_loader_run small_loader \<lparr>cmd_tree = NULL, threads = [Looking [97]]\<rparr>"
    using go [OF start [of small_loader 1], of "\<lparr>cmd_tree = NULL, threads = [Looking [97]]\<rparr>"]
      enter [of 0 "[Idle]" small_loader NULL "[97]"] by (simp add: defs)
  then have "one_loader_run small_loader \<lparr>cmd_tree = NULL, threads = [Looked [97]]\<rparr>"
    by (rule go) (use missed [of 0 "[Looking [97]]" "[97]" NULL small_loader] in \<open>simp_all add: defs find_cmd_NULL\<close>)
  then have "one_loader_run small_loader \<lparr>cmd_tree = NULL, threads = [Adding small_node]\<rparr>"
    by (rule go) (use loaded [of 0 "[Looked [97]]" "[97]" small_loader, OF _ _ small_load] in \<open>simp_all add: defs\<close>)
  then show ?thesis
    by (rule go) (use added [of 0 "[Adding small_node]" small_node NULL _ _ small_loader, OF _ _ small_add]
      in \<open>simp_all add: defs at_work_def small_node_def\<close>)
qed

theorem no_unload_in_use_witness:
  "\<exists>n. find_cmd [97] (Node 0 NULL small_node NULL 0) = Some n \<and> cmd n = Some 0 \<and> 0 < lock n \<and>
    users [97] [Running [97] 0 :: (nat, nat) phase] \<le> lock n"
  using no_unload_in_use [OF small_run, of 0 "[97]" 0] by simp


end
