(* ===== verification/Show_Log.thy ===== *)
theory Show_Log
  imports Key_File Pack_Round_Trip BB_Tree_Del
begin

text \<open>The log: \<open>src/conf/showlog.c\<close>.  The name of the file goes round by the day and by segments of
  the day; a tree keeps the texts that mark the lines of each thread.\<close>

section \<open>Segments of a day\<close>

text \<open>\<open>sscanf\<close> of numbers with one character between them: the numbers read.\<close>

definition scan_next :: "bytes \<Rightarrow> (int \<times> bytes) option" where
  "scan_next s =
     (let (neg, p) = sign_of (dropWhile is_space s);
          v = digits_val (takeWhile is_digit p)
      in if takeWhile is_digit p = [] then None else Some (if neg then - v else v, dropWhile is_digit p))"

fun scan_numbers :: "bytes \<Rightarrow> bytes \<Rightarrow> int list" where
  "scan_numbers [] s = (case scan_next s of None \<Rightarrow> [] | Some (v, r) \<Rightarrow> [v])"
| "scan_numbers (c # cs) s =
     (case scan_next s of
        None \<Rightarrow> []
      | Some (v, r) \<Rightarrow> v # (if take 1 r = [c] then scan_numbers cs (drop 1 r) else []))"

text \<open>\<open>%02d\<close> of a number that is not negative.\<close>

definition two :: "int \<Rightarrow> bytes" where
  "two v = (let d = decimal v in if length d < 2 then 0x30 # d else d)"

text \<open>The name of the segment of \<open>now\<close>, in minutes, of the n segments between two hours; none for a
  null pointer.\<close>

definition psfx :: "int \<Rightarrow> int \<Rightarrow> int \<Rightarrow> int \<Rightarrow> bytes option" where
  "psfx bh eh n now =
     (if n < 1 then None
      else
        let bm = bh * 60; em = eh * 60; len = em - bm;
            n = (if n > len then len else n)
        in if len = 0 \<or> now < bm \<or> now \<ge> em then None
           else
             let j = bm + (now - bm) * n div len * len div n
             in Some (two (j div 60) @ (if (eh - bh) mod n \<noteq> 0 then two (j mod 60) else [])))"

text \<open>\<open>getsfx\<close> returns a constant, or what \<open>psfx\<close> returns: a null pointer or the address of the array
  \<open>buf\<close>, which is local to \<open>getsfx\<close>.\<close>

datatype suffix = Log | Segment bytes | No_Suffix

definition segment :: "int \<Rightarrow> int \<Rightarrow> int \<Rightarrow> int \<Rightarrow> suffix" where
  "segment bh eh n now = (case psfx bh eh n now of None \<Rightarrow> No_Suffix | Some s \<Rightarrow> Segment s)"

definition sfx_two :: "int \<Rightarrow> int \<Rightarrow> int \<Rightarrow> suffix" where
  "sfx_two bh m now =
     (let bh = min bh 23 in if now div 60 < bh then segment 0 bh 1 now else segment bh 24 m now)"

definition sfx_four :: "int \<Rightarrow> int \<Rightarrow> int \<Rightarrow> int \<Rightarrow> int \<Rightarrow> suffix option" where
  "sfx_four bh eh m n now =
     (let eh = min eh 24; bh = min bh eh; n1 = 24 - eh in
      if bh = 0 then None
      else
        let n2 = n * n1 div bh; n2 = (if eh < 24 \<and> n2 < 1 then 1 else n2);
            n1 = max 1 (n - n2); h = now div 60
        in Some (if h < bh then segment 0 bh n1 now
                 else if h < eh \<or> eh \<ge> 24 then segment bh eh m now
                 else segment eh 24 n2 now))"

definition sfx_five :: "int \<Rightarrow> int \<Rightarrow> int \<Rightarrow> int \<Rightarrow> suffix" where
  "sfx_five bh eh m now =
     (let eh = min eh 24; bh = min bh (eh - 1); h = now div 60 in
      if h < bh then segment 0 bh 1 now
      else if h < eh \<or> eh = 24 then segment bh eh m now
      else segment eh 24 1 now)"

text \<open>Settings with numbers that are negative or beyond 1000 are left out (\<open>None\<close>).\<close>

definition getsfx :: "bytes option \<Rightarrow> int \<Rightarrow> suffix option" where
  "getsfx LOGSEG now =
     (case not_empty LOGSEG of
        None \<Rightarrow> Some Log
      | Some p \<Rightarrow>
          let vs = scan_numbers (chars ''?:'') p; ws = scan_numbers (chars ''-?:'') p in
          if \<not> list_all (\<lambda>v. 0 \<le> v \<and> v \<le> 1000) (vs @ ws) then None
          else (case vs of
              [] \<Rightarrow> Some Log
            | [b] \<Rightarrow>
                (case ws of
                   [b, e] \<Rightarrow> Some (sfx_five b e 1 now)
                 | [b, e, m] \<Rightarrow> Some (sfx_five b e m now)
                 | [b, e, m, n] \<Rightarrow> sfx_four b e m n now
                 | _ \<Rightarrow> Some (segment 0 24 b now))
            | [b, m] \<Rightarrow> Some (sfx_two b m now)
            | b # m # n # _ \<Rightarrow> sfx_four b 24 m n now))"

section \<open>Marks of threads\<close>

record mt_showid =
  tid :: "64 word"
  showid :: "bytes option"

definition mts_cmp :: "mt_showid \<Rightarrow> mt_showid \<Rightarrow> int" where
  "mts_cmp m1 m2 = (if tid m1 = tid m2 then 0 else sint (ucast (tid m2 - tid m1) :: 32 word))"

definition mthr_dup :: "mt_showid \<Rightarrow> mt_showid \<Rightarrow> mt_showid" where
  "mthr_dup m1 m = m1\<lparr>showid := showid m\<rparr>"

text \<open>The static variables of the file and \<open>Showid\<close>; what was opened, with the mode, and written.\<close>

record log_state =
  LOGFILE :: bytes
  Showid :: "bytes option"
  thread_showid :: "mt_showid T_Tree"
  mthr_flg :: bool
  level :: int
  opened :: "(bytes \<times> bytes) list"
  written :: "bytes list"

definition mthr_showid_add :: "64 word \<Rightarrow> bytes option \<Rightarrow> log_state \<Rightarrow> log_state option" where
  "mthr_showid_add t mark st =
     do { tree \<leftarrow> BB_Tree_Add True mts_cmp (Some mthr_dup) (thread_showid st) \<lparr>tid = t, showid = mark\<rparr>;
          Some (st\<lparr>thread_showid := tree, mthr_flg := True\<rparr>) }"

definition mthr_showid_del :: "64 word \<Rightarrow> log_state \<Rightarrow> (int \<times> log_state) option" where
  "mthr_showid_del t st =
     do { (tree, i) \<leftarrow> BB_Tree_Del mts_cmp None (thread_showid st) (Some \<lparr>tid = t, showid = None\<rparr>) (Some 0);
          Some (the i, st\<lparr>thread_showid := tree, mthr_flg := (if tree = NULL then False else mthr_flg st)\<rparr>) }"

definition setShowLevel :: "int \<Rightarrow> log_state \<Rightarrow> int \<times> log_state" where
  "setShowLevel new_level st = (level st, st\<lparr>level := new_level\<rparr>)"

text \<open>The mark of the lines of a thread.\<close>

definition mark_of :: "64 word \<Rightarrow> log_state \<Rightarrow> bytes option" where
  "mark_of t st =
     (if mthr_flg st
      then (case BB_Tree_Find mts_cmp (thread_showid st) \<lparr>tid = t, showid = None\<rparr> of
              NULL \<Rightarrow> Showid st | Node _ _ c _ _ \<Rightarrow> showid c)
      else Showid st)"

section \<open>Lines\<close>

text \<open>The system: the environment, the local time, the time of the last change of a file, whether it
  can be opened, the thread, and what \<open>vfprintf\<close> writes for a format.\<close>

record log_world =
  lenv :: envlib
  today :: int
  timezone :: int
  tm_mon :: int
  tm_mday :: int
  tm_wday :: int
  tm_hour :: int
  tm_min :: int
  tm_sec :: int
  st_ctime :: "bytes \<Rightarrow> int option"
  freopen :: "bytes \<Rightarrow> bool"
  self :: "64 word"
  vformat :: "bytes \<Rightarrow> bytes"

definition log_name :: "log_world \<Rightarrow> bytes \<Rightarrow> bytes option" where
  "log_name W cp =
     do { sfx \<leftarrow> getsfx (getenv (lenv W) (chars ''LOGSEG'')) (tm_hour W * 60 + tm_min W);
          sfx \<leftarrow> (case sfx of Log \<Rightarrow> Some (chars ''log'') | _ \<Rightarrow> None);
          let day = (case getenv (lenv W) (chars ''LOGDAY'') of
                Some (d # _) \<Rightarrow> if d = 0x44 \<or> d = 0x64 then two (tm_mday W) else decimal (tm_wday W)
              | _ \<Rightarrow> decimal (tm_wday W));
              fn = cp @ day @ chars ''.'' @ sfx
          in if length fn < 512 then Some fn else None }"

text \<open>A file that was last changed on another day is begun anew.\<close>

definition setlogfile :: "log_world \<Rightarrow> log_state \<Rightarrow> (int \<times> log_state) option" where
  "setlogfile W st =
     (case not_empty (getenv (lenv W) (chars ''LOGFILE'')) of
        None \<Rightarrow> Some (0, st)
      | Some cp \<Rightarrow> do {
          fn \<leftarrow> log_name W cp;
          Some
            (if LOGFILE st = [] \<or> LOGFILE st \<noteq> fn
             then
               let mode = (case st_ctime W fn of
                       None \<Rightarrow> chars ''w''
                     | Some c \<Rightarrow> if (today W - timezone W) sdiv 86400 - (c - timezone W) sdiv 86400 > 0
                                 then chars ''w'' else chars ''a'');
                   st = st\<lparr>LOGFILE := fn, opened := opened st @ [(fn, mode)]\<rparr>
               in if freopen W fn then (1, st)
                  else (0, st\<lparr>opened := opened st @ [(chars ''/dev/null'', chars ''w'')]\<rparr>)
             else (0, st)) })"

definition log_level :: "log_world \<Rightarrow> int \<Rightarrow> int" where
  "log_level W v =
     (if v < 0
      then (case getenv (lenv W) (chars ''LOGLEVEL'') of
              Some (c # s) \<Rightarrow> if is_digit c then atoi (c # s) else 2 | _ \<Rightarrow> 2)
      else v)"

text \<open>The format of a line with a mark; \<open>ufmt\<close> has room for the mark of the process, not for that of the
  thread, and is overrun (\<open>None\<close>) by a longer one.\<close>

definition line_text :: "log_world \<Rightarrow> bytes option \<Rightarrow> int \<Rightarrow> bytes \<Rightarrow> bytes" where
  "line_text W mark debug_level fmt =
     (let ufmt = decimal debug_level @ chars '' '' @ (case mark of None \<Rightarrow> [] | Some s \<Rightarrow> s) @ chars '' '' @
            two (tm_mon W + 1) @ chars ''/'' @ two (tm_mday W) @ chars '' '' @
            two (tm_hour W) @ chars '':'' @ two (tm_min W) @ [0x27] @ two (tm_sec W) @ chars '' '' @ fmt
      in if last fmt \<noteq> 0x0A then ufmt @ [0x0A] else ufmt)"

definition line_room :: "log_state \<Rightarrow> bytes \<Rightarrow> nat" where
  "line_room st fmt = length fmt + (case Showid st of Some s \<Rightarrow> length s | None \<Rightarrow> 1) + 50"

definition line_format :: "log_world \<Rightarrow> log_state \<Rightarrow> int \<Rightarrow> bytes \<Rightarrow> bytes option" where
  "line_format W st debug_level fmt =
     (let ufmt = line_text W (mark_of (self W) st) debug_level fmt
      in if fmt = [] \<or> line_room st fmt \<le> length ufmt then None else Some ufmt)"

definition ShowLog :: "log_world \<Rightarrow> int \<Rightarrow> bytes \<Rightarrow> log_state \<Rightarrow> (int \<times> log_state) option" where
  "ShowLog W debug_level fmt st =
     (if debug_level = -1
      then Some (0, st\<lparr>LOGFILE := [],
                       thread_showid := (if mthr_flg st then fst (BB_Tree_Free (thread_showid st) None ()) else thread_showid st),
                       mthr_flg := False\<rparr>)
      else
        let st = st\<lparr>level := log_level W (level st)\<rparr> in
        if level st < debug_level then Some (0, st)
        else do {
          (i, st) \<leftarrow> setlogfile W st;
          ufmt \<leftarrow> line_format W st debug_level fmt;
          Some (1, st\<lparr>written := written st @ [vformat W ufmt]\<rparr>) })"

section \<open>Segments have names of their own\<close>

lemma two_list: "list_all (\<lambda>v. digits_val (two v) = v \<and> length (two v) = 2) [0..99]"
  by code_simp

lemma two_value: "0 \<le> v \<Longrightarrow> v < 100 \<Longrightarrow> digits_val (two v) = v \<and> length (two v) = 2"
  using two_list by (simp add: list_all_iff)

lemma two_inject: "0 \<le> v \<Longrightarrow> v < 100 \<Longrightarrow> 0 \<le> w \<Longrightarrow> w < 100 \<Longrightarrow> two v = two w \<longleftrightarrow> v = w"
  by (metis two_value)

lemma time_text_inject:
  assumes "0 \<le> i" "i < 1440" "0 \<le> j" "j < (1440::int)"
  shows "two (i div 60) @ two (i mod 60) = two (j div 60) @ two (j mod 60) \<longleftrightarrow> i = j"
proof -
  have "two (i div 60) = two (j div 60) \<longleftrightarrow> i div 60 = j div 60" "two (i mod 60) = two (j mod 60) \<longleftrightarrow> i mod 60 = j mod 60"
    using assms by (intro two_inject; simp)+
  moreover have "length (two (i div 60)) = 2" "length (two (j div 60)) = 2"
    using assms two_value [of "i div 60"] two_value [of "j div 60"] by auto
  ultimately show ?thesis by (auto simp: append_eq_append_conv) (metis div_mult_mod_eq)
qed

text \<open>The start of the k-th of n parts of a length.\<close>

lemma part_strict:
  assumes "0 < n" "n \<le> len" "k < (l::int)"
  shows "k * len div n < l * len div n"
proof -
  have "k * len + n \<le> (k + 1) * len" using assms(2) by (simp add: algebra_simps)
  also have "\<dots> \<le> l * len" using assms by (intro mult_right_mono) auto
  finally have "(k * len + n) div n \<le> l * len div n" using assms(1) by (simp add: zdiv_mono1)
  then show ?thesis using assms(1) by (simp add: div_add_self2)
qed

lemma part_inject: "0 < n \<Longrightarrow> n \<le> len \<Longrightarrow> k * len div n = l * len div n \<longleftrightarrow> k = (l::int)"
  by (metis part_strict linorder_neq_iff)

lemma part_below:
  assumes "0 \<le> t" "t < len" "0 < (n::int)" "n \<le> len"
  shows "0 \<le> t * n div len" "t * n div len < n" "0 \<le> t * n div len * len div n" "t * n div len * len div n \<le> t"
proof -
  show "0 \<le> t * n div len" using assms by (simp add: pos_imp_zdiv_nonneg_iff)
  have le: "t * n div len * len \<le> t * n"
    using pos_mod_sign [of len "t * n"] minus_mod_eq_div_mult [of "t * n" len] assms(1,2) by linarith
  have "t * n < len * n" using assms by simp
  then have "t * n div len * len < n * len" using le by (simp add: mult.commute)
  then show "t * n div len < n" using assms(1,2) by simp
  show "0 \<le> t * n div len * len div n" using assms by (simp add: pos_imp_zdiv_nonneg_iff)
  from le have "t * n div len * len div n \<le> t * n div n" using assms(3) by (rule zdiv_mono1)
  then show "t * n div len * len div n \<le> t" using assms(3) by simp
qed

text \<open>Within the hours that a setting divides, \<open>psfx\<close> gives a name to every minute, and the same name
  to two minutes exactly when they are in the same one of the n segments; the name of at most four
  characters fits the array for it.\<close>

theorem psfx_names_segments:
  assumes "0 \<le> bh" "bh < eh" "eh \<le> 24" "1 \<le> n" "n \<le> (eh - bh) * 60"
    and "\<forall>t\<in>{now, now'}. bh * 60 \<le> t \<and> t < eh * 60"
  shows "\<exists>s s'. psfx bh eh n now = Some s \<and> psfx bh eh n now' = Some s' \<and> length s \<le> 4 \<and>
    (s = s' \<longleftrightarrow> (now - bh * 60) * n div ((eh - bh) * 60) = (now' - bh * 60) * n div ((eh - bh) * 60))"
proof -
  define len where "len = (eh - bh) * 60"
  define part where "part t = (t - bh * 60) * n div len" for t
  define j where "j t = bh * 60 + part t * len div n" for t
  define sfx where "sfx i = two (i div 60) @ (if (eh - bh) mod n \<noteq> 0 then two (i mod 60) else [])" for i
  have len: "0 < n" "n \<le> len" "eh * 60 - bh * 60 = len" "0 < len" using assms by (auto simp: len_def)
  have eval: "psfx bh eh n t = Some (sfx (j t))" "0 \<le> j t" "j t < 1440" if "t \<in> {now, now'}" for t
  proof -
    have t: "0 \<le> t - bh * 60" "t - bh * 60 < len" using assms(6) that len by auto
    then show "psfx bh eh n t = Some (sfx (j t))"
      using assms(4) len by (simp add: psfx_def Let_def sfx_def j_def part_def)
    show "0 \<le> j t" "j t < 1440" using part_below [OF t len(1,2)] t assms(1,3) len by (auto simp: j_def part_def)
  qed
  have "sfx (j now) = sfx (j now') \<longleftrightarrow> part now = part now'"
  proof (cases "(eh - bh) mod n = 0")
    case True
    then obtain q where q: "eh - bh = n * q" by (auto simp: dvd_def mod_eq_0_iff_dvd)
    have "part t * len div n = part t * q * 60" for t
      using len(1) q by (simp add: len_def mult.assoc mult.left_commute [of _ n])
    then have "j t div 60 = bh + part t * q" for t by (simp add: j_def)
    moreover have "q \<noteq> 0" using q assms(2) by auto
    moreover have "two (j now div 60) = two (j now' div 60) \<longleftrightarrow> j now div 60 = j now' div 60"
      using eval(2,3) [of now] eval(2,3) [of now'] by (intro two_inject) auto
    ultimately show ?thesis using True by (simp add: sfx_def)
  next
    case False
    then show ?thesis using time_text_inject [of "j now" "j now'"] eval part_inject [OF len(1,2)]
      by (simp add: sfx_def j_def)
  qed
  moreover have "length (sfx (j now)) \<le> 4"
    using eval [of now] two_value [of "j now div 60"] two_value [of "j now mod 60"] by (simp add: sfx_def)
  ultimately show ?thesis using eval(1) by (auto simp: part_def len_def)
qed

theorem psfx_names_segments_witness:
  "\<exists>s s'. psfx 8 20 6 600 = Some s \<and> psfx 8 20 6 719 = Some s' \<and> length s \<le> 4 \<and>
    (s = s' \<longleftrightarrow> (600 - 8 * 60) * 6 div ((20 - 8) * 60) = (719 - 8 * 60) * 6 div ((20 - 8) * (60::int)))"
  by (rule psfx_names_segments) auto

section \<open>Marks of threads\<close>

text \<open>Insertion and search only use the comparison with what is in the tree.\<close>

lemma Add_cong: "\<forall>y\<in>set (inorder t). cmp y x = cmp' y x \<Longrightarrow> BB_Tree_Add m cmp u t x = BB_Tree_Add m cmp' u t x"
  by (induction t) (auto simp: Let_def)

lemma Find_cong: "\<forall>y\<in>set (inorder t). cmp y x = cmp' y x \<Longrightarrow> BB_Tree_Find cmp t x = BB_Tree_Find cmp' t x"
  by (induction t) (auto simp: Let_def)

text \<open>The order of the numbers of threads counted from lo.\<close>

definition from_lo :: "64 word \<Rightarrow> mt_showid \<Rightarrow> int" where
  "from_lo lo m = - uint (tid m - lo)"

interpretation near: rec_comparator "\<lambda>a b. from_lo lo a - from_lo lo b" "from_lo lo" for lo
  by unfold_locales auto

text \<open>Numbers of threads less than 2 to the 31 apart.\<close>

definition window :: "64 word \<Rightarrow> 64 word \<Rightarrow> bool" where
  "window lo t \<longleftrightarrow> uint (t - lo) < 2 ^ 31"

lemma mts_cmp_window:
  assumes "window lo (tid a)" "window lo (tid b)"
  shows "mts_cmp a b = from_lo lo a - from_lo lo b"
proof -
  let ?d = "uint (tid b - lo) - uint (tid a - lo)"
  have d: "tid b - tid a = word_of_int ?d"
    by simp
  have "sint (ucast (word_of_int z :: 64 word) :: 32 word) = signed_take_bit 31 (take_bit 64 z)" for z
    by (simp add: unsigned_of_int signed_of_int)
  from this [of ?d] have "sint (ucast (tid b - tid a) :: 32 word) = signed_take_bit 31 (take_bit 64 ?d)"
    unfolding d .
  also have "\<dots> = signed_take_bit 31 ?d" by (simp add: signed_take_bit_take_bit)
  also have "\<dots> = ?d"
  proof (rule signed_take_bit_int_eq_self)
    have "0 \<le> uint (tid a - lo)" "0 \<le> uint (tid b - lo)" by simp_all
    then show "- (2 ^ 31) \<le> ?d" "?d < 2 ^ 31" using assms unfolding window_def by linarith+
  qed
  finally show ?thesis by (auto simp: mts_cmp_def from_lo_def)
qed

lemma find_put_dup:
  assumes "sorted_by f ys" "\<And>y x. f (dup y x) = f y"
  shows "find (\<lambda>y. f y = k) (put f dup x ys) =
    (if f x = k then Some (case find (\<lambda>y. f y = k) ys of None \<Rightarrow> x | Some y \<Rightarrow> dup y x)
     else find (\<lambda>y. f y = k) ys)"
  using assms(1)
proof (induction ys)
  case (Cons y ys)
  have "find (\<lambda>z. f z = f x) ys = None" if "f x < f y"
    using Cons.prems that by (intro find_none) (auto dest: order.strict_trans)
  then show ?case using Cons assms(2) by (auto split: option.split)
qed simp

text \<open>Trees of threads in one window, and the mark such a tree has for a thread.\<close>

definition marks_ok :: "64 word \<Rightarrow> mt_showid T_Tree \<Rightarrow> bool" where
  "marks_ok lo t \<longleftrightarrow> depths_ok t \<and> sorted_by (from_lo lo) (inorder t) \<and> (\<forall>m\<in>set (inorder t). window lo (tid m))"

definition mark_in :: "64 word \<Rightarrow> mt_showid T_Tree \<Rightarrow> bytes option option" where
  "mark_in t tree = map_option showid (find (\<lambda>m. tid m = t) (inorder tree))"

lemma from_lo_eq: "from_lo lo a = from_lo lo b \<longleftrightarrow> tid a = tid b"
  by (auto simp: from_lo_def dest: unsigned_word_eqI)

lemma mark_in_lo:
  "mark_in u tree = map_option showid (find (\<lambda>m. from_lo lo m = from_lo lo \<lparr>tid = u, showid = None\<rparr>) (inorder tree))"
  by (simp add: mark_in_def from_lo_eq)

lemma window_from_lo: "window lo (tid m) \<longleftrightarrow> - (2 ^ 31) < from_lo lo m"
  by (auto simp: window_def from_lo_def)

lemma mark_of_tree:
  assumes "marks_ok lo (thread_showid st)" "window lo t"
  shows "mark_of t st = (if mthr_flg st then case mark_in t (thread_showid st) of None \<Rightarrow> Showid st | Some m \<Rightarrow> m
    else Showid st)"
proof -
  let ?k = "\<lparr>tid = t, showid = None\<rparr>" and ?cmp = "\<lambda>a b. from_lo lo a - from_lo lo b"
  have "BB_Tree_Find mts_cmp (thread_showid st) ?k = BB_Tree_Find ?cmp (thread_showid st) ?k"
    using assms by (intro Find_cong) (auto simp: marks_ok_def mts_cmp_window)
  moreover have "rec_of (BB_Tree_Find ?cmp (thread_showid st) ?k) = find (\<lambda>m. tid m = t) (inorder (thread_showid st))"
    using near.Find_find [of lo "thread_showid st" ?k] assms(1) by (simp add: marks_ok_def from_lo_eq)
  ultimately show ?thesis
    by (cases "BB_Tree_Find ?cmp (thread_showid st) ?k") (auto simp: mark_of_def mark_in_def dest!: sym [of "Some _"])
qed

lemma add_mark:
  assumes "marks_ok lo (thread_showid st)" "window lo t"
  shows "\<exists>st'. mthr_showid_add t m st = Some st' \<and> marks_ok lo (thread_showid st') \<and> mthr_flg st' \<and>
    Showid st' = Showid st \<and> (\<forall>u. mark_in u (thread_showid st') = (if u = t then Some m else mark_in u (thread_showid st)))"
proof -
  let ?k = "\<lparr>tid = t, showid = m\<rparr>" and ?cmp = "\<lambda>a b. from_lo lo a - from_lo lo b"
  let ?t = "thread_showid st"
  have same: "BB_Tree_Add True mts_cmp (Some mthr_dup) ?t ?k = BB_Tree_Add True ?cmp (Some mthr_dup) ?t ?k"
    using assms by (intro Add_cong) (auto simp: marks_ok_def mts_cmp_window)
  obtain t' where t': "BB_Tree_Add True ?cmp (Some mthr_dup) ?t ?k = Some t'" "depths_ok t'"
      "inorder t' = put (from_lo lo) mthr_dup ?k (inorder ?t)"
    using near.Add_inorder [of ?t lo "Some mthr_dup" ?k] assms(1) by (auto simp: marks_ok_def dup_of_def)
  have dup: "\<And>y x. from_lo lo (mthr_dup y x) = from_lo lo y" "\<And>y x. tid (mthr_dup y x) = tid y"
    by (simp_all add: from_lo_def mthr_dup_def)
  have "from_lo lo ` set (inorder t') = insert (from_lo lo ?k) (from_lo lo ` set (inorder ?t))"
    using set_put_keys [of "from_lo lo" mthr_dup ?k "inorder ?t"] dup(1) t'(3) by simp
  then have "from_lo lo x \<in> insert (from_lo lo ?k) (from_lo lo ` set (inorder ?t))" if "x \<in> set (inorder t')" for x
    using that by blast
  then have "marks_ok lo t'"
    using assms t'(2) sorted_put [of "from_lo lo" mthr_dup ?k "inorder ?t"] dup(1) window_from_lo [of lo ?k]
    by (fastforce simp: marks_ok_def t'(3) window_from_lo)
  moreover have "mark_in u t' = (if u = t then Some m else mark_in u ?t)" for u
    using assms(1) unfolding mark_in_lo [of _ _ lo] t'(3) marks_ok_def
    by (subst find_put_dup) (auto simp: dup(1) from_lo_eq mthr_dup_def split: option.split)
  ultimately show ?thesis by (simp add: mthr_showid_add_def same t'(1))
qed

text \<open>A removal only uses the comparison with what is in the tree, too.\<close>

lemma Del_cong:
  "\<forall>y\<in>set (inorder t). cmp y k = cmp' y k \<Longrightarrow> BB_Tree_Del cmp uf t (Some k) (Some m) = BB_Tree_Del cmp' uf t (Some k) (Some m)"
  by (induction t) (auto simp: Let_def)

lemma find_del_key:
  "sorted_by f ys \<Longrightarrow> find (\<lambda>y. f y = k) (del_key f j ys) = (if k = j then None else find (\<lambda>y. f y = k) ys)"
  by (induction ys) (auto simp: sorted_by_simps find_None_iff)

lemma del_mark:
  assumes "marks_ok lo (thread_showid st)" "window lo t"
  shows "\<exists>i st'. mthr_showid_del t st = Some (i, st') \<and> marks_ok lo (thread_showid st') \<and>
    (mthr_flg st' \<longleftrightarrow> mthr_flg st \<and> thread_showid st' \<noteq> NULL) \<and> Showid st' = Showid st \<and> level st' = level st \<and>
    written st' = written st \<and>
    (\<forall>u. mark_in u (thread_showid st') = (if u = t then None else mark_in u (thread_showid st)))"
proof -
  let ?k = "\<lparr>tid = t, showid = None\<rparr>" and ?cmp = "\<lambda>a b. from_lo lo a - from_lo lo b"
  let ?t = "thread_showid st"
  have same: "BB_Tree_Del mts_cmp None ?t (Some ?k) (Some 0) = BB_Tree_Del ?cmp None ?t (Some ?k) (Some 0)"
    using assms by (intro Del_cong) (auto simp: marks_ok_def mts_cmp_window)
  obtain t' n where t': "BB_Tree_Del ?cmp None ?t (Some ?k) (Some 0) = Some (t', Some n)" "depths_ok t'"
      "if del_done (from_lo lo) (from_lo lo ?k) None (inorder ?t)
       then inorder t' = del_key (from_lo lo) (from_lo lo ?k) (inorder ?t) else t' = ?t"
    using near.Del_ok [of ?t lo None ?k 0] assms(1) by (auto simp: marks_ok_def split: if_splits)
  have srt: "sorted_by (from_lo lo) (inorder ?t)" using assms(1) by (simp add: marks_ok_def)
  have "marks_ok lo t' \<and> (\<forall>u. mark_in u t' = (if u = t then None else mark_in u ?t))"
  proof (cases "del_done (from_lo lo) (from_lo lo ?k) None (inorder ?t)")
    case True
    then have e: "inorder t' = del_key (from_lo lo) (from_lo lo ?k) (inorder ?t)" using t'(3) by simp
    have "marks_ok lo t'"
      using assms(1) t'(2) sorted_del_key [OF srt, of "from_lo lo ?k"] set_del_key_subset [of "from_lo lo" "from_lo lo ?k"]
      by (auto simp: marks_ok_def e)
    then show ?thesis
      unfolding mark_in_lo [of _ _ lo] e find_del_key [OF srt] by (simp add: from_lo_eq)
  next
    case False
    then have "t' = ?t" using t'(3) by simp
    moreover have "mark_in t ?t = None"
      using False unfolding mark_in_lo [of _ _ lo] by (simp add: del_done_def del_vetoed_def split: option.splits)
    ultimately show ?thesis using assms(1) by auto
  qed
  then show ?thesis using t'(1) by (auto simp: mthr_showid_del_def same)
qed

text \<open>Marks set and removed, and the mark a thread has after that.\<close>

datatype mark_op = Set_mark "64 word" "bytes option" | Del_mark "64 word"

primrec op_tid :: "mark_op \<Rightarrow> 64 word" where
  "op_tid (Set_mark t m) = t"
| "op_tid (Del_mark t) = t"

primrec mark_step :: "mark_op \<Rightarrow> log_state \<Rightarrow> log_state option" where
  "mark_step (Set_mark t m) st = mthr_showid_add t m st"
| "mark_step (Del_mark t) st = map_option snd (mthr_showid_del t st)"

primrec run_marks :: "mark_op list \<Rightarrow> log_state \<Rightarrow> log_state option" where
  "run_marks [] st = Some st"
| "run_marks (x # xs) st = do { st \<leftarrow> mark_step x st; run_marks xs st }"

primrec note_mark :: "mark_op \<Rightarrow> (64 word \<rightharpoonup> bytes option) \<Rightarrow> 64 word \<rightharpoonup> bytes option" where
  "note_mark (Set_mark t m) f = f(t \<mapsto> m)"
| "note_mark (Del_mark t) f = f(t := None)"

definition same_log :: "log_state \<Rightarrow> log_state \<Rightarrow> bool" where
  "same_log st st' \<longleftrightarrow> Showid st' = Showid st \<and> level st' = level st \<and> written st' = written st"

lemma mark_step_ok:
  assumes "marks_ok lo (thread_showid st)" "window lo (op_tid x)" "mthr_flg st \<or> thread_showid st = NULL"
  shows "\<exists>st'. mark_step x st = Some st' \<and> marks_ok lo (thread_showid st') \<and> same_log st st' \<and>
    (mthr_flg st' \<or> thread_showid st' = NULL) \<and>
    (\<lambda>u. mark_in u (thread_showid st')) = note_mark x (\<lambda>u. mark_in u (thread_showid st))"
proof (cases x)
  case (Set_mark t m)
  then obtain st' where st': "mthr_showid_add t m st = Some st'" "marks_ok lo (thread_showid st')" "mthr_flg st'"
      "\<And>u. mark_in u (thread_showid st') = (if u = t then Some m else mark_in u (thread_showid st))"
    using add_mark [OF assms(1), of t m] assms(2) by auto
  have "same_log st st'" using st'(1) by (auto simp: same_log_def mthr_showid_add_def bind_eq_Some_conv)
  moreover have "(\<lambda>u. mark_in u (thread_showid st')) = note_mark x (\<lambda>u. mark_in u (thread_showid st))"
    by (rule ext) (simp add: st'(4) Set_mark)
  ultimately show ?thesis using Set_mark st'(1-3) by simp
next
  case (Del_mark t)
  then obtain i st' where st': "mthr_showid_del t st = Some (i, st')" "marks_ok lo (thread_showid st')"
      "mthr_flg st' \<longleftrightarrow> mthr_flg st \<and> thread_showid st' \<noteq> NULL" "same_log st st'"
      "\<And>u. mark_in u (thread_showid st') = (if u = t then None else mark_in u (thread_showid st))"
    using del_mark [OF assms(1), of t] assms(2) by (auto simp: same_log_def)
  have "(\<lambda>u. mark_in u (thread_showid st')) = note_mark x (\<lambda>u. mark_in u (thread_showid st))"
    by (rule ext) (simp add: st'(5) Del_mark)
  moreover have "mthr_flg st' \<or> thread_showid st' = NULL"
  proof (cases "mthr_flg st")
    case False
    then have "thread_showid st = NULL" using assms(3) by simp
    then have "thread_showid st' = NULL" using st'(1) by (auto simp: mthr_showid_del_def)
    then show ?thesis ..
  qed (use st'(3) in simp)
  ultimately show ?thesis using Del_mark st'(1,2,4) by simp
qed

lemma run_marks_ok:
  assumes "marks_ok lo (thread_showid st)" "\<forall>x\<in>set xs. window lo (op_tid x)" "mthr_flg st \<or> thread_showid st = NULL"
  shows "\<exists>st'. run_marks xs st = Some st' \<and> marks_ok lo (thread_showid st') \<and> same_log st st' \<and>
    (mthr_flg st' \<or> thread_showid st' = NULL) \<and>
    (\<lambda>u. mark_in u (thread_showid st')) = fold note_mark xs (\<lambda>u. mark_in u (thread_showid st))"
  using assms
proof (induction xs arbitrary: st)
  case (Cons x xs)
  obtain st1 where st1: "mark_step x st = Some st1" "marks_ok lo (thread_showid st1)" "same_log st st1"
      "mthr_flg st1 \<or> thread_showid st1 = NULL"
      "(\<lambda>u. mark_in u (thread_showid st1)) = note_mark x (\<lambda>u. mark_in u (thread_showid st))"
    using mark_step_ok [OF Cons.prems(1) _ Cons.prems(3)] Cons.prems(2) by auto
  obtain st2 where st2: "run_marks xs st1 = Some st2" "marks_ok lo (thread_showid st2)" "same_log st1 st2"
      "mthr_flg st2 \<or> thread_showid st2 = NULL"
      "(\<lambda>u. mark_in u (thread_showid st2)) = fold note_mark xs (\<lambda>u. mark_in u (thread_showid st1))"
    using Cons.IH [OF st1(2) _ st1(4)] Cons.prems(2) by auto
  moreover have "same_log st st2" using st1(3) st2(3) by (simp add: same_log_def)
  ultimately show ?case using st1(1,5) by simp
qed (simp add: same_log_def)

lemma mark_after:
  assumes "thread_showid st = NULL" "\<forall>x\<in>set xs. window lo (op_tid x)" "window lo t"
  shows "\<exists>st'. run_marks xs st = Some st' \<and> same_log st st' \<and>
    mark_of t st' = (case fold note_mark xs Map.empty t of None \<Rightarrow> Showid st | Some m \<Rightarrow> m)"
proof -
  have "marks_ok lo (thread_showid st)" "(\<lambda>u. mark_in u (thread_showid st)) = Map.empty"
    using assms(1) by (simp_all add: marks_ok_def mark_in_def fun_eq_iff)
  then obtain st' where st': "run_marks xs st = Some st'" "marks_ok lo (thread_showid st')" "same_log st st'"
      "mthr_flg st' \<or> thread_showid st' = NULL"
      "(\<lambda>u. mark_in u (thread_showid st')) = fold note_mark xs Map.empty"
    using run_marks_ok [of lo st xs] assms(1,2) by auto
  have "mark_in t (thread_showid st') = fold note_mark xs Map.empty t" using fun_cong [OF st'(5), of t] .
  moreover have "mark_in t (thread_showid st') = None" if "\<not> mthr_flg st'"
    using st'(4) that by (simp add: mark_in_def)
  moreover have "Showid st' = Showid st" using st'(3) by (simp add: same_log_def)
  ultimately have "mark_of t st' = (case fold note_mark xs Map.empty t of None \<Rightarrow> Showid st | Some m \<Rightarrow> m)"
    using mark_of_tree [OF st'(2) assms(3)] by (cases "mthr_flg st'") (simp_all split: option.split)
  then show ?thesis using st'(1,3) by blast
qed

lemma mark_of_update [simp]: "mark_of t (st\<lparr>LOGFILE := a\<rparr>) = mark_of t st" "mark_of t (st\<lparr>opened := b\<rparr>) = mark_of t st"
    "mark_of t (st\<lparr>level := k\<rparr>) = mark_of t st"
  by (simp_all add: mark_of_def split: T_Tree.split)

lemma setlogfile_keeps:
  assumes "\<And>cp. not_empty (getenv (lenv W) (chars ''LOGFILE'')) = Some cp \<Longrightarrow> log_name W cp \<noteq> None"
  shows "\<exists>i st'. setlogfile W st = Some (i, st') \<and> mark_of t st' = mark_of t st \<and> Showid st' = Showid st \<and>
    written st' = written st"
proof (cases "not_empty (getenv (lenv W) (chars ''LOGFILE''))")
  case (Some cp)
  then obtain fn where "log_name W cp = Some fn" using assms by blast
  then show ?thesis using Some by (simp add: setlogfile_def Let_def)
qed (simp add: setlogfile_def)

text \<open>C36: Threads set and remove their marks in any order.  Among threads whose numbers are less than 2 to
  the 31 apart, the line \<open>ShowLog\<close> then writes for a thread, when the level admits it, the name of
  the file can be made and the line fits its array, carries the mark last set for this thread, and
  the mark of the process when none was set or the last one was removed.\<close>

theorem marks_are_kept:
  assumes "thread_showid st = NULL" "\<forall>x\<in>set xs. window lo (op_tid x)" "window lo (self W)"
    and "debug_level \<noteq> -1" "debug_level \<le> log_level W (level st)" "fmt \<noteq> []"
    and "\<And>cp. not_empty (getenv (lenv W) (chars ''LOGFILE'')) = Some cp \<Longrightarrow> log_name W cp \<noteq> None"
    and "mark = (case fold note_mark xs Map.empty (self W) of None \<Rightarrow> Showid st | Some m \<Rightarrow> m)"
    and "length (line_text W mark debug_level fmt) < line_room st fmt"
  shows "\<exists>st1 st2. run_marks xs st = Some st1 \<and> ShowLog W debug_level fmt st1 = Some (1, st2) \<and>
    written st2 = written st @ [vformat W (line_text W mark debug_level fmt)]"
proof -
  obtain st1 where st1: "run_marks xs st = Some st1" "same_log st st1" "mark_of (self W) st1 = mark"
    using mark_after [OF assms(1-3)] assms(8) by blast
  let ?st = "st1\<lparr>level := log_level W (level st1)\<rparr>"
  obtain i st2 where "setlogfile W ?st = Some (i, st2)" "mark_of (self W) st2 = mark_of (self W) ?st"
      "Showid st2 = Showid ?st" "written st2 = written ?st"
    using setlogfile_keeps [OF assms(7)] by blast
  moreover have "mark_of (self W) ?st = mark" using st1(3) by simp
  ultimately show ?thesis using st1 assms(4-6,9)
    by (simp add: ShowLog_def same_log_def line_format_def line_room_def not_less)
qed

text \<open>A thread whose number is a multiple of 2 to the 32 above that of a marked thread writes its
  lines under the other's mark: the comparison keeps 32 bits of the difference.\<close>

theorem mark_of_other_thread:
  assumes "thread_showid st = NULL"
  shows "\<exists>st'. mthr_showid_add t (Some m) st = Some st' \<and> mark_of (t + push_bit 32 k) st' = Some m"
proof -
  have "ucast (push_bit 32 k :: 64 word) = (0 :: 32 word)"
    by (rule bit_word_eqI) (simp add: bit_simps)
  then have "mts_cmp \<lparr>tid = t, showid = Some m\<rparr> \<lparr>tid = t + push_bit 32 k, showid = None\<rparr> = 0"
    by (simp add: mts_cmp_def)
  then show ?thesis using assms by (simp add: mthr_showid_add_def mark_of_def)
qed

lemma not_segment: "segment a b c d \<noteq> Log"
  by (simp add: segment_def split: option.split)

lemma not_log: "sfx_two a b c \<noteq> Log" "sfx_five a b c d \<noteq> Log" "sfx_four a b c d e \<noteq> Some Log"
  by (simp_all add: sfx_two_def sfx_five_def sfx_four_def Let_def not_segment)

text \<open>A setting of \<open>LOGSEG\<close> that begins with a number gives the address of an array that is gone, or a
  null pointer, and no line is written.\<close>

theorem segments_are_lost:
  assumes "not_empty (getenv (lenv W) (chars ''LOGSEG'')) = Some p" "scan_next p \<noteq> None"
    and "not_empty (getenv (lenv W) (chars ''LOGFILE'')) = Some cp" "debug_level \<noteq> -1" "debug_level \<le> log_level W (level st)"
  shows "ShowLog W debug_level fmt st = None"
proof -
  have sfx: "getsfx (getenv (lenv W) (chars ''LOGSEG'')) now \<noteq> Some Log" for now
  proof -
    have "scan_numbers (chars ''?:'') p \<noteq> []" using assms(2) by (auto split: option.split)
    then show ?thesis
      unfolding getsfx_def assms(1) Let_def by (simp add: not_segment not_log split: list.split)
  qed
  have "log_name W cp = None"
    using sfx by (auto simp: log_name_def split: suffix.splits bind_splits)
  then show ?thesis using assms(3-5) by (simp add: ShowLog_def setlogfile_def)
qed

text \<open>The room of a line is that of the mark of the process: a longer mark of the thread overruns it.\<close>

theorem long_mark_overruns_line:
  assumes "mark_of (self W) st = Some m" "fmt \<noteq> []"
    and "length fmt + (case Showid st of Some s \<Rightarrow> length s | None \<Rightarrow> 1) + 50 \<le> length m + length fmt"
  shows "line_format W st debug_level fmt = None"
  using assms by (simp add: line_format_def line_text_def line_room_def Let_def)

definition new_log :: log_state where
  "new_log = \<lparr>LOGFILE = [], Showid = None, thread_showid = NULL, mthr_flg = False, level = -1, opened = [], written = []\<rparr>"

definition noon :: log_world where
  "noon = \<lparr>lenv = key_env, today = 0, timezone = 0, tm_mon = 0, tm_mday = 1, tm_wday = 4, tm_hour = 12, tm_min = 0,
     tm_sec = 0, st_ctime = \<lambda>_. None, freopen = \<lambda>_. True, self = 5, vformat = \<lambda>f. f\<rparr>"

theorem marks_are_kept_witness:
  "\<exists>st1 st2. run_marks [Set_mark 5 (Some [65]), Set_mark 9 (Some [66]), Set_mark 5 (Some [67]), Del_mark 9] new_log = Some st1 \<and>
    ShowLog noon 1 (chars ''hello'') st1 = Some (1, st2) \<and>
    written st2 = [chars ''1 C 01/01 12:00'' @ [0x27] @ chars ''00 hello'' @ [0x0A]]"
proof -
  have "line_text noon (Some [67]) 1 (chars ''hello'') = chars ''1 C 01/01 12:00'' @ [0x27] @ chars ''00 hello'' @ [0x0A]"
    by code_simp
  moreover have "not_empty (getenv (lenv noon) (chars ''LOGFILE'')) = None" "log_level noon (level new_log) = 2"
    by code_simp+
  ultimately show ?thesis
    using marks_are_kept [of new_log "[Set_mark 5 (Some [65]), Set_mark 9 (Some [66]), Set_mark 5 (Some [67]), Del_mark 9]" 0 noon
        1 "chars ''hello''" "Some [67]"]
    by (simp add: new_log_def window_def line_room_def) (simp add: noon_def)
qed

theorem mark_of_other_thread_witness:
  "\<exists>st'. mthr_showid_add 7 (Some [1]) new_log = Some st' \<and> mark_of (7 + push_bit 32 1) st' = Some [1]"
  by (rule mark_of_other_thread) (simp add: new_log_def)

end
