(* ===== verification/Tpl_Json.thy ===== *)
theory Tpl_Json
  imports Json_Pack Remote_Client Key_File
begin

text \<open>Templates as JSON: \<open>tpl_to_JSON\<close> and \<open>new_tpl_fromJSON\<close> of \<open>src/pack/json_pack.c\<close>, the library of
  templates \<open>src/pack/tpl_lib.c\<close>, record mappings made from it in \<open>src/pack/SRM_json.c\<close>, and
  \<open>src/sccli/N_get_tpl.c\<close>, which asks a server for templates.\<close>

section \<open>One column\<close>

text \<open>The template of a column, \<open>tpl_tpl\<close>.  \<open>stu_to_json\<close> with it sees two numbers and two pointers to
  text; a null pointer gives no member, and a column that is a structure has a pointer to
  its template where the text of the format is expected (\<open>None\<close>).\<close>

definition tpl_tpl :: "T_PkgType list" where
  "tpl_tpl = [PkgType CH_INT 4 (Some (chars ''type'')) No_Format (-1) 0, PkgType CH_INT 4 (Some (chars ''len'')) No_Format 0 0,
     PkgType CH_CLOB (-1) (Some (chars ''name'')) No_Format 0 0, PkgType CH_CLOB (-1) (Some (chars ''format'')) No_Format 0 0,
     PkgType (-1) 0 None No_Format 0 0]"

definition int_text :: "strlib \<Rightarrow> int \<Rightarrow> bytes" where
  "int_text lib v = (if v = null_int 4 then [] else itoStr lib v)"

definition text_member :: "string \<Rightarrow> bytes option \<Rightarrow> members" where
  "text_member key s = (case s of None \<Rightarrow> [] | Some s \<Rightarrow> [(chars key, Jstring s)])"

definition entry_members :: "strlib \<Rightarrow> T_PkgType \<Rightarrow> members option" where
  "entry_members lib t =
     (let ty = int_text lib (ptype t); n = int_text lib (plen t) in
      if 50 \<le> length ty \<or> 50 \<le> length n then None
      else do {
        fmt \<leftarrow> (case pformat t of No_Format \<Rightarrow> Some None | Text_Format f \<Rightarrow> Some (Some f) | Struct_Format _ \<Rightarrow> None);
        Some (text_member ''type'' (Some ty) @ text_member ''len'' (Some n) @
              text_member ''name'' (pname t) @ text_member ''format'' fmt) })"

text \<open>\<open>json_to_struct\<close> with \<open>tpl_tpl\<close> into a column of zeros, and the number of members found; \<open>None\<close>
  for a value that is no object.\<close>

definition entry_int :: "(json \<Rightarrow> bytes) \<Rightarrow> json \<Rightarrow> string \<Rightarrow> (int \<times> int) option" where
  "entry_int txt j key =
     map_option (\<lambda>s. case s of None \<Rightarrow> (0, 0) | Some s \<Rightarrow> (if s = [] then null_int 4 else to_int (atoi s), 1))
       (json_get_string txt j (chars key))"

definition entry_text :: "(json \<Rightarrow> bytes) \<Rightarrow> json \<Rightarrow> string \<Rightarrow> (bytes option \<times> int) option" where
  "entry_text txt j key =
     map_option (\<lambda>s. (s, if s = None then 0 else 1)) (json_get_string txt j (chars key))"

definition read_entry :: "(json \<Rightarrow> bytes) \<Rightarrow> json \<Rightarrow> (T_PkgType \<times> int) option" where
  "read_entry txt j =
     (if j = Jnull then Some (PkgType 0 0 None No_Format 0 0, 0)
      else do {
        (ty, a) \<leftarrow> entry_int txt j ''type'';
        (n, b) \<leftarrow> entry_int txt j ''len'';
        (nm, c) \<leftarrow> entry_text txt j ''name'';
        (fmt, d) \<leftarrow> entry_text txt j ''format'';
        Some (PkgType ty n nm (case fmt of None \<Rightarrow> No_Format | Some f \<Rightarrow> Text_Format f) 0 0, a + b + c + d) })"

section \<open>Templates\<close>

fun tpl_to_JSON :: "strlib \<Rightarrow> T_PkgType list \<Rightarrow> json list \<Rightarrow> (int \<times> json list) option" where
  "tpl_to_JSON lib [] result = None"
| "tpl_to_JSON lib (t # ts) result =
     do { ms \<leftarrow> entry_members lib t;
          let result = result @ [Jobject ms] in
          (if ptype t > -1 then do { (i, result) \<leftarrow> tpl_to_JSON lib ts result; Some (i + 1, result) }
           else Some (0, result)) }"

text \<open>A column read: the copies of its texts, an empty format is dropped, and the first column has no
  offset yet.  A column without a name makes \<open>strdup\<close> read through a null pointer.\<close>

definition own_entry :: "bool \<Rightarrow> bytes \<Rightarrow> T_PkgType \<Rightarrow> T_PkgType" where
  "own_entry first nm t =
     PkgType (ptype t) (plen t) (Some nm)
       (case pformat t of Text_Format f \<Rightarrow> if f = [] then No_Format else Text_Format f | f \<Rightarrow> f)
       (if first then -1 else 0) 0"

fun new_entries :: "(json \<Rightarrow> bytes) \<Rightarrow> bool \<Rightarrow> json list \<Rightarrow> T_PkgType list option option" where
  "new_entries txt first [] = Some (Some [])"
| "new_entries txt first (j # js) =
     do { (t, ret) \<leftarrow> read_entry txt j;
          (if ret \<le> 0 then Some None
           else do {
             nm \<leftarrow> pname t;
             map_option (map_option (\<lambda>ts. own_entry first nm t # ts)) (new_entries txt False js) }) }"

definition end_type :: "T_PkgType \<Rightarrow> T_PkgType" where
  "end_type t = PkgType (-1) (plen t) (pname t) (pformat t) (poffset t) (pbindtype t)"

definition new_tpl_fromJSON :: "bool \<Rightarrow> (json \<Rightarrow> bytes) \<Rightarrow> json option \<Rightarrow> T_PkgType list option option" where
  "new_tpl_fromJSON room txt tpl_json =
     (case tpl_json of
        None \<Rightarrow> Some None
      | Some (Jarray js) \<Rightarrow>
          if js = [] \<or> \<not> room then Some None
          else map_option (map_option (\<lambda>ts. butlast ts @ [end_type (last ts)])) (new_entries txt True js)
      | _ \<Rightarrow> None)"

section \<open>The library of templates\<close>

text \<open>The static object \<open>tpl_lib\<close>, or none for a null pointer.\<close>

type_synonym tpl_store = "members option"

definition mk_tpl :: "bool \<Rightarrow> (json \<Rightarrow> bytes) \<Rightarrow> tpl_store \<Rightarrow> bytes \<Rightarrow> T_PkgType list option option" where
  "mk_tpl room txt tpl_lib tabnm =
     (case tpl_lib of
        None \<Rightarrow> Some None
      | Some ms \<Rightarrow> do {
          j \<leftarrow> object_get (Jobject ms) tabnm;
          (case j of None \<Rightarrow> Some None | Some j \<Rightarrow> new_tpl_fromJSON room txt (Some j)) })"

definition tpl_to_lib :: "strlib \<Rightarrow> T_PkgType list \<Rightarrow> bytes \<Rightarrow> tpl_store \<Rightarrow> (int \<times> tpl_store) option" where
  "tpl_to_lib lib tpl tabnm tpl_lib =
     do { (ret, js) \<leftarrow> tpl_to_JSON lib tpl [];
          Some (ret, Some (object_add (case tpl_lib of None \<Rightarrow> [] | Some ms \<Rightarrow> ms) tabnm (Jarray js))) }"

definition tpl_lib_cancel :: "tpl_store \<Rightarrow> tpl_store" where
  "tpl_lib_cancel tpl_lib = None"

text \<open>Record mappings: addr is the address of the record, or none when there is no memory, \<open>idx_ok\<close>
  whether there is memory for the index.\<close>

definition mk_srm :: "int option \<Rightarrow> bool \<Rightarrow> SRM \<Rightarrow> T_PkgType list \<Rightarrow> (SRM \<times> int) option" where
  "mk_srm addr idx_ok srm tpl =
     do { (n, tpl) \<leftarrow> set_offset tpl;
          let srm = srm\<lparr>Aflg := n, rec := addr\<rparr> in
          (if addr = None then Some (srm\<lparr>tp := None\<rparr>, MEMERR)
           else do {
             (tpl, idx) \<leftarrow> mk_col_idx tpl;
             let e = tpl ! nat n;
             pk \<leftarrow> (case pformat e of No_Format \<Rightarrow> Some None | Text_Format f \<Rightarrow> Some (Some f) | Struct_Format _ \<Rightarrow> None);
             Some (srm\<lparr>tp := Some tpl, befor := None, hint := None, colidx := (if idx_ok then Some idx else None),
                       tabname := pname e, pks := pk\<rparr>, 0) }) }"

definition SRM_tpl :: "bool \<Rightarrow> (json \<Rightarrow> bytes) \<Rightarrow> int option \<Rightarrow> bool \<Rightarrow> SRM \<Rightarrow> json option \<Rightarrow> (SRM \<times> int) option" where
  "SRM_tpl room txt addr idx_ok srm tpl_json =
     do { t \<leftarrow> new_tpl_fromJSON room txt tpl_json;
          (case t of None \<Rightarrow> Some (srm\<lparr>tp := None\<rparr>, -1) | Some tpl \<Rightarrow> mk_srm addr idx_ok srm tpl) }"

definition SRM_mk :: "bool \<Rightarrow> (json \<Rightarrow> bytes) \<Rightarrow> int option \<Rightarrow> bool \<Rightarrow> tpl_store \<Rightarrow> SRM option \<Rightarrow> bytes option
    \<Rightarrow> (SRM option \<times> int) option" where
  "SRM_mk room txt addr idx_ok tpl_lib srmp tabnm =
     (case (srmp, not_empty tabnm) of
        (Some srm, Some nm) \<Rightarrow> do {
          t \<leftarrow> mk_tpl room txt tpl_lib nm;
          (case t of
             None \<Rightarrow> Some (Some (srm\<lparr>tp := None\<rparr>), -2)
           | Some tpl \<Rightarrow> map_option (\<lambda>(srm, ret). (Some srm, ret)) (mk_srm addr idx_ok srm tpl)) }
      | _ \<Rightarrow> Some (srmp, -1))"

section \<open>Templates from a server\<close>

text \<open>conn is None for a null pointer, its content the variable of the connection.  \<open>err\<close> is the text
  of \<open>errno\<close>; the outer None is a read through a null pointer.\<close>

definition N_get_tpl :: "'c client_ext peer \<Rightarrow> (bytes \<Rightarrow> json option) \<Rightarrow> bytes \<Rightarrow> cli_var option option \<Rightarrow> bytes \<Rightarrow> int
    \<Rightarrow> 'c client_scheme \<Rightarrow> (json option \<times> 'c client_scheme) option" where
  "N_get_tpl P json_tokener_parse err conn tabnames rows l =
     (case conn of
        None \<Rightarrow> Some (None, l)
      | Some None \<Rightarrow> Some (None, l)
      | Some (Some v) \<Rightarrow> do {
          n \<leftarrow> service v ''get_tpl'';
          (case n of
             None \<Rightarrow> Some (Some (Jobject [(chars ''error'', Jstring (chars ''no such service '' @ [0x27] @ chars ''get_tpl'' @ [0x27, 0x21, 0x0A]))]), l)
           | Some n \<Rightarrow>
               let h = (request n 0 (ctx_id v) (int (length tabnames)) (Some tabnames))\<lparr>PKG_REC_NUM := rows,
                      ERRNO2 := (if status l \<noteq> 0 then PACK_STATUS else 0)\<rparr>;
                   (i, l) = SendPack P h l in
               if i \<noteq> 0 then Some (None, l\<lparr>Errno := -1\<rparr>)
               else case RecvPack P l of (i, h, l) \<Rightarrow>
                 if i \<noteq> 0
                 then (if 512 \<le> length (chars ''RecvPack err='' @ err) then None
                       else Some (Some (Jobject [(chars ''error'', Jstring (chars ''RecvPack err='' @ err))]), l\<lparr>Errno := -1\<rparr>))
                 else Some (Option.bind (data h) (\<lambda>s. json_tokener_parse (c_text s)), l)) })"

section \<open>The template of a column describes it\<close>

definition holds_text :: "strlib \<Rightarrow> mem \<Rightarrow> int \<Rightarrow> bytes option \<Rightarrow> bool" where
  "holds_text lib m p s =
     (let q = le_val (rd m p 8) in case s of None \<Rightarrow> q = 0 | Some s \<Rightarrow> q \<noteq> 0 \<and> str_at lib q = s)"

definition holds_entry :: "strlib \<Rightarrow> mem \<Rightarrow> int \<Rightarrow> T_PkgType \<Rightarrow> bool" where
  "holds_entry lib m base t \<longleftrightarrow>
     s_val (rd m base 4) = ptype t \<and> s_val (rd m (base + 4) 4) = plen t \<and> holds_text lib m (base + 8) (pname t) \<and>
     (case pformat t of No_Format \<Rightarrow> holds_text lib m (base + 16) None
      | Text_Format f \<Rightarrow> holds_text lib m (base + 16) (Some f) | Struct_Format _ \<Rightarrow> False)"

lemma tpl_tpl_layout:
  "set_offset tpl_tpl = Some (4, [PkgType CH_INT 4 (Some (chars ''type'')) No_Format 0 0,
     PkgType CH_INT 4 (Some (chars ''len'')) No_Format 4 0, PkgType CH_CLOB (-1) (Some (chars ''name'')) No_Format 8 0,
     PkgType CH_CLOB (-1) (Some (chars ''format'')) No_Format 16 0, PkgType (-1) 0 None No_Format 24 8])"
  by code_simp

lemma keys_differ [simp]:
  "chars ''type'' \<noteq> chars ''len''" "chars ''type'' \<noteq> chars ''name''" "chars ''type'' \<noteq> chars ''format''"
  "chars ''len'' \<noteq> chars ''type''" "chars ''len'' \<noteq> chars ''name''" "chars ''len'' \<noteq> chars ''format''"
  "chars ''name'' \<noteq> chars ''type''" "chars ''name'' \<noteq> chars ''len''" "chars ''name'' \<noteq> chars ''format''"
  "chars ''format'' \<noteq> chars ''type''" "chars ''format'' \<noteq> chars ''len''" "chars ''format'' \<noteq> chars ''name''"
  by code_simp+

lemma plain_name_key:
  "plain_name (Some (chars ''type'')) = Some (chars ''type'')" "plain_name (Some (chars ''len'')) = Some (chars ''len'')"
  "plain_name (Some (chars ''name'')) = Some (chars ''name'')" "plain_name (Some (chars ''format'')) = Some (chars ''format'')"
  by code_simp+

lemma number_column:
  assumes "plain_name nm = Some key" "s_val (rd m (base + off) 4) = v"
  shows "add_field_to_object lib m base (PkgType CH_INT 4 nm No_Format off b) ms =
    (if 50 \<le> length (int_text lib v) then None else Some (object_add ms key (Jstring (int_text lib v))))"
  using assms by (simp add: add_field_to_object_def get_one_str_def isnull_def print_int_def int_text_def Let_def)

lemma text_column:
  assumes "plain_name nm = Some key" "holds_text lib m (base + off) s"
  shows "add_field_to_object lib m base (PkgType CH_CLOB n nm No_Format off b) ms =
    Some (case s of None \<Rightarrow> ms | Some s \<Rightarrow> object_add ms key (Jstring s))"
  using assms by (cases s) (simp_all add: add_field_to_object_def holds_text_def Let_def)

text \<open>\<open>entry_members\<close> is what \<open>stu_to_json\<close> gives for a column in memory.\<close>

theorem entry_members_of_struct:
  assumes "holds_entry (strlib.truncate lib) m base t"
  shows "stu_to_json lib (Some []) m base tpl_tpl None None =
    map_option Some (entry_members (strlib.truncate lib) t)"
proof -
  let ?L = "strlib.truncate lib"
  obtain fmt where fmt: "(case pformat t of No_Format \<Rightarrow> Some None | Text_Format f \<Rightarrow> Some (Some f) | Struct_Format _ \<Rightarrow> None) = Some fmt"
      "holds_text ?L m (base + 16) fmt"
    using assms by (cases "pformat t") (auto simp: holds_entry_def)
  have h: "s_val (rd m (base + 0) 4) = ptype t" "s_val (rd m (base + 4) 4) = plen t" "holds_text ?L m (base + 8) (pname t)"
    using assms by (auto simp: holds_entry_def)
  note cols = number_column [OF plain_name_key(1) h(1), simplified] number_column [OF plain_name_key(2) h(2), simplified]
    text_column [OF plain_name_key(3) h(3), simplified] text_column [OF plain_name_key(4) fmt(2), simplified]
  have "stu_all ?L m base False tpl_tpl [] = entry_members ?L t"
    by (simp add: stu_all.simps tpl_tpl_layout stu_cols.simps cols entry_members_def fmt(1) object_add_def
        text_member_def Let_def split: option.split)
  then show ?thesis by (simp add: stu_to_json_def)
qed

section \<open>Templates come back from the library\<close>

definition column_key :: "T_PkgType \<Rightarrow> int \<times> int \<times> bytes option \<times> T_Format" where
  "column_key t = (ptype t, plen t, pname t, pformat t)"

definition int32 :: "int \<Rightarrow> bool" where
  "int32 v \<longleftrightarrow> - (2 ^ 31) \<le> v \<and> v < 2 ^ 31"

definition json_column :: "T_PkgType \<Rightarrow> bool" where
  "json_column t \<longleftrightarrow> int32 (ptype t) \<and> int32 (plen t) \<and> pname t \<noteq> None \<and>
     (case pformat t of No_Format \<Rightarrow> True | Text_Format f \<Rightarrow> f \<noteq> [] | Struct_Format _ \<Rightarrow> False)"

lemma to_int_id: "int32 v \<Longrightarrow> to_int v = v"
  by (simp add: to_int_def int32_def signed_of_int signed_take_bit_int_eq_self)

lemma int_text_facts:
  assumes "strproc_ok lib" "int32 v"
  shows "length (int_text lib v) < 50"
    and "(if int_text lib v = [] then null_int 4 else to_int (atoi (int_text lib v))) = v"
proof -
  have d: "itoStr lib v = decimal v" using assms(1) by (simp add: strproc_ok_def)
  show "length (int_text lib v) < 50"
    using assms(2) decimal_length [of v] by (auto simp: int_text_def d int32_def)
  show "(if int_text lib v = [] then null_int 4 else to_int (atoi (int_text lib v))) = v"
    using decimal_chars(1) to_int_id [OF assms(2)] by (simp add: int_text_def d atoi_def scan_decimal)
qed

lemma entry_round:
  assumes "strproc_ok lib" "json_column t"
  shows "\<exists>ms k. entry_members lib t = Some ms \<and> 0 < k \<and>
    read_entry txt (Jobject ms) = Some (PkgType (ptype t) (plen t) (pname t) (pformat t) 0 0, k)"
proof -
  obtain nm where nm: "pname t = Some nm" using assms(2) by (auto simp: json_column_def)
  note i = int_text_facts [OF assms(1), of "ptype t"] int_text_facts [OF assms(1), of "plen t"]
  show ?thesis
  proof (cases "pformat t")
    case No_Format
    then show ?thesis using assms(2) nm i
      by (simp add: entry_members_def read_entry_def entry_int_def entry_text_def text_member_def json_get_string_def
          object_get_def get_string_def json_column_def Let_def split: if_splits)
  next
    case (Text_Format f)
    then show ?thesis using assms(2) nm i
      by (simp add: entry_members_def read_entry_def entry_int_def entry_text_def text_member_def json_get_string_def
          object_get_def get_string_def json_column_def Let_def split: if_splits)
  qed (use assms(2) in \<open>simp add: json_column_def\<close>)
qed

lemma object_get_add:
  "object_get (Jobject (object_add ms key v)) key = Some (if v = Jnull then None else Some v)"
  "key' \<noteq> key \<Longrightarrow> object_get (Jobject (object_add ms key v)) key' = object_get (Jobject ms) key'"
proof -
  have "map_of (filter (\<lambda>m. fst m \<noteq> key) ms @ [(key, v)]) k = (if k = key then Some v else map_of ms k)" for k
    by (induction ms) auto
  then show "object_get (Jobject (object_add ms key v)) key = Some (if v = Jnull then None else Some v)"
    "key' \<noteq> key \<Longrightarrow> object_get (Jobject (object_add ms key v)) key' = object_get (Jobject ms) key'"
    by (simp_all add: object_get_def object_add_def)
qed

text \<open>A template: columns, and an end with the name of the table.\<close>

definition json_template :: "T_PkgType list \<Rightarrow> T_PkgType \<Rightarrow> bool" where
  "json_template cols e \<longleftrightarrow> (\<forall>t\<in>set cols. json_column t \<and> ptype t > -1) \<and> json_column e \<and> ptype e = -1"

lemma own_entry_key:
  "json_column t \<Longrightarrow> pname t = Some nm \<Longrightarrow>
     column_key (own_entry first nm (PkgType (ptype t) (plen t) (Some nm) (pformat t) 0 0)) = column_key t"
  by (auto simp: column_key_def own_entry_def json_column_def split: T_Format.splits)

lemma entries_round:
  assumes "strproc_ok lib" "json_template cols e"
  shows "\<exists>js ts. tpl_to_JSON lib (cols @ [e]) result = Some (int (length cols), result @ js) \<and>
    new_entries txt first js = Some (Some ts) \<and> map column_key ts = map column_key (cols @ [e]) \<and>
    poffset (hd ts) = (if first then -1 else 0)"
  using assms(2)
proof (induction cols arbitrary: result first)
  case Nil
  then have e: "json_column e" "ptype e = -1" by (auto simp: json_template_def)
  obtain nm where nm: "pname e = Some nm" using e by (auto simp: json_column_def)
  obtain ms k where ms: "entry_members lib e = Some ms" "0 < k"
      "read_entry txt (Jobject ms) = Some (PkgType (ptype e) (plen e) (pname e) (pformat e) 0 0, k)"
    using entry_round [OF assms(1) e(1)] by blast
  show ?case using ms e own_entry_key [OF e(1) nm, of first]
    by (intro exI [of _ "[Jobject ms]"]) (simp add: nm, simp add: own_entry_def)
next
  case (Cons t cols)
  then have t: "json_column t" "ptype t > -1" and c: "json_template cols e" by (auto simp: json_template_def)
  obtain nm where nm: "pname t = Some nm" using t by (auto simp: json_column_def)
  obtain ms k where ms: "entry_members lib t = Some ms" "0 < k"
      "read_entry txt (Jobject ms) = Some (PkgType (ptype t) (plen t) (pname t) (pformat t) 0 0, k)"
    using entry_round [OF assms(1) t(1)] by blast
  obtain js ts where js: "tpl_to_JSON lib (cols @ [e]) (result @ [Jobject ms]) = Some (int (length cols), (result @ [Jobject ms]) @ js)"
      "new_entries txt False js = Some (Some ts)" "map column_key ts = map column_key (cols @ [e])"
    using Cons.IH [OF c, of "result @ [Jobject ms]" False] by blast
  show ?case using ms t js own_entry_key [OF t(1) nm, of first]
    by (intro exI [of _ "Jobject ms # js"]) (simp add: nm, simp add: own_entry_def)
qed

text \<open>C35: A template stored in the library by \<open>tpl_to_lib\<close> is given back by \<open>mk_tpl\<close> with the types,
  lengths, names and formats of all its columns, ready to be laid out; the other templates of the
  library stay.\<close>

theorem template_through_library:
  assumes "strproc_ok lib" "json_template cols e"
  shows "\<exists>lib' tpl. tpl_to_lib lib (cols @ [e]) nm tpl_lib = Some (int (length cols), lib') \<and>
    mk_tpl True txt lib' nm = Some (Some tpl) \<and> map column_key tpl = map column_key (cols @ [e]) \<and>
    poffset (hd tpl) = -1 \<and> (\<forall>nm'. nm' \<noteq> nm \<longrightarrow> mk_tpl True txt lib' nm' = mk_tpl True txt tpl_lib nm')"
proof -
  obtain js ts where js: "tpl_to_JSON lib (cols @ [e]) [] = Some (int (length cols), js)"
      "new_entries txt True js = Some (Some ts)" "map column_key ts = map column_key (cols @ [e])" "poffset (hd ts) = -1"
    using entries_round [OF assms, of "[]" "txt" True] by auto
  have ts: "ts \<noteq> []" using js(3) by auto
  then have js0: "js \<noteq> []" using js(2) by auto
  have "column_key (last ts) = column_key e" using js(3) ts by (metis last_map last_snoc map_is_Nil_conv snoc_eq_iff_butlast)
  then have "end_type (last ts) = last ts"
    using assms(2) by (cases "last ts") (auto simp: column_key_def end_type_def json_template_def)
  then have mk: "new_tpl_fromJSON True txt (Some (Jarray js)) = Some (Some ts)"
    using js0 js(2) ts by (simp add: new_tpl_fromJSON_def)
  show ?thesis
    using js mk object_get_add(1) [of _ nm "Jarray js"] object_get_add(2) [where key = nm and v = "Jarray js"]
    by (auto simp: tpl_to_lib_def mk_tpl_def object_get_def split: option.split)
qed

text \<open>A template whose end has no name, as \<open>tpl_tpl\<close> itself, can be stored, but not read again: its
  null pointer is given to \<open>strdup\<close>.\<close>

lemma unnamed_entries:
  assumes "strproc_ok lib" "\<forall>t\<in>set cols. json_column t \<and> ptype t > -1"
    and e: "ptype e = -1" "int32 (plen e)" "pname e = None" "pformat e = No_Format"
  shows "\<exists>n js. tpl_to_JSON lib (cols @ [e]) result = Some (n, result @ js) \<and> js \<noteq> [] \<and> new_entries txt first js = None"
  using assms(2)
proof (induction cols arbitrary: result first)
  case Nil
  have "int32 (ptype e)" using e(1) by (simp add: int32_def)
  note i = int_text_facts [OF assms(1) this] int_text_facts [OF assms(1) e(2)]
  obtain ms where ms: "entry_members lib e = Some ms"
      "ms = text_member ''type'' (Some (int_text lib (ptype e))) @ text_member ''len'' (Some (int_text lib (plen e)))"
    using i e(3,4) by (auto simp: entry_members_def text_member_def Let_def)
  have "read_entry txt (Jobject ms) = Some (PkgType (ptype e) (plen e) None No_Format 0 0, 2)"
    using i by (auto simp: ms(2) read_entry_def entry_int_def entry_text_def text_member_def json_get_string_def
        object_get_def get_string_def split: if_splits)
  then show ?case using ms(1) e(1) by (intro exI [of _ "0::int"] exI [of _ "[Jobject ms]"]) simp
next
  case (Cons t cols)
  then have t: "json_column t" "ptype t > -1" by auto
  obtain nm where nm: "pname t = Some nm" using t by (auto simp: json_column_def)
  obtain ms k where ms: "entry_members lib t = Some ms" "0 < k"
      "read_entry txt (Jobject ms) = Some (PkgType (ptype t) (plen t) (pname t) (pformat t) 0 0, k)"
    using entry_round [OF assms(1) t(1)] by blast
  obtain n js where "tpl_to_JSON lib (cols @ [e]) (result @ [Jobject ms]) = Some (n, (result @ [Jobject ms]) @ js)"
      "js \<noteq> []" "new_entries txt False js = None"
    using Cons.IH [of "result @ [Jobject ms]" False] Cons.prems by auto
  then show ?case using ms t nm by (intro exI [of _ "n + 1"] exI [of _ "Jobject ms # js"]) simp
qed

theorem unnamed_end_is_not_read:
  assumes "strproc_ok lib" "\<forall>t\<in>set cols. json_column t \<and> ptype t > -1"
    and "ptype e = -1" "int32 (plen e)" "pname e = None" "pformat e = No_Format"
  shows "\<exists>n lib'. tpl_to_lib lib (cols @ [e]) nm tpl_lib = Some (n, lib') \<and> mk_tpl True txt lib' nm = None"
proof -
  obtain n js where "tpl_to_JSON lib (cols @ [e]) [] = Some (n, js)" "js \<noteq> []" "new_entries txt True js = None"
    using unnamed_entries [OF assms, of "[]" "txt" True] by auto
  then show ?thesis
    using object_get_add(1) [of _ nm "Jarray js"] by (auto simp: tpl_to_lib_def mk_tpl_def new_tpl_fromJSON_def)
qed

definition two_columns :: "T_PkgType list" where
  "two_columns = [PkgType 4 4 (Some [97]) No_Format (-1) 0, PkgType 1 11 (Some [98]) (Text_Format [37]) 4 0]"

definition two_end :: T_PkgType where
  "two_end = PkgType (-1) 0 (Some [116]) No_Format 16 4"

theorem template_through_library_witness:
  "\<exists>lib' tpl. tpl_to_lib (strlib.truncate json_lib) (two_columns @ [two_end]) [116] None = Some (2, lib') \<and>
    mk_tpl True (\<lambda>_. []) lib' [116] = Some (Some tpl) \<and> map column_key tpl = map column_key (two_columns @ [two_end]) \<and>
    poffset (hd tpl) = -1 \<and> (\<forall>nm'. nm' \<noteq> [116] \<longrightarrow> mk_tpl True (\<lambda>_. []) lib' nm' = mk_tpl True (\<lambda>_. []) None nm')"
proof -
  have "json_template two_columns two_end" by code_simp
  moreover have "strproc_ok (strlib.truncate json_lib)" using json_instance by (simp add: json_record_def)
  ultimately have "\<exists>lib' tpl. tpl_to_lib (strlib.truncate json_lib) (two_columns @ [two_end]) [116] None = Some (int (length two_columns), lib') \<and>
    mk_tpl True (\<lambda>_. []) lib' [116] = Some (Some tpl) \<and> map column_key tpl = map column_key (two_columns @ [two_end]) \<and>
    poffset (hd tpl) = -1 \<and> (\<forall>nm'. nm' \<noteq> [116] \<longrightarrow> mk_tpl True (\<lambda>_. []) lib' nm' = mk_tpl True (\<lambda>_. []) None nm')"
    by (rule template_through_library [rotated])
  then show ?thesis by (simp add: two_columns_def)
qed

end
