(* ===== verification/Hex_Num.thy ===== *)
theory Hex_Num
  imports A64 Pack
begin

text \<open>Numbers of several words as hexadecimal text: \<open>strhex\<close> and \<open>loadnum\<close> of \<open>src/crypto/a64n.c\<close>.\<close>

unbundle bit_operations_syntax

text \<open>\<open>sscanf\<close> with \<open>%X\<close>: blanks, a sign, \<open>0x\<close>, digits; None without a digit.  What is beyond
  \<open>unsigned long\<close> gives its greatest value; an \<open>unsigned int\<close> keeps 32 bits of the value.\<close>

definition hex_digit :: "byte \<Rightarrow> nat option" where
  "hex_digit c =
     (if 48 \<le> c \<and> c \<le> 57 then Some (unat c - 48)
      else if 65 \<le> c \<and> c \<le> 70 then Some (unat c - 55)
      else if 97 \<le> c \<and> c \<le> 102 then Some (unat c - 87) else None)"

definition hex_value :: "bytes \<Rightarrow> nat" where
  "hex_value ds = fold (\<lambda>c v. 16 * v + the (hex_digit c)) ds 0"

definition scan_hex :: "bytes \<Rightarrow> 32 word option" where
  "scan_hex s =
     (let p = dropWhile is_space s;
          neg = (take 1 p = [0x2D]);
          p = (if take 1 p \<in> {[0x2D], [0x2B]} then drop 1 p else p);
          q = drop 2 p;
          p = (if take 2 p \<in> {[0x30, 0x78], [0x30, 0x58]} \<and> (\<exists>c \<in> set (take 1 q). hex_digit c \<noteq> None) then q else p);
          ds = takeWhile (\<lambda>c. hex_digit c \<noteq> None) p;
          v = hex_value ds
      in if ds = [] then None
         else Some (if 2 ^ 64 \<le> v then - 1 else if neg then - of_nat v else of_nat v))"

text \<open>The loop: i counts the words that are left.  A text without a comma is not noticed, as it is
  not the pointer that is compared with 0 (\<open>None\<close>).\<close>

fun loadnum_loop :: "nat \<Rightarrow> bytes \<Rightarrow> 32 word list \<Rightarrow> 32 word list option" where
  "loadnum_loop 0 p num = Some num"
| "loadnum_loop (Suc i) p num =
     (if length num \<le> i then None
      else
        let num = (case scan_hex p of None \<Rightarrow> num | Some w \<Rightarrow> num[i := w]);
            p1 = dropWhile (\<lambda>c. c \<noteq> 0x2C) p
        in if p1 = [] then None else loadnum_loop i (drop 1 p1) num)"

definition loadnum :: "nat \<Rightarrow> bytes \<Rightarrow> 32 word list \<Rightarrow> 32 word list option" where
  "loadnum len str num = loadnum_loop len str num"

text \<open>\<open>%08X\<close> of a word.\<close>

definition hex_char :: "32 word \<Rightarrow> byte" where
  "hex_char d = (if d < 10 then 48 + ucast d else 55 + ucast d)"

definition hex8 :: "32 word \<Rightarrow> bytes" where
  "hex8 w = map (\<lambda>k. hex_char (drop_bit (4 * k) w AND 15)) (rev [0..<8])"

definition strhex :: "nat \<Rightarrow> 32 word list \<Rightarrow> bytes option \<Rightarrow> bytes option option" where
  "strhex n num str =
     (case str of
        None \<Rightarrow> Some None
      | Some s \<Rightarrow> if length num < n then None
          else Some (Some (if n = 0 then s else concat (map (\<lambda>w. hex8 w @ [0x2C]) (rev (take n num))))))"

section \<open>The words come back\<close>

lemma hex_char_list:
  "list_all (\<lambda>d. hex_digit (hex_char d) = Some (unat d) \<and> \<not> is_space (hex_char d) \<and> hex_char d \<noteq> 0x2C \<and>
     hex_char d \<notin> {0x2B, 0x2D, 0x78, 0x58}) (map of_nat [0..<16])"
  by code_simp

lemma hex_char_digit:
  assumes "d < 16"
  shows "hex_digit (hex_char d) = Some (unat d) \<and> \<not> is_space (hex_char d) \<and> hex_char d \<noteq> 0x2C \<and>
     hex_char d \<notin> {0x2B, 0x2D, 0x78, 0x58}"
proof -
  have "unat d < 16" using assms by (simp add: word_less_nat_alt)
  then have "d \<in> set (map of_nat [0..<16])" by (auto intro!: image_eqI [of _ _ "unat d"])
  then show ?thesis using hex_char_list unfolding list_all_iff by blast
qed

lemma nibble: "unat (drop_bit (4 * k) w AND 15 :: 32 word) = unat w div 16 ^ k mod 16"
proof -
  have "drop_bit (4 * k) w AND 15 = take_bit 4 (drop_bit (4 * k) w)"
    by (simp add: take_bit_eq_mask mask_eq_exp_minus_1)
  then have "unat (drop_bit (4 * k) w AND 15) = take_bit 4 (drop_bit (4 * k) (unat w))"
    using unsigned_less [of w, where ?'a = nat]
    by (simp only: unsigned_take_bit_eq unsigned_drop_bit_eq) (simp add: take_bit_nat_eq_self)
  then show ?thesis by (simp add: take_bit_eq_mod drop_bit_eq_div power_mult)
qed

lemma nibble_less: "(drop_bit (4 * k) w AND 15 :: 32 word) < 16"
  by (simp add: word_less_nat_alt nibble)

lemma hex8_fold:
  "fold (\<lambda>c v. 16 * v + the (hex_digit c)) (map (\<lambda>k. hex_char (drop_bit (4 * k) w AND 15)) (rev [0..<n]))
     (unat w div 16 ^ n) = unat w"
proof (induction n)
  case (Suc n)
  have "16 * (unat w div 16 ^ Suc n) + unat w div 16 ^ n mod 16 = unat w div 16 ^ n"
    by (simp only: power_Suc2 div_mult2_eq mult_div_mod_eq)
  then show ?case using Suc hex_char_digit [OF nibble_less [of n w]] by (simp add: nibble)
qed simp

lemma hex8_value: "hex_value (hex8 w) = unat w"
proof -
  have "unat w < 16 ^ 8" using unsigned_less [of w] by simp
  then show ?thesis using hex8_fold [where n = 8 and w = w] by (simp add: hex_value_def hex8_def)
qed

lemma hex8_chars:
  "\<forall>c\<in>set (hex8 w). hex_digit c \<noteq> None \<and> \<not> is_space c \<and> c \<noteq> 0x2C \<and> c \<notin> {0x2B, 0x2D, 0x78, 0x58}" "length (hex8 w) = 8"
  using hex_char_digit [OF nibble_less] by (auto simp: hex8_def simp del: upt_conv_Cons upt_rec)

lemma scan_hex8: "scan_hex (hex8 w @ 0x2C # rest) = Some w"
proof -
  obtain a b ds where h: "hex8 w = a # b # ds"
    using hex8_chars(2) [of w] by (cases "hex8 w"; cases "tl (hex8 w)") auto
  note c = hex8_chars(1) [of w, unfolded h]
  have comma: "hex_digit 0x2C = None" by code_simp
  have "takeWhile (\<lambda>c. hex_digit c \<noteq> None) (a # b # ds @ 0x2C # rest) = a # b # ds"
    using c comma by (auto simp: takeWhile_append)
  moreover have "hex_value (a # b # ds) = unat w" using hex8_value [of w] h by simp
  moreover have "unat w < 2 ^ 64" using unsigned_less [of w, where ?'a = nat] by simp
  ultimately show ?thesis using c by (simp add: scan_hex_def h Let_def)
qed

definition words_text :: "32 word list \<Rightarrow> bytes" where
  "words_text ws = concat (map (\<lambda>w. hex8 w @ [0x2C]) ws)"

lemma load_words:
  "length old = length ws \<Longrightarrow> loadnum_loop (length ws) (words_text (rev ws) @ s) (old @ rest) = Some (ws @ rest)"
proof (induction ws arbitrary: old rest rule: rev_induct)
  case Nil
  then show ?case by (simp add: words_text_def)
next
  case (snoc w ws)
  then obtain old1 x where old: "old = old1 @ [x]" "length old1 = length ws"
    by (metis length_append_singleton length_Suc_conv_rev)
  let ?t = "words_text (rev ws) @ s"
  have t: "words_text (rev (ws @ [w])) @ s = hex8 w @ 0x2C # ?t" by (simp add: words_text_def)
  have d: "dropWhile (\<lambda>c. c \<noteq> 0x2C) (hex8 w @ 0x2C # ?t) = 0x2C # ?t"
    using hex8_chars(1) [of w] by (simp add: dropWhile_append)
  have "loadnum_loop (length (ws @ [w])) (words_text (rev (ws @ [w])) @ s) (old @ rest) =
      loadnum_loop (length ws) ?t (old1 @ w # rest)"
    unfolding t by (simp add: old d scan_hex8 list_update_append Let_def)
  then show ?case using snoc.IH [OF old(2), of "w # rest"] by simp
qed

text \<open>The words \<open>strhex\<close> writes are read back by \<open>loadnum\<close>, whatever was in their place.\<close>

theorem hex_words_round_trip:
  assumes "length num = n" "length old = n" "0 < n"
  shows "\<exists>s. strhex n num (Some s0) = Some (Some s) \<and> length s = 9 * n \<and> loadnum n s (old @ rest) = Some (num @ rest)"
proof -
  have "length (words_text ws) = 9 * length ws" for ws
    by (induction ws) (simp_all add: words_text_def hex8_chars(2))
  then show ?thesis using assms load_words [of old num "[]" rest]
    by (simp add: strhex_def loadnum_def words_text_def [symmetric])
qed

end
