(* ===== verification/Pool_Init.thy ===== *)
theory Pool_Init
  imports SCPool Json_Pack Envcfg
begin

text \<open>How the pool of connections comes to be: \<open>scpool_init\<close> of \<open>src/sccli/scpool.c\<close> reads the servers
  from a file of delimited records, groups them by their node number through JSON objects, and
  makes a pool for every node with a path for every server; \<open>scpool_free\<close>, the accessors, and
  the callers \<open>release_SC_resource\<close> and \<open>get_SC_DBLABEL\<close>.  Names and addresses are left out, as in
  \<open>SCPool\<close>; mutexes and conditions can be made.\<close>

section \<open>The state\<close>

record sc_path =
  d_node :: int
  DBLABEL_of :: "bytes option"
  paths :: "path_lnk list"

record pool_state =
  scpool :: "sc_path list option"
  SCPOOLNUM :: int
  ctx_flg :: int
  log_level :: int

definition set_SC_loglevel :: "int \<Rightarrow> pool_state \<Rightarrow> int \<times> pool_state" where
  "set_SC_loglevel new_loglevel st = (log_level st, st\<lparr>log_level := new_loglevel\<rparr>)"

text \<open>\<open>SCPOOL_tpl\<close>, and the offset of the column \<open>NUM\<close> in its layout.\<close>

definition SCPOOL_tpl :: "T_PkgType list" where
  "SCPOOL_tpl =
    (let col = (\<lambda>ty n nm. PkgType ty n (Some (chars nm)) No_Format 0 0) in
     [PkgType CH_INT 4 (Some (chars ''d_node'')) No_Format (-1) 0, col CH_CHAR 17 ''DEVID'', col CH_CHAR 256 ''LABEL'',
      col CH_CHAR 17 ''UID'', col CH_CHAR 14 ''PWD'', col CH_INT 4 ''NUM'', col CH_INT 4 ''NEXT_d_node'',
      col CH_CHAR 81 ''HOST'', col CH_CHAR 21 ''PORT'', col CH_INT 4 ''MTU'', col CH_CHAR 172 ''family'',
      PkgType (-1) 0 None No_Format 0 0])"

definition NUM_offset :: int where "NUM_offset = 308"

section \<open>Reading the configuration\<close>

text \<open>The system: the file, its lines, the memory of \<open>node\<close> before and of every \<open>log\<close>, whether there is
  memory for the pools, the paths and the connections, the clock and the tables of services the
  paths have before.\<close>

record pool_world =
  plib :: sqllib
  penv :: envlib
  ptext :: "json \<Rightarrow> bytes"
  cfg_file :: "bytes \<Rightarrow> bytes option"
  node_mem :: mem
  log_mem :: mem
  pool_room :: bool
  path_room :: "nat \<Rightarrow> bool"
  lnk_room :: "nat \<Rightarrow> nat \<Rightarrow> bool"
  now_usec :: int
  old_tbl :: svc_table

text \<open>The key of a node; a number of ten digits, or nine and a sign, writes past the end of
  \<open>dnode_key[15]\<close>: \<open>pool_rows\<close> is then None.\<close>

definition dnode_key :: "int \<Rightarrow> bytes" where
  "dnode_key d = chars ''DNODE'' @ decimal d"

text \<open>One server joins the array of its node, or begins it.\<close>

definition cfg_add :: "bytes \<Rightarrow> json \<Rightarrow> members \<times> int \<Rightarrow> (members \<times> int) option" where
  "cfg_add key json c =
     (case c of (cfg, n) \<Rightarrow>
        do { a \<leftarrow> object_get (Jobject cfg) key;
             (case a of
                None \<Rightarrow> Some (object_add cfg key (Jarray [json]), n + 1)
              | Some (Jarray js) \<Rightarrow> Some (map (\<lambda>(k, v). if k = key then (k, Jarray (js @ [json])) else (k, v)) cfg, n)
              | _ \<Rightarrow> None) })"

text \<open>\<open>fgets\<close> into a buffer of 512 bytes; the rows of the lines: the node number and the members; what a short line does not set is left
  from the lines before.\<close>

function cfg_pieces :: "bytes \<Rightarrow> (bytes \<times> bool) list" where
  "cfg_pieces s = (case fgets 511 s of (b, feof, r) \<Rightarrow> (b, feof) # (if feof then [] else cfg_pieces r))"
  by pat_completeness auto
termination
  by (relation "measure length") (auto dest: fgets_shorter [of 510, simplified] simp: eq_commute [of "(_, _, _)"])

declare cfg_pieces.simps [simp del]

fun pool_rows :: "pool_world \<Rightarrow> mem \<Rightarrow> (bytes \<times> bool) list \<Rightarrow> (int \<times> members) list option" where
  "pool_rows W m [] = Some []"
| "pool_rows W m ((line, feof) # rest) =
     (if feof then Some []
      else
        let buf = TRIM (penv W) line in
        if buf = [] \<or> hd buf = 0x23 then pool_rows W m rest
        else do {
          (m, r) \<leftarrow> pkg_dispack (strlib.truncate (plib W)) m 0 buf SCPOOL_tpl (of_char (CHR ''|''));
          (if length buf \<le> length r then pool_rows W m rest
           else if length (dnode_key (s_val (rd m 0 4))) \<ge> 15 then None
           else do {
             ms \<leftarrow> stu_to_json (plib W) (Some []) m 0 SCPOOL_tpl None None;
             ms \<leftarrow> ms;
             rows \<leftarrow> pool_rows W m rest;
             Some ((s_val (rd m 0 4), ms) # rows) }) })"

fun cfg_rows :: "(int \<times> members) list \<Rightarrow> members \<times> int \<Rightarrow> (members \<times> int) option" where
  "cfg_rows [] c = Some c"
| "cfg_rows ((d, ms) # rows) c = do { c \<leftarrow> cfg_add (dnode_key d) (Jobject ms) c; cfg_rows rows c }"

section \<open>Making the pools\<close>

text \<open>A path for a server; \<open>Inl\<close> the error.\<close>

fun new_paths :: "pool_world \<Rightarrow> nat \<Rightarrow> nat \<Rightarrow> json list \<Rightarrow> (int + path_lnk list) option" where
  "new_paths W n j [] = Some (Inr [])"
| "new_paths W n j (json # js) =
     do { (m, i) \<leftarrow> json_to_struct (strlib.truncate (plib W)) (ptext W) (log_mem W) 0 (Some json) SCPOOL_tpl;
          (if \<not> lnk_room W n j then Some (Inl MEMERR)
           else do {
             r \<leftarrow> new_paths W n (j + 1) js;
             Some (case r of Inl e \<Rightarrow> Inl e
               | Inr ps \<Rightarrow> Inr (resource_init (s_val (rd m NUM_offset 4)) (int j) (now_usec W) (old_tbl W) # ps)) }) }"

fun new_pools :: "pool_world \<Rightarrow> nat \<Rightarrow> members \<Rightarrow> (int + sc_path list) option" where
  "new_pools W n [] = Some (Inr [])"
| "new_pools W n ((key, pjson) # cfg) =
     (case pjson of
        Jarray js \<Rightarrow> do {
          d \<leftarrow> scan_int (drop 5 key);
          (if \<not> path_room W n then Some (Inl MEMERR)
           else do {
             ps \<leftarrow> new_paths W n 0 js;
             (case ps of
                Inl e \<Rightarrow> Some (Inl e)
              | Inr ps \<Rightarrow> do {
                  r \<leftarrow> new_pools W (n + 1) cfg;
                  Some (case r of Inl e \<Rightarrow> Inl e
                    | Inr pools \<Rightarrow> Inr (\<lparr>d_node = d, DBLABEL_of = None, paths = ps\<rparr> # pools)) }) }) }
      | _ \<Rightarrow> None)"

definition scpool_init :: "pool_world \<Rightarrow> int \<Rightarrow> pool_state \<Rightarrow> (int \<times> pool_state) option" where
  "scpool_init W ctx_flag st =
     (if scpool st \<noteq> None then Some (0, st)
      else
        let st = st\<lparr>ctx_flg := ctx_flag\<rparr> in
        case getenv (penv W) (chars ''SCPOOLCFG'') of
          None \<Rightarrow> Some (-1, st)
        | Some p \<Rightarrow>
            if p = [] then Some (-1, st)
            else (case cfg_file W p of
                None \<Rightarrow> Some (-2, st)
              | Some s \<Rightarrow> do {
                  rows \<leftarrow> pool_rows W (node_mem W) (cfg_pieces s);
                  (cfg, n) \<leftarrow> cfg_rows rows ([], 0);
                  let st = st\<lparr>SCPOOLNUM := n\<rparr> in
                  (if n = 0 then Some (-3, st)
                   else if \<not> pool_room W then Some (MEMERR, st\<lparr>SCPOOLNUM := 0\<rparr>)
                   else
                     let st = (case getenv (penv W) (chars ''SCPOOL_LOGLEVEL'') of
                           Some (c # cs) \<Rightarrow> if is_digit c then st\<lparr>log_level := atoi (c # cs)\<rparr> else st
                         | _ \<Rightarrow> st) in
                     do { r \<leftarrow> new_pools W 0 cfg;
                          Some (case r of
                              Inl e \<Rightarrow> (e, st)
                            | Inr pools \<Rightarrow> (n, st\<lparr>scpool := Some pools\<rparr>)) }) }))"

section \<open>Freeing and looking up\<close>

text \<open>\<open>scpool_free\<close>: the sockets closed, in order; \<open>SCPOOLNUM\<close> keeps its value.\<close>

definition scpool_free :: "pool_state \<Rightarrow> pool_state \<times> int list" where
  "scpool_free st =
     (case scpool st of
        None \<Rightarrow> (st, [])
      | Some pools \<Rightarrow>
          (st\<lparr>scpool := None\<rparr>,
           concat (map (\<lambda>scp. concat (map (\<lambda>pl. filter (\<lambda>s. s > -1) (map Socket (lnk pl))) (paths scp))) pools)))"

definition get_scpoolnum :: "pool_state \<Rightarrow> int" where
  "get_scpoolnum st = SCPOOLNUM st"

text \<open>The numbers of the nodes and the paths, as the functions of \<open>SCPool\<close> take them.\<close>

definition node_numbers :: "pool_state \<Rightarrow> int list" where
  "node_numbers st = (case scpool st of None \<Rightarrow> [] | Some pools \<Rightarrow> map d_node pools)"

definition all_paths :: "pool_state \<Rightarrow> path_lnk list list" where
  "all_paths st = (case scpool st of None \<Rightarrow> [] | Some pools \<Rightarrow> map paths pools)"

definition set_paths :: "path_lnk list list \<Rightarrow> pool_state \<Rightarrow> pool_state" where
  "set_paths ps st = st\<lparr>scpool := map_option (\<lambda>pools. map2 (\<lambda>scp p. scp\<lparr>paths := p\<rparr>) pools ps) (scpool st)\<rparr>"

text \<open>\<open>get_SC_DBLABEL\<close> takes a connection to learn the label: \<open>learned\<close> is the label \<open>sc_connect\<close> may have
  left in the pool.  It gives the connection back without looking at it, so a broken one, the
  pointer \<open>-1\<close>, is followed (\<open>None\<close>).\<close>

definition get_SC_DBLABEL ::
    "'w connector \<Rightarrow> ('w \<Rightarrow> path_lnk list \<Rightarrow> bool \<times> path_lnk list \<times> 'w) \<Rightarrow> int \<Rightarrow> ('w \<Rightarrow> bytes option)
      \<Rightarrow> pool_state \<Rightarrow> int \<Rightarrow> 'w \<Rightarrow> (bytes option \<times> pool_state \<times> 'w) option" where
  "get_SC_DBLABEL connect wait now learned st poolno w =
     (case scpool st of
        None \<Rightarrow> Some (None, st, w)
      | Some pools \<Rightarrow>
          if ctx_flg st \<noteq> 0 \<or> poolno < 0 \<or> poolno \<ge> SCPOOLNUM st then Some (None, st, w)
          else if int (length pools) \<le> poolno then None
          else (case DBLABEL_of (pools ! nat poolno) of
              Some s \<Rightarrow> Some (Some s, st, w)
            | None \<Rightarrow> do {
                (r, ps, w) \<leftarrow> get_SC_connect connect wait now (all_paths st) poolno 0 w;
                ps \<leftarrow> (case r of
                    Link a b \<Rightarrow> release_SC_connect now (Some (a, b)) ps poolno
                  | No \<Rightarrow> Some ps
                  | _ \<Rightarrow> None);
                let st = set_paths ps st; label = learned w;
                    st = st\<lparr>scpool := map_option (\<lambda>p. p[nat poolno := (p ! nat poolno)\<lparr>DBLABEL_of := label\<rparr>]) (scpool st)\<rparr>
                in Some (label, st, w) }))"

text \<open>\<open>release_SC_resource\<close> with the place of the connection and its pool.\<close>

definition release_SC_resource ::
    "int \<Rightarrow> (nat \<times> nat) option \<Rightarrow> int \<Rightarrow> path_lnk list list \<Rightarrow> ((nat \<times> nat) option \<times> path_lnk list list) option" where
  "release_SC_resource now rs pool_no ps =
     (case rs of
        None \<Rightarrow> Some (None, ps)
      | Some c \<Rightarrow> map_option (\<lambda>ps. (None, ps)) (release_SC_connect now (Some c) ps pool_no))"

section \<open>Servers are grouped by their nodes\<close>

text \<open>The different elements of a list in the order of their first occurrence.\<close>

definition firsts :: "'a list \<Rightarrow> 'a list" where
  "firsts xs = rev (remdups (rev xs))"

lemma firsts_simps [simp]: "firsts [] = []" "firsts (xs @ [x]) = (if x \<in> set xs then firsts xs else firsts xs @ [x])"
  "set (firsts xs) = set xs" "distinct (firsts xs)"
  by (simp_all add: firsts_def)

lemma dnode_key_inject: "dnode_key d = dnode_key d' \<longleftrightarrow> d = d'"
  unfolding dnode_key_def by (metis same_append_eq scan_decimal option.inject)

lemma dnode_key_scan: "scan_int (drop 5 (dnode_key d)) = Some d"
  by (simp add: dnode_key_def scan_decimal)

text \<open>The configuration of rows.\<close>

definition of_node :: "(int \<times> members) list \<Rightarrow> int \<Rightarrow> json list" where
  "of_node rows d = map (Jobject \<circ> snd) (filter (\<lambda>r. fst r = d) rows)"

definition cfg_of :: "(int \<times> members) list \<Rightarrow> members" where
  "cfg_of rows = map (\<lambda>d. (dnode_key d, Jarray (of_node rows d))) (firsts (map fst rows))"

lemma cfg_of_get:
  "object_get (Jobject (cfg_of rows)) (dnode_key d) =
     Some (if d \<in> fst ` set rows then Some (Jarray (of_node rows d)) else None)"
proof -
  have "map_of (map (\<lambda>d. (dnode_key d, f d)) ds) (dnode_key d) = (if d \<in> set ds then Some (f d) else None)" for f :: "int \<Rightarrow> json" and ds
    by (induction ds) (auto simp: dnode_key_inject)
  then show ?thesis by (simp add: object_get_def cfg_of_def)
qed

lemma cfg_rows_append: "cfg_rows (xs @ ys) c = do { c \<leftarrow> cfg_rows xs c; cfg_rows ys c }"
  by (induction xs arbitrary: c) (auto simp: bind_assoc split: bind_splits)

lemma cfg_rows_groups: "cfg_rows rows ([], 0) = Some (cfg_of rows, int (length (firsts (map fst rows))))"
proof (induction rows rule: rev_induct)
  case Nil
  then show ?case by (simp add: cfg_of_def)
next
  case (snoc r rows)
  obtain d ms where r: "r = (d, ms)" by force
  have other: "of_node (rows @ [(d, ms)]) d' = of_node rows d'" if "d' \<noteq> d" for d'
    using that by (simp add: of_node_def)
  have same: "of_node (rows @ [(d, ms)]) d = of_node rows d @ [Jobject ms]" by (simp add: of_node_def)
  show ?case
  proof (cases "d \<in> fst ` set rows")
    case True
    then show ?thesis using snoc
      by (simp add: r cfg_rows_append cfg_add_def cfg_of_get)
        (simp add: cfg_of_def dnode_key_inject other same cong: map_cong)
  next
    case False
    then have "of_node rows d = []" by (force simp: of_node_def filter_empty_conv)
    moreover have "filter (\<lambda>m. fst m \<noteq> dnode_key d) (cfg_of rows) = cfg_of rows"
      using False by (auto simp: filter_id_conv cfg_of_def dnode_key_inject)
    ultimately show ?thesis using snoc False
      by (simp add: r cfg_rows_append cfg_add_def cfg_of_get object_add_def)
        (auto simp: cfg_of_def same intro!: other [symmetric])
  qed
qed

text \<open>A JSON object goes into a structure of numbers and texts whatever its members are.\<close>

definition scalar_col :: "T_PkgType \<Rightarrow> bool" where
  "scalar_col t \<longleftrightarrow> plain_name (pname t) \<noteq> None \<and> ptype t \<noteq> CH_STRUCT \<and> ptype t \<noteq> CH_CLOB"

lemma put_scalar: "scalar_col t \<Longrightarrow> put_str_one lib m base cp t dlm \<noteq> None"
  by (simp add: scalar_col_def put_str_one_def Let_def)

lemma struct_cols_total:
  "\<forall>t\<in>set cols. scalar_col t \<Longrightarrow> ptype e < 0 \<Longrightarrow> struct_cols lib text m base (Jobject ms) (cols @ [e]) \<noteq> None"
proof (induction cols arbitrary: m)
  case Nil
  then show ?case by (simp add: struct_cols.simps)
next
  case (Cons t cols)
  obtain nm where nm: "plain_name (pname t) = Some nm" using Cons.prems(1) by (auto simp: scalar_col_def)
  obtain v where v: "object_get (Jobject ms) nm = Some v" by (simp add: object_get_def)
  show ?case
  proof (cases "ptype t < 0")
    case True
    then show ?thesis by (subst struct_cols.simps) simp
  next
    case False
    show ?thesis
    proof (cases v)
      case None
      then show ?thesis using Cons False nm v by (subst struct_cols.simps) simp
    next
      case (Some val)
      obtain m' r where "put_str_one lib m base (get_string text val) t 0 = Some (m', r)"
        using put_scalar Cons.prems(1) by (metis list.set_intros(1) not_None_eq surj_pair)
      then show ?thesis using Cons False nm v Some by (subst struct_cols.simps) (simp add: scalar_col_def)
    qed
  qed
qed

lemma SCPOOL_layout: "\<exists>cols e. laid_out SCPOOL_tpl = Some (cols @ [e]) \<and> (\<forall>t\<in>set cols. scalar_col t) \<and> ptype e < 0"
proof -
  have "(case laid_out SCPOOL_tpl of None \<Rightarrow> False
     | Some tpl \<Rightarrow> tpl \<noteq> [] \<and> list_all scalar_col (butlast tpl) \<and> ptype (last tpl) < 0)"
    by code_simp
  then obtain tpl where "laid_out SCPOOL_tpl = Some tpl" "tpl \<noteq> []" "list_all scalar_col (butlast tpl)" "ptype (last tpl) < 0"
    by (auto split: option.splits)
  then show ?thesis by (metis append_butlast_last_id list_all_iff)
qed

text \<open>The column \<open>NUM\<close> is where \<open>set_offset\<close> puts it.\<close>

lemma NUM_in_layout: "map_option (\<lambda>tpl. (poffset (tpl ! 5), pname (tpl ! 5))) (laid_out SCPOOL_tpl) = Some (NUM_offset, Some (chars ''NUM''))"
  by code_simp

lemma log_of_json: "\<exists>m i. json_to_struct lib text m0 base (Some (Jobject ms)) SCPOOL_tpl = Some (m, i)"
proof -
  obtain cols e where l: "laid_out SCPOOL_tpl = Some (cols @ [e])" "\<forall>t\<in>set cols. scalar_col t" "ptype e < 0"
    using SCPOOL_layout by blast
  then have "struct_cols lib text m0 base (Jobject ms) (cols @ [e]) \<noteq> None" by (intro struct_cols_total)
  then show ?thesis using l(1) by (auto simp: json_to_struct.simps)
qed

text \<open>What a path is when the pool begins: all its connections free, in a ring.\<close>

definition fresh_path :: "pool_world \<Rightarrow> nat \<Rightarrow> path_lnk \<Rightarrow> bool" where
  "fresh_path W j pl \<longleftrightarrow> (\<exists>NUM. pl = resource_init NUM (int j) (now_usec W) (old_tbl W))"

lemma new_paths_fresh:
  assumes "\<forall>n j. lnk_room W n j" "\<forall>j\<in>set js. \<exists>ms. j = Jobject ms"
  shows "\<exists>ps. new_paths W n j js = Some (Inr ps) \<and> length ps = length js \<and>
    (\<forall>i<length ps. fresh_path W (j + i) (ps ! i))"
  using assms(2)
proof (induction js arbitrary: j)
  case (Cons js1 js)
  then obtain ms where ms: "js1 = Jobject ms" by auto
  obtain m i where mi: "json_to_struct (strlib.truncate (plib W)) (ptext W) (log_mem W) 0 (Some js1) SCPOOL_tpl = Some (m, i)"
    using log_of_json ms by blast
  obtain ps where ps: "new_paths W n (j + 1) js = Some (Inr ps)" "length ps = length js"
      "\<forall>i<length ps. fresh_path W (j + 1 + i) (ps ! i)"
    using Cons.IH [of "j + 1"] Cons.prems by auto
  let ?p = "resource_init (s_val (rd m NUM_offset 4)) (int j) (now_usec W) (old_tbl W)"
  have "new_paths W n j (js1 # js) = Some (Inr (?p # ps))"
    using mi ps(1) assms(1) by simp
  moreover have "fresh_path W j ?p" by (auto simp: fresh_path_def)
  then have "\<forall>i<length (?p # ps). fresh_path W (j + i) ((?p # ps) ! i)"
    using ps(3) by (auto simp: nth_Cons split: nat.split)
  ultimately show ?case using ps(2) by auto
qed simp

lemma new_pools_fresh:
  assumes "\<forall>n j. lnk_room W n j" "\<forall>n. path_room W n"
  shows "\<exists>pools. new_pools W n (map (\<lambda>d. (dnode_key d, Jarray (of_node rows d))) ds) = Some (Inr pools) \<and>
    map d_node pools = ds \<and>
    (\<forall>p\<in>set pools. length (paths p) = length (of_node rows (d_node p)) \<and>
       (\<forall>i<length (paths p). fresh_path W i (paths p ! i)))"
proof (induction ds arbitrary: n)
  case (Cons d ds)
  obtain ps where ps: "new_paths W n 0 (of_node rows d) = Some (Inr ps)" "length ps = length (of_node rows d)"
      "\<forall>i<length ps. fresh_path W i (ps ! i)"
    using new_paths_fresh [OF assms(1), of "of_node rows d" n 0] by (auto simp: of_node_def)
  obtain pools where "new_pools W (n + 1) (map (\<lambda>d. (dnode_key d, Jarray (of_node rows d))) ds) = Some (Inr pools)"
      "map d_node pools = ds" "\<forall>p\<in>set pools. length (paths p) = length (of_node rows (d_node p)) \<and>
       (\<forall>i<length (paths p). fresh_path W i (paths p ! i))"
    using Cons.IH [of "n + 1"] by blast
  then show ?case using ps assms(2) by (simp add: dnode_key_scan)
qed simp

text \<open>C34: From a file of servers \<open>scpool_init\<close> makes one pool for every node, in the order in which the
  nodes first occur, and in it one path for every server of the node, all of whose connections
  are free in a ring; \<open>get_scpool_no\<close> then finds the pool of every node of the file.\<close>

theorem scpool_init_groups_servers:
  assumes "scpool st = None" "getenv (penv W) (chars ''SCPOOLCFG'') = Some f" "f \<noteq> []" "cfg_file W f = Some s"
    and "pool_rows W (node_mem W) (cfg_pieces s) = Some rows" "rows \<noteq> []"
    and "pool_room W" "\<forall>n. path_room W n" "\<forall>n j. lnk_room W n j"
  defines "ds \<equiv> firsts (map fst rows)"
  shows "\<exists>st'. scpool_init W flag st = Some (int (length ds), st') \<and> get_scpoolnum st' = int (length ds) \<and>
    node_numbers st' = ds \<and> length (all_paths st') = length ds \<and>
    (\<forall>k<length ds. get_scpool_no (node_numbers st') (ds ! k) = int k \<and>
       getPathNum (all_paths st') (int k) = int (length (filter (\<lambda>r. fst r = ds ! k) rows)) \<and>
       (\<forall>i<length (all_paths st' ! k). fresh_path W i (all_paths st' ! k ! i)))"
proof -
  let ?st = "st\<lparr>ctx_flg := flag, SCPOOLNUM := int (length ds)\<rparr>"
  let ?st = "case getenv (penv W) (chars ''SCPOOL_LOGLEVEL'') of
      Some (c # cs) \<Rightarrow> if is_digit c then ?st\<lparr>log_level := atoi (c # cs)\<rparr> else ?st | _ \<Rightarrow> ?st"
  have "ds \<noteq> []" using assms(6) by (metis ds_def firsts_simps(3) map_is_Nil_conv set_empty)
  obtain pools where pools: "new_pools W 0 (cfg_of rows) = Some (Inr pools)" "map d_node pools = ds"
      "\<forall>p\<in>set pools. length (paths p) = length (of_node rows (d_node p)) \<and> (\<forall>i<length (paths p). fresh_path W i (paths p ! i))"
    using new_pools_fresh [OF assms(9,8)] by (metis cfg_of_def ds_def)
  have l: "length pools = length ds" "\<And>k. k < length ds \<Longrightarrow> d_node (pools ! k) = ds ! k"
    using pools(2) by (metis length_map, metis length_map nth_map)
  have init: "scpool_init W flag st = Some (int (length ds), ?st\<lparr>scpool := Some pools\<rparr>)"
    using assms(1-7) \<open>ds \<noteq> []\<close> pools(1)
    by (simp add: scpool_init_def cfg_rows_groups Let_def ds_def [symmetric] split: option.split list.split)
  have st: "SCPOOLNUM (?st\<lparr>scpool := Some pools\<rparr>) = int (length ds)"
    by (simp split: option.split list.split)
  have at: "get_scpool_no ds (ds ! k) = int k" if "k < length ds" for k
  proof -
    have "find (\<lambda>n. ds ! n = ds ! k) [0..<length ds] = Some k"
      using that nth_eq_iff_index_eq [of ds] by (auto simp: find_Some_iff ds_def intro!: exI [of _ k])
    then show ?thesis by (simp add: get_scpool_no_def)
  qed
  have paths: "getPathNum (map paths pools) (int k) = int (length (filter (\<lambda>r. fst r = ds ! k) rows)) \<and>
      (\<forall>i<length (map paths pools ! k). fresh_path W i (map paths pools ! k ! i))" if "k < length ds" for k
    using pools(3) that l by (auto simp: getPathNum_def of_node_def)
  have "node_numbers (?st\<lparr>scpool := Some pools\<rparr>) = ds" "all_paths (?st\<lparr>scpool := Some pools\<rparr>) = map paths pools"
    using pools(2) by (simp_all add: node_numbers_def all_paths_def)
  then show ?thesis unfolding get_scpoolnum_def using init st at paths l(1)
    by (intro exI [of _ "?st\<lparr>scpool := Some pools\<rparr>"]) simp
qed

text \<open>Two servers of node 5 and one of node 7.\<close>

definition small_pool :: pool_world where
  "small_pool = \<lparr>plib = json_lib,
     penv = \<lparr>strsubst = \<lambda>s n r. (r @ drop n s, length r),
       getenv = \<lambda>v. if v = chars ''SCPOOLCFG'' then Some [0x66] else None,
       skipblk = \<lambda>s. length (takeWhile is_space s), TRIM = \<lambda>s. takeWhile (\<lambda>c. c \<noteq> 0x0A) s\<rparr>,
     ptext = \<lambda>_. [], cfg_file = \<lambda>_. Some (chars ''5|a|b|u|p|2|0|h|1|0||'' @ [0x0A] @ chars ''7|a|b|u|p|1|0|h|1|0||'' @ [0x0A] @
       chars ''5|c|b|u|p|1|0|k|1|0||'' @ [0x0A]),
     node_mem = \<lambda>_. 0, log_mem = \<lambda>_. 0, pool_room = True, path_room = \<lambda>_. True, lnk_room = \<lambda>_ _. True,
     now_usec = 0, old_tbl = no_table\<rparr>"

definition no_pool :: pool_state where
  "no_pool = \<lparr>scpool = None, SCPOOLNUM = 0, ctx_flg = 0, log_level = 0\<rparr>"

declare c_str.simps [code]

lemma small_rows:
  "map_option (map fst) (pool_rows small_pool (node_mem small_pool) (cfg_pieces (the (cfg_file small_pool [0x66])))) = Some [5, 7, 5]"
  by code_simp

theorem scpool_init_groups_servers_witness:
  "\<exists>st'. scpool_init small_pool 0 no_pool = Some (2, st') \<and> node_numbers st' = [5, 7] \<and> getPathNum (all_paths st') 0 = 2"
proof -
  obtain rows where rows: "pool_rows small_pool (node_mem small_pool) (cfg_pieces (the (cfg_file small_pool [0x66]))) = Some rows"
      "map fst rows = [5, 7, 5]"
    using small_rows by auto
  have ds: "firsts (map fst rows) = [5, 7]" unfolding rows(2) by (simp add: firsts_def)
  have n: "length (filter (\<lambda>r. fst r = 5) rows) = length (filter (\<lambda>d. d = 5) (map fst rows))"
    by (simp add: filter_map comp_def)
  have "cfg_file small_pool [0x66] = Some (the (cfg_file small_pool [0x66]))" "scpool no_pool = None"
      "getenv (penv small_pool) (chars ''SCPOOLCFG'') = Some [0x66]" "pool_room small_pool"
      "\<forall>n. path_room small_pool n" "\<forall>n j. lnk_room small_pool n j" "rows \<noteq> []"
    using rows(2) by (auto simp: no_pool_def small_pool_def)
  then obtain st' where "scpool_init small_pool 0 no_pool = Some (2, st')" "node_numbers st' = [5, 7]"
      "getPathNum (all_paths st') 0 = int (length (filter (\<lambda>r. fst r = 5) rows))"
    using scpool_init_groups_servers [of no_pool small_pool "[0x66]" "the (cfg_file small_pool [0x66])" rows 0] rows(1)
    unfolding ds by fastforce
  then show ?thesis using n rows(2) by auto
qed

end
