(* ===== verification/Spec2Isabelle.thy ===== *)
theory Spec2Isabelle
  imports BB_Tree_Del Binary_Search Multi_Hash Enigma Bignum Memzip Pack_Round_Trip Columns Key_Exchange
    Mod_SC NetPkg Servers Command_Session SQL_Client Listing Open_Auth
    Modules Show_Log Tpl_Json Hex_Num Pool_Init
begin

text \<open>
  A verification development of SDBC (Secure DataBase Connect), a C library by which clients
  reach services behind a server over encrypted, checked and compressed packets, with records
  described at run time by templates.

  The program.  \<open>src/ds\<close> holds the containers, \<open>src/crypto\<close> the ciphers, checksums,
  compressor and multi-word arithmetic, \<open>src/pack\<close> the templates that describe C structures
  and the text form of records, \<open>src/socket\<close> the packets, \<open>src/sccli\<close> the client with its
  pool of connections, \<open>src/scsrv\<close> the server with its pool of threads.  A client opens a
  connection (\<open>netconnect.c\<close>), agrees on a session key with the server (\<open>get_clikey.c\<close> and
  \<open>clikey.c\<close>, over the arithmetic of \<open>bignum.c\<close> and the printable numbers of \<open>a64n.c\<close>), logs
  in, fetches the table of services (\<open>getsvc.c\<close>) and calls them with packets
  (\<open>net_pkg.c\<close>) whose bodies are records packed as delimited text (\<open>pack.c\<close>).  The server
  (\<open>tpool.c\<close>) keeps a task control block per client, queues of tasks, and a finite state
  machine per client: negotiation, login, service.

  Conventions.  A byte is an 8 bit word, a C string a list of bytes without its terminator,
  a structure a record, an array a list.  Machine integers are words where they wrap;
  indices and lengths that the code keeps small are int or nat, and the theory that does so
  says which bound makes it faithful.  Undefined behaviour of C (an access outside an array,
  a null pointer followed, a buffer overrun, a data race of threads) and a loop that never ends are \<open>None\<close>, never a
  default value; errors the code reports are the values it returns.  Loops are structural
  recursions, functions with a measure, or \<open>partial_function (option)\<close> where they need
  not end: a theorem about such a loop states \<open>= Some \<dots>\<close>, so that ending is part of it;
  no definition uses fuel.  Memory allocation, the operating system, the DES and QuickLZ code, clocks and
  the string and date library of the authors (declared in \<open>strproc.h\<close> and \<open>datejul.h\<close>, not in
  the repository) are parameters of the definitions that call them; the theorems that need
  something of them say so in their hypotheses.

  Theories and sources.
  \<^item> \<open>Sdbc_Prelude\<close>: bytes, the error codes of \<open>strproc.h\<close>, \<open>MAX\<close>, lemmas on lists and
    words, and the locales \<open>comparator\<close> and \<open>rec_comparator\<close>: what a comparison callback
    promises to a container.
  \<^item> \<open>BB_Tree\<close> (\<open>ds/tree.c\<close>): the AVL tree as a datatype with the two depths of each node as
    the code stores them; \<open>BB_Tree_Add\<close> with its rotations, the six searches, traversal and
    destruction.  Lemmas: order, balance and stored depths are invariants, the contents are
    a finite map, a search costs at most the height, and the height is logarithmic.
  \<^item> \<open>BB_Tree_Del\<close> (\<open>ds/tree_del.c\<close>): deletion with the veto of the user's destructor.  The
    contents and the stored depths stay right, the balance does not (\<open>BB_Tree_Del_loses_balance\<close>).
  \<^item> \<open>Binary_Search\<close> (\<open>ds/Binary_search.c\<close>, \<open>ds/bound.c\<close>, the comparators of
    \<open>ds/tbound.c\<close>): searches through a callback, proved in the locale \<open>ascending\<close>.
  \<^item> \<open>Crc\<close> (\<open>crypto/crc.c\<close>, \<open>crypto/crc32.c\<close>), \<open>Enigma\<close> (\<open>crypto/enigma.c\<close>,
    \<open>crypto/enigma2.c\<close>; locale \<open>wheels\<close>, interpreted on every keyed state),
    \<open>Bignum\<close> (\<open>crypto/bignum.c\<close>, \<open>mulmod.c\<close>, \<open>expmod.c\<close>; the arithmetic refines that of
    the naturals through \<open>val\<close>; its local arrays bound the words of a number by 128, the callers
    use 4), \<open>Memzip\<close> (\<open>crypto/memzip.c\<close>: the decompressor on lists, for the round trip, and on the
    memory, where it is total and its writes are bounded; the two agree), \<open>A64\<close> (\<open>crypto/a64n.c\<close>).
  \<^item> \<open>Template\<close> (\<open>pack.h\<close>, \<open>pack/netvar.c\<close>, the name functions of \<open>pack/pack.c\<close>): templates,
    column lookup, and \<open>set_offset\<close>, which recomputes the layout of a C compiler.
  \<^item> \<open>Hash_Index\<close> (\<open>pack/colidx.c\<close>, the index of \<open>sccli/getsvc.c\<close>): static hash tables with
    chains.  The locale \<open>attaching\<close> is the contract of linking a slot into a chain; it is
    interpreted on both ways the code has, at the head (\<open>at_head\<close>) and at the tail
    (\<open>at_tail\<close>).
  \<^item> \<open>Multi_Hash\<close> (\<open>ds/multi_hash.c\<close>): a table over rows that lie in groups of equal keys,
    built in two passes, first the rows whose slot is free, then the conflicts.
  \<^item> \<open>Pack\<close>, \<open>Pack_Round_Trip\<close> (\<open>pack/pack.c\<close>, \<open>isnull\<close> of \<open>pack/netvar.c\<close>): records as
    delimited text and back.
  \<^item> \<open>SQL_Text\<close> (\<open>pack/mkfield.c\<close>, \<open>mkvalues.c\<close>, \<open>mk_where.c\<close>, the statements of
    \<open>SRM.c\<close>): the SQL that a template and a record give.  \<open>Columns\<close> (\<open>pack/patt_copy.c\<close>,
    \<open>setbind.c\<close>, \<open>except.c\<close>, \<open>SDBC_type.c\<close>, the rest of \<open>SRM.c\<close> and \<open>SRM_utility.c\<close>):
    which columns of a template take part.  \<open>except.c\<close> keeps names in the balanced tree, so
    the locale \<open>comparator\<close> is interpreted on \<open>strcmp\<close> (\<open>str_cmp\<close>).
  \<^item> \<open>Key_Exchange\<close> (\<open>sccli/get_clikey.c\<close>, \<open>scsrv/clikey.c\<close>, \<open>crypto/prikey128.c\<close>): both
    sides of the key negotiation.  The size of the array the server writes its answer to is an
    argument: with that of the code, 56, the accepted negotiation is None.
  \<^item> \<open>NetPkg\<close> (\<open>socket/net_pkg.c\<close>, \<open>socket/AIO_tcp.c\<close>, \<open>sc.h\<close>): packets.
  \<^item> \<open>Ring\<close>: queues kept as rings of indices, shared by the two pools.  The locales
    \<open>slot_pool\<close> (slots taken and given back) and \<open>queue_family\<close> (several queues over one
    array of links) are the interfaces; \<open>SCPool\<close> interprets the first (\<open>conns\<close>) and
    \<open>TPool\<close> the second (\<open>tasks\<close>) on their own operations.
  \<^item> \<open>SCPool\<close> (\<open>sccli/scpool.c\<close>, \<open>sccli/netconnect.c\<close>, \<open>init_svc_no\<close>): the pool of client
    connections as a state, the step relation \<open>pstep\<close> of its operations under the pool's
    locks, and the choice of a path by weight.
  \<^item> \<open>TPool\<close> (\<open>scsrv/tpool.c\<close>): the thread pool server as a state; \<open>api\<close> are the operations
    an application may call between two steps of the server, \<open>sstep\<close> the steps of a run;
    \<open>session\<close> and \<open>gate\<close> are the history of a client and what may be called after it.
  \<^item> \<open>Mod_SC\<close> (\<open>scsrv/mod_sc.c\<close>): a server that is itself a client.  A task of \<open>TPool\<close> that
    needs a connection of \<open>SCPool\<close> gets it or waits in a queue that a thread per pool serves;
    the states of both theories are threaded through.
  \<^item> \<open>Rpc\<close> (\<open>sc.h\<close>, \<open>scsrv/PutEvent.c\<close>, \<open>return_error.c\<close>, \<open>echo.c\<close>, \<open>EventCatch\<close>): a
    connection as a service or a caller sees it: what \<open>RecvPack\<close> gives, and the list of packets sent.
    \<open>Envcfg\<close> (\<open>conf/envcfg.c\<close>): names with references to the environment, configuration files.
  \<^item> \<open>Servers\<close> (\<open>scsrv/TPC_srv.c\<close>, \<open>PPC_srv.c\<close>, \<open>get_srvname.c\<close>, the reading of the table in
    \<open>sccli/getsvc.c\<close>): the servers with a thread or a process per connection, packet by packet,
    and the table of services as text and back.
  \<^item> \<open>Remote_Server\<close> (\<open>scsrv/rexec.c\<close>, \<open>SIO_fd.c\<close>) and \<open>Commands\<close> (\<open>Rexec\<close> and
    \<open>chkexec.c\<close>): the services for files, directories and commands over an operating system
    given as functions.  \<open>Remote_Client\<close> (\<open>sccli/client.c\<close>): their callers.
    \<open>File_Transfer\<close> and \<open>Command_Session\<close> put both ends together: each hears the packets the
    other sent.
  \<^item> \<open>SQL_Client\<close> (\<open>sccli/sqlc.c\<close>): the calls of the SQL services and the counter of open
    cursors and transactions, as a 32 bit word.
  \<^item> \<open>Key_File\<close> (\<open>ds/getdw.c\<close>, \<open>conf/decode.c\<close>): a dictionary of numbers in the balanced tree,
    which interprets \<open>rec_comparator\<close> (\<open>dw_cmp\<close>), the key of a database label and the
    deciphering of passwords with it.  \<open>Open_Auth\<close> (\<open>conf/openauth.c\<close>): the account of a label.
  \<^item> \<open>Listing\<close> (\<open>scsrv/filelist.c\<close>, \<open>sccli/getls.c\<close>, \<open>conf/isdir.c\<close>): lists of files, and the
    caller that takes them for errors.
  \<^item> \<open>Json_Pack\<close> (\<open>pack/json_pack.c\<close>, \<open>SRM_json.c\<close>, \<open>jerr.c\<close>): records as JSON objects, over the
    objects of the library in \<open>json-c-0.9\<close> as lists of members.
  \<^item> \<open>Tpl_Json\<close> (the templates of \<open>json_pack.c\<close>, \<open>pack/tpl_lib.c\<close>, \<open>SRM_json.c\<close>, \<open>sccli/N_get_tpl.c\<close>):
    templates as JSON, their library, and record mappings made from it.
  \<^item> \<open>Pool_Init\<close> (\<open>scpool_init\<close> and \<open>scpool_free\<close> of \<open>sccli/scpool.c\<close>): the servers of a file grouped by
    node into the pools that \<open>SCPool\<close> works on.
  \<^item> \<open>Modules\<close> (\<open>scsrv/dm_app.c\<close>, \<open>dmapp.c\<close>): libraries loaded into the server in a balanced tree
    (\<open>cmd_cmp\<close> interprets \<open>rec_comparator\<close>), first as functions of one thread, then as steps of many
    threads.  A search and an insertion have a beginning and an end there, as the code makes both under
    a read lock; what overlaps an insertion is a data race.  The run that unloads a module in use is
    proved possible, without a race.
  \<^item> \<open>Show_Log\<close> (\<open>conf/showlog.c\<close>): the log; the comparison of threads is an order only within a
    window, for which \<open>near\<close> interprets \<open>rec_comparator\<close>.  \<open>Hex_Num\<close>: \<open>strhex\<close> and \<open>loadnum\<close> of
    \<open>crypto/a64n.c\<close>.

  Not modelled: what only moves bytes to a file, a terminal or the kernel, third party code
  kept in the repository, and programs the build leaves out; the manifest lists every such
  file with its reason.  Of the modelled components, the texts of log messages are left out
  everywhere, and concurrency is the interleaving of the sections the code runs under a lock.
\<close>

end
